(* ===== verification/Prelude.thy ===== *)
theory Prelude
  imports Main "HOL-Library.Word" "HOL-Library.While_Combinator"
begin

text \<open>
  What every component of the model shares: the machine types of \<open>types.h\<close>, the error codes of
  \<open>errors.h\<close>, the ways in which kernel code stops instead of returning, the state and error monad
  in which the C functions are written, loops that may not end, and byte addressed memory with
  little endian 32 and 64 bit accesses.

  A C function that reads and writes a state \<open>'s\<close> is a value of \<open>('s, 'a) kern\<close>, a function from
  the state to either a \<open>fault\<close> (the code never returns) or the result with the new state.
\<close>

unbundle bit_operations_syntax

text \<open>
  \<open>kern\<close> collects the equations that run a computation on a given state.
\<close>

named_theorems kern

section \<open>Machine types and error codes\<close>

type_synonym u8 = "8 word"
type_synonym u16 = "16 word"
type_synonym u32 = "32 word"
type_synonym u64 = "64 word"
type_synonym addr = "64 word"
type_synonym status = int

datatype error = EINVAL | EOVERLAP | EFULL | ENOMAP | ENOENT | ENOTIMPL | EINTEGRITY

fun error_code :: "error \<Rightarrow> int" where
  "error_code EINVAL = 1"
| "error_code EOVERLAP = 2"
| "error_code EFULL = 3"
| "error_code ENOMAP = 4"
| "error_code ENOENT = 5"
| "error_code ENOTIMPL = 6"
| "error_code EINTEGRITY = 7"

text \<open>A \<open>status_t\<close> is a signed number: \<open>SUCCESS\<close>, a count, or the negated code of an error.\<close>

abbreviation SUCCESS :: status where
  "SUCCESS \<equiv> 0"

definition fails :: "error \<Rightarrow> status" where
  "fails e = - error_code e"

definition ISERROR :: "status \<Rightarrow> bool" where
  "ISERROR r \<longleftrightarrow> r < 0"

lemma error_code_pos [simp]: "0 < error_code e"
  by (cases e) simp_all

lemma error_code_inj [simp]: "error_code a = error_code b \<longleftrightarrow> a = b"
  by (cases a; cases b) simp_all

lemma ISERROR_fails [simp]: "ISERROR (fails e)"
  by (simp add: ISERROR_def fails_def)

lemma ISERROR_of_nat [simp]: "\<not> ISERROR (int n)" "\<not> ISERROR 0" "\<not> ISERROR 1"
  by (simp_all add: ISERROR_def)

lemma fails_inj [simp]: "fails a = fails b \<longleftrightarrow> a = b"
  by (simp add: fails_def)

lemma fails_neg: "fails e < 0"
  by (simp add: fails_def)

lemma fails_nonneg [simp]: "fails e \<noteq> int n" "fails e \<noteq> 0" "fails e \<noteq> 1"
    "int n \<noteq> fails e" "0 \<noteq> fails e" "1 \<noteq> fails e"
  using fails_neg[of e] by simp_all

section \<open>Code that may stop: the kernel monad\<close>

text \<open>
  \<open>AssertFailed\<close> is \<open>_assert_fail\<close>, which halts the machine; \<open>Unimplemented\<close> is the macro \<open>TODO\<close>;
  \<open>PageFault\<close> is an access through an address that is not mapped; \<open>Undefined\<close> is undefined
  behaviour of C; \<open>Diverges\<close> is a loop that never ends; \<open>TooDeep\<close> is the recursion through the
  three memory managers going deeper than the bound given to the model.
\<close>

datatype fault = AssertFailed | Unimplemented | PageFault | Undefined | Diverges | TooDeep

type_synonym ('s, 'a) kern = "'s \<Rightarrow> fault + ('a \<times> 's)"

definition ret :: "'a \<Rightarrow> ('s, 'a) kern" where
  "ret x = (\<lambda>s. Inr (x, s))"

definition halt :: "fault \<Rightarrow> ('s, 'a) kern" where
  "halt e = (\<lambda>s. Inl e)"

definition bnd :: "('s, 'a) kern \<Rightarrow> ('a \<Rightarrow> ('s, 'b) kern) \<Rightarrow> ('s, 'b) kern" where
  "bnd m f = (\<lambda>s. case m s of Inl e \<Rightarrow> Inl e | Inr (x, s') \<Rightarrow> f x s')"

definition thn :: "('s, 'a) kern \<Rightarrow> ('s, 'b) kern \<Rightarrow> ('s, 'b) kern" where
  "thn m k = bnd m (\<lambda>_. k)"

definition gets :: "('s \<Rightarrow> 'a) \<Rightarrow> ('s, 'a) kern" where
  "gets f = (\<lambda>s. Inr (f s, s))"

definition modify :: "('s \<Rightarrow> 's) \<Rightarrow> ('s, unit) kern" where
  "modify f = (\<lambda>s. Inr ((), f s))"

text \<open>\<open>ASSERT\<close> of \<open>assert.h\<close>.\<close>

definition asrt :: "bool \<Rightarrow> ('s, unit) kern" where
  "asrt b = (if b then ret () else halt AssertFailed)"

text \<open>A \<open>while\<close> loop over the local variables \<open>v\<close> and the state; \<open>Diverges\<close> if it never ends.\<close>

definition loop :: "('v \<Rightarrow> 's \<Rightarrow> bool) \<Rightarrow> ('v \<Rightarrow> ('s, 'v) kern) \<Rightarrow> 'v \<Rightarrow> ('s, 'v) kern" where
  "loop b c v = (\<lambda>s.
     case while_option
       (\<lambda>r. case r of Inl e \<Rightarrow> False | Inr (w, t) \<Rightarrow> b w t)
       (\<lambda>r. case r of Inl e \<Rightarrow> Inl e | Inr (w, t) \<Rightarrow> c w t)
       (Inr (v, s)) of
       None \<Rightarrow> Inl Diverges | Some r \<Rightarrow> r)"

text \<open>Run a computation on a part of the state.\<close>

definition zoom :: "('s \<Rightarrow> 'p) \<Rightarrow> ('p \<Rightarrow> 's \<Rightarrow> 's) \<Rightarrow> ('p, 'a) kern \<Rightarrow> ('s, 'a) kern" where
  "zoom g p m = (\<lambda>s. case m (g s) of Inl e \<Rightarrow> Inl e | Inr (x, q) \<Rightarrow> Inr (x, p q s))"

lemma ret_apply [kern]: "ret x s = Inr (x, s)"
  by (simp add: ret_def)

lemma halt_apply [kern]: "halt e s = Inl e"
  by (simp add: halt_def)

lemma gets_apply [kern]: "gets f s = Inr (f s, s)"
  by (simp add: gets_def)

lemma modify_apply [kern]: "modify f s = Inr ((), f s)"
  by (simp add: modify_def)

lemma asrt_apply [kern]: "asrt b s = (if b then Inr ((), s) else Inl AssertFailed)"
  by (simp add: asrt_def kern)

lemma bnd_Inr: "m s = Inr (x, s') \<Longrightarrow> bnd m f s = f x s'"
  by (simp add: bnd_def)

text \<open>The simplifier cannot use the rule above for a boolean result that is false.\<close>

lemma bnd_False: "m s = Inr (False, s') \<Longrightarrow> bnd m f s = f False s'"
  by (rule bnd_Inr)

lemma bnd_Inl: "m s = Inl e \<Longrightarrow> bnd m f s = Inl e"
  by (simp add: bnd_def)

lemma thn_Inr: "m s = Inr (x, s') \<Longrightarrow> thn m k s = k s'"
  by (simp add: thn_def bnd_def)

lemma thn_Inl: "m s = Inl e \<Longrightarrow> thn m k s = Inl e"
  by (simp add: thn_def bnd_def)

lemma bnd_simps [simp]:
  "bnd (ret x) f s = f x s" "bnd (halt e) f s = Inl e" "bnd (gets g) f s = f (g s) s"
  "bnd (modify h) f' s = f' () (h s)"
  "bnd (asrt b) f' s = (if b then f' () s else Inl AssertFailed)"
  by (simp_all add: bnd_def kern)

lemma thn_simps [simp]:
  "thn (ret x) k s = k s" "thn (halt e) k s = Inl e" "thn (gets g) k s = k s"
  "thn (modify h) k s = k (h s)"
  "thn (asrt b) k s = (if b then k s else Inl AssertFailed)"
  by (simp_all add: thn_def)

lemma zoom_simps [simp]:
  "zoom g p (ret x) s = Inr (x, p (g s) s)" "zoom g p (halt e) s = Inl e"
  "zoom g p (gets h) s = Inr (h (g s), p (g s) s)" "zoom g p (modify k) s = Inr ((), p (k (g s)) s)"
  by (simp_all add: zoom_def kern)

lemma bnd_assoc: "bnd (bnd m f) g = bnd m (\<lambda>x. bnd (f x) g)"
  by (rule ext) (simp add: bnd_def split: sum.splits prod.splits)

lemma zoom_Inr: "m (g s) = Inr (x, q) \<Longrightarrow> zoom g p m s = Inr (x, p q s)"
  by (simp add: zoom_def)

lemma zoom_Inl: "m (g s) = Inl e \<Longrightarrow> zoom g p m s = Inl e"
  by (simp add: zoom_def)

lemma loop_unfold [code]:
  "loop b c v s = (if b v s then bnd (c v) (loop b c) s else Inr (v, s))"
proof (cases "b v s")
  case False
  then show ?thesis by (simp add: loop_def while_option_unfold[of _ _ "Inr (v, s)"])
next
  case True
  show ?thesis
  proof (cases "c v s")
    case (Inl e)
    with True show ?thesis
      by (simp add: loop_def bnd_def while_option_unfold[of _ _ "Inr (v, s)"]
          while_option_unfold[of _ _ "Inl e"])
  next
    case (Inr p)
    with True show ?thesis
      by (cases p) (simp add: loop_def bnd_def while_option_unfold[of _ _ "Inr (v, s)"])
  qed
qed

lemma loop_stop: "\<not> b v s \<Longrightarrow> loop b c v s = Inr (v, s)"
  by (simp add: loop_unfold)

lemma loop_step: "b v s \<Longrightarrow> c v s = Inr (v', s') \<Longrightarrow> loop b c v s = loop b c v' s'"
  by (subst loop_unfold) (simp add: bnd_Inr)

lemma loop_fault: "b v s \<Longrightarrow> c v s = Inl e \<Longrightarrow> loop b c v s = Inl e"
  by (subst loop_unfold) (simp add: bnd_Inl)

text \<open>Total correctness of a loop: an invariant, and a measure that each round makes smaller.\<close>

lemma loop_total:
  fixes M :: "'v \<Rightarrow> 's \<Rightarrow> nat"
  assumes inv: "I v s"
    and body: "\<And>v s. I v s \<Longrightarrow> b v s \<Longrightarrow>
      \<exists>v' s'. c v s = Inr (v', s') \<and> I v' s' \<and> M v' s' < M v s"
  shows "\<exists>v' s'. loop b c v s = Inr (v', s') \<and> I v' s' \<and> \<not> b v' s'"
  using inv
proof (induction "M v s" arbitrary: v s rule: less_induct)
  case less
  show ?case
  proof (cases "b v s")
    case True
    with body[OF less.prems] obtain v' s' where
      "c v s = Inr (v', s')" "I v' s'" "M v' s' < M v s" by blast
    with less.hyps[of v' s'] True show ?thesis by (simp add: loop_step)
  next
    case False
    with less.prems show ?thesis by (simp add: loop_stop)
  qed
qed

text \<open>A loop that never ends: what holds at the start of each round leads to another round.\<close>

lemma loop_never:
  assumes inv: "I v s" and body: "\<And>v s. I v s \<Longrightarrow> b v s \<and> (\<exists>v' s'. c v s = Inr (v', s') \<and> I v' s')"
  shows "loop b c v s = Inl Diverges"
proof -
  let ?b = "\<lambda>r. case r of Inl e \<Rightarrow> False | Inr (w, t) \<Rightarrow> b w t" and ?c = "\<lambda>r. case r of Inl e \<Rightarrow> Inl e | Inr (w, t) \<Rightarrow> c w t"
  have "\<exists>w t. (?c ^^ k) (Inr (v, s)) = Inr (w, t) \<and> I w t" for k
  proof (induction k)
    case 0
    then show ?case using inv by simp
  next
    case (Suc k)
    then obtain w t where w: "(?c ^^ k) (Inr (v, s)) = Inr (w, t)" "I w t" by blast
    then obtain w' t' where "c w t = Inr (w', t')" "I w' t'" using body by blast
    then show ?case using w(1) by simp
  qed
  then have "?b ((?c ^^ k) (Inr (v, s)))" for k using body by (metis (mono_tags, lifting) case_prod_conv sum.case(2))
  then have "while_option ?b ?c (Inr (v, s)) = None" unfolding while_option_def by simp
  then show ?thesis by (simp add: loop_def)
qed

section \<open>Memory\<close>

type_synonym memory = "addr \<Rightarrow> u8"

text \<open>\<open>byte_of v i\<close> is the byte of \<open>v\<close> that lies \<open>i\<close> bytes above its address.\<close>

definition byte_of :: "'a::len word \<Rightarrow> nat \<Rightarrow> u8" where
  "byte_of v i = ucast (drop_bit (8 * i) v)"

definition st64 :: "addr \<Rightarrow> u64 \<Rightarrow> memory \<Rightarrow> memory" where
  "st64 a v m = (\<lambda>x. if x - a < 8 then byte_of v (unat (x - a)) else m x)"

definition ld64 :: "memory \<Rightarrow> addr \<Rightarrow> u64" where
  "ld64 m a = ucast (m a) OR push_bit 8 (ucast (m (a + 1))) OR push_bit 16 (ucast (m (a + 2)))
     OR push_bit 24 (ucast (m (a + 3))) OR push_bit 32 (ucast (m (a + 4)))
     OR push_bit 40 (ucast (m (a + 5))) OR push_bit 48 (ucast (m (a + 6)))
     OR push_bit 56 (ucast (m (a + 7)))"

text \<open>The low half of the eight bytes: the value depends on the four bytes at \<open>a\<close> only.\<close>

definition ld32 :: "memory \<Rightarrow> addr \<Rightarrow> u32" where
  "ld32 m a = ucast (ld64 m a)"

definition st32 :: "addr \<Rightarrow> u32 \<Rightarrow> memory \<Rightarrow> memory" where
  "st32 a v m = (\<lambda>x. if x - a < 4 then byte_of v (unat (x - a)) else m x)"

subsection \<open>Loads after stores\<close>

lemma bit_byte_of: "bit (byte_of v i) n \<longleftrightarrow> n < 8 \<and> bit v (8 * i + n)"
  by (auto simp: byte_of_def bit_simps ac_simps)

lemma bit_placed_byte:
  assumes "r < 8" "k < 8" "j < 8"
  shows "bit (push_bit (8 * j) (ucast (b :: u8) :: u64)) (8 * k + r) \<longleftrightarrow> j = k \<and> bit b r"
proof -
  have b: "\<not> bit b i" if "8 \<le> i" for i using that by (auto dest: bit_imp_le_length)
  consider "j = k" | "j < k" | "k < j" by linarith
  then show ?thesis
  proof cases
    case 1 then show ?thesis using assms by (simp add: bit_simps)
  next
    case 2 
    then have "8 \<le> 8 * k + r - 8 * j" by simp
    then show ?thesis using 2 by (simp add: bit_simps b)
  next
    case 3
    then have "\<not> 8 * j \<le> 8 * k + r" using assms by simp
    then show ?thesis using 3 by (simp add: bit_simps)
  qed
qed

lemma ld64_bytes: "ld64 m a = 
    push_bit (8 * 0) (ucast (m (a + of_nat 0))) OR push_bit (8 * 1) (ucast (m (a + of_nat 1))) 
 OR push_bit (8 * 2) (ucast (m (a + of_nat 2))) OR push_bit (8 * 3) (ucast (m (a + of_nat 3)))
 OR push_bit (8 * 4) (ucast (m (a + of_nat 4))) OR push_bit (8 * 5) (ucast (m (a + of_nat 5)))
 OR push_bit (8 * 6) (ucast (m (a + of_nat 6))) OR push_bit (8 * 7) (ucast (m (a + of_nat 7)))"
  by (simp add: ld64_def)

lemma bit_ld64: "bit (ld64 m a) n \<longleftrightarrow> n < 64 \<and> bit (m (a + of_nat (n div 8))) (n mod 8)"
proof (cases "n < 64")
  case True
  define k r where "k = n div 8" and "r = n mod 8"
  have n: "n = 8 * k + r" and r: "r < 8" and k8: "k < 8" using True by (auto simp: k_def r_def)
  have k: "k = 0 \<or> k = 1 \<or> k = 2 \<or> k = 3 \<or> k = 4 \<or> k = 5 \<or> k = 6 \<or> k = 7" using k8 by auto
  note p = bit_placed_byte[OF r k8]
  have l: "(0::nat) < 8" "(1::nat) < 8" "(2::nat) < 8" "(3::nat) < 8" "(4::nat) < 8" "(5::nat) < 8"
    "(6::nat) < 8" "(7::nat) < 8" by simp_all
  have "bit (ld64 m a) n \<longleftrightarrow> bit (m (a + of_nat k)) r"
    unfolding n ld64_bytes
    by (simp only: bit_or_iff p[OF l(1)] p[OF l(2)] p[OF l(3)] p[OF l(4)] p[OF l(5)] p[OF l(6)]
        p[OF l(7)] p[OF l(8)]) (use k in \<open>elim disjE; simp\<close>)
  then show ?thesis using True by (simp add: k_def r_def)
next
  case False
  then show ?thesis by (auto dest: bit_imp_le_length)
qed

lemma ld64_cong: "(\<And>i. i < 8 \<Longrightarrow> m (a + of_nat i) = m' (a + of_nat i)) \<Longrightarrow> ld64 m a = ld64 m' a"
  by (rule bit_word_eqI) (simp add: bit_ld64)

lemma ld64_st64_same [simp]: "ld64 (st64 a v m) a = v"
proof (rule bit_word_eqI)
  fix n assume "n < LENGTH(64)"
  then have "n < 64" by simp
  then have "n div 8 < 8" by simp
  then have u: "unat (of_nat (n div 8) :: u64) = n div 8"
    by (simp add: unat_of_nat take_bit_nat_eq_self)
  then have l: "(of_nat (n div 8) :: u64) < 8" using \<open>n div 8 < 8\<close> by (simp add: word_less_nat_alt)
  show "bit (ld64 (st64 a v m) a) n = bit v n"
    using u l \<open>n < 64\<close> by (simp add: bit_ld64 st64_def bit_byte_of)
qed

text \<open>Distances.\<close>

definition sep :: "addr \<Rightarrow> u64 \<Rightarrow> addr \<Rightarrow> u64 \<Rightarrow> bool" where
  "sep a n b k \<longleftrightarrow> n \<le> b - a \<and> k \<le> a - b"

text \<open>Sums of offsets come out of the simplifier with the number first.\<close>

lemma off_norm: "numeral v + (b :: addr) = b + numeral v"
  by (rule add.commute)

lemma sep_sym: "sep a n b k \<longleftrightarrow> sep b k a n"
  by (auto simp: sep_def)

lemma of_nat_less_8: "i < 8 \<Longrightarrow> (of_nat i :: u64) < 8"
  by (simp add: word_less_nat_alt unat_of_nat take_bit_nat_eq_self)

lemma unat_lt64: "unat (x :: u64) < 18446744073709551616"
  using unsigned_less[of x, where ?'a = nat] by simp

lemma unat_uminus: "unat (- d) = (if d = 0 then 0 else 2 ^ 64 - unat d)" for d :: u64
  using unat_sub_if'[of 0 d] by (auto simp: unat_eq_0)

lemma sep_iff: "sep a n b k \<longleftrightarrow> unat n \<le> unat (b - a) \<and> 
   (if b = a then k = 0 else unat (b - a) + unat k \<le> 2 ^ 64)"
proof -
  have "a - b = - (b - a)" by simp
  then have "unat (a - b) = (if b = a then 0 else 2 ^ 64 - unat (b - a))" 
    by (metis right_minus_eq unat_uminus)
  then show ?thesis using unat_lt64[of "b - a"] by (auto simp: sep_def word_le_nat_alt unat_eq_0)
qed

lemma sep_outside:
  assumes "sep a n b k" "x - a < n"
  shows "\<not> x - b < k"
proof -
  define d y where "d = b - a" and "y = x - a"
  have e: "x - b = y - d" by (simp add: d_def y_def)
  have y: "unat y < unat n" using assms(2) by (simp add: word_less_nat_alt y_def)
  have d: "unat n \<le> unat d" "d = 0 \<Longrightarrow> k = 0" "d \<noteq> 0 \<Longrightarrow> unat d + unat k \<le> 2 ^ 64" 
    using assms(1) by (auto simp: sep_iff d_def split: if_splits)
  show ?thesis 
  proof (cases "d = 0")
    case True then show ?thesis using d by (simp add: d_def)
  next
    case False
    have "unat (y - d) = unat y + 2 ^ 64 - unat d" using d y by (simp add: unat_sub_if')
    then show ?thesis using d(1) d(3)[OF False] y unfolding e word_less_nat_alt by simp
  qed
qed

lemma sep_sub:
  assumes "sep a n b k" 
    and "unat i + unat n' \<le> unat n" "unat j + unat k' \<le> unat k" "0 < n'" "0 < k'"
  shows "sep (a + i) n' (b + j) k'"
proof -
  define d where "d = b - a"
  have e: "(b + j) - (a + i) = (d + j) - i" by (simp add: d_def)
  have pos: "0 < unat n'" "0 < unat k'" using assms(4,5) by (simp_all add: word_less_nat_alt)
  have d: "unat n \<le> unat d" "unat d + unat k \<le> 2 ^ 64"
    using assms pos by (auto simp: sep_iff d_def split: if_splits)
  have "unat (d + j) = unat d + unat j" using d assms(3) pos by (simp add: unat_word_ariths)
  then have u: "unat (d + j - i) = unat d + unat j - unat i" 
    using d assms(2) by (simp add: unat_sub_if')
  have "0 < unat (d + j - i)" using u d assms(2) pos by simp
  then have "b + j \<noteq> a + i" unfolding e[symmetric] by auto
  moreover have "unat n' \<le> unat d + unat j - unat i" using d assms(2) by linarith
  moreover have "unat d + unat j - unat i + unat k' \<le> 2 ^ 64" 
    using d assms(2,3) by linarith
  ultimately show ?thesis unfolding sep_iff e u by simp
qed

lemma sep_base [simp]:
  "sep (p + i) n (p + j) k \<longleftrightarrow> n \<le> j - i \<and> k \<le> i - j"
  "sep p n (p + j) k \<longleftrightarrow> n \<le> j \<and> k \<le> - j"
  "sep (p + i) n p k \<longleftrightarrow> n \<le> - i \<and> k \<le> i"
  by (simp_all add: sep_def)

lemma sep_subD:
  assumes "sep a n b k" "unat i + unat n' \<le> unat n" "unat j + unat k' \<le> unat k" "0 < n'" "0 < k'"
  shows "sep (a + i) n' (b + j) k'" "sep (b + j) k' (a + i) n'"
  using sep_sub[OF assms] by (simp_all add: sep_sym)

lemma ld64_agree:
  assumes "\<And>x. x - a < 8 \<Longrightarrow> m x = m' x"
  shows "ld64 m a = ld64 m' a"
  by (rule ld64_cong) (simp add: assms of_nat_less_8)

lemma ld64_st64_sep:
  assumes "sep a 8 b 8"
  shows "ld64 (st64 b v m) a = ld64 m a"
  by (rule ld64_agree) (simp add: st64_def sep_outside[OF assms])

lemma ld64_upd_sep:
  assumes "sep a 8 b 1"
  shows "ld64 (m(b := c)) a = ld64 m a"
proof (rule ld64_agree)
  fix x assume "x - a < 8"
  with assms have "\<not> x - b < 1" by (rule sep_outside)
  then show "(m(b := c)) x = m x" by auto
qed

lemma st64_byte_sep:
  assumes "sep a 1 b 8"
  shows "st64 b v m a = m a"
  using sep_outside[OF assms, of a] by (simp add: st64_def)

lemma ld64_zero: "(\<And>x. x - a < 8 \<Longrightarrow> m x = 0) \<Longrightarrow> ld64 m a = 0"
  using ld64_agree[of a m "\<lambda>_. 0"] by (simp add: ld64_def)

lemma ld32_agree:
  assumes "\<And>x. x - a < 4 \<Longrightarrow> m x = m' x"
  shows "ld32 m a = ld32 m' a"
proof (rule bit_word_eqI)
  fix n assume "n < LENGTH(32)"
  then have n: "n < 32" by simp
  then have "n div 8 < 4" by simp
  then have "(of_nat (n div 8) :: u64) < 4"
    by (simp add: word_less_nat_alt unat_of_nat take_bit_nat_eq_self)
  then show "bit (ld32 m a) n = bit (ld32 m' a) n"
    using n assms by (simp add: ld32_def bit_ucast_iff bit_ld64)
qed

lemma ld32_st32_same [simp]: "ld32 (st32 a v m) a = v"
proof (rule bit_word_eqI)
  fix n assume "n < LENGTH(32)"
  then have n: "n < 32" by simp
  then have d: "n div 8 < 4" by simp
  then have u: "unat (of_nat (n div 8) :: u64) = n div 8"
    by (simp add: unat_of_nat take_bit_nat_eq_self)
  then have l: "(of_nat (n div 8) :: u64) < 4" using d by (simp add: word_less_nat_alt)
  show "bit (ld32 (st32 a v m) a) n = bit v n"
    using u l n by (simp add: ld32_def bit_ucast_iff bit_ld64 st32_def bit_byte_of)
qed

end
