(* ===== verification/Memory.thy ===== *)
theory Memory
  imports Prelude
begin

text \<open>
  \<open>mem/mem.c\<close>: the block operations on byte memory. Each routine first moves whole eight byte
  words and then single bytes. The number of single bytes is computed as \<open>s - s / 8\<close> where
  \<open>s - 8 * (s / 8)\<close> would be the remainder, so \<open>mem_set\<close> and \<open>mem_copy\<close> write
  \<open>written s = s + 7 * (s / 8)\<close> bytes. The lemmas below say exactly which bytes are written
  and with what, so that the callers can account for the surplus.
\<close>

section \<open>Filling memory\<close>

text \<open>The loops \<open>while (n-- > 0) *(p++) = v\<close> for words and for bytes.\<close>

fun fill_words :: "nat \<Rightarrow> addr \<Rightarrow> u64 \<Rightarrow> memory \<Rightarrow> memory" where
  "fill_words 0 p v m = m"
| "fill_words (Suc n) p v m = fill_words n (p + 8) v (st64 p v m)"

fun fill_bytes :: "nat \<Rightarrow> addr \<Rightarrow> u8 \<Rightarrow> memory \<Rightarrow> memory" where
  "fill_bytes 0 p c m = m"
| "fill_bytes (Suc n) p c m = fill_bytes n (p + 1) c (m(p := c))"

text \<open>The word with the byte \<open>c\<close> in all of its eight places.\<close>

fun widen :: "nat \<Rightarrow> u8 \<Rightarrow> u64" where
  "widen 0 c = 0"
| "widen (Suc n) c = push_bit 8 (widen n c) OR ucast c"

definition mem_set :: "addr \<Rightarrow> u8 \<Rightarrow> u64 \<Rightarrow> (memory, unit) kern" where
  "mem_set p c s =
     thn (asrt (p \<noteq> 0))
       (let c_big = widen 8 c;
            s_big = s div 8
        in thn (asrt (s_big \<le> s))
             (modify (\<lambda>m.
                fill_bytes (unat (s - s_big)) (p + 8 * s_big) c
                  (fill_words (unat s_big) p c_big m))))"

section \<open>Copying memory\<close>

fun copy_words :: "nat \<Rightarrow> addr \<Rightarrow> addr \<Rightarrow> memory \<Rightarrow> memory" where
  "copy_words 0 d s m = m"
| "copy_words (Suc n) d s m = copy_words n (d + 8) (s + 8) (st64 d (ld64 m s) m)"

fun copy_bytes :: "nat \<Rightarrow> addr \<Rightarrow> addr \<Rightarrow> memory \<Rightarrow> memory" where
  "copy_bytes 0 d s m = m"
| "copy_bytes (Suc n) d s m = copy_bytes n (d + 1) (s + 1) (m(d := m s))"

definition mem_copy :: "addr \<Rightarrow> addr \<Rightarrow> u64 \<Rightarrow> (memory, unit) kern" where
  "mem_copy dst src sz =
     thn (asrt (dst \<noteq> 0)) (thn (asrt (src \<noteq> 0))
       (let sz_big = sz div 8
        in thn (asrt (sz_big \<le> sz))
             (modify (\<lambda>m.
                copy_bytes (unat (sz - sz_big)) (dst + 8 * sz_big) (src + 8 * sz_big)
                  (copy_words (unat sz_big) dst src m)))))"

text \<open>
  \<open>while (sz-- > 0) bdst[sz - 1] = bsrc[sz - 1]\<close>: the test already decrements \<open>sz\<close>, so a round
  that starts with \<open>Suc n\<close> copies the byte at index \<open>n - 1\<close>, in unsigned arithmetic.
\<close>

fun copy_down :: "nat \<Rightarrow> addr \<Rightarrow> addr \<Rightarrow> memory \<Rightarrow> memory" where
  "copy_down 0 d s m = m"
| "copy_down (Suc n) d s m =
     copy_down n d s (m(d + (of_nat n - 1) := m (s + (of_nat n - 1))))"

definition mem_copy_reverse :: "addr \<Rightarrow> addr \<Rightarrow> u64 \<Rightarrow> (memory, unit) kern" where
  "mem_copy_reverse dst src sz =
     thn (asrt (dst \<noteq> 0)) (thn (asrt (src \<noteq> 0)) (modify (copy_down (unat sz) dst src)))"

section \<open>What is written\<close>

definition written :: "u64 \<Rightarrow> nat" where
  "written s = 8 * (unat s div 8) + (unat s - unat s div 8)"

lemma written_eq: "written s = unat s + 7 * (unat s div 8)"
  unfolding written_def by (simp add: algebra_simps) 

lemma written_ge: "unat s \<le> written s"
  by (simp add: written_eq)

lemma byte_of_widen: "i < 8 \<Longrightarrow> byte_of (widen 8 c) i = c"
proof (rule bit_word_eqI)
  fix n assume i: "i < 8" and "n < LENGTH(8)"
  then have n: "n < 8" by simp
  have step: "bit (widen (Suc k) c) j \<longleftrightarrow> j < 64 \<and> (8 \<le> j \<and> bit (widen k c) (j - 8) \<or> bit c j)" for k j
    by (auto simp: bit_simps)
  have gen: "i < k \<Longrightarrow> k \<le> 8 \<Longrightarrow> bit (widen k c) (8 * i + n) = bit c n" for k i
  proof (induction k arbitrary: i)
    case 0 then show ?case by simp
  next
    case (Suc k)
    have out: "\<not> bit c j" if "8 \<le> j" for j using that by (auto dest: bit_imp_le_length)
    show ?case
    proof (cases i)
      case 0 then show ?thesis using n by (simp add: step del: widen.simps)
    next
      case (Suc i')
      then have "8 * i + n - 8 = 8 * i' + n" by simp
      moreover have "8 * i + n < 64" using Suc.prems n by simp
      ultimately show ?thesis using Suc Suc.IH[of i'] Suc.prems
        by (simp add: step out del: widen.simps)
    qed
  qed
  show "bit (byte_of (widen 8 c) i) n = bit c n"
    using gen[of i 8] i n by (simp add: bit_byte_of del: widen.simps)
qed

lemma unat_diff_Suc: "x \<noteq> p \<Longrightarrow> unat (x - p) = Suc (unat (x - (p + 1)))" for x p :: u64
  using unat_minus_one[of "x - p"] by (simp add: algebra_simps unat_gt_0)

lemma unat_diff_add:
  fixes x p :: u64
  assumes "k \<le> unat (x - p)" "k < 2 ^ 64"
  shows "unat (x - (p + of_nat k)) = unat (x - p) - k"
proof -
  have u: "unat (of_nat k :: u64) = k" using assms(2) by (simp add: unat_of_nat take_bit_nat_eq_self)
  then have "(of_nat k :: u64) \<le> x - p" using assms(1) by (simp add: word_le_nat_alt)
  then have "unat ((x - p) - of_nat k) = unat (x - p) - k" by (simp add: unat_sub u)
  then show ?thesis by (simp add: diff_diff_eq)
qed

lemma unat_diff_wrap:
  fixes x p :: u64
  assumes "unat (x - p) < k" "k < 2 ^ 64"
  shows "unat (x - (p + of_nat k)) = unat (x - p) + 2 ^ 64 - k"
proof -
  have u: "unat (of_nat k :: u64) = k" using assms(2) by (simp add: unat_of_nat take_bit_nat_eq_self)
  have e: "x - (p + of_nat k) = (x - p) - of_nat k" by simp
  show ?thesis using assms(1) unfolding e unat_sub_if' u by simp
qed

text \<open>The intended effect of filling and of moving \<open>n\<close> bytes.\<close>

definition filled :: "nat \<Rightarrow> addr \<Rightarrow> u8 \<Rightarrow> memory \<Rightarrow> memory" where
  "filled n p c m = (\<lambda>x. if unat (x - p) < n then c else m x)"

definition moved :: "nat \<Rightarrow> addr \<Rightarrow> addr \<Rightarrow> memory \<Rightarrow> memory" where
  "moved n d s m = (\<lambda>x. if unat (x - d) < n then m (s + (x - d)) else m x)"

lemma filled_0 [simp]: "filled 0 p c m = m" and moved_0 [simp]: "moved 0 d s m = m"
  by (simp_all add: filled_def moved_def)

lemma filled_step:
  assumes "k + n \<le> 2 ^ 64" "k < 2 ^ 64"
  shows "filled n (p + of_nat k) c (filled k p c m) = filled (k + n) p c m"
proof (rule ext)
  fix x
  show "filled n (p + of_nat k) c (filled k p c m) x = filled (k + n) p c m x"
  proof (cases "unat (x - p) < k")
    case True
    then show ?thesis by (simp add: filled_def)
  next
    case False
    then show ?thesis using assms by (auto simp: filled_def unat_diff_add simp del: of_nat_add)
  qed
qed

lemma moved_step:
  assumes n: "k + n \<le> 2 ^ 64" "k < 2 ^ 64" and d: "d = s \<or> k + n \<le> unat (d - s)"
  shows "moved n (d + of_nat k) (s + of_nat k) (moved k d s m) = moved (k + n) d s m"
proof (rule ext)
  fix x
  have src: "s + of_nat k + (x - (d + of_nat k)) = s + (x - d)" by simp
  have diff: "(s + (x - d)) - d = (x - d) - (d - s)" by simp
  show "moved n (d + of_nat k) (s + of_nat k) (moved k d s m) x = moved (k + n) d s m x"
  proof (cases "unat (x - d) < k")
    case True
    then have "\<not> unat (x - (d + of_nat k)) < n" using n by (simp add: unat_diff_wrap)
    with True show ?thesis by (simp add: moved_def)
  next
    case False
    then have u: "unat (x - (d + of_nat k)) = unat (x - d) - k" using n by (simp add: unat_diff_add)
    show ?thesis
    proof (cases "unat (x - d) < k + n")
      case True
      have "\<not> unat (s + (x - d) - d) < k"
      proof (cases "d = s")
        case True
        with False show ?thesis by simp
      next
        case ne: False
        with d have "k + n \<le> unat (d - s)" by simp
        moreover have "unat (d - s) < 2 ^ 64" using unat_lt64[of "d - s"] by simp
        ultimately have "unat ((x - d) - (d - s)) = unat (x - d) + 2 ^ 64 - unat (d - s)"
          using True unfolding unat_sub_if' by simp
        then show ?thesis unfolding diff using False unat_lt64[of "d - s"] by simp
      qed
      moreover have "unat (x - d) - k < n" using True False by linarith
      ultimately show ?thesis using True by (simp add: moved_def u src)
    next
      case ge: False
      then have "\<not> unat (x - d) - k < n" by linarith
      with ge False show ?thesis by (simp add: moved_def u)
    qed
  qed
qed

lemma upd_filled: "m(p := c) = filled 1 p c m"
  by (rule ext) (auto simp: filled_def unat_eq_0)

lemma upd_moved: "m(d := m s) = moved 1 d s m"
  by (rule ext) (auto simp: moved_def unat_eq_0)

lemma st64_widen: "st64 p (widen 8 c) m = filled 8 p c m"
proof (rule ext)
  fix x
  show "st64 p (widen 8 c) m x = filled 8 p c m x"
    using byte_of_widen[of "unat (x - p)" c]
    by (simp add: st64_def filled_def word_less_nat_alt del: widen.simps)
qed

lemma byte_of_ld64:
  assumes "i < 8" shows "byte_of (ld64 m a) i = m (a + of_nat i)"
proof (rule bit_word_eqI)
  fix n assume "n < LENGTH(8)"
  then have "(8 * i + n) div 8 = i" "(8 * i + n) mod 8 = n" "8 * i + n < 64" "n < 8" using assms by simp_all
  then show "bit (byte_of (ld64 m a) i) n = bit (m (a + of_nat i)) n"
    by (simp add: bit_byte_of bit_ld64)
qed

lemma st64_ld64: "st64 d (ld64 m s) m = moved 8 d s m"
proof (rule ext)
  fix x
  show "st64 d (ld64 m s) m x = moved 8 d s m x"
    using byte_of_ld64[of "unat (x - d)" m s]
    by (simp add: st64_def moved_def word_less_nat_alt)
qed

lemma fill_bytes_eq: "n \<le> 2 ^ 64 \<Longrightarrow> fill_bytes n p c m = filled n p c m"
proof (induction n arbitrary: p m)
  case (Suc n)
  then show ?case using filled_step[of 1 n p c m] by (simp add: upd_filled)
qed simp

lemma fill_words_eq: "8 * n \<le> 2 ^ 64 \<Longrightarrow> fill_words n p (widen 8 c) m = filled (8 * n) p c m"
proof (induction n arbitrary: p m)
  case (Suc n)
  then show ?case using filled_step[of 8 "8 * n" p c m]
    by (simp add: st64_widen del: widen.simps)
qed simp

lemma copy_bytes_eq:
  "n \<le> 2 ^ 64 \<Longrightarrow> d = s \<or> n \<le> unat (d - s) \<Longrightarrow> copy_bytes n d s m = moved n d s m"
proof (induction n arbitrary: d s m)
  case (Suc n)
  then show ?case using moved_step[of 1 n d s m] Suc.IH[of "d + 1" "s + 1"] by (auto simp: upd_moved)
qed simp

lemma copy_words_eq:
  "8 * n \<le> 2 ^ 64 \<Longrightarrow> d = s \<or> 8 * n \<le> unat (d - s) \<Longrightarrow> copy_words n d s m = moved (8 * n) d s m"
proof (induction n arbitrary: d s m)
  case (Suc n)
  then show ?case using moved_step[of 8 "8 * n" d s m] Suc.IH[of "d + 8" "s + 8"]
    by (auto simp: st64_ld64)
qed simp

lemma copy_down_eq:
  "n \<le> 2 ^ 64 \<Longrightarrow> d = s \<or> n \<le> unat (s - d) \<Longrightarrow>
    copy_down n d s m = moved n (d - 1) (s - 1) m"
proof (induction n arbitrary: m)
  case (Suc n)
  define m' where "m' = m(d + (of_nat n - 1) := m (s + (of_nat n - 1)))"
  have u: "unat (of_nat n :: u64) = n" using Suc.prems by (simp add: unat_of_nat take_bit_nat_eq_self)
  have IH: "copy_down n d s m' = moved n (d - 1) (s - 1) m'" using Suc by auto
  have "moved n (d - 1) (s - 1) m' = moved (Suc n) (d - 1) (s - 1) m"
  proof (rule ext)
    fix x
    define i where "i = x - (d - 1)"
    have x: "x = d - 1 + i" by (simp add: i_def)
    consider "unat i < n" | "unat i = n" | "n < unat i" by linarith
    then show "moved n (d - 1) (s - 1) m' x = moved (Suc n) (d - 1) (s - 1) m x"
    proof cases
      case 1
      have "s - 1 + i \<noteq> d + (of_nat n - 1)"
      proof
        assume "s - 1 + i = d + (of_nat n - 1)"
        then have e: "s - d = of_nat n - i" by (simp add: algebra_simps)
        then have "unat (s - d) = n - unat i" using 1 by (simp add: unat_sub_if' u)
        then show False using Suc.prems(2) 1 by auto
      qed
      then show ?thesis using 1 by (simp add: moved_def m'_def x)
    next
      case 2
      then have "i = of_nat n" using u by (simp add: word_unat_eq_iff)
      then show ?thesis using 2 by (simp add: moved_def m'_def x algebra_simps)
    next
      case 3
      then have "x \<noteq> d + (of_nat n - 1)" using u by (auto simp: i_def)
      then show ?thesis using 3 by (simp add: moved_def m'_def x)
    qed
  qed
  then show ?case using IH by (simp add: m'_def)
qed simp

lemma written_le: "written s \<le> 2 ^ 64 \<Longrightarrow> 8 * (unat s div 8) \<le> 2 ^ 64"
  by (simp add: written_def)

lemma unat_div8: "unat (s div 8) = unat s div 8" for s :: u64
  by (simp add: unat_div)

lemma big_le: "s div 8 \<le> s" for s :: u64
  by (simp add: word_le_nat_alt unat_div8)

lemma of_nat_big: "of_nat (8 * (unat s div 8)) = 8 * (s div 8)" for s :: u64
proof -
  have "unat (8 * (s div 8)) = 8 * (unat s div 8)" using unat_lt64[of s] by (simp add: unat_mult_lem unat_div8 unat_word_ariths)
  moreover have "unat (of_nat (8 * (unat s div 8)) :: u64) = 8 * (unat s div 8)" 
    using unat_lt64[of s] by (simp add: unat_of_nat take_bit_nat_eq_self del: of_nat_mult)
  ultimately show ?thesis by (simp only: word_unat_eq_iff)
qed

lemma mem_set_eq:
  assumes "p \<noteq> 0" "written s \<le> 2 ^ 64"
  shows "mem_set p c s m = Inr ((), filled (written s) p c m)"
proof -
  let ?k = "8 * (unat s div 8)"
  have l: "?k < 2 ^ 64" using unat_lt64[of s] by simp
  have "filled (unat (s - s div 8)) (p + of_nat ?k) c (filled ?k p c m) = filled (written s) p c m"
    using assms l by (subst filled_step) (simp_all add: unat_sub big_le unat_div8 written_def)
  moreover have "unat (s - s div 8) \<le> 2 ^ 64" using unat_lt64[of "s - s div 8"] by simp
  ultimately show ?thesis using assms l
    by (simp add: mem_set_def Let_def kern big_le fill_bytes_eq fill_words_eq unat_div8 of_nat_big
        del: widen.simps of_nat_mult)
qed

lemma mem_copy_eq:
  assumes "d \<noteq> 0" "s \<noteq> 0" "written n \<le> 2 ^ 64" "d = s \<or> written n \<le> unat (d - s)"
  shows "mem_copy d s n m = Inr ((), moved (written n) d s m)"
proof -
  let ?k = "8 * (unat n div 8)"
  let ?b = "unat (n - n div 8)"
  have l: "?k < 2 ^ 64" using unat_lt64[of n] by simp
  have w: "written n = ?k + ?b" by (simp add: written_def unat_sub big_le unat_div8)
  have "moved ?b (d + of_nat ?k) (s + of_nat ?k) (moved ?k d s m) = moved (written n) d s m"
    using assms l by (subst moved_step) (auto simp: w)
  moreover have "?b \<le> 2 ^ 64" using unat_lt64[of "n - n div 8"] by simp
  moreover have "d = s \<or> ?k \<le> unat (d - s)" "d = s \<or> ?b \<le> unat (d - s)" using assms(4) w by auto
  ultimately show ?thesis using assms l
    by (simp add: mem_copy_def Let_def kern big_le copy_bytes_eq copy_words_eq unat_div8 of_nat_big del: of_nat_mult)
qed

lemma mem_set_null: "mem_set 0 c s m = Inl AssertFailed"
  by (simp add: mem_set_def kern)

end
