(* ===== verification/Str.thy ===== *)
theory Str
  imports Memory
begin

text \<open>
  \<open>mem/str.c\<close>: the string routines, as computations that read byte memory. A string is an
  address; \<open>cstr m p xs\<close> says that the bytes \<open>xs\<close> and a terminating zero are stored at \<open>p\<close>.
  \<open>str_length\<close> scans until it meets a zero byte, so it is a loop that may not end.
\<close>

fun str_length_more :: "addr \<times> u64 \<Rightarrow> memory \<Rightarrow> bool" where
  "str_length_more (p, len) m \<longleftrightarrow> m p \<noteq> 0"

fun str_next_char :: "addr \<times> u64 \<Rightarrow> (memory, addr \<times> u64) kern" where
  "str_next_char (p, len) = ret (p + 1, len + 1)"

definition str_length :: "addr \<Rightarrow> (memory, u64) kern" where
  "str_length str =
     thn (asrt (str \<noteq> 0))
       (bnd (loop str_length_more str_next_char (str, 0)) (\<lambda>(p, len). ret len))"

fun str_nlength_more :: "u64 \<Rightarrow> addr \<times> u64 \<Rightarrow> memory \<Rightarrow> bool" where
  "str_nlength_more max_len (p, len) m \<longleftrightarrow> len < max_len \<and> m p \<noteq> 0"

definition str_nlength :: "addr \<Rightarrow> u64 \<Rightarrow> (memory, bool) kern" where
  "str_nlength str max_len =
     thn (asrt (str \<noteq> 0))
       (bnd (loop (str_nlength_more max_len) str_next_char (str, 0))
         (\<lambda>(p, len). ret (len = max_len)))"

text \<open>The last loop variable holds the value of an early \<open>return\<close>, once there is one.\<close>

type_synonym str_cmp = "addr \<times> addr \<times> u64 \<times> bool option"

fun str_nequal_more :: "str_cmp \<Rightarrow> memory \<Rightarrow> bool" where
  "str_nequal_more (this, other, n, r) m \<longleftrightarrow> n > 0 \<and> r = None"

fun str_nequal_step :: "str_cmp \<Rightarrow> (memory, str_cmp) kern" where
  "str_nequal_step (this, other, n, r) =
     bnd (gets (\<lambda>m. m this \<noteq> m other)) (\<lambda>differ.
       if differ then ret (this, other, n, Some False)
       else ret (this + 1, other + 1, n - 1, None))"

definition str_nequal :: "addr \<Rightarrow> addr \<Rightarrow> u64 \<Rightarrow> (memory, bool) kern" where
  "str_nequal this other n =
     thn (asrt (n > 0)) (thn (asrt (this \<noteq> 0)) (thn (asrt (other \<noteq> 0))
       (bnd (loop str_nequal_more str_nequal_step (this, other, n, None))
         (\<lambda>(p, q, k, r). ret (case r of Some b \<Rightarrow> b | None \<Rightarrow> True)))))"

definition str_equal :: "addr \<Rightarrow> addr \<Rightarrow> (memory, bool) kern" where
  "str_equal this other =
     bnd (str_length this) (\<lambda>n1.
     bnd (str_length other) (\<lambda>n2.
     if n1 \<noteq> n2 then ret False else str_nequal this other n1))"

section \<open>Strings in memory\<close>

fun cstr :: "memory \<Rightarrow> addr \<Rightarrow> u8 list \<Rightarrow> bool" where
  "cstr m p [] \<longleftrightarrow> m p = 0"
| "cstr m p (x # xs) \<longleftrightarrow> m p = x \<and> x \<noteq> 0 \<and> cstr m (p + 1) xs"

text \<open>The \<open>n\<close> bytes that start at \<open>p\<close>.\<close>

fun bytes_at :: "memory \<Rightarrow> addr \<Rightarrow> nat \<Rightarrow> u8 list" where
  "bytes_at m p 0 = []"
| "bytes_at m p (Suc n) = m p # bytes_at m (p + 1) n"

lemma length_bytes_at [simp]: "length (bytes_at m p n) = n"
  by (induction n arbitrary: p) simp_all

lemma cstr_bytes_at: "cstr m p xs \<Longrightarrow> bytes_at m p (length xs) = xs"
  by (induction xs arbitrary: p) auto

lemma of_nat_Suc_pos: "Suc n < 2 ^ 64 \<Longrightarrow> (0 :: u64) < of_nat (Suc n)"
  by (simp add: word_less_nat_alt unat_of_nat take_bit_nat_eq_self del: of_nat_Suc)

lemma str_length_loop:
  "cstr m p xs \<Longrightarrow> loop str_length_more str_next_char (p, len) m
      = Inr ((p + of_nat (length xs), len + of_nat (length xs)), m)"
proof (induction xs arbitrary: p len)
  case Nil
  then show ?case by (simp add: loop_stop)
next
  case (Cons x xs)
  then have "loop str_length_more str_next_char (p, len) m
      = loop str_length_more str_next_char (p + 1, len + 1) m"
    by (intro loop_step) (auto simp: kern)
  with Cons show ?case by (simp add: add.assoc)
qed

lemma str_length_cstr:
  "p \<noteq> 0 \<Longrightarrow> cstr m p xs \<Longrightarrow> str_length p m = Inr (of_nat (length xs), m)"
  by (simp add: str_length_def str_length_loop bnd_Inr kern)

lemma str_nequal_loop:
  "n < 2 ^ 64 \<Longrightarrow> \<exists>p' q' k'.
    loop str_nequal_more str_nequal_step (p, q, of_nat n, None) m
      = Inr ((p', q', k', if bytes_at m p n = bytes_at m q n then None else Some False), m)"
proof (induction n arbitrary: p q)
  case 0
  then show ?case by (simp add: loop_stop)
next
  case (Suc n)
  have pos: "(0 :: u64) < of_nat (Suc n)" using Suc.prems by (rule of_nat_Suc_pos)
  show ?case
  proof (cases "m p = m q")
    case True
    have "loop str_nequal_more str_nequal_step (p, q, of_nat (Suc n), None) m
        = loop str_nequal_more str_nequal_step (p + 1, q + 1, of_nat n, None) m"
      using pos True by (intro loop_step) (auto simp: kern)
    with Suc True show ?thesis by simp
  next
    case False
    have "loop str_nequal_more str_nequal_step (p, q, of_nat (Suc n), None) m
        = loop str_nequal_more str_nequal_step (p, q, of_nat (Suc n), Some False) m"
      using pos False by (intro loop_step) (auto simp: kern)
    with False show ?thesis by (simp add: loop_stop)
  qed
qed

lemma str_nequal_eq:
  assumes "p \<noteq> 0" "q \<noteq> 0" "n \<noteq> 0"
  shows "str_nequal p q n m = Inr (bytes_at m p (unat n) = bytes_at m q (unat n), m)"
proof -
  have n: "unat n < 2 ^ 64" using unat_lt64[of n] by simp
  have "of_nat (unat n) = n" by simp
  then obtain p' q' k' where l: "loop str_nequal_more str_nequal_step (p, q, n, None) m
      = Inr ((p', q', k', if bytes_at m p (unat n) = bytes_at m q (unat n) then None
                          else Some False), m)"
    using str_nequal_loop[OF n, of p q m] by metis
  have "0 < n" using assms(3) by (simp add: word_neq_0_conv)
  then show ?thesis using assms by (auto simp: str_nequal_def bnd_Inr l kern)
qed

text \<open>comparing two strings that are not both empty decides whether they are equal.\<close>

theorem str_equal_decides:
  assumes "p \<noteq> 0" "q \<noteq> 0" "cstr m p xs" "cstr m q ys" "xs \<noteq> [] \<or> ys \<noteq> []"
    "length xs < 2 ^ 64" "length ys < 2 ^ 64"
  shows "str_equal p q m = Inr (xs = ys, m)"
proof -
  have u: "unat (of_nat (length xs) :: u64) = length xs" "unat (of_nat (length ys) :: u64) = length ys"
    using assms(6,7) by (simp_all add: unat_of_nat take_bit_nat_eq_self)
  show ?thesis
  proof (cases "length xs = length ys")
    case True
    then have "(of_nat (length xs) :: u64) \<noteq> 0" using assms(5) u by (auto simp: word_unat_eq_iff)
    then show ?thesis using assms True u
      by (simp add: str_equal_def str_length_cstr bnd_Inr str_nequal_eq)
        (metis True assms(3,4) cstr_bytes_at)
  next
    case False
    then have "(of_nat (length xs) :: u64) \<noteq> of_nat (length ys)" using u by (metis)
    then show ?thesis using assms False
      by (auto simp: str_equal_def str_length_cstr bnd_Inr kern)
  qed
qed

lemma str_equal_decides_witness:
  "str_equal 1 4 ((\<lambda>_. 0)(1 := 97, 4 := 97)) = Inr (True, (\<lambda>_. 0)(1 := 97, 4 := 97)) \<and>
   str_equal 1 2 ((\<lambda>_. 0)(1 := 97, 4 := 97)) = Inr (False, (\<lambda>_. 0)(1 := 97, 4 := 97))"
  using str_equal_decides[of 1 4 "(\<lambda>_. 0)(1 := 97, 4 := 97)" "[97]" "[97]"]
    str_equal_decides[of 1 2 "(\<lambda>_. 0)(1 := 97, 4 := 97)" "[97]" "[]"] by simp

lemma str_nlength_loop:
  "n \<le> unat (max_len - len) \<Longrightarrow> len \<le> max_len \<Longrightarrow> 0 \<notin> set (bytes_at m p n) \<Longrightarrow>
    loop (str_nlength_more max_len) str_next_char (p, len) m
      = loop (str_nlength_more max_len) str_next_char (p + of_nat n, len + of_nat n) m"
proof (induction n arbitrary: p len)
  case (Suc n)
  then have lt: "len < max_len" by (auto simp: word_less_nat_alt word_le_nat_alt unat_sub)
  then have "unat (len + 1) = Suc (unat len)"
    using unat_lt64[of max_len] by (simp add: unat_word_ariths word_less_nat_alt)
  with lt Suc.prems have "n \<le> unat (max_len - (len + 1))" "len + 1 \<le> max_len"
    by (simp_all add: word_less_nat_alt word_le_nat_alt unat_sub)
  with Suc have IH: "loop (str_nlength_more max_len) str_next_char (p + 1, len + 1) m
      = loop (str_nlength_more max_len) str_next_char (p + 1 + of_nat n, len + 1 + of_nat n) m"
    by auto
  have "loop (str_nlength_more max_len) str_next_char (p, len) m
      = loop (str_nlength_more max_len) str_next_char (p + 1, len + 1) m"
    using lt Suc.prems by (intro loop_step) (auto simp: kern)
  with IH show ?case by (simp add: add.assoc)
qed simp

text \<open>comparing two empty strings fails the assertion \<open>n > 0\<close> of \<open>str_nequal\<close>.\<close>

theorem str_equal_both_empty:
  assumes "p \<noteq> 0" "q \<noteq> 0" "m p = 0" "m q = 0"
  shows "str_equal p q m = Inl AssertFailed"
  using assms by (simp add: str_equal_def str_length_cstr[where xs = "[]"] bnd_Inr str_nequal_def)

lemma str_equal_both_empty_witness: "str_equal 1 2 (\<lambda>_. 0) = Inl AssertFailed"
  using str_equal_both_empty[of 1 2 "\<lambda>_. 0"] by simp

lemma bytes_at_append: "bytes_at m p (i + j) = bytes_at m p i @ bytes_at m (p + of_nat i) j"
  by (induction i arbitrary: p) (simp_all add: add.assoc)

lemma first_zero:
  "0 \<in> set (bytes_at m p n) \<Longrightarrow> \<exists>k<n. 0 \<notin> set (bytes_at m p k) \<and> m (p + of_nat k) = 0"
proof (induction n arbitrary: p)
  case (Suc n)
  show ?case
  proof (cases "m p = 0")
    case False
    with Suc obtain k where "k < n" "0 \<notin> set (bytes_at m (p + 1) k)" "m (p + 1 + of_nat k) = 0" by force
    with False show ?thesis by (intro exI[of _ "Suc k"]) (simp add: add.assoc)
  qed auto
qed simp

theorem str_nlength_decides:
  assumes "p \<noteq> 0"
  shows "str_nlength p n m = Inr (0 \<notin> set (bytes_at m p (unat n)), m)"
proof (cases "0 \<in> set (bytes_at m p (unat n))")
  case False
  with str_nlength_loop[of "unat n" n 0 m p] assms show ?thesis
    by (simp add: str_nlength_def loop_stop bnd_Inr kern)
next
  case True
  then obtain k where k: "k < unat n" "0 \<notin> set (bytes_at m p k)" "m (p + of_nat k) = 0"
    using first_zero by blast
  then have "unat (of_nat k :: u64) = k" using unat_lt64[of n] by (simp add: unat_of_nat take_bit_nat_eq_self)
  then have "of_nat k \<noteq> n" using k(1) by auto
  moreover have "loop (str_nlength_more n) str_next_char (p, 0) m
      = Inr ((p + of_nat k, of_nat k), m)"
    using str_nlength_loop[of k n 0 m p] k by (simp add: loop_stop)
  ultimately show ?thesis using assms True by (simp add: str_nlength_def bnd_Inr kern)
qed

end
