(* ===== verification/Pages.thy ===== *)
theory Pages
  imports Prelude
begin

text \<open>
  The arithmetic of sizes, alignment and pages: the macros of \<open>util/size.h\<close>, \<open>util/align.h\<close> and
  \<open>mem/page.h\<close> on 64 bit words, with the conditions under which they do not wrap around.
\<close>

section \<open>The code\<close>

definition SIZENKB :: "u64 \<Rightarrow> u64" where
  "SIZENKB n = push_bit 10 n"

definition SIZENMB :: "u64 \<Rightarrow> u64" where
  "SIZENMB n = push_bit 20 n"

definition SIZENGB :: "u64 \<Rightarrow> u64" where
  "SIZENGB n = push_bit 30 n"

definition ALIGNUP :: "u64 \<Rightarrow> u64 \<Rightarrow> u64" where
  "ALIGNUP val align = (val + (align - 1)) AND NOT (align - 1)"

definition ALIGNDOWN :: "u64 \<Rightarrow> u64 \<Rightarrow> u64" where
  "ALIGNDOWN val align = val AND NOT (align - 1)"

definition PAGE_SIZE :: u64 where
  "PAGE_SIZE = SIZENKB 4"

definition PAGES :: "u64 \<Rightarrow> u64" where
  "PAGES b = (b + PAGE_SIZE - 1) div PAGE_SIZE"

definition BYTES :: "u64 \<Rightarrow> u64" where
  "BYTES p = p * PAGE_SIZE"

definition PAGEALIGNUP :: "u64 \<Rightarrow> u64" where
  "PAGEALIGNUP a = ALIGNUP a PAGE_SIZE"

definition PAGEALIGNDOWN :: "u64 \<Rightarrow> u64" where
  "PAGEALIGNDOWN a = ALIGNDOWN a PAGE_SIZE"

definition PAGEOFFSET :: "u64 \<Rightarrow> u64" where
  "PAGEOFFSET a = a AND (PAGE_SIZE - 1)"

definition ISPAGEALIGNED :: "u64 \<Rightarrow> bool" where
  "ISPAGEALIGNED a \<longleftrightarrow> PAGEOFFSET a = 0"

section \<open>Alignment to a power of two\<close>

lemma sizes [simp]: "SIZENKB 4 = 4096" "SIZENMB 2 = 2097152" "SIZENGB 1 = 1073741824"
    "PAGE_SIZE = 4096" "SIZENKB 2 = 2048" "SIZENKB 1 = 1024" "SIZENKB 3 = 3072"
  by (simp_all add: SIZENKB_def SIZENMB_def SIZENGB_def PAGE_SIZE_def push_bit_eq_mult)

lemma unat_2_power: "n < 64 \<Longrightarrow> unat (2 ^ n :: u64) = 2 ^ n"
proof -
  assume "n < 64"
  then have "(2 :: nat) ^ n < 2 ^ 64" by (intro power_strict_increasing) simp_all
  then have "unat (of_nat (2 ^ n) :: u64) = 2 ^ n"
    by (simp only: unat_of_nat) (simp add: take_bit_nat_eq_self del: of_nat_power)
  then show ?thesis by simp
qed

lemma unat_mod_power: "n < 64 \<Longrightarrow> unat (x mod 2 ^ n) = unat x mod 2 ^ n" for x :: u64
  by (simp add: unat_mod unat_2_power)

lemma and_mask_mod: "x AND (2 ^ n - 1) = x mod 2 ^ n" for x :: u64
  using take_bit_eq_mask[of n x] by (simp add: take_bit_eq_mod mask_eq_exp_minus_1)

lemma and_not_mask: "x AND NOT (2 ^ n - 1) = x - x mod 2 ^ n" for x :: u64
proof -
  have "x AND NOT (mask n) = push_bit n (drop_bit n x)"
    by (rule bit_word_eqI) (auto simp: bit_simps)
  moreover have "push_bit n (drop_bit n x) + x mod 2 ^ n = x"
    using bits_ident[of n x] by (simp add: take_bit_eq_mod)
  ultimately show ?thesis by (simp add: mask_eq_exp_minus_1 algebra_simps)
qed

lemma unat_and_not_mask:
  "n < 64 \<Longrightarrow> unat (x AND NOT (2 ^ n - 1)) = unat x - unat x mod 2 ^ n" for x :: u64
  by (simp add: and_not_mask unat_mod_power unat_sub word_le_nat_alt)

lemma unat_ALIGNDOWN:
  "n < 64 \<Longrightarrow> unat (ALIGNDOWN x (2 ^ n)) = unat x div 2 ^ n * 2 ^ n"
  by (simp add: ALIGNDOWN_def unat_and_not_mask minus_mod_eq_div_mult)

lemma unat_ALIGNUP:
  assumes "n < 64" "unat x + 2 ^ n - 1 < 2 ^ 64"
  shows "unat (ALIGNUP x (2 ^ n)) = (unat x + 2 ^ n - 1) div 2 ^ n * 2 ^ n"
proof -
  have "unat (2 ^ n - 1 :: u64) = 2 ^ n - 1" using assms(1)
    by (simp add: unat_minus_one unat_2_power)
  then have "unat (x + (2 ^ n - 1)) = unat x + 2 ^ n - 1"
    using assms by (simp add: unat_word_ariths)
  then show ?thesis unfolding ALIGNUP_def
    using assms(1) by (simp add: unat_and_not_mask minus_mod_eq_div_mult)
qed

text \<open>\<open>ALIGNUP\<close> and \<open>ALIGNDOWN\<close> to a power of two give the multiples next above and next
  below the value, as long as rounding up does not wrap around.\<close>

theorem align_bounds:
  assumes "n < 64" "unat x + 2 ^ n - 1 < 2 ^ 64"
  shows "2 ^ n dvd unat (ALIGNUP x (2 ^ n)) \<and> 2 ^ n dvd unat (ALIGNDOWN x (2 ^ n)) \<and>
    unat (ALIGNDOWN x (2 ^ n)) \<le> unat x \<and> unat x \<le> unat (ALIGNUP x (2 ^ n)) \<and>
    unat x < unat (ALIGNDOWN x (2 ^ n)) + 2 ^ n \<and> unat (ALIGNUP x (2 ^ n)) < unat x + 2 ^ n"
proof -
  have up: "v \<le> (v + d - 1) div d * d" "(v + d - 1) div d * d < v + d" if "0 < d" for v d :: nat
  proof -
    have "(v + d - 1) = (v + d - 1) div d * d + (v + d - 1) mod d" by simp
    moreover have "(v + d - 1) mod d < d" using that by simp
    ultimately show "v \<le> (v + d - 1) div d * d" "(v + d - 1) div d * d < v + d" using that by linarith+
  qed
  show ?thesis unfolding unat_ALIGNDOWN[OF assms(1)] unat_ALIGNUP[OF assms]
    using up[of "2 ^ n" "unat x"] mod_less_divisor[of "2 ^ n" "unat x"] div_mult_mod_eq[of "unat x" "2 ^ n"]
    by (simp del: div_mult_mod_eq mod_less_divisor)
qed

lemma align_bounds_witness:
  "2 ^ 12 dvd unat (ALIGNUP 5000 (2 ^ 12)) \<and> unat (5000 :: u64) < unat (ALIGNDOWN 5000 (2 ^ 12)) + 2 ^ 12"
  using align_bounds[of 12 5000] by simp

section \<open>Pages\<close>

lemma unat_PAGES:
  assumes "unat b + 4095 < 2 ^ 64"
  shows "unat (PAGES b) = (unat b + 4095) div 4096"
proof -
  have "unat (b + 4096 - 1) = unat b + 4095"
  proof -
    have "b + 4096 - 1 = b + 4095" by simp
    moreover have "unat (b + 4095) = unat b + 4095" using assms by (simp add: unat_word_ariths)
    ultimately show ?thesis by (simp add: add.commute)
  qed
  then show ?thesis unfolding PAGES_def sizes by (simp add: unat_div)
qed

lemma unat_BYTES: "unat p * 4096 < 2 ^ 64 \<Longrightarrow> unat (BYTES p) = unat p * 4096"
  by (simp add: BYTES_def unat_word_ariths)

lemma PAGEOFFSET_mod: "PAGEOFFSET a = a mod 4096"
  using and_mask_mod[of a 12] by (simp add: PAGEOFFSET_def)

lemma unat_PAGEOFFSET: "unat (PAGEOFFSET a) = unat a mod 4096"
  by (simp add: PAGEOFFSET_mod unat_mod)

lemma ISPAGEALIGNED_dvd: "ISPAGEALIGNED a \<longleftrightarrow> 4096 dvd unat a"
  by (simp add: ISPAGEALIGNED_def unat_eq_0[symmetric] unat_PAGEOFFSET dvd_eq_mod_eq_0)

lemma unat_PAGEALIGNDOWN: "unat (PAGEALIGNDOWN a) = unat a div 4096 * 4096"
  using unat_ALIGNDOWN[of 12 a] by (simp add: PAGEALIGNDOWN_def)

lemma unat_PAGEALIGNUP:
  "unat a + 4095 < 2 ^ 64 \<Longrightarrow> unat (PAGEALIGNUP a) = (unat a + 4095) div 4096 * 4096"
  using unat_ALIGNUP[of 12 a] by (simp add: PAGEALIGNUP_def)

lemma PAGEALIGNDOWN_diff: "PAGEALIGNDOWN a = a - PAGEOFFSET a"
  using and_not_mask[of a 12] by (simp add: PAGEALIGNDOWN_def ALIGNDOWN_def PAGEOFFSET_mod)

lemma aligned_down [simp]: "ISPAGEALIGNED (PAGEALIGNDOWN a)"
  by (simp add: ISPAGEALIGNED_dvd unat_PAGEALIGNDOWN)

lemma aligned_id: "ISPAGEALIGNED a \<Longrightarrow> PAGEALIGNDOWN a = a"
  by (simp add: PAGEALIGNDOWN_diff ISPAGEALIGNED_def)

text \<open>\<open>PAGES\<close> counts the pages that \<open>PAGEALIGNUP\<close> rounds to: enough for the bytes, and less
  than a page too much.\<close>

theorem pages_of_bytes:
  assumes "unat b + 4095 < 2 ^ 64"
  shows "BYTES (PAGES b) = PAGEALIGNUP b \<and> unat b \<le> unat (BYTES (PAGES b)) \<and>
    unat (BYTES (PAGES b)) < unat b + 4096 \<and> (ISPAGEALIGNED b \<longrightarrow> BYTES (PAGES b) = b)"
proof -
  have p: "unat (PAGES b) = (unat b + 4095) div 4096" using assms by (rule unat_PAGES)
  have "(unat b + 4095) div 4096 * 4096 \<le> unat b + 4095" by (rule div_times_less_eq_dividend)
  then have "unat (PAGES b) * 4096 < 2 ^ 64" unfolding p using assms by (rule le_less_trans)
  then have b: "unat (BYTES (PAGES b)) = (unat b + 4095) div 4096 * 4096"
    by (simp add: unat_BYTES p)
  have u: "unat (PAGEALIGNUP b) = (unat b + 4095) div 4096 * 4096" using assms by (rule unat_PAGEALIGNUP)
  have "BYTES (PAGES b) = b" if dvd: "4096 dvd unat b"
  proof -
    obtain k where "unat b = 4096 * k" using dvd by blast
    then show ?thesis unfolding word_unat_eq_iff b by simp
  qed
  moreover have "BYTES (PAGES b) = PAGEALIGNUP b" unfolding word_unat_eq_iff b u ..
  moreover have "unat b \<le> (unat b + 4095) div 4096 * 4096" "(unat b + 4095) div 4096 * 4096 < unat b + 4096"
    by linarith+
  ultimately show ?thesis unfolding b ISPAGEALIGNED_dvd by blast
qed

lemma pages_of_bytes_witness: "5000 \<le> unat (PAGEALIGNUP 5000) \<and> unat (PAGEALIGNUP 5000) < 9096"
  using pages_of_bytes[of 5000] by auto

end
