(* ===== verification/Bitmap.thy ===== *)
theory Bitmap
  imports Memory
begin

text \<open>
  \<open>structs/bitmap.c\<close>: an array of bits with a count of the clear ones. A \<open>struct bitmap\<close> is a
  record; where the code has a pointer to one, it is the address of its four words in memory, and
  the bits are the bytes at \<open>map\<close>, so that the structure and its bits may overlap unless
  \<open>bitmap_wf\<close> says that they do not. The locale \<open>bit_array\<close> is the interface the physical
  memory manager relies on; it is interpreted on the functions of this theory.
\<close>

section \<open>The code\<close>

record bitmap =
  bm_bytes :: u64
  bm_size :: u64
  bm_unset :: u64
  bm_map :: addr

definition SNOCHANGE :: status where
  "SNOCHANGE = 10"

definition load_bitmap :: "memory \<Rightarrow> addr \<Rightarrow> bitmap" where
  "load_bitmap m b =
     \<lparr>bm_bytes = ld64 m b, bm_size = ld64 m (b + 8), bm_unset = ld64 m (b + 16),
      bm_map = ld64 m (b + 24)\<rparr>"

definition store_bitmap :: "addr \<Rightarrow> bitmap \<Rightarrow> memory \<Rightarrow> memory" where
  "store_bitmap b r m =
     st64 (b + 24) (bm_map r) (st64 (b + 16) (bm_unset r)
       (st64 (b + 8) (bm_size r) (st64 b (bm_bytes r) m)))"

definition bitmap_from :: "u64 \<Rightarrow> addr \<Rightarrow> (memory, bitmap) kern" where
  "bitmap_from sz ptr =
     (let size = sz; bytes = drop_bit 3 (size + 7)
      in thn (mem_set ptr 0 bytes)
           (ret \<lparr>bm_bytes = bytes, bm_size = size, bm_unset = size, bm_map = ptr\<rparr>))"

definition bitmap_get :: "addr \<Rightarrow> u64 \<Rightarrow> (memory, status) kern" where
  "bitmap_get b i =
     bnd (gets (\<lambda>m. load_bitmap m b)) (\<lambda>bm.
       if i \<ge> bm_size bm then ret (fails EINVAL)
       else
         let byte = drop_bit 3 i; bi = i AND 7
         in gets (\<lambda>m. uint (drop_bit (unat bi) (m (bm_map bm + byte)) AND 1)))"

definition bitmap_set :: "addr \<Rightarrow> u64 \<Rightarrow> bool \<Rightarrow> (memory, status) kern" where
  "bitmap_set b i v =
     bnd (gets (\<lambda>m. load_bitmap m b)) (\<lambda>bm.
       if i \<ge> bm_size bm then ret (fails EINVAL)
       else
         let byte = bm_map bm + drop_bit 3 i; bi = i AND 7
         in bnd (gets (\<lambda>m. drop_bit (unat bi) (m byte) AND 1)) (\<lambda>old.
            if old = of_bool v then ret SNOCHANGE
            else
              let mask = push_bit (unat bi) 1
              in if v then
                   thn (modify (\<lambda>m. m(byte := m byte OR mask)))
                     (thn (modify (\<lambda>m. st64 (b + 16) (ld64 m (b + 16) - 1) m)) (ret SUCCESS))
                 else
                   thn (modify (\<lambda>m. m(byte := m byte AND NOT mask)))
                     (thn (modify (\<lambda>m. st64 (b + 16) (ld64 m (b + 16) + 1) m)) (ret SUCCESS))))"

section \<open>The abstract view: a set of indices\<close>

definition bit_at :: "memory \<Rightarrow> addr \<Rightarrow> nat \<Rightarrow> bool" where
  "bit_at m mp i \<longleftrightarrow> bit (m (mp + of_nat (i div 8))) (i mod 8)"

definition bitmap_len :: "addr \<Rightarrow> memory \<Rightarrow> nat" where
  "bitmap_len b m = unat (ld64 m (b + 8))"

definition bitmap_bits :: "addr \<Rightarrow> memory \<Rightarrow> nat set" where
  "bitmap_bits b m = {i. i < bitmap_len b m \<and> bit_at m (ld64 m (b + 24)) i}"

definition bitmap_wf :: "addr \<Rightarrow> memory \<Rightarrow> bool" where
  "bitmap_wf b m \<longleftrightarrow>
     bitmap_len b m + 7 < 2 ^ 64 \<and>
     ld64 m b = drop_bit 3 (ld64 m (b + 8) + 7) \<and>
     sep b 32 (ld64 m (b + 24)) (ld64 m b) \<and>
     unat (ld64 m (b + 16)) + card (bitmap_bits b m) = bitmap_len b m"

text \<open>Memory is the same outside of the structure and its bits, and the structure keeps its shape.\<close>

definition bitmap_frame :: "addr \<Rightarrow> memory \<Rightarrow> memory \<Rightarrow> bool" where
  "bitmap_frame b m m' \<longleftrightarrow>
     (\<forall>x. \<not> x - (b + 16) < 8 \<longrightarrow> \<not> x - ld64 m (b + 24) < ld64 m b \<longrightarrow> m' x = m x)"

lemma finite_bitmap_bits [simp]: "finite (bitmap_bits b m)"
  by (simp add: bitmap_bits_def)

lemma index_bits:
  "unat (i AND 7) = unat i mod 8" "drop_bit 3 i = of_nat (unat i div 8)" for i :: u64
proof -
  have "i AND 7 = i mod 8" using take_bit_eq_mask[of 3 i] by (simp add: take_bit_eq_mod mask_eq_exp_minus_1)
  then show "unat (i AND 7) = unat i mod 8" by (simp add: unat_mod)
  have "drop_bit 3 i = i div 8" by (simp add: drop_bit_eq_div)
  then have "unat (drop_bit 3 i) = unat i div 8" by (simp add: unat_div)
  moreover have "unat (of_nat (unat i div 8) :: u64) = unat i div 8"
    using unat_lt64[of i] by (simp add: unat_of_nat take_bit_nat_eq_self)
  ultimately show "drop_bit 3 i = of_nat (unat i div 8)" by (simp add: word_unat_eq_iff)
qed

lemma one_bit: "drop_bit n w AND 1 = of_bool (bit w n)" for w :: "'a::len word"
  by (auto simp: bit_iff_odd_drop_bit and_one_eq odd_iff_mod_2_eq_one)

lemma bitmap_get_in:
  assumes "unat i < bitmap_len b m"
  shows "bitmap_get b i m = Inr (of_bool (unat i \<in> bitmap_bits b m), m)"
  using assms
  by (auto simp: bitmap_get_def load_bitmap_def bitmap_len_def bitmap_bits_def bit_at_def word_le_nat_alt
      index_bits one_bit kern Let_def)

lemma bitmap_get_out:
  assumes "bitmap_len b m \<le> unat i"
  shows "bitmap_get b i m = Inr (fails EINVAL, m)"
  using assms by (simp add: bitmap_get_def load_bitmap_def bitmap_len_def word_le_nat_alt kern)

lemma bitmap_set_out:
  assumes "bitmap_len b m \<le> unat i"
  shows "bitmap_set b i v m = Inr (fails EINVAL, m)"
  using assms by (simp add: bitmap_set_def load_bitmap_def bitmap_len_def word_le_nat_alt kern)

lemma of_bool_word_eq [simp]: "(of_bool a :: 'a::len word) = of_bool b \<longleftrightarrow> a = b"
  by (cases a; cases b) simp_all

lemma bitmap_set_same:
  assumes "unat i < bitmap_len b m" "v = (unat i \<in> bitmap_bits b m)"
  shows "bitmap_set b i v m = Inr (SNOCHANGE, m)"
  using assms
  by (auto simp: bitmap_set_def load_bitmap_def bitmap_len_def bitmap_bits_def bit_at_def word_le_nat_alt
      index_bits one_bit kern Let_def)

text \<open>The memory after a bit has changed.\<close>

definition flipped :: "addr \<Rightarrow> u64 \<Rightarrow> bool \<Rightarrow> memory \<Rightarrow> memory" where
  "flipped b i v m =
     (let byte = ld64 m (b + 24) + of_nat (unat i div 8); k = unat i mod 8;
          m1 = m(byte := if v then m byte OR push_bit k 1 else m byte AND NOT (push_bit k 1))
      in st64 (b + 16) (if v then ld64 m1 (b + 16) - 1 else ld64 m1 (b + 16) + 1) m1)"

lemma bitmap_set_change:
  assumes "unat i < bitmap_len b m" "v \<noteq> (unat i \<in> bitmap_bits b m)"
  shows "bitmap_set b i v m = Inr (SUCCESS, flipped b i v m)"
  using assms
  by (auto simp: bitmap_set_def load_bitmap_def bitmap_len_def bitmap_bits_def bit_at_def word_le_nat_alt
      index_bits one_bit kern Let_def flipped_def)

lemma bitmap_bytes_cover:
  assumes "bitmap_wf b m" "i < bitmap_len b m"
  shows "(of_nat (i div 8) :: u64) < ld64 m b"
proof -
  let ?n = "ld64 m (b + 8)"
  have s: "unat ?n + 7 < 2 ^ 64" "ld64 m b = drop_bit 3 (?n + 7)"
    using assms(1) by (simp_all add: bitmap_wf_def bitmap_len_def)
  have "unat (?n + 7) = unat ?n + 7" using s(1) by (simp add: unat_word_ariths)
  then have "unat (ld64 m b) = (unat ?n + 7) div 8" unfolding s(2) by (simp add: drop_bit_eq_div unat_div)
  moreover have "i div 8 < (unat ?n + 7) div 8" using assms(2) by (simp add: bitmap_len_def)
  moreover have "i < 2 ^ 64" using assms(2) unat_lt64[of ?n] by (simp add: bitmap_len_def)
  ultimately show ?thesis by (simp add: word_less_nat_alt unat_of_nat take_bit_nat_eq_self)
qed

lemma sep_byte:
  assumes "sep a n p k" "j < k" "unat i + unat n' \<le> unat n" "0 < n'"
  shows "sep (a + i) n' (p + j) 1"
  using assms(1)
proof (rule sep_sub)
  show "unat j + unat (1 :: u64) \<le> unat k" using assms(2) by (simp add: word_less_nat_alt)
qed (use assms in simp_all)

lemma bitmap_byte_sep:
  assumes "bitmap_wf b m" "i < bitmap_len b m" "unat k \<le> 24"
  shows "sep (b + k) 8 (ld64 m (b + 24) + of_nat (i div 8)) 1"
proof -
  have "sep b 32 (ld64 m (b + 24)) (ld64 m b)" using assms(1) unfolding bitmap_wf_def by blast
  then show ?thesis by (rule sep_byte) (use assms bitmap_bytes_cover in simp_all)
qed

lemma flipped_fields:
  assumes "bitmap_wf b m" "unat i < bitmap_len b m"
  shows "ld64 (flipped b i v m) b = ld64 m b"
    "ld64 (flipped b i v m) (b + 8) = ld64 m (b + 8)"
    "ld64 (flipped b i v m) (b + 24) = ld64 m (b + 24)"
    "ld64 (flipped b i v m) (b + 16) = (if v then ld64 m (b + 16) - 1 else ld64 m (b + 16) + 1)"
  using bitmap_byte_sep[OF assms, of 0] bitmap_byte_sep[OF assms, of 8]
    bitmap_byte_sep[OF assms, of 16] bitmap_byte_sep[OF assms, of 24]
  by (simp_all add: flipped_def Let_def ld64_st64_sep ld64_upd_sep)

lemma flipped_byte:
  assumes "bitmap_wf b m" "unat i < bitmap_len b m" "j < bitmap_len b m"
  shows "flipped b i v m (ld64 m (b + 24) + of_nat (j div 8)) =
    (if j div 8 = unat i div 8
     then (if v then m (ld64 m (b + 24) + of_nat (j div 8)) OR push_bit (unat i mod 8) 1
           else m (ld64 m (b + 24) + of_nat (j div 8)) AND NOT (push_bit (unat i mod 8) 1))
     else m (ld64 m (b + 24) + of_nat (j div 8)))"
proof -
  have j: "j < 2 ^ 64" using assms(3) unat_lt64[of "ld64 m (b + 8)"] by (simp add: bitmap_len_def)
  have inj: "(of_nat (j div 8) :: u64) = of_nat (unat i div 8) \<longleftrightarrow> j div 8 = unat i div 8"
    using j unat_lt64[of i] by (auto simp: word_unat_eq_iff unat_of_nat)
  have "sep (ld64 m (b + 24) + of_nat (j div 8)) 1 (b + 16) 8"
    using bitmap_byte_sep[OF assms(1,3), of 16] by (simp add: sep_sym)
  then show ?thesis using inj by (simp add: flipped_def Let_def st64_byte_sep)
qed

lemma flipped_bit:
  assumes "bitmap_wf b m" "unat i < bitmap_len b m" "j < bitmap_len b m"
  shows "bit_at (flipped b i v m) (ld64 m (b + 24)) j =
    (if j = unat i then v else bit_at m (ld64 m (b + 24)) j)"
proof -
  have "j = unat i \<longleftrightarrow> j div 8 = unat i div 8 \<and> j mod 8 = unat i mod 8"
    by (metis div_mult_mod_eq)
  then show ?thesis unfolding bit_at_def flipped_byte[OF assms] by (auto simp: bit_simps)
qed

lemma flipped_len [simp]:
  assumes "bitmap_wf b m" "unat i < bitmap_len b m"
  shows "bitmap_len b (flipped b i v m) = bitmap_len b m"
  using assms by (simp add: bitmap_len_def flipped_fields)

lemma flipped_bits:
  assumes "bitmap_wf b m" "unat i < bitmap_len b m"
  shows "bitmap_bits b (flipped b i v m) =
    (if v then insert (unat i) (bitmap_bits b m) else bitmap_bits b m - {unat i})"
  using assms by (auto simp: bitmap_bits_def flipped_fields flipped_bit split: if_splits)

lemma flipped_frame: "bitmap_wf b m \<Longrightarrow> unat i < bitmap_len b m \<Longrightarrow> bitmap_frame b m (flipped b i v m)"
  using bitmap_bytes_cover[of b m "unat i"]
  by (auto simp: bitmap_frame_def flipped_def Let_def st64_def)

lemma card_bits_le: "card (bitmap_bits b m) \<le> bitmap_len b m"
  using card_mono[of "{..<bitmap_len b m}" "bitmap_bits b m"] by (auto simp: bitmap_bits_def)

lemma flipped_wf:
  assumes wf: "bitmap_wf b m" and i: "unat i < bitmap_len b m" and ch: "v \<noteq> (unat i \<in> bitmap_bits b m)"
  shows "bitmap_wf b (flipped b i v m)"
proof -
  let ?u = "ld64 m (b + 16)" and ?B = "bitmap_bits b m"
  have u: "unat ?u + card ?B = bitmap_len b m" using wf by (simp add: bitmap_wf_def)
  have "unat (ld64 (flipped b i v m) (b + 16)) + card (bitmap_bits b (flipped b i v m)) = bitmap_len b m"
  proof (cases v)
    case True
    then have "unat i \<notin> ?B" using ch by simp
    moreover have "insert (unat i) ?B \<subseteq> {..<bitmap_len b m}" using i by (auto simp: bitmap_bits_def)
    then have "card (insert (unat i) ?B) \<le> bitmap_len b m" 
      using card_mono[of "{..<bitmap_len b m}" "insert (unat i) ?B"] by simp
    ultimately have "0 < unat ?u" using u by simp
    then have "unat (?u - 1) = unat ?u - 1" by (simp add: unat_minus_one unat_gt_0)
    then show ?thesis using True \<open>unat i \<notin> ?B\<close> \<open>0 < unat ?u\<close> u
      by (simp add: flipped_fields[OF wf i] flipped_bits[OF wf i])
  next
    case False
    then have in': "unat i \<in> ?B" using ch by simp
    then have "0 < card ?B" by (auto simp: card_gt_0_iff)
    then have "unat (?u + 1) = unat ?u + 1"
      using u unat_lt64[of "ld64 m (b + 8)"] by (simp add: unat_word_ariths bitmap_len_def)
    then show ?thesis using False in' \<open>0 < card ?B\<close> u
      by (simp add: flipped_fields[OF wf i] flipped_bits[OF wf i] card_Diff_singleton)
  qed
  then show ?thesis using wf
    unfolding bitmap_wf_def flipped_fields(1,2,3)[OF wf i] flipped_len[OF wf i] by blast
qed

section \<open>The interface of an array of bits\<close>

text \<open>
  What a client of the bitmap relies on: an array of \<open>len s\<close> bits, seen as the set \<open>bits s\<close> of
  the indices that are set; \<open>same s s'\<close> says that everything else in the state is as before.
\<close>

locale bit_array =
  fixes wf :: "'s \<Rightarrow> bool"
    and len :: "'s \<Rightarrow> nat"
    and bits :: "'s \<Rightarrow> nat set"
    and same :: "'s \<Rightarrow> 's \<Rightarrow> bool"
    and get :: "u64 \<Rightarrow> ('s, status) kern"
    and set_bit :: "u64 \<Rightarrow> bool \<Rightarrow> ('s, status) kern"
  assumes get_in: "unat i < len s \<Longrightarrow> get i s = Inr (of_bool (unat i \<in> bits s), s)"
    and get_out: "len s \<le> unat i \<Longrightarrow> get i s = Inr (fails EINVAL, s)"
    and set_out: "len s \<le> unat i \<Longrightarrow> set_bit i v s = Inr (fails EINVAL, s)"
    and set_same: "unat i < len s \<Longrightarrow> v = (unat i \<in> bits s) \<Longrightarrow> set_bit i v s = Inr (SNOCHANGE, s)"
    and set_change: "wf s \<Longrightarrow> unat i < len s \<Longrightarrow> v \<noteq> (unat i \<in> bits s) \<Longrightarrow>
      \<exists>s'. set_bit i v s = Inr (SUCCESS, s') \<and> wf s' \<and> len s' = len s \<and> same s s' \<and>
        bits s' = (if v then insert (unat i) (bits s) else bits s - {unat i})"
begin

text \<open>Every call of \<open>set_bit\<close> inside the array leaves the bit as asked and touches no other bit.\<close>

lemma set_effect:
  assumes "wf s" "unat i < len s"
  shows "\<exists>r s'. set_bit i v s = Inr (r, s') \<and> \<not> ISERROR r \<and> wf s' \<and> len s' = len s \<and>
    bits s' = (if v then insert (unat i) (bits s) else bits s - {unat i})"
proof (cases "v = (unat i \<in> bits s)")
  case True
  with assms show ?thesis
    by (auto simp: set_same ISERROR_def SNOCHANGE_def)
next
  case False
  with assms show ?thesis using set_change[of s i v] by (auto simp: ISERROR_def)
qed

lemma get_after_set:
  assumes "wf s" "unat i < len s" "unat j < len s" "set_bit i v s = Inr (r, s')"
  shows "get j s' = Inr (of_bool (if j = i then v else unat j \<in> bits s), s')"
proof -
  have "bits s' = (if v then insert (unat i) (bits s) else bits s - {unat i})" "len s' = len s"
    using set_effect[OF assms(1,2), of v] assms(4) by auto
  with assms(3) show ?thesis by (auto simp: get_in word_unat_eq_iff)
qed

text \<open>A bit that is set can be set only once: the second attempt reports that nothing changed.\<close>

lemma set_again:
  assumes "wf s" "unat i < len s" "set_bit i v s = Inr (r, s')"
  shows "set_bit i v s' = Inr (SNOCHANGE, s')"
proof -
  have "bits s' = (if v then insert (unat i) (bits s) else bits s - {unat i})" "len s' = len s"
    using set_effect[OF assms(1,2), of v] assms(3) by auto
  with assms(2) show ?thesis by (auto simp: set_same)
qed

end

interpretation bitmap: bit_array "bitmap_wf b" "bitmap_len b" "bitmap_bits b" "bitmap_frame b"
  "bitmap_get b" "bitmap_set b" for b
proof unfold_locales
  fix m i v
  show "unat i < bitmap_len b m \<Longrightarrow> bitmap_get b i m = Inr (of_bool (unat i \<in> bitmap_bits b m), m)"
    by (rule bitmap_get_in)
  show "bitmap_len b m \<le> unat i \<Longrightarrow> bitmap_get b i m = Inr (fails EINVAL, m)"
    by (rule bitmap_get_out)
  show "bitmap_len b m \<le> unat i \<Longrightarrow> bitmap_set b i v m = Inr (fails EINVAL, m)"
    by (rule bitmap_set_out)
  show "unat i < bitmap_len b m \<Longrightarrow> v = (unat i \<in> bitmap_bits b m) \<Longrightarrow>
      bitmap_set b i v m = Inr (SNOCHANGE, m)"
    by (rule bitmap_set_same)
  show "bitmap_wf b m \<Longrightarrow> unat i < bitmap_len b m \<Longrightarrow> v \<noteq> (unat i \<in> bitmap_bits b m) \<Longrightarrow>
      \<exists>m'. bitmap_set b i v m = Inr (SUCCESS, m') \<and> bitmap_wf b m' \<and> bitmap_len b m' = bitmap_len b m \<and>
        bitmap_frame b m m' \<and>
        bitmap_bits b m' = (if v then insert (unat i) (bitmap_bits b m) else bitmap_bits b m - {unat i})"
    by (simp add: bitmap_set_change flipped_wf flipped_bits flipped_frame)
qed

section \<open>A new bitmap\<close>

lemma bitmap_from_eq:
  assumes "p \<noteq> 0" "written (drop_bit 3 (sz + 7)) \<le> 2 ^ 64"
  shows "bitmap_from sz p m =
    Inr (\<lparr>bm_bytes = drop_bit 3 (sz + 7), bm_size = sz, bm_unset = sz, bm_map = p\<rparr>,
         filled (written (drop_bit 3 (sz + 7))) p 0 m)"
  by (simp add: bitmap_from_def mem_set_eq[OF assms] thn_Inr kern Let_def)

lemma load_store_bitmap [simp]: "load_bitmap (store_bitmap b r m) b = r"
  by (simp add: load_bitmap_def store_bitmap_def ld64_st64_sep)

lemma ld64_store_bitmap:
  "ld64 (store_bitmap b r m) b = bm_bytes r" "ld64 (store_bitmap b r m) (b + 8) = bm_size r"
  "ld64 (store_bitmap b r m) (b + 16) = bm_unset r" "ld64 (store_bitmap b r m) (b + 24) = bm_map r"
  by (simp_all add: store_bitmap_def ld64_st64_sep)

end
