(* ===== verification/Lists.thy ===== *)
theory Lists
  imports Prelude
begin

text \<open>
  \<open>structs/list.c\<close>: circular doubly linked lists whose nodes are embedded in other objects. A
  \<open>struct list\<close> at address \<open>a\<close> is the pair of words \<open>prev\<close> at \<open>a\<close> and \<open>next\<close> at \<open>a + 8\<close>.
  \<open>ring m h xs\<close> relates memory to the list of node addresses that a list head stands for; all
  operations are shown to act on that list. Reading through a null pointer is undefined.
\<close>

section \<open>The code\<close>

definition lprev :: "memory \<Rightarrow> addr \<Rightarrow> addr" where
  "lprev m a = ld64 m a"

definition lnext :: "memory \<Rightarrow> addr \<Rightarrow> addr" where
  "lnext m a = ld64 m (a + 8)"

definition st_prev :: "addr \<Rightarrow> addr \<Rightarrow> memory \<Rightarrow> memory" where
  "st_prev a v m = st64 a v m"

definition st_next :: "addr \<Rightarrow> addr \<Rightarrow> memory \<Rightarrow> memory" where
  "st_next a v m = st64 (a + 8) v m"

text \<open>Assignments \<open>p->next = v\<close> and \<open>p->prev = v\<close> through a pointer that may be null.\<close>

definition set_next :: "addr \<Rightarrow> addr \<Rightarrow> (memory, unit) kern" where
  "set_next p v = (if p = 0 then halt Undefined else modify (st_next p v))"

definition set_prev :: "addr \<Rightarrow> addr \<Rightarrow> (memory, unit) kern" where
  "set_prev p v = (if p = 0 then halt Undefined else modify (st_prev p v))"

definition list_init :: "addr \<Rightarrow> (memory, unit) kern" where
  "list_init list = thn (asrt (list \<noteq> 0)) (thn (set_next list list) (set_prev list list))"

definition list_insert :: "addr \<Rightarrow> addr \<Rightarrow> (memory, unit) kern" where
  "list_insert list elem =
     thn (asrt (list \<noteq> 0)) (thn (asrt (elem \<noteq> 0))
       (thn (set_prev elem list)
       (thn (bnd (gets (\<lambda>m. lnext m list)) (set_next elem))
       (thn (set_next list elem)
            (bnd (gets (\<lambda>m. lnext m elem)) (\<lambda>n. set_prev n elem))))))"

definition list_remove :: "addr \<Rightarrow> (memory, unit) kern" where
  "list_remove elem =
     thn (asrt (elem \<noteq> 0))
       (thn (bnd (gets (\<lambda>m. (lprev m elem, lnext m elem))) (\<lambda>(p, n). set_next p n))
       (thn (bnd (gets (\<lambda>m. (lprev m elem, lnext m elem))) (\<lambda>(p, n). set_prev n p))
       (thn (set_prev elem 0) (set_next elem 0))))"

fun list_length_more :: "addr \<Rightarrow> addr \<times> u64 \<Rightarrow> memory \<Rightarrow> bool" where
  "list_length_more list (elem, len) m \<longleftrightarrow> elem \<noteq> list"

fun list_length_step :: "addr \<times> u64 \<Rightarrow> (memory, addr \<times> u64) kern" where
  "list_length_step (elem, len) = bnd (gets (\<lambda>m. lnext m elem)) (\<lambda>n. ret (n, len + 1))"

definition list_length :: "addr \<Rightarrow> (memory, u64) kern" where
  "list_length list =
     thn (asrt (list \<noteq> 0))
       (bnd (gets (\<lambda>m. lnext m list)) (\<lambda>first.
        bnd (loop (list_length_more list) list_length_step (first, 0)) (\<lambda>(e, len). ret len)))"

definition list_is_empty :: "addr \<Rightarrow> memory \<Rightarrow> bool" where
  "list_is_empty list m \<longleftrightarrow> list = lnext m list"

definition list_join :: "addr \<Rightarrow> addr \<Rightarrow> (memory, unit) kern" where
  "list_join list other =
     thn (asrt (list \<noteq> 0)) (thn (asrt (list \<noteq> other))
       (bnd (gets (list_is_empty other)) (\<lambda>empty.
        if empty then ret ()
        else
          thn (bnd (gets (\<lambda>m. lnext m other)) (\<lambda>n. set_prev n list))
          (thn (bnd (gets (\<lambda>m. (lprev m other, lnext m list))) (\<lambda>(p, n). set_next p n))
          (thn (bnd (gets (\<lambda>m. (lnext m list, lprev m other))) (\<lambda>(n, p). set_prev n p))
               (bnd (gets (\<lambda>m. lnext m other)) (set_next list)))))))"

section \<open>Fields as functions of the node\<close>

text \<open>Two nodes are the same node or do not overlap; a set of nodes is apart if all pairs are so.\<close>

definition apart :: "addr set \<Rightarrow> bool" where
  "apart S \<longleftrightarrow> 0 \<notin> S \<and> (\<forall>x\<in>S. \<forall>y\<in>S. x \<noteq> y \<longrightarrow> sep x 16 y 16)"

lemma apart_subset: "apart S \<Longrightarrow> T \<subseteq> S \<Longrightarrow> apart T"
  by (auto simp: apart_def)

lemma apart_sep:
  assumes "apart S" "x \<in> S" "y \<in> S" "x \<noteq> y" "unat i + unat n \<le> 16" "unat j + unat k \<le> 16"
    "0 < n" "0 < k"
  shows "sep (x + i) n (y + j) k"
proof -
  have "sep x 16 y 16" using assms by (auto simp: apart_def)
  then show ?thesis by (rule sep_sub) (use assms in simp_all)
qed

lemma field_upd:
  assumes S: "apart S" "x \<in> S" "y \<in> S"
  shows "lnext (st_next x v m) y = ((lnext m)(x := v)) y"
    "lprev (st_next x v m) y = lprev m y"
    "lprev (st_prev x v m) y = ((lprev m)(x := v)) y"
    "lnext (st_prev x v m) y = lnext m y"
proof -
  have sep: "sep (y + i) 8 (x + j) 8" if "x \<noteq> y" "i = 0 \<or> i = 8" "j = 0 \<or> j = 8" for i j
    using apart_sep[OF S(1,3,2), of i 8 j 8] that by auto
  show "lnext (st_next x v m) y = ((lnext m)(x := v)) y"
    using sep[of 8 8] by (auto simp: lnext_def st_next_def ld64_st64_sep)
  show "lprev (st_prev x v m) y = ((lprev m)(x := v)) y"
    using sep[of 0 0] by (auto simp: lprev_def st_prev_def ld64_st64_sep)
  show "lprev (st_next x v m) y = lprev m y"
    using sep[of 0 8] by (cases "x = y") (auto simp: lprev_def st_next_def ld64_st64_sep)
  show "lnext (st_prev x v m) y = lnext m y"
    using sep[of 8 0] by (cases "x = y") (auto simp: lnext_def st_prev_def ld64_st64_sep)
qed

text \<open>Memory is unchanged outside of the nodes \<open>S\<close>.\<close>

definition only_nodes :: "addr set \<Rightarrow> memory \<Rightarrow> memory \<Rightarrow> bool" where
  "only_nodes S m m' \<longleftrightarrow> (\<forall>x. (\<forall>a\<in>S. \<not> x - a < 16) \<longrightarrow> m' x = m x)"

lemma only_nodes_refl [simp]: "only_nodes S m m"
  by (simp add: only_nodes_def)

lemma only_nodes_trans: "only_nodes S m1 m2 \<Longrightarrow> only_nodes S m2 m3 \<Longrightarrow> only_nodes S m1 m3"
  by (simp add: only_nodes_def)

lemma only_nodes_mono: "only_nodes S m m' \<Longrightarrow> S \<subseteq> T \<Longrightarrow> only_nodes T m m'"
  by (auto simp: only_nodes_def)

lemma only_nodes_st [simp]:
  assumes "x \<in> S"
  shows "only_nodes S m (st_next x v m)" "only_nodes S m (st_prev x v m)"
proof -
  have "\<not> y - (x + 8) < 8 \<and> \<not> y - x < 8" if "\<not> y - x < 16" for y
  proof -
    have e: "y - (x + 8) = (y - x) - 8" by simp
    have "16 \<le> unat (y - x)" using that by (simp add: word_less_nat_alt)
    then have "unat ((y - x) - 8) = unat (y - x) - 8" by (simp add: unat_sub_if')
    then show ?thesis using \<open>16 \<le> unat (y - x)\<close> unfolding e word_less_nat_alt by simp
  qed
  with assms show "only_nodes S m (st_next x v m)" "only_nodes S m (st_prev x v m)"
    by (auto simp: only_nodes_def st_next_def st_prev_def st64_def)
qed

lemma list_insert_effect:
  assumes S: "apart S" "n \<in> S" "e \<in> S" "lnext m n \<in> S" and ne: "n \<noteq> e"
  obtains m' where "list_insert n e m = Inr ((), m')" "only_nodes {n, e, lnext m n} m m'"
    "\<And>y. y \<in> S \<Longrightarrow> lnext m' y = ((lnext m)(e := lnext m n, n := e)) y"
    "\<And>y. y \<in> S \<Longrightarrow> lprev m' y = ((lprev m)(e := n, lnext m n := e)) y"
proof -
  let ?s = "lnext m n"
  let ?m' = "st_prev ?s e (st_next n e (st_next e ?s (st_prev e n m)))"
  note upd = field_upd[OF S(1)]
  have z: "n \<noteq> 0" "e \<noteq> 0" "?s \<noteq> 0" using S by (auto simp: apart_def)
  have run: "list_insert n e m = Inr ((), ?m')"
    using z ne by (simp add: list_insert_def set_prev_def set_next_def thn_Inr bnd_Inr kern upd S)
  have "only_nodes {n, e, ?s} m ?m'"
    by (rule only_nodes_trans[of _ _ "st_prev e n m"], simp,
        rule only_nodes_trans[of _ _ "st_next e ?s (st_prev e n m)"], simp,
        rule only_nodes_trans[of _ _ "st_next n e (st_next e ?s (st_prev e n m))"], simp_all)
  from that[OF run this] show thesis by (simp add: upd S)
qed

lemma list_remove_effect:
  assumes S: "apart S" "e \<in> S" "lnext m e \<in> S" "lprev m e \<in> S" and ne: "lprev m e \<noteq> e" "lnext m e \<noteq> e"
  obtains m' where "list_remove e m = Inr ((), m')" "only_nodes {e, lnext m e, lprev m e} m m'"
    "\<And>y. y \<in> S \<Longrightarrow> lnext m' y = ((lnext m)(lprev m e := lnext m e, e := 0)) y"
    "\<And>y. y \<in> S \<Longrightarrow> lprev m' y = ((lprev m)(lnext m e := lprev m e, e := 0)) y"
proof -
  let ?n = "lnext m e" and ?p = "lprev m e"
  let ?m' = "st_next e 0 (st_prev e 0 (st_prev ?n ?p (st_next ?p ?n m)))"
  note upd = field_upd[OF S(1)]
  have z: "?n \<noteq> 0" "e \<noteq> 0" "?p \<noteq> 0" using S by (auto simp: apart_def)
  have run: "list_remove e m = Inr ((), ?m')"
    using z ne by (simp add: list_remove_def set_prev_def set_next_def thn_Inr bnd_Inr kern upd S)
  have "only_nodes {e, ?n, ?p} m ?m'"
    by (rule only_nodes_trans[of _ _ "st_next ?p ?n m"], simp,
        rule only_nodes_trans[of _ _ "st_prev ?n ?p (st_next ?p ?n m)"], simp,
        rule only_nodes_trans[of _ _ "st_prev e 0 (st_prev ?n ?p (st_next ?p ?n m))"], simp_all)
  from that[OF run this] show thesis by (simp add: upd S)
qed

section \<open>Chains and rings\<close>

fun chain :: "(addr \<Rightarrow> addr) \<Rightarrow> (addr \<Rightarrow> addr) \<Rightarrow> addr \<Rightarrow> addr list \<Rightarrow> addr \<Rightarrow> bool" where
  "chain nx pv a [] b \<longleftrightarrow> nx a = b \<and> pv b = a"
| "chain nx pv a (x # xs) b \<longleftrightarrow> nx a = x \<and> pv x = a \<and> chain nx pv x xs b"

definition ring :: "memory \<Rightarrow> addr \<Rightarrow> addr list \<Rightarrow> bool" where
  "ring m h xs \<longleftrightarrow> distinct (h # xs) \<and> apart (set (h # xs)) \<and> chain (lnext m) (lprev m) h xs h"

lemma chain_cong:
  "(\<And>n. n \<in> insert a (set xs) \<Longrightarrow> nx' n = nx n) \<Longrightarrow> (\<And>n. n \<in> insert b (set xs) \<Longrightarrow> pv' n = pv n) \<Longrightarrow>
    chain nx' pv' a xs b = chain nx pv a xs b"
  by (induction xs arbitrary: a) auto

lemma chain_eqI:
  assumes "chain nx pv a xs b"
    "\<And>n. n \<in> insert a (set xs) \<Longrightarrow> nx' n = nx n" "\<And>n. n \<in> insert b (set xs) \<Longrightarrow> pv' n = pv n"
  shows "chain nx' pv' a xs b"
  using chain_cong[of a xs nx' nx b pv' pv] assms by blast

lemma chain_append: "chain nx pv a (xs @ y # ys) b \<longleftrightarrow> chain nx pv a xs y \<and> chain nx pv y ys b"
  by (induction xs arbitrary: a) auto

lemma chain_next: "chain nx pv a xs b \<Longrightarrow> nx a \<in> insert b (set xs)"
  by (cases xs) auto

lemma chain_prev: "chain nx pv a xs b \<Longrightarrow> pv b \<in> insert a (set xs)"
  by (cases xs rule: rev_cases) (auto simp: chain_append)

lemma chain_first: "chain nx pv a xs b \<Longrightarrow> nx a = (case xs of [] \<Rightarrow> b | x # _ \<Rightarrow> x)"
  by (cases xs) auto

lemma chain_last: "chain nx pv a xs b \<Longrightarrow> pv b = (if xs = [] then a else last xs)"
  by (cases xs rule: rev_cases) (auto simp: chain_append)

text \<open>Linking \<open>e\<close> in after \<open>a\<close>, and linking \<open>e\<close> out, on the level of the two fields.\<close>

lemma chain_insert:
  assumes "chain nx pv a xs b" "distinct (e # xs)" "e \<noteq> a" "e \<noteq> b" "a \<notin> set xs" "b \<notin> set xs"
  shows "chain (nx(e := nx a, a := e)) (pv(e := a, nx a := e)) a (e # xs) b"
proof (cases xs)
  case Nil
  with assms show ?thesis by auto
next
  case (Cons x ys)
  with assms have "chain nx pv x ys b" "nx a = x" by auto
  moreover from this(1) have "chain (nx(e := nx a, a := e)) (pv(e := a, nx a := e)) x ys b"
    using assms Cons by (subst chain_cong[where nx = nx and pv = pv]) auto
  ultimately show ?thesis using assms Cons by auto
qed

lemma ring_cong:
  assumes "\<And>y. y \<in> set (h # xs) \<Longrightarrow> lnext m' y = lnext m y"
    "\<And>y. y \<in> set (h # xs) \<Longrightarrow> lprev m' y = lprev m y"
  shows "ring m' h xs = ring m h xs"
  using chain_cong[of h xs "lnext m'" "lnext m" h "lprev m'" "lprev m"] assms
  by (auto simp: ring_def)

lemma only_nodes_ring:
  assumes "only_nodes T m m'" "apart (set (h # xs) \<union> T)" "T \<inter> set (h # xs) = {}"
  shows "ring m' h xs = ring m h xs"
proof (rule ring_cong)
  fix y assume y: "y \<in> set (h # xs)"
  have "ld64 m' (y + j) = ld64 m (y + j)" if "j = 0 \<or> j = 8" for j
  proof (rule ld64_agree)
    fix x assume x: "x - (y + j) < 8"
    have "\<not> x - a < 16" if a: "a \<in> T" for a
    proof -
      have "sep (y + j) 8 (a + 0) 16"
        by (rule apart_sep[OF assms(2)]) (use y a assms(3) \<open>j = 0 \<or> j = 8\<close> in auto)
      then show ?thesis using sep_outside x by fastforce
    qed
    then show "m' x = m x" using assms(1) by (simp add: only_nodes_def)
  qed
  from this[of 8] this[of 0] show "lnext m' y = lnext m y" "lprev m' y = lprev m y"
    by (simp_all add: lnext_def lprev_def)
qed

text \<open>Insertion after the head, and after any other node of a ring.\<close>

lemma ring_insert_head:
  assumes r: "ring m h xs" and e: "e \<notin> set (h # xs)" "apart (insert e (set (h # xs)))"
  obtains m' where "list_insert h e m = Inr ((), m')" "ring m' h (e # xs)"
    "only_nodes (insert e (set (h # xs))) m m'"
proof -
  let ?S = "insert e (set (h # xs))"
  have c: "chain (lnext m) (lprev m) h xs h" and d: "distinct (h # xs)" using r by (auto simp: ring_def)
  then have s: "lnext m h \<in> ?S" using chain_next[OF c] by auto
  obtain m' where m': "list_insert h e m = Inr ((), m')" "only_nodes {h, e, lnext m h} m m'"
    and nx: "\<And>y. y \<in> ?S \<Longrightarrow> lnext m' y = ((lnext m)(e := lnext m h, h := e)) y"
    and pv: "\<And>y. y \<in> ?S \<Longrightarrow> lprev m' y = ((lprev m)(e := h, lnext m h := e)) y"
    using list_insert_effect[OF e(2) _ insertI1 s] e(1) by auto
  have c': "chain ((lnext m)(e := lnext m h, h := e)) ((lprev m)(e := h, lnext m h := e)) h (e # xs) h"
    by (rule chain_insert[OF c]) (use d e in auto)
  have "chain (lnext m') (lprev m') h (e # xs) h"
    by (rule chain_eqI[OF c']; (rule nx | rule pv); auto)
  then have "ring m' h (e # xs)" using d e by (auto simp: ring_def insert_commute)
  moreover have "only_nodes ?S m m'" using m'(2) s by (auto intro: only_nodes_mono)
  ultimately show thesis using that m'(1) by blast
qed

lemma ring_insert_inner:
  assumes r: "ring m h (as @ n # bs)" and e: "e \<notin> set (h # as @ n # bs)"
    "apart (insert e (set (h # as @ n # bs)))"
  obtains m' where "list_insert n e m = Inr ((), m')" "ring m' h (as @ n # e # bs)"
    "only_nodes (insert e (set (h # as @ n # bs))) m m'"
proof -
  let ?S = "insert e (set (h # as @ n # bs))"
  have c1: "chain (lnext m) (lprev m) h as n" and c2: "chain (lnext m) (lprev m) n bs h"
    and d: "distinct (h # as @ n # bs)" using r by (auto simp: ring_def chain_append)
  have s: "lnext m n \<in> insert h (set bs)" using chain_next[OF c2] by auto
  then have s': "lnext m n \<in> ?S" by auto
  obtain m' where m': "list_insert n e m = Inr ((), m')" "only_nodes {n, e, lnext m n} m m'"
    and nx: "\<And>y. y \<in> ?S \<Longrightarrow> lnext m' y = ((lnext m)(e := lnext m n, n := e)) y"
    and pv: "\<And>y. y \<in> ?S \<Longrightarrow> lprev m' y = ((lprev m)(e := n, lnext m n := e)) y"
    using list_insert_effect[OF e(2) _ insertI1 s'] e(1) by auto
  have c': "chain ((lnext m)(e := lnext m n, n := e)) ((lprev m)(e := n, lnext m n := e)) n (e # bs) h"
    by (rule chain_insert[OF c2]) (use d e in auto)
  have "chain (lnext m') (lprev m') n (e # bs) h"
    by (rule chain_eqI[OF c']; (rule nx | rule pv); auto)
  moreover have "chain (lnext m') (lprev m') h as n"
  proof -
    have "lnext m' y = lnext m y" if "y \<in> insert h (set as)" for y
    proof -
      have "y \<in> ?S" "y \<noteq> n" "y \<noteq> e" using that d e(1) by auto
      then show ?thesis using nx[of y] by simp
    qed
    moreover have "lprev m' y = lprev m y" if "y \<in> insert n (set as)" for y
    proof -
      have "y \<noteq> lnext m n" using that d s by auto
      moreover have "y \<in> ?S" "y \<noteq> e" using that d e(1) by auto
      ultimately show ?thesis using pv[of y] by simp
    qed
    ultimately show ?thesis by (rule chain_eqI[OF c1])
  qed
  ultimately have "ring m' h (as @ n # e # bs)"
    using d e by (auto simp: ring_def chain_append insert_commute)
  moreover have "only_nodes ?S m m'" using m'(2) s' by (auto intro: only_nodes_mono)
  ultimately show thesis using that m'(1) by blast
qed

lemma chain_remove:
  assumes "chain nx pv a (as @ e # bs) b" "distinct (as @ e # bs)"
    "a \<notin> set (as @ e # bs)" "b \<notin> set (as @ e # bs)"
  shows "chain (nx(pv e := nx e)) (pv(nx e := pv e)) a (as @ bs) b"
  using assms
proof (induction as arbitrary: a)
  case Nil
  show ?case
  proof (cases bs)
    case Nil
    with Nil.prems show ?thesis by auto
  next
    case (Cons y ys)
    then have c: "chain nx pv y ys b" "nx e = y" "pv e = a" using Nil.prems by auto
    have "chain (nx(a := y)) (pv(y := a)) y ys b"
      by (rule chain_eqI[OF c(1)]) (use Nil.prems Cons in auto)
    then show ?thesis unfolding c(2,3) Cons
      by (simp only: chain.simps fun_upd_same append_Nil simp_thms)
  qed
next
  case (Cons x xs)
  then have c: "nx a = x" "pv x = a" "chain nx pv x (xs @ e # bs) b" by auto
  have IH: "chain (nx(pv e := nx e)) (pv(nx e := pv e)) x (xs @ bs) b"
    by (rule Cons.IH[OF c(3)]) (use Cons.prems in auto)
  have ce: "chain nx pv x xs e" "chain nx pv e bs b" using c(3) by (auto simp: chain_append)
  have "pv e \<in> insert x (set xs)" "nx e \<in> insert b (set bs)"
    using chain_prev[OF ce(1)] chain_next[OF ce(2)] by auto
  with Cons.prems have "pv e \<noteq> a" "nx e \<noteq> x" by auto
  then have "(nx(pv e := nx e)) a = x" "(pv(nx e := pv e)) x = a" using c by simp_all
  with IH show ?case unfolding append_Cons chain.simps by blast
qed

lemma ring_remove:
  assumes r: "ring m h (as @ e # bs)"
  obtains m' where "list_remove e m = Inr ((), m')" "ring m' h (as @ bs)"
    "only_nodes (set (h # as @ e # bs)) m m'"
proof -
  let ?S = "set (h # as @ e # bs)"
  have c: "chain (lnext m) (lprev m) h (as @ e # bs) h" and d: "distinct (h # as @ e # bs)"
    and S: "apart ?S" using r by (auto simp: ring_def)
  then have p: "lprev m e \<in> insert h (set as)" and n: "lnext m e \<in> insert h (set bs)"
    using chain_prev[of _ _ h as e] chain_next[of _ _ e bs h] by (auto simp: chain_append)
  have mem: "e \<in> ?S" "lnext m e \<in> ?S" "lprev m e \<in> ?S" and ne: "lprev m e \<noteq> e" "lnext m e \<noteq> e"
    using p n d by auto
  obtain m' where m': "list_remove e m = Inr ((), m')" "only_nodes {e, lnext m e, lprev m e} m m'"
    and nx: "\<And>y. y \<in> ?S \<Longrightarrow> lnext m' y = ((lnext m)(lprev m e := lnext m e, e := 0)) y"
    and pv: "\<And>y. y \<in> ?S \<Longrightarrow> lprev m' y = ((lprev m)(lnext m e := lprev m e, e := 0)) y"
    using list_remove_effect[OF S mem ne] by auto
  have "chain ((lnext m)(lprev m e := lnext m e)) ((lprev m)(lnext m e := lprev m e)) h (as @ bs) h"
    by (rule chain_remove[OF c]) (use d in auto)
  then have "chain (lnext m') (lprev m') h (as @ bs) h"
  proof (rule chain_eqI)
    fix y assume "y \<in> insert h (set (as @ bs))"
    then have "y \<in> ?S" "y \<noteq> e" using d by auto
    then show "lnext m' y = ((lnext m)(lprev m e := lnext m e)) y"
      "lprev m' y = ((lprev m)(lnext m e := lprev m e)) y"
      using nx[of y] pv[of y] by simp_all
  qed
  moreover have "apart (set (h # as @ bs))" using S by (rule apart_subset) auto
  ultimately have "ring m' h (as @ bs)" using d by (auto simp: ring_def)
  moreover have "only_nodes ?S m m'" using m'(2) by (rule only_nodes_mono) (use mem in auto)
  ultimately show thesis using that m'(1) by blast
qed

lemma list_length_loop:
  "chain (lnext m) (lprev m) a xs h \<Longrightarrow> h \<notin> set xs \<Longrightarrow>
    loop (list_length_more h) list_length_step (lnext m a, k) m = Inr ((h, k + of_nat (length xs)), m)"
proof (induction xs arbitrary: a k)
  case Nil
  then show ?case by (simp add: loop_stop)
next
  case (Cons x xs)
  then have "loop (list_length_more h) list_length_step (lnext m a, k) m
      = loop (list_length_more h) list_length_step (lnext m x, k + 1) m"
    by (intro loop_step) (auto simp: kern)
  with Cons show ?case by (simp add: add.assoc)
qed

lemma list_length_ring: "ring m h xs \<Longrightarrow> list_length h m = Inr (of_nat (length xs), m)"
  using list_length_loop[of m h xs h 0]
  by (auto simp: list_length_def ring_def apart_def bnd_Inr kern)

lemma list_is_empty_ring: "ring m h xs \<Longrightarrow> list_is_empty h m \<longleftrightarrow> xs = []"
  by (cases xs) (auto simp: list_is_empty_def ring_def)

lemma list_first_ring: "ring m h (x # xs) \<Longrightarrow> lnext m h = x"
  by (auto simp: ring_def)

section \<open>Joining two rings\<close>

text \<open>The last node of a chain gets a new successor.\<close>

lemma chain_end:
  assumes c: "chain nx pv a xs b" and d: "distinct (a # xs)" "b' \<notin> set xs" "b' \<noteq> a \<or> xs = []"
    and nx: "\<And>y. y \<in> insert a (set xs) \<Longrightarrow> nx' y = (if y = pv b then b' else nx y)"
    and pv: "\<And>y. y \<in> set xs \<Longrightarrow> pv' y = pv y" "pv' b' = pv b"
  shows "chain nx' pv' a xs b'"
proof (cases xs rule: rev_cases)
  case Nil
  with c nx pv show ?thesis by auto
next
  case (snoc ws w)
  then have c1: "chain nx pv a ws w" "nx w = b" "pv b = w" using c by (auto simp: chain_append)
  have "chain nx' pv' a ws w"
  proof (rule chain_eqI[OF c1(1)])
    fix y assume "y \<in> insert a (set ws)"
    then have "y \<in> insert a (set xs)" "y \<noteq> pv b" using snoc d c1 by auto
    then show "nx' y = nx y" using nx by simp
  next
    fix y assume "y \<in> insert w (set ws)"
    then show "pv' y = pv y" using snoc pv by simp
  qed
  moreover have "nx' w = b'" "pv' b' = w" using nx pv c1 snoc by simp_all
  ultimately show ?thesis unfolding snoc chain_append chain.simps by blast
qed

lemma list_join_effect:
  assumes S: "apart S" "l \<in> S" "r \<in> S" "lnext m l \<in> S" "lnext m r \<in> S" "lprev m r \<in> S"
    and ne: "l \<noteq> r" "lnext m r \<noteq> r" "lprev m r \<noteq> r" "lprev m r \<noteq> l" "lnext m r \<noteq> l" "lnext m l \<noteq> r"
  obtains m' where "list_join l r m = Inr ((), m')" "only_nodes S m m'"
    "\<And>y. y \<in> S \<Longrightarrow> lnext m' y = ((lnext m)(lprev m r := lnext m l, l := lnext m r)) y"
    "\<And>y. y \<in> S \<Longrightarrow> lprev m' y = ((lprev m)(lnext m r := l, lnext m l := lprev m r)) y"
proof -
  let ?n = "lnext m r" and ?p = "lprev m r" and ?x = "lnext m l"
  let ?m1 = "st_prev ?n l m"
  let ?m2 = "st_next ?p ?x ?m1"
  let ?m3 = "st_prev ?x ?p ?m2"
  let ?m' = "st_next l ?n ?m3"
  note upd = field_upd[OF S(1)]
  have z: "l \<noteq> 0" "?n \<noteq> 0" "?p \<noteq> 0" "?x \<noteq> 0" using S by (auto simp: apart_def)
  have run: "list_join l r m = Inr ((), ?m')"
    using z ne by (simp add: list_join_def list_is_empty_def set_prev_def set_next_def thn_Inr bnd_Inr kern upd S)
  have "only_nodes S m ?m'"
    by (rule only_nodes_trans[of _ _ ?m1], simp add: S, rule only_nodes_trans[of _ _ ?m2], simp add: S,
        rule only_nodes_trans[of _ _ ?m3], simp_all add: S)
  from that[OF run this] show thesis by (simp add: upd S)
qed

text \<open>The chain of the joined ring: the chain of \<open>ys\<close> is put behind \<open>l\<close>, in front of the chain of \<open>xs\<close>.\<close>

lemma chain_joined:
  assumes l: "chain nx pv l xs l" and r: "chain nx pv y zs r" "nx r = y" "pv y = r" and d: "distinct (l # xs)" "distinct (r # y # zs)"
    and disj: "set (l # xs) \<inter> set (r # y # zs) = {}"
    and nx': "\<And>a. a \<in> set (l # xs) \<union> set (r # y # zs) \<Longrightarrow> nx' a = (nx(pv r := nx l, l := y)) a"
    and pv': "\<And>a. a \<in> set (l # xs) \<union> set (r # y # zs) \<Longrightarrow> pv' a = (pv(y := l, nx l := pv r)) a"
  shows "chain nx' pv' l (y # zs @ xs) l"
proof -
  let ?e = "nx l"
  have xl: "?e \<in> insert l (set xs)" using chain_next[OF l] .
  have pr: "pv r \<in> insert y (set zs)" using chain_prev[OF r(1)] by auto
  have c1: "chain nx' pv' y zs ?e"
  proof (rule chain_end[OF r(1)])
    show "distinct (y # zs)" "?e \<notin> set zs" "?e \<noteq> y \<or> zs = []" using d(2) xl disj by auto
    show "a \<in> insert y (set zs) \<Longrightarrow> nx' a = (if a = pv r then ?e else nx a)" for a using nx'[of a] disj by auto
    show "pv' a = pv a" if a: "a \<in> set zs" for a
    proof -
      have "a \<noteq> y" "a \<noteq> ?e" using d(2) xl disj a by auto
      then show ?thesis using pv'[of a] a by simp
    qed
    show "pv' ?e = pv r" using pv'[of ?e] xl by auto
  qed
  have "y \<noteq> ?e" using xl disj by auto
  then have c2: "nx' l = y" "pv' y = l" using nx'[of l] pv'[of y] by simp_all
  have c3: "chain nx' pv' x ws l \<and> ?e = x" if x: "xs = x # ws" for x ws
  proof -
    have c: "chain nx pv x ws l" "?e = x" using x l by auto
    have "chain nx' pv' x ws l"
    proof (rule chain_eqI[OF c(1)])
      fix a assume a: "a \<in> insert x (set ws)"
      then have "a \<noteq> l" "a \<noteq> pv r" using x d(1) pr disj by auto
      then show "nx' a = nx a" using nx'[of a] a x by auto
    next
      fix a assume a: "a \<in> insert l (set ws)"
      then have "a \<noteq> ?e" "a \<noteq> y" using x d(1) c(2) disj by auto
      then show "pv' a = pv a" using pv'[of a] a x by auto
    qed
    with c show ?thesis by simp
  qed
  show ?thesis
  proof (cases xs)
    case Nil
    then have "?e = l" using l by simp
    with Nil c1 c2 show ?thesis by simp
  next
    case xs: (Cons x ws)
    with c1 c2 c3[OF xs] show ?thesis unfolding xs chain.simps chain_append by simp
  qed
qed

lemma ring_join:
  assumes l: "ring m l xs" and r: "ring m r ys"
    and disj: "set (l # xs) \<inter> set (r # ys) = {}" "apart (set (l # xs) \<union> set (r # ys))"
  obtains m' where "list_join l r m = Inr ((), m')" "ring m' l (ys @ xs)"
proof (cases ys)
  case Nil
  then have "list_is_empty r m" using r list_is_empty_ring by auto
  moreover have "l \<noteq> 0" "l \<noteq> r" using disj by (auto simp: apart_def)
  ultimately have "list_join l r m = Inr ((), m)" by (simp add: list_join_def kern)
  then show thesis using that l Nil by simp
next
  case (Cons y zs)
  let ?S = "set (l # xs) \<union> set (r # ys)"
  have cl: "chain (lnext m) (lprev m) l xs l" and dl: "distinct (l # xs)" using l by (auto simp: ring_def)
  have cr: "chain (lnext m) (lprev m) y zs r" "lnext m r = y" "lprev m y = r" and dr: "distinct (r # ys)"
    using r Cons by (auto simp: ring_def)
  have xl: "lnext m l \<in> insert l (set xs)" using chain_next[OF cl] .
  have pr: "lprev m r \<in> set ys" using chain_prev[OF cr(1)] Cons by auto
  have S: "l \<in> ?S" "r \<in> ?S" "lnext m l \<in> ?S" "lnext m r \<in> ?S" "lprev m r \<in> ?S"
    using xl pr cr(2) Cons by auto
  have y: "y \<in> set ys" using Cons by simp
  have ne: "l \<noteq> r" "lnext m r \<noteq> r" "lprev m r \<noteq> r" "lprev m r \<noteq> l" "lnext m r \<noteq> l" "lnext m l \<noteq> r"
    unfolding cr(2) using disj(1) pr xl dr y by auto
  obtain m' where m': "list_join l r m = Inr ((), m')" and "only_nodes ?S m m'"
    and nx: "\<And>y. y \<in> ?S \<Longrightarrow> lnext m' y = ((lnext m)(lprev m r := lnext m l, l := lnext m r)) y"
    and pv: "\<And>y. y \<in> ?S \<Longrightarrow> lprev m' y = ((lprev m)(lnext m r := l, lnext m l := lprev m r)) y"
    by (rule list_join_effect[OF disj(2) S ne], rule that, assumption+)
  have "chain (lnext m') (lprev m') l (y # zs @ xs) l"
    by (rule chain_joined[OF cl cr dl dr[unfolded Cons] disj(1)[unfolded Cons] nx[unfolded cr(2) Cons] pv[unfolded cr(2) Cons]])
  moreover have "apart (set (l # ys @ xs))" using disj(2) by (rule apart_subset) auto
  ultimately have "ring m' l (ys @ xs)" using dl dr disj(1) Cons by (auto simp: ring_def)
  with m' that show thesis by blast
qed

section \<open>The interface of a list\<close>

text \<open>
  What a client of the lists relies on: \<open>holds s h xs\<close> says that the list with head \<open>h\<close> is \<open>xs\<close>,
  \<open>room h xs e\<close> that \<open>e\<close> is an object that can be linked into it.
\<close>

locale linked_list =
  fixes holds :: "'s \<Rightarrow> 'h \<Rightarrow> 'n list \<Rightarrow> bool"
    and room :: "'h \<Rightarrow> 'n list \<Rightarrow> 'n \<Rightarrow> bool"
    and push :: "'h \<Rightarrow> 'n \<Rightarrow> ('s, unit) kern"
    and unlink :: "'n \<Rightarrow> ('s, unit) kern"
    and first :: "'s \<Rightarrow> 'h \<Rightarrow> 'n"
    and count :: "'h \<Rightarrow> ('s, u64) kern"
  assumes push: "holds s h xs \<Longrightarrow> room h xs e \<Longrightarrow>
      \<exists>s'. push h e s = Inr ((), s') \<and> holds s' h (e # xs)"
    and unlink: "holds s h (as @ e # bs) \<Longrightarrow> \<exists>s'. unlink e s = Inr ((), s') \<and> holds s' h (as @ bs)"
    and first: "holds s h (x # xs) \<Longrightarrow> first s h = x"
    and count: "holds s h xs \<Longrightarrow> count h s = Inr (of_nat (length xs), s)"
begin

text \<open>The list is a stack: what was pushed last is first, and taking it off restores the list.\<close>

lemma pop_push:
  assumes "holds s h xs" "room h xs e"
  shows "\<exists>s' s''. push h e s = Inr ((), s') \<and> first s' h = e \<and> unlink e s' = Inr ((), s'') \<and> holds s'' h xs"
proof -
  obtain s' where s': "push h e s = Inr ((), s')" "holds s' h (e # xs)" using push assms by blast
  then obtain s'' where "unlink e s' = Inr ((), s'')" "holds s'' h xs"
    using unlink[of s' h "[]" e xs] by auto
  with s' first show ?thesis by blast
qed

lemma count_push:
  assumes "holds s h xs" "room h xs e"
  shows "\<exists>s'. push h e s = Inr ((), s') \<and> count h s' = Inr (of_nat (length xs) + 1, s')"
  using push[OF assms] count by force

end

definition list_room :: "addr \<Rightarrow> addr list \<Rightarrow> addr \<Rightarrow> bool" where
  "list_room h xs e \<longleftrightarrow> e \<notin> set (h # xs) \<and> apart (insert e (set (h # xs)))"

interpretation kernel_list: linked_list ring list_room list_insert list_remove lnext list_length
proof unfold_locales
  fix m h xs e
  show "ring m h xs \<Longrightarrow> list_room h xs e \<Longrightarrow> \<exists>m'. list_insert h e m = Inr ((), m') \<and> ring m' h (e # xs)"
    by (metis list_room_def ring_insert_head)
next
  fix m h as e bs
  show "ring m h (as @ e # bs) \<Longrightarrow> \<exists>m'. list_remove e m = Inr ((), m') \<and> ring m' h (as @ bs)"
    by (metis ring_remove)
qed (simp_all add: list_first_ring list_length_ring)

lemma ring_init:
  assumes "h \<noteq> 0"
  shows "list_init h m = Inr ((), st_prev h h (st_next h h m)) \<and> ring (st_prev h h (st_next h h m)) h []"
proof -
  have "apart {h}" using assms by (simp add: apart_def)
  then show ?thesis using assms field_upd[of "{h}" h h]
    by (simp add: list_init_def set_next_def set_prev_def thn_Inr ring_def kern)
qed

end
