(* ===== verification/Kstate.thy ===== *)
theory Kstate
  imports Pages Bitmap Lists
begin

text \<open>
  The state that the three memory managers share. Statics whose address the code takes (the lists,
  the first bitmap, the counters, the slabs, the kernel singleton \<open>K\<close>) and everything that is
  reached through a pointer live in \<open>mem\<close>, at the addresses of \<open>symbols\<close>, which the linker
  chooses; the remaining statics of \<open>pm.c\<close> and \<open>vm.c\<close> are fields of their own. Page tables are
  kept apart: \<open>frames p i\<close> is entry \<open>i\<close> of the page table in the physical page at \<open>p\<close>.
\<close>

record symbols =
  HIGHER_HALF :: addr
  LAYOUT_PADDR_START :: addr
  LAYOUT_PADDR_END :: addr
  LAYOUT_VADDR_START :: addr
  LAYOUT_VADDR_END :: addr
  LAYOUT_TEXT_START :: addr
  LAYOUT_TEXT_END :: addr
  LAYOUT_RODATA_START :: addr
  LAYOUT_RODATA_END :: addr
  LAYOUT_DATA_START :: addr
  LAYOUT_DATA_END :: addr
  a_K :: addr
  a_mem_info :: addr
  a_mem_bitmaps :: addr
  a_mem_bitmap0 :: addr
  a_pages_bitmap0 :: addr
  a_tmp_pt :: addr
  a_slabs :: addr

definition LAYOUT_HEAP_START :: addr where
  "LAYOUT_HEAP_START = 0xffff800000000000"

record kst =
  mem :: memory
  sym :: symbols
  first_free_bitmap :: addr
  next_bitmap_page :: addr
  first_free_tmp_index :: u64
  kpml4 :: addr
  frames :: "addr \<Rightarrow> nat \<Rightarrow> u64"
  cr3 :: addr
  invalidated :: "addr list"
  messages :: "string list"

definition on_mem :: "(memory, 'a) kern \<Rightarrow> (kst, 'a) kern" where
  "on_mem m = zoom mem (\<lambda>m' s. s\<lparr>mem := m'\<rparr>) m"

text \<open>Read memory, and assign through a pointer.\<close>

definition rd :: "(memory \<Rightarrow> 'a) \<Rightarrow> (kst, 'a) kern" where
  "rd f = gets (\<lambda>s. f (mem s))"

definition wr :: "(memory \<Rightarrow> memory) \<Rightarrow> (kst, unit) kern" where
  "wr f = modify (\<lambda>s. s\<lparr>mem := f (mem s)\<rparr>)"

text \<open>\<open>LOGSUCCESS\<close>, without the text that names the level.\<close>

definition LOGSUCCESS :: "string \<Rightarrow> (kst, unit) kern" where
  "LOGSUCCESS msg = modify (\<lambda>s. s\<lparr>messages := messages s @ [msg]\<rparr>)"

lemma on_mem_Inr: "m (mem s) = Inr (x, m') \<Longrightarrow> on_mem m s = Inr (x, s\<lparr>mem := m'\<rparr>)"
  by (simp add: on_mem_def zoom_Inr)

lemma on_mem_Inl: "m (mem s) = Inl e \<Longrightarrow> on_mem m s = Inl e"
  by (simp add: on_mem_def zoom_Inl)

lemma mem_same [simp]: "s\<lparr>mem := mem s\<rparr> = s"
  by simp

lemma rd_bnd [simp]: "bnd (rd f) k s = k (f (mem s)) s"
  by (simp add: rd_def)

lemma wr_thn [simp]: "thn (wr f) k s = k (s\<lparr>mem := f (mem s)\<rparr>)"
  by (simp add: wr_def)

lemma rd_apply [kern]: "rd f s = Inr (f (mem s), s)"
  by (simp add: rd_def kern)

lemma wr_apply [kern]: "wr f s = Inr ((), s\<lparr>mem := f (mem s)\<rparr>)"
  by (simp add: wr_def kern)

lemma log_thn [simp]: "thn (LOGSUCCESS t) k s = k (s\<lparr>messages := messages s @ [t]\<rparr>)"
  by (simp add: LOGSUCCESS_def)

lemma log_apply [kern]: "LOGSUCCESS t s = Inr ((), s\<lparr>messages := messages s @ [t]\<rparr>)"
  by (simp add: LOGSUCCESS_def kern)

section \<open>Memory that agrees on a region\<close>

definition agree :: "addr \<Rightarrow> u64 \<Rightarrow> memory \<Rightarrow> memory \<Rightarrow> bool" where
  "agree a n m m' \<longleftrightarrow> (\<forall>x. x - a < n \<longrightarrow> m' x = m x)"

lemma agree_refl [simp]: "agree a n m m"
  by (simp add: agree_def)

lemma agree_trans: "agree a n m1 m2 \<Longrightarrow> agree a n m2 m3 \<Longrightarrow> agree a n m1 m3"
  by (simp add: agree_def)

lemma agree_st64: "sep a n b 8 \<Longrightarrow> agree a n m (st64 b v m)"
  using sep_outside by (fastforce simp: agree_def st64_def)

lemma agree_upd: "sep a n b 1 \<Longrightarrow> agree a n m (m(b := v))"
  using sep_outside by (fastforce simp: agree_def)

lemma agree_sub:
  assumes "agree a n m m'" "unat i + unat k \<le> unat n"
  shows "agree (a + i) k m m'"
proof -
  have "x - a < n" if x: "x - (a + i) < k" for x
  proof -
    have "x - a = (x - (a + i)) + i" by simp
    moreover have "unat (x - (a + i)) + unat i < unat n"
      using x assms(2) by (simp add: word_less_nat_alt)
    moreover have "unat (x - (a + i) + i) = unat (x - (a + i)) + unat i"
      using calculation(2) unat_lt64[of n] by (subst unat_word_ariths) simp
    ultimately show ?thesis by (metis word_less_nat_alt)
  qed
  then show ?thesis using assms(1) by (simp add: agree_def)
qed

lemma agree_ld64:
  assumes "agree a n m m'" "unat i + 8 \<le> unat n"
  shows "ld64 m' (a + i) = ld64 m (a + i)"
  using agree_sub[of a n m m' i 8] assms by (auto intro!: ld64_agree simp: agree_def)

lemma agree_filled:
  assumes "sep a n p k" "c \<le> unat k"
  shows "agree a n m (filled c p v m)"
  using assms(2) sep_outside[OF assms(1)] unfolding agree_def filled_def word_less_nat_alt
  by (meson less_le_trans)

text \<open>A bitmap, and a list with one element, depend only on the memory they occupy.\<close>

lemma agree_bitmap:
  assumes "agree b 32 m m'" "agree (ld64 m (b + 24)) (ld64 m b) m m'" "bitmap_wf b m"
  shows "bitmap_wf b m'" "bitmap_bits b m' = bitmap_bits b m" "bitmap_len b m' = bitmap_len b m"
    "ld64 m' b = ld64 m b" "ld64 m' (b + 24) = ld64 m (b + 24)" "ld64 m' (b + 16) = ld64 m (b + 16)"
proof -
  have f: "ld64 m' b = ld64 m b" "ld64 m' (b + 8) = ld64 m (b + 8)" "ld64 m' (b + 16) = ld64 m (b + 16)"
    "ld64 m' (b + 24) = ld64 m (b + 24)"
    using agree_ld64[OF assms(1), of 0] agree_ld64[OF assms(1), of 8]
      agree_ld64[OF assms(1), of 16] agree_ld64[OF assms(1), of 24] by simp_all
  have len: "bitmap_len b m' = bitmap_len b m" by (simp add: bitmap_len_def f)
  have "bit_at m' (ld64 m (b + 24)) i = bit_at m (ld64 m (b + 24)) i" if "i < bitmap_len b m" for i
    using assms(2) bitmap_bytes_cover[OF assms(3) that] by (simp add: bit_at_def agree_def)
  then have bits: "bitmap_bits b m' = bitmap_bits b m" by (auto simp: bitmap_bits_def len f)
  show "bitmap_wf b m'" using assms(3) unfolding bitmap_wf_def bits len f .
  show "bitmap_bits b m' = bitmap_bits b m" "bitmap_len b m' = bitmap_len b m"
    "ld64 m' b = ld64 m b" "ld64 m' (b + 24) = ld64 m (b + 24)" "ld64 m' (b + 16) = ld64 m (b + 16)"
    by (rule bits len f)+
qed

lemma agree_ring:
  assumes "\<And>x. x \<in> set (h # xs) \<Longrightarrow> agree x 16 m m'"
  shows "ring m' h xs = ring m h xs"
proof (rule ring_cong)
  fix y assume "y \<in> set (h # xs)"
  then have a: "agree y 16 m m'" by (rule assms)
  show "lnext m' y = lnext m y" "lprev m' y = lprev m y"
    using agree_ld64[OF a, of 8] agree_ld64[OF a, of 0] by (simp_all add: lnext_def lprev_def)
qed

end
