(* ===== verification/Pm.thy ===== *)
theory Pm
  imports Kstate
begin

text \<open>
  \<open>mm/pm.c\<close>: the physical memory manager. Each \<open>struct mem_bitmap\<close> covers 128 MB with one bit per
  page; the bitmaps are linked into a list. A computation that may need a new bitmap is given the
  two services it calls back, \<open>mm_alloc\<close> and \<open>pm_request_page\<close>, as the record \<open>services\<close>.
  The lemmas are about the state in which the first bitmap is the only one.
\<close>

section \<open>Data\<close>

record services =
  alloc :: "u64 \<Rightarrow> (kst, addr) kern"
  request :: "(kst, addr) kern"

definition BITMAP_BYTES :: u64 where
  "BITMAP_BYTES = PAGE_SIZE"

definition BITMAP_SIZE :: u64 where
  "BITMAP_SIZE = push_bit 3 BITMAP_BYTES"

definition BITMAP_PAGELOCKED :: bool where
  "BITMAP_PAGELOCKED = True"

definition BITMAP_PAGEFREE :: bool where
  "BITMAP_PAGEFREE = False"

text \<open>\<open>struct mem_info\<close> and \<open>struct mem_bitmap\<close>, whose \<open>link\<close> is the first member.\<close>

definition mi_used :: "memory \<Rightarrow> addr \<Rightarrow> u64" where
  "mi_used m p = ld64 m p"

definition mi_free :: "memory \<Rightarrow> addr \<Rightarrow> u64" where
  "mi_free m p = ld64 m (p + 8)"

definition mb_index :: "memory \<Rightarrow> addr \<Rightarrow> u64" where
  "mb_index m p = ld64 m (p + 16)"

definition mb_first_free :: "memory \<Rightarrow> addr \<Rightarrow> u64" where
  "mb_first_free m p = ld64 m (p + 24)"

definition mb_super :: "addr \<Rightarrow> addr" where
  "mb_super p = p + 32"

definition MEM_BITMAP_BYTES :: u64 where
  "MEM_BITMAP_BYTES = 64"

definition TOBITMAP :: "addr \<Rightarrow> u64" where
  "TOBITMAP a = drop_bit 27 a"

definition TOINDEX :: "addr \<Rightarrow> u64" where
  "TOINDEX a = (a AND 0x7fff000) div PAGE_SIZE"

definition TOPADDR :: "u64 \<Rightarrow> u64 \<Rightarrow> addr" where
  "TOPADDR b i = push_bit 27 b + i * PAGE_SIZE"

text \<open>\<open>struct bootinfo_mem_segment\<close> and the fields of \<open>K\<close> and \<open>struct bootinfo\<close> read here.\<close>

definition BOOTINFO_MEM_SEGMENT_TYPE_RESERVED :: u32 where
  "BOOTINFO_MEM_SEGMENT_TYPE_RESERVED = 0"

definition segment_type :: "memory \<Rightarrow> addr \<Rightarrow> u32" where
  "segment_type m p = ld32 m p"

definition segment_addr :: "memory \<Rightarrow> addr \<Rightarrow> addr" where
  "segment_addr m p = ld64 m (p + 8)"

definition segment_length :: "memory \<Rightarrow> addr \<Rightarrow> u64" where
  "segment_length m p = ld64 m (p + 16)"

definition mem_map_entries :: "memory \<Rightarrow> addr \<Rightarrow> u64" where
  "mem_map_entries m p = ld64 m p"

definition mem_map_segments :: "memory \<Rightarrow> addr \<Rightarrow> addr" where
  "mem_map_segments m p = ld64 m (p + 8)"

definition subsys_init_pm :: "memory \<Rightarrow> addr \<Rightarrow> bool" where
  "subsys_init_pm m k \<longleftrightarrow> bit (ld32 m k) 0"

definition K_bootinfo :: "memory \<Rightarrow> addr \<Rightarrow> addr" where
  "K_bootinfo m k = ld64 m (k + 8)"

definition bootinfo_mem_map :: "addr \<Rightarrow> addr" where
  "bootinfo_mem_map b = b + 16"

section \<open>The list of bitmaps\<close>

fun by_index_more :: "addr \<times> addr option \<Rightarrow> kst \<Rightarrow> bool" where
  "by_index_more (pos, r) s \<longleftrightarrow> r = None \<and> pos \<noteq> a_mem_bitmaps (sym s)"

fun by_index_step :: "u64 \<Rightarrow> addr \<times> addr option \<Rightarrow> (kst, addr \<times> addr option) kern" where
  "by_index_step index (pos, r) =
     bnd (rd (\<lambda>m. (mb_index m pos, lnext m pos))) (\<lambda>(i, n).
       if i = index then ret (pos, Some pos) else ret (n, None))"

definition find_bitmap_by_index :: "u64 \<Rightarrow> (kst, addr) kern" where
  "find_bitmap_by_index index =
     bnd (gets (\<lambda>s. lnext (mem s) (a_mem_bitmaps (sym s)))) (\<lambda>first.
     bnd (loop by_index_more (by_index_step index) (first, None)) (\<lambda>(pos, r).
       ret (case r of Some p \<Rightarrow> p | None \<Rightarrow> 0)))"

fun above_more :: "addr \<times> bool \<Rightarrow> kst \<Rightarrow> bool" where
  "above_more (pos, broke) s \<longleftrightarrow> \<not> broke \<and> pos \<noteq> a_mem_bitmaps (sym s)"

fun above_step :: "u64 \<Rightarrow> addr \<times> bool \<Rightarrow> (kst, addr \<times> bool) kern" where
  "above_step index (pos, broke) =
     bnd (rd (\<lambda>m. (mb_index m pos, lnext m pos))) (\<lambda>(i, n).
       if i > index then ret (pos, True) else ret (n, False))"

definition create_bitmap :: "services \<Rightarrow> u64 \<Rightarrow> (kst, addr) kern" where
  "create_bitmap srv index =
     bnd (gets (\<lambda>s. lnext (mem s) (a_mem_bitmaps (sym s)))) (\<lambda>first.
     bnd (loop above_more (above_step index) (first, False)) (\<lambda>(mem_bitmap, broke).
     bnd (alloc srv MEM_BITMAP_BYTES) (\<lambda>new_bitmap.
     thn (asrt (new_bitmap \<noteq> 0))
     (thn (wr (st64 (new_bitmap + 24) 0))
     (thn (wr (st64 (new_bitmap + 16) 0))
     (bnd (gets next_bitmap_page) (\<lambda>page.
      bnd (on_mem (bitmap_from BITMAP_SIZE page)) (\<lambda>super.
      thn (wr (store_bitmap (mb_super new_bitmap) super))
      (bnd (rd (\<lambda>m. lprev m mem_bitmap)) (\<lambda>before.
       thn (on_mem (list_insert before new_bitmap))
       (bnd (request srv) (\<lambda>next.
        thn (modify (\<lambda>s. s\<lparr>next_bitmap_page := next\<rparr>)) (ret new_bitmap)))))))))))))"

text \<open>
  The head of this walk is the current bitmap itself, so it passes over the list's own head as if
  that were a bitmap, too.
\<close>

fun first_free_more :: "addr \<times> addr \<times> bool \<Rightarrow> kst \<Rightarrow> bool" where
  "first_free_more (pos, prev, returned) s \<longleftrightarrow> \<not> returned \<and> pos \<noteq> first_free_bitmap s"

fun first_free_step :: "addr \<times> addr \<times> bool \<Rightarrow> (kst, addr \<times> addr \<times> bool) kern" where
  "first_free_step (pos, prev, returned) =
     bnd (rd (\<lambda>m. (ld64 m (mb_super pos + 16), mb_index m pos - mb_index m prev, lnext m pos)))
       (\<lambda>(unset, dist, n).
        if unset > 0
        then thn (modify (\<lambda>s. s\<lparr>first_free_bitmap := pos\<rparr>)) (ret (pos, prev, True))
        else if prev = 0 \<or> dist = 1 then ret (n, pos, False) else ret (n, prev, False))"

definition find_first_free_bitmap :: "services \<Rightarrow> (kst, unit) kern" where
  "find_first_free_bitmap srv =
     bnd (gets (\<lambda>s. lnext (mem s) (first_free_bitmap s))) (\<lambda>first.
     bnd (loop first_free_more first_free_step (first, 0, False)) (\<lambda>(pos, prev, returned).
     if returned then ret ()
     else
       thn (asrt (prev \<noteq> 0))
       (bnd (rd (\<lambda>m. mb_index m prev)) (\<lambda>i.
        bnd (create_bitmap srv (i + 1)) (\<lambda>new.
        modify (\<lambda>s. s\<lparr>first_free_bitmap := new\<rparr>))))))"

text \<open>A \<open>do\<close> loop: the second loop variable is the value of \<open>return TRUE\<close>, once reached.\<close>

fun free_index_more :: "bool \<times> bool \<Rightarrow> kst \<Rightarrow> bool" where
  "free_index_more (again, found) s \<longleftrightarrow> again"

definition free_index_next :: "(kst, bool \<times> bool) kern" where
  "free_index_next =
     bnd (gets first_free_bitmap) (\<lambda>b.
     thn (wr (\<lambda>m. st64 (b + 24) (mb_first_free m b + 1) m))
     (bnd (rd (\<lambda>m. mb_first_free m b < ld64 m (mb_super b + 8))) (\<lambda>again. ret (again, False))))"

fun free_index_step :: "services \<Rightarrow> bool \<times> bool \<Rightarrow> (kst, bool \<times> bool) kern" where
  "free_index_step srv (again, found) =
     bnd (gets (\<lambda>s. (first_free_bitmap s, mb_first_free (mem s) (first_free_bitmap s)))) (\<lambda>(b, i).
     bnd (on_mem (bitmap_get (mb_super b) i)) (\<lambda>res.
     if ISERROR res then
       thn (asrt (res = fails EINVAL)) (thn (find_first_free_bitmap srv) free_index_next)
     else if res = of_bool BITMAP_PAGEFREE then ret (False, True)
     else free_index_next))"

definition find_first_free_index :: "services \<Rightarrow> (kst, bool) kern" where
  "find_first_free_index srv =
     bnd (loop free_index_more (free_index_step srv) (True, False)) (\<lambda>(again, found). ret found)"

section \<open>Locking and releasing\<close>

definition try_set_page :: "services \<Rightarrow> addr \<Rightarrow> bool \<Rightarrow> (kst, bool) kern" where
  "try_set_page srv paddr state =
     (let bitmap = TOBITMAP paddr in
      bnd (find_bitmap_by_index bitmap) (\<lambda>found.
      bnd (if found = 0 then create_bitmap srv bitmap else ret found) (\<lambda>mem_bitmap.
      bnd (on_mem (bitmap_set (mb_super mem_bitmap) (TOINDEX paddr) state)) (\<lambda>sts.
      ret (sts = SUCCESS)))))"

text \<open>The counters are in memory, at \<open>mem_info\<close>.\<close>

definition add_used :: "u64 \<Rightarrow> (kst, unit) kern" where
  "add_used n = modify (\<lambda>s. let a = a_mem_info (sym s) in
     s\<lparr>mem := st64 a (mi_used (mem s) a + n) (mem s)\<rparr>)"

definition add_free :: "u64 \<Rightarrow> (kst, unit) kern" where
  "add_free n = modify (\<lambda>s. let a = a_mem_info (sym s) in
     s\<lparr>mem := st64 (a + 8) (mi_free (mem s) a + n) (mem s)\<rparr>)"

definition pm_try_lock_page :: "services \<Rightarrow> addr \<Rightarrow> (kst, bool) kern" where
  "pm_try_lock_page srv paddr =
     bnd (try_set_page srv paddr BITMAP_PAGELOCKED) (\<lambda>set.
     if set then
       let bitmap = TOBITMAP paddr in
       bnd (gets (\<lambda>s. mb_index (mem s) (first_free_bitmap s))) (\<lambda>i.
       thn (if i = bitmap
            then bnd (find_first_free_index srv) (\<lambda>found.
                   if \<not> found then find_first_free_bitmap srv else ret ())
            else ret ())
       (thn (add_used PAGE_SIZE) (thn (add_free (- PAGE_SIZE)) (ret True))))
     else ret False)"

fun lock_pages_more :: "u64 \<Rightarrow> u64 \<times> addr \<times> bool \<Rightarrow> kst \<Rightarrow> bool" where
  "lock_pages_more pages (page, paddr, no_collisions) s \<longleftrightarrow> page < pages"

fun lock_pages_step :: "services \<Rightarrow> u64 \<times> addr \<times> bool \<Rightarrow> (kst, u64 \<times> addr \<times> bool) kern" where
  "lock_pages_step srv (page, paddr, no_collisions) =
     bnd (pm_try_lock_page srv paddr) (\<lambda>r.
     ret (page + 1, paddr + PAGE_SIZE, no_collisions \<and> r))"

definition pm_try_lock_pages :: "services \<Rightarrow> addr \<Rightarrow> u64 \<Rightarrow> (kst, bool) kern" where
  "pm_try_lock_pages srv paddr bytes =
     (if bytes = 0 then pm_try_lock_page srv paddr
      else bnd (loop (lock_pages_more (PAGES bytes)) (lock_pages_step srv) (0, paddr, True))
             (\<lambda>(page, paddr, no_collisions). ret no_collisions))"

definition pm_try_lock_range :: "services \<Rightarrow> addr \<Rightarrow> addr \<Rightarrow> (kst, bool) kern" where
  "pm_try_lock_range srv paddr_start paddr_end = pm_try_lock_pages srv paddr_start (paddr_end - paddr_start)"

definition pm_try_release_page :: "services \<Rightarrow> addr \<Rightarrow> (kst, bool) kern" where
  "pm_try_release_page srv paddr =
     bnd (try_set_page srv paddr BITMAP_PAGEFREE) (\<lambda>set.
     if set then
       let bitmap = TOBITMAP paddr in
       bnd (gets (\<lambda>s. mb_index (mem s) (first_free_bitmap s))) (\<lambda>i.
       thn (if bitmap < i
            then bnd (find_bitmap_by_index bitmap) (\<lambda>b. modify (\<lambda>s. s\<lparr>first_free_bitmap := b\<rparr>))
            else ret ())
       (bnd (gets first_free_bitmap) (\<lambda>b.
        thn (bnd (rd (\<lambda>m. (mb_index m b, mb_first_free m b))) (\<lambda>(i, ff).
              if bitmap = i \<and> TOINDEX paddr < ff then wr (st64 (b + 24) (TOINDEX paddr)) else ret ()))
        (thn (add_used (- PAGE_SIZE)) (thn (add_free PAGE_SIZE) (ret True))))))
     else ret False)"

fun release_pages_step :: "services \<Rightarrow> u64 \<times> addr \<times> bool \<Rightarrow> (kst, u64 \<times> addr \<times> bool) kern" where
  "release_pages_step srv (page, paddr, no_collisions) =
     bnd (pm_try_release_page srv paddr) (\<lambda>r.
     ret (page + 1, paddr + PAGE_SIZE, no_collisions \<or> r))"

definition pm_try_release_pages :: "services \<Rightarrow> addr \<Rightarrow> u64 \<Rightarrow> (kst, bool) kern" where
  "pm_try_release_pages srv paddr bytes =
     (if bytes = 0 then pm_try_release_page srv paddr
      else bnd (loop (lock_pages_more (PAGES bytes)) (release_pages_step srv) (0, paddr, True))
             (\<lambda>(page, paddr, no_collisions). ret no_collisions))"

definition pm_try_release_range :: "services \<Rightarrow> addr \<Rightarrow> addr \<Rightarrow> (kst, bool) kern" where
  "pm_try_release_range srv paddr_start paddr_end =
     pm_try_release_pages srv paddr_start (paddr_end - paddr_start)"

section \<open>Requesting pages\<close>

definition pm_request_page :: "services \<Rightarrow> (kst, addr) kern" where
  "pm_request_page srv =
     bnd (gets (\<lambda>s. mi_free (mem s) (a_mem_info (sym s)))) (\<lambda>free.
     thn (if PAGE_SIZE > free then halt Unimplemented else ret ())
     (bnd (gets first_free_bitmap) (\<lambda>b.
      bnd (rd (\<lambda>m. TOPADDR (mb_index m b) (mb_first_free m b))) (\<lambda>paddr.
      thn (wr (\<lambda>m. st64 (b + 24) (mb_first_free m b + 1) m))
      (bnd (pm_try_lock_page srv paddr) (\<lambda>ok.
       thn (asrt ok) (ret paddr)))))))"

text \<open>
  The loop of \<open>pm_request_pages\<close>: the bitmap, the index, the start of the current run, the number
  of free pages found, and whether the body was entered by \<open>goto retry\<close>.
\<close>

type_synonym page_search = "addr \<times> u64 \<times> u64 \<times> u64 \<times> bool"

fun search_more :: "u64 \<Rightarrow> page_search \<Rightarrow> kst \<Rightarrow> bool" where
  "search_more num (mem_bitmap, index, start_index, found, retry) s \<longleftrightarrow>
     retry \<or> (found < num \<and> index < ld64 (mem s) (mb_super mem_bitmap + 8))"

fun search_step :: "page_search \<Rightarrow> (kst, page_search) kern" where
  "search_step (mem_bitmap, index, start_index, found, retry) =
     bnd (on_mem (bitmap_get (mb_super mem_bitmap) index)) (\<lambda>res.
     if ISERROR res then
       thn (asrt (res = fails EINVAL))
       (bnd (rd (\<lambda>m. lnext m mem_bitmap)) (\<lambda>next.
        bnd (rd (\<lambda>m. (mb_index m next, mb_index m mem_bitmap))) (\<lambda>(ni, bi).
        if ni - bi > 1
        then ret (next, ni * BITMAP_SIZE, ni * BITMAP_SIZE, 0, True)
        else ret (next, index, start_index, found, True))))
     else if res = of_bool BITMAP_PAGEFREE
     then ret (mem_bitmap, index + 1, start_index, found + 1, False)
     else ret (mem_bitmap, index + 1, index + 1, 0, False))"

definition pm_request_pages :: "services \<Rightarrow> u64 \<Rightarrow> (kst, addr) kern" where
  "pm_request_pages srv num =
     bnd (gets (\<lambda>s. mi_free (mem s) (a_mem_info (sym s)))) (\<lambda>free.
     thn (if BYTES num > free then halt Unimplemented else ret ())
     (bnd (gets first_free_bitmap) (\<lambda>b.
      bnd (rd (\<lambda>m. mb_first_free m b)) (\<lambda>first.
      bnd (loop (search_more num) search_step (b, first, first, 0, False))
        (\<lambda>(mem_bitmap, index, start_index, found, retry).
      bnd (rd (\<lambda>m. TOPADDR (mb_index m mem_bitmap) start_index)) (\<lambda>paddr.
      bnd (pm_try_lock_pages srv paddr (BYTES num)) (\<lambda>ok.
      thn (asrt ok) (ret paddr))))))))"

definition pm_request_bytes :: "services \<Rightarrow> u64 \<Rightarrow> (kst, addr) kern" where
  "pm_request_bytes srv bytes = pm_request_pages srv (PAGEALIGNUP bytes div PAGE_SIZE)"

section \<open>Initialisation\<close>

fun mem_size_more :: "addr \<Rightarrow> u64 \<Rightarrow> kst \<Rightarrow> bool" where
  "mem_size_more mem_map i s \<longleftrightarrow> i < mem_map_entries (mem s) mem_map"

definition mem_size_step :: "services \<Rightarrow> addr \<Rightarrow> u64 \<Rightarrow> (kst, u64) kern" where
  "mem_size_step srv mem_map i =
     bnd (rd (\<lambda>m. mem_map_segments m mem_map + i * 24)) (\<lambda>segment.
     bnd (rd (\<lambda>m. segment_length m segment)) (\<lambda>len.
     thn (add_free len)
     (bnd (rd (\<lambda>m. (segment_type m segment, segment_addr m segment, segment_length m segment)))
       (\<lambda>(ty, a, n).
        bnd (if ty = BOOTINFO_MEM_SEGMENT_TYPE_RESERVED \<and> TOBITMAP a = 0
             then pm_try_lock_pages srv a n else ret True)
          (\<lambda>ignored. ret (i + 1))))))"

definition compute_mem_size :: "services \<Rightarrow> addr \<Rightarrow> (kst, unit) kern" where
  "compute_mem_size srv mem_map =
     bnd (gets (\<lambda>s. a_mem_info (sym s))) (\<lambda>info.
     thn (on_mem (mem_set info 0 16))
     (bnd (loop (mem_size_more mem_map) (mem_size_step srv mem_map) 0) (\<lambda>i. ret ())))"

definition init_first_bitmap :: "(kst, unit) kern" where
  "init_first_bitmap =
     bnd (gets sym) (\<lambda>y.
     let head = a_mem_bitmaps y; b = a_mem_bitmap0 y in
     thn (on_mem (list_init head))
     (thn (wr (st64 (b + 16) 0))
     (thn (wr (st64 (b + 24) 0))
     (bnd (on_mem (bitmap_from BITMAP_SIZE (a_pages_bitmap0 y))) (\<lambda>super.
      thn (wr (store_bitmap (mb_super b) super))
      (thn (on_mem (list_insert head b))
           (modify (\<lambda>s. s\<lparr>first_free_bitmap := b\<rparr>))))))))"

definition pm_init :: "services \<Rightarrow> (kst, unit) kern" where
  "pm_init srv =
     bnd (gets (\<lambda>s. a_K (sym s))) (\<lambda>k.
     bnd (rd (\<lambda>m. subsys_init_pm m k)) (\<lambda>set.
     thn (asrt (\<not> set))
     (thn init_first_bitmap
     (bnd (rd (\<lambda>m. bootinfo_mem_map (K_bootinfo m k))) (\<lambda>mem_map.
      thn (compute_mem_size srv mem_map)
      (bnd (gets (\<lambda>s. (LAYOUT_PADDR_START (sym s), LAYOUT_PADDR_END (sym s)))) (\<lambda>(a, e).
       bnd (pm_try_lock_range srv a e) (\<lambda>ignored.
       bnd (pm_request_page srv) (\<lambda>page.
       thn (modify (\<lambda>s. s\<lparr>next_bitmap_page := page\<rparr>))
           (LOGSUCCESS ''physical memory manager initialized''))))))))))"

end
