(* ===== verification/Pm_facts.thy ===== *)
theory Pm_facts
  imports Pm
begin

text \<open>
  The physical memory manager with its first bitmap: the invariant \<open>pm_ok\<close>, the set of locked
  pages as the abstract state, and what each operation does to both.
\<close>

section \<open>Addresses and indices\<close>

lemma unat_TOINDEX: "unat (TOINDEX a) = unat a div 4096 mod 32768"
proof -
  have "(0x7fff000 :: u64) = push_bit 12 (mask 15)" by (simp add: push_bit_eq_mult mask_eq_exp_minus_1)
  then have "TOINDEX a = drop_bit 12 (a AND push_bit 12 (mask 15))"
    by (simp add: TOINDEX_def drop_bit_eq_div)
  also have "\<dots> = take_bit 15 (drop_bit 12 a)"
    by (rule bit_word_eqI) (auto simp: bit_simps)
  also have "unat \<dots> = unat a div 4096 mod 32768"
    by (simp add: take_bit_eq_mod drop_bit_eq_div unat_mod unat_div)
  finally show ?thesis .
qed

lemma unat_TOBITMAP: "unat (TOBITMAP a) = unat a div 134217728"
  by (simp add: TOBITMAP_def drop_bit_eq_div unat_div)

lemma TOBITMAP_0: "TOBITMAP a = 0 \<longleftrightarrow> unat a < 134217728"
  using unat_TOBITMAP[of a] by (auto simp: unat_eq_0[symmetric])

lemma unat_TOPADDR:
  assumes "unat b < 2 ^ 37" "unat i < 32768"
  shows "unat (TOPADDR b i) = unat b * 134217728 + unat i * 4096"
proof -
  have "unat (push_bit 27 b) = unat b * 134217728"
    using assms(1) by (simp add: push_bit_eq_mult unat_word_ariths)
  moreover have "unat (i * 4096) = unat i * 4096" using assms(2) by (simp add: unat_word_ariths)
  moreover have "unat b * 134217728 + unat i * 4096 < 2 ^ 64" using assms by simp
  ultimately show ?thesis unfolding TOPADDR_def sizes by (simp only: unat_word_ariths) simp
qed

lemma index_lt [simp]: "unat (TOINDEX a) < 32768"
  by (simp add: unat_TOINDEX)

text \<open>C26: an address splits into the number of its bitmap and its index in it, and the two give back
  the address of the page.\<close>

theorem page_number_roundtrip:
  "TOPADDR (TOBITMAP a) (TOINDEX a) = PAGEALIGNDOWN a \<and>
   (unat b < 2 ^ 37 \<longrightarrow> unat i < 32768 \<longrightarrow> TOBITMAP (TOPADDR b i) = b \<and> TOINDEX (TOPADDR b i) = i)"
proof (intro conjI impI)
  have "unat (TOBITMAP a) < 2 ^ 37" using unat_lt64[of a] by (simp add: unat_TOBITMAP)
  then have "unat (TOPADDR (TOBITMAP a) (TOINDEX a)) =
      unat a div 134217728 * 134217728 + unat a div 4096 mod 32768 * 4096"
    by (subst unat_TOPADDR) (simp_all add: unat_TOBITMAP unat_TOINDEX)
  also have "\<dots> = (unat a div 4096 div 32768 * 32768 + unat a div 4096 mod 32768) * 4096"
    by (simp only: div_mult2_eq[symmetric]) simp
  also have "\<dots> = unat (PAGEALIGNDOWN a)" by (simp only: div_mult_mod_eq unat_PAGEALIGNDOWN)
  finally have "unat (TOPADDR (TOBITMAP a) (TOINDEX a)) = unat (PAGEALIGNDOWN a)" .
  then show "TOPADDR (TOBITMAP a) (TOINDEX a) = PAGEALIGNDOWN a" by (simp only: word_unat_eq_iff)
next
  assume b: "unat b < 2 ^ 37" and i: "unat i < 32768"
  have u: "unat (TOPADDR b i) = (unat b * 32768 + unat i) * 4096"
    using unat_TOPADDR[OF b i] by simp
  have "unat (TOBITMAP (TOPADDR b i)) = unat b"
    using i by (simp add: unat_TOBITMAP unat_TOPADDR[OF b i])
  then show "TOBITMAP (TOPADDR b i) = b" by (simp only: word_unat_eq_iff)
  have "unat (TOINDEX (TOPADDR b i)) = unat i"
    unfolding unat_TOINDEX u using i by simp
  then show "TOINDEX (TOPADDR b i) = i" by (simp only: word_unat_eq_iff)
qed

section \<open>The invariant\<close>

definition statics_apart :: "symbols \<Rightarrow> bool" where
  "statics_apart y \<longleftrightarrow>
     a_mem_bitmaps y \<noteq> 0 \<and> a_mem_bitmap0 y \<noteq> 0 \<and> a_mem_info y \<noteq> 0 \<and> a_pages_bitmap0 y \<noteq> 0 \<and>
     sep (a_mem_bitmaps y) 16 (a_mem_bitmap0 y) 64 \<and> sep (a_mem_bitmaps y) 16 (a_mem_info y) 16 \<and>
     sep (a_mem_bitmaps y) 16 (a_pages_bitmap0 y) 4096 \<and> sep (a_mem_bitmap0 y) 64 (a_mem_info y) 16 \<and>
     sep (a_mem_bitmap0 y) 64 (a_pages_bitmap0 y) 4096 \<and> sep (a_mem_info y) 16 (a_pages_bitmap0 y) 4096"

definition bm0 :: "kst \<Rightarrow> addr" where
  "bm0 s = a_mem_bitmap0 (sym s)"

definition locked :: "kst \<Rightarrow> nat set" where
  "locked s = bitmap_bits (mb_super (bm0 s)) (mem s)"

definition first_free :: "kst \<Rightarrow> u64" where
  "first_free s = mb_first_free (mem s) (bm0 s)"

definition used :: "kst \<Rightarrow> u64" where
  "used s = mi_used (mem s) (a_mem_info (sym s))"

definition free :: "kst \<Rightarrow> u64" where
  "free s = mi_free (mem s) (a_mem_info (sym s))"

definition pm_shape :: "kst \<Rightarrow> bool" where
  "pm_shape s \<longleftrightarrow>
     statics_apart (sym s) \<and> first_free_bitmap s = bm0 s \<and>
     ring (mem s) (a_mem_bitmaps (sym s)) [bm0 s] \<and> mb_index (mem s) (bm0 s) = 0 \<and>
     bitmap_wf (mb_super (bm0 s)) (mem s) \<and> bitmap_len (mb_super (bm0 s)) (mem s) = 32768 \<and>
     ld64 (mem s) (mb_super (bm0 s)) = 4096 \<and>
     ld64 (mem s) (mb_super (bm0 s) + 24) = a_pages_bitmap0 (sym s)"

definition pm_ok :: "kst \<Rightarrow> bool" where
  "pm_ok s \<longleftrightarrow> pm_shape s \<and> unat (first_free s) < 32768 \<and> unat (first_free s) \<notin> locked s \<and>
     {..<unat (first_free s)} \<subseteq> locked s"

lemma pm_ok_shape: "pm_ok s \<Longrightarrow> pm_shape s"
  by (simp add: pm_ok_def)

lemma locked_lt: "pm_shape s \<Longrightarrow> i \<in> locked s \<Longrightarrow> i < 32768"
  by (auto simp: locked_def bitmap_bits_def pm_shape_def)

lemma finite_locked [simp]: "finite (locked s)"
  by (simp add: locked_def)

text \<open>Which memory the shape depends on, and that it survives a change elsewhere.\<close>

lemma pm_shape_mem:
  assumes "pm_shape s" "agree (a_mem_bitmaps (sym s)) 16 (mem s) m'" "agree (bm0 s) 24 (mem s) m'"
    "bitmap_wf (mb_super (bm0 s)) m'" "bitmap_len (mb_super (bm0 s)) m' = 32768"
    "ld64 m' (mb_super (bm0 s)) = 4096" "ld64 m' (mb_super (bm0 s) + 24) = a_pages_bitmap0 (sym s)"
  shows "pm_shape (s\<lparr>mem := m'\<rparr>)"
proof -
  have "agree (bm0 s) 16 (mem s) m'" using agree_sub[OF assms(3), of 0 16] by simp
  then have "ring m' (a_mem_bitmaps (sym s)) [bm0 s] = ring (mem s) (a_mem_bitmaps (sym s)) [bm0 s]"
    using assms(2) by (intro agree_ring) auto
  moreover have "mb_index m' (bm0 s) = mb_index (mem s) (bm0 s)"
    using agree_ld64[OF assms(3), of 16] by (simp add: mb_index_def)
  ultimately show ?thesis using assms by (simp add: pm_shape_def bm0_def)
qed

text \<open>The separation facts the proofs use, for accesses inside the statics.\<close>

lemma statics_sep:
  assumes "pm_shape s"
  defines "H \<equiv> a_mem_bitmaps (sym s)" and "B \<equiv> bm0 s" and "M \<equiv> a_mem_info (sym s)"
    and "P \<equiv> a_pages_bitmap0 (sym s)"
  shows "sep H 16 B 64" "sep H 16 M 16" "sep H 16 P 4096" "sep B 64 M 16" "sep B 64 P 4096" "sep M 16 P 4096"
    "sep B 64 H 16" "sep M 16 H 16" "sep P 4096 H 16" "sep M 16 B 64" "sep P 4096 B 64" "sep P 4096 M 16"
  using assms sep_sym by (auto simp: pm_shape_def statics_apart_def bm0_def)

lemma sep_sub0:
  assumes "sep a n b k" "unat n' \<le> unat n" "unat j + unat k' \<le> unat k" "0 < n'" "0 < k'"
  shows "sep a n' (b + j) k'"
  using sep_sub[OF assms(1), of 0 n' j k'] assms by simp

lemma sep_sub1:
  assumes "sep a n b k" "unat i + unat n' \<le> unat n" "unat k' \<le> unat k" "0 < n'" "0 < k'"
  shows "sep (a + i) n' b k'"
  using sep_sub[OF assms(1), of i n' 0 k'] assms by simp

text \<open>A store to \<open>first_free\<close>.\<close>

definition with_first_free :: "u64 \<Rightarrow> kst \<Rightarrow> kst" where
  "with_first_free v s = s\<lparr>mem := st64 (bm0 s + 24) v (mem s)\<rparr>"

lemma with_first_free_same:
  "sym (with_first_free v s) = sym s" "bm0 (with_first_free v s) = bm0 s"
  "first_free (with_first_free v s) = v"
  "first_free_bitmap (with_first_free v s) = first_free_bitmap s"
  by (simp_all add: with_first_free_def bm0_def first_free_def mb_first_free_def)

lemma st64_again [simp]: "st64 a v (st64 a w m) = st64 a v m"
  by (rule ext) (simp add: st64_def)

lemma st64_id [simp]: "st64 a (ld64 m a) m = m"
proof (rule ext)
  fix x
  have "a + (x - a) = x" by simp
  then show "st64 a (ld64 m a) m x = m x" unfolding st64_ld64 moved_def by simp
qed

lemma with_first_free_again [simp]: "with_first_free v (with_first_free w s) = with_first_free v s"
  by (simp add: with_first_free_def bm0_def)

lemma with_first_free_id [simp]: "with_first_free (first_free s) s = s"
  by (simp add: with_first_free_def first_free_def mb_first_free_def)

lemma with_first_free_view:
  assumes s: "pm_shape s"
  shows "pm_shape (with_first_free v s)" "locked (with_first_free v s) = locked s"
    "used (with_first_free v s) = used s" "free (with_first_free v s) = free s"
proof -
  let ?m = "st64 (bm0 s + 24) v (mem s)"
  note sp = statics_sep[OF s]
  have b: "agree (mb_super (bm0 s)) 32 (mem s) ?m"
    by (rule agree_st64) (simp add: mb_super_def)
  have p: "agree (a_pages_bitmap0 (sym s)) 4096 (mem s) ?m"
    by (rule agree_st64, rule sep_sub0[OF sp(11)]) simp_all
  have f: "ld64 (mem s) (mb_super (bm0 s) + 24) = a_pages_bitmap0 (sym s)" "ld64 (mem s) (mb_super (bm0 s)) = 4096"
    "bitmap_wf (mb_super (bm0 s)) (mem s)" "bitmap_len (mb_super (bm0 s)) (mem s) = 32768"
    using s by (simp_all add: pm_shape_def)
  have p': "agree (ld64 (mem s) (mb_super (bm0 s) + 24)) (ld64 (mem s) (mb_super (bm0 s))) (mem s) ?m"
    unfolding f by (rule p)
  note bm = agree_bitmap[OF b p' f(3)]
  show "pm_shape (with_first_free v s)" unfolding with_first_free_def
  proof (rule pm_shape_mem[OF s])
    show "agree (a_mem_bitmaps (sym s)) 16 (mem s) ?m"
      by (rule agree_st64, rule sep_sub0[OF sp(1)]) simp_all
    show "agree (bm0 s) 24 (mem s) ?m" by (rule agree_st64) simp
  qed (simp_all add: bm f)
  show "locked (with_first_free v s) = locked s"
    using bm(2) by (simp add: locked_def with_first_free_def bm0_def)
  have "agree (a_mem_info (sym s)) 16 (mem s) ?m"
    by (rule agree_st64, rule sep_sub0[OF sp(10)]) simp_all
  from agree_ld64[OF this, of 0] agree_ld64[OF this, of 8]
  show "used (with_first_free v s) = used s" "free (with_first_free v s) = free s"
    by (simp_all add: used_def free_def mi_used_def mi_free_def with_first_free_def)
qed

text \<open>Stores to the two counters.\<close>

definition with_counters :: "u64 \<Rightarrow> u64 \<Rightarrow> kst \<Rightarrow> kst" where
  "with_counters u f s =
     s\<lparr>mem := st64 (a_mem_info (sym s) + 8) f (st64 (a_mem_info (sym s)) u (mem s))\<rparr>"

lemma with_counters_same:
  "sym (with_counters u f s) = sym s" "bm0 (with_counters u f s) = bm0 s"
  "used (with_counters u f s) = u" "free (with_counters u f s) = f"
  by (simp_all add: with_counters_def bm0_def used_def free_def mi_used_def mi_free_def ld64_st64_sep)

lemma counters_agree:
  assumes "sep a n (a_mem_info (sym s)) 16" "0 < n"
  shows "agree a n (mem s) (mem (with_counters u f s))"
proof -
  have "sep a n (a_mem_info (sym s)) 8" "sep a n (a_mem_info (sym s) + 8) 8"
    using sep_sub0[OF assms(1), of n 8 8] sep_sub0[OF assms(1), of n 0 8] assms(2) by simp_all
  then show ?thesis unfolding with_counters_def by (auto intro: agree_trans agree_st64)
qed

lemma with_counters_view:
  assumes s: "pm_shape s"
  shows "pm_shape (with_counters u f s)" "locked (with_counters u f s) = locked s"
    "first_free (with_counters u f s) = first_free s"
proof -
  let ?m = "mem (with_counters u f s)"
  note sp = statics_sep[OF s]
  have B: "agree (bm0 s) 64 (mem s) ?m" by (rule counters_agree[OF sp(4)]) simp
  have b: "agree (mb_super (bm0 s)) 32 (mem s) ?m"
    using agree_sub[OF B, of 32 32] by (simp add: mb_super_def)
  have f: "ld64 (mem s) (mb_super (bm0 s) + 24) = a_pages_bitmap0 (sym s)"
    "ld64 (mem s) (mb_super (bm0 s)) = 4096" "bitmap_wf (mb_super (bm0 s)) (mem s)"
    "bitmap_len (mb_super (bm0 s)) (mem s) = 32768"
    using s by (simp_all add: pm_shape_def)
  have p: "agree (ld64 (mem s) (mb_super (bm0 s) + 24)) (ld64 (mem s) (mb_super (bm0 s))) (mem s) ?m"
    unfolding f by (rule counters_agree[OF sp(12)]) simp
  note bm = agree_bitmap[OF b p f(3)]
  have "pm_shape (s\<lparr>mem := ?m\<rparr>)"
  proof (rule pm_shape_mem[OF s])
    show "agree (a_mem_bitmaps (sym s)) 16 (mem s) ?m" by (rule counters_agree[OF sp(2)]) simp
    show "agree (bm0 s) 24 (mem s) ?m" using agree_sub[OF B, of 0 24] by simp
  qed (simp_all add: bm f)
  then show "pm_shape (with_counters u f s)" by (simp add: with_counters_def)
  show "locked (with_counters u f s) = locked s"
    using bm(2) by (simp add: locked_def with_counters_same)
  show "first_free (with_counters u f s) = first_free s"
    using agree_ld64[OF B, of 24] by (simp add: first_free_def mb_first_free_def with_counters_same)
qed

lemma counters_run:
  "thn (add_used u) (thn (add_free f) k) s = k (with_counters (used s + u) (free s + f) s)"
proof -
  have "ld64 (st64 a v m) (a + 8) = ld64 m (a + 8)" for a v m by (rule ld64_st64_sep) simp
  then show ?thesis
    by (simp add: add_used_def add_free_def with_counters_def used_def free_def mi_used_def mi_free_def Let_def)
qed

text \<open>A bit of the bitmap flipped.\<close>

definition with_bit :: "u64 \<Rightarrow> bool \<Rightarrow> kst \<Rightarrow> kst" where
  "with_bit i v s = s\<lparr>mem := flipped (mb_super (bm0 s)) i v (mem s)\<rparr>"

lemma with_bit_same: "sym (with_bit i v s) = sym s" "bm0 (with_bit i v s) = bm0 s"
  "first_free_bitmap (with_bit i v s) = first_free_bitmap s"
  by (simp_all add: with_bit_def bm0_def)

lemma flipped_agree:
  assumes "bitmap_wf b m" "unat i < bitmap_len b m" "sep a n (b + 16) 8" "sep a n (ld64 m (b + 24)) (ld64 m b)"
  shows "agree a n m (flipped b i v m)"
  unfolding agree_def
proof (intro allI impI)
  fix x assume x: "x - a < n"
  have "\<not> x - (b + 16) < 8" "\<not> x - ld64 m (b + 24) < ld64 m b"
    using sep_outside[OF assms(3) x] sep_outside[OF assms(4) x] .
  then show "flipped b i v m x = m x"
    using flipped_frame[OF assms(1,2)] unfolding bitmap_frame_def by blast
qed

lemma with_bit_view:
  assumes s: "pm_shape s" and i: "unat i < 32768" and v: "v \<noteq> (unat i \<in> locked s)"
  shows "pm_shape (with_bit i v s)"
    "locked (with_bit i v s) = (if v then insert (unat i) (locked s) else locked s - {unat i})"
    "first_free (with_bit i v s) = first_free s"
    "used (with_bit i v s) = used s" "free (with_bit i v s) = free s"
proof -
  let ?b = "mb_super (bm0 s)" and ?m = "mem (with_bit i v s)"
  note sp = statics_sep[OF s]
  have f: "ld64 (mem s) (?b + 24) = a_pages_bitmap0 (sym s)" "ld64 (mem s) ?b = 4096"
    "bitmap_wf ?b (mem s)" "bitmap_len ?b (mem s) = 32768"
    using s by (simp_all add: pm_shape_def)
  have i': "unat i < bitmap_len ?b (mem s)" using i f by simp
  have ag: "agree a n (mem s) ?m" if "sep a n (?b + 16) 8" "sep a n (a_pages_bitmap0 (sym s)) 4096" for a n
    using flipped_agree[OF f(3) i', of a n] that f by (simp add: with_bit_def)
  have H: "agree (a_mem_bitmaps (sym s)) 16 (mem s) ?m"
    using sep_sub0[OF sp(1), of 16 48 8] by (intro ag sp) (simp add: mb_super_def add.assoc)
  have B: "agree (bm0 s) 32 (mem s) ?m"
    using sep_sub1[OF sp(5), of 0 32 4096] by (intro ag) (simp_all add: mb_super_def add.assoc)
  have M: "agree (a_mem_info (sym s)) 16 (mem s) ?m"
    using sep_sub0[OF sp(10), of 16 48 8] by (intro ag sp) (simp add: mb_super_def add.assoc)
  have "pm_shape (s\<lparr>mem := ?m\<rparr>)"
  proof (rule pm_shape_mem[OF s H])
    show "agree (bm0 s) 24 (mem s) ?m" using agree_sub[OF B, of 0 24] by simp
    show "bitmap_wf ?b ?m" using flipped_wf[OF f(3) i'] v by (simp add: with_bit_def locked_def)
  qed (use f i' in \<open>simp_all add: with_bit_def flipped_fields\<close>)
  then show "pm_shape (with_bit i v s)" by (simp add: with_bit_def)
  show "locked (with_bit i v s) = (if v then insert (unat i) (locked s) else locked s - {unat i})"
    using flipped_bits[OF f(3) i'] by (simp add: locked_def with_bit_same with_bit_def bm0_def)
  show "first_free (with_bit i v s) = first_free s"
    using agree_ld64[OF B, of 24] by (simp add: first_free_def mb_first_free_def with_bit_same)
  show "used (with_bit i v s) = used s" "free (with_bit i v s) = free s"
    using agree_ld64[OF M, of 0] agree_ld64[OF M, of 8]
    by (simp_all add: used_def free_def mi_used_def mi_free_def with_bit_same)
qed

section \<open>Finding bitmaps and free indices\<close>

lemma shape_ring:
  assumes "pm_shape s"
  shows "lnext (mem s) (a_mem_bitmaps (sym s)) = bm0 s" "lnext (mem s) (bm0 s) = a_mem_bitmaps (sym s)"
    "bm0 s \<noteq> a_mem_bitmaps (sym s)" "bm0 s \<noteq> 0"
  using assms by (auto simp: pm_shape_def ring_def statics_apart_def bm0_def)

lemma find_run:
  assumes s: "pm_shape s"
  shows "find_bitmap_by_index i s = Inr (if i = 0 then bm0 s else 0, s)"
proof -
  note r = shape_ring[OF s]
  have x: "mb_index (mem s) (bm0 s) = 0" using s by (simp add: pm_shape_def)
  show ?thesis
  proof (cases "i = 0")
    case True
    have "loop by_index_more (by_index_step i) (bm0 s, None) s
        = loop by_index_more (by_index_step i) (bm0 s, Some (bm0 s)) s"
      using r x True by (intro loop_step) (auto simp: kern)
    then show ?thesis using r True by (simp add: find_bitmap_by_index_def loop_stop bnd_Inr kern)
  next
    case False
    have "loop by_index_more (by_index_step i) (bm0 s, None) s
        = loop by_index_more (by_index_step i) (a_mem_bitmaps (sym s), None) s"
      using r x False by (intro loop_step) (auto simp: kern)
    then show ?thesis using r False by (simp add: find_bitmap_by_index_def loop_stop bnd_Inr kern)
  qed
qed

lemma set_run:
  assumes s: "pm_shape s" and p: "unat p < 134217728"
  shows "try_set_page srv p v s =
    Inr (if v = (unat (TOINDEX p) \<in> locked s) then (False, s) else (True, with_bit (TOINDEX p) v s))"
proof -
  have len: "unat (TOINDEX p) < bitmap_len (mb_super (bm0 s)) (mem s)" using s by (simp add: pm_shape_def)
  have "TOBITMAP p = 0" using p by (simp add: TOBITMAP_0)
  then have f: "find_bitmap_by_index (TOBITMAP p) s = Inr (bm0 s, s)" by (simp add: find_run[OF s])
  show ?thesis
  proof (cases "v = (unat (TOINDEX p) \<in> locked s)")
    case True
    have "on_mem (bitmap_set (mb_super (bm0 s)) (TOINDEX p) v) s = Inr (SNOCHANGE, s)"
      using bitmap_set_same[OF len, of v] True by (simp add: locked_def on_mem_Inr)
    then show ?thesis using True shape_ring[OF s]
      by (simp add: try_set_page_def f bnd_Inr kern Let_def SNOCHANGE_def)
  next
    case False
    have "on_mem (bitmap_set (mb_super (bm0 s)) (TOINDEX p) v) s = Inr (SUCCESS, with_bit (TOINDEX p) v s)"
      using bitmap_set_change[OF len, of v] False by (simp add: locked_def with_bit_def on_mem_Inr)
    then show ?thesis using False shape_ring[OF s]
      by (simp add: try_set_page_def f bnd_Inr kern Let_def)
  qed
qed

lemma get_run:
  assumes s: "pm_shape s" and i: "unat i < 32768"
  shows "on_mem (bitmap_get (mb_super (bm0 s)) i) s = Inr (of_bool (unat i \<in> locked s), s)"
  using bitmap_get_in[of i "mb_super (bm0 s)" "mem s"] s i
  by (simp add: pm_shape_def locked_def on_mem_Inr)

lemma free_index_next_run:
  assumes s: "pm_shape s"
  shows "free_index_next s =
    Inr ((first_free s + 1 < 32768, False), with_first_free (first_free s + 1) s)"
proof -
  let ?s = "with_first_free (first_free s + 1) s"
  have "ld64 (mem ?s) (mb_super (bm0 s) + 8) = 32768"
    using with_first_free_view(1)[OF s, of "first_free s + 1"]
    by (simp add: pm_shape_def bitmap_len_def with_first_free_same word_unat_eq_iff)
  moreover have "first_free_bitmap s = bm0 s" using s by (simp add: pm_shape_def)
  ultimately show ?thesis
    by (simp add: free_index_next_def kern with_first_free_def first_free_def mb_first_free_def)
qed

lemma find_index_loop:
  "pm_shape s \<Longrightarrow> unat (first_free s) \<le> k \<Longrightarrow> k < 32768 \<Longrightarrow> k \<notin> locked s \<Longrightarrow>
    {unat (first_free s)..<k} \<subseteq> locked s \<Longrightarrow>
    loop free_index_more (free_index_step srv) (True, False) s
      = Inr ((False, True), with_first_free (of_nat k) s)"
proof (induction "k - unat (first_free s)" arbitrary: s)
  case 0
  then have k: "of_nat k = first_free s" by (simp add: word_unat_eq_iff unat_of_nat take_bit_nat_eq_self)
  have b: "first_free_bitmap s = bm0 s" using 0 by (simp add: pm_shape_def)
  have u: "unat (first_free s) = k" using 0 by simp
  have "on_mem (bitmap_get (mb_super (bm0 s)) (first_free s)) s = Inr (0, s)"
    using get_run[OF 0(2), of "first_free s"] 0 u by simp
  then have "free_index_step srv (True, False) s = Inr ((False, True), s)"
    by (simp add: b first_free_def bnd_Inr kern ISERROR_def BITMAP_PAGEFREE_def)
  then have "loop free_index_more (free_index_step srv) (True, False) s
      = loop free_index_more (free_index_step srv) (False, True) s" by (intro loop_step) auto
  then show ?case by (simp add: loop_stop k)
next
  case (Suc d)
  let ?s = "with_first_free (first_free s + 1) s"
  have lt: "unat (first_free s) < k" using Suc by linarith
  then have u: "unat (first_free s + 1) = Suc (unat (first_free s))"
    using Suc.prems by (simp add: unat_word_ariths)
  have b: "first_free_bitmap s = bm0 s" using Suc by (simp add: pm_shape_def)
  have l: "unat (first_free s) \<in> locked s" using Suc.prems lt by auto
  have "on_mem (bitmap_get (mb_super (bm0 s)) (first_free s)) s = Inr (1, s)"
    using get_run[OF Suc.prems(1), of "first_free s"] lt Suc.prems l by simp
  moreover have "first_free s + 1 < 32768" using u lt Suc.prems by (simp add: word_less_nat_alt)
  ultimately have "free_index_step srv (True, False) s = Inr ((True, False), ?s)"
    using free_index_next_run[OF Suc.prems(1)]
    by (simp add: b first_free_def[symmetric] bnd_Inr kern ISERROR_def BITMAP_PAGEFREE_def)
  then have "loop free_index_more (free_index_step srv) (True, False) s
      = loop free_index_more (free_index_step srv) (True, False) ?s" by (intro loop_step) auto
  also have "\<dots> = Inr ((False, True), with_first_free (of_nat k) ?s)"
  proof (rule Suc.hyps(1))
    show "d = k - unat (first_free ?s)" using Suc.hyps(2) u by (simp add: with_first_free_same)
    show "{unat (first_free ?s)..<k} \<subseteq> locked ?s"
      using Suc.prems(5) u by (auto simp: with_first_free_same with_first_free_view[OF Suc.prems(1)])
  qed (use Suc.prems u lt in \<open>simp_all add: with_first_free_same with_first_free_view\<close>)
  finally show ?case by simp
qed

lemma find_index_run:
  assumes "pm_shape s" "unat (first_free s) \<le> k" "k < 32768" "k \<notin> locked s"
    "{unat (first_free s)..<k} \<subseteq> locked s"
  shows "find_first_free_index srv s = Inr (True, with_first_free (of_nat k) s)"
  by (simp add: find_first_free_index_def find_index_loop[OF assms] bnd_Inr kern)

section \<open>What else an operation may change\<close>

text \<open>Only memory, and in it only the first bitmap, its bits and the counters.\<close>

definition pm_frame :: "kst \<Rightarrow> kst \<Rightarrow> bool" where
  "pm_frame s s' \<longleftrightarrow> s' = s\<lparr>mem := mem s'\<rparr> \<and>
     (\<forall>x. \<not> x - bm0 s < 64 \<longrightarrow> \<not> x - a_mem_info (sym s) < 16 \<longrightarrow>
        \<not> x - a_pages_bitmap0 (sym s) < 4096 \<longrightarrow> mem s' x = mem s x)"

lemma pm_frame_refl [simp]: "pm_frame s s"
  by (simp add: pm_frame_def)

lemma pm_frame_sym: "pm_frame s s' \<Longrightarrow> sym s' = sym s"
  by (cases s; cases s') (simp add: pm_frame_def)

lemma pm_frame_trans:
  assumes "pm_frame s1 s2" "pm_frame s2 s3"
  shows "pm_frame s1 s3"
proof -
  have y: "sym s2 = sym s1" using assms(1) by (rule pm_frame_sym)
  have "s3 = s1\<lparr>mem := mem s3\<rparr>"
    using assms by (cases s1; cases s2; cases s3) (simp add: pm_frame_def)
  then show ?thesis using assms y by (simp add: pm_frame_def bm0_def)
qed

lemma outside_sub:
  fixes x :: addr
  assumes "\<not> x - a < n" "unat i + unat k \<le> unat n"
  shows "\<not> x - (a + i) < k"
proof
  assume x: "x - (a + i) < k"
  have lt: "unat (x - (a + i)) < unat k" using x by (simp only: word_less_nat_alt)
  then have "unat (x - (a + i) + i) = unat (x - (a + i)) + unat i"
    using assms(2) unat_lt64[of n] by (subst unat_word_ariths) simp
  moreover have e: "x - (a + i) + i = x - a" by simp
  ultimately have "unat (x - a) = unat (x - (a + i)) + unat i" by (simp only: e)
  then have "unat (x - a) < unat n" using lt assms(2) by linarith
  with assms(1) show False by (simp add: word_less_nat_alt)
qed

lemma frame_first_free: "pm_frame s (with_first_free v s)"
  using outside_sub[of _ "bm0 s" 64 24 8] by (auto simp: pm_frame_def with_first_free_def st64_def)

lemma frame_counters: "pm_frame s (with_counters u f s)"
  using outside_sub[of _ "a_mem_info (sym s)" 16 0 8] outside_sub[of _ "a_mem_info (sym s)" 16 8 8]
  by (auto simp: pm_frame_def with_counters_def st64_def)

lemma frame_bit:
  assumes "pm_shape s" "unat i < 32768"
  shows "pm_frame s (with_bit i v s)"
proof -
  have f: "bitmap_wf (mb_super (bm0 s)) (mem s)" "unat i < bitmap_len (mb_super (bm0 s)) (mem s)"
    "ld64 (mem s) (mb_super (bm0 s)) = 4096" "ld64 (mem s) (mb_super (bm0 s) + 24) = a_pages_bitmap0 (sym s)"
    using assms by (simp_all add: pm_shape_def)
  have "mem (with_bit i v s) x = mem s x"
    if "\<not> x - bm0 s < 64" "\<not> x - a_pages_bitmap0 (sym s) < 4096" for x
    using flipped_frame[OF f(1,2), of v] that outside_sub[OF that(1), of 48 8]
    unfolding bitmap_frame_def f by (simp add: with_bit_def mb_super_def add.assoc)
  then show ?thesis by (simp add: pm_frame_def) (simp add: with_bit_def)
qed

section \<open>Locking a page\<close>

text \<open>The state is as \<open>pm_ok\<close> asks, but that page \<open>i\<close> below \<open>first_free\<close> may not be locked yet.\<close>

definition pm_due :: "nat \<Rightarrow> kst \<Rightarrow> bool" where
  "pm_due i s \<longleftrightarrow> pm_shape s \<and> {..<unat (first_free s)} \<subseteq> insert i (locked s)"

lemma least_free:
  fixes k :: nat
  assumes "k < 32768" "k \<notin> A" "{..<f} \<subseteq> A"
  obtains j where "f \<le> j" "j < 32768" "j \<notin> A" "{..<j} \<subseteq> A" "j = (LEAST n. n \<notin> A)"
proof -
  let ?j = "LEAST n. n \<notin> A"
  have "?j \<notin> A" using LeastI[of "\<lambda>n. n \<notin> A", OF assms(2)] .
  moreover have "?j \<le> k" using Least_le[of "\<lambda>n. n \<notin> A", OF assms(2)] .
  moreover have "{..<?j} \<subseteq> A"
  proof
    fix n assume "n \<in> {..<?j}"
    then show "n \<in> A" using not_less_Least[of n "\<lambda>n. n \<notin> A"] by blast
  qed
  moreover have "f \<le> ?j" using \<open>?j \<notin> A\<close> assms(3) by (meson lessThan_iff not_le subsetD)
  ultimately show thesis using that[of ?j] assms(1) by simp
qed

lemma ok_first_free: "pm_ok s \<Longrightarrow> unat (first_free s) = (LEAST n. n \<notin> locked s)"
proof (rule Least_equality[symmetric])
  assume s: "pm_ok s"
  then show "unat (first_free s) \<notin> locked s" by (simp add: pm_ok_def)
  fix j assume "j \<notin> locked s"
  moreover have "{..<unat (first_free s)} \<subseteq> locked s" using s by (simp add: pm_ok_def)
  ultimately show "unat (first_free s) \<le> j" by (meson lessThan_iff not_le subsetD)
qed

lemma lock_run:
  assumes s: "pm_due (unat (TOINDEX p)) s" and p: "unat p < 134217728"
    and i: "unat (TOINDEX p) \<notin> locked s" and k: "k < 32768" "k \<notin> locked s" "k \<noteq> unat (TOINDEX p)"
  obtains s' where "pm_try_lock_page srv p s = Inr (True, s')" "pm_ok s'"
    "locked s' = insert (unat (TOINDEX p)) (locked s)" "used s' = used s + 4096" "free s' = free s - 4096"
    "pm_frame s s'"
proof -
  let ?i = "TOINDEX p"
  let ?t = "with_bit ?i True s"
  have sh: "pm_shape s" using s by (simp add: pm_due_def)
  have v: "True \<noteq> (unat ?i \<in> locked s)" using i by simp
  note bit = with_bit_view[OF sh index_lt v]
  have "k \<notin> locked ?t" "{..<unat (first_free ?t)} \<subseteq> locked ?t"
    using k s bit by (auto simp: pm_due_def)
  from least_free[OF k(1) this] obtain j where j: "unat (first_free ?t) \<le> j" "j < 32768" "j \<notin> locked ?t"
    "{..<j} \<subseteq> locked ?t" by metis
  have "{unat (first_free ?t)..<j} \<subseteq> locked ?t" using j(4) by auto
  note find = find_index_run[OF bit(1) j(1-3) this]
  define t where "t = with_first_free (of_nat j) ?t"
  define s' where "s' = with_counters (used s + 4096) (free s - 4096) t"
  note ff = with_first_free_view[OF bit(1), of "of_nat j", folded t_def]
  note ct = with_counters_view[OF ff(1), of "used s + 4096" "free s - 4096", folded s'_def]
  have set: "try_set_page srv p True s = Inr (True, ?t)" using set_run[OF sh p] i by simp
  have idx: "mb_index (mem ?t) (first_free_bitmap ?t) = 0" "TOBITMAP p = 0"
    using bit(1) p by (simp_all add: pm_shape_def with_bit_same TOBITMAP_0)
  have run: "pm_try_lock_page srv p s = Inr (True, s')"
    using counters_run[of 4096 "-4096" "ret True" t]
    by (simp add: pm_try_lock_page_def BITMAP_PAGELOCKED_def set bnd_Inr idx find thn_Inr kern t_def[symmetric]
        ff bit s'_def)
  have u: "unat (of_nat j :: u64) = j" using j(2) by (simp add: unat_of_nat take_bit_nat_eq_self)
  have "first_free s' = of_nat j" by (simp add: ct t_def with_first_free_same)
  then have "pm_ok s'" using j u by (simp add: pm_ok_def ct ff)
  moreover have "pm_frame s s'" unfolding s'_def t_def
    by (rule pm_frame_trans[OF frame_bit[OF sh index_lt]], rule pm_frame_trans[OF frame_first_free frame_counters])
  ultimately show thesis using that[OF run] bit ff ct by (simp add: s'_def with_counters_same)
qed

lemma lock_again:
  assumes "pm_shape s" "unat p < 134217728" "unat (TOINDEX p) \<in> locked s"
  shows "pm_try_lock_page srv p s = Inr (False, s)"
proof -
  have "try_set_page srv p True s = Inr (False, s)" using set_run[OF assms(1,2), of srv True] assms(3) by simp
  note set = this
  show ?thesis by (simp add: pm_try_lock_page_def BITMAP_PAGELOCKED_def set bnd_False kern)
qed

lemma ok_due: "pm_ok s \<Longrightarrow> pm_due i s"
  by (auto simp: pm_ok_def pm_due_def)

lemma lock_page_run:
  assumes "pm_ok s" "unat p < 134217728" "k < 32768" "k \<notin> locked s" "k \<noteq> unat (TOINDEX p)"
  shows "\<exists>s'. pm_try_lock_page srv p s = Inr (unat (TOINDEX p) \<notin> locked s, s') \<and> pm_ok s' \<and>
    locked s' = insert (unat (TOINDEX p)) (locked s) \<and> pm_frame s s' \<and>
    used s' = used s + (if unat (TOINDEX p) \<in> locked s then 0 else 4096) \<and>
    free s' = free s - (if unat (TOINDEX p) \<in> locked s then 0 else 4096)"
proof (cases "unat (TOINDEX p) \<in> locked s")
  case True
  then have "insert (unat (TOINDEX p)) (locked s) = locked s" by auto
  with True lock_again[OF pm_ok_shape[OF assms(1)] assms(2)] assms(1) show ?thesis by auto
next
  case False
  from lock_run[OF ok_due[OF assms(1)] assms(2) False assms(3-5)] obtain s' where
    "pm_try_lock_page srv p s = Inr (True, s')" "pm_ok s'"
    "locked s' = insert (unat (TOINDEX p)) (locked s)" "used s' = used s + 4096" "free s' = free s - 4096"
    "pm_frame s s'" .
  with False show ?thesis by auto
qed

text \<open>locking a page below 128 MB, while another page is free, reports whether the page was free,
  adds it to the set of locked pages, moves it from the free to the used bytes if it was free, and
  keeps the invariant and everything outside of the manager's own memory.\<close>

theorem lock_page_effect:
  assumes "pm_ok s" "unat p < 134217728" "k < 32768" "k \<notin> locked s" "k \<noteq> unat (TOINDEX p)"
  shows "\<exists>s'. pm_try_lock_page srv p s = Inr (unat (TOINDEX p) \<notin> locked s, s') \<and> pm_ok s' \<and>
    locked s' = insert (unat (TOINDEX p)) (locked s) \<and> pm_frame s s' \<and>
    used s' = used s + (if unat (TOINDEX p) \<in> locked s then 0 else 4096) \<and>
    free s' = free s - (if unat (TOINDEX p) \<in> locked s then 0 else 4096)"
  using assms by (rule lock_page_run)

section \<open>Releasing a page\<close>

lemma release_run:
  assumes s: "pm_ok s" and p: "unat p < 134217728"
  shows "\<exists>s'. pm_try_release_page srv p s = Inr (unat (TOINDEX p) \<in> locked s, s') \<and> pm_ok s' \<and>
    locked s' = locked s - {unat (TOINDEX p)} \<and> pm_frame s s' \<and>
    used s' = used s - (if unat (TOINDEX p) \<in> locked s then 4096 else 0) \<and>
    free s' = free s + (if unat (TOINDEX p) \<in> locked s then 4096 else 0)"
proof -
  let ?i = "TOINDEX p"
  let ?t = "with_bit ?i False s"
  have sh: "pm_shape s" using s by (rule pm_ok_shape)
  show ?thesis
  proof (cases "unat ?i \<in> locked s")
    case False
    then have set: "try_set_page srv p False s = Inr (False, s)" using set_run[OF sh p, of srv False] by simp
    have "pm_try_release_page srv p s = Inr (False, s)"
      by (simp add: pm_try_release_page_def BITMAP_PAGEFREE_def set bnd_False kern)
    with False s show ?thesis by auto
  next
    case True
    then have v: "False \<noteq> (unat ?i \<in> locked s)" by simp
    note bit = with_bit_view[OF sh index_lt v]
    define t where "t = (if ?i < first_free s then with_first_free ?i ?t else ?t)"
    define s' where "s' = with_counters (used s - 4096) (free s + 4096) t"
    have t: "pm_shape t" "locked t = locked ?t" "used t = used s" "free t = free s"
      "first_free t = (if ?i < first_free s then ?i else first_free s)" "sym t = sym s"
      using with_first_free_view[OF bit(1), of ?i] bit
      by (simp_all add: t_def with_first_free_same with_bit_same)
    note ct = with_counters_view[OF t(1), of "used s - 4096" "free s + 4096", folded s'_def]
    have set: "try_set_page srv p False s = Inr (True, ?t)" using set_run[OF sh p] True by simp
    have idx: "mb_index (mem ?t) (bm0 s) = 0" "TOBITMAP p = 0" "first_free_bitmap s = bm0 s"
      "mb_first_free (mem ?t) (bm0 s) = first_free s"
      using bit(1,3) sh p by (simp_all add: pm_shape_def with_bit_same TOBITMAP_0 first_free_def)
    have run: "pm_try_release_page srv p s = Inr (True, s')"
    proof -
      have c: "thn (add_used (- 4096)) (thn (add_free 4096) (ret True)) t = Inr (True, s')"
        using counters_run[of "-4096" 4096 "ret True" t] by (simp add: t s'_def kern)
      show ?thesis
      proof (cases "?i < first_free s")
        case True
        then have "?t\<lparr>mem := st64 (bm0 s + 24) ?i (mem ?t)\<rparr> = t"
          by (simp add: t_def with_first_free_def with_bit_same)
        with True c show ?thesis
          by (simp add: pm_try_release_page_def BITMAP_PAGEFREE_def set bnd_Inr idx with_bit_same thn_Inr kern)
      next
        case False
        then have "t = ?t" by (simp add: t_def)
        with False c show ?thesis
          by (simp add: pm_try_release_page_def BITMAP_PAGEFREE_def set bnd_Inr idx with_bit_same thn_Inr kern)
      qed
    qed
    have f: "unat (first_free s) < 32768" "unat (first_free s) \<notin> locked s" "{..<unat (first_free s)} \<subseteq> locked s"
      using s by (simp_all add: pm_ok_def)
    have l: "locked s' = locked s - {unat ?i}" using ct t bit by simp
    have ff: "unat (first_free s') = min (unat ?i) (unat (first_free s))"
      using ct t by (auto simp: word_less_nat_alt)
    have "unat (first_free s') \<notin> locked s'" "{..<unat (first_free s')} \<subseteq> locked s'"
      using f True unfolding ff l by (auto simp: min_def subset_eq)
    then have "pm_ok s'" using ct f(1) ff by (simp add: pm_ok_def)
    moreover have "pm_frame s s'" unfolding s'_def t_def
      by (auto intro: pm_frame_trans[OF frame_bit[OF sh index_lt]] pm_frame_trans[OF frame_first_free] frame_counters)
    ultimately show ?thesis using True run l t by (auto simp: s'_def with_counters_same)
  qed
qed

text \<open>releasing a page below 128 MB reports whether it was locked, removes it from the set of
  locked pages and moves it back to the free bytes, and keeps the invariant.\<close>

theorem release_page_effect:
  assumes "pm_ok s" "unat p < 134217728"
  shows "\<exists>s'. pm_try_release_page srv p s = Inr (unat (TOINDEX p) \<in> locked s, s') \<and> pm_ok s' \<and>
    locked s' = locked s - {unat (TOINDEX p)} \<and> pm_frame s s' \<and>
    used s' = used s - (if unat (TOINDEX p) \<in> locked s then 4096 else 0) \<and>
    free s' = free s + (if unat (TOINDEX p) \<in> locked s then 4096 else 0)"
  using assms by (rule release_run)

section \<open>Ranges of pages\<close>

text \<open>Below 128 MB the index of an address is the number of its page.\<close>

lemma index_low: "unat p < 134217728 \<Longrightarrow> unat (TOINDEX p) = unat p div 4096"
  by (simp add: unat_TOINDEX less_mult_imp_div_less)

lemma next_page:
  fixes p :: addr
  assumes "unat p div 4096 + Suc n \<le> 32768" "0 < n"
  shows "unat (p + 4096) = unat p + 4096" "unat (p + 4096) div 4096 = Suc (unat p div 4096)"
proof -
  have "unat p div 4096 < 32768" using assms by simp
  then have "unat p < 134217728" by (simp add: div_less_iff_less_mult)
  then show "unat (p + 4096) = unat p + 4096" by (simp add: unat_word_ariths)
  then show "unat (p + 4096) div 4096 = Suc (unat p div 4096)" by simp
qed

lemma page_step: "unat page + Suc n = unat pages \<Longrightarrow> page < pages \<and> unat (page + 1) + n = unat pages"
  for page pages :: u64
  using unat_lt64[of pages] by (simp add: word_less_nat_alt unat_word_ariths)

text \<open>What a sequence of single page operations does to the set of locked pages and the counters.\<close>

lemma lock_loop:
  "pm_ok s \<Longrightarrow> unat p div 4096 + n \<le> 32768 \<Longrightarrow> unat page + n = unat pages \<Longrightarrow>
   k < 32768 \<Longrightarrow> k \<notin> locked s \<Longrightarrow> k \<notin> {unat p div 4096..<unat p div 4096 + n} \<Longrightarrow>
   \<exists>q s'. loop (lock_pages_more pages) (lock_pages_step srv) (page, p, b) s =
       Inr ((pages, q, b \<and> locked s \<inter> {unat p div 4096..<unat p div 4096 + n} = {}), s') \<and> pm_ok s' \<and>
     locked s' = locked s \<union> {unat p div 4096..<unat p div 4096 + n} \<and> pm_frame s s' \<and>
     used s' - used s = 4096 * of_nat (card ({unat p div 4096..<unat p div 4096 + n} - locked s)) \<and>
     used s' + free s' = used s + free s"
proof (induction n arbitrary: s p page b)
  case 0
  then have "page = pages" by (simp add: word_unat_eq_iff)
  with 0 show ?case by (auto simp: loop_stop)
next
  case (Suc n)
  let ?i = "unat p div 4096"
  let ?R = "{?i..<?i + Suc n}"
  have p: "unat p < 134217728" using Suc.prems(2) by (simp add: div_less_iff_less_mult[symmetric])
  note i = index_low[OF p]
  have pg: "page < pages" "unat (page + 1) + n = unat pages" using page_step[OF Suc.prems(3)] by simp_all
  have "k \<noteq> unat (TOINDEX p)" using Suc.prems(6) i by auto
  from lock_page_run[OF Suc.prems(1) p Suc.prems(4,5) this, of srv] obtain t where
    t: "pm_try_lock_page srv p s = Inr (?i \<notin> locked s, t)" "pm_ok t" "locked t = insert ?i (locked s)"
      "pm_frame s t" "used t = used s + (if ?i \<in> locked s then 0 else 4096)"
      "free t = free s - (if ?i \<in> locked s then 0 else 4096)" unfolding i by blast
  have step: "loop (lock_pages_more pages) (lock_pages_step srv) (page, p, b) s =
      loop (lock_pages_more pages) (lock_pages_step srv) (page + 1, p + 4096, b \<and> ?i \<notin> locked s) t"
    using pg t(1) by (intro loop_step) (simp_all add: bnd_Inr[where x = "?i \<notin> locked s"] kern)
  have R: "?R = insert ?i {Suc ?i..<Suc ?i + n}" by auto
  show ?case
  proof (cases "n = 0")
    case True
    then have "page + 1 = pages" using pg by (simp add: word_unat_eq_iff)
    with True step t show ?thesis by (auto simp: loop_stop insert_Diff_if)
  next
    case False
    then have nx: "unat (p + 4096) div 4096 = Suc ?i" using next_page[of p n] Suc.prems(2) by simp
    have "k \<notin> locked t" using Suc.prems(5,6) t(3) by auto
    with Suc.IH[OF t(2), of "p + 4096" "page + 1" "b \<and> ?i \<notin> locked s"] Suc.prems(2,4,6) pg(2)
    obtain q s' where s': "loop (lock_pages_more pages) (lock_pages_step srv) (page + 1, p + 4096, b \<and> ?i \<notin> locked s) t
        = Inr ((pages, q, (b \<and> ?i \<notin> locked s) \<and> locked t \<inter> {Suc ?i..<Suc ?i + n} = {}), s')"
      "pm_ok s'" "locked s' = locked t \<union> {Suc ?i..<Suc ?i + n}" "pm_frame t s'"
      "used s' - used t = 4096 * of_nat (card ({Suc ?i..<Suc ?i + n} - locked t))"
      "used s' + free s' = used t + free t"
      unfolding nx by auto
    have c: "{Suc ?i..<Suc ?i + n} - locked t = {Suc ?i..<Suc ?i + n} - locked s" unfolding t(3) by auto
    have "card (?R - locked s) = (if ?i \<in> locked s then 0 else 1) + card ({Suc ?i..<Suc ?i + n} - locked s)"
      unfolding R by (auto simp: insert_Diff_if)
    then have u: "used s' - used s = 4096 * of_nat (card (?R - locked s))"
      using s'(5) t(5) unfolding c by (auto simp: algebra_simps)
    have nc: "((b \<and> ?i \<notin> locked s) \<and> locked t \<inter> {Suc ?i..<Suc ?i + n} = {}) = (b \<and> locked s \<inter> ?R = {})"
      unfolding R t(3) by auto
    have run: "loop (lock_pages_more pages) (lock_pages_step srv) (page, p, b) s =
        Inr ((pages, q, b \<and> locked s \<inter> ?R = {}), s')"
      unfolding step s'(1) nc ..
    have l: "locked s' = locked s \<union> ?R" unfolding s'(3) t(3) R by auto
    have c: "used s' + free s' = used s + free s" using s'(6) t(5,6) by simp
    show ?thesis
      by (intro exI conjI, rule run, rule s'(2), rule l, rule pm_frame_trans[OF t(4) s'(4)], rule u, rule c)
  qed
qed

text \<open>The pages of \<open>bytes\<close> bytes from \<open>p\<close> on.\<close>

definition page_range :: "addr \<Rightarrow> u64 \<Rightarrow> nat set" where
  "page_range p bytes = {unat p div 4096..<unat p div 4096 + unat (PAGES bytes)}"

text \<open>Locking a range of pages below 128 MB locks all of its pages, and reports whether all of
  them were free; the sum of used and free bytes stays the same.\<close>

lemma lock_pages_run:
  assumes "pm_ok s" "bytes \<noteq> 0" "unat p div 4096 + unat (PAGES bytes) \<le> 32768"
    "k < 32768" "k \<notin> locked s" "k \<notin> page_range p bytes"
  shows "\<exists>s'. pm_try_lock_pages srv p bytes s = Inr (locked s \<inter> page_range p bytes = {}, s') \<and> pm_ok s' \<and>
    locked s' = locked s \<union> page_range p bytes \<and> pm_frame s s' \<and>
    used s' = used s + 4096 * of_nat (card (page_range p bytes - locked s)) \<and>
    used s' + free s' = used s + free s"
proof -
  from lock_loop[OF assms(1,3) _ assms(4,5), of 0 "PAGES bytes" srv True] assms(6)
  obtain q s' where l: "loop (lock_pages_more (PAGES bytes)) (lock_pages_step srv) (0, p, True) s =
       Inr ((PAGES bytes, q, True \<and> locked s \<inter> page_range p bytes = {}), s')" and r: "pm_ok s'"
     "locked s' = locked s \<union> page_range p bytes" "pm_frame s s'"
     "used s' - used s = 4096 * of_nat (card (page_range p bytes - locked s))"
     "used s' + free s' = used s + free s" unfolding page_range_def by auto
  have "pm_try_lock_pages srv p bytes s = Inr (locked s \<inter> page_range p bytes = {}, s')"
    using assms(2) by (simp add: pm_try_lock_pages_def bnd_Inr l kern)
  moreover have "used s' = used s + 4096 * of_nat (card (page_range p bytes - locked s))"
    using r(4) by (simp add: algebra_simps)
  ultimately show ?thesis using r by blast
qed

lemma release_loop:
  "pm_ok s \<Longrightarrow> unat p div 4096 + n \<le> 32768 \<Longrightarrow> unat page + n = unat pages \<Longrightarrow>
   \<exists>q s'. loop (lock_pages_more pages) (release_pages_step srv) (page, p, True) s =
       Inr ((pages, q, True), s') \<and> pm_ok s' \<and>
     locked s' = locked s - {unat p div 4096..<unat p div 4096 + n} \<and> pm_frame s s' \<and>
     used s = used s' + 4096 * of_nat (card ({unat p div 4096..<unat p div 4096 + n} \<inter> locked s)) \<and>
     used s' + free s' = used s + free s"
proof (induction n arbitrary: s p page)
  case 0
  then have "page = pages" by (simp add: word_unat_eq_iff)
  with 0 show ?case by (auto simp: loop_stop)
next
  case (Suc n)
  let ?i = "unat p div 4096"
  have p: "unat p < 134217728" using Suc.prems(2) by (simp add: div_less_iff_less_mult[symmetric])
  note i = index_low[OF p]
  have pg: "page < pages" "unat (page + 1) + n = unat pages" using page_step[OF Suc.prems(3)] by simp_all
  from release_run[OF Suc.prems(1) p, of srv] obtain t where
    t: "pm_try_release_page srv p s = Inr (?i \<in> locked s, t)" "pm_ok t" "locked t = locked s - {?i}"
      "pm_frame s t" "used t = used s - (if ?i \<in> locked s then 4096 else 0)"
      "free t = free s + (if ?i \<in> locked s then 4096 else 0)" unfolding i by blast
  have step: "loop (lock_pages_more pages) (release_pages_step srv) (page, p, True) s =
      loop (lock_pages_more pages) (release_pages_step srv) (page + 1, p + 4096, True) t"
    using pg t(1) by (intro loop_step) (simp_all add: bnd_Inr[where x = "?i \<in> locked s"] kern)
  have R: "{?i..<?i + Suc n} = insert ?i {Suc ?i..<Suc ?i + n}" by auto
  have cd: "card ({?i..<?i + Suc n} \<inter> locked s) = card ({Suc ?i..<Suc ?i + n} \<inter> locked t) + (if ?i \<in> locked s then 1 else 0)"
  proof -
    have "{Suc ?i..<Suc ?i + n} \<inter> locked t = {Suc ?i..<Suc ?i + n} \<inter> locked s" unfolding t(3) by auto
    then show ?thesis unfolding R by (simp add: Int_insert_left)
  qed
  show ?case
  proof (cases "n = 0")
    case True
    then have "page + 1 = pages" using pg by (simp add: word_unat_eq_iff)
    with True step t show ?thesis by (auto simp: loop_stop)
  next
    case False
    then have nx: "unat (p + 4096) div 4096 = Suc ?i" using next_page[of p n] Suc.prems(2) by simp
    from Suc.IH[OF t(2), of "p + 4096" "page + 1"] Suc.prems(2) pg(2)
    obtain q s' where s': "loop (lock_pages_more pages) (release_pages_step srv) (page + 1, p + 4096, True) t
        = Inr ((pages, q, True), s')" "pm_ok s'" "locked s' = locked t - {Suc ?i..<Suc ?i + n}"
      "pm_frame t s'" "used t = used s' + 4096 * of_nat (card ({Suc ?i..<Suc ?i + n} \<inter> locked t))" "used s' + free s' = used t + free t"
      unfolding nx by auto
    have run: "loop (lock_pages_more pages) (release_pages_step srv) (page, p, True) s = Inr ((pages, q, True), s')"
      unfolding step s'(1) ..
    have l: "locked s' = locked s - {?i..<?i + Suc n}" unfolding s'(3) t(3) R by auto
    have c: "used s' + free s' = used s + free s" using s'(6) t(5,6) by simp
    have u: "used s = used s' + 4096 * of_nat (card ({?i..<?i + Suc n} \<inter> locked s))"
      unfolding cd using s'(5) t(5) by (simp add: algebra_simps split: if_splits)
    show ?thesis
      by (intro exI conjI, rule run, rule s'(2), rule l, rule pm_frame_trans[OF t(4) s'(4)], rule u, rule c)
  qed
qed

text \<open>Releasing a range of pages frees all of them; the result is true whatever pages were
  locked, because it is accumulated with \<open>|=\<close> from an initial true.\<close>

lemma release_pages_run:
  assumes "pm_ok s" "bytes \<noteq> 0" "unat p div 4096 + unat (PAGES bytes) \<le> 32768"
  shows "\<exists>s'. pm_try_release_pages srv p bytes s = Inr (True, s') \<and> pm_ok s' \<and>
    locked s' = locked s - page_range p bytes \<and> pm_frame s s' \<and>
    used s = used s' + 4096 * of_nat (card (page_range p bytes \<inter> locked s)) \<and> used s' + free s' = used s + free s"
proof -
  from release_loop[OF assms(1,3), of 0 "PAGES bytes" srv]
  obtain q s' where l: "loop (lock_pages_more (PAGES bytes)) (release_pages_step srv) (0, p, True) s =
       Inr ((PAGES bytes, q, True), s')" and r: "pm_ok s'" "locked s' = locked s - page_range p bytes"
       "pm_frame s s'" "used s = used s' + 4096 * of_nat (card (page_range p bytes \<inter> locked s))" "used s' + free s' = used s + free s"
    unfolding page_range_def by auto
  have "pm_try_release_pages srv p bytes s = Inr (True, s')"
    using assms(2) by (simp add: pm_try_release_pages_def bnd_Inr l kern)
  with r show ?thesis by blast
qed

section \<open>Requesting pages\<close>

lemma page_address:
  assumes "unat i < 32768"
  shows "unat (TOPADDR 0 i) = unat i * 4096" "TOINDEX (TOPADDR 0 i) = i" "unat (TOPADDR 0 i) < 134217728"
proof -
  show u: "unat (TOPADDR 0 i) = unat i * 4096" using unat_TOPADDR[of 0 i] assms by simp
  show "unat (TOPADDR 0 i) < 134217728" using u assms by simp
  then have "unat (TOINDEX (TOPADDR 0 i)) = unat i" using u by (simp add: index_low)
  then show "TOINDEX (TOPADDR 0 i) = i" by (simp add: word_unat_eq_iff)
qed

lemma request_run:
  assumes s: "pm_ok s" and f: "4096 \<le> free s" and k: "k < 32768" "k \<notin> locked s" "k \<noteq> unat (first_free s)"
  obtains s' where "pm_request_page srv s = Inr (TOPADDR 0 (first_free s), s')" "pm_ok s'"
    "locked s' = insert (unat (first_free s)) (locked s)" "used s' = used s + 4096" "free s' = free s - 4096"
    "pm_frame s s'"
proof -
  let ?f = "first_free s"
  let ?p = "TOPADDR 0 ?f"
  let ?t = "with_first_free (?f + 1) s"
  have ok: "unat ?f < 32768" "unat ?f \<notin> locked s" "{..<unat ?f} \<subseteq> locked s" and sh: "pm_shape s"
    using s by (simp_all add: pm_ok_def)
  note p = page_address[OF ok(1)]
  note v = with_first_free_view[OF sh, of "?f + 1"]
  have "unat (?f + 1) = Suc (unat ?f)" using ok(1) by (simp add: unat_word_ariths)
  then have "pm_due (unat (TOINDEX ?p)) ?t"
    using ok v by (auto simp: pm_due_def with_first_free_same p less_Suc_eq)
  from lock_run[OF this p(3), of k srv] k ok(2) obtain s' where
    r: "pm_try_lock_page srv ?p ?t = Inr (True, s')" "pm_ok s'" "locked s' = insert (unat ?f) (locked s)"
      "used s' = used s + 4096" "free s' = free s - 4096" "pm_frame ?t s'"
    by (auto simp: v p)
  have "first_free_bitmap s = bm0 s" "mb_index (mem s) (bm0 s) = 0" "mb_first_free (mem s) (bm0 s) = ?f"
    using sh by (simp_all add: pm_shape_def first_free_def)
  then have "pm_request_page srv s = Inr (?p, s')" using f r(1)
    by (simp add: pm_request_page_def free_def[symmetric] not_less bnd_Inr kern
        with_first_free_def thn_Inr)
  then show thesis using r frame_first_free pm_frame_trans that by blast
qed

text \<open>C10: a request returns the lowest free page, locks it, and touches nothing else.\<close>

theorem request_page_effect:
  assumes "pm_ok s" "4096 \<le> free s" "k < 32768" "k \<notin> locked s" "k \<noteq> unat (first_free s)"
  shows "\<exists>p s'. pm_request_page srv s = Inr (p, s') \<and> unat p = (LEAST n. n \<notin> locked s) * 4096 \<and>
    ISPAGEALIGNED p \<and> unat p div 4096 \<notin> locked s \<and> pm_ok s' \<and>
    locked s' = insert (unat p div 4096) (locked s) \<and> pm_frame s s' \<and>
    used s' = used s + 4096 \<and> free s' = free s - 4096"
proof -
  have ok: "unat (first_free s) < 32768" "unat (first_free s) \<notin> locked s" using assms(1) by (simp_all add: pm_ok_def)
  from request_run[OF assms, of srv] obtain s' where
    "pm_request_page srv s = Inr (TOPADDR 0 (first_free s), s')" "pm_ok s'"
    "locked s' = insert (unat (first_free s)) (locked s)" "used s' = used s + 4096" "free s' = free s - 4096"
    "pm_frame s s'" by metis
  then show ?thesis using page_address[OF ok(1)] ok ok_first_free[OF assms(1)]
    by (intro exI[of _ "TOPADDR 0 (first_free s)"] exI[of _ s']) (simp add: ISPAGEALIGNED_dvd)
qed

text \<open>The search for a run of free pages.\<close>

definition free_run :: "kst \<Rightarrow> nat \<Rightarrow> nat \<Rightarrow> bool" where
  "free_run s num j \<longleftrightarrow> j + num \<le> 32768 \<and> {j..<j + num} \<inter> locked s = {}"

lemma Least_skip:
  fixes n :: nat
  assumes "start \<le> n" "\<And>j. start \<le> j \<Longrightarrow> j < n \<Longrightarrow> \<not> P j"
  shows "(LEAST j. start \<le> j \<and> P j) = (LEAST j. n \<le> j \<and> P j)"
proof -
  have "start \<le> j \<and> P j \<longleftrightarrow> n \<le> j \<and> P j" for j using assms by (meson le_trans not_le)
  then show ?thesis by simp
qed

lemma search_step_run:
  assumes s: "pm_shape s" and i: "unat index < 32768"
  shows "search_step (bm0 s, index, start, found, r) s =
    Inr (if unat index \<in> locked s then (bm0 s, index + 1, index + 1, 0, False)
         else (bm0 s, index + 1, start, found + 1, False), s)"
  using get_run[OF s i] by (simp add: bnd_Inr kern ISERROR_def BITMAP_PAGEFREE_def)

lemma search_loop:
  assumes s: "pm_shape s" and n: "unat num \<le> 32768" "num \<noteq> 0"
  shows "unat index \<le> 32768 \<Longrightarrow> unat start + unat found = unat index \<Longrightarrow> unat found \<le> unat num \<Longrightarrow>
    {unat start..<unat index} \<inter> locked s = {} \<Longrightarrow> unat start \<le> j \<Longrightarrow> free_run s (unat num) j \<Longrightarrow>
    \<exists>i t. loop (search_more num) search_step (bm0 s, index, start, found, False) s =
      Inr ((bm0 s, i, t, num, False), s) \<and>
      unat t = (LEAST j. unat start \<le> j \<and> free_run s (unat num) j)"
proof (induction "32768 - unat index" arbitrary: index start found rule: less_induct)
  case less
  have len: "ld64 (mem s) (mb_super (bm0 s) + 8) = 32768"
    using s by (simp add: pm_shape_def bitmap_len_def word_unat_eq_iff)
  have j: "j + unat num \<le> 32768" "{j..<j + unat num} \<inter> locked s = {}"
    using less.prems(6) by (simp_all add: free_run_def)
  show ?case
  proof (cases "unat found < unat num")
    case False
    then have f: "found = num" using less.prems(3) by (simp add: word_unat_eq_iff)
    have "free_run s (unat num) (unat start)"
      using less.prems(1,2,4) f by (simp add: free_run_def)
    then have "(LEAST j. unat start \<le> j \<and> free_run s (unat num) j) = unat start"
      by (intro Least_equality) auto
    then show ?thesis using f by (simp add: loop_stop)
  next
    case True
    have i: "unat index < 32768" using True less.prems(2,5) j(1) by linarith
    then have i1: "unat (index + 1) = Suc (unat index)" by (simp add: unat_word_ariths)
    have g: "search_more num (bm0 s, index, start, found, False) s"
      using True i by (simp add: word_less_nat_alt len)
    have st: "loop (search_more num) search_step (bm0 s, index, start, found, False) s =
        loop (search_more num) search_step (if unat index \<in> locked s then (bm0 s, index + 1, index + 1, 0, False)
         else (bm0 s, index + 1, start, found + 1, False)) s"
      by (rule loop_step, rule g, simp only: search_step_run[OF s i])
    show ?thesis
    proof (cases "unat index \<in> locked s")
      case False
      have f1: "unat (found + 1) = Suc (unat found)" using True n by (simp add: unat_word_ariths)
      have "{unat start..<unat (index + 1)} \<inter> locked s = {}"
        using less.prems(4) False unfolding i1 by (auto simp: less_Suc_eq)
      then have "\<exists>i t. loop (search_more num) search_step (bm0 s, index + 1, start, found + 1, False) s =
          Inr ((bm0 s, i, t, num, False), s) \<and>
          unat t = (LEAST j. unat start \<le> j \<and> free_run s (unat num) j)"
        using less.prems True i by (intro less.hyps) (simp_all add: i1 f1)
      then show ?thesis unfolding st using False by simp
    next
      case lk: True
      have no: "\<not> free_run s (unat num) k" if "unat start \<le> k" "k < unat (index + 1)" for k
      proof
        assume "free_run s (unat num) k"
        moreover have "unat index \<in> {k..<k + unat num}" using that True less.prems(2) i1 by auto
        ultimately show False using lk by (auto simp: free_run_def)
      qed
      have le: "unat (index + 1) \<le> j" using no[of j] less.prems(5,6) by (meson not_le)
      have "\<exists>i t. loop (search_more num) search_step (bm0 s, index + 1, index + 1, 0, False) s =
          Inr ((bm0 s, i, t, num, False), s) \<and>
          unat t = (LEAST j. unat (index + 1) \<le> j \<and> free_run s (unat num) j)"
        using le less.prems(6) i by (intro less.hyps) (simp_all add: i1)
      moreover have "(LEAST j. unat start \<le> j \<and> free_run s (unat num) j) =
          (LEAST j. unat (index + 1) \<le> j \<and> free_run s (unat num) j)"
        using less.prems(2) i1 by (intro Least_skip no) simp_all
      ultimately show ?thesis unfolding st using lk by simp
    qed
  qed
qed

lemma request_pages_run:
  fixes num :: u64
  defines "n \<equiv> unat num"
  assumes "pm_ok s" "num \<noteq> 0" "BYTES num \<le> free s" "free_run s n j"
    "k < 32768" "k \<notin> locked s" "k \<notin> {(LEAST j. free_run s n j)..<(LEAST j. free_run s n j) + n}"
  shows "\<exists>p s'. pm_request_pages srv num s = Inr (p, s') \<and> ISPAGEALIGNED p \<and>
    unat p div 4096 = (LEAST j. free_run s n j) \<and> pm_ok s' \<and>
    locked s' = locked s \<union> {unat p div 4096..<unat p div 4096 + n} \<and>
    locked s \<inter> {unat p div 4096..<unat p div 4096 + n} = {} \<and> pm_frame s s' \<and>
    used s' = used s + BYTES num \<and> used s' + free s' = used s + free s"
proof -
  let ?L = "LEAST j. free_run s n j"
  have sh: "pm_shape s" and f: "unat (first_free s) < 32768" "{..<unat (first_free s)} \<subseteq> locked s"
    using assms(2) by (simp_all add: pm_ok_def)
  have n: "unat num \<le> 32768" "0 < n" using assms(3,5) by (auto simp: free_run_def n_def unat_gt_0)
  have above: "unat (first_free s) \<le> i" if "free_run s n i" for i
  proof (rule ccontr)
    assume "\<not> unat (first_free s) \<le> i"
    then have "i \<in> locked s" using f(2) by auto
    moreover have "i \<in> {i..<i + n}" using n(2) by (simp add: n_def)
    ultimately show False using that unfolding free_run_def by blast
  qed
  have L: "free_run s n ?L" using assms(5) by (rule LeastI)
  have "(LEAST j. unat (first_free s) \<le> j \<and> free_run s n j) = ?L"
    using above by (metis)
  with search_loop[OF sh n(1) assms(3), of "first_free s" "first_free s" 0 j] f above assms(5)
  obtain i t where l: "loop (search_more num) search_step (bm0 s, first_free s, first_free s, 0, False) s =
      Inr ((bm0 s, i, t, num, False), s)" and t: "unat t = ?L" by (auto simp: n_def)
  have t': "unat t < 32768" using L n t by (auto simp: free_run_def)
  note p = page_address[OF t']
  have div: "unat (TOPADDR 0 t) div 4096 = ?L" using p t by simp
  have pages: "unat (PAGES (BYTES num)) = n" "BYTES num \<noteq> 0"
  proof -
    have b: "unat (BYTES num) = n * 4096" using n by (simp add: unat_BYTES n_def)
    then show "unat (PAGES (BYTES num)) = n" using n by (subst unat_PAGES) (simp_all add: n_def)
    show "BYTES num \<noteq> 0" using b n by auto
  qed
  have pr: "page_range (TOPADDR 0 t) (BYTES num) = {?L..<?L + n}" by (simp add: page_range_def div pages)
  have dis: "locked s \<inter> {?L..<?L + n} = {}" using L by (auto simp: free_run_def)
  have "unat (TOPADDR 0 t) div 4096 + unat (PAGES (BYTES num)) \<le> 32768"
    using L by (simp add: div pages free_run_def)
  from lock_pages_run[OF assms(2) pages(2) this assms(6,7), of srv] assms(8) dis obtain s' where
    r: "pm_try_lock_pages srv (TOPADDR 0 t) (BYTES num) s = Inr (True, s')" "pm_ok s'"
      "locked s' = locked s \<union> {?L..<?L + n}" "pm_frame s s'" "used s' + free s' = used s + free s"
      "used s' = used s + 4096 * of_nat (card ({?L..<?L + n} - locked s))" unfolding pr by auto
  have "{?L..<?L + n} - locked s = {?L..<?L + n}" using dis by auto
  then have u: "used s' = used s + BYTES num" using r(6) by (simp add: BYTES_def n_def mult.commute)
  have "first_free_bitmap s = bm0 s" "mb_index (mem s) (bm0 s) = 0" "mb_first_free (mem s) (bm0 s) = first_free s"
    using sh by (simp_all add: pm_shape_def first_free_def)
  then have "pm_request_pages srv num s = Inr (TOPADDR 0 t, s')" using assms(4) l r(1)
    by (simp add: pm_request_pages_def free_def[symmetric] not_less bnd_Inr kern thn_Inr)
  then show ?thesis using r u dis div p by (intro exI[of _ "TOPADDR 0 t"] exI[of _ s']) (simp add: ISPAGEALIGNED_dvd)
qed

text \<open>C12: a request for several pages is first fit: it returns the lowest run of free pages of that
  length, and locks exactly these pages.\<close>

theorem request_pages_first_fit:
  fixes num :: u64
  defines "n \<equiv> unat num"
  assumes "pm_ok s" "num \<noteq> 0" "BYTES num \<le> free s" "free_run s n j"
    "k < 32768" "k \<notin> locked s" "k \<notin> {(LEAST j. free_run s n j)..<(LEAST j. free_run s n j) + n}"
  shows "\<exists>p s'. pm_request_pages srv num s = Inr (p, s') \<and> ISPAGEALIGNED p \<and>
    unat p div 4096 = (LEAST j. free_run s n j) \<and> pm_ok s' \<and>
    locked s' = locked s \<union> {unat p div 4096..<unat p div 4096 + n} \<and>
    locked s \<inter> {unat p div 4096..<unat p div 4096 + n} = {} \<and> pm_frame s s' \<and>
    used s' = used s + BYTES num \<and> used s' + free s' = used s + free s"
  using assms(2-) unfolding n_def by (rule request_pages_run)

section \<open>A source of pages\<close>

text \<open>
  What the virtual memory manager and the heap rely on when they ask for a page: as long as the
  source is rich enough, a request returns a page that nobody has, and changes nothing the client
  can see. \<open>rich n s\<close> says that at least \<open>n\<close> more requests can be served.
\<close>

fun request_times :: "nat \<Rightarrow> ('s, addr) kern \<Rightarrow> ('s, addr list) kern" where
  "request_times 0 req = ret []"
| "request_times (Suc n) req = bnd req (\<lambda>p. bnd (request_times n req) (\<lambda>ps. ret (p # ps)))"

definition page_of :: "addr \<Rightarrow> nat" where
  "page_of p = unat p div 4096"

locale page_source =
  fixes rich :: "nat \<Rightarrow> 's \<Rightarrow> bool"
    and taken :: "'s \<Rightarrow> nat set"
    and same :: "'s \<Rightarrow> 's \<Rightarrow> bool"
    and req :: "('s, addr) kern"
  assumes request: "rich (Suc n) s \<Longrightarrow> \<exists>p s'. req s = Inr (p, s') \<and> rich n s' \<and> ISPAGEALIGNED p \<and>
      page_of p \<notin> taken s \<and> taken s' = insert (page_of p) (taken s) \<and> same s s'"
    and same_refl: "same s s"
    and same_trans: "same s t \<Longrightarrow> same t u \<Longrightarrow> same s u"
begin

lemma requests_distinct:
  "rich n s \<Longrightarrow> \<exists>ps s'. request_times n req s = Inr (ps, s') \<and> length ps = n \<and>
    (\<forall>p\<in>set ps. ISPAGEALIGNED p) \<and> distinct (map page_of ps) \<and> page_of ` set ps \<inter> taken s = {} \<and>
    taken s' = taken s \<union> page_of ` set ps \<and> same s s'"
proof (induction n arbitrary: s)
  case 0
  then show ?case by (simp add: kern same_refl)
next
  case (Suc n)
  from request[OF Suc.prems] obtain p t where p: "req s = Inr (p, t)" "rich n t" "ISPAGEALIGNED p"
    "page_of p \<notin> taken s" "taken t = insert (page_of p) (taken s)" "same s t" by blast
  from Suc.IH[OF p(2)] obtain ps s' where ps: "request_times n req t = Inr (ps, s')" "length ps = n"
    "\<forall>p\<in>set ps. ISPAGEALIGNED p" "distinct (map page_of ps)" "page_of ` set ps \<inter> taken t = {}"
    "taken s' = taken t \<union> page_of ` set ps" "same t s'" by blast
  have "request_times (Suc n) req s = Inr (p # ps, s')" by (simp add: bnd_Inr p(1) ps(1) kern)
  moreover have "page_of p \<notin> page_of ` set ps" using ps(5) p(5) by auto
  moreover have "page_of ` set ps \<inter> taken s = {}" using ps(5) p(5) by auto
  ultimately show ?case using p ps same_trans[OF p(6) ps(7)]
    by (intro exI[of _ "p # ps"] exI[of _ s']) auto
qed

end

definition pm_rich :: "nat \<Rightarrow> kst \<Rightarrow> bool" where
  "pm_rich n s \<longleftrightarrow> pm_ok s \<and> card (locked s) + n < 32768 \<and> n * 4096 \<le> unat (free s)"

lemma another_free:
  assumes "pm_shape s" "card (locked s) + 1 < 32768"
  obtains k where "k < 32768" "k \<notin> locked s" "k \<noteq> i"
proof -
  have "card (insert i (locked s)) < card {..<32768::nat}"
    using assms(2) card_insert_le_m1[of "card (locked s) + 1" "locked s" i]
    by (simp add: card_insert_if)
  then have "\<not> {..<32768} \<subseteq> insert i (locked s)" using card_mono[of "insert i (locked s)" "{..<32768}"] by auto
  then show thesis using that by blast
qed

interpretation pages: page_source pm_rich locked pm_frame "pm_request_page srv" for srv
proof unfold_locales
  fix n s
  assume s: "pm_rich (Suc n) s"
  then have ok: "pm_ok s" and c: "card (locked s) + 1 < 32768" and f: "Suc n * 4096 \<le> unat (free s)"
    by (simp_all add: pm_rich_def)
  have ff: "unat (first_free s) < 32768" "unat (first_free s) \<notin> locked s" using ok by (simp_all add: pm_ok_def)
  have le: "4096 \<le> free s" using f by (simp add: word_le_nat_alt)
  obtain k where k: "k < 32768" "k \<notin> locked s" "k \<noteq> unat (first_free s)"
    using another_free[OF pm_ok_shape[OF ok] c] by metis
  from request_run[OF ok le k, of srv] obtain s' where
    r: "pm_request_page srv s = Inr (TOPADDR 0 (first_free s), s')" "pm_ok s'"
    "locked s' = insert (unat (first_free s)) (locked s)" "used s' = used s + 4096" "free s' = free s - 4096"
    "pm_frame s s'" by metis
  note p = page_address[OF ff(1)]
  have "unat (free s') = unat (free s) - 4096" using le by (simp add: r unat_sub)
  moreover have "n * 4096 \<le> unat (free s) - 4096" using f by simp
  ultimately have "pm_rich n s'" using r(2,3) s ff by (simp add: pm_rich_def)
  moreover have "page_of (TOPADDR 0 (first_free s)) = unat (first_free s)" by (simp add: page_of_def p)
  moreover have "ISPAGEALIGNED (TOPADDR 0 (first_free s))" by (simp add: ISPAGEALIGNED_dvd p)
  ultimately show "\<exists>p s'. pm_request_page srv s = Inr (p, s') \<and> pm_rich n s' \<and> ISPAGEALIGNED p \<and>
      page_of p \<notin> locked s \<and> locked s' = insert (page_of p) (locked s) \<and> pm_frame s s'"
    using r ff by (intro exI[of _ "TOPADDR 0 (first_free s)"] exI[of _ s']) simp
next
  fix s show "pm_frame s s" by simp
next
  fix s t u show "pm_frame s t \<Longrightarrow> pm_frame t u \<Longrightarrow> pm_frame s u" by (rule pm_frame_trans)
qed

text \<open>C11: however many pages are requested one after the other, as long as there are free pages, all
  the pages returned are different, and none of them was locked before.\<close>

theorem requests_never_repeat:
  assumes "pm_rich n s"
  shows "\<exists>ps s'. request_times n (pm_request_page srv) s = Inr (ps, s') \<and> length ps = n \<and>
    (\<forall>p\<in>set ps. ISPAGEALIGNED p) \<and> distinct (map page_of ps) \<and> page_of ` set ps \<inter> locked s = {} \<and>
    locked s' = locked s \<union> page_of ` set ps \<and> pm_frame s s'"
  using assms by (rule pages.requests_distinct)

end
