(* ===== verification/Pm_calls.thy ===== *)
theory Pm_calls
  imports Pm_facts
begin

text \<open>
  The interface of the physical memory manager (\<open>mm/pm.h\<close>) as a whole: an abstract allocator, whose state is the set of locked pages
  below 128 MB, and the proof that any sequence of allowed calls behaves like it.
\<close>

section \<open>Calls\<close>

datatype pm_call = Request_page | Request_pages u64 | Request_bytes u64 | Lock_page addr | Lock_pages addr u64 | Lock_range addr addr
  | Release_page addr | Release_pages addr u64 | Release_range addr addr

datatype pm_answer = Page addr | Done bool

fun pm_perform :: "services \<Rightarrow> pm_call \<Rightarrow> (kst, pm_answer) kern" where
  "pm_perform srv Request_page = bnd (pm_request_page srv) (\<lambda>p. ret (Page p))"
| "pm_perform srv (Request_pages n) = bnd (pm_request_pages srv n) (\<lambda>p. ret (Page p))"
| "pm_perform srv (Request_bytes b) = bnd (pm_request_bytes srv b) (\<lambda>p. ret (Page p))"
| "pm_perform srv (Lock_page p) = bnd (pm_try_lock_page srv p) (\<lambda>ok. ret (Done ok))"
| "pm_perform srv (Lock_pages p b) = bnd (pm_try_lock_pages srv p b) (\<lambda>ok. ret (Done ok))"
| "pm_perform srv (Lock_range p e) = bnd (pm_try_lock_range srv p e) (\<lambda>ok. ret (Done ok))"
| "pm_perform srv (Release_page p) = bnd (pm_try_release_page srv p) (\<lambda>ok. ret (Done ok))"
| "pm_perform srv (Release_pages p b) = bnd (pm_try_release_pages srv p b) (\<lambda>ok. ret (Done ok))"
| "pm_perform srv (Release_range p e) = bnd (pm_try_release_range srv p e) (\<lambda>ok. ret (Done ok))"

fun pm_perform_all :: "services \<Rightarrow> pm_call list \<Rightarrow> (kst, pm_answer list) kern" where
  "pm_perform_all srv [] = ret []"
| "pm_perform_all srv (c # cs) = bnd (pm_perform srv c) (\<lambda>a. bnd (pm_perform_all srv cs) (\<lambda>as. ret (a # as)))"

section \<open>The abstract allocator\<close>

text \<open>Calls with other names for the same thing.\<close>

definition lock_call :: "addr \<Rightarrow> u64 \<Rightarrow> pm_call" where
  "lock_call p b = (if b = 0 then Lock_page p else Lock_pages p b)"

definition release_call :: "addr \<Rightarrow> u64 \<Rightarrow> pm_call" where
  "release_call p b = (if b = 0 then Release_page p else Release_pages p b)"

fun plain :: "pm_call \<Rightarrow> pm_call" where
  "plain (Request_bytes b) = Request_pages (PAGEALIGNUP b div PAGE_SIZE)"
| "plain (Lock_range p e) = lock_call p (e - p)"
| "plain (Release_range p e) = release_call p (e - p)"
| "plain (Lock_pages p b) = lock_call p b"
| "plain (Release_pages p b) = release_call p b"
| "plain c = c"

definition run_of :: "nat set \<Rightarrow> nat \<Rightarrow> nat \<Rightarrow> bool" where
  "run_of L n j \<longleftrightarrow> j + n \<le> 32768 \<and> {j..<j + n} \<inter> L = {}"

definition first_run :: "nat set \<Rightarrow> nat \<Rightarrow> nat" where
  "first_run L n = (LEAST j. run_of L n j)"

text \<open>The pages of a call, what happens to the locked pages \<open>L\<close>, and the answer.\<close>

fun call_pages :: "pm_call \<Rightarrow> nat set \<Rightarrow> nat set" where
  "call_pages Request_page L = {LEAST n. n \<notin> L}"
| "call_pages (Request_pages n) L = {first_run L (unat n)..<first_run L (unat n) + unat n}"
| "call_pages (Lock_page p) L = {unat p div 4096}"
| "call_pages (Lock_pages p b) L = page_range p b"
| "call_pages (Release_page p) L = {unat p div 4096}"
| "call_pages (Release_pages p b) L = page_range p b"
| "call_pages c L = {}"

fun is_release :: "pm_call \<Rightarrow> bool" where
  "is_release (Release_page p) = True"
| "is_release (Release_pages p b) = True"
| "is_release c = False"

definition next_locked :: "pm_call \<Rightarrow> nat set \<Rightarrow> nat set" where
  "next_locked c L = (if is_release c then L - call_pages c L else L \<union> call_pages c L)"

fun call_answer :: "pm_call \<Rightarrow> nat set \<Rightarrow> pm_answer" where
  "call_answer Request_page L = Page (of_nat ((LEAST n. n \<notin> L) * 4096))"
| "call_answer (Request_pages n) L = Page (of_nat (first_run L (unat n) * 4096))"
| "call_answer (Lock_page p) L = Done (unat p div 4096 \<notin> L)"
| "call_answer (Lock_pages p b) L = Done (L \<inter> page_range p b = {})"
| "call_answer (Release_page p) L = Done (unat p div 4096 \<in> L)"
| "call_answer (Release_pages p b) L = Done True"
| "call_answer c L = Done False"

text \<open>What a client has to see to: the pages are below 128 MB, what it requests is there, and at least one page stays free.\<close>

definition left_bytes :: "u64 \<Rightarrow> nat set \<Rightarrow> u64" where
  "left_bytes mb L = mb - 4096 * of_nat (card L)"

definition spare :: "nat set \<Rightarrow> bool" where
  "spare L \<longleftrightarrow> (\<exists>k<32768. k \<notin> L)"

fun call_allowed :: "u64 \<Rightarrow> pm_call \<Rightarrow> nat set \<Rightarrow> bool" where
  "call_allowed mb Request_page L \<longleftrightarrow> 4096 \<le> left_bytes mb L"
| "call_allowed mb (Request_pages n) L \<longleftrightarrow> n \<noteq> 0 \<and> BYTES n \<le> left_bytes mb L \<and> (\<exists>j. run_of L (unat n) j)"
| "call_allowed mb (Lock_page p) L \<longleftrightarrow> unat p < 134217728"
| "call_allowed mb (Lock_pages p b) L \<longleftrightarrow> b \<noteq> 0 \<and> unat p div 4096 + unat (PAGES b) \<le> 32768"
| "call_allowed mb (Release_page p) L \<longleftrightarrow> unat p < 134217728"
| "call_allowed mb (Release_pages p b) L \<longleftrightarrow> b \<noteq> 0 \<and> unat p div 4096 + unat (PAGES b) \<le> 32768"
| "call_allowed mb c L \<longleftrightarrow> False"

fun calls_allowed :: "u64 \<Rightarrow> pm_call list \<Rightarrow> nat set \<Rightarrow> bool" where
  "calls_allowed mb [] L \<longleftrightarrow> True"
| "calls_allowed mb (c # cs) L \<longleftrightarrow> call_allowed mb (plain c) L \<and> spare (next_locked (plain c) L) \<and> calls_allowed mb cs (next_locked (plain c) L)"

fun calls_answers :: "pm_call list \<Rightarrow> nat set \<Rightarrow> pm_answer list" where
  "calls_answers [] L = []"
| "calls_answers (c # cs) L = call_answer (plain c) L # calls_answers cs (next_locked (plain c) L)"

fun locked_after :: "pm_call list \<Rightarrow> nat set \<Rightarrow> nat set" where
  "locked_after [] L = L"
| "locked_after (c # cs) L = locked_after cs (next_locked (plain c) L)"

section \<open>Refinement\<close>

text \<open>A state of the manager with \<open>L\<close> locked out of \<open>mb\<close> bytes.\<close>

definition pm_state :: "kst \<Rightarrow> nat set \<Rightarrow> u64 \<Rightarrow> bool" where
  "pm_state s L mb \<longleftrightarrow> pm_ok s \<and> locked s = L \<and> used s = 4096 * of_nat (card L) \<and> used s + free s = mb"

lemma plain_perform: "pm_perform srv (plain c) = pm_perform srv c"
  by (cases c rule: plain.cases)
    (simp_all add: lock_call_def release_call_def pm_request_bytes_def pm_try_lock_range_def pm_try_release_range_def pm_try_lock_pages_def pm_try_release_pages_def)

lemma spareE: "spare (L \<union> A) \<Longrightarrow> (\<And>k. k < 32768 \<Longrightarrow> k \<notin> L \<Longrightarrow> k \<notin> A \<Longrightarrow> thesis) \<Longrightarrow> thesis"
  by (auto simp: spare_def)

lemma state_facts:
  assumes "pm_state s L mb"
  shows "pm_ok s" "locked s = L" "finite L" "free s = left_bytes mb L" "used s = 4096 * of_nat (card L)" "used s + free s = mb"
proof -
  show p: "pm_ok s" "locked s = L" "used s = 4096 * of_nat (card L)" "used s + free s = mb" using assms unfolding pm_state_def by blast+
  show "finite L" using finite_locked[of s] p(2) by simp
  show "free s = left_bytes mb L" using p(3,4) by (simp add: left_bytes_def algebra_simps)
qed

lemma more_used: "finite L \<Longrightarrow> finite A \<Longrightarrow> 4096 * of_nat (card (L \<union> A)) = 4096 * of_nat (card L) + 4096 * (of_nat (card (A - L)) :: u64)"
  using card_Un_disjoint[of L "A - L"] by (simp add: Un_Diff_cancel algebra_simps Int_Diff)

lemma fewer_used: "finite L \<Longrightarrow> 4096 * of_nat (card L) = 4096 * of_nat (card (L - A)) + 4096 * (of_nat (card (A \<inter> L)) :: u64)"
  using card_Int_Diff[of L A] by (simp add: algebra_simps Int_commute)

lemma word_of_unat: "unat p = k \<Longrightarrow> p = of_nat k" for p :: u64
  by auto

lemma step_done:
  assumes "pm_state s L mb" "pm_perform srv c s = Inr (call_answer c L, s')" "pm_ok s'" "locked s' = next_locked c L" "pm_frame s s'"
    "used s' = 4096 * of_nat (card (next_locked c L))" "used s' + free s' = used s + free s"
  shows "\<exists>s'. pm_perform srv c s = Inr (call_answer c L, s') \<and> pm_state s' (next_locked c L) mb \<and> pm_frame s s'"
  using assms unfolding pm_state_def by auto

lemma request_page_step:
  assumes s: "pm_state s L mb" and a: "call_allowed mb Request_page L" "spare (next_locked Request_page L)"
  shows "\<exists>s'. pm_perform srv Request_page s = Inr (call_answer Request_page L, s') \<and> pm_state s' (next_locked Request_page L) mb \<and> pm_frame s s'"
proof -
  note f = state_facts[OF s]
  have ff: "unat (first_free s) < 32768" "unat (first_free s) = (LEAST n. n \<notin> L)" "(LEAST n. n \<notin> L) \<notin> L"
    using f(1) ok_first_free[OF f(1)] by (simp_all add: pm_ok_def f(2))
  obtain k where k: "k < 32768" "k \<notin> locked s" "k \<noteq> unat (first_free s)"
    by (rule spareE[of L "{LEAST n. n \<notin> L}"]) (use a(2) ff(2) f(2) in \<open>auto simp: next_locked_def\<close>)
  have fr: "4096 \<le> free s" using a(1) f(4) by simp
  obtain s' where r: "pm_request_page srv s = Inr (TOPADDR 0 (first_free s), s')" "pm_ok s'"
    "locked s' = insert (unat (first_free s)) (locked s)" "used s' = used s + 4096" "free s' = free s - 4096" "pm_frame s s'"
    by (rule request_run[OF f(1) fr k, of srv])
  have "unat (TOPADDR 0 (first_free s)) = (LEAST n. n \<notin> L) * 4096" using page_address(1)[OF ff(1)] ff(2) by simp
  then have "TOPADDR 0 (first_free s) = of_nat ((LEAST n. n \<notin> L) * 4096)" by (rule word_of_unat)
  then have run: "pm_perform srv Request_page s = Inr (call_answer Request_page L, s')" using r(1) by (simp add: bnd_Inr kern)
  have l: "locked s' = next_locked Request_page L" using r(3) ff(2) f(2) by (simp add: next_locked_def)
  have "used s' = 4096 * of_nat (card (next_locked Request_page L))" using r(4) f(3,5) ff(3) by (simp add: next_locked_def distrib_left)
  moreover have "used s' + free s' = used s + free s" using r(4,5) by simp
  ultimately show ?thesis using step_done[OF s run r(2) l r(6)] by blast
qed

lemma request_pages_step:
  assumes s: "pm_state s L mb" and a: "call_allowed mb (Request_pages n) L" "spare (next_locked (Request_pages n) L)"
  shows "\<exists>s'. pm_perform srv (Request_pages n) s = Inr (call_answer (Request_pages n) L, s') \<and> pm_state s' (next_locked (Request_pages n) L) mb \<and> pm_frame s s'"
proof -
  note f = state_facts[OF s]
  have R: "run_of L m = free_run s m" for m by (simp add: fun_eq_iff run_of_def free_run_def f(2))
  have L: "first_run L m = (LEAST j. free_run s m j)" for m by (simp add: first_run_def R)
  obtain j where j: "free_run s (unat n) j" using a(1) R by auto
  let ?A = "{first_run L (unat n)..<first_run L (unat n) + unat n}"
  obtain k where k: "k < 32768" "k \<notin> locked s" "k \<notin> ?A"
    by (rule spareE[of L ?A]) (use a(2) f(2) in \<open>auto simp: next_locked_def\<close>)
  obtain p s' where r: "pm_request_pages srv n s = Inr (p, s')" "ISPAGEALIGNED p" "unat p div 4096 = first_run L (unat n)" "pm_ok s'"
    "locked s' = locked s \<union> {unat p div 4096..<unat p div 4096 + unat n}" "locked s \<inter> {unat p div 4096..<unat p div 4096 + unat n} = {}"
    "pm_frame s s'" "used s' = used s + BYTES n" "used s' + free s' = used s + free s"
    using request_pages_run[OF f(1) _ _ j k(1,2), of srv] a(1) k(3) f(4) unfolding L by auto
  have "unat p = first_run L (unat n) * 4096" using r(2,3) by (auto simp: ISPAGEALIGNED_dvd)
  then have p: "p = of_nat (first_run L (unat n) * 4096)" by (rule word_of_unat)
  have "card (L \<union> ?A) = card L + unat n" using r(3,6) f(2,3) by (subst card_Un_disjoint) auto
  then have "used s' = 4096 * of_nat (card (L \<union> ?A))" using r(8) f(5) by (simp add: BYTES_def PAGE_SIZE_def algebra_simps)
  moreover have run: "pm_perform srv (Request_pages n) s = Inr (call_answer (Request_pages n) L, s')" using r(1) by (simp add: bnd_Inr kern p)
  moreover have l: "locked s' = next_locked (Request_pages n) L" using r(3,5) f(2) by (simp add: next_locked_def)
  ultimately show ?thesis using step_done[OF s run r(4) l r(7)] r(9) by (simp add: next_locked_def)
qed

lemma lock_page_step:
  assumes s: "pm_state s L mb" and a: "call_allowed mb (Lock_page p) L" "spare (next_locked (Lock_page p) L)"
  shows "\<exists>s'. pm_perform srv (Lock_page p) s = Inr (call_answer (Lock_page p) L, s') \<and> pm_state s' (next_locked (Lock_page p) L) mb \<and> pm_frame s s'"
proof -
  note f = state_facts[OF s]
  have p: "unat p < 134217728" using a(1) by simp
  obtain k where k: "k < 32768" "k \<notin> locked s" "k \<noteq> unat (TOINDEX p)"
    by (rule spareE[of L "{unat p div 4096}"]) (use a(2) f(2) index_low[OF p] in \<open>auto simp: next_locked_def\<close>)
  obtain s' where r: "pm_try_lock_page srv p s = Inr (unat p div 4096 \<notin> L, s')" "pm_ok s'" "locked s' = insert (unat p div 4096) L" "pm_frame s s'"
    "used s' = used s + (if unat p div 4096 \<in> L then 0 else 4096)" "free s' = free s - (if unat p div 4096 \<in> L then 0 else 4096)"
    using lock_page_run[OF f(1) p k, of srv] unfolding index_low[OF p] f(2) by blast
  have run: "pm_perform srv (Lock_page p) s = Inr (call_answer (Lock_page p) L, s')" using r(1) by (simp add: bnd_Inr kern)
  have l: "locked s' = next_locked (Lock_page p) L" using r(3) by (simp add: next_locked_def)
  have "used s' = 4096 * of_nat (card (next_locked (Lock_page p) L))" using r(5) f(3,5) by (simp add: next_locked_def card_insert_if distrib_left)
  moreover have "used s' + free s' = used s + free s" using r(5,6) by simp
  ultimately show ?thesis using step_done[OF s run r(2) l r(4)] by blast
qed

lemma lock_pages_step:
  assumes s: "pm_state s L mb" and a: "call_allowed mb (Lock_pages p b) L" "spare (next_locked (Lock_pages p b) L)"
  shows "\<exists>s'. pm_perform srv (Lock_pages p b) s = Inr (call_answer (Lock_pages p b) L, s') \<and> pm_state s' (next_locked (Lock_pages p b) L) mb \<and> pm_frame s s'"
proof -
  note f = state_facts[OF s]
  obtain k where k: "k < 32768" "k \<notin> locked s" "k \<notin> page_range p b"
    by (rule spareE[of L "page_range p b"]) (use a(2) f(2) in \<open>auto simp: next_locked_def\<close>)
  obtain s' where r: "pm_try_lock_pages srv p b s = Inr (L \<inter> page_range p b = {}, s')" "pm_ok s'" "locked s' = L \<union> page_range p b" "pm_frame s s'"
    "used s' = used s + 4096 * of_nat (card (page_range p b - L))" "used s' + free s' = used s + free s"
    using lock_pages_run[OF f(1) _ _ k, of srv] a(1) unfolding f(2) by auto
  have fin: "finite (page_range p b)" by (simp add: page_range_def)
  have run: "pm_perform srv (Lock_pages p b) s = Inr (call_answer (Lock_pages p b) L, s')" using r(1) by (simp add: bnd_Inr kern)
  have l: "locked s' = next_locked (Lock_pages p b) L" using r(3) by (simp add: next_locked_def)
  have "used s' = 4096 * of_nat (card (next_locked (Lock_pages p b) L))" using r(5) f(5) more_used[OF f(3) fin] by (simp add: next_locked_def)
  then show ?thesis using step_done[OF s run r(2) l r(4)] r(6) by blast
qed

lemma release_page_step:
  assumes s: "pm_state s L mb" and a: "call_allowed mb (Release_page p) L" "spare (next_locked (Release_page p) L)"
  shows "\<exists>s'. pm_perform srv (Release_page p) s = Inr (call_answer (Release_page p) L, s') \<and> pm_state s' (next_locked (Release_page p) L) mb \<and> pm_frame s s'"
proof -
  note f = state_facts[OF s]
  have p: "unat p < 134217728" using a(1) by simp
  obtain s' where r: "pm_try_release_page srv p s = Inr (unat p div 4096 \<in> L, s')" "pm_ok s'" "locked s' = L - {unat p div 4096}" "pm_frame s s'"
    "used s' = used s - (if unat p div 4096 \<in> L then 4096 else 0)" "free s' = free s + (if unat p div 4096 \<in> L then 4096 else 0)"
    using release_run[OF f(1) p, of srv] unfolding index_low[OF p] f(2) by blast
  have run: "pm_perform srv (Release_page p) s = Inr (call_answer (Release_page p) L, s')" using r(1) by (simp add: bnd_Inr kern)
  have l: "locked s' = next_locked (Release_page p) L" using r(3) by (simp add: next_locked_def)
  have "used s' = 4096 * of_nat (card (next_locked (Release_page p) L))"
    using r(5) f(5) fewer_used[OF f(3), of "{unat p div 4096}"] by (simp add: next_locked_def split: if_splits)
  moreover have "used s' + free s' = used s + free s" using r(5,6) by simp
  ultimately show ?thesis using step_done[OF s run r(2) l r(4)] by blast
qed

lemma release_pages_step:
  assumes s: "pm_state s L mb" and a: "call_allowed mb (Release_pages p b) L" "spare (next_locked (Release_pages p b) L)"
  shows "\<exists>s'. pm_perform srv (Release_pages p b) s = Inr (call_answer (Release_pages p b) L, s') \<and> pm_state s' (next_locked (Release_pages p b) L) mb \<and> pm_frame s s'"
proof -
  note f = state_facts[OF s]
  obtain s' where r: "pm_try_release_pages srv p b s = Inr (True, s')" "pm_ok s'" "locked s' = L - page_range p b" "pm_frame s s'"
    "used s = used s' + 4096 * of_nat (card (page_range p b \<inter> L))" "used s' + free s' = used s + free s"
    using release_pages_run[OF f(1), of b p srv] a(1) unfolding f(2) by auto
  have run: "pm_perform srv (Release_pages p b) s = Inr (call_answer (Release_pages p b) L, s')" using r(1) by (simp add: bnd_Inr kern)
  have l: "locked s' = next_locked (Release_pages p b) L" using r(3) by (simp add: next_locked_def)
  have "4096 * of_nat (card L) = 4096 * of_nat (card (L - page_range p b)) + 4096 * (of_nat (card (page_range p b \<inter> L)) :: u64)" by (rule fewer_used[OF f(3)])
  then have "used s' = 4096 * of_nat (card (next_locked (Release_pages p b) L))" using r(5) f(5) by (simp only: next_locked_def) simp
  then show ?thesis using step_done[OF s run r(2) l r(4)] r(6) by blast
qed

lemma call_step:
  assumes "pm_state s L mb" "call_allowed mb c L" "spare (next_locked c L)"
  shows "\<exists>s'. pm_perform srv c s = Inr (call_answer c L, s') \<and> pm_state s' (next_locked c L) mb \<and> pm_frame s s'"
  using assms request_page_step request_pages_step lock_page_step lock_pages_step release_page_step release_pages_step
  by (cases c; simp; metis)

lemma calls_run:
  assumes "pm_state s L mb" "calls_allowed mb cs L"
  shows "\<exists>s'. pm_perform_all srv cs s = Inr (calls_answers cs L, s') \<and> pm_state s' (locked_after cs L) mb \<and> pm_frame s s'"
  using assms
proof (induction cs arbitrary: s L)
  case Nil
  then show ?case by (simp add: kern)
next
  case (Cons c cs)
  from call_step[OF Cons.prems(1), of "plain c" srv] Cons.prems(2) obtain t where
    t: "pm_perform srv c s = Inr (call_answer (plain c) L, t)" "pm_state t (next_locked (plain c) L) mb" "pm_frame s t"
    by (auto simp: plain_perform)
  from Cons.IH[OF t(2)] Cons.prems(2) obtain s' where
    s': "pm_perform_all srv cs t = Inr (calls_answers cs (next_locked (plain c) L), s')" "pm_state s' (locked_after (c # cs) L) mb" "pm_frame t s'"
    by auto
  have "pm_perform_all srv (c # cs) s = Inr (calls_answers (c # cs) L, s')" by (simp add: bnd_Inr t(1) s'(1) kern)
  then show ?case using s'(2) pm_frame_trans[OF t(3) s'(3)] by blast
qed

text \<open>C4: The physical memory manager is an allocator of sets of pages. From a well-formed state, any sequence of requests, locks and releases
  below 128 MB, in which every request can be met and one page stays free, runs without a fault, gives the answers of the abstract
  allocator, and ends in a well-formed state: the locked pages are those of the abstract allocator, the counters agree with them, and no
  memory outside the manager has changed.\<close>

theorem pm_is_an_allocator:
  assumes "pm_state s L mb" "calls_allowed mb cs L"
  shows "\<exists>s'. pm_perform_all srv cs s = Inr (calls_answers cs L, s') \<and> pm_state s' (locked_after cs L) mb \<and> pm_frame s s'"
  using assms by (rule calls_run)

end
