(* ===== verification/Pm_demo.thy ===== *)
theory Pm_demo
  imports Pm_calls
begin

text \<open>
  A concrete state of the physical memory manager, with no page locked, on which the properties of
  \<open>Pm_facts\<close> and \<open>Pm_calls\<close> are applied.
\<close>

definition demo_symbols :: symbols where
  "demo_symbols = \<lparr>HIGHER_HALF = 0xffffffff80000000, LAYOUT_PADDR_START = 0x10000, LAYOUT_PADDR_END = 0x20000,
     LAYOUT_VADDR_START = 0xffffffff80010000, LAYOUT_VADDR_END = 0xffffffff80020000,
     LAYOUT_TEXT_START = 0xffffffff80012000, LAYOUT_TEXT_END = 0xffffffff80014000,
     LAYOUT_RODATA_START = 0xffffffff80014000, LAYOUT_RODATA_END = 0xffffffff80016000,
     LAYOUT_DATA_START = 0xffffffff80016000, LAYOUT_DATA_END = 0xffffffff80020000,
     a_K = 0x7000, a_mem_info = 0x5000, a_mem_bitmaps = 0x1000, a_mem_bitmap0 = 0x2000,
     a_pages_bitmap0 = 0x3000, a_tmp_pt = 0xffffffff80018000, a_slabs = 0x8000\<rparr>"

definition demo_memory :: memory where
  "demo_memory = st64 0x5008 0x8000000 (st64 0x2038 0x3000 (st64 0x2030 32768 (st64 0x2028 32768
     (st64 0x2020 4096 (st64 0x2008 0x1000 (st64 0x2000 0x1000 (st64 0x1008 0x2000 (st64 0x1000 0x2000
       (\<lambda>_. 0)))))))))"

definition demo_state :: kst where
  "demo_state = \<lparr>mem = demo_memory, sym = demo_symbols, first_free_bitmap = 0x2000, next_bitmap_page = 0,
     first_free_tmp_index = 0, kpml4 = 0, frames = (\<lambda>_ _. 0), cr3 = 0, invalidated = [], messages = []\<rparr>"

lemma ld64_blank: "ld64 (\<lambda>_. 0) a = 0"
  by (rule ld64_zero) simp

lemma demo_reads:
  "ld64 demo_memory 0x1000 = 0x2000" "ld64 demo_memory 0x1008 = 0x2000" "ld64 demo_memory 0x2000 = 0x1000"
  "ld64 demo_memory 0x2008 = 0x1000" "ld64 demo_memory 0x2010 = 0" "ld64 demo_memory 0x2018 = 0"
  "ld64 demo_memory 0x2020 = 4096" "ld64 demo_memory 0x2028 = 32768" "ld64 demo_memory 0x2030 = 32768"
  "ld64 demo_memory 0x2038 = 0x3000" "ld64 demo_memory 0x5000 = 0" "ld64 demo_memory 0x5008 = 0x8000000"
  by (simp_all add: demo_memory_def ld64_st64_sep sep_def ld64_blank)

lemma demo_map: "agree 0x3000 4096 (\<lambda>_. 0) demo_memory"
  unfolding demo_memory_def
  by (rule agree_trans[OF _ agree_st64], rule agree_trans[OF _ agree_st64], rule agree_trans[OF _ agree_st64],
      rule agree_trans[OF _ agree_st64], rule agree_trans[OF _ agree_st64], rule agree_trans[OF _ agree_st64],
      rule agree_trans[OF _ agree_st64], rule agree_trans[OF _ agree_st64], rule agree_st64)
    (simp_all add: sep_def)

lemma demo_bits: "bitmap_bits 0x2020 demo_memory = {}"
proof -
  have "\<not> bit_at demo_memory 0x3000 i" if "i < 32768" for i
  proof -
    have "(of_nat (i div 8) :: u64) < 4096"
      using that by (simp add: word_less_nat_alt unat_of_nat take_bit_nat_eq_self)
    then show ?thesis using demo_map by (simp add: bit_at_def agree_def)
  qed
  then show ?thesis by (auto simp: bitmap_bits_def bitmap_len_def demo_reads)
qed

lemma demo_view: "locked demo_state = {}" "first_free demo_state = 0" "free demo_state = 0x8000000"
  "used demo_state = 0" "bm0 demo_state = 0x2000"
  by (simp_all add: demo_state_def locked_def first_free_def free_def used_def bm0_def mb_super_def demo_bits
      mb_first_free_def mi_free_def mi_used_def demo_reads demo_symbols_def)

lemma demo_ok: "pm_ok demo_state"
proof -
  have "bitmap_wf 0x2020 demo_memory"
    by (simp add: bitmap_wf_def bitmap_len_def demo_bits demo_reads sep_def drop_bit_eq_div)
  moreover have "ring demo_memory 0x1000 [0x2000]"
    by (simp add: ring_def apart_def lnext_def lprev_def demo_reads sep_def)
  ultimately have "pm_shape demo_state"
    by (simp add: pm_shape_def statics_apart_def sep_def demo_state_def demo_symbols_def bm0_def mb_super_def
        mb_index_def bitmap_len_def demo_reads)
  then show ?thesis by (simp add: pm_ok_def demo_view)
qed

lemma demo_rich: "pm_rich 3 demo_state"
  by (simp add: pm_rich_def demo_ok demo_view)

text \<open>The services that the properties leave open; with one bitmap they are never called.\<close>

definition no_services :: services where
  "no_services = \<lparr>alloc = (\<lambda>_. halt TooDeep), request = halt TooDeep\<rparr>"

section \<open>The properties on the concrete state\<close>

lemma page_number_roundtrip_witness: "TOBITMAP (TOPADDR 3 7) = 3 \<and> TOINDEX (TOPADDR 3 7) = 7"
  using page_number_roundtrip[of 0 3 7] by simp

lemma lock_page_effect_witness:
  "\<exists>s'. pm_try_lock_page no_services 0x5000 demo_state = Inr (True, s') \<and> locked s' = {5}"
  using lock_page_effect[of demo_state "0x5000" 0 no_services] by (auto simp: demo_ok demo_view unat_TOINDEX)

lemma release_page_effect_witness:
  "\<exists>s'. pm_try_release_page no_services 0x5000 demo_state = Inr (False, s') \<and> locked s' = {}"
  using release_page_effect[of demo_state "0x5000" no_services] by (auto simp: demo_ok demo_view)

lemma request_page_effect_witness:
  "\<exists>p s'. pm_request_page no_services demo_state = Inr (p, s') \<and> unat p = 0 \<and> locked s' = {0}"
proof -
  have "(LEAST n::nat. True) = 0" by (rule Least_equality) simp_all
  then show ?thesis using request_page_effect[of demo_state 1 no_services] by (auto simp: demo_ok demo_view)
qed

lemma request_pages_first_fit_witness:
  "\<exists>p s'. pm_request_pages no_services 2 demo_state = Inr (p, s') \<and> unat p div 4096 = 0 \<and> locked s' = {0, 1}"
proof -
  have run: "free_run demo_state 2 0" by (simp add: free_run_def demo_view)
  then have "(LEAST j. free_run demo_state 2 j) = 0" by (intro Least_equality) simp_all
  moreover have "{0..<2::nat} = {0, 1}" by auto
  ultimately show ?thesis
    using request_pages_first_fit[of demo_state 2 0 5 no_services] run
    by (auto simp: demo_ok demo_view BYTES_def)
qed

lemma requests_never_repeat_witness:
  "\<exists>ps s'. request_times 3 (pm_request_page no_services) demo_state = Inr (ps, s') \<and> length ps = 3 \<and>
     distinct (map page_of ps)"
  using requests_never_repeat[OF demo_rich, of no_services] by blast

abbreviation demo_calls :: "pm_call list" where
  "demo_calls \<equiv> [Request_page, Lock_range 0x3000 0x5000, Request_bytes 0x1800, Release_page 0, Release_pages 0x7000 0x1000]"

lemma demo_steps:
  "next_locked Request_page {} = {0}" "next_locked (Lock_pages 0x3000 0x2000) {0} = {0, 3, 4}" "next_locked (Request_pages 2) {0, 3, 4} = {0, 1, 2, 3, 4}"
  "next_locked (Release_page 0) {0, 1, 2, 3, 4} = {1, 2, 3, 4}" "next_locked (Release_pages 0x7000 0x1000) {1, 2, 3, 4} = {1, 2, 3, 4}"
  "(LEAST n :: nat. n \<notin> {}) = 0" "first_run {0, 3, 4} 2 = 1" "page_range 0x3000 0x2000 = {3, 4}"
proof -
  have r: "run_of {0, 3, 4} 2 1" "\<not> run_of {0, 3, 4} 2 0" by (auto simp: run_of_def)
  have "first_run {0, 3, 4} 2 = 1"
    unfolding first_run_def
  proof (rule Least_equality)
    fix y assume y: "run_of {0, 3, 4} 2 y"
    then show "1 \<le> y" using r(2) by (cases y) simp_all
  qed (rule r)
  then show f: "first_run {0, 3, 4} 2 = 1" .
  show l: "(LEAST n :: nat. n \<notin> {}) = 0" by (rule Least_equality) simp_all
  show p: "page_range 0x3000 0x2000 = {3, 4}" by (auto simp: page_range_def unat_PAGES)
  have q: "page_range 0x7000 0x1000 = {7}" by (auto simp: page_range_def unat_PAGES)
  show "next_locked Request_page {} = {0}" using l by (simp add: next_locked_def)
  show "next_locked (Lock_pages 0x3000 0x2000) {0} = {0, 3, 4}" by (simp add: next_locked_def p insert_commute)
  show "next_locked (Request_pages 2) {0, 3, 4} = {0, 1, 2, 3, 4}" using f by (auto simp: next_locked_def)
  show "next_locked (Release_page 0) {0, 1, 2, 3, 4} = {1, 2, 3, 4}" by (simp add: next_locked_def)
  show "next_locked (Release_pages 0x7000 0x1000) {1, 2, 3, 4} = {1, 2, 3, 4}" by (simp add: next_locked_def q)
qed

lemma demo_plain: "map plain demo_calls = [Request_page, Lock_pages 0x3000 0x2000, Request_pages 2, Release_page 0, Release_pages 0x7000 0x1000]"
  by (simp add: lock_call_def release_call_def PAGEALIGNUP_def ALIGNUP_def PAGE_SIZE_def)

lemma pm_is_an_allocator_witness:
  "\<exists>s'. pm_perform_all no_services demo_calls demo_state = Inr ([Page 0, Done True, Page 0x1000, Done True, Done True], s') \<and>
     pm_state s' {1, 2, 3, 4} 0x8000000"
proof -
  have p: "plain Request_page = Request_page" "plain (Lock_range 0x3000 0x5000) = Lock_pages 0x3000 0x2000" "plain (Request_bytes 0x1800) = Request_pages 2"
    "plain (Release_page 0) = Release_page 0" "plain (Release_pages 0x7000 0x1000) = Release_pages 0x7000 0x1000" using demo_plain by simp_all
  have s: "pm_state demo_state {} 0x8000000" by (simp add: pm_state_def demo_ok demo_view)
  have sp: "spare {0}" "spare {0, 3, 4}" "spare {0, 1, 2, 3, 4}" "spare {1, 2, 3, 4}"
    unfolding spare_def by (intro exI[of _ 5]; simp)+
  have r: "run_of {0, 3, 4} 2 1" by (auto simp: run_of_def)
  have "calls_allowed 0x8000000 demo_calls {}"
    unfolding calls_allowed.simps p demo_steps call_allowed.simps using sp r by (auto simp: left_bytes_def unat_PAGES BYTES_def PAGE_SIZE_def)
  moreover have "calls_answers demo_calls {} = [Page 0, Done True, Page 0x1000, Done True, Done True]" "locked_after demo_calls {} = {1, 2, 3, 4}"
    unfolding calls_answers.simps locked_after.simps p demo_steps call_answer.simps by (simp_all add: demo_steps)
  ultimately show ?thesis using pm_is_an_allocator[OF s, of demo_calls no_services] by auto
qed

end
