(* ===== verification/Structures.thy ===== *)
theory Structures
  imports Pm_demo
begin

text \<open>
  What the block operations, the bitmaps and the lists promise to the rest of the kernel, in one statement each, on top of the
  lemmas of \<open>Memory\<close>, \<open>Bitmap\<close> and \<open>Lists\<close>, and on concrete memory.
\<close>

section \<open>Block operations\<close>

text \<open>C14: The block operations write another block than they are asked for. \<open>mem_set\<close> and \<open>mem_copy\<close> of \<open>n\<close> bytes write
  \<open>n + 7 * (n div 8)\<close> bytes, because the count of bytes is reduced by the number of words and not by the bytes in them, and
  \<open>mem_copy_reverse\<close> moves the block that starts one byte before both pointers. On what they write, they do what they
  should, for \<open>mem_copy\<close> also if the source overlaps the destination from behind.\<close>

theorem block_operations_miss_the_block:
  assumes p: "p \<noteq> 0" "k = unat n + 7 * (unat n div 8)" "k \<le> 2 ^ 64"
    and q: "q \<noteq> 0" "k \<le> unat (p - q)" and r: "r \<noteq> 0" "unat n \<le> unat (r - p)"
  shows "mem_set p c n m = Inr ((), \<lambda>x. if unat (x - p) < k then c else m x) \<and>
    mem_copy p q n m = Inr ((), \<lambda>x. if unat (x - p) < k then m (q + (x - p)) else m x) \<and>
    mem_copy_reverse p r n m = Inr ((), \<lambda>x. if unat (x - (p - 1)) < unat n then m (r - 1 + (x - (p - 1))) else m x)"
proof (intro conjI)
  have w: "written n = k" by (simp add: written_eq p)
  show "mem_set p c n m = Inr ((), \<lambda>x. if unat (x - p) < k then c else m x)"
    using mem_set_eq[of p n c m] p(1,3) w by (simp add: filled_def)
  show "mem_copy p q n m = Inr ((), \<lambda>x. if unat (x - p) < k then m (q + (x - p)) else m x)"
    using mem_copy_eq[of p q n m] p q w by (simp add: moved_def)
  show "mem_copy_reverse p r n m = Inr ((), \<lambda>x. if unat (x - (p - 1)) < unat n then m (r - 1 + (x - (p - 1))) else m x)"
    using copy_down_eq[of "unat n" p r m] p r unat_lt64[of n] by (simp add: mem_copy_reverse_def kern moved_def)
qed

lemma block_operations_miss_the_block_witness:
  "mem_set 0x1000 7 16 demo_memory = Inr ((), \<lambda>x. if unat (x - 0x1000) < 30 then 7 else demo_memory x) \<and>
   mem_copy 0x1000 0x500 16 demo_memory =
     Inr ((), \<lambda>x. if unat (x - 0x1000) < 30 then demo_memory (0x500 + (x - 0x1000)) else demo_memory x) \<and>
   mem_copy_reverse 0x1000 0x2000 16 demo_memory =
     Inr ((), \<lambda>x. if unat (x - 0xfff) < 16 then demo_memory (0x1fff + (x - 0xfff)) else demo_memory x)"
proof -
  have "(0x1000 :: addr) \<noteq> 0" "30 = unat (16 :: u64) + 7 * (unat (16 :: u64) div 8)" "30 \<le> (2 :: nat) ^ 64" "(0x500 :: addr) \<noteq> 0"
    "30 \<le> unat (0x1000 - 0x500 :: addr)" "(0x2000 :: addr) \<noteq> 0" "unat (16 :: u64) \<le> unat (0x2000 - 0x1000 :: addr)" by simp_all
  note w = block_operations_miss_the_block[OF this, of 7 demo_memory]
  have e: "(0x1000 :: addr) - 1 = 0xfff" "(0x2000 :: addr) - 1 = 0x1fff" "unat (16 :: u64) = 16" by simp_all
  show ?thesis by (rule w[unfolded e])
qed

section \<open>Bitmaps\<close>

text \<open>C15: \<open>bitmap_set\<close> on a well-formed bitmap returns for every index: with \<open>-EINVAL\<close> and no change if the index is out of
  range, with \<open>SNOCHANGE\<close> and no change if the bit has the value already, and else with the bit set, the counter of clear
  bits adjusted and the bitmap well-formed. Afterwards \<open>bitmap_get\<close> reads the new value there and the old value everywhere
  else.\<close>

theorem bitmap_set_then_get:
  assumes wf: "bitmap_wf b m"
  defines "len \<equiv> bitmap_len b m" and "old \<equiv> bitmap_bits b m"
  shows "\<exists>m'. bitmap_set b i v m = Inr (if len \<le> unat i then fails EINVAL else if v = (unat i \<in> old) then SNOCHANGE else SUCCESS, m') \<and>
    bitmap_wf b m' \<and> (len \<le> unat i \<or> v = (unat i \<in> old) \<longrightarrow> m' = m) \<and> bitmap_frame b m m' \<and>
    (\<forall>j. bitmap_get b j m' = Inr (if len \<le> unat j then fails EINVAL else of_bool (if j = i then v else unat j \<in> old), m'))"
proof (cases "len \<le> unat i \<or> v = (unat i \<in> old)")
  case True
  have "bitmap_set b i v m = Inr (if len \<le> unat i then fails EINVAL else SNOCHANGE, m)"
    using True bitmap_set_out[of b m i v] bitmap_set_same[of i b m v] by (auto simp: len_def old_def not_le)
  moreover have "bitmap_get b j m = Inr (if len \<le> unat j then fails EINVAL else of_bool (if j = i then v else unat j \<in> old), m)" for j
    using True bitmap_get_out[of b m j] bitmap_get_in[of j b m] by (auto simp: len_def old_def not_le)
  moreover have "bitmap_frame b m m" by (simp add: bitmap_frame_def)
  ultimately show ?thesis using True wf by auto
next
  case False
  then have i: "unat i < bitmap_len b m" "v \<noteq> (unat i \<in> bitmap_bits b m)" by (auto simp: len_def old_def)
  let ?m = "flipped b i v m"
  note f = flipped_len[OF wf i(1), of v] flipped_bits[OF wf i(1), of v]
  have "bitmap_get b j ?m = Inr (if len \<le> unat j then fails EINVAL else of_bool (if j = i then v else unat j \<in> old), ?m)" for j
    using bitmap_get_out[of b ?m j] bitmap_get_in[of j b ?m] f
    by (cases "len \<le> unat j") (auto simp: len_def old_def not_le word_unat_eq_iff)
  then show ?thesis
    using False bitmap_set_change[OF i] flipped_wf[OF wf i] flipped_frame[OF wf i(1), of v] by auto
qed

lemma demo_bitmap: "bitmap_wf 0x2020 demo_memory"
  by (simp add: bitmap_wf_def bitmap_len_def demo_bits demo_reads sep_def drop_bit_eq_div)

lemma bitmap_set_then_get_witness:
  "\<exists>m'. bitmap_set 0x2020 5 True demo_memory = Inr (SUCCESS, m') \<and> bitmap_get 0x2020 5 m' = Inr (1, m') \<and>
    bitmap_get 0x2020 6 m' = Inr (0, m')"
proof -
  have "bitmap_len 0x2020 demo_memory = 32768" by (simp add: bitmap_len_def demo_reads)
  then show ?thesis using bitmap_set_then_get[OF demo_bitmap, of 5 True] by (auto simp: demo_bits)
qed

section \<open>Lists\<close>

text \<open>C16: \<open>list_join\<close> moves all nodes of the other list to the front of the first one and keeps their order, and
  \<open>list_length\<close> of the result is the sum of the lengths. What was the head of the other list is left behind with its
  pointers, but no node of the result leads to it.\<close>

theorem list_join_prepends:
  assumes "ring m l xs" "ring m r ys" "set (l # xs) \<inter> set (r # ys) = {}" "apart (set (l # xs) \<union> set (r # ys))"
  shows "\<exists>m'. list_join l r m = Inr ((), m') \<and> ring m' l (ys @ xs) \<and> list_length l m' = Inr (of_nat (length xs) + of_nat (length ys), m') \<and>
    list_is_empty l m' = (xs = [] \<and> ys = [])"
proof -
  obtain m' where "list_join l r m = Inr ((), m')" "ring m' l (ys @ xs)" by (rule ring_join[OF assms])
  then show ?thesis using list_length_ring[of m' l "ys @ xs"] list_is_empty_ring[of m' l "ys @ xs"] by auto
qed

lemma list_join_prepends_witness:
  "\<exists>m m'. ring m 0x1000 [0x1010] \<and> ring m 0x2000 [0x2010] \<and> list_join 0x1000 0x2000 m = Inr ((), m') \<and>
    ring m' 0x1000 [0x2010, 0x1010]"
proof -
  define m where "m = st64 0x1000 0x1010 (st64 0x1008 0x1010 (st64 0x1010 0x1000 (st64 0x1018 0x1000
    (st64 0x2000 0x2010 (st64 0x2008 0x2010 (st64 0x2010 0x2000 (st64 0x2018 0x2000 (\<lambda>_. 0))))))))"
  have r: "ring m 0x1000 [0x1010]" "ring m 0x2000 [0x2010]"
    by (simp_all add: ring_def apart_def sep_def lnext_def lprev_def m_def ld64_st64_sep)
  have "apart (set [0x1000, 0x1010] \<union> set [0x2000, 0x2010])" by (simp add: apart_def sep_def)
  then have "\<exists>m'. list_join 0x1000 0x2000 m = Inr ((), m') \<and> ring m' 0x1000 ([0x2010] @ [0x1010]) \<and>
      list_length 0x1000 m' = Inr (of_nat (length [0x1010 :: addr]) + of_nat (length [0x2010 :: addr]), m') \<and>
      list_is_empty 0x1000 m' = ([0x1010 :: addr] = [] \<and> [0x2010 :: addr] = [])"
    by (intro list_join_prepends[OF r]) simp_all
  with r show ?thesis by auto
qed

end
