(* ===== verification/Machine.thy ===== *)
theory Machine
  imports Kstate
begin

text \<open>
  The machine around the memory managers: port input and output (\<open>cpu/io.h\<close>), \<open>cpuid\<close>
  (\<open>cpu/cpuid.h\<close>), the interrupt flag (\<open>cpu/int-arch.h\<close>) and the statics of the drivers. The hardware
  is a parameter: \<open>device\<close> answers a port read from the accesses made so far, which \<open>trace\<close> records,
  and \<open>cpuid_of\<close> answers \<open>cpuid\<close>.
\<close>

datatype io_event = Out u16 u8 | In u16 u8

record cpuid_regs =
  eax :: u32
  ebx :: u32
  ecx :: u32
  edx :: u32

text \<open>
  \<open>a_isrs\<close>, \<open>a_idt\<close>, \<open>a_gdt\<close> and \<open>a_isr\<close> are addresses that the linker chooses: of the arrays \<open>isrs\<close> and \<open>idt\<close>,
  of the segment descriptors and of the assembly entry of each vector. \<open>gdtr\<close>, \<open>idtr\<close> (limit
  and base of a table) and \<open>seg_regs\<close> are registers.
\<close>

datatype seg_reg = CS | DS | ES | FS | GS | SS

record machine =
  kernel :: kst
  trace :: "io_event list"
  device :: "io_event list \<Rightarrow> u16 \<Rightarrow> u8"
  cpuid_of :: "u32 \<Rightarrow> cpuid_regs"
  serial_initialized :: bool
  use_new_pic :: bool
  interrupts :: bool
  idtr :: "u16 \<times> addr"
  reg_cr0 :: u64
  reg_cr4 :: u64
  acpi_root :: addr
  acpi_tbls :: addr
  a_isrs :: addr
  a_idt :: addr
  a_isr :: "nat \<Rightarrow> addr"
  a_pit_handler :: addr
  a_known_tbls :: addr
  seg_regs :: "seg_reg \<Rightarrow> u16"
  gdtr :: "u16 \<times> addr"
  a_gdt :: addr

definition on_kernel :: "(kst, 'a) kern \<Rightarrow> (machine, 'a) kern" where
  "on_kernel m = zoom kernel (\<lambda>k s. s\<lparr>kernel := k\<rparr>) m"

abbreviation ram :: "machine \<Rightarrow> memory" where
  "ram s \<equiv> mem (kernel s)"

section \<open>Ports\<close>

definition io_outb :: "u16 \<Rightarrow> u8 \<Rightarrow> (machine, unit) kern" where
  "io_outb port b = modify (\<lambda>s. s\<lparr>trace := trace s @ [Out port b]\<rparr>)"

definition io_inb :: "u16 \<Rightarrow> (machine, u8) kern" where
  "io_inb port = (\<lambda>s. let b = device s (trace s) port in Inr (b, s\<lparr>trace := trace s @ [In port b]\<rparr>))"

definition IOWAIT :: "(machine, unit) kern" where
  "IOWAIT = io_outb 0x80 0"

definition cpuid :: "u32 \<Rightarrow> (machine, cpuid_regs) kern" where
  "cpuid code = gets (\<lambda>s. cpuid_of s code)"

definition int_enable :: "(machine, unit) kern" where
  "int_enable = modify (\<lambda>s. s\<lparr>interrupts := True\<rparr>)"

definition int_disable :: "(machine, unit) kern" where
  "int_disable = modify (\<lambda>s. s\<lparr>interrupts := False\<rparr>)"

lemma outb_thn [simp]: "thn (io_outb p b) k s = k (s\<lparr>trace := trace s @ [Out p b]\<rparr>)"
  by (simp add: io_outb_def)

lemma outb_apply [kern]: "io_outb p b s = Inr ((), s\<lparr>trace := trace s @ [Out p b]\<rparr>)"
  by (simp add: io_outb_def kern)

lemma inb_apply [kern]: "io_inb p s = Inr (device s (trace s) p, s\<lparr>trace := trace s @ [In p (device s (trace s) p)]\<rparr>)"
  by (simp add: io_inb_def Let_def)

lemma inb_bnd [simp]:
  "bnd (io_inb p) k s = k (device s (trace s) p) (s\<lparr>trace := trace s @ [In p (device s (trace s) p)]\<rparr>)"
  by (rule bnd_Inr) (rule inb_apply)

lemma iowait_thn [simp]: "thn IOWAIT k s = k (s\<lparr>trace := trace s @ [Out 0x80 0]\<rparr>)"
  by (simp add: IOWAIT_def)

lemma on_kernel_Inr: "m (kernel s) = Inr (x, k) \<Longrightarrow> on_kernel m s = Inr (x, s\<lparr>kernel := k\<rparr>)"
  by (simp add: on_kernel_def zoom_Inr)

lemma on_kernel_Inl: "m (kernel s) = Inl e \<Longrightarrow> on_kernel m s = Inl e"
  by (simp add: on_kernel_def zoom_Inl)

section \<open>Bit fields\<close>

text \<open>A bit field of a \<open>uint8_t\<close> union: \<open>w\<close> bits from bit \<open>p\<close> on.\<close>

type_synonym bitfield = "nat \<times> nat"

fun get_field :: "bitfield \<Rightarrow> u8 \<Rightarrow> u8" where
  "get_field (p, w) raw = take_bit w (drop_bit p raw)"

fun set_field :: "bitfield \<Rightarrow> u8 \<Rightarrow> u8 \<Rightarrow> u8" where
  "set_field (p, w) v raw = (raw AND NOT (push_bit p (mask w))) OR push_bit p (take_bit w v)"

lemma bit_set_field:
  "bit (set_field (p, w) v raw) n \<longleftrightarrow> n < 8 \<and> (if p \<le> n \<and> n < p + w then bit v (n - p) else bit raw n)"
  by (auto simp: bit_simps dest: bit_imp_le_length)

lemma get_set_field: "p + w \<le> 8 \<Longrightarrow> get_field (p, w) (set_field (p, w) v raw) = take_bit w v"
  by (rule bit_word_eqI) (auto simp: bit_simps)

end
