(* ===== verification/Console.thy ===== *)
theory Console
  imports Machine
begin

text \<open>
  What printing code relies on: the interface \<open>console\<close> of a character device, and rules by which the
  output of a computation is put together from the outputs of its parts. \<open>puts\<close> is the one of
  \<open>include/log/put.h\<close>.
\<close>

named_theorems printing

text \<open>
  In a ready state the computation \<open>m\<close> returns \<open>x\<close> and sends exactly the bytes \<open>out\<close>; the device stays
  ready and memory is as before.
\<close>

definition prints :: "('s \<Rightarrow> bool) \<Rightarrow> ('s \<Rightarrow> u8 list) \<Rightarrow> ('s \<Rightarrow> memory) \<Rightarrow> memory \<Rightarrow> ('s, 'a) kern \<Rightarrow> 'a \<Rightarrow> u8 list \<Rightarrow> bool" where
  "prints ready sent mem_of m c x out \<longleftrightarrow>
     (\<forall>s. ready s \<longrightarrow> mem_of s = m \<longrightarrow> (\<exists>s'. c s = Inr (x, s') \<and> sent s' = sent s @ out \<and> ready s' \<and> mem_of s' = m))"

lemma prints_ret [printing]: "prints r w g m (ret x) x []"
  by (simp add: prints_def kern)

lemma prints_gets: "x = f m \<Longrightarrow> prints r w g m (gets (\<lambda>s. f (g s))) x []"
  by (simp add: prints_def kern)

lemma prints_asrt [printing]: "b \<Longrightarrow> prints r w g m (asrt b) () []"
  by (simp add: prints_def kern)

lemma prints_bnd:
  assumes c: "prints r w g m c x out" and f: "prints r w g m (f x) y out'"
  shows "prints r w g m (bnd c f) y (out @ out')"
  unfolding prints_def
proof (intro allI impI)
  fix s assume s: "r s" "g s = m"
  then obtain t where t: "c s = Inr (x, t)" "w t = w s @ out" "r t" "g t = m" using c by (auto simp: prints_def)
  then obtain u where "f x t = Inr (y, u)" "w u = w t @ out'" "r u" "g u = m" using f by (auto simp: prints_def)
  then show "\<exists>s'. bnd c f s = Inr (y, s') \<and> w s' = w s @ out @ out' \<and> r s' \<and> g s' = m"
    using t(2) by (simp add: bnd_Inr t(1))
qed

lemma prints_thn: "prints r w g m c x out \<Longrightarrow> prints r w g m k y out' \<Longrightarrow> prints r w g m (thn c k) y (out @ out')"
  unfolding thn_def by (rule prints_bnd)

lemma prints_quiet: "prints r w g m c x [] \<Longrightarrow> prints r w g m (f x) y out \<Longrightarrow> prints r w g m (bnd c f) y out"
  using prints_bnd[of r w g m c x "[]" f y out] by simp

text \<open>A value read from memory.\<close>

lemma prints_read: "prints r w g m (k (f m)) y out \<Longrightarrow> prints r w g m (bnd (gets (\<lambda>s. f (g s))) k) y out"
  using prints_bnd[OF prints_gets[OF refl]] by fastforce

lemma prints_asrt_thn: "b \<Longrightarrow> prints r w g m k y out \<Longrightarrow> prints r w g m (thn (asrt b) k) y out"
  using prints_thn[OF prints_asrt] by fastforce

text \<open>Loops whose guard looks at the variables and memory only.\<close>

lemma prints_loop_stop: "(\<And>s. g s = m \<Longrightarrow> \<not> b v s) \<Longrightarrow> prints r w g m (loop b c v) v []"
  by (auto simp: prints_def loop_stop)

lemma prints_loop_step:
  assumes b: "\<And>s. g s = m \<Longrightarrow> b v s" and c: "prints r w g m (c v) v' out" and l: "prints r w g m (loop b c v') v'' out'"
  shows "prints r w g m (loop b c v) v'' (out @ out')"
  unfolding prints_def
proof (intro allI impI)
  fix s assume s: "r s" "g s = m"
  then obtain t where t: "c v s = Inr (v', t)" "w t = w s @ out" "r t" "g t = m" using c by (auto simp: prints_def)
  then obtain u where "loop b c v' t = Inr (v'', u)" "w u = w t @ out'" "r u" "g u = m" using l by (auto simp: prints_def)
  moreover have "loop b c v s = loop b c v' t" using b[OF s(2)] t(1) by (rule loop_step)
  ultimately show "\<exists>s'. loop b c v s = Inr (v'', s') \<and> w s' = w s @ out @ out' \<and> r s' \<and> g s' = m" using t(2) by simp
qed

section \<open>Strings\<close>

definition puts_more :: "('s \<Rightarrow> memory) \<Rightarrow> addr \<Rightarrow> 's \<Rightarrow> bool" where
  "puts_more mem_of p s \<longleftrightarrow> mem_of s p \<noteq> 0"

definition puts_step :: "(u8 \<Rightarrow> ('s, unit) kern) \<Rightarrow> ('s \<Rightarrow> memory) \<Rightarrow> addr \<Rightarrow> ('s, addr) kern" where
  "puts_step put mem_of p = bnd (gets (\<lambda>s. mem_of s p)) (\<lambda>c. thn (put c) (ret (p + 1)))"

definition puts :: "(u8 \<Rightarrow> ('s, unit) kern) \<Rightarrow> ('s \<Rightarrow> memory) \<Rightarrow> addr \<Rightarrow> ('s, unit) kern" where
  "puts put mem_of str = bnd (loop (puts_more mem_of) (puts_step put mem_of) str) (\<lambda>p. ret ())"

section \<open>The interface\<close>

locale console =
  fixes ready :: "'s \<Rightarrow> bool" and sent :: "'s \<Rightarrow> u8 list" and mem_of :: "'s \<Rightarrow> memory" and put :: "u8 \<Rightarrow> ('s, unit) kern"
  assumes put: "prints ready sent mem_of m (put c) () [c]"
begin

lemma put_thn: "prints ready sent mem_of m k x out \<Longrightarrow> prints ready sent mem_of m (thn (put c) k) x (c # out)"
  using prints_thn[OF put] by fastforce

end

end
