(* ===== verification/Printk.thy ===== *)
theory Printk
  imports Console Str
begin

text \<open>
  \<open>log/printk.c\<close>: formatted output. The code is written against \<open>putc\<close> only, so every function takes
  the output routine \<open>put\<close>, and \<open>mem_of\<close> reads memory; variadic arguments are a list of 64 bit slots.
  A numeral reaches the line by way of a buffer that holds its digits backwards.
\<close>

section \<open>Numbers\<close>

abbreviation ch :: "char \<Rightarrow> u8" where
  "ch c \<equiv> of_char c"

definition BUF_SIZE :: u64 where
  "BUF_SIZE = 64"

record print_flags =
  number_size :: u64
  leading_zeros :: u64
  string_length :: u64

text \<open>The loop that fills the buffer; \<open>cs\<close> is the part filled so far.\<close>

function dec_digits :: "u64 \<Rightarrow> u8 list \<Rightarrow> ('s, u8 list) kern" where
  "dec_digits n cs =
     (if n > 0 then thn (asrt (of_nat (length cs) < BUF_SIZE)) (dec_digits (n div 10) (cs @ [ucast (n mod 10) + ch CHR ''0'']))
      else ret cs)"
  by auto
termination
proof (relation "measure (\<lambda>(n, cs). unat n)")
  fix n :: u64 and cs :: "u8 list"
  assume "n > 0"
  then have "0 < unat n" by (simp add: word_less_nat_alt)
  then show "((n div 10, cs @ [ucast (n mod 10) + ch CHR ''0'']), n, cs) \<in> measure (\<lambda>(n, cs). unat n)"
    by (simp add: unat_div)
qed simp

declare dec_digits.simps [simp del]

fun hex_digit :: "bool \<Rightarrow> u8 \<Rightarrow> u8" where
  "hex_digit cap d = (if d < 10 then d + ch CHR ''0'' else (d - 10) + (if cap then ch CHR ''A'' else ch CHR ''a''))"

function hex_digits :: "bool \<Rightarrow> u64 \<Rightarrow> u8 list \<Rightarrow> ('s, u8 list) kern" where
  "hex_digits cap n cs =
     (if n > 0 then
        let d = ucast (n AND 0xf) in
        thn (asrt (of_nat (length cs) < BUF_SIZE)) (hex_digits cap (drop_bit 4 n) (cs @ [hex_digit cap d]))
      else ret cs)"
  by auto
termination
proof (relation "measure (\<lambda>(cap, n, cs). unat n)")
  fix cap :: bool and n :: u64 and cs :: "u8 list" and d :: u8
  assume "n > 0"
  then have "0 < unat n" by (simp add: word_less_nat_alt)
  then show "((cap, drop_bit 4 n, cs @ [hex_digit cap d]), cap, n, cs) \<in> measure (\<lambda>(cap, n, cs). unat n)"
    by (simp only: in_measure prod.case unat_drop_bit_eq) (simp add: drop_bit_eq_div)
qed simp

declare hex_digits.simps [simp del]

definition pad_more :: "u64 \<Rightarrow> u64 \<Rightarrow> 's \<Rightarrow> bool" where
  "pad_more zeros j s \<longleftrightarrow> j < zeros"

definition pad_step :: "(u8 \<Rightarrow> ('s, unit) kern) \<Rightarrow> u64 \<Rightarrow> ('s, u64) kern" where
  "pad_step put j = thn (put (ch CHR ''0'')) (ret (j + 1))"

definition rev_more :: "u64 \<Rightarrow> 's \<Rightarrow> bool" where
  "rev_more i s \<longleftrightarrow> i > 0"

definition rev_step :: "(u8 \<Rightarrow> ('s, unit) kern) \<Rightarrow> u8 list \<Rightarrow> u64 \<Rightarrow> ('s, u64) kern" where
  "rev_step put cs i = thn (put (cs ! unat (i - 1))) (ret (i - 1))"

text \<open>The end of both number routines: zeros up to the width, then the buffer from its end.\<close>

definition print_buffer :: "(u8 \<Rightarrow> ('s, unit) kern) \<Rightarrow> u64 \<Rightarrow> u8 list \<Rightarrow> ('s, unit) kern" where
  "print_buffer put zeros cs =
     bnd (loop (pad_more zeros) (pad_step put) (of_nat (length cs))) (\<lambda>j.
     bnd (loop rev_more (rev_step put cs) (of_nat (length cs))) (\<lambda>i. ret ()))"

definition print_unsigned :: "(u8 \<Rightarrow> ('s, unit) kern) \<Rightarrow> u64 \<Rightarrow> u64 \<Rightarrow> ('s, unit) kern" where
  "print_unsigned put zeros n =
     thn (asrt (zeros \<le> BUF_SIZE)) (bnd (dec_digits n []) (print_buffer put zeros))"

text \<open>Negating the smallest number overflows, which is undefined.\<close>

definition print_decimal :: "(u8 \<Rightarrow> ('s, unit) kern) \<Rightarrow> u64 \<Rightarrow> u64 \<Rightarrow> ('s, unit) kern" where
  "print_decimal put zeros n =
     (if sint n < 0 then
        if n = 0x8000000000000000 then halt Undefined
        else thn (put (ch CHR ''-'')) (print_unsigned put zeros (- n))
      else print_unsigned put zeros n)"

definition print_hex :: "(u8 \<Rightarrow> ('s, unit) kern) \<Rightarrow> u64 \<Rightarrow> u64 \<Rightarrow> bool \<Rightarrow> ('s, unit) kern" where
  "print_hex put zeros n cap = bnd (hex_digits cap n []) (print_buffer put zeros)"

text \<open>\<open>puts\<close> of a string literal.\<close>

primrec puts_literal :: "(u8 \<Rightarrow> ('s, unit) kern) \<Rightarrow> string \<Rightarrow> ('s, unit) kern" where
  "puts_literal put [] = ret ()"
| "puts_literal put (c # cs) = thn (put (ch c)) (puts_literal put cs)"

definition print_ptr :: "(u8 \<Rightarrow> ('s, unit) kern) \<Rightarrow> addr \<Rightarrow> bool \<Rightarrow> ('s, unit) kern" where
  "print_ptr put ptr cap =
     (if ptr = 0 then puts_literal put ''(nil)''
      else thn (puts_literal put ''0x'') (print_hex put (push_bit 1 8) ptr cap))"

fun binary_more :: "u64 \<times> u64 \<Rightarrow> 's \<Rightarrow> bool" where
  "binary_more (sz, msk) s \<longleftrightarrow> sz > 0"

fun binary_step :: "(u8 \<Rightarrow> ('s, unit) kern) \<Rightarrow> u64 \<Rightarrow> u64 \<times> u64 \<Rightarrow> ('s, u64 \<times> u64) kern" where
  "binary_step put n (sz, msk) =
     thn (put ((if msk AND n \<noteq> 0 then 1 else 0) + ch CHR ''0'')) (ret (sz - 1, drop_bit 1 msk))"

text \<open>The mask is \<open>1\<close>, an \<open>int\<close>, shifted: a shift by 31 or more is undefined.\<close>

definition print_binary :: "(u8 \<Rightarrow> ('s, unit) kern) \<Rightarrow> u64 \<Rightarrow> u64 \<Rightarrow> ('s, unit) kern" where
  "print_binary put sz n =
     (let sz = push_bit 3 sz in
      if sz - 1 \<ge> 31 then halt Undefined
      else bnd (loop binary_more (binary_step put n) (sz, push_bit (unat (sz - 1)) 1)) (\<lambda>r. ret ()))"

section \<open>Strings\<close>

fun string_more :: "u64 \<times> addr \<Rightarrow> 's \<Rightarrow> bool" where
  "string_more (len, str) s \<longleftrightarrow> len > 0"

fun string_step :: "(u8 \<Rightarrow> ('s, unit) kern) \<Rightarrow> ('s \<Rightarrow> memory) \<Rightarrow> u64 \<times> addr \<Rightarrow> ('s, u64 \<times> addr) kern" where
  "string_step put mem_of (len, str) = bnd (gets (\<lambda>s. mem_of s str)) (\<lambda>c. thn (put c) (ret (len - 1, str + 1)))"

definition print_string :: "(u8 \<Rightarrow> ('s, unit) kern) \<Rightarrow> ('s \<Rightarrow> memory) \<Rightarrow> u64 \<Rightarrow> addr \<Rightarrow> ('s, unit) kern" where
  "print_string put mem_of len str =
     (if len = 0 then puts put mem_of str
      else bnd (loop string_more (string_step put mem_of) (len, str)) (\<lambda>r. ret ()))"

section \<open>Formats\<close>

type_synonym args = "u64 list"

definition va_arg :: "args \<Rightarrow> ('s, u64 \<times> args) kern" where
  "va_arg as = (case as of [] \<Rightarrow> halt Undefined | a # as \<Rightarrow> ret (a, as))"

text \<open>\<open>next_int(uint)\<close> and \<open>next_int(int)\<close>: a narrow argument is widened without and with its sign.\<close>

definition next_uint :: "print_flags \<Rightarrow> args \<Rightarrow> ('s, u64 \<times> args) kern" where
  "next_uint f as = bnd (va_arg as) (\<lambda>(a, as). ret (if number_size f > 4 then a else ucast (ucast a :: u32), as))"

definition next_int :: "print_flags \<Rightarrow> args \<Rightarrow> ('s, u64 \<times> args) kern" where
  "next_int f as = bnd (va_arg as) (\<lambda>(a, as). ret (if number_size f > 4 then a else scast (ucast a :: u32), as))"

definition is_digit :: "u8 \<Rightarrow> bool" where
  "is_digit c \<longleftrightarrow> ch CHR ''0'' \<le> c \<and> c \<le> ch CHR ''9''"

fun zeros_more :: "('s \<Rightarrow> memory) \<Rightarrow> addr \<times> u64 \<Rightarrow> 's \<Rightarrow> bool" where
  "zeros_more mem_of (fmt, z) s \<longleftrightarrow> is_digit (mem_of s fmt)"

fun zeros_step :: "('s \<Rightarrow> memory) \<Rightarrow> addr \<times> u64 \<Rightarrow> ('s, addr \<times> u64) kern" where
  "zeros_step mem_of (fmt, z) = bnd (gets (\<lambda>s. mem_of s fmt)) (\<lambda>c. ret (fmt + 1, z * 10 + ucast (c - ch CHR ''0'')))"

text \<open>
  One round of the label \<open>next_mod\<close>; the last component says whether the code jumps back to it. The
  flags of the switch are compared in the order of its cases.
\<close>

type_synonym directive = "addr \<times> args \<times> print_flags \<times> bool"

fun mod_more :: "directive \<Rightarrow> 's \<Rightarrow> bool" where
  "mod_more (fmt, as, f, again) s \<longleftrightarrow> again"

definition mod_case :: "(u8 \<Rightarrow> ('s, unit) kern) \<Rightarrow> ('s \<Rightarrow> memory) \<Rightarrow> u8 \<Rightarrow> addr \<Rightarrow> args \<Rightarrow> print_flags \<Rightarrow> ('s, directive) kern" where
  "mod_case put mem_of c fmt as f =
     (if c = ch CHR ''%'' then thn (put (ch CHR ''%'')) (ret (fmt, as, f, False))
      else if c = ch CHR ''l'' then
        ret (fmt, as, if number_size f < 8 then f\<lparr>number_size := push_bit 1 (number_size f)\<rparr> else f, True)
      else if c = ch CHR ''h'' then
        ret (fmt, as, if number_size f > 1 then f\<lparr>number_size := drop_bit 1 (number_size f)\<rparr> else f, True)
      else if c = ch CHR ''0'' then
        bnd (loop (zeros_more mem_of) (zeros_step mem_of) (fmt + 1, leading_zeros f)) (\<lambda>(fmt, z).
        ret (fmt - 1, as, f\<lparr>leading_zeros := z\<rparr>, True))
      else if c = ch CHR ''b'' then
        bnd (next_uint f as) (\<lambda>(n, as).
        thn (print_binary put (if leading_zeros f \<noteq> 0 then leading_zeros f else number_size f) n) (ret (fmt, as, f, False)))
      else if c = ch CHR ''d'' then
        bnd (next_int f as) (\<lambda>(n, as). thn (print_decimal put (leading_zeros f) n) (ret (fmt, as, f, False)))
      else if c = ch CHR ''u'' then
        bnd (next_uint f as) (\<lambda>(n, as). thn (print_unsigned put (leading_zeros f) n) (ret (fmt, as, f, False)))
      else if c = ch CHR ''x'' \<or> c = ch CHR ''X'' then
        bnd (next_uint f as) (\<lambda>(n, as). thn (print_hex put (leading_zeros f) n (c = ch CHR ''X'')) (ret (fmt, as, f, False)))
      else if c = ch CHR ''p'' \<or> c = ch CHR ''P'' then
        bnd (va_arg as) (\<lambda>(p, as). thn (print_ptr put p (c = ch CHR ''P'')) (ret (fmt, as, f, False)))
      else if c = ch CHR ''s'' then
        bnd (va_arg as) (\<lambda>(p, as). thn (print_string put mem_of (string_length f) p) (ret (fmt, as, f, False)))
      else if c = ch CHR ''c'' then
        bnd (va_arg as) (\<lambda>(a, as). thn (put (ucast a)) (ret (fmt, as, f, False)))
      else if is_digit c then
        ret (fmt, as, f\<lparr>string_length := string_length f * 10 + ucast (c - ch CHR ''0'')\<rparr>, True)
      else ret (fmt, as, f, False))"

fun mod_step :: "(u8 \<Rightarrow> ('s, unit) kern) \<Rightarrow> ('s \<Rightarrow> memory) \<Rightarrow> directive \<Rightarrow> ('s, directive) kern" where
  "mod_step put mem_of (fmt, as, f, again) =
     bnd (gets (\<lambda>s. mem_of s (fmt + 1))) (\<lambda>c. mod_case put mem_of c (fmt + 1) as f)"

definition no_flags :: print_flags where
  "no_flags = \<lparr>number_size = 4, leading_zeros = 0, string_length = 0\<rparr>"

fun printk_more :: "('s \<Rightarrow> memory) \<Rightarrow> addr \<times> args \<Rightarrow> 's \<Rightarrow> bool" where
  "printk_more mem_of (fmt, as) s \<longleftrightarrow> mem_of s fmt \<noteq> 0"

fun printk_step :: "(u8 \<Rightarrow> ('s, unit) kern) \<Rightarrow> ('s \<Rightarrow> memory) \<Rightarrow> addr \<times> args \<Rightarrow> ('s, addr \<times> args) kern" where
  "printk_step put mem_of (fmt, as) =
     bnd (gets (\<lambda>s. mem_of s fmt)) (\<lambda>c.
     if c \<noteq> ch CHR ''%'' then thn (put c) (ret (fmt + 1, as))
     else bnd (loop mod_more (mod_step put mem_of) (fmt, as, no_flags, True)) (\<lambda>(fmt, as, f, again). ret (fmt + 1, as)))"

definition printk :: "(u8 \<Rightarrow> ('s, unit) kern) \<Rightarrow> ('s \<Rightarrow> memory) \<Rightarrow> addr \<Rightarrow> args \<Rightarrow> ('s, unit) kern" where
  "printk put mem_of fmt as = bnd (loop (printk_more mem_of) (printk_step put mem_of) (fmt, as)) (\<lambda>r. ret ())"


section \<open>Numerals\<close>

text \<open>The reference: the digits of a number from the most significant one on; zero has none.\<close>

function numeral_of :: "nat \<Rightarrow> (nat \<Rightarrow> u8) \<Rightarrow> nat \<Rightarrow> u8 list" where
  "numeral_of b f n = (if n = 0 \<or> b < 2 then [] else numeral_of b f (n div b) @ [f (n mod b)])"
  by auto
termination by (relation "measure (\<lambda>(b, f, n). n)") auto

declare numeral_of.simps [simp del]

lemma numeral_of_0 [simp]: "numeral_of b f 0 = []"
  by (simp add: numeral_of.simps)

definition number_read :: "nat \<Rightarrow> (u8 \<Rightarrow> nat) \<Rightarrow> u8 list \<Rightarrow> nat" where
  "number_read b g xs = foldl (\<lambda>v c. v * b + g c) 0 xs"

lemma read_numeral:
  assumes "\<And>d. d < b \<Longrightarrow> g (f d) = d" "2 \<le> b"
  shows "number_read b g (numeral_of b f n) = n"
proof (induction n rule: less_induct)
  case (less n)
  show ?case
  proof (cases "n = 0")
    case True
    then show ?thesis by (simp add: number_read_def)
  next
    case False
    then have "number_read b g (numeral_of b f (n div b)) = n div b" using assms(2) by (intro less) simp
    moreover have "g (f (n mod b)) = n mod b" using assms by simp
    ultimately show ?thesis using False assms(2) by (subst numeral_of.simps) (simp add: number_read_def)
  qed
qed

lemma read_zeros: "g z = 0 \<Longrightarrow> number_read b g (replicate k z @ xs) = number_read b g xs"
proof (induction k)
  case (Suc k)
  then show ?case by (simp add: number_read_def)
qed simp

lemma length_numeral: "n < b ^ k \<Longrightarrow> length (numeral_of b f n) \<le> k"
proof (induction k arbitrary: n)
  case 0
  then show ?case by simp
next
  case (Suc k)
  then have "n div b < b ^ k" by (simp add: less_mult_imp_div_less mult.commute)
  from Suc.IH[OF this] show ?case by (subst numeral_of.simps) simp
qed

definition dec_char :: "nat \<Rightarrow> u8" where
  "dec_char d = of_nat d + ch CHR ''0''"

definition hex_char :: "bool \<Rightarrow> nat \<Rightarrow> u8" where
  "hex_char cap d = hex_digit cap (of_nat d)"

definition dec_value :: "u8 \<Rightarrow> nat" where
  "dec_value c = unat (c - ch CHR ''0'')"

definition hex_value :: "bool \<Rightarrow> u8 \<Rightarrow> nat" where
  "hex_value cap c = (if c \<le> ch CHR ''9'' then unat (c - ch CHR ''0'') else unat (c - (if cap then ch CHR ''A'' else ch CHR ''a'')) + 10)"

lemma below_10:
  assumes "d < (10 :: nat)"
  obtains "d = 0" | "d = 1" | "d = 2" | "d = 3" | "d = 4" | "d = 5" | "d = 6" | "d = 7" | "d = 8" | "d = 9"
proof -
  have "d \<in> {..<10}" using assms by simp
  then show thesis using that
    by (simp only: lessThan_nat_numeral pred_numeral_simps arith_simps lessThan_Suc lessThan_0) (auto simp: lessThan_Suc)
qed

lemma below_16_cases:
  assumes "d < (16 :: nat)"
  obtains "d < 10" | "d = 10" | "d = 11" | "d = 12" | "d = 13" | "d = 14" | "d = 15"
  using assms by linarith

lemma dec_value_char: "d < 10 \<Longrightarrow> dec_value (dec_char d) = d"
  by (erule below_10) (simp_all add: dec_value_def dec_char_def)

lemma hex_value_char: "d < 16 \<Longrightarrow> hex_value cap (hex_char cap d) = d"
  by (erule below_16_cases, erule below_10) (simp_all add: hex_value_def hex_char_def)

abbreviation decimal :: "nat \<Rightarrow> u8 list" where
  "decimal \<equiv> numeral_of 10 dec_char"

abbreviation hexadecimal :: "bool \<Rightarrow> nat \<Rightarrow> u8 list" where
  "hexadecimal cap \<equiv> numeral_of 16 (hex_char cap)"

lemma length_decimal: "length (decimal (unat (n :: u64))) \<le> 20"
proof (rule length_numeral)
  show "unat n < 10 ^ 20" using unat_lt64[of n] by simp
qed

lemma length_hexadecimal: "length (hexadecimal cap (unat (n :: u64))) \<le> 16"
proof (rule length_numeral)
  show "unat n < 16 ^ 16" using unat_lt64[of n] by simp
qed

section \<open>The buffer\<close>

lemma buffer_room: "k < 64 \<Longrightarrow> (of_nat k :: u64) < BUF_SIZE"
  by (simp add: BUF_SIZE_def word_less_nat_alt unat_of_nat take_bit_nat_eq_self)

lemma dec_digits_run:
  "length cs + length (decimal (unat n)) \<le> 64 \<Longrightarrow> dec_digits n cs s = Inr (cs @ rev (decimal (unat n)), s)"
proof (induction n cs rule: dec_digits.induct)
  case (1 n cs)
  show ?case
  proof (cases "n > 0")
    case True
    then have d: "decimal (unat n) = decimal (unat (n div 10)) @ [dec_char (unat n mod 10)]"
      by (subst numeral_of.simps) (simp add: unat_div word_less_nat_alt)
    have c: "ucast (n mod 10) + ch CHR ''0'' = dec_char (unat n mod 10)"
    proof -
      have "unat n mod 10 = unat (n mod 10)" by (simp add: unat_mod)
      then show ?thesis by (simp only: dec_char_def of_nat_unat)
    qed
    have b: "(of_nat (length cs) :: u64) < BUF_SIZE" by (rule buffer_room) (use 1(2) d in simp)
    show ?thesis using 1(1)[OF True] 1(2) True b
      by (subst dec_digits.simps) (simp add: c[simplified] d)
  next
    case False
    then have "n = 0" by (simp add: word_gt_0)
    then show ?thesis by (subst dec_digits.simps) (simp add: kern)
  qed
qed

lemma hex_digits_run:
  "length cs + length (hexadecimal cap (unat n)) \<le> 64 \<Longrightarrow> hex_digits cap n cs s = Inr (cs @ rev (hexadecimal cap (unat n)), s)"
proof (induction cap n cs rule: hex_digits.induct)
  case (1 cap n cs)
  show ?case
  proof (cases "n > 0")
    case True
    have u: "unat (drop_bit 4 n) = unat n div 16" by (simp only: unat_drop_bit_eq) (simp add: drop_bit_eq_div)
    have d: "hexadecimal cap (unat n) = hexadecimal cap (unat (drop_bit 4 n)) @ [hex_char cap (unat n mod 16)]"
      unfolding u using True by (subst numeral_of.simps) (simp add: word_less_nat_alt)
    have "(0xf :: u64) = mask 4" by (simp add: mask_eq_exp_minus_1)
    then have "n AND 0xf = take_bit 4 n" by (simp only: take_bit_eq_mask)
    then have "unat (n AND 0xf) = unat n mod 16" by (simp add: take_bit_eq_mod unat_mod)
    then have "unat n mod 16 = unat (n AND 0xf)" by simp
    then have c: "hex_digit cap (ucast (n AND 0xf)) = hex_char cap (unat n mod 16)"
      by (simp only: hex_char_def of_nat_unat)
    have b: "(of_nat (length cs) :: u64) < BUF_SIZE" by (rule buffer_room) (use 1(2) d in simp)
    show ?thesis using 1(1)[OF True refl] 1(2) True b
      by (subst hex_digits.simps) (simp add: c d del: hex_digit.simps)
  next
    case False
    then have "n = 0" by (simp add: word_gt_0)
    then show ?thesis by (subst hex_digits.simps) (simp add: kern)
  qed
qed

section \<open>What is printed\<close>

definition padded :: "u64 \<Rightarrow> u8 list \<Rightarrow> u8 list" where
  "padded zeros xs = replicate (unat zeros - length xs) (ch CHR ''0'') @ xs"

context console
begin

lemma pad_prints:
  "prints ready sent mem_of m (loop (pad_more zeros) (pad_step put) j) (if j < zeros then zeros else j)
     (replicate (unat zeros - unat j) (ch CHR ''0''))"
proof (induction "unat zeros - unat j" arbitrary: j)
  case 0
  then have "\<not> j < zeros" by (simp add: word_less_nat_alt)
  then show ?case using 0 by (auto intro: prints_loop_stop simp: pad_more_def)
next
  case (Suc k)
  then have lt: "j < zeros" by (simp add: word_less_nat_alt)
  then have u: "unat (j + 1) = unat j + 1"
    using unat_lt64[of zeros] by (simp add: unat_word_ariths word_less_nat_alt)
  have "prints ready sent mem_of m (loop (pad_more zeros) (pad_step put) j) (if j + 1 < zeros then zeros else j + 1)
     ([ch CHR ''0''] @ replicate (unat zeros - unat (j + 1)) (ch CHR ''0''))"
  proof (rule prints_loop_step)
    show "prints ready sent mem_of m (pad_step put j) (j + 1) [ch CHR ''0'']"
      unfolding pad_step_def using put_thn[OF prints_ret] by simp
    show "prints ready sent mem_of m (loop (pad_more zeros) (pad_step put) (j + 1)) (if j + 1 < zeros then zeros else j + 1)
        (replicate (unat zeros - unat (j + 1)) (ch CHR ''0''))"
      by (rule Suc.hyps(1)) (use Suc.hyps(2) u in simp)
  qed (use lt in \<open>simp add: pad_more_def\<close>)
  moreover have "(if j + 1 < zeros then zeros else j + 1) = zeros"
    using lt u by (auto simp: word_less_nat_alt word_unat_eq_iff)
  moreover have "unat zeros - unat j = Suc (unat zeros - unat (j + 1))" using lt u by (simp add: word_less_nat_alt)
  ultimately show ?case using lt by simp
qed

lemma rev_prints:
  "n \<le> length cs \<Longrightarrow> length cs < 2 ^ 64 \<Longrightarrow>
    prints ready sent mem_of m (loop rev_more (rev_step put cs) (of_nat n)) 0 (rev (take n cs))"
proof (induction n)
  case 0
  show ?case by simp (rule prints_loop_stop, simp add: rev_more_def)
next
  case (Suc n)
  have p: "(0 :: u64) < of_nat (Suc n)" and u: "unat (of_nat n :: u64) = n"
    using Suc.prems by (simp_all add: word_less_nat_alt unat_of_nat take_bit_nat_eq_self del: of_nat_Suc)
  have "prints ready sent mem_of m (loop rev_more (rev_step put cs) (of_nat (Suc n))) 0 ([cs ! n] @ rev (take n cs))"
  proof (rule prints_loop_step)
    show "prints ready sent mem_of m (rev_step put cs (of_nat (Suc n))) (of_nat n) [cs ! n]"
      unfolding rev_step_def using put_thn[OF prints_ret] by (simp add: u)
    show "prints ready sent mem_of m (loop rev_more (rev_step put cs) (of_nat n)) 0 (rev (take n cs))"
      using Suc by simp
  qed (use p in \<open>simp add: rev_more_def\<close>)
  then show ?case using Suc.prems by (simp add: take_Suc_conv_app_nth)
qed

lemma buffer_prints:
  assumes "length cs \<le> 64"
  shows "prints ready sent mem_of m (print_buffer put zeros cs) () (padded zeros (rev cs))"
proof -
  let ?n = "of_nat (length cs) :: u64"
  have u: "unat ?n = length cs" using assms by (simp add: unat_of_nat take_bit_nat_eq_self)
  have "prints ready sent mem_of m (loop rev_more (rev_step put cs) ?n) 0 (rev cs)"
    using rev_prints[of "length cs" cs] assms by simp
  then have "prints ready sent mem_of m (bnd (loop rev_more (rev_step put cs) ?n) (\<lambda>i. ret ())) () (rev cs)"
    using prints_bnd[where f = "\<lambda>i. ret ()", OF _ prints_ret] by fastforce
  from prints_bnd[OF pad_prints[of m zeros ?n] this] show ?thesis
    by (simp only: print_buffer_def padded_def length_rev u)
qed

lemma unsigned_prints: "zeros \<le> BUF_SIZE \<Longrightarrow>
    prints ready sent mem_of m (print_unsigned put zeros n) () (padded zeros (decimal (unat n)))"
proof -
  assume z: "zeros \<le> BUF_SIZE"
  have d: "prints ready sent mem_of m (dec_digits n []) (rev (decimal (unat n))) []"
    unfolding prints_def using length_decimal[of n] by (simp add: dec_digits_run)
  have "prints ready sent mem_of m (print_buffer put zeros (rev (decimal (unat n)))) () (padded zeros (decimal (unat n)))"
    using buffer_prints[of "rev (decimal (unat n))"] length_decimal[of n] by simp
  then show ?thesis unfolding print_unsigned_def by (intro prints_asrt_thn[OF z] prints_quiet[OF d])
qed

lemma hex_prints: "prints ready sent mem_of m (print_hex put zeros n cap) () (padded zeros (hexadecimal cap (unat n)))"
proof -
  have d: "prints ready sent mem_of m (hex_digits cap n []) (rev (hexadecimal cap (unat n))) []"
    unfolding prints_def using length_hexadecimal[of cap n] by (simp add: hex_digits_run)
  have "prints ready sent mem_of m (print_buffer put zeros (rev (hexadecimal cap (unat n)))) () (padded zeros (hexadecimal cap (unat n)))"
    using buffer_prints[of "rev (hexadecimal cap (unat n))"] length_hexadecimal[of cap n] by simp
  then show ?thesis unfolding print_hex_def by (intro prints_quiet[OF d])
qed

lemma literal_prints: "prints ready sent mem_of m (puts_literal put cs) () (map ch cs)"
  by (induction cs) (simp_all add: prints_ret put_thn)

end


section \<open>The reference for formats\<close>

text \<open>
  The directives that the kernel uses, and what they stand for: \<open>Conv ds l cv\<close> is a percent sign, the
  zero flag with the width \<open>ds\<close> (nothing if \<open>ds\<close> is empty), \<open>l\<close> length modifiers and the letter of \<open>cv\<close>.
\<close>

datatype conversion = Dec | Uns | Hex bool | Ptr bool | Str | Chr

datatype piece = Lit u8 | Percent | Conv "u8 list" nat conversion

fun letter :: "conversion \<Rightarrow> u8" where
  "letter Dec = ch CHR ''d''"
| "letter Uns = ch CHR ''u''"
| "letter (Hex cap) = (if cap then ch CHR ''X'' else ch CHR ''x'')"
| "letter (Ptr cap) = (if cap then ch CHR ''P'' else ch CHR ''p'')"
| "letter Str = ch CHR ''s''"
| "letter Chr = ch CHR ''c''"

fun chars_of :: "piece \<Rightarrow> u8 list" where
  "chars_of (Lit c) = [c]"
| "chars_of Percent = [ch CHR ''%'', ch CHR ''%'']"
| "chars_of (Conv ds l cv) =
     ch CHR ''%'' # (if ds = [] then [] else ch CHR ''0'' # ds) @ replicate l (ch CHR ''l'') @ [letter cv]"

definition width :: "u8 list \<Rightarrow> u64" where
  "width ds = foldl (\<lambda>z c. z * 10 + ucast (c - ch CHR ''0'')) 0 ds"

fun valid_piece :: "piece \<Rightarrow> bool" where
  "valid_piece (Lit c) \<longleftrightarrow> c \<noteq> 0 \<and> c \<noteq> ch CHR ''%''"
| "valid_piece Percent \<longleftrightarrow> True"
| "valid_piece (Conv ds l cv) \<longleftrightarrow> list_all is_digit ds \<and> width ds \<le> BUF_SIZE"

definition narrow :: "bool \<Rightarrow> u64 \<Rightarrow> u64" where
  "narrow wide a = (if wide then a else ucast (ucast a :: u32))"

definition narrow_signed :: "bool \<Rightarrow> u64 \<Rightarrow> u64" where
  "narrow_signed wide a = (if wide then a else scast (ucast a :: u32))"

fun conv_text :: "memory \<Rightarrow> u64 \<Rightarrow> bool \<Rightarrow> conversion \<Rightarrow> u64 \<Rightarrow> u8 list \<Rightarrow> bool" where
  "conv_text m w wide Uns a xs \<longleftrightarrow> xs = padded w (decimal (unat (narrow wide a)))"
| "conv_text m w wide Dec a xs \<longleftrightarrow>
     (let n = narrow_signed wide a in
      n \<noteq> 0x8000000000000000 \<and>
      xs = (if sint n < 0 then ch CHR ''-'' # padded w (decimal (unat (- n))) else padded w (decimal (unat n))))"
| "conv_text m w wide (Hex cap) a xs \<longleftrightarrow> xs = padded w (hexadecimal cap (unat (narrow wide a)))"
| "conv_text m w wide (Ptr cap) a xs \<longleftrightarrow>
     xs = (if a = 0 then map ch ''(nil)'' else map ch ''0x'' @ padded 16 (hexadecimal cap (unat a)))"
| "conv_text m w wide Str a xs \<longleftrightarrow> cstr m a xs"
| "conv_text m w wide Chr a xs \<longleftrightarrow> xs = [ucast a]"

inductive renders :: "memory \<Rightarrow> piece list \<Rightarrow> args \<Rightarrow> u8 list \<Rightarrow> bool" for m where
  done_all: "renders m [] as []"
| lit: "renders m ps as out \<Longrightarrow> renders m (Lit c # ps) as (c # out)"
| percent: "renders m ps as out \<Longrightarrow> renders m (Percent # ps) as (ch CHR ''%'' # out)"
| conv: "conv_text m (width ds) (0 < l) cv a xs \<Longrightarrow> renders m ps as out \<Longrightarrow> renders m (Conv ds l cv # ps) (a # as) (xs @ out)"

inductive_cases renders_lit: "renders m (Lit c # ps) as out"
inductive_cases renders_percent: "renders m (Percent # ps) as out"
inductive_cases renders_conv: "renders m (Conv ds l cv # ps) as out"

fun stored :: "memory \<Rightarrow> addr \<Rightarrow> u8 list \<Rightarrow> bool" where
  "stored m p [] \<longleftrightarrow> True"
| "stored m p (x # xs) \<longleftrightarrow> m p = x \<and> stored m (p + 1) xs"

lemma cstr_append: "cstr m p (xs @ ys) \<Longrightarrow> stored m p xs \<and> cstr m (p + of_nat (length xs)) ys"
proof (induction xs arbitrary: p)
  case (Cons x xs)
  then show ?case using Cons.IH[of "p + 1"] by (simp add: add.assoc)
qed simp

lemma stored_append: "stored m p (xs @ ys) \<longleftrightarrow> stored m p xs \<and> stored m (p + of_nat (length xs)) ys"
  by (induction xs arbitrary: p) (auto simp: add.assoc)

lemma letter_facts: "\<not> is_digit (letter cv)" "letter cv \<noteq> ch CHR ''%''" "letter cv \<noteq> ch CHR ''l''"
    "letter cv \<noteq> ch CHR ''h''" "letter cv \<noteq> ch CHR ''0''" "letter cv \<noteq> ch CHR ''b''" "letter cv \<noteq> 0"
  by (cases cv; simp add: is_digit_def)+

section \<open>Formats are rendered\<close>

context console
begin

lemma puts_prints: "cstr m p xs \<Longrightarrow> prints ready sent mem_of m (puts put mem_of p) () xs"
proof -
  have "cstr m p xs \<Longrightarrow> prints ready sent mem_of m (loop (puts_more mem_of) (puts_step put mem_of) p) (p + of_nat (length xs)) xs"
  proof (induction xs arbitrary: p)
    case Nil
    then show ?case by (auto intro: prints_loop_stop simp: puts_more_def)
  next
    case (Cons x xs)
    have "prints ready sent mem_of m (loop (puts_more mem_of) (puts_step put mem_of) p) (p + 1 + of_nat (length xs)) ([x] @ xs)"
    proof (rule prints_loop_step)
      show "prints ready sent mem_of m (puts_step put mem_of p) (p + 1) [x]"
        unfolding puts_step_def using Cons.prems by (intro prints_read) (auto intro: put_thn prints_ret)
      show "prints ready sent mem_of m (loop (puts_more mem_of) (puts_step put mem_of) (p + 1)) (p + 1 + of_nat (length xs)) xs"
        using Cons by simp
    qed (use Cons.prems in \<open>simp add: puts_more_def\<close>)
    then show ?case by (simp add: add.assoc)
  qed
  then show "cstr m p xs \<Longrightarrow> prints ready sent mem_of m (puts put mem_of p) () xs"
    unfolding puts_def using prints_bnd[where f = "\<lambda>p. ret ()", OF _ prints_ret] by fastforce
qed

lemma decimal_prints:
  assumes "zeros \<le> BUF_SIZE" "n \<noteq> 0x8000000000000000"
  shows "prints ready sent mem_of m (print_decimal put zeros n) ()
    (if sint n < 0 then ch CHR ''-'' # padded zeros (decimal (unat (- n))) else padded zeros (decimal (unat n)))"
  using assms unsigned_prints[OF assms(1)] by (auto simp: print_decimal_def intro: put_thn)

lemma ptr_prints: "prints ready sent mem_of m (print_ptr put a cap) ()
    (if a = 0 then map ch ''(nil)'' else map ch ''0x'' @ padded 16 (hexadecimal cap (unat a)))"
proof (cases "a = 0")
  case True
  then show ?thesis using literal_prints[of m "''(nil)''"] by (simp add: print_ptr_def del: puts_literal.simps)
next
  case False
  have "push_bit 1 8 = (16 :: u64)" by simp
  then show ?thesis using False prints_thn[OF literal_prints[of m "''0x''"] hex_prints[of m 16 a cap]]
    by (simp only: print_ptr_def if_False)
qed

text \<open>The modifiers of a directive.\<close>

lemma digits_print:
  "stored m p (ds @ [c]) \<Longrightarrow> list_all is_digit ds \<Longrightarrow> \<not> is_digit c \<Longrightarrow>
    prints ready sent mem_of m (loop (zeros_more mem_of) (zeros_step mem_of) (p, z))
      (p + of_nat (length ds), foldl (\<lambda>z c. z * 10 + ucast (c - ch CHR ''0'')) z ds) []"
proof (induction ds arbitrary: p z)
  case Nil
  then show ?case by (auto intro: prints_loop_stop)
next
  case (Cons d ds)
  have "prints ready sent mem_of m (loop (zeros_more mem_of) (zeros_step mem_of) (p, z))
      (p + 1 + of_nat (length ds), foldl (\<lambda>z c. z * 10 + ucast (c - ch CHR ''0'')) (z * 10 + ucast (d - ch CHR ''0'')) ds) ([] @ [])"
  proof (rule prints_loop_step)
    show "prints ready sent mem_of m (zeros_step mem_of (p, z)) (p + 1, z * 10 + ucast (d - ch CHR ''0'')) []"
      unfolding zeros_step.simps using Cons.prems(1) by (intro prints_read) (auto intro: prints_ret)
  qed (use Cons in auto)
  then show ?case by (simp add: add.assoc)
qed

lemma directive_step:
  assumes "m (p + 1) = c" "prints ready sent mem_of m (mod_case put mem_of c (p + 1) as f) d out"
    "prints ready sent mem_of m (loop mod_more (mod_step put mem_of) d) d' out'"
  shows "prints ready sent mem_of m (loop mod_more (mod_step put mem_of) (p, as, f, True)) d' (out @ out')"
proof (rule prints_loop_step[OF _ _ assms(3)])
  show "prints ready sent mem_of m (mod_step put mem_of (p, as, f, True)) d out"
    unfolding mod_step.simps by (rule prints_read) (use assms(1,2) in simp)
qed simp

lemma directive_stop: "prints ready sent mem_of m (loop mod_more (mod_step put mem_of) (p, as, f, False)) (p, as, f, False) []"
  by (rule prints_loop_stop) simp

lemma longs_print:
  "stored m (p + 1) (replicate l (ch CHR ''l'')) \<Longrightarrow> number_size f = 4 \<or> number_size f = 8 \<Longrightarrow>
    prints ready sent mem_of m (loop mod_more (mod_step put mem_of)
        (p + of_nat l, as, if l = 0 then f else f\<lparr>number_size := 8\<rparr>, True)) d out \<Longrightarrow>
    prints ready sent mem_of m (loop mod_more (mod_step put mem_of) (p, as, f, True)) d out"
proof (induction l arbitrary: p f)
  case 0
  then show ?case by simp
next
  case (Suc l)
  let ?f = "f\<lparr>number_size := 8\<rparr>"
  have st: "prints ready sent mem_of m (mod_case put mem_of (ch CHR ''l'') (p + 1) as f) (p + 1, as, ?f, True) []"
  proof (cases "number_size f = 8")
    case True
    then have e: "f\<lparr>number_size := 8\<rparr> = f" by (cases f) simp
    show ?thesis unfolding e using True by (simp add: mod_case_def prints_ret)
  next
    case False
    then show ?thesis using Suc.prems(2) by (simp add: mod_case_def prints_ret)
  qed
  have "prints ready sent mem_of m (loop mod_more (mod_step put mem_of) (p + 1, as, ?f, True)) d out"
    by (rule Suc.IH) (use Suc.prems in \<open>auto simp: add.assoc\<close>)
  from directive_step[OF _ st this] Suc.prems(1) show ?case by simp
qed

text \<open>The letter ends the directive.\<close>

lemma letter_prints:
  assumes w: "leading_zeros f \<le> BUF_SIZE" and sl: "string_length f = 0" and c: "conv_text m (leading_zeros f) (number_size f > 4) cv a xs"
  shows "prints ready sent mem_of m (mod_case put mem_of (letter cv) q (a # as) f) (q, as, f, False) xs"
proof -
  have fin: "prints ready sent mem_of m k () xs \<Longrightarrow>
      prints ready sent mem_of m (thn k (ret (q, as, f, False))) (q, as, f, False) xs" for k
    using prints_thn[OF _ prints_ret] by fastforce
  have va: "prints ready sent mem_of m (k (a, as)) y out \<Longrightarrow> prints ready sent mem_of m (bnd (va_arg (a # as)) k) y out" for k and y :: directive and out
    by (rule prints_quiet[where x = "(a, as)"]) (simp_all add: va_arg_def prints_ret)
  have ui: "prints ready sent mem_of m (k (narrow (number_size f > 4) a, as)) y out \<Longrightarrow>
      prints ready sent mem_of m (bnd (next_uint f (a # as)) k) y out" for k and y :: directive and out
    unfolding next_uint_def by (rule prints_quiet[where x = "(narrow (number_size f > 4) a, as)"])
      (simp_all add: va_arg_def narrow_def prints_def kern)
  have si: "prints ready sent mem_of m (k (narrow_signed (number_size f > 4) a, as)) y out \<Longrightarrow>
      prints ready sent mem_of m (bnd (next_int f (a # as)) k) y out" for k and y :: directive and out
    unfolding next_int_def by (rule prints_quiet[where x = "(narrow_signed (number_size f > 4) a, as)"])
      (simp_all add: va_arg_def narrow_signed_def prints_def kern)
  show ?thesis
  proof (cases cv)
    case Dec
    then have "prints ready sent mem_of m (print_decimal put (leading_zeros f) (narrow_signed (number_size f > 4) a)) () xs"
      using c decimal_prints[OF w, of "narrow_signed (number_size f > 4) a" m] by (auto simp: Let_def)
    then show ?thesis using Dec by (simp add: mod_case_def) (intro si, simp add: fin)
  next
    case Uns
    then have "prints ready sent mem_of m (print_unsigned put (leading_zeros f) (narrow (number_size f > 4) a)) () xs"
      using c unsigned_prints[OF w, of m "narrow (number_size f > 4) a"] by simp
    then show ?thesis using Uns by (simp add: mod_case_def) (intro ui, simp add: fin)
  next
    case (Hex cap)
    then have "prints ready sent mem_of m (print_hex put (leading_zeros f) (narrow (number_size f > 4) a) cap) () xs"
      using c hex_prints[of m "leading_zeros f" "narrow (number_size f > 4) a" cap] by simp
    then show ?thesis using Hex by (cases cap) (simp_all add: mod_case_def, (intro ui, simp add: fin)+)
  next
    case (Ptr cap)
    then have "prints ready sent mem_of m (print_ptr put a cap) () xs"
      using c ptr_prints[of m a cap] by simp
    then show ?thesis using Ptr by (cases cap) (simp_all add: mod_case_def, (intro va, simp add: fin)+)
  next
    case Str
    then have "prints ready sent mem_of m (print_string put mem_of (string_length f) a) () xs"
      using c puts_prints[of m a xs] sl by (simp add: print_string_def)
    then show ?thesis using Str by (simp add: mod_case_def) (intro va, simp add: fin)
  next
    case Chr
    then have "prints ready sent mem_of m (put (ucast a)) () xs" using c put[of m "ucast a"] by simp
    then show ?thesis using Chr by (simp add: mod_case_def) (intro va, simp add: fin)
  qed
qed

lemma conversion_prints:
  assumes st: "stored m p (chars_of (Conv ds l cv))" and v: "valid_piece (Conv ds l cv)"
    and c: "conv_text m (width ds) (0 < l) cv a xs"
  shows "\<exists>f. prints ready sent mem_of m (loop mod_more (mod_step put mem_of) (p, a # as, no_flags, True))
     (p + of_nat (length (chars_of (Conv ds l cv))) - 1, as, f, False) xs"
proof -
  let ?L = "loop mod_more (mod_step put mem_of)"
  define f where "f = no_flags\<lparr>leading_zeros := width ds\<rparr>"
  define g where "g = (if l = 0 then f else f\<lparr>number_size := 8\<rparr>)"
  define q where "q = p + of_nat (if ds = [] then 0 else Suc (length ds))"
  have g: "leading_zeros g = width ds" "string_length g = 0" "(number_size g > 4) = (0 < l)"
    by (simp_all add: g_def f_def no_flags_def)
  have sq: "stored m (q + 1) (replicate l (ch CHR ''l'') @ [letter cv])"
    using st by (cases "ds = []") (simp_all add: q_def stored_append add.assoc add.left_commute)
  then have sl: "stored m (q + 1) (replicate l (ch CHR ''l''))" and sc: "m (q + of_nat l + 1) = letter cv"
    by (simp_all add: stored_append ac_simps)
  have w: "leading_zeros g \<le> BUF_SIZE" using v by (simp add: g(1))
  have "conv_text m (leading_zeros g) (number_size g > 4) cv a xs" using c by (simp only: g)
  note lt = letter_prints[OF w g(2) this, of "q + of_nat l + 1" as]
  have e: "p + of_nat (length (chars_of (Conv ds l cv))) - 1 = q + of_nat l + 1" by (simp add: q_def algebra_simps)
  have "prints ready sent mem_of m (?L (q + of_nat l, a # as, g, True)) (q + of_nat l + 1, as, g, False) xs"
    using directive_step[OF sc lt directive_stop] by simp
  then have ll: "prints ready sent mem_of m (?L (q, a # as, f, True)) (q + of_nat l + 1, as, g, False) xs"
    unfolding g_def by (rule longs_print[OF sl, rotated]) (simp add: f_def no_flags_def)
  show ?thesis
  proof (cases "ds = []")
    case True
    then have "q = p" "f = no_flags" by (simp_all add: q_def f_def width_def no_flags_def)
    then show ?thesis using ll unfolding e by blast
  next
    case False
    define c1 where "c1 = hd (replicate l (ch CHR ''l'') @ [letter cv])"
    have nd: "\<not> is_digit c1" using letter_facts(1) by (cases l) (simp_all add: c1_def is_digit_def)
    have "stored m (p + 2) (ds @ [c1])"
      using st False by (cases l) (simp_all add: c1_def stored_append add.assoc)
    from digits_print[OF this _ nd, of 0] v
    have "prints ready sent mem_of m (loop (zeros_more mem_of) (zeros_step mem_of) (p + 2, 0)) (p + 2 + of_nat (length ds), width ds) []"
      by (simp add: width_def)
    then have "prints ready sent mem_of m (mod_case put mem_of (ch CHR ''0'') (p + 1) (a # as) no_flags) (q, a # as, f, True) []"
      using False
      by (simp add: mod_case_def no_flags_def f_def q_def add.assoc)
        (rule prints_quiet, assumption, simp add: prints_def kern algebra_simps)
    from directive_step[OF _ this ll] st False show ?thesis unfolding e by auto
  qed
qed

lemma printk_loop_renders:
  "cstr m p (concat (map chars_of ps)) \<Longrightarrow> list_all valid_piece ps \<Longrightarrow> renders m ps as out \<Longrightarrow>
    \<exists>v. prints ready sent mem_of m (loop (printk_more mem_of) (printk_step put mem_of) (p, as)) v out"
proof (induction ps arbitrary: p as out)
  case Nil
  then have "out = []" by (auto elim: renders.cases)
  then show ?case using Nil by (intro exI[of _ "(p, as)"]) (simp add: prints_loop_stop)
next
  case (Cons x ps)
  let ?L = "loop (printk_more mem_of) (printk_step put mem_of)"
  have s: "stored m p (chars_of x)" and r: "cstr m (p + of_nat (length (chars_of x))) (concat (map chars_of ps))"
    using Cons.prems(1) cstr_append[of m p "chars_of x" "concat (map chars_of ps)"] by simp_all
  have v: "valid_piece x" "list_all valid_piece ps" using Cons.prems(2) by simp_all
  have "\<exists>as' o1 o2. out = o1 @ o2 \<and> renders m ps as' o2 \<and> m p \<noteq> 0 \<and>
      prints ready sent mem_of m (printk_step put mem_of (p, as)) (p + of_nat (length (chars_of x)), as') o1"
  proof (cases x)
    case (Lit c)
    from Cons.prems(3)[unfolded Lit] obtain o2 where o2: "out = [c] @ o2" "renders m ps as o2" by (rule renders_lit) simp
    have "prints ready sent mem_of m (printk_step put mem_of (p, as)) (p + 1, as) [c]"
      unfolding printk_step.simps using s v Lit by (intro prints_read) (auto intro: put_thn prints_ret)
    then show ?thesis using o2 s v Lit by (intro exI[of _ as] exI[of _ "[c]"] exI[of _ o2]) (simp del: printk_step.simps)
  next
    case Percent
    from Cons.prems(3)[unfolded Percent] obtain o2 where o2: "out = [ch CHR ''%''] @ o2" "renders m ps as o2"
      by (rule renders_percent) simp
    have "prints ready sent mem_of m (mod_case put mem_of (ch CHR ''%'') (p + 1) as no_flags) (p + 1, as, no_flags, False) [ch CHR ''%'']"
      using put_thn[OF prints_ret] by (simp add: mod_case_def)
    from directive_step[OF _ this directive_stop] s Percent
    have "prints ready sent mem_of m (loop mod_more (mod_step put mem_of) (p, as, no_flags, True)) (p + 1, as, no_flags, False) [ch CHR ''%'']"
      by simp
    from prints_bnd[OF this, of "\<lambda>(fmt, as, f, again). ret (fmt + 1, as)" "(p + 2, as)" "[]"]
    have "prints ready sent mem_of m (printk_step put mem_of (p, as)) (p + 2, as) [ch CHR ''%'']"
      unfolding printk_step.simps using s Percent by (intro prints_read) (simp add: prints_def kern add.assoc)
    then show ?thesis using o2 s Percent
      by (intro exI[of _ as] exI[of _ "[ch CHR ''%'']"] exI[of _ o2]) (simp del: printk_step.simps)
  next
    case (Conv ds l cv)
    from Cons.prems(3)[unfolded Conv] obtain a as' xs o2 where
      o2: "as = a # as'" "out = xs @ o2" "conv_text m (width ds) (0 < l) cv a xs" "renders m ps as' o2" by (rule renders_conv)
    obtain f where f: "prints ready sent mem_of m (loop mod_more (mod_step put mem_of) (p, a # as', no_flags, True))
     (p + of_nat (length (chars_of x)) - 1, as', f, False) xs" using conversion_prints[OF s[unfolded Conv] v(1)[unfolded Conv] o2(3)] Conv by blast
    have mp: "m p = ch CHR ''%''" using s Conv by simp
    from prints_bnd[OF f, of "\<lambda>(fmt, as, f, again). ret (fmt + 1, as)" "(p + of_nat (length (chars_of x)), as')" "[]"]
    have "prints ready sent mem_of m (printk_step put mem_of (p, as)) (p + of_nat (length (chars_of x)), as') xs"
      unfolding printk_step.simps o2(1) by (intro prints_read) (simp add: mp prints_def kern)
    then show ?thesis using o2 mp by (intro exI[of _ as'] exI[of _ xs] exI[of _ o2]) (simp del: printk_step.simps)
  qed
  then obtain as' o1 o2 where o: "out = o1 @ o2" "renders m ps as' o2" "m p \<noteq> 0"
    "prints ready sent mem_of m (printk_step put mem_of (p, as)) (p + of_nat (length (chars_of x)), as') o1" by blast
  from Cons.IH[OF r v(2) o(2)] obtain w where
    "prints ready sent mem_of m (?L (p + of_nat (length (chars_of x)), as')) w o2" by blast
  from prints_loop_step[OF _ o(4) this] o(3) show ?case unfolding o(1) by (intro exI[of _ w]) simp
qed

lemma printk_prints:
  assumes "cstr m p (concat (map chars_of ps))" "list_all valid_piece ps" "renders m ps as out"
  shows "prints ready sent mem_of m (printk put mem_of p as) () out"
proof -
  obtain v where "prints ready sent mem_of m (loop (printk_more mem_of) (printk_step put mem_of) (p, as)) v out"
    using printk_loop_renders[OF assms] by blast
  from prints_bnd[OF this prints_ret[of ready sent mem_of m "()"]] show ?thesis unfolding printk_def by simp
qed

end

end
