(* ===== verification/Serial.thy ===== *)
theory Serial
  imports Printk
begin

text \<open>
  \<open>arch/x86_64/log/put.c\<close>: output on the first serial port. \<open>putc\<close> initialises the port on its first
  call, polls the line status register until the transmitter is idle and writes the character.
  \<open>sent\<close> is what the other end of the line receives: the writes to the data port while the divisor
  latch is not selected.
\<close>

section \<open>The code\<close>

definition COM :: u16 where "COM = 0x03f8"
definition THR :: u16 where "THR = COM + 0"
definition DLL :: u16 where "DLL = COM + 0"
definition DLM :: u16 where "DLM = COM + 1"
definition FCR :: u16 where "FCR = COM + 2"
definition LCR :: u16 where "LCR = COM + 3"
definition LSR :: u16 where "LSR = COM + 5"

definition BAUD_MAX :: u32 where "BAUD_MAX = 115200"
definition BAUD_TGT :: u32 where "BAUD_TGT = 115200"
definition DIVISOR :: u32 where "DIVISOR = BAUD_MAX div BAUD_TGT"

datatype data_bits = DATA_BITS_5 | DATA_BITS_6 | DATA_BITS_7 | DATA_BITS_8

fun data_bits_code :: "data_bits \<Rightarrow> u8" where
  "data_bits_code DATA_BITS_5 = 0"
| "data_bits_code DATA_BITS_6 = 1"
| "data_bits_code DATA_BITS_7 = 2"
| "data_bits_code DATA_BITS_8 = 3"

datatype stop_bits = STOP_BITS_1 | STOP_BITS_2

fun stop_bits_code :: "stop_bits \<Rightarrow> u8" where
  "stop_bits_code STOP_BITS_1 = 0"
| "stop_bits_code STOP_BITS_2 = 1"

datatype parity = PARITY_NONE | PARITY_ODD | PARITY_EVEN | PARITY_HIGH | PARITY_LOW

fun parity_code :: "parity \<Rightarrow> u8" where
  "parity_code PARITY_NONE = 0"
| "parity_code PARITY_ODD = 1"
| "parity_code PARITY_EVEN = 3"
| "parity_code PARITY_HIGH = 5"
| "parity_code PARITY_LOW = 7"

text \<open>\<open>union lcr\<close>\<close>

definition lcr_data_bits :: bitfield where "lcr_data_bits = (0, 2)"
definition lcr_stop_bit :: bitfield where "lcr_stop_bit = (2, 1)"
definition lcr_parity :: bitfield where "lcr_parity = (3, 3)"
definition lcr_break_signal_enable :: bitfield where "lcr_break_signal_enable = (6, 1)"
definition lcr_dlab :: bitfield where "lcr_dlab = (7, 1)"

datatype fifo_dma_mode = FIFO_DMA_MODE_0 | FIFO_DMA_MODE_1

fun fifo_dma_mode_code :: "fifo_dma_mode \<Rightarrow> u8" where
  "fifo_dma_mode_code FIFO_DMA_MODE_0 = 0"
| "fifo_dma_mode_code FIFO_DMA_MODE_1 = 1"

datatype fifo_size = FIFO_SIZE_1B | FIFO_SIZE_4B | FIFO_SIZE_8B | FIFO_SIZE_14B

fun fifo_size_code :: "fifo_size \<Rightarrow> u8" where
  "fifo_size_code FIFO_SIZE_1B = 0"
| "fifo_size_code FIFO_SIZE_4B = 1"
| "fifo_size_code FIFO_SIZE_8B = 2"
| "fifo_size_code FIFO_SIZE_14B = 3"

text \<open>\<open>union fcr\<close>\<close>

definition fcr_enable_fifo :: bitfield where "fcr_enable_fifo = (0, 1)"
definition fcr_clear_rx_fifo :: bitfield where "fcr_clear_rx_fifo = (1, 1)"
definition fcr_clear_tx_fifo :: bitfield where "fcr_clear_tx_fifo = (2, 1)"
definition fcr_fifo_dma_mode :: bitfield where "fcr_fifo_dma_mode = (3, 1)"
definition fcr_fifo_size :: bitfield where "fcr_fifo_size = (6, 2)"

text \<open>\<open>union lsr\<close>\<close>

definition lsr_thr_is_empty_and_idle :: bitfield where "lsr_thr_is_empty_and_idle = (6, 1)"

definition init_serial :: "(machine, unit) kern" where
  "init_serial =
     bnd (io_inb LCR) (\<lambda>lcr.
     let lcr = set_field lcr_dlab 1 lcr in
     thn (io_outb LCR lcr)
     (thn (io_outb DLL (ucast (DIVISOR AND 0xff)))
     (thn (io_outb DLM (ucast (drop_bit 8 DIVISOR AND 0xff)))
     (let lcr = set_field lcr_data_bits (data_bits_code DATA_BITS_8) lcr;
          lcr = set_field lcr_stop_bit (stop_bits_code STOP_BITS_1) lcr;
          lcr = set_field lcr_parity (parity_code PARITY_EVEN) lcr;
          lcr = set_field lcr_break_signal_enable 0 lcr;
          lcr = set_field lcr_dlab 0 lcr in
      thn (io_outb LCR lcr)
      (bnd (io_inb FCR) (\<lambda>fcr.
       let fcr = set_field fcr_enable_fifo 1 fcr;
           fcr = set_field fcr_clear_rx_fifo 1 fcr;
           fcr = set_field fcr_clear_tx_fifo 1 fcr;
           fcr = set_field fcr_fifo_dma_mode (fifo_dma_mode_code FIFO_DMA_MODE_0) fcr;
           fcr = set_field fcr_fifo_size (fifo_size_code FIFO_SIZE_14B) fcr in
       thn (io_outb FCR fcr) (modify (\<lambda>s. s\<lparr>serial_initialized := True\<rparr>))))))))"

text \<open>The polling loop runs until the register it has read last says idle; its first round is unconditional.\<close>

definition poll_more :: "u8 option \<Rightarrow> machine \<Rightarrow> bool" where
  "poll_more lsr s \<longleftrightarrow> (case lsr of None \<Rightarrow> True | Some raw \<Rightarrow> get_field lsr_thr_is_empty_and_idle raw = 0)"

definition poll_step :: "u8 option \<Rightarrow> (machine, u8 option) kern" where
  "poll_step lsr = bnd (io_inb LSR) (\<lambda>raw. ret (Some raw))"

definition putc :: "u8 \<Rightarrow> (machine, unit) kern" where
  "putc c =
     bnd (gets serial_initialized) (\<lambda>initialized.
     thn (if initialized then ret () else init_serial)
     (thn (loop poll_more poll_step None) (io_outb THR c)))"

section \<open>Initialisation\<close>

lemma lcr_final:
  "set_field lcr_dlab 0 (set_field lcr_break_signal_enable 0 (set_field lcr_parity 3
     (set_field lcr_stop_bit 0 (set_field lcr_data_bits 3 raw)))) = 0x1b"
proof (rule bit_word_eqI)
  fix n assume "n < LENGTH(8)"
  then have "n \<in> {0, 1, 2, 3, 4, 5, 6, 7}" by auto
  then show "bit (set_field lcr_dlab 0 (set_field lcr_break_signal_enable 0 (set_field lcr_parity 3
      (set_field lcr_stop_bit 0 (set_field lcr_data_bits 3 raw))))) n = bit (0x1b :: u8) n"
    unfolding lcr_dlab_def lcr_break_signal_enable_def lcr_parity_def lcr_stop_bit_def lcr_data_bits_def bit_set_field
    by (elim insertE emptyE) simp_all
qed

lemma fcr_final:
  "set_field fcr_fifo_size 3 (set_field fcr_fifo_dma_mode 0 (set_field fcr_clear_tx_fifo 1
     (set_field fcr_clear_rx_fifo 1 (set_field fcr_enable_fifo 1 raw)))) = (raw AND 0x30) OR 0xc7"
proof (rule bit_word_eqI)
  fix n assume "n < LENGTH(8)"
  then have "n \<in> {0, 1, 2, 3, 4, 5, 6, 7}" by auto
  then show "bit (set_field fcr_fifo_size 3 (set_field fcr_fifo_dma_mode 0 (set_field fcr_clear_tx_fifo 1
     (set_field fcr_clear_rx_fifo 1 (set_field fcr_enable_fifo 1 raw))))) n = bit ((raw AND 0x30) OR 0xc7) n"
    unfolding fcr_fifo_size_def fcr_fifo_dma_mode_def fcr_clear_tx_fifo_def fcr_clear_rx_fifo_def fcr_enable_fifo_def
      bit_set_field bit_or_iff bit_and_iff
    by (elim insertE emptyE) simp_all
qed

text \<open>The port accesses of \<open>init_serial\<close>, given what the two reads return.\<close>

definition init_events :: "u8 \<Rightarrow> u8 \<Rightarrow> io_event list" where
  "init_events lcr fcr =
     [In LCR lcr, Out LCR (set_field lcr_dlab 1 lcr), Out DLL 1, Out DLM 0, Out LCR 0x1b, In FCR fcr,
      Out FCR ((fcr AND 0x30) OR 0xc7)]"

lemma init_serial_run:
  obtains lcr fcr where
    "init_serial s = Inr ((), s\<lparr>trace := trace s @ init_events lcr fcr, serial_initialized := True\<rparr>)"
proof -
  obtain lcr where lcr: "device s (trace s) LCR = lcr" by simp
  obtain fcr where fcr: "device s (trace s @ [In LCR lcr, Out LCR (set_field lcr_dlab 1 lcr), Out DLL 1, Out DLM 0, Out LCR 0x1b]) FCR = fcr"
    by simp
  have d: "DIVISOR = 1" by (simp add: DIVISOR_def BAUD_MAX_def BAUD_TGT_def)
  show thesis
    by (rule that[of lcr fcr]) (simp add: init_serial_def Let_def d lcr_final fcr_final init_events_def kern lcr fcr del: set_field.simps)
qed

section \<open>The line\<close>

text \<open>The state of the divisor latch bit and the bytes sent, after an access.\<close>

fun line_step :: "io_event \<Rightarrow> bool \<times> u8 list \<Rightarrow> bool \<times> u8 list" where
  "line_step (Out p b) (latch, out) =
     (if p = LCR then (bit b 7, out) else if p = THR \<and> \<not> latch then (latch, out @ [b]) else (latch, out))"
| "line_step (In p b) st = st"

definition line :: "io_event list \<Rightarrow> bool \<times> u8 list" where
  "line tr = fold line_step tr (False, [])"

definition sent :: "machine \<Rightarrow> u8 list" where
  "sent s = snd (line (trace s))"

definition latch :: "machine \<Rightarrow> bool" where
  "latch s = fst (line (trace s))"

lemma ports_differ [simp]: "LCR \<noteq> THR" "DLL = THR" "DLM \<noteq> LCR" "DLM \<noteq> THR" "FCR \<noteq> LCR" "FCR \<noteq> THR" "THR \<noteq> LCR"
  by (simp_all add: COM_def THR_def DLL_def DLM_def FCR_def LCR_def)

lemma line_append: "line (tr @ tr') = fold line_step tr' (line tr)"
  by (simp add: line_def)

lemma set_dlab: "set_field lcr_dlab 1 lcr = lcr OR 0x80"
proof (rule bit_word_eqI)
  fix n assume "n < LENGTH(8)"
  then have "n \<in> {0, 1, 2, 3, 4, 5, 6, 7}" by auto
  then show "bit (set_field lcr_dlab 1 lcr) n = bit (lcr OR 0x80) n"
    unfolding lcr_dlab_def bit_set_field bit_or_iff by (elim insertE emptyE) simp_all
qed

lemma init_serial_line:
  "line (tr @ init_events lcr fcr) = (False, snd (line tr))"
proof -
  have "bit (set_field lcr_dlab 1 lcr) 7" unfolding lcr_dlab_def bit_set_field by simp
  moreover have "\<not> bit (0x1b :: u8) 7" by simp
  ultimately show ?thesis unfolding line_append init_events_def by (cases "line tr") simp
qed

section \<open>Polling\<close>

text \<open>\<open>idle_soon d h\<close>: polling the line status again and again after the accesses \<open>h\<close>, the device \<open>d\<close>
  reports at some time that the transmitter is idle.\<close>

inductive idle_soon :: "(io_event list \<Rightarrow> u16 \<Rightarrow> u8) \<Rightarrow> io_event list \<Rightarrow> bool" for d where
  now: "get_field lsr_thr_is_empty_and_idle (d h LSR) \<noteq> 0 \<Longrightarrow> idle_soon d h"
| later: "get_field lsr_thr_is_empty_and_idle (d h LSR) = 0 \<Longrightarrow> idle_soon d (h @ [In LSR (d h LSR)]) \<Longrightarrow> idle_soon d h"

inductive_simps idle_soon_step: "idle_soon d h"

lemma poll_step_run: "poll_step v s = Inr (Some (device s (trace s) LSR), s\<lparr>trace := trace s @ [In LSR (device s (trace s) LSR)]\<rparr>)"
  by (simp add: poll_step_def kern)

lemma poll_first: "loop poll_more poll_step v s = loop poll_more poll_step (Some (device s (trace s) LSR))
      (s\<lparr>trace := trace s @ [In LSR (device s (trace s) LSR)]\<rparr>)" if "poll_more v s"
  using that by (rule loop_step) (rule poll_step_run)

lemma poll_returns:
  "idle_soon d h \<Longrightarrow> device s = d \<Longrightarrow> trace s = h \<Longrightarrow> poll_more v s \<Longrightarrow>
    \<exists>r tr. loop poll_more poll_step v s = Inr (r, s\<lparr>trace := trace s @ tr\<rparr>) \<and> (\<forall>e\<in>set tr. \<exists>b. e = In LSR b)"
proof (induction arbitrary: s v rule: idle_soon.induct)
  case (now h)
  let ?b = "device s (trace s) LSR" and ?s = "s\<lparr>trace := trace s @ [In LSR (device s (trace s) LSR)]\<rparr>"
  have "\<not> poll_more (Some ?b) ?s" using now by (simp add: poll_more_def)
  then have "loop poll_more poll_step v s = Inr (Some ?b, ?s)" using poll_first[OF now.prems(3)] by (simp add: loop_stop)
  then show ?case by (intro exI[of _ "Some ?b"] exI[of _ "[In LSR ?b]"]) simp
next
  case (later h)
  let ?b = "device s (trace s) LSR" and ?s = "s\<lparr>trace := trace s @ [In LSR (device s (trace s) LSR)]\<rparr>"
  have "device ?s = d" "trace ?s = h @ [In LSR (d h LSR)]" "poll_more (Some ?b) ?s"
    using later.hyps(1) later.prems by (simp_all add: poll_more_def)
  from later.IH[OF this] obtain r tr where
    "loop poll_more poll_step (Some ?b) ?s = Inr (r, ?s\<lparr>trace := trace ?s @ tr\<rparr>)" "\<forall>e\<in>set tr. \<exists>b. e = In LSR b" by blast
  then show ?case using poll_first[OF later.prems(3)]
    by (intro exI[of _ r] exI[of _ "In LSR ?b # tr"]) simp
qed

lemma poll_diverges:
  assumes "\<not> idle_soon (device s) (trace s)" "poll_more v s"
  shows "loop poll_more poll_step v s = Inl Diverges"
proof (rule loop_never[where I = "\<lambda>v s. poll_more v s \<and> \<not> idle_soon (device s) (trace s)"])
  show "poll_more v s \<and> \<not> idle_soon (device s) (trace s)" using assms by blast
next
  fix v s assume I: "poll_more v s \<and> \<not> idle_soon (device s) (trace s)"
  then have "get_field lsr_thr_is_empty_and_idle (device s (trace s) LSR) = 0 \<and>
      \<not> idle_soon (device s) (trace s @ [In LSR (device s (trace s) LSR)])"
    by (metis now later)
  then show "poll_more v s \<and> (\<exists>v' s'. poll_step v s = Inr (v', s') \<and> poll_more v' s' \<and> \<not> idle_soon (device s') (trace s'))"
    using I by (simp add: poll_step_run poll_more_def)
qed


section \<open>Output\<close>

text \<open>The device always becomes idle again, and the data port is the transmitter once the port is initialised.\<close>

definition line_ready :: "machine \<Rightarrow> bool" where
  "line_ready s \<longleftrightarrow> (\<forall>h. idle_soon (device s) h) \<and> (serial_initialized s \<longrightarrow> \<not> latch s)"

lemma polls_line: "\<forall>e\<in>set tr. \<exists>b. e = In LSR b \<Longrightarrow> fold line_step tr st = st"
proof (induction tr arbitrary: st)
  case (Cons e tr)
  then obtain b where "e = In LSR b" by auto
  with Cons show ?case by simp
qed simp

lemma putc_run:
  assumes r: "line_ready s"
  obtains tr where "putc c s = Inr ((), s\<lparr>trace := trace s @ tr, serial_initialized := True\<rparr>)"
    "line (trace s @ tr) = (False, sent s @ [c])"
proof -
  obtain tr0 where t0: "(if serial_initialized s then ret () else init_serial) s =
      Inr ((), s\<lparr>trace := trace s @ tr0, serial_initialized := True\<rparr>)" "line (trace s @ tr0) = (False, sent s)"
  proof (cases "serial_initialized s")
    case True
    then have "line (trace s) = (False, sent s)" using r by (simp add: line_ready_def latch_def sent_def prod_eq_iff)
    then show thesis using True by (intro that[of "[]"]) (simp_all add: kern)
  next
    case False
    obtain lcr fcr where
      i: "init_serial s = Inr ((), s\<lparr>trace := trace s @ init_events lcr fcr, serial_initialized := True\<rparr>)"
      by (rule init_serial_run)
    show thesis by (rule that[of "init_events lcr fcr"]) (use False i in \<open>simp_all add: init_serial_line sent_def\<close>)
  qed
  let ?s = "s\<lparr>trace := trace s @ tr0, serial_initialized := True\<rparr>"
  have "idle_soon (device s) (trace s @ tr0)" using r by (simp add: line_ready_def)
  then obtain v tr1 where t1: "loop poll_more poll_step None ?s = Inr (v, ?s\<lparr>trace := trace ?s @ tr1\<rparr>)"
    "\<forall>e\<in>set tr1. \<exists>b. e = In LSR b"
    using poll_returns[of "device s" "trace s @ tr0" ?s None] by (auto simp: poll_more_def)
  have run: "putc c s = Inr ((), s\<lparr>trace := trace s @ (tr0 @ tr1 @ [Out THR c]), serial_initialized := True\<rparr>)"
    using t0(1) t1(1) by (simp add: putc_def thn_Inr kern)
  have "line (trace s @ (tr0 @ tr1 @ [Out THR c])) = (False, sent s @ [c])"
    using t0(2) polls_line[OF t1(2)] by (simp add: line_def)
  then show thesis using that[of "tr0 @ tr1 @ [Out THR c]"] run by blast
qed

text \<open>The serial port is a console.\<close>

interpretation serial: console line_ready sent ram putc
proof unfold_locales
  fix m c
  show "prints line_ready sent ram m (putc c) () [c]"
    unfolding prints_def
  proof (intro allI impI)
    fix s assume r: "line_ready s" and m: "ram s = m"
    obtain tr where t: "putc c s = Inr ((), s\<lparr>trace := trace s @ tr, serial_initialized := True\<rparr>)"
      "line (trace s @ tr) = (False, sent s @ [c])" by (rule putc_run[OF r])
    then show "\<exists>s'. putc c s = Inr ((), s') \<and> sent s' = sent s @ [c] \<and> line_ready s' \<and> ram s' = m"
      using r[unfolded line_ready_def, THEN conjunct1] m by (simp add: sent_def line_ready_def latch_def del: split_paired_All)
  qed
qed

lemma serial_initialized_puts:
  assumes "serial_initialized s"
  shows "putc c s = (case loop poll_more poll_step None s of Inl e \<Rightarrow> Inl e | Inr (v, s') \<Rightarrow> io_outb THR c s')"
  using assms by (simp add: putc_def thn_def bnd_def kern split: sum.splits prod.splits)

text \<open>C27: On an initialised port \<open>putc\<close> returns exactly if the line status register reports an idle
  transmitter after finitely many reads; otherwise it polls forever.\<close>

theorem putc_returns_iff_idle:
  assumes "serial_initialized s"
  shows "((\<exists>s'. putc c s = Inr ((), s')) \<longleftrightarrow> idle_soon (device s) (trace s)) \<and>
    (\<not> idle_soon (device s) (trace s) \<longrightarrow> putc c s = Inl Diverges)"
proof (cases "idle_soon (device s) (trace s)")
  case True
  then obtain r tr where "loop poll_more poll_step None s = Inr (r, s\<lparr>trace := trace s @ tr\<rparr>)"
    using poll_returns[of "device s" "trace s" s None] by (auto simp: poll_more_def)
  with True show ?thesis by (simp add: serial_initialized_puts[OF assms] kern)
next
  case False
  then have "loop poll_more poll_step None s = Inl Diverges" by (rule poll_diverges) (simp add: poll_more_def)
  with False show ?thesis by (simp add: serial_initialized_puts[OF assms])
qed

text \<open>The first \<open>putc\<close> programs the port (eight data bits, even parity, one stop bit, divisor 1) and sends
  its character, whatever the registers held before; no byte of the initialisation reaches the line.\<close>

theorem first_putc_initialises:
  assumes "\<forall>h. idle_soon (device s) h" "\<not> serial_initialized s"
  shows "\<exists>s' lcr fcr rest. putc c s = Inr ((), s') \<and> serial_initialized s' \<and> \<not> latch s' \<and> sent s' = sent s @ [c] \<and>
    trace s' = trace s @ [In LCR lcr, Out LCR (lcr OR 0x80), Out DLL 1, Out DLM 0, Out LCR 0x1b,
      In FCR fcr, Out FCR ((fcr AND 0x30) OR 0xc7)] @ rest @ [Out THR c]"
proof -
  obtain lcr fcr where
    i: "init_serial s = Inr ((), s\<lparr>trace := trace s @ init_events lcr fcr, serial_initialized := True\<rparr>)"
    by (rule init_serial_run)
  let ?init = "init_events lcr fcr"
  let ?s = "s\<lparr>trace := trace s @ ?init, serial_initialized := True\<rparr>"
  obtain v rest where p: "loop poll_more poll_step None ?s = Inr (v, ?s\<lparr>trace := trace ?s @ rest\<rparr>)"
    "\<forall>e\<in>set rest. \<exists>b. e = In LSR b"
    using poll_returns[of "device s" "trace s @ ?init" ?s None] assms(1) by (auto simp: poll_more_def)
  have "putc c s = Inr ((), ?s\<lparr>trace := trace s @ ?init @ rest @ [Out THR c]\<rparr>)"
    using assms(2) i p(1) by (simp add: putc_def thn_Inr kern)
  moreover have "line (trace s @ ?init @ rest @ [Out THR c]) = (False, sent s @ [c])"
    using init_serial_line[of "trace s" lcr fcr] polls_line[OF p(2)]
    by (simp add: line_def sent_def)
  ultimately show ?thesis
    by (intro exI[of _ "?s\<lparr>trace := trace s @ ?init @ rest @ [Out THR c]\<rparr>"] exI[of _ lcr] exI[of _ fcr] exI[of _ rest])
      (simp add: sent_def latch_def init_events_def set_dlab)
qed

end
