(* ===== verification/Log.thy ===== *)
theory Log
  imports Serial Pm_demo
begin

text \<open>
  \<open>printk\<close> on the serial port: the results about printing hold for it because the port is a console.
  The witnesses print on a machine whose transmitter is always idle.
\<close>

lemma serial_prints:
  assumes "prints line_ready sent ram (ram s) c x out" "line_ready s"
  shows "\<exists>s'. c s = Inr (x, s') \<and> sent s' = sent s @ out \<and> line_ready s' \<and> ram s' = ram s"
  using assms by (simp add: prints_def)

text \<open>C24: A format made of plain characters, \<open>%%\<close> and the directives of the reference prints what the reference
  says, in order and nothing else, and returns; memory does not change.\<close>

theorem printk_renders:
  assumes "line_ready s" "cstr (ram s) fmt (concat (map chars_of ps))" "list_all valid_piece ps" "renders (ram s) ps as out"
  shows "\<exists>s'. printk putc ram fmt as s = Inr ((), s') \<and> sent s' = sent s @ out \<and> ram s' = ram s"
  using serial_prints[OF serial.printk_prints[OF assms(2-4)] assms(1)] by blast

text \<open>C25: Numbers can be read back from the line: the digits of \<open>print_unsigned\<close> and \<open>print_hex\<close> denote the number,
  there are at least as many as the width asks for, and no width overflows the buffer.\<close>

theorem printed_numbers_read_back:
  assumes "line_ready s" "zeros \<le> BUF_SIZE"
  shows "(\<exists>s' xs. print_unsigned putc zeros n s = Inr ((), s') \<and> sent s' = sent s @ xs \<and>
      number_read 10 dec_value xs = unat n \<and> unat zeros \<le> length xs) \<and>
    (\<exists>s' xs. print_hex putc zeros n cap s = Inr ((), s') \<and> sent s' = sent s @ xs \<and>
      number_read 16 (hex_value cap) xs = unat n \<and> unat zeros \<le> length xs)"
proof
  let ?d = "padded zeros (decimal (unat n))" and ?h = "padded zeros (hexadecimal cap (unat n))"
  have "number_read 10 dec_value ?d = unat n"
    unfolding padded_def by (subst read_zeros) (simp_all add: read_numeral dec_value_char dec_value_def[of 48])
  moreover have "unat zeros \<le> length ?d" by (simp add: padded_def)
  ultimately show "\<exists>s' xs. print_unsigned putc zeros n s = Inr ((), s') \<and> sent s' = sent s @ xs \<and>
      number_read 10 dec_value xs = unat n \<and> unat zeros \<le> length xs"
    using serial_prints[OF serial.unsigned_prints[OF assms(2)] assms(1)] by blast
  have "number_read 16 (hex_value cap) ?h = unat n"
    unfolding padded_def by (subst read_zeros) (simp_all add: read_numeral hex_value_char hex_value_def[of cap 48])
  moreover have "unat zeros \<le> length ?h" by (simp add: padded_def)
  ultimately show "\<exists>s' xs. print_hex putc zeros n cap s = Inr ((), s') \<and> sent s' = sent s @ xs \<and>
      number_read 16 (hex_value cap) xs = unat n \<and> unat zeros \<le> length xs"
    using serial_prints[OF serial.hex_prints assms(1)] by blast
qed

text \<open>A format that ends in a percent sign is read on behind its terminator: \<open>printk\<close> goes on as if the
  byte after the terminator were the rest of the format.\<close>

theorem printk_reads_past_the_end:
  assumes "ram s fmt = ch CHR ''%''" "ram s (fmt + 1) = 0"
  shows "printk putc ram fmt as s = printk putc ram (fmt + 2) as s"
proof -
  let ?L = "loop mod_more (mod_step putc ram)"
  have "mod_step putc ram (fmt, as, no_flags, True) s = Inr ((fmt + 1, as, no_flags, False), s)"
    using assms(2) by (simp add: mod_case_def is_digit_def kern)
  then have "?L (fmt, as, no_flags, True) s = ?L (fmt + 1, as, no_flags, False) s" by (rule loop_step[rotated]) simp
  also have "\<dots> = Inr ((fmt + 1, as, no_flags, False), s)" by (rule loop_stop) simp
  finally have l: "?L (fmt, as, no_flags, True) s = Inr ((fmt + 1, as, no_flags, False), s)" .
  have "printk_step putc ram (fmt, as) s = Inr ((fmt + 2, as), s)"
    using assms(1) by (simp add: bnd_Inr l kern del: mod_step.simps mod_more.simps)
  then have "loop (printk_more ram) (printk_step putc ram) (fmt, as) s = loop (printk_more ram) (printk_step putc ram) (fmt + 2, as) s"
    by (rule loop_step[rotated]) (use assms(1) in simp)
  then show ?thesis by (simp add: printk_def bnd_def del: printk_step.simps)
qed

text \<open>A binary conversion of 32 or 64 bits shifts an \<open>int\<close> too far; zero without a width has no digit at all.\<close>

lemma binary_undefined: "print_binary put 4 n s = Inl Undefined" "print_binary put 8 n s = Inl Undefined"
  by (simp_all add: print_binary_def kern)

lemma zero_has_no_digit:
  assumes "line_ready s"
  shows "\<exists>s'. print_unsigned putc 0 0 s = Inr ((), s') \<and> sent s' = sent s"
  using serial_prints[OF serial.unsigned_prints[of 0 _ 0] assms] by (auto simp: padded_def BUF_SIZE_def)

section \<open>A concrete machine\<close>

text \<open>The format at \<open>0x9000\<close> is \<open>n%04lu\<close>, the one at \<open>0x9100\<close> a lone percent sign.\<close>

definition demo_machine :: machine where
  "demo_machine = \<lparr>kernel = demo_state\<lparr>mem := demo_memory(0x9000 := 0x6e, 0x9001 := 0x25, 0x9002 := 0x30, 0x9003 := 0x34,
       0x9004 := 0x6c, 0x9005 := 0x75, 0x9006 := 0, 0x9100 := 0x25, 0x9101 := 0)\<rparr>,
     trace = [], device = (\<lambda>h p. 0x60), cpuid_of = (\<lambda>c. \<lparr>eax = 0, ebx = 0, ecx = 0xffffffff, edx = 0xffffffff\<rparr>),
     serial_initialized = False, use_new_pic = False, interrupts = False, idtr = (0, 0), reg_cr0 = 0x80000005, reg_cr4 = 0x20,
     acpi_root = 0, acpi_tbls = 0, a_isrs = 0x20000, a_idt = 0x22000, a_isr = (\<lambda>n. 0xffffffff80012000 + of_nat (16 * n)),
     a_pit_handler = 0xffffffff80013000, a_known_tbls = 0x9200, seg_regs = (\<lambda>r. 0), gdtr = (0, 0), a_gdt = 0x23000\<rparr>"

lemma demo_idle: "idle_soon (device demo_machine) h"
proof (rule idle_soon.now)
  have "bit (get_field (6, 1) (0x60 :: u8)) 0" by (simp add: bit_simps bit_iff_odd)
  then show "get_field lsr_thr_is_empty_and_idle (device demo_machine h LSR) \<noteq> 0"
    by (auto simp: demo_machine_def lsr_thr_is_empty_and_idle_def)
qed

lemma demo_ready: "line_ready demo_machine"
  using demo_idle by (simp add: line_ready_def) (simp add: demo_machine_def)

lemma putc_returns_iff_idle_witness: "\<exists>s'. putc 0x41 (demo_machine\<lparr>serial_initialized := True\<rparr>) = Inr ((), s')"
  using putc_returns_iff_idle[of "demo_machine\<lparr>serial_initialized := True\<rparr>" "0x41"] demo_idle by simp

lemma first_putc_initialises_witness: "\<exists>s'. putc 0x41 demo_machine = Inr ((), s') \<and> sent s' = sent demo_machine @ [0x41]"
proof -
  have "\<forall>h. idle_soon (device demo_machine) h" "\<not> serial_initialized demo_machine"
    using demo_idle by (blast, simp add: demo_machine_def)
  from first_putc_initialises[OF this, of "0x41"] show ?thesis by blast
qed

lemma printk_renders_witness:
  "\<exists>s'. printk putc ram 0x9000 [42] demo_machine = Inr ((), s') \<and> sent s' = sent demo_machine @ map ch ''n0042''"
proof -
  let ?ps = "[Lit (ch CHR ''n''), Conv [ch CHR ''4''] 1 Uns]"
  have "cstr (ram demo_machine) 0x9000 (concat (map chars_of ?ps))" by (simp add: demo_machine_def)
  moreover have "list_all valid_piece ?ps" by (simp add: is_digit_def width_def BUF_SIZE_def)
  moreover have "renders (ram demo_machine) ?ps [42] (ch CHR ''n'' # map ch ''0042'' @ [])"
  proof (intro renders.lit renders.conv renders.done_all)
    have d: "decimal 42 = map ch ''42''"
      by (simp add: numeral_of.simps[of 10 _ 42] numeral_of.simps[of 10 _ 4] dec_char_def)
    have p: "padded 4 (map ch ''42'') = map ch ''0042''" by (simp add: padded_def) (simp add: numeral_2_eq_2)
    have w: "width [ch CHR ''4''] = 4" "narrow True 42 = 42" "unat (42 :: u64) = 42" by (simp_all add: width_def narrow_def)
    show "conv_text (ram demo_machine) (width [ch CHR ''4'']) (0 < (1 :: nat)) Uns 42 (map ch ''0042'')"
      using d p w by (simp only: conv_text.simps zero_less_one)
  qed
  ultimately show ?thesis using printk_renders[OF demo_ready] by fastforce
qed

lemma printed_numbers_read_back_witness:
  "\<exists>s' xs. print_unsigned putc 20 0xffffffffffffffff demo_machine = Inr ((), s') \<and> sent s' = sent demo_machine @ xs \<and>
      number_read 10 dec_value xs = 0xffffffffffffffff"
  using printed_numbers_read_back[OF demo_ready, of 20 "0xffffffffffffffff" True] by (auto simp: BUF_SIZE_def)

lemma printk_reads_past_the_end_witness:
  "printk putc ram 0x9100 [] demo_machine = printk putc ram 0x9102 [] demo_machine"
  using printk_reads_past_the_end[of demo_machine "0x9100" "[]"] by (simp add: demo_machine_def)

end
