(* ===== verification/Vm.thy ===== *)
theory Vm
  imports Pm
begin

text \<open>
  \<open>mm/vm.c\<close>: page tables of four levels and the operations on them. A \<open>struct pt*\<close> is a virtual
  address: above \<open>PT_TMP_START_VADDR\<close> it is a slot of the temporary window, whose page is named by
  an entry of the table \<open>tmp_pt\<close>; below it is the higher half image of physical memory. The array
  \<open>indices\<close> is a list, and the pointer \<open>index + 1\<close> of a recursive call is its tail, so that the
  recursions are structural. Values that the code returns through pointers are part of the result.
\<close>

section \<open>Entries and addresses\<close>

type_synonym flags = "32 word"

definition VM_FLAG_READ :: flags where
  "VM_FLAG_READ = 0"

definition VM_FLAG_STRICT :: flags where
  "VM_FLAG_STRICT = push_bit 0 1"

definition VM_FLAG_USER :: flags where
  "VM_FLAG_USER = push_bit 1 1"

definition VM_FLAG_WRITABLE :: flags where
  "VM_FLAG_WRITABLE = push_bit 2 1"

definition VM_FLAG_EXECUTABLE :: flags where
  "VM_FLAG_EXECUTABLE = push_bit 3 1"

definition ISFLAGSET :: "flags \<Rightarrow> flags \<Rightarrow> bool" where
  "ISFLAGSET flags flag \<longleftrightarrow> flags AND flag \<noteq> 0"

definition ISFLAGUNSET :: "flags \<Rightarrow> flags \<Rightarrow> bool" where
  "ISFLAGUNSET flags flag \<longleftrightarrow> flags AND flag = 0"

definition PT_LENGTH :: u64 where
  "PT_LENGTH = 512"

definition PT_SIZE :: u64 where
  "PT_SIZE = PAGE_SIZE"

definition PT_TMP_START_VADDR :: addr where
  "PT_TMP_START_VADDR = 0xffffffffffe00000"

definition PT_NUM_LEVELS :: nat where
  "PT_NUM_LEVELS = 4"

definition PT_LAST_LEVEL :: nat where
  "PT_LAST_LEVEL = PT_NUM_LEVELS - 1"

text \<open>\<open>union pte\<close>: the bit fields of the word \<open>bytes\<close>.\<close>

type_synonym pte = u64

definition present :: "pte \<Rightarrow> bool" where
  "present e \<longleftrightarrow> bit e 0"

definition writable :: "pte \<Rightarrow> bool" where
  "writable e \<longleftrightarrow> bit e 1"

definition user_accessible :: "pte \<Rightarrow> bool" where
  "user_accessible e \<longleftrightarrow> bit e 2"

definition no_execute :: "pte \<Rightarrow> bool" where
  "no_execute e \<longleftrightarrow> bit e 63"

definition put_bit :: "nat \<Rightarrow> bool \<Rightarrow> pte \<Rightarrow> pte" where
  "put_bit n b e = (if b then set_bit n e else unset_bit n e)"

definition PTEPADDR :: "pte \<Rightarrow> addr" where
  "PTEPADDR e = e AND 0x000ffffffffff000"

definition set_pte :: "addr \<Rightarrow> flags \<Rightarrow> pte" where
  "set_pte addr flags =
     put_bit 63 (ISFLAGUNSET flags VM_FLAG_EXECUTABLE)
       (put_bit 2 (ISFLAGSET flags VM_FLAG_USER)
         (put_bit 1 (ISFLAGSET flags VM_FLAG_WRITABLE)
           (put_bit 0 True (addr AND 0x000ffffffffff000))))"

text \<open>\<open>union vaddr\<close>: the index fields of an address.\<close>

definition pt_index :: "addr \<Rightarrow> u64" where
  "pt_index v = drop_bit 12 v AND 0x1ff"

definition pd_index :: "addr \<Rightarrow> u64" where
  "pd_index v = drop_bit 21 v AND 0x1ff"

definition pdp_index :: "addr \<Rightarrow> u64" where
  "pdp_index v = drop_bit 30 v AND 0x1ff"

definition pml4_index :: "addr \<Rightarrow> u64" where
  "pml4_index v = drop_bit 39 v AND 0x1ff"

definition put_index :: "nat \<Rightarrow> u64 \<Rightarrow> addr \<Rightarrow> addr" where
  "put_index n i v = (v AND NOT (push_bit n 0x1ff)) OR push_bit n (i AND 0x1ff)"

definition indices_of :: "addr \<Rightarrow> u64 list" where
  "indices_of v = [pml4_index v, pdp_index v, pd_index v, pt_index v]"

section \<open>Access to tables\<close>

definition tmp_frame :: "kst \<Rightarrow> addr" where
  "tmp_frame s = a_tmp_pt (sym s) - HIGHER_HALF (sym s)"

text \<open>The physical page behind a pointer to a table; \<open>None\<close> if the access faults.\<close>

definition pt_page :: "kst \<Rightarrow> addr \<Rightarrow> addr option" where
  "pt_page s pt =
     (if pt \<ge> PT_TMP_START_VADDR then
        let e = frames s (tmp_frame s) (unat (pt_index pt))
        in if present e then Some (PTEPADDR e) else None
      else Some (pt - HIGHER_HALF (sym s)))"

definition set_entry :: "addr \<Rightarrow> nat \<Rightarrow> pte \<Rightarrow> kst \<Rightarrow> kst" where
  "set_entry f i v s = s\<lparr>frames := (frames s)(f := (frames s f)(i := v))\<rparr>"

definition rd_pte :: "addr \<Rightarrow> u64 \<Rightarrow> (kst, pte) kern" where
  "rd_pte pt i =
     (if i < PT_LENGTH then
        bnd (gets (\<lambda>s. pt_page s pt)) (\<lambda>page.
          case page of None \<Rightarrow> halt PageFault | Some f \<Rightarrow> gets (\<lambda>s. frames s f (unat i)))
      else halt Undefined)"

definition wr_pte :: "addr \<Rightarrow> u64 \<Rightarrow> pte \<Rightarrow> (kst, unit) kern" where
  "wr_pte pt i v =
     (if i < PT_LENGTH then
        bnd (gets (\<lambda>s. pt_page s pt)) (\<lambda>page.
          case page of None \<Rightarrow> halt PageFault | Some f \<Rightarrow> modify (set_entry f (unat i) v))
      else halt Undefined)"

text \<open>
  \<open>mem_set(p, 0, n)\<close> on the temporary window. It stores \<open>written n\<close> bytes, which for the sizes
  used here are whole words, and each store goes through the entry of the slot it lies in.
\<close>

fun zero_words :: "nat \<Rightarrow> addr \<Rightarrow> (kst, unit) kern" where
  "zero_words 0 a = ret ()"
| "zero_words (Suc n) a = thn (wr_pte a (drop_bit 3 (PAGEOFFSET a)) 0) (zero_words n (a + 8))"

definition mem_set_window :: "addr \<Rightarrow> u64 \<Rightarrow> (kst, unit) kern" where
  "mem_set_window p n = thn (asrt (p \<noteq> 0)) (zero_words (written n div 8) p)"

definition get_pml4_paddr :: "(kst, addr) kern" where
  "get_pml4_paddr = gets cr3"

definition invalidate_page :: "addr \<Rightarrow> (kst, unit) kern" where
  "invalidate_page vaddr = modify (\<lambda>s. s\<lparr>invalidated := vaddr # invalidated s\<rparr>)"

section \<open>The temporary window\<close>

fun next_slot_more :: "bool \<Rightarrow> kst \<Rightarrow> bool" where
  "next_slot_more again s \<longleftrightarrow> again"

definition next_slot_step :: "addr \<Rightarrow> bool \<Rightarrow> (kst, bool) kern" where
  "next_slot_step vaddr again =
     thn (modify (\<lambda>s. s\<lparr>first_free_tmp_index := first_free_tmp_index s + 1\<rparr>))
     (thn (modify (\<lambda>s. if first_free_tmp_index s = pdp_index vaddr \<or> first_free_tmp_index s = pd_index vaddr
                       then s\<lparr>first_free_tmp_index := first_free_tmp_index s + 1\<rparr> else s))
     (gets (\<lambda>s. first_free_tmp_index s < PT_LENGTH \<and>
                present (frames s (tmp_frame s) (unat (first_free_tmp_index s))))))"

definition map_page_tmp :: "addr \<Rightarrow> flags \<Rightarrow> (kst, addr) kern" where
  "map_page_tmp paddr flags =
     bnd (gets first_free_tmp_index) (\<lambda>free.
     thn (asrt (free < PT_LENGTH))
     (let vaddr = put_index 12 (free AND 0x1ff) PT_TMP_START_VADDR in
      thn (modify (\<lambda>s. set_entry (tmp_frame s) (unat (pt_index vaddr)) (set_pte paddr flags) s))
      (bnd (loop next_slot_more (next_slot_step vaddr) True) (\<lambda>again. ret vaddr))))"

definition unmap_page_tmp :: "addr \<Rightarrow> (kst, unit) kern" where
  "unmap_page_tmp vaddr =
     thn (asrt (vaddr \<ge> PT_TMP_START_VADDR))
     (thn (asrt (pt_index vaddr \<noteq> pdp_index PT_TMP_START_VADDR \<and> pt_index vaddr \<noteq> pd_index PT_TMP_START_VADDR))
     (thn (modify (\<lambda>s. set_entry (tmp_frame s) (unat (pt_index vaddr)) 0 s))
     (thn (invalidate_page vaddr)
          (modify (\<lambda>s. if pt_index vaddr < first_free_tmp_index s
                       then s\<lparr>first_free_tmp_index := pt_index vaddr\<rparr> else s)))))"

section \<open>Initialisation\<close>

fun init_path_more :: "u64 list \<times> addr \<Rightarrow> kst \<Rightarrow> bool" where
  "init_path_more (indices, pt) s \<longleftrightarrow> length indices > 1"

fun init_path_step :: "u64 list \<times> addr \<Rightarrow> (kst, u64 list \<times> addr) kern" where
  "init_path_step (indices, pt) =
     bnd (gets (\<lambda>s. (a_tmp_pt (sym s), HIGHER_HALF (sym s)))) (\<lambda>(tmp_pt, half).
     bnd (rd_pte pt (hd indices)) (\<lambda>e.
     if present e \<and> pt \<noteq> tmp_pt then ret (tl indices, PTEPADDR e + half)
     else thn (wr_pte pt (hd indices) (set_pte (tmp_pt - half) VM_FLAG_WRITABLE))
            (ret (tl indices, tmp_pt))))"

fun init_free_more :: "bool \<Rightarrow> kst \<Rightarrow> bool" where
  "init_free_more again s \<longleftrightarrow> again"

definition init_free_step :: "bool \<Rightarrow> (kst, bool) kern" where
  "init_free_step again =
     bnd (gets (\<lambda>s. (a_tmp_pt (sym s), first_free_tmp_index s))) (\<lambda>(tmp_pt, i).
     bnd (rd_pte tmp_pt i) (\<lambda>e.
     if present e then thn (modify (\<lambda>s. s\<lparr>first_free_tmp_index := i + 1\<rparr>)) (ret True)
     else ret False))"

text \<open>
  \<open>mem_set(&tmp_pt, 0, sizeof(struct pt))\<close> runs over the end of \<open>tmp_pt\<close>; the bytes after the
  table belong to \<open>mem\<close>.
\<close>

definition clear_tmp_pt :: "kst \<Rightarrow> kst" where
  "clear_tmp_pt s = s\<lparr>frames := (frames s)(tmp_frame s := (\<lambda>i. if i < 512 then 0 else frames s (tmp_frame s) i)),
     mem := filled (written PT_SIZE - unat PT_SIZE) (a_tmp_pt (sym s) + PT_SIZE) 0 (mem s)\<rparr>"

definition vm_init :: "(kst, unit) kern" where
  "vm_init =
     bnd get_pml4_paddr (\<lambda>paddr.
     thn (modify (\<lambda>s. s\<lparr>kpml4 := paddr + HIGHER_HALF (sym s)\<rparr>))
     (thn (modify clear_tmp_pt)
     (bnd (gets kpml4) (\<lambda>pml4.
      bnd (loop init_path_more init_path_step (indices_of PT_TMP_START_VADDR, pml4)) (\<lambda>(indices, pt).
      thn (modify (\<lambda>s. s\<lparr>first_free_tmp_index := 0\<rparr>))
      (bnd (loop init_free_more init_free_step True) (\<lambda>again.
       LOGSUCCESS ''virtual memory manager initialized'')))))))"

text \<open>The second instruction of \<open>vm_flush_tlb\<close> moves \<open>rax\<close> to itself, so nothing is flushed.\<close>

definition vm_flush_tlb :: "(kst, unit) kern" where
  "vm_flush_tlb = bnd (gets cr3) (\<lambda>rax. ret ())"

section \<open>Building tables\<close>

definition create_pt :: "(kst, addr) kern \<Rightarrow> addr \<Rightarrow> u64 \<Rightarrow> (kst, addr) kern" where
  "create_pt req pt index =
     thn (asrt (index < PT_LENGTH)) (thn (asrt (pt \<noteq> 0))
     (bnd req (\<lambda>paddr.
      bnd (map_page_tmp paddr VM_FLAG_WRITABLE) (\<lambda>vaddr.
      thn (mem_set_window vaddr PT_SIZE)
      (thn (wr_pte pt index (set_pte paddr VM_FLAG_WRITABLE)) (ret vaddr))))))"

definition update_pt_pte_flags :: "addr \<Rightarrow> u64 \<Rightarrow> flags \<Rightarrow> (kst, unit) kern" where
  "update_pt_pte_flags pt index flags =
     thn (asrt (index < PT_LENGTH)) (thn (asrt (pt \<noteq> 0))
     (bnd (rd_pte pt index) (\<lambda>e.
      wr_pte pt index
        (put_bit 63 False (put_bit 2 (ISFLAGSET flags VM_FLAG_USER)
          (put_bit 1 (ISFLAGSET flags VM_FLAG_WRITABLE) e))))))"

fun shift_pages :: "nat \<Rightarrow> u64 \<Rightarrow> u64" where
  "shift_pages 0 pages = pages"
| "shift_pages (Suc n) pages = shift_pages n (push_bit 9 pages)"

definition get_pages_per_entry :: "nat \<Rightarrow> u64" where
  "get_pages_per_entry level = shift_pages (PT_LAST_LEVEL - level) 1"

definition pte_flags_match :: "pte \<Rightarrow> flags \<Rightarrow> bool" where
  "pte_flags_match e flags \<longleftrightarrow>
     ((True \<and> (writable e \<and> ISFLAGSET flags VM_FLAG_WRITABLE)) \<and>
       (user_accessible e \<and> ISFLAGSET flags VM_FLAG_USER)) \<and>
       (no_execute e \<and> ISFLAGUNSET flags VM_FLAG_EXECUTABLE)"

section \<open>Loops inside recursions\<close>

text \<open>
  How a C loop goes on: with the next round, by leaving the loop, or by returning from the function.
  The first argument of a recursion is the number of levels from its table down, so the level is
  \<open>PT_NUM_LEVELS\<close> less that number; at zero the assertion \<open>level < PT_NUM_LEVELS\<close> fails.
\<close>

datatype 'a exit = Go | Break | Return 'a

definition level_of :: "nat \<Rightarrow> nat" where
  "level_of n = PT_NUM_LEVELS - n"

section \<open>Finding space\<close>

type_synonym space_search = "addr \<Rightarrow> u64 list \<Rightarrow> addr \<Rightarrow> u64 \<Rightarrow> flags \<Rightarrow> (kst, status \<times> u64 list) kern"

type_synonym scan = "u64 \<times> u64 list \<times> u64 \<times> status exit"

text \<open>The label \<open>retry_loop\<close> with the increment of the \<open>for\<close> loop that follows it.\<close>

definition retry_scan :: "u64 \<Rightarrow> u64 list \<Rightarrow> (kst, scan) kern" where
  "retry_scan i index = ret (i + 1 + 1, (i + 1) # tl index, 0, Go)"

fun scan_more :: "scan \<Rightarrow> kst \<Rightarrow> bool" where
  "scan_more (i, index, found, x) s \<longleftrightarrow> x = Go"

definition scan_table :: "space_search \<Rightarrow> addr \<Rightarrow> addr \<Rightarrow> u64 \<Rightarrow> flags \<Rightarrow> u64 \<Rightarrow> u64 list \<Rightarrow> u64 \<Rightarrow> (kst, scan) kern" where
  "scan_table rec pt paddr_start pages flags i index found_pages =
     bnd (rd_pte pt (hd index)) (\<lambda>e.
     bnd (map_page_tmp (PTEPADDR e) VM_FLAG_WRITABLE) (\<lambda>pt_vaddr.
     bnd (rec pt_vaddr (tl index) paddr_start pages flags) (\<lambda>(res, rest).
     thn (unmap_page_tmp pt_vaddr)
     (let index = hd index # rest in
      if ISERROR res then
        if res \<noteq> fails EFULL then ret (i, index, found_pages, Return res)
        else retry_scan i index
      else
        let found_pages = found_pages + word_of_int res in
        if res \<ge> sint pages then ret (i, index, found_pages, Return (sint found_pages))
        else if hd rest < PT_LENGTH - 1 then retry_scan i index
        else ret (i + 1, index, found_pages, Go)))))"

fun scan_step :: "space_search \<Rightarrow> nat \<Rightarrow> addr \<Rightarrow> addr \<Rightarrow> u64 \<Rightarrow> flags \<Rightarrow> scan \<Rightarrow> (kst, scan) kern" where
  "scan_step rec level pt paddr_start pages flags (i, index, found_pages, x) =
     (if \<not> (found_pages < pages \<and> i < PT_LENGTH) then ret (i, index, found_pages, Break)
      else bnd (rd_pte pt i) (\<lambda>e.
        if \<not> present e then ret (i, index, found_pages, Break)
        else if level = PT_LAST_LEVEL then
          if ISFLAGSET flags VM_FLAG_STRICT then ret (i, index, found_pages, Return (fails EOVERLAP))
          else if pte_flags_match e flags then ret (i, index, found_pages, Break)
          else retry_scan i index
        else scan_table rec pt paddr_start pages flags i index found_pages))"

fun count_more :: "u64 \<times> addr \<times> u64 \<times> bool \<Rightarrow> kst \<Rightarrow> bool" where
  "count_more (i, paddr, found_pages, broke) s \<longleftrightarrow> \<not> broke"

fun count_step :: "addr \<Rightarrow> u64 \<Rightarrow> u64 \<Rightarrow> flags \<Rightarrow> u64 \<times> addr \<times> u64 \<times> bool \<Rightarrow> (kst, u64 \<times> addr \<times> u64 \<times> bool) kern" where
  "count_step pt pages_per_entry pages flags (i, paddr, found_pages, broke) =
     (if \<not> (found_pages < pages \<and> i < PT_LENGTH) then ret (i, paddr, found_pages, True)
      else bnd (rd_pte pt i) (\<lambda>e.
        if present e \<and> (PTEPADDR e \<noteq> paddr \<or> \<not> pte_flags_match e flags)
        then ret (i, paddr, found_pages, True)
        else ret (i + 1, paddr + PAGE_SIZE, found_pages + pages_per_entry, False)))"

text \<open>One pass from the label \<open>next_free_entry\<close> to the \<open>goto\<close> or the end.\<close>

fun find_more :: "u64 \<times> u64 list \<times> status exit \<Rightarrow> kst \<Rightarrow> bool" where
  "find_more (i, index, x) s \<longleftrightarrow> x = Go"

fun find_step :: "space_search \<Rightarrow> nat \<Rightarrow> addr \<Rightarrow> addr \<Rightarrow> u64 \<Rightarrow> flags \<Rightarrow> u64 \<times> u64 list \<times> status exit \<Rightarrow>
    (kst, u64 \<times> u64 list \<times> status exit) kern" where
  "find_step rec level pt paddr_start pages flags (i, index, x) =
     bnd (loop scan_more (scan_step rec level pt paddr_start pages flags) (i, i # tl index, 0, Go))
       (\<lambda>(i, index, found_pages, x).
     case x of Return res \<Rightarrow> ret (i, index, Return res)
     | _ \<Rightarrow>
       if i \<ge> PT_LENGTH then ret (i, index, Return (fails EFULL))
       else
         bnd (loop count_more (count_step pt (get_pages_per_entry level) pages flags)
               (i, paddr_start, found_pages, False)) (\<lambda>(i, paddr, found_pages, broke).
         if found_pages < pages then
           if ISFLAGSET flags VM_FLAG_STRICT then ret (i, index, Return (fails EOVERLAP))
           else ret (i, index, Go)
         else ret (i, index, Return (sint found_pages))))"

definition find_body :: "space_search \<Rightarrow> nat \<Rightarrow> space_search" where
  "find_body rec level pt index paddr_start pages flags =
     bnd (loop find_more (find_step rec level pt paddr_start pages flags) (hd index, index, Go))
       (\<lambda>(i, index, x). case x of Return res \<Rightarrow> ret (res, index) | _ \<Rightarrow> halt Undefined)"

primrec find_space :: "nat \<Rightarrow> space_search" where
  "find_space 0 = (\<lambda>pt index paddr_start pages flags. halt AssertFailed)"
| "find_space (Suc n) = find_body (find_space n) (level_of (Suc n))"

section \<open>Mapping\<close>

type_synonym mapper = "addr \<Rightarrow> u64 list \<Rightarrow> addr \<Rightarrow> u64 \<Rightarrow> flags \<Rightarrow> (kst, status \<times> addr \<times> u64) kern"

fun map_more :: "u64 \<times> addr \<times> u64 \<times> status exit \<Rightarrow> kst \<Rightarrow> bool" where
  "map_more (i, paddr, pages, x) s \<longleftrightarrow> x = Go"

definition map_table :: "(kst, addr) kern \<Rightarrow> mapper \<Rightarrow> addr \<Rightarrow> u64 list \<Rightarrow> flags \<Rightarrow> u64 \<Rightarrow> addr \<Rightarrow> u64 \<Rightarrow>
    (kst, u64 \<times> addr \<times> u64 \<times> status exit) kern" where
  "map_table req rec pt index flags i paddr pages =
     bnd (rd_pte pt i) (\<lambda>e.
     bnd (if \<not> present e then create_pt req pt i else map_page_tmp (PTEPADDR e) VM_FLAG_WRITABLE) (\<lambda>pt_vaddr.
     thn (update_pt_pte_flags pt i flags)
     (bnd (rec pt_vaddr (tl index) paddr pages flags) (\<lambda>(res, paddr, pages).
      thn (unmap_page_tmp pt_vaddr)
      (if ISERROR res then ret (i, paddr, pages, Return res) else ret (i + 1, paddr, pages, Go))))))"

fun map_step :: "(kst, addr) kern \<Rightarrow> mapper \<Rightarrow> nat \<Rightarrow> addr \<Rightarrow> u64 list \<Rightarrow> flags \<Rightarrow> u64 \<times> addr \<times> u64 \<times> status exit \<Rightarrow>
    (kst, u64 \<times> addr \<times> u64 \<times> status exit) kern" where
  "map_step req rec level pt index flags (i, paddr, pages, x) =
     (if \<not> (i < PT_LENGTH \<and> pages > 0) then ret (i, paddr, pages, Break)
      else if level = PT_LAST_LEVEL then
        bnd (rd_pte pt i) (\<lambda>e.
        if present e then ret (i + 1, paddr, pages, Go)
        else thn (wr_pte pt i (set_pte paddr flags)) (ret (i + 1, paddr + PAGE_SIZE, pages - 1, Go)))
      else map_table req rec pt index flags i paddr pages)"

definition map_body :: "(kst, addr) kern \<Rightarrow> mapper \<Rightarrow> nat \<Rightarrow> mapper" where
  "map_body req rec level pt index paddr pages flags =
     bnd (loop map_more (map_step req rec level pt index flags) (hd index, paddr, pages, Go))
       (\<lambda>(i, paddr, pages, x). case x of Return res \<Rightarrow> ret (res, paddr, pages) | _ \<Rightarrow> ret (SUCCESS, paddr, pages))"

primrec recurse_map :: "(kst, addr) kern \<Rightarrow> nat \<Rightarrow> mapper" where
  "recurse_map req 0 = (\<lambda>pt index paddr pages flags. halt AssertFailed)"
| "recurse_map req (Suc n) = map_body req (recurse_map req n) (level_of (Suc n))"

text \<open>The address of the indices, with the bits above bit 47 set if bit 47 is.\<close>

definition set_hint :: "u64 list \<Rightarrow> addr \<Rightarrow> addr" where
  "set_hint indices vaddr_hint =
     (let v = put_index 12 (indices ! 3) (put_index 21 (indices ! 2)
                (put_index 30 (indices ! 1) (put_index 39 (indices ! 0) vaddr_hint)))
      in if indices ! 0 AND 0x100 \<noteq> 0 then v OR push_bit 48 0xffff else v)"

text \<open>The result is the status and the new value of \<open>*vaddr_hint\<close>.\<close>

definition vm_map_pages :: "(kst, addr) kern \<Rightarrow> addr \<Rightarrow> addr \<Rightarrow> u64 \<Rightarrow> addr \<Rightarrow> flags \<Rightarrow> (kst, status \<times> addr) kern" where
  "vm_map_pages req table paddr_start pages vaddr_hint flags =
     thn (asrt (table \<noteq> 0)) (thn (asrt (ISPAGEALIGNED paddr_start)) (thn (asrt (ISPAGEALIGNED vaddr_hint))
     (thn (asrt (pages > 0))
     (bnd (find_space PT_NUM_LEVELS table (indices_of vaddr_hint) paddr_start pages flags) (\<lambda>(res, indices).
      if ISERROR res then ret (res, vaddr_hint)
      else
        bnd (recurse_map req PT_NUM_LEVELS table indices paddr_start pages flags) (\<lambda>(res, paddr, left).
        if ISERROR res then ret (res, vaddr_hint)
        else ret (res, set_hint indices vaddr_hint)))))))"

definition vm_map_bytes :: "(kst, addr) kern \<Rightarrow> addr \<Rightarrow> addr \<Rightarrow> u64 \<Rightarrow> addr \<Rightarrow> flags \<Rightarrow> (kst, status \<times> addr) kern" where
  "vm_map_bytes req table paddr_start bytes vaddr_hint flags =
     (let aligned_paddr = PAGEALIGNDOWN paddr_start; bytes = (paddr_start + bytes) - aligned_paddr in
      bnd (vm_map_pages req table aligned_paddr (PAGES bytes) (PAGEALIGNDOWN vaddr_hint) flags) (\<lambda>(res, v).
      ret (res, v OR PAGEOFFSET paddr_start)))"

definition ISKVADDR :: "addr \<Rightarrow> bool" where
  "ISKVADDR a \<longleftrightarrow> a \<ge> LAYOUT_HEAP_START"

definition kernel_hint :: "addr \<Rightarrow> flags \<Rightarrow> (kst, addr) kern" where
  "kernel_hint vaddr_hint flags =
     thn (asrt (ISFLAGUNSET flags VM_FLAG_USER))
     (if vaddr_hint = 0 then gets (\<lambda>s. LAYOUT_VADDR_END (sym s))
      else thn (asrt (ISKVADDR vaddr_hint)) (ret vaddr_hint))"

definition vmk_map_pages :: "(kst, addr) kern \<Rightarrow> addr \<Rightarrow> u64 \<Rightarrow> addr \<Rightarrow> flags \<Rightarrow> (kst, status \<times> addr) kern" where
  "vmk_map_pages req paddr_start pages vaddr_hint flags =
     bnd (kernel_hint vaddr_hint flags) (\<lambda>hint.
     bnd (gets kpml4) (\<lambda>table. vm_map_pages req table paddr_start pages hint flags))"

definition vmk_map_bytes :: "(kst, addr) kern \<Rightarrow> addr \<Rightarrow> u64 \<Rightarrow> addr \<Rightarrow> flags \<Rightarrow> (kst, status \<times> addr) kern" where
  "vmk_map_bytes req paddr_start bytes vaddr_hint flags =
     bnd (kernel_hint vaddr_hint flags) (\<lambda>hint.
     bnd (gets kpml4) (\<lambda>table. vm_map_bytes req table paddr_start bytes hint flags))"

definition vm_map_page :: "(kst, addr) kern \<Rightarrow> addr \<Rightarrow> addr \<Rightarrow> addr \<Rightarrow> flags \<Rightarrow> (kst, status \<times> addr) kern" where
  "vm_map_page req table paddr vaddr_hint flags = vm_map_pages req table paddr 1 vaddr_hint flags"

definition vm_map_range :: "(kst, addr) kern \<Rightarrow> addr \<Rightarrow> addr \<Rightarrow> addr \<Rightarrow> addr \<Rightarrow> flags \<Rightarrow> (kst, status \<times> addr) kern" where
  "vm_map_range req table paddr_start paddr_end vaddr_hint flags =
     vm_map_bytes req table paddr_start (paddr_end - paddr_start) vaddr_hint flags"

definition vmk_map_page :: "(kst, addr) kern \<Rightarrow> addr \<Rightarrow> addr \<Rightarrow> flags \<Rightarrow> (kst, status \<times> addr) kern" where
  "vmk_map_page req paddr vaddr_hint flags = vmk_map_pages req paddr 1 vaddr_hint flags"

definition vmk_map_range :: "(kst, addr) kern \<Rightarrow> addr \<Rightarrow> addr \<Rightarrow> addr \<Rightarrow> flags \<Rightarrow> (kst, status \<times> addr) kern" where
  "vmk_map_range req paddr_start paddr_end vaddr_hint flags =
     vmk_map_bytes req paddr_start (paddr_end - paddr_start) vaddr_hint flags"

definition vm_reserve_pages :: "(kst, addr) kern \<Rightarrow> addr \<Rightarrow> addr \<Rightarrow> u64 \<Rightarrow> flags \<Rightarrow> (kst, status \<times> addr) kern" where
  "vm_reserve_pages req table vaddr_hint pages flags =
     vm_map_pages req table (- BYTES pages) pages vaddr_hint flags"

definition vmk_reserve_pages :: "(kst, addr) kern \<Rightarrow> addr \<Rightarrow> u64 \<Rightarrow> flags \<Rightarrow> (kst, status \<times> addr) kern" where
  "vmk_reserve_pages req vaddr_hint pages flags = vmk_map_pages req (- BYTES pages) pages vaddr_hint flags"

section \<open>Unmapping\<close>

type_synonym unmapper = "addr \<Rightarrow> u64 list \<Rightarrow> addr \<Rightarrow> u64 \<Rightarrow> (kst, u64 \<times> u64 list \<times> addr) kern"

text \<open>The loop variables are the array from \<open>*index\<close> on, \<open>*vaddr\<close> and the number of unmapped pages.\<close>

fun unmap_more :: "u64 list \<times> addr \<times> u64 \<times> bool \<Rightarrow> kst \<Rightarrow> bool" where
  "unmap_more (index, vaddr, unmapped_pages, broke) s \<longleftrightarrow> \<not> broke"

definition unmap_entry :: "unmapper \<Rightarrow> nat \<Rightarrow> addr \<Rightarrow> u64 \<Rightarrow> u64 list \<Rightarrow> addr \<Rightarrow> u64 \<Rightarrow>
    (kst, u64 list \<times> addr \<times> u64) kern" where
  "unmap_entry rec level pt pages index vaddr unmapped_pages =
     (if level = PT_LAST_LEVEL then
        thn (wr_pte pt (hd index) 0)
        (thn (invalidate_page vaddr) (ret (index, vaddr + PAGE_SIZE, unmapped_pages + 1)))
      else
        bnd (rd_pte pt (hd index)) (\<lambda>pte.
        if present pte then
          bnd (map_page_tmp (PTEPADDR pte) VM_FLAG_WRITABLE) (\<lambda>pt_vaddr.
          bnd (rec pt_vaddr (tl index) vaddr pages) (\<lambda>(n, rest, vaddr).
          thn (unmap_page_tmp pt_vaddr) (ret (hd index # rest, vaddr, unmapped_pages + n))))
        else
          ret (index, vaddr + get_pages_per_entry level * PAGE_SIZE, unmapped_pages + get_pages_per_entry level)))"

fun unmap_step :: "unmapper \<Rightarrow> nat \<Rightarrow> addr \<Rightarrow> u64 \<Rightarrow> u64 list \<times> addr \<times> u64 \<times> bool \<Rightarrow>
    (kst, u64 list \<times> addr \<times> u64 \<times> bool) kern" where
  "unmap_step rec level pt pages (index, vaddr, unmapped_pages, broke) =
     (if \<not> (hd index < PT_LENGTH \<and> unmapped_pages < pages) then ret (index, vaddr, unmapped_pages, True)
      else
        bnd (unmap_entry rec level pt pages index vaddr unmapped_pages) (\<lambda>(index, vaddr, unmapped_pages).
        if unmapped_pages \<ge> pages then ret (index, vaddr, unmapped_pages, True)
        else ret ((hd index + 1) # tl index, vaddr, unmapped_pages, False)))"

definition unmap_body :: "unmapper \<Rightarrow> nat \<Rightarrow> unmapper" where
  "unmap_body rec level pt index vaddr pages =
     bnd (loop unmap_more (unmap_step rec level pt pages) (index, vaddr, 0, False))
       (\<lambda>(index, vaddr, unmapped_pages, broke). ret (unmapped_pages, index, vaddr))"

primrec recurse_unmap :: "nat \<Rightarrow> unmapper" where
  "recurse_unmap 0 = (\<lambda>pt index vaddr pages. halt Undefined)"
| "recurse_unmap (Suc n) = unmap_body (recurse_unmap n) (level_of (Suc n))"

definition vm_unmap_pages :: "addr \<Rightarrow> addr \<Rightarrow> u64 \<Rightarrow> (kst, u64) kern" where
  "vm_unmap_pages table vaddr_start pages =
     thn (asrt (table \<noteq> 0)) (thn (asrt (ISPAGEALIGNED vaddr_start)) (thn (asrt (pages > 0))
     (bnd (recurse_unmap PT_NUM_LEVELS table (indices_of vaddr_start) vaddr_start pages)
       (\<lambda>(n, index, vaddr). ret n))))"

definition vm_unmap_bytes :: "addr \<Rightarrow> addr \<Rightarrow> u64 \<Rightarrow> (kst, u64) kern" where
  "vm_unmap_bytes table vaddr_start bytes =
     (let aligned_vaddr = PAGEALIGNDOWN vaddr_start; bytes = (vaddr_start + bytes) - aligned_vaddr
      in vm_unmap_pages table aligned_vaddr (PAGES bytes))"

definition vmk_unmap_pages :: "addr \<Rightarrow> u64 \<Rightarrow> (kst, u64) kern" where
  "vmk_unmap_pages vaddr_start pages =
     thn (asrt (ISKVADDR vaddr_start)) (bnd (gets kpml4) (\<lambda>table. vm_unmap_pages table vaddr_start pages))"

definition vmk_unmap_bytes :: "addr \<Rightarrow> u64 \<Rightarrow> (kst, u64) kern" where
  "vmk_unmap_bytes vaddr_start bytes =
     thn (asrt (ISKVADDR vaddr_start)) (bnd (gets kpml4) (\<lambda>table. vm_unmap_bytes table vaddr_start bytes))"

definition vm_unmap_page :: "addr \<Rightarrow> addr \<Rightarrow> (kst, u64) kern" where
  "vm_unmap_page table vaddr = vm_unmap_pages table vaddr 1"

definition vm_unmap_range :: "addr \<Rightarrow> addr \<Rightarrow> addr \<Rightarrow> (kst, u64) kern" where
  "vm_unmap_range table vaddr_start vaddr_end = vm_unmap_bytes table vaddr_start (vaddr_end - vaddr_start)"

definition vmk_unmap_range :: "addr \<Rightarrow> addr \<Rightarrow> (kst, u64) kern" where
  "vmk_unmap_range vaddr_start vaddr_end = vmk_unmap_bytes vaddr_start (vaddr_end - vaddr_start)"

section \<open>Translation, backing and flags\<close>

primrec recurse_find :: "nat \<Rightarrow> addr \<Rightarrow> u64 list \<Rightarrow> addr \<Rightarrow> (kst, status \<times> addr) kern" where
  "recurse_find 0 = (\<lambda>pt index paddr. halt AssertFailed)"
| "recurse_find (Suc n) = (\<lambda>pt index paddr.
     bnd (rd_pte pt (hd index)) (\<lambda>pte.
     if \<not> present pte then ret (fails ENOMAP, paddr)
     else if level_of (Suc n) = PT_LAST_LEVEL then ret (SUCCESS, PTEPADDR pte)
     else
       bnd (map_page_tmp (PTEPADDR pte) VM_FLAG_WRITABLE) (\<lambda>pt_vaddr.
       bnd (recurse_find n pt_vaddr (tl index) paddr) (\<lambda>(res, paddr).
       thn (unmap_page_tmp pt_vaddr) (ret (res, paddr))))))"

definition vm_vaddr_to_paddr :: "addr \<Rightarrow> addr \<Rightarrow> addr \<Rightarrow> (kst, status \<times> addr) kern" where
  "vm_vaddr_to_paddr table vaddr paddr =
     thn (asrt (table \<noteq> 0))
     (bnd (recurse_find PT_NUM_LEVELS table (indices_of vaddr) paddr) (\<lambda>(res, paddr).
      if res = SUCCESS then ret (res, paddr OR PAGEOFFSET vaddr) else ret (res, paddr)))"

definition vmk_vaddr_to_paddr :: "addr \<Rightarrow> addr \<Rightarrow> (kst, status \<times> addr) kern" where
  "vmk_vaddr_to_paddr vaddr paddr =
     thn (asrt (ISKVADDR vaddr)) (bnd (gets kpml4) (\<lambda>table. vm_vaddr_to_paddr table vaddr paddr))"

primrec recurse_set_backing :: "nat \<Rightarrow> addr \<Rightarrow> u64 list \<Rightarrow> addr \<Rightarrow> (kst, status) kern" where
  "recurse_set_backing 0 = (\<lambda>pt index paddr. halt AssertFailed)"
| "recurse_set_backing (Suc n) = (\<lambda>pt index paddr.
     bnd (rd_pte pt (hd index)) (\<lambda>pte.
     if \<not> present pte then ret (fails ENOMAP)
     else if level_of (Suc n) = PT_LAST_LEVEL then
       thn (wr_pte pt (hd index) ((pte AND NOT 0x000ffffffffff000) OR paddr)) (ret SUCCESS)
     else
       bnd (map_page_tmp (PTEPADDR pte) VM_FLAG_WRITABLE) (\<lambda>pt_vaddr.
       bnd (recurse_set_backing n pt_vaddr (tl index) paddr) (\<lambda>res.
       thn (unmap_page_tmp pt_vaddr) (ret res)))))"

definition vm_set_backing :: "addr \<Rightarrow> addr \<Rightarrow> addr \<Rightarrow> (kst, status) kern" where
  "vm_set_backing table vaddr paddr =
     thn (asrt (ISPAGEALIGNED vaddr)) (thn (asrt (ISPAGEALIGNED paddr))
       (recurse_set_backing PT_NUM_LEVELS table (indices_of vaddr) paddr))"

definition vmk_set_backing :: "addr \<Rightarrow> addr \<Rightarrow> (kst, status) kern" where
  "vmk_set_backing vaddr paddr = bnd (gets kpml4) (\<lambda>table. vm_set_backing table vaddr paddr)"

type_synonym flagger = "addr \<Rightarrow> u64 list \<Rightarrow> u64 \<Rightarrow> flags \<Rightarrow> (kst, status \<times> u64) kern"

fun flag_more :: "u64 \<times> u64 \<times> status exit \<Rightarrow> kst \<Rightarrow> bool" where
  "flag_more (i, pages, x) s \<longleftrightarrow> x = Go"

fun flag_step :: "flagger \<Rightarrow> nat \<Rightarrow> addr \<Rightarrow> u64 list \<Rightarrow> flags \<Rightarrow> u64 \<times> u64 \<times> status exit \<Rightarrow>
    (kst, u64 \<times> u64 \<times> status exit) kern" where
  "flag_step rec level pt index flags (i, pages, x) =
     (if \<not> (i < PT_LENGTH \<and> pages > 0) then ret (i, pages, Break)
      else bnd (rd_pte pt i) (\<lambda>pte.
        if \<not> present pte then ret (i, pages, Return (fails ENOMAP))
        else if level = PT_LAST_LEVEL then
          thn (wr_pte pt i (set_pte (PTEPADDR pte) flags)) (ret (i + 1, pages - 1, Go))
        else
          bnd (map_page_tmp (PTEPADDR pte) VM_FLAG_WRITABLE) (\<lambda>pt_vaddr.
          thn (update_pt_pte_flags pt i flags)
          (bnd (rec pt_vaddr (tl index) pages flags) (\<lambda>(res, pages).
           thn (unmap_page_tmp pt_vaddr)
           (if ISERROR res then ret (i, pages, Return res) else ret (i + 1, pages, Go)))))))"

definition flag_body :: "flagger \<Rightarrow> nat \<Rightarrow> flagger" where
  "flag_body rec level pt index pages flags =
     bnd (loop flag_more (flag_step rec level pt index flags) (hd index, pages, Go))
       (\<lambda>(i, pages, x). case x of Return res \<Rightarrow> ret (res, pages) | _ \<Rightarrow> ret (SUCCESS, pages))"

primrec recurse_flag :: "nat \<Rightarrow> flagger" where
  "recurse_flag 0 = (\<lambda>pt index pages flags. halt AssertFailed)"
| "recurse_flag (Suc n) = flag_body (recurse_flag n) (level_of (Suc n))"

definition vm_flag_pages :: "addr \<Rightarrow> addr \<Rightarrow> u64 \<Rightarrow> flags \<Rightarrow> (kst, status) kern" where
  "vm_flag_pages table vaddr_start pages flags =
     thn (asrt (ISPAGEALIGNED vaddr_start)) (thn (asrt (pages > 0))
     (bnd (recurse_flag PT_NUM_LEVELS table (indices_of vaddr_start) pages flags) (\<lambda>(res, left). ret res)))"

definition vm_flag_range :: "addr \<Rightarrow> addr \<Rightarrow> addr \<Rightarrow> flags \<Rightarrow> (kst, status) kern" where
  "vm_flag_range table vaddr_start vaddr_end flags =
     vm_flag_pages table vaddr_start (PAGES (vaddr_end - vaddr_start)) flags"

definition vmk_flag_pages :: "addr \<Rightarrow> u64 \<Rightarrow> flags \<Rightarrow> (kst, status) kern" where
  "vmk_flag_pages vaddr_start pages flags =
     thn (asrt (ISFLAGUNSET flags VM_FLAG_USER)) (thn (asrt (ISKVADDR vaddr_start))
     (bnd (gets kpml4) (\<lambda>table. vm_flag_pages table vaddr_start pages flags)))"

definition vmk_flag_range :: "addr \<Rightarrow> addr \<Rightarrow> flags \<Rightarrow> (kst, status) kern" where
  "vmk_flag_range vaddr_start vaddr_end flags = vmk_flag_pages vaddr_start (PAGES (vaddr_end - vaddr_start)) flags"

end
