(* ===== verification/Vm_window.thy ===== *)
theory Vm_window
  imports Vm
begin

text \<open>
  Page table entries, the index fields of addresses, and the temporary window: mapping a page into
  the window and unmapping it again leaves the tables and the window as they were, which is what
  every recursion of \<open>vm.c\<close> relies on.
\<close>

section \<open>Entries\<close>

declare bit_numeral_word_iff [simp del]

lemma put_bit_bit: "bit (put_bit n b e) k \<longleftrightarrow> (if k = n then b \<and> n < 64 else bit e k)"
  by (auto simp: put_bit_def bit_set_bit_iff bit_unset_bit_iff dest: bit_imp_le_length)

lemma mask_bits: "bit (0x000ffffffffff000 :: u64) k \<longleftrightarrow> 12 \<le> k \<and> k < 52"
proof -
  have e: "(0x000ffffffffff000 :: u64) = push_bit 12 (mask 40)"
    by (simp add: push_bit_eq_mult mask_eq_exp_minus_1)
  show ?thesis unfolding e by (auto simp: bit_simps)
qed

lemma PTEPADDR_bit: "bit (PTEPADDR e) k \<longleftrightarrow> 12 \<le> k \<and> k < 52 \<and> bit e k"
  by (auto simp: PTEPADDR_def bit_and_iff mask_bits)

lemma set_pte_bit: "bit (set_pte a f) k \<longleftrightarrow>
    (if k = 0 then True else if k = 1 then ISFLAGSET f VM_FLAG_WRITABLE
     else if k = 2 then ISFLAGSET f VM_FLAG_USER else if k = 63 then ISFLAGUNSET f VM_FLAG_EXECUTABLE
     else bit a k \<and> 12 \<le> k \<and> k < 52)"
  by (auto simp: set_pte_def put_bit_bit bit_and_iff mask_bits)

lemma set_pte_fields [simp]:
  "present (set_pte a f)" "writable (set_pte a f) = ISFLAGSET f VM_FLAG_WRITABLE"
  "user_accessible (set_pte a f) = ISFLAGSET f VM_FLAG_USER"
  "no_execute (set_pte a f) = ISFLAGUNSET f VM_FLAG_EXECUTABLE"
  "PTEPADDR (set_pte a f) = PTEPADDR a"
proof -
  show "PTEPADDR (set_pte a f) = PTEPADDR a"
    by (rule bit_word_eqI) (auto simp: PTEPADDR_bit set_pte_bit)
qed (simp_all add: present_def writable_def user_accessible_def no_execute_def set_pte_bit)

lemma PTEPADDR_again [simp]: "PTEPADDR (PTEPADDR e) = PTEPADDR e"
  by (rule bit_word_eqI) (auto simp: PTEPADDR_bit)

lemma present_0 [simp]: "\<not> present 0"
  by (simp add: present_def)

text \<open>An address that an entry can hold.\<close>

definition pte_address :: "addr \<Rightarrow> bool" where
  "pte_address a \<longleftrightarrow> PTEPADDR a = a"

lemma pte_address_PTEPADDR [simp]: "pte_address (PTEPADDR e)"
  by (simp add: pte_address_def)

lemma PTEPADDR_alt: "PTEPADDR a = (a AND mask 52) AND NOT (mask 12)"
  by (rule bit_word_eqI) (auto simp: PTEPADDR_bit bit_simps)

lemma pte_address_iff: "pte_address a \<longleftrightarrow> ISPAGEALIGNED a \<and> unat a < 2 ^ 52"
proof
  assume a: "pte_address a"
  then have m: "a = (a AND mask 52) AND NOT (mask 12)" by (simp add: pte_address_def PTEPADDR_alt)
  have "ISPAGEALIGNED a"
  proof -
    have "a AND mask 12 = 0" by (subst m) (rule bit_word_eqI, auto simp: bit_simps)
    then show ?thesis by (simp add: ISPAGEALIGNED_def PAGEOFFSET_def mask_eq_exp_minus_1)
  qed
  moreover have "take_bit 52 a = a" by (subst (1 2) m) (rule bit_word_eqI, auto simp: bit_simps)
  then have "a mod 2 ^ 52 = a" by (simp add: take_bit_eq_mod)
  then have "unat a mod 2 ^ 52 = unat a" using unat_mod_power[of 52 a] by simp
  then have "unat a < 2 ^ 52" by (metis mod_less_divisor zero_less_numeral zero_less_power)
  ultimately show "ISPAGEALIGNED a \<and> unat a < 2 ^ 52" by blast
next
  assume a: "ISPAGEALIGNED a \<and> unat a < 2 ^ 52"
  then have "a mod 2 ^ 52 = a" by (simp add: word_unat_eq_iff unat_mod)
  then have t: "a AND mask 52 = a" by (simp add: take_bit_eq_mask[symmetric] take_bit_eq_mod)
  have "PAGEALIGNDOWN a = a" using a by (simp add: aligned_id)
  then have "a AND NOT (mask 12) = a" by (simp add: PAGEALIGNDOWN_def ALIGNDOWN_def mask_eq_exp_minus_1)
  with t show "pte_address a" by (simp add: pte_address_def PTEPADDR_alt)
qed

section \<open>Index fields\<close>

lemma index_fields_lt [simp]:
  "unat (pt_index v) < 512" "unat (pd_index v) < 512" "unat (pdp_index v) < 512" "unat (pml4_index v) < 512"
  "pt_index v < 512" "pd_index v < 512" "pdp_index v < 512" "pml4_index v < 512"
proof -
  have m: "unat (w AND 0x1ff) < 512" for w :: u64
  proof -
    have "w AND 0x1ff = w mod 2 ^ 9" using and_mask_mod[of w 9] by simp
    then show ?thesis using unat_mod_power[of 9 w] by simp
  qed
  show "unat (pt_index v) < 512" "unat (pd_index v) < 512" "unat (pdp_index v) < 512" "unat (pml4_index v) < 512"
    by (simp_all add: pt_index_def pd_index_def pdp_index_def pml4_index_def m)
  then show "pt_index v < 512" "pd_index v < 512" "pdp_index v < 512" "pml4_index v < 512"
    by (simp_all add: word_less_nat_alt)
qed

lemma low9_bits: "bit (0x1ff :: u64) k \<longleftrightarrow> k < 9"
proof -
  have e: "(0x1ff :: u64) = mask 9" by (simp add: mask_eq_exp_minus_1)
  show ?thesis unfolding e by (auto simp: bit_simps)
qed

lemma put_index_bit: "n \<le> 55 \<Longrightarrow> bit (put_index n i v) k \<longleftrightarrow>
    (if n \<le> k \<and> k < n + 9 then bit i (k - n) else bit v k)"
  by (cases "k < 64") (auto simp: put_index_def bit_simps low9_bits dest: bit_imp_le_length)

lemma low9_id: "unat i < 512 \<Longrightarrow> i AND 0x1ff = i" for i :: u64
proof -
  assume "unat i < 512"
  then have "i mod 2 ^ 9 = i" by (simp add: word_unat_eq_iff unat_mod)
  then show ?thesis using and_mask_mod[of i 9] by simp
qed

text \<open>Slots of the temporary window.\<close>

definition slot :: "u64 \<Rightarrow> addr" where
  "slot i = put_index 12 (i AND 0x1ff) PT_TMP_START_VADDR"

lemma tmp_start_bits: "bit PT_TMP_START_VADDR k \<longleftrightarrow> 21 \<le> k \<and> k < 64"
proof -
  have e: "PT_TMP_START_VADDR = push_bit 21 (mask 43)"
    by (simp add: PT_TMP_START_VADDR_def push_bit_eq_mult mask_eq_exp_minus_1)
  show ?thesis unfolding e by (auto simp: bit_simps)
qed

lemma slot_bit: "bit (slot i) k \<longleftrightarrow> (21 \<le> k \<and> k < 64) \<or> (12 \<le> k \<and> k < 21 \<and> bit i (k - 12))"
  by (auto simp: slot_def put_index_bit tmp_start_bits bit_and_iff low9_bits)

lemma slot_index: "unat i < 512 \<Longrightarrow> pt_index (slot i) = i"
proof -
  assume "unat i < 512"
  then have i: "i AND 0x1ff = i" by (rule low9_id)
  have "pt_index (slot i) = i AND 0x1ff"
    by (rule bit_word_eqI) (auto simp: pt_index_def bit_simps slot_bit low9_bits)
  with i show ?thesis by simp
qed

lemma slot_ge: "PT_TMP_START_VADDR \<le> slot i"
proof -
  have "slot i = PT_TMP_START_VADDR OR slot i"
    by (rule bit_word_eqI) (auto simp: bit_or_iff slot_bit tmp_start_bits)
  moreover have "a \<le> a OR b" for a b :: u64 by (rule le_word_or2)
  ultimately show ?thesis by metis
qed

lemma slot_offset: "PAGEOFFSET (slot i) = 0"
proof -
  have "(4095 :: u64) = mask 12" by (simp add: mask_eq_exp_minus_1)
  then have "PAGEOFFSET (slot i) = slot i AND mask 12" by (simp add: PAGEOFFSET_def)
  also have "\<dots> = 0" by (rule bit_word_eqI) (auto simp: bit_simps slot_bit)
  finally show ?thesis .
qed

lemma window_indices: "pdp_index (slot i) = 511" "pd_index (slot i) = 511" "pml4_index (slot i) = 511"
    "pdp_index PT_TMP_START_VADDR = 511" "pd_index PT_TMP_START_VADDR = 511"
proof -
  have b: "bit (511 :: u64) k \<longleftrightarrow> k < 9" for k by (rule low9_bits)
  show "pdp_index (slot i) = 511" "pd_index (slot i) = 511" "pml4_index (slot i) = 511"
    by (rule bit_word_eqI; auto simp: pdp_index_def pd_index_def pml4_index_def bit_simps slot_bit low9_bits b)+
  show "pdp_index PT_TMP_START_VADDR = 511" "pd_index PT_TMP_START_VADDR = 511"
    by (rule bit_word_eqI; auto simp: pdp_index_def pd_index_def bit_simps tmp_start_bits low9_bits b)+
qed

section \<open>The window\<close>

definition tmp_entry :: "kst \<Rightarrow> nat \<Rightarrow> pte" where
  "tmp_entry s i = frames s (tmp_frame s) i"

text \<open>The free slots, the last slot excepted, which the code skips.\<close>

definition tmp_free :: "kst \<Rightarrow> nat set" where
  "tmp_free s = {i. i < 511 \<and> \<not> present (tmp_entry s i)}"

definition tmp_ok :: "kst \<Rightarrow> bool" where
  "tmp_ok s \<longleftrightarrow> unat (first_free_tmp_index s) = (if tmp_free s = {} then 512 else Min (tmp_free s)) \<and>
     (\<forall>i\<in>tmp_free s. tmp_entry s i = 0)"

lemma finite_tmp_free [simp]: "finite (tmp_free s)"
  by (rule finite_subset[of _ "{..<511}"]) (auto simp: tmp_free_def)

lemma tmp_ok_free:
  assumes "tmp_ok s" "tmp_free s \<noteq> {}"
  shows "unat (first_free_tmp_index s) \<in> tmp_free s" "unat (first_free_tmp_index s) < 511"
    "tmp_entry s (unat (first_free_tmp_index s)) = 0"
    "i \<in> tmp_free s \<Longrightarrow> unat (first_free_tmp_index s) \<le> i"
proof -
  show m: "unat (first_free_tmp_index s) \<in> tmp_free s" using assms by (simp add: tmp_ok_def)
  then show "unat (first_free_tmp_index s) < 511" by (simp add: tmp_free_def)
  show "tmp_entry s (unat (first_free_tmp_index s)) = 0" using assms m by (simp add: tmp_ok_def)
  show "i \<in> tmp_free s \<Longrightarrow> unat (first_free_tmp_index s) \<le> i" using assms by (auto simp: tmp_ok_def)
qed

lemma tmp_entry_fft [simp]: "tmp_entry (s\<lparr>first_free_tmp_index := k\<rparr>) = tmp_entry s"
  by (rule ext) (simp add: tmp_entry_def tmp_frame_def)

lemma next_slot_run:
  assumes "unat (first_free_tmp_index s) < 511"
  shows "next_slot_step (slot v) again s =
    (let k = (if first_free_tmp_index s + 1 = 511 then 512 else first_free_tmp_index s + 1)
     in Inr (k < 512 \<and> present (tmp_entry s (unat k)), s\<lparr>first_free_tmp_index := k\<rparr>))"
  using assms
  by (auto simp: next_slot_step_def window_indices kern Let_def tmp_entry_def tmp_frame_def PT_LENGTH_def)

text \<open>The next free slot above the current one.\<close>

definition next_free :: "kst \<Rightarrow> nat" where
  "next_free s = (let P = (\<lambda>i. unat (first_free_tmp_index s) < i \<and> \<not> present (tmp_entry s i))
     in if \<exists>i<511. P i then LEAST i. P i else 512)"

lemma next_slot_loop:
  "unat (first_free_tmp_index s) < 511 \<Longrightarrow>
    loop next_slot_more (next_slot_step (slot v)) True s
      = Inr (False, s\<lparr>first_free_tmp_index := of_nat (next_free s)\<rparr>)"
proof (induction "511 - unat (first_free_tmp_index s)" arbitrary: s)
  case 0
  then show ?case by simp
next
  case (Suc d)
  let ?f = "unat (first_free_tmp_index s)"
  let ?P = "\<lambda>i. ?f < i \<and> \<not> present (tmp_entry s i)"
  have u: "unat (first_free_tmp_index s + 1) = Suc ?f" using Suc.prems by (simp add: unat_word_ariths)
  show ?case
  proof (cases "Suc ?f = 511")
    case True
    then have "first_free_tmp_index s + 1 = 511" using u by (simp add: word_unat_eq_iff)
    then have l: "loop next_slot_more (next_slot_step (slot v)) True s
        = loop next_slot_more (next_slot_step (slot v)) False (s\<lparr>first_free_tmp_index := 512\<rparr>)"
      using next_slot_run[OF Suc.prems, of v True] by (intro loop_step) simp_all
    have "\<not> (\<exists>i<511. ?P i)" using True by auto
    then have "next_free s = 512" unfolding next_free_def Let_def by (rule if_not_P)
    then show ?thesis unfolding l by (simp add: loop_stop)
  next
    case False
    let ?s = "s\<lparr>first_free_tmp_index := first_free_tmp_index s + 1\<rparr>"
    have lt: "unat (first_free_tmp_index ?s) < 511" using False Suc.prems u by simp
    have "first_free_tmp_index s + 1 \<noteq> 511" using False u by (auto simp: word_unat_eq_iff)
    moreover have "first_free_tmp_index s + 1 < 512" using lt by (simp add: word_less_nat_alt)
    ultimately have run: "next_slot_step (slot v) True s = Inr (present (tmp_entry s (Suc ?f)), ?s)"
      using next_slot_run[OF Suc.prems, of v True] u by simp
    show ?thesis
    proof (cases "present (tmp_entry s (Suc ?f))")
      case True
      have l: "loop next_slot_more (next_slot_step (slot v)) True s
          = loop next_slot_more (next_slot_step (slot v)) True ?s"
        using run True by (intro loop_step) simp_all
      have "(\<lambda>i. unat (first_free_tmp_index ?s) < i \<and> \<not> present (tmp_entry ?s i)) = ?P"
      proof (rule ext)
        fix i show "(unat (first_free_tmp_index ?s) < i \<and> \<not> present (tmp_entry ?s i)) = ?P i"
          using True u by (cases "i = Suc ?f") auto
      qed
      then have e: "next_free ?s = next_free s" by (simp only: next_free_def)
      have "loop next_slot_more (next_slot_step (slot v)) True ?s
          = Inr (False, ?s\<lparr>first_free_tmp_index := of_nat (next_free ?s)\<rparr>)"
        using Suc.hyps(2) u by (intro Suc.hyps(1) lt) simp
      then show ?thesis unfolding l e by simp
    next
      case np: False
      have l: "loop next_slot_more (next_slot_step (slot v)) True s
          = loop next_slot_more (next_slot_step (slot v)) False ?s"
        using run np by (intro loop_step) simp_all
      have "(LEAST i. ?P i) = Suc ?f" using np by (intro Least_equality) auto
      moreover have "\<exists>i<511. ?P i" using np lt u by (intro exI[of _ "Suc ?f"]) simp
      ultimately have e: "next_free s = Suc ?f" unfolding next_free_def Let_def by simp
      have "of_nat (next_free s) = first_free_tmp_index s + 1" unfolding e u[symmetric] by simp
      then show ?thesis unfolding l by (simp add: loop_stop)
    qed
  qed
qed

text \<open>The state after a page has been mapped into the window, and the states that a recursive call
  can leave behind: other tables and the list of invalidated addresses may have changed.\<close>

definition opened :: "kst \<Rightarrow> addr \<Rightarrow> kst" where
  "opened s p = s\<lparr>frames := (frames s)(tmp_frame s :=
       (frames s (tmp_frame s))(unat (first_free_tmp_index s) := set_pte p VM_FLAG_WRITABLE)),
     first_free_tmp_index := of_nat (next_free s)\<rparr>"

definition upd :: "kst \<Rightarrow> (addr \<Rightarrow> nat \<Rightarrow> pte) \<Rightarrow> addr list \<Rightarrow> kst" where
  "upd s F iv = s\<lparr>frames := (\<lambda>g. if g = tmp_frame s then frames s g else F g), invalidated := iv\<rparr>"

lemma next_free_bounds:
  assumes "tmp_ok s" "tmp_free s \<noteq> {}"
  shows "next_free s = (if tmp_free s - {unat (first_free_tmp_index s)} = {} then 512
      else Min (tmp_free s - {unat (first_free_tmp_index s)}))"
    "unat (first_free_tmp_index s) < next_free s" "next_free s \<le> 512"
proof -
  let ?f = "unat (first_free_tmp_index s)"
  let ?P = "\<lambda>i. ?f < i \<and> \<not> present (tmp_entry s i)"
  have mem: "i \<in> tmp_free s - {?f} \<longleftrightarrow> i < 511 \<and> ?P i" for i
    using tmp_ok_free(4)[OF assms, of i] by (auto simp: tmp_free_def)
  show nf: "next_free s = (if tmp_free s - {?f} = {} then 512 else Min (tmp_free s - {?f}))"
  proof (cases "tmp_free s - {?f} = {}")
    case True
    then have "\<not> (\<exists>i<511. ?P i)" using mem by blast
    then have "next_free s = 512" unfolding next_free_def Let_def by (rule if_not_P)
    with True show ?thesis by simp
  next
    case False
    define m where "m = Min (tmp_free s - {?f})"
    have m: "m \<in> tmp_free s - {?f}" unfolding m_def by (rule Min_in) (use False in auto)
    have "(LEAST i. ?P i) = m"
    proof (rule Least_equality)
      show "?P m" using m mem by blast
      fix i assume i: "?P i"
      show "m \<le> i"
      proof (cases "i < 511")
        case True
        then have "i \<in> tmp_free s - {?f}" using i mem by blast
        then show ?thesis unfolding m_def by (intro Min_le) auto
      next
        case False
        then show ?thesis using m by (auto simp: tmp_free_def)
      qed
    qed
    moreover have "\<exists>i<511. ?P i" using m mem by blast
    ultimately have "next_free s = m" unfolding next_free_def Let_def by simp
    with False show ?thesis by (simp add: m_def)
  qed
  have "next_free s = 512 \<or> next_free s \<in> tmp_free s - {?f}"
    unfolding nf using Min_in[of "tmp_free s - {?f}"] by auto
  then have "?f < next_free s \<and> next_free s \<le> 512"
  proof
    assume "next_free s = 512"
    then show ?thesis using tmp_ok_free(2)[OF assms] by simp
  next
    assume "next_free s \<in> tmp_free s - {?f}"
    then show ?thesis using mem[of "next_free s"] by simp
  qed
  then show "?f < next_free s" "next_free s \<le> 512" by blast+
qed

lemma slot_mask: "unat i < 512 \<Longrightarrow> put_index 12 (i AND 0x1ff) PT_TMP_START_VADDR = slot i"
  by (simp add: slot_def)

lemma window_map:
  assumes "tmp_ok s" "tmp_free s \<noteq> {}"
  shows "map_page_tmp p VM_FLAG_WRITABLE s = Inr (slot (first_free_tmp_index s), opened s p)"
proof -
  let ?f = "first_free_tmp_index s"
  let ?t = "set_entry (tmp_frame s) (unat ?f) (set_pte p VM_FLAG_WRITABLE) s"
  have f: "unat ?f < 511" using tmp_ok_free(2)[OF assms] .
  have ix: "pt_index (slot ?f) = ?f" using f by (intro slot_index) simp
  have t: "first_free_tmp_index ?t = ?f" by (simp add: set_entry_def)
  have "tmp_entry ?t i = tmp_entry s i" if "unat ?f < i" for i
    using that by (simp add: tmp_entry_def tmp_frame_def set_entry_def)
  then have "(\<lambda>i. unat (first_free_tmp_index ?t) < i \<and> \<not> present (tmp_entry ?t i)) =
      (\<lambda>i. unat ?f < i \<and> \<not> present (tmp_entry s i))" unfolding t by auto
  then have nf: "next_free ?t = next_free s" unfolding next_free_def by simp
  have l: "loop next_slot_more (next_slot_step (slot ?f)) True ?t
      = Inr (False, ?t\<lparr>first_free_tmp_index := of_nat (next_free s)\<rparr>)"
    using next_slot_loop[of ?t ?f] f unfolding t nf by simp
  have "?f < 512" using f by (simp add: word_less_nat_alt)
  then have "map_page_tmp p VM_FLAG_WRITABLE s
      = Inr (slot ?f, ?t\<lparr>first_free_tmp_index := of_nat (next_free s)\<rparr>)"
    using f by (simp add: map_page_tmp_def PT_LENGTH_def slot_mask ix bnd_False l kern Let_def)
  then show ?thesis by (simp add: opened_def set_entry_def)
qed

lemma opened_same:
  "sym (opened s p) = sym s" "tmp_frame (opened s p) = tmp_frame s" "mem (opened s p) = mem s"
  "g \<noteq> tmp_frame s \<Longrightarrow> frames (opened s p) g = frames s g" "invalidated (opened s p) = invalidated s"
  "kpml4 (opened s p) = kpml4 s" "cr3 (opened s p) = cr3 s"
  by (simp_all add: opened_def tmp_frame_def)

lemma opened_entry:
  "tmp_entry (opened s p) i = (if i = unat (first_free_tmp_index s) then set_pte p VM_FLAG_WRITABLE else tmp_entry s i)"
  by (simp add: tmp_entry_def opened_same) (simp add: opened_def)

lemma opened_free:
  assumes "tmp_ok s" "tmp_free s \<noteq> {}"
  shows "tmp_free (opened s p) = tmp_free s - {unat (first_free_tmp_index s)}"
  by (auto simp: tmp_free_def opened_entry)

lemma opened_ok:
  assumes "tmp_ok s" "tmp_free s \<noteq> {}"
  shows "tmp_ok (opened s p)"
proof -
  have "unat (first_free_tmp_index (opened s p)) = next_free s"
    using next_free_bounds(3)[OF assms] by (simp add: opened_def unat_of_nat take_bit_nat_eq_self)
  then show ?thesis using assms next_free_bounds(1)[OF assms]
    by (auto simp: tmp_ok_def opened_free opened_entry)
qed

lemma opened_page:
  assumes "tmp_ok s" "tmp_free s \<noteq> {}"
  shows "pt_page (opened s p) (slot (first_free_tmp_index s)) = Some (PTEPADDR p)"
proof -
  have "unat (first_free_tmp_index s) < 512" using tmp_ok_free(2)[OF assms] by simp
  then show ?thesis
    using opened_entry[of s p "unat (first_free_tmp_index s)"]
    by (simp add: pt_page_def slot_ge slot_index tmp_entry_def Let_def)
qed

lemma upd_same [simp]:
  "sym (upd s F iv) = sym s" "tmp_frame (upd s F iv) = tmp_frame s" "mem (upd s F iv) = mem s"
  "g \<noteq> tmp_frame s \<Longrightarrow> frames (upd s F iv) g = F g" "invalidated (upd s F iv) = iv"
  "frames (upd s F iv) (tmp_frame s) = frames s (tmp_frame s)"
  "first_free_tmp_index (upd s F iv) = first_free_tmp_index s"
  "upd (upd s F iv) G jv = upd s G jv" "kpml4 (upd s F iv) = kpml4 s" "cr3 (upd s F iv) = cr3 s"
  by (simp_all add: upd_def tmp_frame_def fun_eq_iff)

lemma upd_id [simp]: "upd s (frames s) (invalidated s) = s"
proof -
  have "(\<lambda>g. if g = tmp_frame s then frames s g else frames s g) = frames s" by auto
  then show ?thesis unfolding upd_def by simp
qed

lemma upd_window [simp]: "tmp_entry (upd s F iv) = tmp_entry s" "tmp_free (upd s F iv) = tmp_free s"
    "tmp_ok (upd s F iv) = tmp_ok s" "pt_page (upd s F iv) = pt_page s"
proof -
  show e: "tmp_entry (upd s F iv) = tmp_entry s" by (rule ext) (simp add: tmp_entry_def)
  show f: "tmp_free (upd s F iv) = tmp_free s" by (simp add: tmp_free_def e)
  show "tmp_ok (upd s F iv) = tmp_ok s" by (simp add: tmp_ok_def e f)
  show "pt_page (upd s F iv) = pt_page s" by (rule ext) (simp add: pt_page_def)
qed

lemma window_unmap:
  assumes "tmp_ok s" "tmp_free s \<noteq> {}"
  shows "unmap_page_tmp (slot (first_free_tmp_index s)) (upd (opened s p) F iv)
    = Inr ((), upd s F (slot (first_free_tmp_index s) # iv))"
proof -
  let ?f = "first_free_tmp_index s"
  have f: "unat ?f < 511" "tmp_entry s (unat ?f) = 0" using tmp_ok_free(2,3)[OF assms] .
  have ix: "pt_index (slot ?f) = ?f" using f by (intro slot_index) simp
  have "?f \<noteq> 511" using f by auto
  moreover have "?f < of_nat (next_free s)"
    using next_free_bounds(2,3)[OF assms] by (simp add: word_less_nat_alt unat_of_nat take_bit_nat_eq_self)
  moreover have "(frames s (tmp_frame s))(unat ?f := 0) = frames s (tmp_frame s)"
    using f(2) by (simp add: tmp_entry_def fun_upd_idem)
  ultimately show ?thesis
    using slot_ge[of ?f]
    by (simp add: unmap_page_tmp_def invalidate_page_def window_indices ix kern set_entry_def opened_def upd_def
        tmp_frame_def fun_eq_iff)
qed

text \<open>Enough free slots for \<open>n\<close> pages at the same time.\<close>

definition room :: "nat \<Rightarrow> kst \<Rightarrow> bool" where
  "room n s \<longleftrightarrow> tmp_ok s \<and> n \<le> card (tmp_free s)"

lemma room_Suc: "room (Suc n) s \<Longrightarrow> tmp_ok s \<and> tmp_free s \<noteq> {}"
  by (auto simp: room_def)

lemma room_le: "room n s \<Longrightarrow> k \<le> n \<Longrightarrow> room k s"
  by (simp add: room_def)

lemma room_upd [simp]: "room n (upd s F iv) = room n s"
  by (simp add: room_def)

lemma room_opened:
  assumes "room (Suc n) s"
  shows "room n (opened s p)"
proof -
  have s: "tmp_ok s" "tmp_free s \<noteq> {}" using room_Suc[OF assms] by simp_all
  then show ?thesis using assms tmp_ok_free(1)[OF s] by (simp add: room_def opened_ok opened_free)
qed

text \<open>
  Going down one level: a computation on the page in the window that only changes other tables acts
  on the original state, and nothing of the window remains.
\<close>

lemma descend:
  assumes "room (Suc n) s"
    and "c (slot (first_free_tmp_index s)) (opened s p) = Inr (r, upd (opened s p) F iv)"
  shows "bnd (map_page_tmp p VM_FLAG_WRITABLE) (\<lambda>v. bnd (c v) (\<lambda>r. thn (unmap_page_tmp v) (k r))) s
    = k r (upd s F (slot (first_free_tmp_index s) # iv))"
  using room_Suc[OF assms(1)] assms(2)
  by (simp add: bnd_def[of "map_page_tmp p VM_FLAG_WRITABLE"] window_map) (simp add: bnd_def thn_def window_unmap)

end
