(* ===== verification/Vm_walk.thy ===== *)
theory Vm_walk
  imports Vm_window
begin

text \<open>
  Translation as a walk over four levels of tables to a page of 4 KiB, and the operations that go to one page:
  \<open>vm_vaddr_to_paddr\<close> computes the walk, and \<open>vm_set_backing\<close> redirects it. \<open>Mmu\<close> relates the walk to what the
  processor does.
\<close>

section \<open>Walks\<close>

fun walk :: "(addr \<Rightarrow> nat \<Rightarrow> pte) \<Rightarrow> addr \<Rightarrow> u64 list \<Rightarrow> addr option" where
  "walk fr p [] = Some p"
| "walk fr p (i # is) =
     (if present (fr p (unat i)) then walk fr (PTEPADDR (fr p (unat i))) is else None)"

text \<open>The tables that a walk reads.\<close>

fun path :: "(addr \<Rightarrow> nat \<Rightarrow> pte) \<Rightarrow> addr \<Rightarrow> u64 list \<Rightarrow> addr list" where
  "path fr p [] = []"
| "path fr p (i # is) =
     p # (if present (fr p (unat i)) then path fr (PTEPADDR (fr p (unat i))) is else [])"

definition translate :: "(addr \<Rightarrow> nat \<Rightarrow> pte) \<Rightarrow> addr \<Rightarrow> addr \<Rightarrow> addr option" where
  "translate fr root v =
     (case walk fr root (indices_of v) of None \<Rightarrow> None | Some p \<Rightarrow> Some (p OR PAGEOFFSET v))"

lemma walk_cong:
  "(\<And>g. g \<in> set (path fr p is) \<Longrightarrow> fr' g = fr g) \<Longrightarrow> walk fr' p is = walk fr p is \<and> path fr' p is = path fr p is"
  by (induction "is" arbitrary: p) auto

lemma path_nonempty: "is \<noteq> [] \<Longrightarrow> p \<in> set (path fr p is)"
  by (cases "is") auto

section \<open>Finding a page\<close>

lemma level_last: "n < 4 \<Longrightarrow> level_of (Suc n) = PT_LAST_LEVEL \<longleftrightarrow> n = 0"
  by (auto simp: level_of_def PT_LAST_LEVEL_def PT_NUM_LEVELS_def)

lemma rd_pte_run:
  assumes "pt_page s pt = Some p" "unat i < 512"
  shows "rd_pte pt i s = Inr (frames s p (unat i), s)"
  using assms by (simp add: rd_pte_def PT_LENGTH_def word_less_nat_alt kern)

lemma wr_pte_run:
  assumes "pt_page s pt = Some p" "unat i < 512"
  shows "wr_pte pt i v s = Inr ((), set_entry p (unat i) v s)"
  using assms by (simp add: wr_pte_def PT_LENGTH_def word_less_nat_alt kern)

lemma set_entry_upd:
  assumes "p \<noteq> tmp_frame s"
  shows "set_entry p i v s = upd s ((frames s)(p := (frames s p)(i := v))) (invalidated s)"
  using assms by (simp add: set_entry_def upd_def fun_eq_iff)

text \<open>The pointer to a table, the table, and the indices of a walk from it, at a given height.\<close>

definition at_table :: "nat \<Rightarrow> kst \<Rightarrow> addr \<Rightarrow> addr \<Rightarrow> u64 list \<Rightarrow> bool" where
  "at_table n s pt p is \<longleftrightarrow> length is = n \<and> n \<le> 4 \<and> (\<forall>i\<in>set is. unat i < 512) \<and> room (n - 1) s \<and>
     pt_page s pt = Some p \<and> tmp_frame s \<notin> set (path (frames s) p is)"

lemma at_table_down:
  assumes "at_table (Suc (Suc n)) s pt p (i # is)" "present (frames s p (unat i))"
  defines "q \<equiv> PTEPADDR (frames s p (unat i))"
  shows "at_table (Suc n) (opened s q) (slot (first_free_tmp_index s)) q is"
    "walk (frames (opened s q)) q is = walk (frames s) q is"
    "path (frames (opened s q)) q is = path (frames s) q is"
    "room (Suc n) s" "p \<noteq> tmp_frame s" "unat i < 512"
proof -
  have r: "room (Suc n) s" and t: "tmp_frame s \<notin> set (path (frames s) q is)" "p \<noteq> tmp_frame s" "unat i < 512"
    using assms by (auto simp: at_table_def q_def)
  have s: "tmp_ok s" "tmp_free s \<noteq> {}" using room_Suc[OF r] by simp_all
  have "walk (frames (opened s q)) q is = walk (frames s) q is \<and> path (frames (opened s q)) q is = path (frames s) q is"
    by (rule walk_cong) (metis opened_same(4) t(1))
  then show w: "walk (frames (opened s q)) q is = walk (frames s) q is"
    and p: "path (frames (opened s q)) q is = path (frames s) q is" by simp_all
  show "room (Suc n) s" "p \<noteq> tmp_frame s" "unat i < 512" by fact+
  show "at_table (Suc n) (opened s q) (slot (first_free_tmp_index s)) q is"
    unfolding at_table_def p opened_same(2)
    using assms(1) t room_opened[OF r, of q] opened_page[OF s, of q] by (auto simp: at_table_def q_def)
qed

lemma find_walk:
  "at_table (Suc n) s pt p is \<Longrightarrow> \<exists>iv. recurse_find (Suc n) pt is pa s =
    Inr (case walk (frames s) p is of None \<Rightarrow> (fails ENOMAP, pa) | Some q \<Rightarrow> (SUCCESS, q), upd s (frames s) iv)"
proof (induction n arbitrary: s pt p "is")
  case 0
  then obtain i where i: "is = [i]" by (auto simp: at_table_def length_Suc_conv)
  then have r: "rd_pte pt i s = Inr (frames s p (unat i), s)"
    using 0 by (intro rd_pte_run) (simp_all add: at_table_def)
  then have "recurse_find (Suc 0) pt is pa s =
      Inr (case walk (frames s) p is of None \<Rightarrow> (fails ENOMAP, pa) | Some q \<Rightarrow> (SUCCESS, q), s)"
    by (simp add: i bnd_Inr level_last kern)
  then show ?case using upd_id[of s] by metis
next
  case (Suc n)
  then obtain i js where i: "is = i # js" by (cases "is") (auto simp: at_table_def)
  have lt: "Suc n < 4" using Suc.prems by (simp add: at_table_def)
  have r: "rd_pte pt i s = Inr (frames s p (unat i), s)"
    using Suc.prems i by (intro rd_pte_run) (simp_all add: at_table_def)
  show ?case
  proof (cases "present (frames s p (unat i))")
    case False
    then have "recurse_find (Suc (Suc n)) pt is pa s = Inr ((fails ENOMAP, pa), s)"
      unfolding recurse_find.simps(2)[of "Suc n"] by (simp add: i bnd_Inr r kern)
    with False show ?thesis using upd_id[of s] i by (metis option.simps(4) walk.simps(2))
  next
    case True
    let ?q = "PTEPADDR (frames s p (unat i))"
    note d = at_table_down[OF Suc.prems[unfolded i] True]
    from Suc.IH[OF d(1)] obtain iv where
      "recurse_find (Suc n) (slot (first_free_tmp_index s)) js pa (opened s ?q) =
        Inr (case walk (frames s) ?q js of None \<Rightarrow> (fails ENOMAP, pa) | Some q \<Rightarrow> (SUCCESS, q),
             upd (opened s ?q) (frames (opened s ?q)) iv)" unfolding d(2) by blast
    note rec = this
    have "recurse_find (Suc (Suc n)) pt is pa s =
        bnd (map_page_tmp ?q VM_FLAG_WRITABLE) (\<lambda>v. bnd (recurse_find (Suc n) v js pa) (\<lambda>r.
          thn (unmap_page_tmp v) (case r of (res, paddr) \<Rightarrow> ret (res, paddr)))) s"
      unfolding recurse_find.simps(2)[of "Suc n"] using True lt
      by (simp add: i bnd_Inr r level_last case_prod_unfold)
    also have "\<dots> = Inr (case walk (frames s) ?q js of None \<Rightarrow> (fails ENOMAP, pa) | Some q \<Rightarrow> (SUCCESS, q),
        upd s (frames (opened s ?q)) (slot (first_free_tmp_index s) # iv))"
      using descend[OF d(4), where c = "\<lambda>v. recurse_find (Suc n) v js pa" and k = "\<lambda>(res, paddr). ret (res, paddr)", OF rec]
      by (simp add: case_prod_unfold kern)
    also have "upd s (frames (opened s ?q)) (slot (first_free_tmp_index s) # iv)
        = upd s (frames s) (slot (first_free_tmp_index s) # iv)"
      by (simp add: upd_def opened_same fun_eq_iff)
    finally show ?thesis using True i by auto
  qed
qed

lemma find_walk4:
  assumes "at_table 4 s pt p is"
  shows "\<exists>iv. recurse_find PT_NUM_LEVELS pt is pa s =
    Inr (case walk (frames s) p is of None \<Rightarrow> (fails ENOMAP, pa) | Some q \<Rightarrow> (SUCCESS, q), upd s (frames s) iv)"
  using find_walk[of 3 s pt p "is" pa] assms by (simp add: PT_NUM_LEVELS_def numeral_eq_Suc)

lemma translate_run:
  assumes "table \<noteq> 0" "at_table 4 s table root (indices_of v)"
  shows "\<exists>iv. vm_vaddr_to_paddr table v pa s =
    Inr (case translate (frames s) root v of None \<Rightarrow> (fails ENOMAP, pa) | Some q \<Rightarrow> (SUCCESS, q),
         upd s (frames s) iv)"
  using assms(1) find_walk4[OF assms(2), of pa]
  by (auto simp: vm_vaddr_to_paddr_def bnd_Inr translate_def kern split: option.splits)

section \<open>Backing\<close>

text \<open>The last table of a walk and the index in it.\<close>

fun leaf :: "(addr \<Rightarrow> nat \<Rightarrow> pte) \<Rightarrow> addr \<Rightarrow> u64 list \<Rightarrow> addr \<times> nat" where
  "leaf fr p [] = (p, 0)"
| "leaf fr p [i] = (p, unat i)"
| "leaf fr p (i # j # is) = leaf fr (PTEPADDR (fr p (unat i))) (j # is)"

text \<open>All tables of the walk are there; the last entry may be absent.\<close>

fun reach :: "(addr \<Rightarrow> nat \<Rightarrow> pte) \<Rightarrow> addr \<Rightarrow> u64 list \<Rightarrow> bool" where
  "reach fr p [] \<longleftrightarrow> True"
| "reach fr p [i] \<longleftrightarrow> True"
| "reach fr p (i # j # is) \<longleftrightarrow> present (fr p (unat i)) \<and> reach fr (PTEPADDR (fr p (unat i))) (j # is)"

definition with_leaf :: "(addr \<Rightarrow> nat \<Rightarrow> pte) \<Rightarrow> addr \<Rightarrow> u64 list \<Rightarrow> (nat \<Rightarrow> (nat \<Rightarrow> pte) \<Rightarrow> nat \<Rightarrow> pte) \<Rightarrow>
    addr \<Rightarrow> nat \<Rightarrow> pte" where
  "with_leaf fr p is h = (let (l, i) = leaf fr p is in fr(l := h i (fr l)))"

lemma walk_reach: "walk fr p is \<noteq> None \<Longrightarrow> reach fr p is"
  by (induction fr p "is" rule: reach.induct) (auto split: if_splits)

lemma leaf_in_path: "is \<noteq> [] \<Longrightarrow> reach fr p is \<Longrightarrow> fst (leaf fr p is) \<in> set (path fr p is)"
  by (induction fr p "is" rule: leaf.induct) auto

lemma leaf_cong: "(\<And>g. g \<in> set (path fr p is) \<Longrightarrow> fr' g = fr g) \<Longrightarrow> reach fr p is \<Longrightarrow>
    leaf fr' p is = leaf fr p is \<and> reach fr' p is"
  by (induction fr p "is" rule: leaf.induct) auto

text \<open>Walks whose upper indices are those of \<open>is\<close> see the changed table.\<close>

lemma with_leaf_walk:
  "is \<noteq> [] \<Longrightarrow> distinct (path fr p is) \<Longrightarrow> reach fr p is \<Longrightarrow> leaf fr p is = (l, k) \<Longrightarrow>
    walk (fr(l := row)) p (butlast is @ [j]) = (if present (row (unat j)) then Some (PTEPADDR (row (unat j))) else None) \<and>
    path (fr(l := row)) p (butlast is @ [j]) = path fr p is \<and> reach (fr(l := row)) p is \<and>
    leaf (fr(l := row)) p is = (l, k)"
proof (induction fr p "is" rule: leaf.induct)
  case (3 fr p i i2 js)
  let ?q = "PTEPADDR (fr p (unat i))"
  have pr: "present (fr p (unat i))" "reach fr ?q (i2 # js)" using 3(4) by auto
  have "l \<in> set (path fr ?q (i2 # js))" using leaf_in_path[of "i2 # js" fr ?q] pr 3(5) by simp
  moreover have d: "p \<notin> set (path fr ?q (i2 # js))" "distinct (path fr ?q (i2 # js))" using 3(3) pr by auto
  ultimately have "l \<noteq> p" by auto
  then have e: "(fr(l := row)) p = fr p" by simp
  have "walk (fr(l := row)) ?q (butlast (i2 # js) @ [j]) = (if present (row (unat j)) then Some (PTEPADDR (row (unat j))) else None) \<and>
      path (fr(l := row)) ?q (butlast (i2 # js) @ [j]) = path fr ?q (i2 # js) \<and> reach (fr(l := row)) ?q (i2 # js) \<and>
      leaf (fr(l := row)) ?q (i2 # js) = (l, k)"
    by (rule "3.IH") (use 3 pr d in simp_all)
  then show ?case using pr e by (simp del: fun_upd_apply)
qed auto

definition one_entry :: "(pte \<Rightarrow> pte) \<Rightarrow> nat \<Rightarrow> (nat \<Rightarrow> pte) \<Rightarrow> nat \<Rightarrow> pte" where
  "one_entry h i row = row(i := h (row i))"

definition backing :: "addr \<Rightarrow> pte \<Rightarrow> pte" where
  "backing pa e = (e AND NOT 0x000ffffffffff000) OR pa"

lemma backing_fields:
  assumes "pte_address pa"
  shows "present e \<Longrightarrow> present (backing pa e)" "PTEPADDR (backing pa e) = pa"
    "writable (backing pa e) = writable e" "no_execute (backing pa e) = no_execute e"
    "user_accessible (backing pa e) = user_accessible e"
proof -
  have pa: "bit pa k \<longleftrightarrow> 12 \<le> k \<and> k < 52 \<and> bit pa k" for k
    using PTEPADDR_bit[of pa k] assms by (simp add: pte_address_def)
  have b: "bit (backing pa e) k \<longleftrightarrow> (if 12 \<le> k \<and> k < 52 then bit pa k else bit e k)" for k
    using pa[of k] bit_imp_le_length[of e k]
    unfolding backing_def bit_or_iff bit_and_iff bit_not_iff mask_bits by auto
  show "present e \<Longrightarrow> present (backing pa e)" "writable (backing pa e) = writable e"
    "no_execute (backing pa e) = no_execute e" "user_accessible (backing pa e) = user_accessible e"
    by (simp_all add: present_def writable_def no_execute_def user_accessible_def b)
  show "PTEPADDR (backing pa e) = pa"
    by (rule bit_word_eqI) (use pa in \<open>auto simp: PTEPADDR_bit b\<close>)
qed

lemma upd_with_leaf:
  assumes "reach (frames s) q is" "is \<noteq> []" "tmp_frame s \<notin> set (path (frames s) q is)"
  shows "upd s (with_leaf (frames (opened s q')) q is h) iv = upd s (with_leaf (frames s) q is h) iv"
proof -
  obtain l k where lk: "leaf (frames s) q is = (l, k)" by force
  have "l \<noteq> tmp_frame s" using leaf_in_path[OF assms(2,1)] assms(3) lk by auto
  moreover have "leaf (frames (opened s q')) q is = leaf (frames s) q is"
    using leaf_cong[of "frames s" q "is" "frames (opened s q')"] assms by (metis opened_same(4))
  ultimately show ?thesis by (auto simp: with_leaf_def lk upd_def opened_same fun_eq_iff)
qed

lemma set_backing_walk:
  "at_table (Suc n) s pt p is \<Longrightarrow> \<exists>iv. recurse_set_backing (Suc n) pt is pa s =
    Inr (case walk (frames s) p is of None \<Rightarrow> (fails ENOMAP, upd s (frames s) iv)
         | Some q \<Rightarrow> (SUCCESS, upd s (with_leaf (frames s) p is (one_entry (backing pa))) iv))"
proof (induction n arbitrary: s pt p "is")
  case 0
  then obtain i where i: "is = [i]" by (auto simp: at_table_def length_Suc_conv)
  have tp: "p \<noteq> tmp_frame s" "unat i < 512" "pt_page s pt = Some p" using 0 i by (auto simp: at_table_def)
  have r: "rd_pte pt i s = Inr (frames s p (unat i), s)" using tp by (intro rd_pte_run)
  have w: "wr_pte pt i v s = Inr ((), upd s ((frames s)(p := (frames s p)(unat i := v))) (invalidated s))" for v
    using wr_pte_run[OF tp(3,2)] set_entry_upd[OF tp(1)] by simp
  have "recurse_set_backing (Suc 0) pt is pa s =
      Inr (case walk (frames s) p is of None \<Rightarrow> (fails ENOMAP, upd s (frames s) (invalidated s))
         | Some q \<Rightarrow> (SUCCESS, upd s (with_leaf (frames s) p is (one_entry (backing pa))) (invalidated s)))"
    by (simp add: i bnd_Inr thn_Inr r w level_last kern with_leaf_def one_entry_def backing_def)
  then show ?case by blast
next
  case (Suc n)
  then obtain i js where i: "is = i # js" by (cases "is") (auto simp: at_table_def)
  have lt: "Suc n < 4" and ne: "js \<noteq> []" using Suc.prems i by (auto simp: at_table_def)
  have r: "rd_pte pt i s = Inr (frames s p (unat i), s)"
    using Suc.prems i by (intro rd_pte_run) (simp_all add: at_table_def)
  show ?case
  proof (cases "present (frames s p (unat i))")
    case False
    then have "recurse_set_backing (Suc (Suc n)) pt is pa s = Inr (fails ENOMAP, upd s (frames s) (invalidated s))"
      unfolding recurse_set_backing.simps(2)[of "Suc n"] by (simp add: i bnd_Inr r kern)
    moreover have "walk (frames s) p is = None" using False i by simp
    ultimately show ?thesis by (metis option.simps(4))
  next
    case True
    let ?q = "PTEPADDR (frames s p (unat i))"
    let ?v = "slot (first_free_tmp_index s)"
    note d = at_table_down[OF Suc.prems[unfolded i] True]
    have t: "tmp_frame s \<notin> set (path (frames s) ?q js)" using Suc.prems i True by (auto simp: at_table_def)
    from Suc.IH[OF d(1)] obtain iv where rec:
      "recurse_set_backing (Suc n) ?v js pa (opened s ?q) =
        Inr (case walk (frames s) ?q js of None \<Rightarrow> (fails ENOMAP, upd (opened s ?q) (frames (opened s ?q)) iv)
         | Some q \<Rightarrow> (SUCCESS, upd (opened s ?q) (with_leaf (frames (opened s ?q)) ?q js (one_entry (backing pa))) iv))"
      unfolding d(2) by blast
    have run: "recurse_set_backing (Suc (Suc n)) pt is pa s =
        bnd (map_page_tmp ?q VM_FLAG_WRITABLE) (\<lambda>v. bnd (recurse_set_backing (Suc n) v js pa) (\<lambda>r.
          thn (unmap_page_tmp v) (ret r))) s"
      unfolding recurse_set_backing.simps(2)[of "Suc n"] using True lt
      by (simp add: i bnd_Inr r level_last)
    show ?thesis
    proof (cases "walk (frames s) ?q js")
      case None
      then have rec': "recurse_set_backing (Suc n) ?v js pa (opened s ?q) =
          Inr (fails ENOMAP, upd (opened s ?q) (frames (opened s ?q)) iv)" using rec by simp
      have "recurse_set_backing (Suc (Suc n)) pt is pa s = Inr (fails ENOMAP, upd s (frames (opened s ?q)) (?v # iv))"
        unfolding run using descend[OF d(4), where k = ret and c = "\<lambda>v. recurse_set_backing (Suc n) v js pa", OF rec'] by (simp add: kern)
      also have "upd s (frames (opened s ?q)) (?v # iv) = upd s (frames s) (?v # iv)"
        by (simp add: upd_def opened_same fun_eq_iff)
      finally show ?thesis using True i None by auto
    next
      case (Some x)
      then have rec': "recurse_set_backing (Suc n) ?v js pa (opened s ?q) =
          Inr (SUCCESS, upd (opened s ?q) (with_leaf (frames (opened s ?q)) ?q js (one_entry (backing pa))) iv)" using rec by simp
      have "recurse_set_backing (Suc (Suc n)) pt is pa s =
          Inr (SUCCESS, upd s (with_leaf (frames (opened s ?q)) ?q js (one_entry (backing pa))) (?v # iv))"
        unfolding run using descend[OF d(4), where k = ret and c = "\<lambda>v. recurse_set_backing (Suc n) v js pa", OF rec'] by (simp add: kern)
      also have "upd s (with_leaf (frames (opened s ?q)) ?q js (one_entry (backing pa))) (?v # iv) =
          upd s (with_leaf (frames s) ?q js (one_entry (backing pa))) (?v # iv)"
        by (rule upd_with_leaf) (use Some ne t walk_reach in simp_all)
      also have "with_leaf (frames s) ?q js (one_entry (backing pa)) = with_leaf (frames s) p is (one_entry (backing pa))"
        using i ne by (cases js) (simp_all add: with_leaf_def)
      finally show ?thesis using True i Some by auto
    qed
  qed
qed

lemma upd_frames: "upd s (frames s) iv = s\<lparr>invalidated := iv\<rparr>"
proof -
  have "(\<lambda>g. if g = tmp_frame s then frames s g else frames s g) = frames s" by auto
  then show ?thesis unfolding upd_def by simp
qed

lemma upd_apart: "F (tmp_frame s) = frames s (tmp_frame s) \<Longrightarrow> frames (upd s F iv) = F"
  by (auto simp: upd_def fun_eq_iff)

lemma indices_ok: "\<forall>i\<in>set (indices_of v). unat i < 512" "length (indices_of v) = 4" "indices_of v \<noteq> []"
  by (auto simp: indices_of_def)

lemma set_backing_walk4:
  assumes "at_table 4 s pt p is"
  shows "\<exists>iv. recurse_set_backing PT_NUM_LEVELS pt is pa s =
    Inr (case walk (frames s) p is of None \<Rightarrow> (fails ENOMAP, upd s (frames s) iv)
         | Some q \<Rightarrow> (SUCCESS, upd s (with_leaf (frames s) p is (one_entry (backing pa))) iv))"
  using set_backing_walk[of 3 s pt p "is" pa] assms by (simp add: PT_NUM_LEVELS_def numeral_eq_Suc)

lemma set_backing_run:
  assumes v: "ISPAGEALIGNED v" and pa: "pte_address pa" and at: "at_table 4 s table root (indices_of v)"
    and d: "distinct (path (frames s) root (indices_of v))" and w: "walk (frames s) root (indices_of v) \<noteq> None"
  obtains s' where "vm_set_backing table v pa s = Inr (SUCCESS, s')" "walk (frames s') root (indices_of v) = Some pa"
    "path (frames s') root (indices_of v) = path (frames s) root (indices_of v)"
    "\<And>g i. (g, i) \<noteq> leaf (frames s) root (indices_of v) \<Longrightarrow> frames s' g i = frames s g i"
    "at_table 4 s' table root (indices_of v)" "s' = s\<lparr>frames := frames s', invalidated := invalidated s'\<rparr>"
proof -
  let ?is = "indices_of v"
  obtain l k where lk: "leaf (frames s) root ?is = (l, k)" by force
  have reach: "reach (frames s) root ?is" using w by (rule walk_reach)
  let ?row = "(frames s l)(k := backing pa (frames s l k))"
  let ?F = "(frames s)(l := ?row)"
  have F: "with_leaf (frames s) root ?is (one_entry (backing pa)) = ?F"
    by (simp add: with_leaf_def lk one_entry_def)
  have "fst (leaf (frames s) root ?is) \<in> set (path (frames s) root ?is)"
    by (rule leaf_in_path[OF indices_ok(3) reach])
  then have lt: "l \<noteq> tmp_frame s" using at lk by (auto simp: at_table_def)
  obtain iv where "recurse_set_backing PT_NUM_LEVELS table ?is pa s = Inr (SUCCESS, upd s ?F iv)"
    using set_backing_walk4[OF at, of pa] w F by auto
  moreover have "ISPAGEALIGNED pa" using pa by (simp add: pte_address_iff)
  ultimately have run: "vm_set_backing table v pa s = Inr (SUCCESS, upd s ?F iv)"
    using v by (simp add: vm_set_backing_def)
  have fr: "frames (upd s ?F iv) = ?F" using lt by (intro upd_apart) simp
  have split: "butlast ?is @ [pt_index v] = ?is" by (simp add: indices_of_def)
  have k: "k = unat (pt_index v)" using lk by (simp add: indices_of_def)
  have pres: "present (frames s l k)"
    using with_leaf_walk[OF indices_ok(3) d reach lk, of "frames s l" "pt_index v"] w
    unfolding split k by (auto split: if_splits)
  have wl: "walk ?F root ?is = Some pa" "path ?F root ?is = path (frames s) root ?is"
    using with_leaf_walk[OF indices_ok(3) d reach lk, of ?row "pt_index v"] backing_fields(1,2)[OF pa] pres
    unfolding split k by auto
  have at': "at_table 4 (upd s ?F iv) table root ?is"
    using at by (simp add: at_table_def fr wl(2))
  have same: "upd s ?F iv = s\<lparr>frames := frames (upd s ?F iv), invalidated := invalidated (upd s ?F iv)\<rparr>"
    by (simp add: upd_def)
  show thesis
    by (rule that[OF run _ _ _ at' same]) (use wl lk in \<open>auto simp: fr\<close>)
qed

text \<open>\<open>vm_set_backing\<close> on a mapped page makes the address translate to the new page, which
  \<open>vm_vaddr_to_paddr\<close> then reports, changes one entry only, and fails with \<open>ENOMAP\<close> without any change to
  the tables when the page is not mapped.\<close>

theorem set_backing_redirects:
  assumes "table \<noteq> 0" "ISPAGEALIGNED v" "pte_address pa" "at_table 4 s table root (indices_of v)"
    "distinct (path (frames s) root (indices_of v))"
  shows "if translate (frames s) root v = None
    then \<exists>iv. vm_set_backing table v pa s = Inr (fails ENOMAP, s\<lparr>invalidated := iv\<rparr>)
    else \<exists>s'. vm_set_backing table v pa s = Inr (SUCCESS, s') \<and> translate (frames s') root v = Some pa \<and>
      (\<exists>iv. vm_vaddr_to_paddr table v x s' = Inr ((SUCCESS, pa), s'\<lparr>invalidated := iv\<rparr>)) \<and>
      (\<forall>g i. frames s' g i \<noteq> frames s g i \<longrightarrow> (g, i) = leaf (frames s) root (indices_of v))"
proof (cases "walk (frames s) root (indices_of v)")
  case None
  then obtain iv where "recurse_set_backing PT_NUM_LEVELS table (indices_of v) pa s = Inr (fails ENOMAP, upd s (frames s) iv)"
    using set_backing_walk4[OF assms(4), of pa] by auto
  moreover have "ISPAGEALIGNED pa" using assms(3) by (simp add: pte_address_iff)
  ultimately have "vm_set_backing table v pa s = Inr (fails ENOMAP, s\<lparr>invalidated := iv\<rparr>)"
    using assms(2) by (simp add: vm_set_backing_def upd_frames)
  then show ?thesis using None by (auto simp: translate_def)
next
  case (Some q)
  then have w: "walk (frames s) root (indices_of v) \<noteq> None" by simp
  obtain s' where s': "vm_set_backing table v pa s = Inr (SUCCESS, s')" "walk (frames s') root (indices_of v) = Some pa"
    "\<And>g i. (g, i) \<noteq> leaf (frames s) root (indices_of v) \<Longrightarrow> frames s' g i = frames s g i"
    "at_table 4 s' table root (indices_of v)"
    by (rule set_backing_run[OF assms(2-5) w], rule that, assumption+)
  have "PAGEOFFSET v = 0" using assms(2) by (simp add: ISPAGEALIGNED_def)
  then have t: "translate (frames s') root v = Some pa" using s'(2) by (simp add: translate_def)
  have "\<exists>iv. vm_vaddr_to_paddr table v x s' = Inr ((SUCCESS, pa), s'\<lparr>invalidated := iv\<rparr>)"
    using translate_run[OF assms(1) s'(4), of x] t by (simp add: upd_frames)
  moreover have "translate (frames s) root v \<noteq> None" using Some by (simp add: translate_def)
  ultimately show ?thesis using s'(1,3) t by metis
qed

end
