(* ===== verification/Vm_map.thy ===== *)
theory Vm_map
  imports Vm_walk
begin

text \<open>
  Mapping pages with \<open>VM_FLAG_STRICT\<close> where the tables of the three upper levels exist: the search
  succeeds exactly at the address asked for, and the entries of the last table are filled in order.
\<close>

section \<open>Changing the flags of upper entries\<close>

definition relevel :: "flags \<Rightarrow> pte \<Rightarrow> pte" where
  "relevel flags e = put_bit 63 False (put_bit 2 (ISFLAGSET flags VM_FLAG_USER)
     (put_bit 1 (ISFLAGSET flags VM_FLAG_WRITABLE) e))"

lemma relevel_fields [simp]:
  "present (relevel fl e) = present e" "PTEPADDR (relevel fl e) = PTEPADDR e"
  "writable (relevel fl e) = ISFLAGSET fl VM_FLAG_WRITABLE"
  "user_accessible (relevel fl e) = ISFLAGSET fl VM_FLAG_USER" "\<not> no_execute (relevel fl e)"
proof -
  show "PTEPADDR (relevel fl e) = PTEPADDR e"
    by (rule bit_word_eqI) (auto simp: PTEPADDR_bit relevel_def put_bit_bit)
qed (simp_all add: present_def writable_def user_accessible_def no_execute_def relevel_def put_bit_bit)

text \<open>All upper entries of a walk get the new flags.\<close>

fun relevelled :: "flags \<Rightarrow> (addr \<Rightarrow> nat \<Rightarrow> pte) \<Rightarrow> addr \<Rightarrow> u64 list \<Rightarrow> addr \<Rightarrow> nat \<Rightarrow> pte" where
  "relevelled fl fr p [] = fr"
| "relevelled fl fr p [i] = fr"
| "relevelled fl fr p (i # j # is) =
     relevelled fl (fr(p := (fr p)(unat i := relevel fl (fr p (unat i))))) (PTEPADDR (fr p (unat i))) (j # is)"

lemma update_run:
  assumes "pt_page s pt = Some p" "unat i < 512" "pt \<noteq> 0"
  shows "update_pt_pte_flags pt i fl s = Inr ((), set_entry p (unat i) (relevel fl (frames s p (unat i))) s)"
proof -
  have "i < 512" using assms(2) by (simp add: word_less_nat_alt)
  then show ?thesis
    using assms by (simp add: update_pt_pte_flags_def PT_LENGTH_def bnd_Inr rd_pte_run wr_pte_run relevel_def kern)
qed

lemma slot_nonzero [simp]: "slot i \<noteq> 0"
proof
  assume "slot i = 0"
  then have "PT_TMP_START_VADDR \<le> 0" using slot_ge[of i] by simp
  then show False by (simp add: PT_TMP_START_VADDR_def)
qed

text \<open>A pointer that is in use stays valid when another slot is opened.\<close>

lemma opened_keeps:
  assumes "pt_page s pt = Some p" "tmp_ok s" "tmp_free s \<noteq> {}"
  shows "pt_page (opened s q) pt = Some p"
proof -
  have np: "\<not> present (frames s (tmp_frame s) (unat (first_free_tmp_index s)))"
    using tmp_ok_free(1)[OF assms(2,3)] by (simp add: tmp_free_def tmp_entry_def)
  show ?thesis
  proof (cases "pt \<ge> PT_TMP_START_VADDR")
    case True
    then have "present (frames s (tmp_frame s) (unat (pt_index pt)))"
      using assms(1) by (auto simp: pt_page_def Let_def split: if_splits)
    then have "unat (pt_index pt) \<noteq> unat (first_free_tmp_index s)" using np by metis
    then have "tmp_entry (opened s q) (unat (pt_index pt)) = tmp_entry s (unat (pt_index pt))"
      by (simp add: opened_entry)
    then show ?thesis using assms(1) True by (simp add: pt_page_def Let_def opened_same tmp_entry_def)
  qed (use assms(1) in \<open>simp add: pt_page_def opened_same\<close>)
qed

text \<open>Changes of a table leave the walks that do not read it.\<close>

lemma path_upd:
  assumes "p \<notin> set (path fr q is)"
  shows "path (fr(p := row)) q is = path fr q is" "walk (fr(p := row)) q is = walk fr q is"
  using walk_cong[of fr q "is" "fr(p := row)"] assms by (metis fun_upd_other)+

lemma leaf_upd:
  assumes "p \<notin> set (path fr q is)" "reach fr q is"
  shows "leaf (fr(p := row)) q is = leaf fr q is" "reach (fr(p := row)) q is"
  using leaf_cong[of fr q "is" "fr(p := row)"] assms by (metis fun_upd_other)+

lemma relevelled_same:
  "distinct (path fr p is) \<Longrightarrow> reach fr p is \<Longrightarrow> g \<notin> set (path fr p is) \<Longrightarrow> relevelled fl fr p is g = fr g"
proof (induction fl fr p "is" rule: relevelled.induct)
  case (3 fl fr p i j "is")
  let ?q = "PTEPADDR (fr p (unat i))" and ?fr = "fr(p := (fr p)(unat i := relevel fl (fr p (unat i))))"
  have pr: "present (fr p (unat i))" "reach fr ?q (j # is)" using 3(3) by auto
  then have d: "p \<notin> set (path fr ?q (j # is))" "distinct (path fr ?q (j # is))" using 3(2) by auto
  have g: "g \<notin> set (path fr ?q (j # is))" "g \<noteq> p" using 3(4) pr by auto
  have "relevelled fl ?fr ?q (j # is) g = ?fr g"
    by (rule "3.IH"; simp only: path_upd[OF d(1)] leaf_upd[OF d(1) pr(2)] d g(1) simp_thms)
  then show ?case using g(2) by (simp del: path.simps)
qed auto

lemma relevelled_walk:
  "distinct (path fr p is) \<Longrightarrow> reach fr p is \<Longrightarrow>
    path (relevelled fl fr p is) p is = path fr p is \<and> reach (relevelled fl fr p is) p is \<and>
    leaf (relevelled fl fr p is) p is = leaf fr p is \<and>
    relevelled fl fr p is (fst (leaf fr p is)) = fr (fst (leaf fr p is))"
proof (induction fl fr p "is" rule: relevelled.induct)
  case (3 fl fr p i j "is")
  let ?q = "PTEPADDR (fr p (unat i))" and ?fr = "fr(p := (fr p)(unat i := relevel fl (fr p (unat i))))"
  have pr: "present (fr p (unat i))" "reach fr ?q (j # is)" using 3(3) by auto
  then have d: "p \<notin> set (path fr ?q (j # is))" "distinct (path fr ?q (j # is))" using 3(2) by auto
  have d': "distinct (path ?fr ?q (j # is))" "reach ?fr ?q (j # is)" "p \<notin> set (path ?fr ?q (j # is))"
    by (simp_all only: path_upd[OF d(1)] leaf_upd[OF d(1) pr(2)] d simp_thms)
  note IH = "3.IH"[OF d'(1,2)]
  have p: "relevelled fl ?fr ?q (j # is) p = ?fr p" by (rule relevelled_same[OF d'])
  have "fst (leaf fr ?q (j # is)) \<in> set (path fr ?q (j # is))" by (rule leaf_in_path) (use pr in simp_all)
  then have l: "fst (leaf fr ?q (j # is)) \<noteq> p" using d by auto
  obtain R where R: "R = relevelled fl ?fr ?q (j # is)" by simp
  have r: "path R ?q (j # is) = path fr ?q (j # is)" "reach R ?q (j # is)" "leaf R ?q (j # is) = leaf fr ?q (j # is)"
    "R (fst (leaf fr ?q (j # is))) = fr (fst (leaf fr ?q (j # is)))"
    using IH l unfolding R[symmetric] path_upd[OF d(1)] leaf_upd[OF d(1) pr(2)] by simp_all
  have e: "R p (unat i) = relevel fl (fr p (unat i))" using p unfolding R[symmetric] by simp
  have rl: "relevelled fl fr p (i # j # is) = R" unfolding R by simp
  show ?case unfolding rl leaf.simps(3) reach.simps(3) path.simps(2)[of _ p i] e relevel_fields
    using r pr by simp
qed (auto split: if_splits)

lemma loop_once:
  "b v s \<Longrightarrow> c v s = Inr (v', s') \<Longrightarrow> \<not> b v' s' \<Longrightarrow> loop b c v s = Inr (v', s')"
  by (simp add: loop_step loop_stop)

section \<open>Finding space\<close>

text \<open>A run of \<open>k\<close> absent entries from index \<open>i\<close> on.\<close>

definition absent_run :: "(nat \<Rightarrow> pte) \<Rightarrow> nat \<Rightarrow> nat \<Rightarrow> bool" where
  "absent_run row i k \<longleftrightarrow> i + k \<le> 512 \<and> (\<forall>j. i \<le> j \<and> j < i + k \<longrightarrow> \<not> present (row j))"

lemma absent_run_Suc: "absent_run row i (Suc k) \<longleftrightarrow> i < 512 \<and> \<not> present (row i) \<and> absent_run row (Suc i) k"
proof -
  have "(\<forall>j. i \<le> j \<and> j < i + Suc k \<longrightarrow> \<not> present (row j)) \<longleftrightarrow>
      \<not> present (row i) \<and> (\<forall>j. Suc i \<le> j \<and> j < Suc i + k \<longrightarrow> \<not> present (row j))"
    (is "?L = ?R")
  proof
    assume L: ?L
    then show ?R by (auto dest: spec[of _ i])
  next
    assume R: ?R
    show ?L
    proof (intro allI impI)
      fix j assume "i \<le> j \<and> j < i + Suc k"
      then show "\<not> present (row j)" using R by (cases "j = i") auto
    qed
  qed
  then show ?thesis by (auto simp: absent_run_def)
qed

lemma unat_small: "k \<le> 512 \<Longrightarrow> unat (of_nat k :: u64) = k"
  by (simp add: unat_of_nat take_bit_nat_eq_self)

lemma sint_small: "k \<le> 512 \<Longrightarrow> sint (of_nat k :: u64) = int k"
  by (simp add: signed_of_nat signed_take_bit_int_eq_self)

lemma Suc_index: "unat i < 512 \<Longrightarrow> unat (i + 1) = Suc (unat i)" for i :: u64
  by (simp add: unat_word_ariths)

lemma count_loop:
  "pt_page s pt = Some p \<Longrightarrow> absent_run (frames s p) (unat i) m \<Longrightarrow> f + m = k \<Longrightarrow> k \<le> 512 \<Longrightarrow>
    \<exists>i' pa'. loop count_more (count_step pt 1 (of_nat k) fl) (i, pa, of_nat f, False) s
      = Inr ((i', pa', of_nat k, True), s)"
proof (induction m arbitrary: i pa f)
  case 0
  then have "loop count_more (count_step pt 1 (of_nat k) fl) (i, pa, of_nat f, False) s
      = loop count_more (count_step pt 1 (of_nat k) fl) (i, pa, of_nat f, True) s"
    by (intro loop_step) (simp_all add: kern)
  then show ?case using 0 by (simp add: loop_stop)
next
  case (Suc m)
  have i: "unat i < 512" "\<not> present (frames s p (unat i))" "absent_run (frames s p) (Suc (unat i)) m"
    using Suc.prems(2) by (simp_all add: absent_run_Suc)
  have lt: "(of_nat f :: u64) < of_nat k" using Suc.prems by (simp add: word_less_nat_alt unat_small)
  have "i < 512" using i(1) by (simp add: word_less_nat_alt)
  then have step: "loop count_more (count_step pt 1 (of_nat k) fl) (i, pa, of_nat f, False) s
      = loop count_more (count_step pt 1 (of_nat k) fl) (i + 1, pa + 4096, of_nat (Suc f), False) s"
    using lt i by (intro loop_step) (simp_all add: PT_LENGTH_def bnd_Inr rd_pte_run[OF Suc.prems(1) i(1)] kern add.commute)
  show ?case unfolding step
    by (rule Suc.IH) (use Suc.prems i Suc_index[OF i(1)] in simp_all)
qed

lemma pages_per_leaf: "get_pages_per_entry PT_LAST_LEVEL = 1"
  by (simp add: get_pages_per_entry_def)

lemma find_leaf:
  assumes pg: "pt_page s pt = Some p" and run: "absent_run (frames s p) (unat i) k" "0 < k"
  shows "find_body rec PT_LAST_LEVEL pt [i] pa (of_nat k) fl s = Inr ((int k, [i]), s)"
proof -
  have k: "k \<le> 512" "unat i < 512" "\<not> present (frames s p (unat i))" using run by (auto simp: absent_run_def)
  have "(0 :: u64) < of_nat k" using run(2) k(1) by (simp add: word_less_nat_alt unat_small)
  moreover have i: "i < 512" using k(2) by (simp add: word_less_nat_alt)
  ultimately have scan: "scan_step rec PT_LAST_LEVEL pt pa (of_nat k) fl (i, [i], 0, Go) s = Inr ((i, [i], 0, Break), s)"
    using k by (simp add: PT_LENGTH_def bnd_Inr rd_pte_run[OF pg] kern)
  have l1: "loop scan_more (scan_step rec PT_LAST_LEVEL pt pa (of_nat k) fl) (i, [i], 0, Go) s = Inr ((i, [i], 0, Break), s)"
    by (rule loop_once, simp, rule scan, simp)
  obtain i' pa' where l2: "loop count_more (count_step pt 1 (of_nat k) fl) (i, pa, 0, False) s
      = Inr ((i', pa', of_nat k, True), s)"
    using count_loop[OF pg run(1), of 0 k fl pa] k(1) by auto
  have step: "find_step rec PT_LAST_LEVEL pt pa (of_nat k) fl (i, [i], Go) s = Inr ((i', [i], Return (int k)), s)"
    using i by (simp add: bnd_Inr l1 l2 pages_per_leaf PT_LENGTH_def kern sint_small k(1))
  have "loop find_more (find_step rec PT_LAST_LEVEL pt pa (of_nat k) fl) (i, [i], Go) s = Inr ((i', [i], Return (int k)), s)"
    by (rule loop_once, simp, rule step, simp)
  then show ?thesis by (simp add: find_body_def bnd_Inr kern)
qed

lemma find_space_run:
  "at_table (Suc n) s pt p is \<Longrightarrow> reach (frames s) p is \<Longrightarrow> leaf (frames s) p is = (l, i) \<Longrightarrow>
    absent_run (frames s l) i k \<Longrightarrow> 0 < k \<Longrightarrow>
    \<exists>iv. find_space (Suc n) pt is pa (of_nat k) fl s = Inr ((int k, is), upd s (frames s) iv)"
proof (induction n arbitrary: s pt p "is")
  case 0
  then obtain j where j: "is = [j]" by (auto simp: at_table_def length_Suc_conv)
  then have "find_space (Suc 0) pt is pa (of_nat k) fl s = Inr ((int k, is), s)"
    using find_leaf[where s = s and pt = pt and p = p and i = j and k = k] 0 by (simp add: at_table_def level_of_def PT_LAST_LEVEL_def PT_NUM_LEVELS_def)
  then show ?case using upd_id[of s] by metis
next
  case (Suc n)
  then obtain j js where j: "is = j # js" by (cases "is") (auto simp: at_table_def)
  have lt: "Suc n < 4" and ne: "js \<noteq> []" using Suc.prems(1) j by (auto simp: at_table_def)
  have pr: "present (frames s p (unat j))" using Suc.prems(2) j ne by (cases js) auto
  let ?q = "PTEPADDR (frames s p (unat j))" and ?v = "slot (first_free_tmp_index s)"
  note d = at_table_down[OF Suc.prems(1)[unfolded j] pr]
  have re: "reach (frames s) ?q js" "leaf (frames s) ?q js = (l, i)" using Suc.prems(2,3) j ne by (cases js; auto)+
  have t: "tmp_frame s \<notin> set (path (frames s) ?q js)" using Suc.prems(1) j pr by (auto simp: at_table_def)
  have re': "reach (frames (opened s ?q)) ?q js" "leaf (frames (opened s ?q)) ?q js = (l, i)"
    using leaf_cong[of "frames s" ?q js "frames (opened s ?q)"] re t by (metis opened_same(4))+
  have "l \<noteq> tmp_frame s" using leaf_in_path[OF ne re(1)] re(2) t by auto
  then have "absent_run (frames (opened s ?q) l) i k" using Suc.prems(4) by (simp add: opened_same)
  from Suc.IH[OF d(1) re' this Suc.prems(5)] obtain iv where rec:
    "find_space (Suc n) ?v js pa (of_nat k) fl (opened s ?q) = Inr ((int k, js), upd (opened s ?q) (frames (opened s ?q)) iv)"
    by blast
  have k: "k \<le> 512" using Suc.prems(4) by (simp add: absent_run_def)
  have rd: "rd_pte pt j s = Inr (frames s p (unat j), s)"
    using Suc.prems(1) j by (intro rd_pte_run) (simp_all add: at_table_def)
  let ?s' = "upd s (frames (opened s ?q)) (?v # iv)"
  have "scan_table (find_space (Suc n)) pt pa (of_nat k) fl j is 0 s
      = bnd (map_page_tmp ?q VM_FLAG_WRITABLE) (\<lambda>v. bnd (find_space (Suc n) v js pa (of_nat k) fl) (\<lambda>r.
          thn (unmap_page_tmp v) (case r of (res, rest) \<Rightarrow>
          (let index = j # rest in
      if ISERROR res then
        if res \<noteq> fails EFULL then ret (j, index, 0, Return res)
        else retry_scan j index
      else
        let found_pages = 0 + word_of_int res in
        if res \<ge> sint (of_nat k :: u64) then ret (j, index, found_pages, Return (sint found_pages))
        else if hd rest < PT_LENGTH - 1 then retry_scan j index
        else ret (j + 1, index, found_pages, Go))))) s"
    by (simp add: scan_table_def j bnd_Inr rd case_prod_unfold)
  also have "\<dots> = Inr ((j, is, of_nat k, Return (int k)), ?s')"
    by (subst descend[OF d(4), where c = "\<lambda>v. find_space (Suc n) v js pa (of_nat k) fl", OF rec])
      (simp add: j Let_def sint_small[OF k] kern)
  finally have tab: "scan_table (find_space (Suc n)) pt pa (of_nat k) fl j is 0 s = Inr ((j, is, of_nat k, Return (int k)), ?s')" .
  have "(0 :: u64) < of_nat k" using Suc.prems(5) k by (simp add: word_less_nat_alt unat_small)
  moreover have "j < 512" using d(6) by (simp add: word_less_nat_alt)
  ultimately have scan: "scan_step (find_space (Suc n)) (level_of (Suc (Suc n))) pt pa (of_nat k) fl (j, is, 0, Go) s =
      Inr ((j, is, of_nat k, Return (int k)), ?s')"
    using lt pr tab by (simp add: PT_LENGTH_def bnd_Inr rd level_last del: find_space.simps)
  have l1: "loop scan_more (scan_step (find_space (Suc n)) (level_of (Suc (Suc n))) pt pa (of_nat k) fl) (j, is, 0, Go) s =
      Inr ((j, is, of_nat k, Return (int k)), ?s')"
    by (rule loop_once, simp, rule scan, simp)
  have step: "find_step (find_space (Suc n)) (level_of (Suc (Suc n))) pt pa (of_nat k) fl (j, is, Go) s =
      Inr ((j, is, Return (int k)), ?s')"
    using l1 by (simp add: j bnd_Inr kern del: find_space.simps)
  have "loop find_more (find_step (find_space (Suc n)) (level_of (Suc (Suc n))) pt pa (of_nat k) fl) (j, is, Go) s =
      Inr ((j, is, Return (int k)), ?s')"
    by (rule loop_once, simp, rule step, simp)
  then have "find_space (Suc (Suc n)) pt is pa (of_nat k) fl s = Inr ((int k, is), ?s')"
    unfolding find_space.simps(2)[of "Suc n"] by (simp add: find_body_def j bnd_Inr kern)
  moreover have "?s' = upd s (frames s) (?v # iv)" by (simp add: upd_def opened_same fun_eq_iff)
  ultimately show ?case by auto
qed

section \<open>Filling the last table\<close>

text \<open>\<open>k\<close> entries from index \<open>i\<close> on map consecutive pages from \<open>pa\<close> on.\<close>

definition filled_row :: "flags \<Rightarrow> addr \<Rightarrow> nat \<Rightarrow> nat \<Rightarrow> (nat \<Rightarrow> pte) \<Rightarrow> nat \<Rightarrow> pte" where
  "filled_row fl pa k i row = (\<lambda>j. if i \<le> j \<and> j < i + k then set_pte (pa + of_nat (j - i) * 4096) fl else row j)"

lemma filled_row_0 [simp]: "filled_row fl pa 0 i row = row"
proof
  fix j show "filled_row fl pa 0 i row j = row j" by (cases "i \<le> j") (simp_all add: filled_row_def)
qed

lemma filled_row_Suc:
  "filled_row fl pa (Suc k) i row = filled_row fl (pa + 4096) k (Suc i) (row(i := set_pte pa fl))"
proof
  fix j
  show "filled_row fl pa (Suc k) i row j = filled_row fl (pa + 4096) k (Suc i) (row(i := set_pte pa fl)) j"
  proof (cases "i < j \<and> j < i + Suc k")
    case True
    then obtain d where "j = Suc (i + d)" by (metis add_Suc_right less_iff_Suc_add)
    then show ?thesis using True by (simp add: filled_row_def algebra_simps)
  qed (auto simp: filled_row_def)
qed

lemma fill_loop:
  "pt_page s pt = Some p \<Longrightarrow> p \<noteq> tmp_frame s \<Longrightarrow> absent_run (frames s p) (unat i) k \<Longrightarrow>
    \<exists>i'. loop map_more (map_step req rec PT_LAST_LEVEL pt is fl) (i, pa, of_nat k, Go) s
      = Inr ((i', pa + of_nat k * 4096, 0, Break),
          upd s ((frames s)(p := filled_row fl pa k (unat i) (frames s p))) (invalidated s))"
proof (induction k arbitrary: i pa s)
  case 0
  have "map_step req rec PT_LAST_LEVEL pt is fl (i, pa, of_nat 0, Go) s = Inr ((i, pa, of_nat 0, Break), s)"
    by (simp add: kern)
  then have "loop map_more (map_step req rec PT_LAST_LEVEL pt is fl) (i, pa, of_nat 0, Go) s = Inr ((i, pa, of_nat 0, Break), s)"
    by (intro loop_once) simp_all
  then show ?case by simp
next
  case (Suc k)
  have i: "unat i < 512" "\<not> present (frames s p (unat i))" "absent_run (frames s p) (Suc (unat i)) k"
    using Suc.prems(3) by (simp_all add: absent_run_Suc)
  have k: "Suc k \<le> 512" using Suc.prems(3) by (simp add: absent_run_def)
  let ?s = "upd s ((frames s)(p := (frames s p)(unat i := set_pte pa fl))) (invalidated s)"
  have lt: "i < 512" using i(1) by (simp add: word_less_nat_alt)
  have pos: "(of_nat (Suc k) :: u64) > 0" using k by (simp add: word_less_nat_alt unat_small del: of_nat_Suc)
  have dec: "(of_nat (Suc k) :: u64) - 1 = of_nat k" by simp
  have w: "wr_pte pt i v s = Inr ((), upd s ((frames s)(p := (frames s p)(unat i := v))) (invalidated s))" for v
    using wr_pte_run[OF Suc.prems(1) i(1)] set_entry_upd[OF Suc.prems(2)] by simp
  have "map_step req rec PT_LAST_LEVEL pt is fl (i, pa, of_nat (Suc k), Go) s
      = Inr ((i + 1, pa + 4096, of_nat k, Go), ?s)"
    using lt pos i(2) dec by (simp add: PT_LENGTH_def bnd_Inr thn_Inr rd_pte_run[OF Suc.prems(1) i(1)] w kern add.commute)
  then have step: "loop map_more (map_step req rec PT_LAST_LEVEL pt is fl) (i, pa, of_nat (Suc k), Go) s
      = loop map_more (map_step req rec PT_LAST_LEVEL pt is fl) (i + 1, pa + 4096, of_nat k, Go) ?s"
    by (intro loop_step) simp_all
  have fr: "frames ?s p = (frames s p)(unat i := set_pte pa fl)" using Suc.prems(2) by (simp add: fun_eq_iff)
  have "absent_run (frames ?s p) (unat (i + 1)) k"
    using i(3) unfolding fr Suc_index[OF i(1)] by (simp add: absent_run_def)
  from Suc.IH[OF _ _ this, of "pa + 4096"] Suc.prems(1,2) obtain i' where
    "loop map_more (map_step req rec PT_LAST_LEVEL pt is fl) (i + 1, pa + 4096, of_nat k, Go) ?s
      = Inr ((i', pa + 4096 + of_nat k * 4096, 0, Break),
          upd ?s ((frames ?s)(p := filled_row fl (pa + 4096) k (unat (i + 1)) (frames ?s p))) (invalidated ?s))"
    unfolding upd_window(4) upd_same(2) by blast
  moreover have "upd ?s ((frames ?s)(p := filled_row fl (pa + 4096) k (unat (i + 1)) (frames ?s p))) (invalidated ?s)
      = upd s ((frames s)(p := filled_row fl pa (Suc k) (unat i) (frames s p))) (invalidated s)"
    unfolding fr filled_row_Suc Suc_index[OF i(1)] by (simp add: upd_def tmp_frame_def fun_eq_iff)
  moreover have "pa + 4096 + of_nat k * 4096 = pa + of_nat (Suc k) * 4096" by (simp add: algebra_simps)
  ultimately show ?case unfolding step by metis
qed

text \<open>The tables after the upper entries of a walk got new flags and \<open>h\<close> was applied to the last table.\<close>

definition lev :: "flags \<Rightarrow> (nat \<Rightarrow> (nat \<Rightarrow> pte) \<Rightarrow> nat \<Rightarrow> pte) \<Rightarrow> (addr \<Rightarrow> nat \<Rightarrow> pte) \<Rightarrow> addr \<Rightarrow> u64 list \<Rightarrow> addr \<Rightarrow> nat \<Rightarrow> pte" where
  "lev fl h fr p is = with_leaf (relevelled fl fr p is) p is h"

lemma lev_down:
  assumes "distinct (path fr p (i # j # is))" "reach fr p (i # j # is)"
  shows "lev fl h fr p (i # j # is) =
    lev fl h (fr(p := (fr p)(unat i := relevel fl (fr p (unat i))))) (PTEPADDR (fr p (unat i))) (j # is)"
proof -
  let ?q = "PTEPADDR (fr p (unat i))" and ?fr = "fr(p := (fr p)(unat i := relevel fl (fr p (unat i))))"
  have pr: "present (fr p (unat i))" "reach fr ?q (j # is)" using assms(2) by auto
  then have d: "p \<notin> set (path fr ?q (j # is))" "distinct (path fr ?q (j # is))" using assms(1) by auto
  have d': "distinct (path ?fr ?q (j # is))" "reach ?fr ?q (j # is)" "p \<notin> set (path ?fr ?q (j # is))"
    by (simp_all only: path_upd[OF d(1)] leaf_upd[OF d(1) pr(2)] d simp_thms)
  have p: "relevelled fl ?fr ?q (j # is) p = ?fr p" by (rule relevelled_same[OF d'])
  obtain R where R: "R = relevelled fl ?fr ?q (j # is)" by simp
  have "R p (unat i) = relevel fl (fr p (unat i))" using p unfolding R[symmetric] by simp
  then have "leaf R p (i # j # is) = leaf R ?q (j # is)" by simp
  then show ?thesis unfolding lev_def with_leaf_def relevelled.simps(3) R[symmetric] by simp
qed

text \<open>Only tables of the walk change.\<close>

lemma lev_other:
  assumes "distinct (path fr p is)" "reach fr p is" "is \<noteq> []" "g \<notin> set (path fr p is)"
  shows "lev fl h fr p is g = fr g"
proof -
  have "fst (leaf fr p is) \<in> set (path fr p is)" using assms(3,2) by (rule leaf_in_path)
  then have "g \<noteq> fst (leaf fr p is)" using assms(4) by auto
  then show ?thesis using relevelled_walk[OF assms(1,2), of fl] relevelled_same[OF assms(1,2,4), of fl]
    by (simp add: lev_def with_leaf_def case_prod_unfold Let_def)
qed

lemma lev_walk:
  assumes "distinct (path fr p is)" "reach fr p is" "is \<noteq> []" "leaf fr p is = (l, i)"
  shows "path (lev fl h fr p is) p (butlast is @ [j]) = path fr p is"
    "reach (lev fl h fr p is) p is" "leaf (lev fl h fr p is) p is = (l, i)"
    "lev fl h fr p is l = h i (fr l)"
    "walk (lev fl h fr p is) p (butlast is @ [j]) =
      (let e = h i (fr l) (unat j) in if present e then Some (PTEPADDR e) else None)"
proof -
  let ?R = "relevelled fl fr p is"
  have r: "path ?R p is = path fr p is" "reach ?R p is" "leaf ?R p is = (l, i)" "?R l = fr l"
    using relevelled_walk[OF assms(1,2), of fl] assms(4) by simp_all
  have m: "lev fl h fr p is = ?R(l := h i (fr l))"
    by (simp add: lev_def with_leaf_def r)
  note w = with_leaf_walk[OF assms(3), of ?R p l i "h i (fr l)" j]
  show "path (lev fl h fr p is) p (butlast is @ [j]) = path fr p is"
    "reach (lev fl h fr p is) p is" "leaf (lev fl h fr p is) p is = (l, i)"
    "lev fl h fr p is l = h i (fr l)"
    "walk (lev fl h fr p is) p (butlast is @ [j]) =
      (let e = h i (fr l) (unat j) in if present e then Some (PTEPADDR e) else None)"
    using w r assms(1) unfolding m by simp_all
qed

lemma relevelled_apart:
  "distinct (path fr p is) \<Longrightarrow> reach fr p is \<Longrightarrow> t \<notin> set (path fr p is) \<Longrightarrow>
    relevelled fl (fr(t := row)) p is = (relevelled fl fr p is)(t := row)"
proof (induction fl fr p "is" rule: relevelled.induct)
  case (3 fl fr p i j "is")
  let ?q = "PTEPADDR (fr p (unat i))" and ?fr = "fr(p := (fr p)(unat i := relevel fl (fr p (unat i))))"
  have pr: "present (fr p (unat i))" "reach fr ?q (j # is)" using 3(3) by auto
  then have d: "p \<notin> set (path fr ?q (j # is))" "distinct (path fr ?q (j # is))" using 3(2) by auto
  have t: "t \<notin> set (path fr ?q (j # is))" "t \<noteq> p" using 3(4) pr by auto
  have "relevelled fl (?fr(t := row)) ?q (j # is) = (relevelled fl ?fr ?q (j # is))(t := row)"
    by (rule "3.IH"; simp only: path_upd[OF d(1)] leaf_upd[OF d(1) pr(2)] d t(1) simp_thms)
  then show ?case
    unfolding relevelled.simps(3) fun_upd_other[OF t(2)[symmetric]] fun_upd_twist[OF t(2), of fr row] .
qed auto

lemma lev_apart:
  assumes "distinct (path fr p is)" "reach fr p is" "t \<notin> set (path fr p is)" "is \<noteq> []"
  shows "lev fl h (fr(t := row)) p is = (lev fl h fr p is)(t := row)"
proof -
  let ?R = "relevelled fl fr p is"
  have r: "path ?R p is = path fr p is" "reach ?R p is" using relevelled_walk[OF assms(1,2), of fl] by simp_all
  then have "t \<notin> set (path ?R p is)" using assms(3) by simp
  then have l: "leaf (?R(t := row)) p is = leaf ?R p is" using r(2) by (rule leaf_upd(1))
  have "fst (leaf ?R p is) \<in> set (path ?R p is)" using assms(4) r(2) by (rule leaf_in_path)
  then have "fst (leaf ?R p is) \<noteq> t" using assms(3) r(1) by auto
  then show ?thesis unfolding lev_def relevelled_apart[OF assms(1-3)] with_leaf_def l
    by (simp add: case_prod_unfold fun_upd_twist Let_def)
qed

lemma bnd_thn: "bnd (thn m f) g = thn m (bnd f g)"
  by (simp add: thn_def bnd_assoc)

lemma upd_tmp: "upd s (F(tmp_frame s := row)) iv = upd s F iv"
proof -
  have "(\<lambda>g. if g = tmp_frame s then frames s g else (F(tmp_frame s := row)) g) =
      (\<lambda>g. if g = tmp_frame s then frames s g else F g)" by auto
  then show ?thesis unfolding upd_def by (rule arg_cong)
qed

lemma reach_present: "reach fr p (j # js) \<Longrightarrow> js \<noteq> [] \<Longrightarrow> present (fr p (unat j))"
  by (cases js) auto

text \<open>One step of a recursion that gives the entries above the last table new flags.\<close>

definition relevel_state :: "kst \<Rightarrow> addr \<Rightarrow> u64 \<Rightarrow> flags \<Rightarrow> kst" where
  "relevel_state s p j fl = (let s' = opened s (PTEPADDR (frames s p (unat j)))
     in upd s' ((frames s')(p := (frames s p)(unat j := relevel fl (frames s p (unat j))))) (invalidated s))"

lemma relevel_down:
  fixes fl :: flags
  assumes at: "at_table (Suc (Suc n)) s pt p (j # js)" and pt: "pt \<noteq> 0"
    and dist: "distinct (path (frames s) p (j # js))" and reach: "reach (frames s) p (j # js)"
  defines "q \<equiv> PTEPADDR (frames s p (unat j))" and "t \<equiv> relevel_state s p j fl"
    and "v \<equiv> slot (first_free_tmp_index s)"
  shows "at_table (Suc n) t v q js" "distinct (path (frames t) q js)" "reach (frames t) q js"
    "leaf (frames t) q js = leaf (frames s) p (j # js)"
    "frames t (fst (leaf (frames s) p (j # js))) = frames s (fst (leaf (frames s) p (j # js)))"
    "\<And>c r iv k. c v t = Inr (r, upd t (lev fl h (frames t) q js) iv) \<Longrightarrow>
      bnd (map_page_tmp q VM_FLAG_WRITABLE) (\<lambda>v. thn (update_pt_pte_flags pt j fl)
        (bnd (c v) (\<lambda>r. thn (unmap_page_tmp v) (k r)))) s
      = k r (upd s (lev fl h (frames s) p (j # js)) (v # iv))"
proof -
  have ne: "js \<noteq> []" using at by (auto simp: at_table_def)
  then obtain j2 js2 where js: "js = j2 # js2" by (cases js) auto
  have pr: "present (frames s p (unat j))" using reach js by simp
  note d = at_table_down[OF at pr, folded q_def]
  have re: "reach (frames s) q js" "leaf (frames s) q js = leaf (frames s) p (j # js)"
    using reach js by (auto simp: q_def)
  have tp: "tmp_frame s \<notin> set (path (frames s) q js)" using at pr by (auto simp: at_table_def q_def)
  have dp: "p \<notin> set (path (frames s) q js)" "distinct (path (frames s) q js)" using dist pr by (auto simp: q_def)
  have pg: "pt_page s pt = Some p" using at by (simp add: at_table_def)
  let ?o = "opened s q"
  let ?fr = "(frames s)(p := (frames s p)(unat j := relevel fl (frames s p (unat j))))"
  let ?G = "(frames ?o)(p := (frames s p)(unat j := relevel fl (frames s p (unat j))))"
  have tdef: "t = upd ?o ?G (invalidated s)" by (simp add: t_def relevel_state_def q_def Let_def)
  have fro: "frames ?o p = frames s p" using d(5) by (simp add: opened_same)
  have "pt_page ?o pt = Some p" using opened_keeps[OF pg] room_Suc[OF d(4)] by simp
  from update_run[OF this d(6) pt, of fl]
  have u: "update_pt_pte_flags pt j fl ?o = Inr ((), t)"
    using set_entry_upd[of p ?o] d(5) by (simp add: fro opened_same tdef)
  have frt: "g \<noteq> tmp_frame s \<Longrightarrow> frames t g = ?fr g" for g
    using d(5) by (simp add: tdef opened_same upd_def)
  have same: "g \<in> set (path (frames s) q js) \<Longrightarrow> frames t g = frames s g" for g
    using dp(1) tp frt[of g] by (metis fun_upd_other)
  have w: "path (frames t) q js = path (frames s) q js"
    using walk_cong[of "frames s" q js "frames t"] same by blast
  show "at_table (Suc n) t v q js"
    using d(1) w tp unfolding at_table_def d(3) v_def tdef by (simp add: opened_same)
  show "distinct (path (frames t) q js)" using dp(2) w by simp
  have r: "reach (frames t) q js" "leaf (frames t) q js = leaf (frames s) q js"
    using leaf_cong[of "frames s" q js "frames t"] same re by metis+
  then show "reach (frames t) q js" "leaf (frames t) q js = leaf (frames s) p (j # js)" using re by simp_all
  have "fst (leaf (frames s) q js) \<in> set (path (frames s) q js)" by (rule leaf_in_path[OF ne re(1)])
  from same[OF this]
  show "frames t (fst (leaf (frames s) p (j # js))) = frames s (fst (leaf (frames s) p (j # js)))"
    unfolding re(2) .
  have frt': "frames t = ?fr(tmp_frame s := frames ?o (tmp_frame s))"
  proof
    fix g show "frames t g = (?fr(tmp_frame s := frames ?o (tmp_frame s))) g"
      using frt[of g] by (cases "g = tmp_frame s") (simp_all add: tdef upd_def opened_same)
  qed
  have w': "path ?fr q js = path (frames s) q js" "reach ?fr q js"
    using path_upd[OF dp(1)] leaf_upd[OF dp(1) re(1)] re(1) by simp_all
  have "lev fl h (frames t) q js = (lev fl h ?fr q js)(tmp_frame s := frames ?o (tmp_frame s))"
    unfolding frt' by (rule lev_apart) (use w' dp tp ne in \<open>simp_all only: not_False_eq_True\<close>)
  also have "lev fl h ?fr q js = lev fl h (frames s) p (j # js)"
    using lev_down[of "frames s" p j j2 js2 fl h] dist reach js by (simp add: q_def)
  finally have H: "upd s (lev fl h (frames t) q js) iv = upd s (lev fl h (frames s) p (j # js)) iv" for iv
    by (simp only: upd_tmp)
  fix c :: "addr \<Rightarrow> (kst, 'a) kern" and r :: 'a and iv and k :: "'a \<Rightarrow> (kst, 'b) kern"
  assume c: "c v t = Inr (r, upd t (lev fl h (frames t) q js) iv)"
  have "thn (update_pt_pte_flags pt j fl) (c v) ?o = Inr (r, upd t (lev fl h (frames t) q js) iv)"
    by (simp add: thn_Inr u c)
  then have "thn (update_pt_pte_flags pt j fl) (c v) ?o = Inr (r, upd ?o (lev fl h (frames t) q js) iv)"
    by (simp add: tdef)
  from descend[OF d(4), where c = "\<lambda>v. thn (update_pt_pte_flags pt j fl) (c v)" and k = k, folded v_def, OF this]
  show "bnd (map_page_tmp q VM_FLAG_WRITABLE) (\<lambda>v. thn (update_pt_pte_flags pt j fl)
        (bnd (c v) (\<lambda>r. thn (unmap_page_tmp v) (k r)))) s
      = k r (upd s (lev fl h (frames s) p (j # js)) (v # iv))"
    unfolding bnd_thn H .
qed

section \<open>Mapping\<close>

lemma recurse_map_run:
  "at_table (Suc n) s pt p is \<Longrightarrow> pt \<noteq> 0 \<Longrightarrow> distinct (path (frames s) p is) \<Longrightarrow> reach (frames s) p is \<Longrightarrow>
    leaf (frames s) p is = (l, i) \<Longrightarrow> absent_run (frames s l) i k \<Longrightarrow> 0 < k \<Longrightarrow>
    \<exists>iv. recurse_map req (Suc n) pt is pa (of_nat k) fl s =
      Inr ((SUCCESS, pa + of_nat k * 4096, 0), upd s (lev fl (filled_row fl pa k) (frames s) p is) iv)"
proof (induction n arbitrary: s pt p "is")
  case 0
  then obtain j where j: "is = [j]" by (auto simp: at_table_def length_Suc_conv)
  have lp: "l = p" "i = unat j" using 0 j by auto
  have "pt_page s pt = Some p" "p \<noteq> tmp_frame s" using 0 j by (auto simp: at_table_def)
  from fill_loop[OF this 0(6)[unfolded lp], of req "recurse_map req 0" "is" fl pa] obtain i' where
    "loop map_more (map_step req (recurse_map req 0) PT_LAST_LEVEL pt is fl) (j, pa, of_nat k, Go) s
      = Inr ((i', pa + of_nat k * 4096, 0, Break),
          upd s ((frames s)(p := filled_row fl pa k (unat j) (frames s p))) (invalidated s))" by blast
  then have "recurse_map req (Suc 0) pt is pa (of_nat k) fl s =
      Inr ((SUCCESS, pa + of_nat k * 4096, 0), upd s (lev fl (filled_row fl pa k) (frames s) p is) (invalidated s))"
    using j by (simp add: map_body_def bnd_Inr level_of_def PT_LAST_LEVEL_def PT_NUM_LEVELS_def kern
        lev_def with_leaf_def)
  then show ?case by blast
next
  case (Suc n)
  then obtain j js where j: "is = j # js" by (cases "is") (auto simp: at_table_def)
  let ?q = "PTEPADDR (frames s p (unat j))" and ?v = "slot (first_free_tmp_index s)"
    and ?F = "lev fl (filled_row fl pa k) (frames s) p is"
  note at = Suc.prems(1)[unfolded j]
  have lt: "Suc n < 4" using at by (simp add: at_table_def)
  have pr: "present (frames s p (unat j))" using Suc.prems(1,4) j by (intro reach_present) (auto simp: at_table_def)
  have k: "k \<le> 512" using Suc.prems(6) by (simp add: absent_run_def)
  note d = relevel_down[OF at Suc.prems(2) Suc.prems(3,4)[unfolded j], where fl = fl]
  obtain iv where rec: "recurse_map req (Suc n) ?v js pa (of_nat k) fl (relevel_state s p j fl) =
      Inr ((SUCCESS, pa + of_nat k * 4096, 0), upd (relevel_state s p j fl)
        (lev fl (filled_row fl pa k) (frames (relevel_state s p j fl)) ?q js) iv)"
    using Suc.IH[OF d(1) slot_nonzero d(2,3) d(4)[unfolded Suc.prems(5)[unfolded j]]] d(5) Suc.prems(5-7) j by auto
  have rd: "rd_pte pt j s = Inr (frames s p (unat j), s)"
    using at by (intro rd_pte_run) (simp_all add: at_table_def)
  have "map_table req (recurse_map req (Suc n)) pt is fl j pa (of_nat k) s
      = bnd (map_page_tmp ?q VM_FLAG_WRITABLE) (\<lambda>v. thn (update_pt_pte_flags pt j fl)
          (bnd (recurse_map req (Suc n) v js pa (of_nat k) fl) (\<lambda>r. thn (unmap_page_tmp v) (case r of (res, paddr, pages) \<Rightarrow>
            if ISERROR res then ret (j, paddr, pages, Return res) else ret (j + 1, paddr, pages, Go))))) s"
    using rd pr by (simp add: map_table_def j bnd_Inr case_prod_unfold del: recurse_map.simps)
  also have "\<dots> = Inr ((j + 1, pa + of_nat k * 4096, 0, Go), upd s ?F (?v # iv))"
    by (subst d(6)[of "\<lambda>v. recurse_map req (Suc n) v js pa (of_nat k) fl", OF rec])
      (simp add: kern j del: recurse_map.simps)
  finally have tab: "map_table req (recurse_map req (Suc n)) pt is fl j pa (of_nat k) s =
      Inr ((j + 1, pa + of_nat k * 4096, 0, Go), upd s ?F (?v # iv))" .
  have "(of_nat k :: u64) > 0" using Suc.prems(7) k by (simp add: word_less_nat_alt unat_small)
  moreover have "j < 512" using at by (simp add: word_less_nat_alt at_table_def)
  ultimately have step: "map_step req (recurse_map req (Suc n)) (level_of (Suc (Suc n))) pt is fl (j, pa, of_nat k, Go) s =
      Inr ((j + 1, pa + of_nat k * 4096, 0, Go), upd s ?F (?v # iv))"
    using lt tab by (simp add: PT_LENGTH_def level_last del: recurse_map.simps)
  let ?L = "loop map_more (map_step req (recurse_map req (Suc n)) (level_of (Suc (Suc n))) pt is fl)"
  have "?L (j, pa, of_nat k, Go) s = ?L (j + 1, pa + of_nat k * 4096, 0, Go) (upd s ?F (?v # iv))"
    by (rule loop_step, simp, rule step)
  also have "\<dots> = Inr ((j + 1, pa + of_nat k * 4096, 0, Break), upd s ?F (?v # iv))"
    by (rule loop_once) (simp_all add: kern del: recurse_map.simps)
  finally have "recurse_map req (Suc (Suc n)) pt is pa (of_nat k) fl s =
      Inr ((SUCCESS, pa + of_nat k * 4096, 0), upd s ?F (?v # iv))"
    unfolding recurse_map.simps(2)[of req "Suc n"] by (simp add: map_body_def j bnd_Inr kern)
  then show ?case by blast
qed

section \<open>Addresses of consecutive pages\<close>

lemma unat_field: "unat (drop_bit n v AND 0x1ff) = unat v div 2 ^ n mod 512" for v :: u64
proof -
  have "drop_bit n v AND 0x1ff = drop_bit n v mod 2 ^ 9" using and_mask_mod[of "drop_bit n v" 9] by simp
  then show ?thesis using unat_mod_power[of 9 "drop_bit n v"] 
    by (simp add: unat_drop_bit_eq flip: drop_bit_eq_div)
qed

lemma page_sum:
  assumes v: "ISPAGEALIGNED v" and j: "unat (pt_index v) + j < 512" and off: "unat off < 4096"
  shows "indices_of (v + of_nat j * 4096 + off) = butlast (indices_of v) @ [pt_index v + of_nat j]"
    "PAGEOFFSET (v + of_nat j * 4096 + off) = off" "unat (pt_index v + of_nat j) = unat (pt_index v) + j"
proof -
  define V i where "V = unat v" and "i = unat (pt_index v)"
  have i: "i = V div 4096 mod 512" "i + j < 512" unfolding i_def V_def using j by (simp_all add: pt_index_def unat_field)
  have "V mod 4096 = 0"
    using v unat_mod_power[of 12 v] unfolding ISPAGEALIGNED_def PAGEOFFSET_def V_def
    by (simp add: and_mask_mod[of v 12, simplified])
  then have V12: "V = 4096 * (V div 4096)" using mult_div_mod_eq[of 4096 V] by simp
  have "V div 4096 = 512 * (V div 2097152) + i"
    using mult_div_mod_eq[of 512 "V div 4096"] div_mult2_eq[of V 4096 512] i(1) by simp
  with V12 have V: "V = 2097152 * (V div 2097152) + 4096 * i" by linarith
  have "V < 2 ^ 64" unfolding V_def using unat_lt64[of v] by simp
  then have q: "V div 2097152 < 8796093022208" by (simp add: less_mult_imp_div_less)
  have b: "V + j * 4096 + unat off < 2097152 * (V div 2097152) + 2097152" using V i(2) off by linarith
  then have lt: "V + j * 4096 + unat off < 18446744073709551616" using q by linarith
  have uj: "unat (of_nat j * 4096 :: u64) = j * 4096"
    using i(2) by (simp add: unat_word_ariths unat_of_nat take_bit_nat_eq_self)
  have u1: "unat (v + of_nat j * 4096) = V + j * 4096" using lt unfolding unat_word_ariths(1)[of v] uj V_def by simp
  have W: "unat (v + of_nat j * 4096 + off) = V + j * 4096 + unat off"
    using lt unfolding unat_word_ariths(1)[of "v + of_nat j * 4096"] u1 by simp
  have d21: "(V + j * 4096 + unat off) div 2097152 = V div 2097152"
    using b V by (intro div_nat_eqI) auto
  have up: "unat (drop_bit n (v + of_nat j * 4096 + off) AND 0x1ff) = unat (drop_bit n v AND 0x1ff)" if n21: "21 \<le> n" for n
  proof -
    obtain m where n: "n = 21 + m" using le_Suc_ex[OF n21] by (elim exE)
    have p: "x div 2 ^ n = x div 2097152 div 2 ^ m" for x :: nat
      unfolding n power_add div_mult2_eq by simp
    show ?thesis unfolding unat_field W V_def[symmetric] p d21 ..
  qed
  have d12: "(4096 * c + j * 4096 + unat off) div 4096 = c + j" for c
    using off by (intro div_nat_eqI) auto
  have "(V + j * 4096 + unat off) div 4096 = V div 4096 + j"
    using d12[of "V div 4096"] unfolding V12[symmetric] .
  moreover have "(V div 4096 + j) mod 512 = i + j" using i by (metis mod_add_left_eq mod_less)
  ultimately have pt: "unat (pt_index (v + of_nat j * 4096 + off)) = i + j" unfolding pt_index_def unat_field W by simp
  show s: "unat (pt_index v + of_nat j) = unat (pt_index v) + j"
    using i(2) by (simp add: unat_word_ariths unat_of_nat take_bit_nat_eq_self i_def)
  show "indices_of (v + of_nat j * 4096 + off) = butlast (indices_of v) @ [pt_index v + of_nat j]"
    using up pt s by (simp add: indices_of_def pml4_index_def pdp_index_def pd_index_def word_unat_eq_iff i_def)
  have d0: "(4096 * c + j * 4096 + unat off) mod 4096 = unat off" for c
    using off by (simp add: mod_mult_self2 add.commute[of _ "unat off"] add.assoc[symmetric])
  have "unat (PAGEOFFSET (v + of_nat j * 4096 + off)) = unat off"
    using and_mask_mod[of "v + of_nat j * 4096 + off" 12] unat_mod_power[of 12 "v + of_nat j * 4096 + off"] d0[of "V div 4096"]
    unfolding PAGEOFFSET_def W V12[symmetric] by simp
  then show "PAGEOFFSET (v + of_nat j * 4096 + off) = off" by (simp add: word_unat_eq_iff)
qed

text \<open>Addresses that the processor accepts repeat bit 47 in the bits above it.\<close>

definition canonical :: "addr \<Rightarrow> bool" where
  "canonical v \<longleftrightarrow> drop_bit 47 v = 0 \<or> drop_bit 47 v = 0x1ffff"

lemma same_hint:
  "put_index 12 (indices_of v ! 3) (put_index 21 (indices_of v ! 2)
     (put_index 30 (indices_of v ! 1) (put_index 39 (indices_of v ! 0) v))) = v"
  by (rule bit_word_eqI) (auto simp: put_index_bit indices_of_def pt_index_def pd_index_def pdp_index_def pml4_index_def
      bit_and_iff bit_drop_bit_eq low9_bits)


lemma canonical_hint:
  assumes "canonical v"
  shows "set_hint (indices_of v) v = v"
proof -
  have "(if indices_of v ! 0 AND 0x100 \<noteq> 0 then v OR push_bit 48 0xffff else v) = v"
  proof (cases "drop_bit 47 v = 0")
    case True
    have e: "(0x100 :: u64) = push_bit 8 1" by (simp add: push_bit_eq_mult)
    have b: "bit (0x100 :: u64) k \<longleftrightarrow> k = 8" for k
      unfolding e bit_push_bit_iff bit_1_iff by auto
    have "\<not> bit (drop_bit 47 v) 0" unfolding True by simp
    then have "\<not> bit v 47" by (simp add: bit_drop_bit_eq)
    then have "indices_of v ! 0 AND 0x100 = 0"
      by (intro bit_word_eqI) (auto simp: indices_of_def pml4_index_def bit_and_iff bit_drop_bit_eq b)
    then show ?thesis by simp
  next
    case False
    then have d: "drop_bit 47 v = 0x1ffff" using assms by (simp add: canonical_def)
    have m: "(0x1ffff :: u64) = mask 17" "(0xffff :: u64) = mask 16" by (simp_all add: mask_eq_exp_minus_1)
    have "bit v k" if "47 \<le> k" "k < 64" for k
    proof -
      have "bit (drop_bit 47 v) (k - 47)" unfolding d m using that by (auto simp: bit_mask_iff)
      then show ?thesis using that by (simp add: bit_drop_bit_eq)
    qed
    then have "v OR push_bit 48 0xffff = v"
      unfolding m by (intro bit_word_eqI) (auto simp: bit_or_iff bit_push_bit_iff bit_mask_iff)
    then show ?thesis by simp
  qed
  then show ?thesis by (simp only: set_hint_def same_hint Let_def)
qed

text \<open>The states in which \<open>k\<close> pages from \<open>v\<close> on can be mapped without a new table.\<close>

definition free_leaf :: "kst \<Rightarrow> addr \<Rightarrow> addr \<Rightarrow> addr \<Rightarrow> nat \<Rightarrow> bool" where
  "free_leaf s table root v k \<longleftrightarrow> table \<noteq> 0 \<and> ISPAGEALIGNED v \<and> canonical v \<and> 0 < k \<and>
     at_table 4 s table root (indices_of v) \<and> distinct (path (frames s) root (indices_of v)) \<and>
     reach (frames s) root (indices_of v) \<and>
     (case leaf (frames s) root (indices_of v) of (l, i) \<Rightarrow> absent_run (frames s l) i k)"

lemma leaf_index: "reach fr p (indices_of v) \<Longrightarrow> leaf fr p (indices_of v) = (l, i) \<Longrightarrow> i = unat (pt_index v)"
  by (simp add: indices_of_def)

lemma map_pages_run:
  assumes f: "free_leaf s table root v k" and pa: "ISPAGEALIGNED pa"
  obtains iv where "vm_map_pages req table pa (of_nat k) v fl s =
    Inr ((SUCCESS, v), upd s (lev fl (filled_row fl pa k) (frames s) root (indices_of v)) iv)"
proof -
  let ?is = "indices_of v"
  obtain l i where li: "leaf (frames s) root ?is = (l, i)" by force
  have run: "absent_run (frames s l) i k" and k: "0 < k" using f li by (auto simp: free_leaf_def)
  then have k512: "k \<le> 512" by (simp add: absent_run_def)
  have at: "at_table (Suc 3) s table root ?is" using f by (simp add: free_leaf_def)
  have t: "table \<noteq> 0" "distinct (path (frames s) root ?is)" "reach (frames s) root ?is" "ISPAGEALIGNED v" "canonical v"
    using f by (auto simp: free_leaf_def)
  obtain iv where fs: "find_space 4 table ?is pa (of_nat k) fl s = Inr ((int k, ?is), upd s (frames s) iv)"
    using find_space_run[OF at t(3) li run k, of pa fl] by (auto simp: numeral_eq_Suc simp del: find_space.simps)
  let ?s = "upd s (frames s) iv"
  have fr: "frames ?s = frames s" by (rule upd_apart) simp
  have "at_table (Suc 3) ?s table root ?is" using at by (simp add: at_table_def fr)
  from recurse_map_run[OF this t(1), unfolded fr, OF t(2,3) li run k, of req pa fl] obtain iv' where
    rm: "recurse_map req 4 table ?is pa (of_nat k) fl ?s = Inr ((SUCCESS, pa + of_nat k * 4096, 0),
      upd s (lev fl (filled_row fl pa k) (frames s) root ?is) iv')"
    by (auto simp: numeral_eq_Suc simp del: recurse_map.simps)
  have pos: "(of_nat k :: u64) > 0" using k k512 by (simp add: word_less_nat_alt unat_small)
  have "vm_map_pages req table pa (of_nat k) v fl s =
    Inr ((SUCCESS, v), upd s (lev fl (filled_row fl pa k) (frames s) root ?is) iv')"
    unfolding vm_map_pages_def PT_NUM_LEVELS_def using t(1,4) pa pos canonical_hint[OF t(5)]
    by (simp add: bnd_Inr fs rm kern ISERROR_def del: find_space.simps recurse_map.simps)
  then show thesis by (rule that)
qed

lemma lev_page:
  assumes at: "at_table 4 s table root (indices_of v)" and d: "distinct (path (frames s) root (indices_of v))"
    and r: "reach (frames s) root (indices_of v)" "leaf (frames s) root (indices_of v) = (l, i)"
    and v: "ISPAGEALIGNED v" and j: "i + j < 512" and off: "unat off < 4096"
    and s': "s' = upd s (lev fl h (frames s) root (indices_of v)) iv"
  shows "walk (frames s') root (indices_of (v + of_nat j * 4096 + off)) =
      (let e = h i (frames s l) (i + j) in if present e then Some (PTEPADDR e) else None)"
    "at_table 4 s' table root (indices_of (v + of_nat j * 4096 + off))"
    "frames s' l = h i (frames s l)"
    "g \<notin> set (path (frames s) root (indices_of v)) \<Longrightarrow> frames s' g = frames s g"
    "PAGEOFFSET (v + of_nat j * 4096 + off) = off"
proof -
  let ?is = "indices_of v" and ?w = "v + of_nat j * 4096 + off"
  have ne: "?is \<noteq> []" by (simp add: indices_of_def)
  have i: "i = unat (pt_index v)" by (rule leaf_index[OF r])
  note w = page_sum[OF v j[unfolded i] off]
  have tp: "tmp_frame s \<notin> set (path (frames s) root ?is)" using at by (simp add: at_table_def)
  have fr: "frames s' = lev fl h (frames s) root ?is"
    unfolding s' by (rule upd_apart) (rule lev_other[OF d r(1) ne tp])
  note lv = lev_walk[OF d r(1) ne r(2)]
  show "walk (frames s') root (indices_of ?w) =
      (let e = h i (frames s l) (i + j) in if present e then Some (PTEPADDR e) else None)"
    unfolding fr w(1) lv(5) w(3) i[symmetric] ..
  show "frames s' l = h i (frames s l)" unfolding fr by (rule lv(4))
  show "g \<notin> set (path (frames s) root ?is) \<Longrightarrow> frames s' g = frames s g"
    unfolding fr by (rule lev_other[OF d r(1) ne])
  show "PAGEOFFSET ?w = off" by (rule w(2))
  have p: "path (frames s') root (indices_of ?w) = path (frames s) root ?is" unfolding fr w(1) by (rule lv(1))
  show "at_table 4 s' table root (indices_of ?w)"
    using at tp unfolding at_table_def p by (simp add: indices_ok s')
qed

lemma page_or_offset:
  assumes "ISPAGEALIGNED p" "unat off < 4096"
  shows "p OR off = p + off"
proof -
  have "p AND off = 0"
  proof (rule bit_word_eqI)
    fix k
    have o: "off AND mask 12 = off" using assms(2) and_mask_mod[of off 12] by (simp add: word_unat_eq_iff unat_mod mask_eq_exp_minus_1)
    have "bit (off AND mask 12) k \<Longrightarrow> k < 12" by (auto simp: bit_and_iff bit_mask_iff)
    then have "bit off k \<Longrightarrow> k < 12" unfolding o .
    moreover have p: "p AND mask 12 = 0" using assms(1) by (simp add: ISPAGEALIGNED_def PAGEOFFSET_def mask_eq_exp_minus_1)
    have "k < 12 \<Longrightarrow> bit p k \<Longrightarrow> bit (p AND mask 12) k" by (simp add: bit_and_iff bit_mask_iff)
    then have "k < 12 \<Longrightarrow> \<not> bit p k" unfolding p by auto
    ultimately show "bit (p AND off) k \<longleftrightarrow> bit (0 :: addr) k" by (auto simp: bit_and_iff)
  qed
  then show ?thesis using word_plus_and_or[of p off] by simp
qed

lemma page_addresses:
  assumes "ISPAGEALIGNED pa" "unat pa + k * 4096 \<le> 2 ^ 52" "j < k"
  shows "PTEPADDR (pa + of_nat j * 4096) = pa + of_nat j * 4096" "ISPAGEALIGNED (pa + of_nat j * 4096)"
proof -
  have uj: "unat (of_nat j * 4096 :: u64) = j * 4096"
    using assms(2,3) by (simp add: unat_word_ariths unat_of_nat take_bit_nat_eq_self)
  have u: "unat (pa + of_nat j * 4096) = unat pa + j * 4096"
    using assms(2,3) unfolding unat_word_ariths(1) uj by simp
  show a: "ISPAGEALIGNED (pa + of_nat j * 4096)"
    using assms(1) unfolding ISPAGEALIGNED_dvd u by (metis dvd_add dvd_triv_right)
  have "pte_address (pa + of_nat j * 4096)" unfolding pte_address_iff u using a assms(2,3) by simp
  then show "PTEPADDR (pa + of_nat j * 4096) = pa + of_nat j * 4096" by (simp add: pte_address_def)
qed

lemma mapped_entry:
  "j < k \<Longrightarrow> filled_row fl pa k i row (i + j) = set_pte (pa + of_nat j * 4096) fl"
  by (simp add: filled_row_def)

lemma free_leaf_facts:
  assumes "free_leaf s table root v k" "leaf (frames s) root (indices_of v) = (l, i)"
  shows "at_table 4 s table root (indices_of v)" "distinct (path (frames s) root (indices_of v))"
    "reach (frames s) root (indices_of v)" "ISPAGEALIGNED v" "table \<noteq> 0" "j < k \<Longrightarrow> i + j < 512"
  using assms by (auto simp: free_leaf_def absent_run_def)

lemma mapped_translate:
  assumes f: "free_leaf s table root v k" and pa: "ISPAGEALIGNED pa" "unat pa + k * 4096 \<le> 2 ^ 52"
    and s': "s' = upd s (lev fl (filled_row fl pa k) (frames s) root (indices_of v)) iv"
    and j: "j < k" "unat off < 4096"
  shows "translate (frames s') root (v + of_nat j * 4096 + off) = Some (pa + of_nat j * 4096 + off)"
    "at_table 4 s' table root (indices_of (v + of_nat j * 4096 + off))"
proof -
  obtain l i where li: "leaf (frames s) root (indices_of v) = (l, i)" by force
  note ff = free_leaf_facts[OF f li]
  note p = lev_page[OF ff(1-3) li ff(4) ff(6)[OF j(1)] j(2) s']
  note a = page_addresses[OF pa j(1)]
  show "translate (frames s') root (v + of_nat j * 4096 + off) = Some (pa + of_nat j * 4096 + off)"
    unfolding translate_def p(1,5) mapped_entry[OF j(1)] using a page_or_offset[OF a(2) j(2)] by simp
  show "at_table 4 s' table root (indices_of (v + of_nat j * 4096 + off))" by (rule p(2))
qed

text \<open>C7: Mapping \<open>k\<close> pages where the tables exist and the entries asked for are free succeeds at the
  address asked for, whatever the flags: afterwards every address of the run translates to the
  physical address at the same distance from \<open>pa\<close>, \<open>vm_vaddr_to_paddr\<close> reports it, the entries
  carry the permissions asked for, and no table outside the walk changes.\<close>

theorem mapped_pages_translate:
  assumes "free_leaf s table root v k" "ISPAGEALIGNED pa" "unat pa + k * 4096 \<le> 2 ^ 52"
  shows "\<exists>s'. vm_map_pages req table pa (of_nat k) v fl s = Inr ((SUCCESS, v), s') \<and>
    (\<forall>j<k. \<forall>off. unat off < 4096 \<longrightarrow>
       translate (frames s') root (v + of_nat j * 4096 + off) = Some (pa + of_nat j * 4096 + off) \<and>
       (\<exists>iv. vm_vaddr_to_paddr table (v + of_nat j * 4096 + off) x s' =
          Inr ((SUCCESS, pa + of_nat j * 4096 + off), s'\<lparr>invalidated := iv\<rparr>))) \<and>
    (case leaf (frames s) root (indices_of v) of (l, i) \<Rightarrow>
       \<forall>j<k. frames s' l (i + j) = set_pte (pa + of_nat j * 4096) fl) \<and>
    (\<forall>g. g \<notin> set (path (frames s) root (indices_of v)) \<longrightarrow> frames s' g = frames s g)"
proof -
  obtain l i where li: "leaf (frames s) root (indices_of v) = (l, i)" by force
  note ff = free_leaf_facts[OF assms(1) li]
  obtain iv where run: "vm_map_pages req table pa (of_nat k) v fl s =
      Inr ((SUCCESS, v), upd s (lev fl (filled_row fl pa k) (frames s) root (indices_of v)) iv)"
    by (rule map_pages_run[OF assms(1,2)])
  obtain s' where s': "s' = upd s (lev fl (filled_row fl pa k) (frames s) root (indices_of v)) iv" by simp
  have k: "0 < k" using assms(1) by (simp add: free_leaf_def)
  have z: "unat (0 :: addr) < 4096" by simp
  note p = lev_page[OF ff(1-3) li ff(4) ff(6)[OF k] z s']
  note t = mapped_translate[OF assms s']
  have "\<exists>iv. vm_vaddr_to_paddr table (v + of_nat j * 4096 + off) x s' =
          Inr ((SUCCESS, pa + of_nat j * 4096 + off), s'\<lparr>invalidated := iv\<rparr>)" if "j < k" "unat off < 4096" for j off
    using translate_run[OF ff(5) t(2)[OF that], of x] t(1)[OF that] by (simp add: upd_frames)
  moreover have "\<forall>j<k. frames s' l (i + j) = set_pte (pa + of_nat j * 4096) fl"
    unfolding p(3) using mapped_entry by blast
  ultimately show ?thesis using run t(1) p(4) unfolding s'[symmetric] li by auto
qed

end
