(* ===== verification/Vm_ops.thy ===== *)
theory Vm_ops
  imports Vm_map
begin

text \<open>
  Unmapping and changing flags of a run of pages that lies in one table, and the round trips of these
  operations with mapping and translation.
\<close>

section \<open>Unmapping\<close>

definition cleared_row :: "nat \<Rightarrow> nat \<Rightarrow> (nat \<Rightarrow> pte) \<Rightarrow> nat \<Rightarrow> pte" where
  "cleared_row k i row = (\<lambda>j. if i \<le> j \<and> j < i + k then 0 else row j)"

lemma cleared_row_0 [simp]: "cleared_row 0 i row = row"
proof
  fix j show "cleared_row 0 i row j = row j" by (cases "i \<le> j") (simp_all add: cleared_row_def)
qed

lemma cleared_row_Suc: "cleared_row (Suc k) i row = cleared_row k (Suc i) (row(i := 0))"
  by (auto simp: cleared_row_def)

text \<open>The addresses of \<open>k\<close> pages, and a record of invalidated addresses that adds exactly these and slots of the window.\<close>

definition page_run :: "addr \<Rightarrow> nat \<Rightarrow> addr set" where
  "page_run v k = (\<lambda>j. v + of_nat j * 4096) ` {..<k}"

definition flushed :: "addr set \<Rightarrow> addr list \<Rightarrow> addr list \<Rightarrow> bool" where
  "flushed vs old new \<longleftrightarrow> set old \<union> vs \<subseteq> set new \<and> set new \<subseteq> set old \<union> vs \<union> {PT_TMP_START_VADDR..}"

lemma page_run_0 [simp]: "page_run v 0 = {}"
  by (simp add: page_run_def)

lemma page_run_Suc: "page_run v (Suc k) = insert v (page_run (v + 4096) k)"
proof -
  have z: "v + of_nat 0 * 4096 = v" by simp
  have "v + of_nat (Suc j) * 4096 = v + 4096 + of_nat j * 4096" for j by (simp add: algebra_simps)
  then have "(\<lambda>j. v + of_nat (Suc j) * 4096) = (\<lambda>j. v + 4096 + of_nat j * 4096)" by (rule ext)
  then show ?thesis unfolding page_run_def lessThan_Suc_eq_insert_0 image_insert image_image
    by (simp only: z)
qed

lemma flushed_slot: "flushed vs old new \<Longrightarrow> flushed vs old (slot i # new)"
  using slot_ge[of i] by (auto simp: flushed_def)

lemma unmap_loop:
  "pt_page s pt = Some p \<Longrightarrow> p \<noteq> tmp_frame s \<Longrightarrow> unat i + Suc m \<le> 512 \<Longrightarrow> f + Suc m = k \<Longrightarrow> k \<le> 512 \<Longrightarrow>
    \<exists>i' iv. loop unmap_more (unmap_step rec PT_LAST_LEVEL pt (of_nat k)) ([i], v, of_nat f, False) s
      = Inr (([i'], v + of_nat (Suc m) * 4096, of_nat k, True),
          upd s ((frames s)(p := cleared_row (Suc m) (unat i) (frames s p))) iv) \<and>
      set iv = set (invalidated s) \<union> page_run v (Suc m)"
proof (induction m arbitrary: i v f s)
  case 0
  let ?s = "upd s ((frames s)(p := (frames s p)(unat i := 0))) (v # invalidated s)"
  have i: "unat i < 512" "i < 512" using 0(3) by (simp_all add: word_less_nat_alt)
  have w: "wr_pte pt i 0 s = Inr ((), upd s ((frames s)(p := (frames s p)(unat i := 0))) (invalidated s))"
    using wr_pte_run[OF 0(1) i(1)] set_entry_upd[OF 0(2)] by simp
  have lt: "(of_nat f :: u64) < of_nat k" using 0 by (simp add: word_less_nat_alt unat_small)
  have "unmap_step rec PT_LAST_LEVEL pt (of_nat k) ([i], v, of_nat f, False) s =
      Inr (([i], v + 4096, of_nat k, True), ?s)"
    using lt i(2) 0(4) by (auto simp: unmap_entry_def PT_LENGTH_def bnd_Inr thn_Inr w invalidate_page_def kern upd_def add.commute tmp_frame_def)
  then have "loop unmap_more (unmap_step rec PT_LAST_LEVEL pt (of_nat k)) ([i], v, of_nat f, False) s =
      Inr (([i], v + 4096, of_nat k, True), ?s)"
    by (intro loop_once) simp_all
  then show ?case by (intro exI[of _ i] exI[of _ "v # invalidated s"]) (simp add: cleared_row_Suc page_run_Suc del: fun_upd_apply)
next
  case (Suc m)
  let ?s = "upd s ((frames s)(p := (frames s p)(unat i := 0))) (v # invalidated s)"
  have i: "unat i < 512" "i < 512" using Suc.prems(3) by (simp_all add: word_less_nat_alt)
  have w: "wr_pte pt i 0 s = Inr ((), upd s ((frames s)(p := (frames s p)(unat i := 0))) (invalidated s))"
    using wr_pte_run[OF Suc.prems(1) i(1)] set_entry_upd[OF Suc.prems(2)] by simp
  have lt: "(of_nat f :: u64) < of_nat k" "\<not> (of_nat k :: u64) \<le> of_nat (Suc f)"
    using Suc.prems by (simp_all add: word_less_nat_alt word_le_nat_alt unat_small del: of_nat_Suc)
  have "unmap_step rec PT_LAST_LEVEL pt (of_nat k) ([i], v, of_nat f, False) s =
      Inr (([i + 1], v + 4096, of_nat (Suc f), False), ?s)"
    using lt i(2) by (auto simp: unmap_entry_def PT_LENGTH_def bnd_Inr thn_Inr w invalidate_page_def kern upd_def add.commute tmp_frame_def)
  then have step: "loop unmap_more (unmap_step rec PT_LAST_LEVEL pt (of_nat k)) ([i], v, of_nat f, False) s =
      loop unmap_more (unmap_step rec PT_LAST_LEVEL pt (of_nat k)) ([i + 1], v + 4096, of_nat (Suc f), False) ?s"
    by (intro loop_step) simp_all
  have fr: "frames ?s p = (frames s p)(unat i := 0)" using Suc.prems(2) by (simp add: fun_eq_iff)
  have u: "unat (i + 1) = Suc (unat i)" using i(1) by (rule Suc_index)
  have "pt_page ?s pt = Some p" "p \<noteq> tmp_frame ?s" "unat (i + 1) + Suc m \<le> 512" "Suc f + Suc m = k"
    using Suc.prems unfolding u by simp_all
  from Suc.IH[OF this Suc.prems(5), of "v + 4096"] obtain i' iv where
    l: "loop unmap_more (unmap_step rec PT_LAST_LEVEL pt (of_nat k)) ([i + 1], v + 4096, of_nat (Suc f), False) ?s
      = Inr (([i'], v + 4096 + of_nat (Suc m) * 4096, of_nat k, True),
          upd ?s ((frames ?s)(p := cleared_row (Suc m) (unat (i + 1)) (frames ?s p))) iv)"
    and iv: "set iv = set (invalidated ?s) \<union> page_run (v + 4096) (Suc m)" by blast
  have "upd ?s ((frames ?s)(p := cleared_row (Suc m) (unat (i + 1)) (frames ?s p))) iv
      = upd s ((frames s)(p := cleared_row (Suc (Suc m)) (unat i) (frames s p))) iv"
    unfolding fr cleared_row_Suc[of "Suc m" "unat i"] u by (simp add: upd_def tmp_frame_def fun_eq_iff)
  moreover have "v + 4096 + of_nat (Suc m) * 4096 = v + of_nat (Suc (Suc m)) * 4096" by (simp add: algebra_simps)
  moreover have "set iv = set (invalidated s) \<union> page_run v (Suc (Suc m))"
    using iv by (simp add: page_run_Suc[of v "Suc m"])
  ultimately show ?case using l unfolding step by metis
qed

lemma recurse_unmap_run:
  "at_table (Suc n) s pt p is \<Longrightarrow> reach (frames s) p is \<Longrightarrow> leaf (frames s) p is = (l, i) \<Longrightarrow>
    0 < k \<Longrightarrow> i + k \<le> 512 \<Longrightarrow>
    \<exists>is' iv. recurse_unmap (Suc n) pt is v (of_nat k) s =
      Inr ((of_nat k, is', v + of_nat k * 4096), upd s (with_leaf (frames s) p is (cleared_row k)) iv) \<and>
      flushed (page_run v k) (invalidated s) iv"
proof (induction n arbitrary: s pt p "is")
  case 0
  then obtain j where j: "is = [j]" by (auto simp: at_table_def length_Suc_conv)
  have lp: "l = p" "i = unat j" using 0 j by auto
  obtain m where m: "k = Suc m" using 0(4) by (cases k) auto
  have "pt_page s pt = Some p" "p \<noteq> tmp_frame s" "unat j + Suc m \<le> 512" using 0 j m by (auto simp: at_table_def)
  from unmap_loop[OF this, of 0 k "recurse_unmap 0" v] obtain i' iv where
    "loop unmap_more (unmap_step (recurse_unmap 0) PT_LAST_LEVEL pt (of_nat k)) ([j], v, 0, False) s
      = Inr (([i'], v + of_nat k * 4096, of_nat k, True),
          upd s ((frames s)(p := cleared_row k (unat j) (frames s p))) iv)" "set iv = set (invalidated s) \<union> page_run v k"
    using 0(5) m by auto
  then have "recurse_unmap (Suc 0) pt is v (of_nat k) s =
      Inr ((of_nat k, [i'], v + of_nat k * 4096), upd s (with_leaf (frames s) p is (cleared_row k)) iv) \<and>
      flushed (page_run v k) (invalidated s) iv"
    using j by (simp add: flushed_def unmap_body_def bnd_Inr level_of_def PT_LAST_LEVEL_def PT_NUM_LEVELS_def kern with_leaf_def)
  then show ?case by blast
next
  case (Suc n)
  then obtain j js where j: "is = j # js" by (cases "is") (auto simp: at_table_def)
  note at = Suc.prems(1)[unfolded j]
  have lt: "Suc n < 4" and ne: "js \<noteq> []" using at by (auto simp: at_table_def)
  have pr: "present (frames s p (unat j))" using Suc.prems(2) j ne by (intro reach_present) auto
  let ?q = "PTEPADDR (frames s p (unat j))" and ?v = "slot (first_free_tmp_index s)"
  note d = at_table_down[OF at pr]
  have re: "reach (frames s) ?q js" "leaf (frames s) ?q js = (l, i)" using Suc.prems(2,3) j ne by (cases js; auto)+
  have t: "tmp_frame s \<notin> set (path (frames s) ?q js)" using at pr by (auto simp: at_table_def)
  have re': "reach (frames (opened s ?q)) ?q js" "leaf (frames (opened s ?q)) ?q js = (l, i)"
    using leaf_cong[of "frames s" ?q js "frames (opened s ?q)"] re t by (metis opened_same(4))+
  from Suc.IH[OF d(1) re' Suc.prems(4,5)] obtain is' iv where rec:
    "recurse_unmap (Suc n) ?v js v (of_nat k) (opened s ?q) = Inr ((of_nat k, is', v + of_nat k * 4096),
       upd (opened s ?q) (with_leaf (frames (opened s ?q)) ?q js (cleared_row k)) iv)"
    and iv: "flushed (page_run v k) (invalidated s) iv" by (auto simp: opened_same)
  let ?F = "with_leaf (frames s) p is (cleared_row k)"
  have F: "upd s (with_leaf (frames (opened s ?q)) ?q js (cleared_row k)) jv = upd s ?F jv" for jv
    using upd_with_leaf[OF re(1) ne t, of ?q] j ne by (cases js) (simp_all add: with_leaf_def)
  have rd: "rd_pte pt j s = Inr (frames s p (unat j), s)" using at by (intro rd_pte_run) (simp_all add: at_table_def)
  have "unmap_entry (recurse_unmap (Suc n)) (level_of (Suc (Suc n))) pt (of_nat k) is v 0 s
      = bnd (map_page_tmp ?q VM_FLAG_WRITABLE) (\<lambda>w. bnd (recurse_unmap (Suc n) w js v (of_nat k)) (\<lambda>r.
          thn (unmap_page_tmp w) (case r of (n, rest, vaddr) \<Rightarrow> ret (j # rest, vaddr, 0 + n)))) s"
    using lt pr by (simp add: unmap_entry_def j bnd_Inr rd level_last case_prod_unfold del: recurse_unmap.simps)
  also have "\<dots> = Inr ((j # is', v + of_nat k * 4096, of_nat k), upd s ?F (?v # iv))"
    by (subst descend[OF d(4), where c = "\<lambda>w. recurse_unmap (Suc n) w js v (of_nat k)", OF rec])
      (simp add: F kern del: recurse_unmap.simps)
  finally have entry: "unmap_entry (recurse_unmap (Suc n)) (level_of (Suc (Suc n))) pt (of_nat k) is v 0 s =
      Inr ((j # is', v + of_nat k * 4096, of_nat k), upd s ?F (?v # iv))" .
  have "(0 :: u64) < of_nat k" using Suc.prems(4,5) by (simp add: word_less_nat_alt unat_small)
  moreover have "j < 512" using d(6) by (simp add: word_less_nat_alt)
  ultimately have step: "unmap_step (recurse_unmap (Suc n)) (level_of (Suc (Suc n))) pt (of_nat k) (is, v, 0, False) s =
      Inr ((j # is', v + of_nat k * 4096, of_nat k, True), upd s ?F (?v # iv))"
    by (simp add: bnd_Inr entry kern PT_LENGTH_def j[symmetric] del: recurse_unmap.simps) (simp add: j)
  have "loop unmap_more (unmap_step (recurse_unmap (Suc n)) (level_of (Suc (Suc n))) pt (of_nat k)) (is, v, 0, False) s =
      Inr ((j # is', v + of_nat k * 4096, of_nat k, True), upd s ?F (?v # iv))"
    by (rule loop_once, simp, rule step, simp)
  then have "recurse_unmap (Suc (Suc n)) pt is v (of_nat k) s =
      Inr ((of_nat k, j # is', v + of_nat k * 4096), upd s ?F (?v # iv))"
    unfolding recurse_unmap.simps(2)[of "Suc n"] by (simp add: unmap_body_def bnd_Inr kern)
  then show ?case using flushed_slot[OF iv] by blast
qed

text \<open>The states in which the tables for \<open>k\<close> pages from \<open>v\<close> on exist, all pages in one table.\<close>

definition in_leaf :: "kst \<Rightarrow> addr \<Rightarrow> addr \<Rightarrow> addr \<Rightarrow> nat \<Rightarrow> bool" where
  "in_leaf s table root v k \<longleftrightarrow> table \<noteq> 0 \<and> ISPAGEALIGNED v \<and> 0 < k \<and>
     at_table 4 s table root (indices_of v) \<and> distinct (path (frames s) root (indices_of v)) \<and>
     reach (frames s) root (indices_of v) \<and> snd (leaf (frames s) root (indices_of v)) + k \<le> 512"

lemma unmap_pages_run:
  assumes f: "in_leaf s table root v k"
  obtains iv where "vm_unmap_pages table v (of_nat k) s =
      Inr (of_nat k, upd s (with_leaf (frames s) root (indices_of v) (cleared_row k)) iv)"
    "flushed (page_run v k) (invalidated s) iv"
proof -
  obtain l i where li: "leaf (frames s) root (indices_of v) = (l, i)" by force
  have at: "at_table (Suc 3) s table root (indices_of v)" "reach (frames s) root (indices_of v)" "0 < k" "i + k \<le> 512"
    and t: "table \<noteq> 0" "ISPAGEALIGNED v"
    using f li by (simp_all add: in_leaf_def)
  from recurse_unmap_run[OF at(1,2) li at(3,4), of v] obtain is' iv where
    "recurse_unmap 4 table (indices_of v) v (of_nat k) s = Inr ((of_nat k, is', v + of_nat k * 4096),
      upd s (with_leaf (frames s) root (indices_of v) (cleared_row k)) iv)" "flushed (page_run v k) (invalidated s) iv"
    by (auto simp: numeral_eq_Suc simp del: recurse_unmap.simps)
  moreover have "(0 :: u64) < of_nat k" using at(3,4) by (simp add: word_less_nat_alt unat_small)
  ultimately have "vm_unmap_pages table v (of_nat k) s =
      Inr (of_nat k, upd s (with_leaf (frames s) root (indices_of v) (cleared_row k)) iv)"
    using t by (simp add: vm_unmap_pages_def PT_NUM_LEVELS_def bnd_Inr kern del: recurse_unmap.simps)
  then show thesis using \<open>flushed _ _ _\<close> by (rule that)
qed

text \<open>What \<open>lev_page\<close> says, for a change of the last table alone.\<close>

lemma leaf_page:
  assumes at: "at_table 4 s table root (indices_of v)" and d: "distinct (path (frames s) root (indices_of v))"
    and r: "reach (frames s) root (indices_of v)" "leaf (frames s) root (indices_of v) = (l, i)"
    and v: "ISPAGEALIGNED v" and j: "i + j < 512" and off: "unat off < 4096"
    and s': "s' = upd s (with_leaf (frames s) root (indices_of v) h) iv"
  shows "walk (frames s') root (indices_of (v + of_nat j * 4096 + off)) =
      (let e = h i (frames s l) (i + j) in if present e then Some (PTEPADDR e) else None)"
    "at_table 4 s' table root (indices_of (v + of_nat j * 4096 + off))"
    "frames s' = (frames s)(l := h i (frames s l))"
    "PAGEOFFSET (v + of_nat j * 4096 + off) = off"
proof -
  let ?is = "indices_of v" and ?w = "v + of_nat j * 4096 + off"
  have ne: "?is \<noteq> []" by (simp add: indices_of_def)
  have i: "i = unat (pt_index v)" by (rule leaf_index[OF r])
  note w = page_sum[OF v j[unfolded i] off]
  have "l \<in> set (path (frames s) root ?is)" using leaf_in_path[OF ne r(1)] r(2) by simp
  then have tp: "tmp_frame s \<noteq> l" "tmp_frame s \<notin> set (path (frames s) root ?is)" using at by (auto simp: at_table_def)
  have wl: "with_leaf (frames s) root ?is h = (frames s)(l := h i (frames s l))" by (simp add: with_leaf_def r(2))
  show fr: "frames s' = (frames s)(l := h i (frames s l))"
    unfolding s' wl by (rule upd_apart) (simp add: tp(1))
  note lv = with_leaf_walk[OF ne d r, of "h i (frames s l)" "pt_index v + of_nat j"]
  show "walk (frames s') root (indices_of ?w) =
      (let e = h i (frames s l) (i + j) in if present e then Some (PTEPADDR e) else None)"
    using lv unfolding fr w(1,3) i[symmetric] by (simp add: Let_def)
  show "PAGEOFFSET ?w = off" by (rule w(2))
  have p: "path (frames s') root (indices_of ?w) = path (frames s) root ?is" using lv unfolding fr w(1) by blast
  show "at_table 4 s' table root (indices_of ?w)"
    using at tp unfolding at_table_def p by (simp add: indices_ok s')
qed

text \<open>C9: Unmapping \<open>k\<close> pages of one table returns \<open>k\<close> and clears exactly the \<open>k\<close> entries of the run, so that no address
  in it is translated and \<open>vm_vaddr_to_paddr\<close> fails with \<open>ENOMAP\<close>; every other entry of every table stays as it was. The
  addresses it invalidates are those of the \<open>k\<close> pages and, of all others, only addresses of the temporary window.\<close>

theorem unmapped_pages_are_gone:
  assumes "in_leaf s table root v k" "leaf (frames s) root (indices_of v) = (l, i)"
  shows "\<exists>s'. vm_unmap_pages table v (of_nat k) s = Inr (of_nat k, s') \<and>
    (\<forall>j<k. \<forall>off. unat off < 4096 \<longrightarrow>
       translate (frames s') root (v + of_nat j * 4096 + off) = None \<and>
       (\<exists>iv. vm_vaddr_to_paddr table (v + of_nat j * 4096 + off) x s' = Inr ((fails ENOMAP, x), s'\<lparr>invalidated := iv\<rparr>))) \<and>
    (\<forall>g j. frames s' g j = (if g = l \<and> i \<le> j \<and> j < i + k then 0 else frames s g j)) \<and>
    (\<forall>j<k. v + of_nat j * 4096 \<in> set (invalidated s')) \<and>
    set (invalidated s) \<subseteq> set (invalidated s') \<and>
    (\<forall>a\<in>set (invalidated s'). a \<in> set (invalidated s) \<or> (\<exists>j<k. a = v + of_nat j * 4096) \<or> PT_TMP_START_VADDR \<le> a)"
proof -
  note li = assms(2)
  have f: "at_table 4 s table root (indices_of v)" "distinct (path (frames s) root (indices_of v))"
    "reach (frames s) root (indices_of v)" "ISPAGEALIGNED v" "table \<noteq> 0" "0 < k" "i + k \<le> 512"
    using assms by (simp_all add: in_leaf_def)
  obtain iv where run: "vm_unmap_pages table v (of_nat k) s =
      Inr (of_nat k, upd s (with_leaf (frames s) root (indices_of v) (cleared_row k)) iv)"
    and iv: "flushed (page_run v k) (invalidated s) iv"
    by (rule unmap_pages_run[OF assms(1)], rule that, assumption+)
  obtain s' where s': "s' = upd s (with_leaf (frames s) root (indices_of v) (cleared_row k)) iv" by simp
  note p = leaf_page[OF f(1-3) li f(4) _ _ s']
  have gone: "translate (frames s') root (v + of_nat j * 4096 + off) = None" if "j < k" "unat off < 4096" for j off
  proof -
    have "i + j < 512" using that(1) f(7) by simp
    then show ?thesis using p(1)[OF _ that(2)] that(1) by (simp add: translate_def cleared_row_def)
  qed
  moreover have "\<exists>iv. vm_vaddr_to_paddr table (v + of_nat j * 4096 + off) x s' = Inr ((fails ENOMAP, x), s'\<lparr>invalidated := iv\<rparr>)"
    if "j < k" "unat off < 4096" for j off
  proof -
    have "i + j < 512" using that(1) f(7) by simp
    from translate_run[OF f(5) p(2)[OF this that(2)], of x] gone[OF that] show ?thesis by (simp add: upd_frames)
  qed
  moreover have "i + 0 < 512" "unat (0 :: addr) < 4096" using f(6,7) by simp_all
  then have "frames s' = (frames s)(l := cleared_row k i (frames s l))" by (rule p(3))
  then have "frames s' g j = (if g = l \<and> i \<le> j \<and> j < i + k then 0 else frames s g j)" for g j
    by (simp add: cleared_row_def)
  moreover have "invalidated s' = iv" by (simp add: s')
  moreover have "a \<in> page_run v k \<longleftrightarrow> (\<exists>j<k. a = v + of_nat j * 4096)" for a by (auto simp: page_run_def)
  then have "(\<forall>j<k. v + of_nat j * 4096 \<in> set iv) \<and> set (invalidated s) \<subseteq> set iv \<and>
      (\<forall>a\<in>set iv. a \<in> set (invalidated s) \<or> (\<exists>j<k. a = v + of_nat j * 4096) \<or> PT_TMP_START_VADDR \<le> a)"
    using iv unfolding flushed_def by blast
  ultimately show ?thesis using run unfolding s'[symmetric] by (intro exI[of _ s']) simp
qed

section \<open>Flags\<close>

definition flagged_row :: "flags \<Rightarrow> nat \<Rightarrow> nat \<Rightarrow> (nat \<Rightarrow> pte) \<Rightarrow> nat \<Rightarrow> pte" where
  "flagged_row fl k i row = (\<lambda>j. if i \<le> j \<and> j < i + k then set_pte (PTEPADDR (row j)) fl else row j)"

lemma flagged_row_0 [simp]: "flagged_row fl 0 i row = row"
proof
  fix j show "flagged_row fl 0 i row j = row j" by (cases "i \<le> j") (simp_all add: flagged_row_def)
qed

lemma flagged_row_Suc:
  "flagged_row fl (Suc k) i row = flagged_row fl k (Suc i) (row(i := set_pte (PTEPADDR (row i)) fl))"
  by (auto simp: flagged_row_def)

definition present_run :: "(nat \<Rightarrow> pte) \<Rightarrow> nat \<Rightarrow> nat \<Rightarrow> bool" where
  "present_run row i k \<longleftrightarrow> i + k \<le> 512 \<and> (\<forall>j. i \<le> j \<and> j < i + k \<longrightarrow> present (row j))"

lemma flag_loop:
  "pt_page s pt = Some p \<Longrightarrow> p \<noteq> tmp_frame s \<Longrightarrow> present_run (frames s p) (unat i) k \<Longrightarrow>
    \<exists>i'. loop flag_more (flag_step rec PT_LAST_LEVEL pt is fl) (i, of_nat k, Go) s
      = Inr ((i', 0, Break), upd s ((frames s)(p := flagged_row fl k (unat i) (frames s p))) (invalidated s))"
proof (induction k arbitrary: i s)
  case 0
  have "loop flag_more (flag_step rec PT_LAST_LEVEL pt is fl) (i, of_nat 0, Go) s = Inr ((i, 0, Break), s)"
    by (rule loop_once) (simp_all add: kern)
  then show ?case by simp
next
  case (Suc k)
  have k: "Suc k \<le> 512" "unat i < 512" "present (frames s p (unat i))"
    using Suc.prems(3) by (auto simp: present_run_def)
  let ?e = "set_pte (PTEPADDR (frames s p (unat i))) fl"
  let ?s = "upd s ((frames s)(p := (frames s p)(unat i := ?e))) (invalidated s)"
  have lt: "i < 512" using k(2) by (simp add: word_less_nat_alt)
  have pos: "(of_nat (Suc k) :: u64) > 0" using k by (simp add: word_less_nat_alt unat_small del: of_nat_Suc)
  have w: "wr_pte pt i v s = Inr ((), upd s ((frames s)(p := (frames s p)(unat i := v))) (invalidated s))" for v
    using wr_pte_run[OF Suc.prems(1) k(2)] set_entry_upd[OF Suc.prems(2)] by simp
  have "flag_step rec PT_LAST_LEVEL pt is fl (i, of_nat (Suc k), Go) s = Inr ((i + 1, of_nat k, Go), ?s)"
    using lt pos k(3) by (simp add: PT_LENGTH_def bnd_Inr thn_Inr rd_pte_run[OF Suc.prems(1) k(2)] w kern add.commute)
  then have step: "loop flag_more (flag_step rec PT_LAST_LEVEL pt is fl) (i, of_nat (Suc k), Go) s
      = loop flag_more (flag_step rec PT_LAST_LEVEL pt is fl) (i + 1, of_nat k, Go) ?s"
    by (intro loop_step) simp_all
  have fr: "frames ?s p = (frames s p)(unat i := ?e)" using Suc.prems(2) by (simp add: fun_eq_iff)
  have "present_run (frames ?s p) (unat (i + 1)) k"
    using Suc.prems(3) unfolding fr Suc_index[OF k(2)] by (auto simp: present_run_def)
  from Suc.IH[OF _ _ this] Suc.prems(1,2) obtain i' where
    "loop flag_more (flag_step rec PT_LAST_LEVEL pt is fl) (i + 1, of_nat k, Go) ?s
      = Inr ((i', 0, Break), upd ?s ((frames ?s)(p := flagged_row fl k (unat (i + 1)) (frames ?s p))) (invalidated ?s))"
    unfolding upd_window(4) upd_same(2) by blast
  moreover have "upd ?s ((frames ?s)(p := flagged_row fl k (unat (i + 1)) (frames ?s p))) (invalidated ?s)
      = upd s ((frames s)(p := flagged_row fl (Suc k) (unat i) (frames s p))) (invalidated s)"
    unfolding fr flagged_row_Suc Suc_index[OF k(2)] by (simp add: upd_def tmp_frame_def fun_eq_iff)
  ultimately show ?case unfolding step by metis
qed

lemma recurse_flag_run:
  "at_table (Suc n) s pt p is \<Longrightarrow> pt \<noteq> 0 \<Longrightarrow> distinct (path (frames s) p is) \<Longrightarrow> reach (frames s) p is \<Longrightarrow>
    leaf (frames s) p is = (l, i) \<Longrightarrow> present_run (frames s l) i k \<Longrightarrow> 0 < k \<Longrightarrow>
    \<exists>iv. recurse_flag (Suc n) pt is (of_nat k) fl s =
      Inr ((SUCCESS, 0), upd s (lev fl (flagged_row fl k) (frames s) p is) iv)"
proof (induction n arbitrary: s pt p "is")
  case 0
  then obtain j where j: "is = [j]" by (auto simp: at_table_def length_Suc_conv)
  have lp: "l = p" "i = unat j" using 0 j by auto
  have "pt_page s pt = Some p" "p \<noteq> tmp_frame s" using 0 j by (auto simp: at_table_def)
  from flag_loop[OF this 0(6)[unfolded lp], of "recurse_flag 0" "is" fl] obtain i' where
    "loop flag_more (flag_step (recurse_flag 0) PT_LAST_LEVEL pt is fl) (j, of_nat k, Go) s
      = Inr ((i', 0, Break), upd s ((frames s)(p := flagged_row fl k (unat j) (frames s p))) (invalidated s))" by blast
  then have "recurse_flag (Suc 0) pt is (of_nat k) fl s =
      Inr ((SUCCESS, 0), upd s (lev fl (flagged_row fl k) (frames s) p is) (invalidated s))"
    using j by (simp add: flag_body_def bnd_Inr level_of_def PT_LAST_LEVEL_def PT_NUM_LEVELS_def kern
        lev_def with_leaf_def)
  then show ?case by blast
next
  case (Suc n)
  then obtain j js where j: "is = j # js" by (cases "is") (auto simp: at_table_def)
  let ?q = "PTEPADDR (frames s p (unat j))" and ?v = "slot (first_free_tmp_index s)"
    and ?F = "lev fl (flagged_row fl k) (frames s) p is"
  note at = Suc.prems(1)[unfolded j]
  have lt: "Suc n < 4" using at by (simp add: at_table_def)
  have pr: "present (frames s p (unat j))" using Suc.prems(1,4) j by (intro reach_present) (auto simp: at_table_def)
  have k: "k \<le> 512" using Suc.prems(6) by (simp add: present_run_def)
  note d = relevel_down[OF at Suc.prems(2) Suc.prems(3,4)[unfolded j], where fl = fl]
  obtain iv where rec: "recurse_flag (Suc n) ?v js (of_nat k) fl (relevel_state s p j fl) =
      Inr ((SUCCESS, 0), upd (relevel_state s p j fl)
        (lev fl (flagged_row fl k) (frames (relevel_state s p j fl)) ?q js) iv)"
    using Suc.IH[OF d(1) slot_nonzero d(2,3) d(4)[unfolded Suc.prems(5)[unfolded j]]] d(5) Suc.prems(5-7) j by auto
  have rd: "rd_pte pt j s = Inr (frames s p (unat j), s)"
    using at by (intro rd_pte_run) (simp_all add: at_table_def)
  have pos: "(of_nat k :: u64) > 0" using Suc.prems(7) k by (simp add: word_less_nat_alt unat_small)
  moreover have "j < 512" using at by (simp add: word_less_nat_alt at_table_def)
  ultimately have "flag_step (recurse_flag (Suc n)) (level_of (Suc (Suc n))) pt is fl (j, of_nat k, Go) s
      = bnd (map_page_tmp ?q VM_FLAG_WRITABLE) (\<lambda>v. thn (update_pt_pte_flags pt j fl)
          (bnd (recurse_flag (Suc n) v js (of_nat k) fl) (\<lambda>r. thn (unmap_page_tmp v) (case r of (res, pages) \<Rightarrow>
            if ISERROR res then ret (j, pages, Return res) else ret (j + 1, pages, Go))))) s"
    using rd pr lt by (simp add: PT_LENGTH_def level_last j bnd_Inr case_prod_unfold del: recurse_flag.simps)
  also have "\<dots> = Inr ((j + 1, 0, Go), upd s ?F (?v # iv))"
    by (subst d(6)[of "\<lambda>v. recurse_flag (Suc n) v js (of_nat k) fl", OF rec])
      (simp add: kern j del: recurse_flag.simps)
  finally have step: "flag_step (recurse_flag (Suc n)) (level_of (Suc (Suc n))) pt is fl (j, of_nat k, Go) s =
      Inr ((j + 1, 0, Go), upd s ?F (?v # iv))" .
  let ?L = "loop flag_more (flag_step (recurse_flag (Suc n)) (level_of (Suc (Suc n))) pt is fl)"
  have "?L (j, of_nat k, Go) s = ?L (j + 1, 0, Go) (upd s ?F (?v # iv))"
    by (rule loop_step, simp, rule step)
  also have "\<dots> = Inr ((j + 1, 0, Break), upd s ?F (?v # iv))"
    by (rule loop_once) (simp_all add: kern del: recurse_flag.simps)
  finally have "recurse_flag (Suc (Suc n)) pt is (of_nat k) fl s = Inr ((SUCCESS, 0), upd s ?F (?v # iv))"
    unfolding recurse_flag.simps(2)[of "Suc n"] by (simp add: flag_body_def j bnd_Inr kern)
  then show ?case by blast
qed

lemma flag_pages_run:
  assumes f: "in_leaf s table root v k" and p: "leaf (frames s) root (indices_of v) = (l, i)" "present_run (frames s l) i k"
  obtains iv where "vm_flag_pages table v (of_nat k) fl s =
      Inr (SUCCESS, upd s (lev fl (flagged_row fl k) (frames s) root (indices_of v)) iv)"
proof -
  have at: "at_table (Suc 3) s table root (indices_of v)" "table \<noteq> 0" "distinct (path (frames s) root (indices_of v))"
    "reach (frames s) root (indices_of v)" "0 < k" "i + k \<le> 512" "ISPAGEALIGNED v"
    using f p(1) by (simp_all add: in_leaf_def)
  from recurse_flag_run[OF at(1-4) p at(5), of fl] obtain iv where
    "recurse_flag 4 table (indices_of v) (of_nat k) fl s =
      Inr ((SUCCESS, 0), upd s (lev fl (flagged_row fl k) (frames s) root (indices_of v)) iv)"
    by (auto simp: numeral_eq_Suc simp del: recurse_flag.simps)
  moreover have "(0 :: u64) < of_nat k" using at(5,6) by (simp add: word_less_nat_alt unat_small)
  ultimately have "vm_flag_pages table v (of_nat k) fl s =
      Inr (SUCCESS, upd s (lev fl (flagged_row fl k) (frames s) root (indices_of v)) iv)"
    using at(7) by (simp add: vm_flag_pages_def PT_NUM_LEVELS_def bnd_Inr kern del: recurse_flag.simps)
  then show thesis by (rule that)
qed

text \<open>Tables with the same pages: whatever else changes, an address is translated as before.\<close>

definition same_pages :: "(addr \<Rightarrow> nat \<Rightarrow> pte) \<Rightarrow> (addr \<Rightarrow> nat \<Rightarrow> pte) \<Rightarrow> bool" where
  "same_pages fr fr' \<longleftrightarrow> (\<forall>p i. present (fr' p i) = present (fr p i) \<and> (present (fr p i) \<longrightarrow> PTEPADDR (fr' p i) = PTEPADDR (fr p i)))"

lemma same_pages_walk: "same_pages fr fr' \<Longrightarrow> walk fr' p is = walk fr p is"
  by (induction "is" arbitrary: p) (simp_all add: same_pages_def)

lemma same_pages_trans: "same_pages f g \<Longrightarrow> same_pages g h \<Longrightarrow> same_pages f h"
  by (simp add: same_pages_def)

lemma same_pages_relevelled: "same_pages fr (relevelled fl fr p is)"
proof (induction fl fr p "is" rule: relevelled.induct)
  case (3 fl fr p i j "is")
  have "same_pages fr (fr(p := (fr p)(unat i := relevel fl (fr p (unat i)))))" by (simp add: same_pages_def)
  then show ?case unfolding relevelled.simps(3) using 3 by (rule same_pages_trans)
qed (simp_all add: same_pages_def)

lemma same_pages_flagged:
  assumes "distinct (path fr p is)" "reach fr p is" "is \<noteq> []" "leaf fr p is = (l, i)" "present_run (fr l) j k"
  shows "same_pages fr (lev fl (\<lambda>_. flagged_row fl k j) fr p is)"
proof (rule same_pages_trans[OF same_pages_relevelled[of fr fl p "is"]])
  let ?R = "relevelled fl fr p is"
  have R: "leaf ?R p is = (l, i)" using relevelled_walk[OF assms(1,2), of fl] assms(4) by simp
  have "present (?R l m)" if "j \<le> m" "m < j + k" for m
  proof -
    have "present (fr l m)" using assms(5) that by (simp add: present_run_def)
    then show ?thesis using same_pages_relevelled[of fr fl p "is"] that(1) by (simp add: same_pages_def)
  qed
  then have "same_pages ?R (?R(l := flagged_row fl k j (?R l)))"
    unfolding same_pages_def by (simp add: flagged_row_def)
  moreover have "lev fl (\<lambda>_. flagged_row fl k j) fr p is = ?R(l := flagged_row fl k j (?R l))"
    by (simp add: lev_def with_leaf_def R)
  ultimately show "same_pages ?R (lev fl (\<lambda>_. flagged_row fl k j) fr p is)" by simp
qed

text \<open>The entries above the last level of a walk.\<close>

fun uppers :: "(addr \<Rightarrow> nat \<Rightarrow> pte) \<Rightarrow> addr \<Rightarrow> u64 list \<Rightarrow> (addr \<times> nat) list" where
  "uppers fr p [] = []"
| "uppers fr p [i] = []"
| "uppers fr p (i # j # is) = (p, unat i) # uppers fr (PTEPADDR (fr p (unat i))) (j # is)"

lemma uppers_in_path: "(g, k) \<in> set (uppers fr p is) \<Longrightarrow> reach fr p is \<Longrightarrow> g \<in> set (path fr p is)"
  by (induction fr p "is" rule: uppers.induct) auto

lemma uppers_upd: "p \<notin> set (path fr q is) \<Longrightarrow> reach fr q is \<Longrightarrow> uppers (fr(p := row)) q is = uppers fr q is"
  by (induction fr q "is" rule: uppers.induct) auto

lemma relevelled_entries:
  "distinct (path fr p is) \<Longrightarrow> reach fr p is \<Longrightarrow>
    relevelled fl fr p is g k = (if (g, k) \<in> set (uppers fr p is) then relevel fl (fr g k) else fr g k)"
proof (induction fl fr p "is" rule: relevelled.induct)
  case (3 fl fr p i j "is")
  let ?q = "PTEPADDR (fr p (unat i))" and ?fr = "fr(p := (fr p)(unat i := relevel fl (fr p (unat i))))"
  have pr: "present (fr p (unat i))" "reach fr ?q (j # is)" using 3(3) by auto
  then have d: "p \<notin> set (path fr ?q (j # is))" "distinct (path fr ?q (j # is))" using 3(2) by auto
  have "relevelled fl ?fr ?q (j # is) g k = (if (g, k) \<in> set (uppers ?fr ?q (j # is)) then relevel fl (?fr g k) else ?fr g k)"
    by (rule "3.IH") (simp_all only: path_upd[OF d(1)] leaf_upd[OF d(1) pr(2)] d(2))
  moreover have "g = p \<Longrightarrow> (g, k) \<notin> set (uppers fr ?q (j # is))" using uppers_in_path[OF _ pr(2)] d(1) by blast
  ultimately show ?case by (auto simp: uppers_upd[OF d(1) pr(2)] simp del: relevelled.simps(1,2))
qed simp_all

lemma leaf_not_upper: "distinct (path fr p is) \<Longrightarrow> reach fr p is \<Longrightarrow> is \<noteq> [] \<Longrightarrow> (g, k) \<in> set (uppers fr p is) \<Longrightarrow> g \<noteq> fst (leaf fr p is)"
proof (induction fr p "is" rule: uppers.induct)
  case (3 fr p i j "is")
  then have d: "p \<notin> set (path fr (PTEPADDR (fr p (unat i))) (j # is))" "reach fr (PTEPADDR (fr p (unat i))) (j # is)"
    "distinct (path fr (PTEPADDR (fr p (unat i))) (j # is))" by auto
  then show ?case using 3 leaf_in_path[OF _ d(2)] by auto
qed simp_all

lemma lev_entries:
  assumes "distinct (path fr p is)" "reach fr p is" "is \<noteq> []" "leaf fr p is = (l, i)"
  shows "lev fl (flagged_row fl k) fr p is g j =
    (if g = l \<and> i \<le> j \<and> j < i + k then set_pte (PTEPADDR (fr l j)) fl
     else if (g, j) \<in> set (uppers fr p is) then relevel fl (fr g j) else fr g j)"
proof -
  have R: "leaf (relevelled fl fr p is) p is = (l, i)" using relevelled_walk[OF assms(1,2), of fl] assms(4) by simp
  have "(l, m) \<notin> set (uppers fr p is)" for m using leaf_not_upper[OF assms(1-3)] assms(4) by force
  then show ?thesis by (simp add: lev_def with_leaf_def R flagged_row_def relevelled_entries[OF assms(1,2)])
qed

text \<open>C13: Changing the flags of \<open>k\<close> mapped pages of one table succeeds and gives each of their entries exactly the
  permissions asked for. The entries above them on the walk get the permissions that \<open>update_pt_pte_flags\<close> sets, every other entry
  of every table stays as it was, and every address is translated as before, from every root table.\<close>

theorem flagged_pages_keep_translation:
  assumes "in_leaf s table root v k" "leaf (frames s) root (indices_of v) = (l, i)" "present_run (frames s l) i k"
  shows "\<exists>s'. vm_flag_pages table v (of_nat k) fl s = Inr (SUCCESS, s') \<and>
    (\<forall>j<k. writable (frames s' l (i + j)) = ISFLAGSET fl VM_FLAG_WRITABLE \<and>
       user_accessible (frames s' l (i + j)) = ISFLAGSET fl VM_FLAG_USER \<and>
       no_execute (frames s' l (i + j)) = ISFLAGUNSET fl VM_FLAG_EXECUTABLE \<and>
       (\<forall>off. unat off < 4096 \<longrightarrow> translate (frames s') root (v + of_nat j * 4096 + off) \<noteq> None)) \<and>
    (\<forall>g j. frames s' g j =
       (if g = l \<and> i \<le> j \<and> j < i + k then set_pte (PTEPADDR (frames s l j)) fl
        else if (g, j) \<in> set (uppers (frames s) root (indices_of v)) then relevel fl (frames s g j) else frames s g j)) \<and>
    (\<forall>r w. translate (frames s') r w = translate (frames s) r w)"
proof -
  let ?is = "indices_of v"
  have f: "at_table 4 s table root ?is" "distinct (path (frames s) root ?is)" "reach (frames s) root ?is" "ISPAGEALIGNED v"
    using assms(1) by (simp_all add: in_leaf_def)
  have ne: "?is \<noteq> []" by (rule indices_ok)
  obtain iv where run: "vm_flag_pages table v (of_nat k) fl s = Inr (SUCCESS, upd s (lev fl (flagged_row fl k) (frames s) root ?is) iv)"
    by (rule flag_pages_run[OF assms])
  let ?s = "upd s (lev fl (flagged_row fl k) (frames s) root ?is) iv"
  have tp: "tmp_frame s \<notin> set (path (frames s) root ?is)" using f(1) by (simp add: at_table_def)
  have fr: "frames ?s = lev fl (flagged_row fl k) (frames s) root ?is"
    by (rule upd_apart) (rule lev_other[OF f(2,3) ne tp])
  have entries: "frames ?s g j = (if g = l \<and> i \<le> j \<and> j < i + k then set_pte (PTEPADDR (frames s l j)) fl
      else if (g, j) \<in> set (uppers (frames s) root ?is) then relevel fl (frames s g j) else frames s g j)" for g j
    unfolding fr by (rule lev_entries[OF f(2,3) ne assms(2)])
  have pr: "present (frames s l j)" if "i \<le> j" "j < i + k" for j using that assms(3) by (simp add: present_run_def)
  have "same_pages (frames s) (frames ?s)" unfolding same_pages_def entries by (simp add: pr)
  then have same: "translate (frames ?s) r w = translate (frames s) r w" for r w by (simp add: translate_def same_pages_walk)
  have "translate (frames s) root (v + of_nat j * 4096 + off) \<noteq> None" if "j < k" "unat off < 4096" for j off
  proof -
    have s: "s = upd s (with_leaf (frames s) root ?is (\<lambda>i row. row)) (invalidated s)" by (simp add: with_leaf_def assms(2))
    have "i + j < 512" using that(1) assms(3) by (simp add: present_run_def)
    from leaf_page(1)[OF f(1-3) assms(2) f(4) this that(2) s] show ?thesis using pr[of "i + j"] that(1) by (simp add: translate_def)
  qed
  then show ?thesis using run entries same by (intro exI[of _ ?s]) simp
qed

end
