(* ===== verification/Remap.thy ===== *)
theory Remap
  imports Vm_ops
begin

text \<open>
  \<open>kernel_remap\<close> of \<open>kernel.c\<close>: giving the sections of the kernel their permissions. The reference is what the
  processor lets a page do: it may be written if every entry of its walk is writable, and executed if none
  forbids it.
\<close>

section \<open>The code\<close>

definition remap_range :: "addr \<Rightarrow> addr \<Rightarrow> flags \<Rightarrow> (kst, unit) kern" where
  "remap_range vaddr_start vaddr_end flags =
     bnd (vmk_flag_range vaddr_start vaddr_end flags) (\<lambda>res. asrt (res = SUCCESS))"

definition kernel_remap :: "(kst, unit) kern" where
  "kernel_remap =
     bnd (gets sym) (\<lambda>y.
     thn (remap_range (LAYOUT_VADDR_START y) (LAYOUT_TEXT_START y) (VM_FLAG_READ OR VM_FLAG_WRITABLE))
     (thn (remap_range (LAYOUT_TEXT_START y) (LAYOUT_TEXT_END y) (VM_FLAG_READ OR VM_FLAG_EXECUTABLE))
     (thn (remap_range (LAYOUT_RODATA_START y) (LAYOUT_RODATA_END y) VM_FLAG_READ)
     (remap_range (LAYOUT_DATA_START y) (LAYOUT_DATA_END y) (VM_FLAG_READ OR VM_FLAG_WRITABLE)))))"

section \<open>Permissions\<close>

fun may_write :: "(addr \<Rightarrow> nat \<Rightarrow> pte) \<Rightarrow> addr \<Rightarrow> u64 list \<Rightarrow> bool" where
  "may_write fr p [] \<longleftrightarrow> True"
| "may_write fr p (i # is) \<longleftrightarrow> present (fr p (unat i)) \<and> writable (fr p (unat i)) \<and> may_write fr (PTEPADDR (fr p (unat i))) is"

fun may_execute :: "(addr \<Rightarrow> nat \<Rightarrow> pte) \<Rightarrow> addr \<Rightarrow> u64 list \<Rightarrow> bool" where
  "may_execute fr p [] \<longleftrightarrow> True"
| "may_execute fr p (i # is) \<longleftrightarrow> present (fr p (unat i)) \<and> \<not> no_execute (fr p (unat i)) \<and> may_execute fr (PTEPADDR (fr p (unat i))) is"

text \<open>A property of all entries of a walk but the last.\<close>

fun all_upper :: "(pte \<Rightarrow> bool) \<Rightarrow> (addr \<Rightarrow> nat \<Rightarrow> pte) \<Rightarrow> addr \<Rightarrow> u64 list \<Rightarrow> bool" where
  "all_upper P fr p [] \<longleftrightarrow> True"
| "all_upper P fr p [i] \<longleftrightarrow> True"
| "all_upper P fr p (i # j # is) \<longleftrightarrow> P (fr p (unat i)) \<and> all_upper P fr (PTEPADDR (fr p (unat i))) (j # is)"

lemma may_split:
  "reach fr p is \<Longrightarrow> is \<noteq> [] \<Longrightarrow> leaf fr p is = (l, i) \<Longrightarrow>
    may_write fr p is = (all_upper writable fr p is \<and> present (fr l i) \<and> writable (fr l i)) \<and>
    may_execute fr p is = (all_upper (\<lambda>e. \<not> no_execute e) fr p is \<and> present (fr l i) \<and> \<not> no_execute (fr l i))"
  by (induction fr p "is" rule: leaf.induct) auto

lemma upper_relevelled:
  "distinct (path fr p is) \<Longrightarrow> reach fr p is \<Longrightarrow>
    all_upper (\<lambda>e. writable e = ISFLAGSET fl VM_FLAG_WRITABLE \<and> \<not> no_execute e) (lev fl h fr p is) p is"
proof (induction fl fr p "is" rule: relevelled.induct)
  case (3 fl fr p i j "is")
  let ?q = "PTEPADDR (fr p (unat i))" and ?fr = "fr(p := (fr p)(unat i := relevel fl (fr p (unat i))))"
  have pr: "present (fr p (unat i))" "reach fr ?q (j # is)" using 3(3) by auto
  then have d: "p \<notin> set (path fr ?q (j # is))" "distinct (path fr ?q (j # is))" using 3(2) by auto
  have d': "distinct (path ?fr ?q (j # is))" "reach ?fr ?q (j # is)" "p \<notin> set (path ?fr ?q (j # is))"
    by (simp_all only: path_upd[OF d(1)] leaf_upd[OF d(1) pr(2)] d simp_thms)
  obtain L where L: "L = lev fl h ?fr ?q (j # is)" by simp
  have "L p = ?fr p" unfolding L by (rule lev_other[OF d'(1,2) _ d'(3)]) simp
  then have e: "L p (unat i) = relevel fl (fr p (unat i))" by simp
  have "all_upper (\<lambda>e. writable e = ISFLAGSET fl VM_FLAG_WRITABLE \<and> \<not> no_execute e) L ?q (j # is)"
    unfolding L by (rule "3.IH"[OF d'(1,2)])
  then show ?case unfolding lev_down[OF 3(2,3)] L[symmetric] all_upper.simps e by simp
qed simp_all

text \<open>Walks that differ in the last index only.\<close>

lemma last_index:
  "is \<noteq> [] \<Longrightarrow> reach fr p (butlast is @ [j]) = reach fr p is \<and> leaf fr p (butlast is @ [j]) = (fst (leaf fr p is), unat j) \<and>
    all_upper P fr p (butlast is @ [j]) = all_upper P fr p is"
proof (induction fr p "is" rule: leaf.induct)
  case (3 fr p i i2 js)
  then show ?case by (cases js) auto
qed auto

lemma relevelled_last: "is \<noteq> [] \<Longrightarrow> relevelled fl fr p (butlast is @ [j]) = relevelled fl fr p is"
proof (induction fl fr p "is" rule: relevelled.induct)
  case (3 fl fr p i i2 js)
  obtain k ks where e: "butlast (i2 # js) @ [j] = k # ks" by (cases "butlast (i2 # js)") auto
  have b: "butlast (i # i2 # js) @ [j] = i # k # ks" using e by simp
  show ?case unfolding b relevelled.simps(3) by (rule "3.IH"[unfolded e]) simp
qed auto

lemma lev_last:
  assumes "is \<noteq> []" "distinct (path fr p is)" "reach fr p is" "leaf fr p is = (l, i)"
  shows "lev fl h fr p (butlast is @ [j]) = lev fl (\<lambda>_. h (unat j)) fr p is"
proof -
  let ?R = "relevelled fl fr p is"
  have "leaf ?R p is = (l, i)" using relevelled_walk[OF assms(2,3), of fl] assms(4) by simp
  then show ?thesis using last_index[OF assms(1), of ?R p j]
    by (simp add: lev_def with_leaf_def relevelled_last[OF assms(1)])
qed

lemma path_last:
  assumes "is \<noteq> []" "distinct (path fr p is)" "reach fr p is"
  shows "path fr p (butlast is @ [j]) = path fr p is"
proof -
  obtain l i where "leaf fr p is = (l, i)" by force
  from with_leaf_walk[OF assms this, of "fr l" j] show ?thesis by simp
qed

section \<open>Changing the flags of a run inside a table\<close>

lemma flag_inside:
  assumes f: "in_leaf s table root v n" and li: "leaf (frames s) root (indices_of v) = (l, i)"
    and p: "present_run (frames s l) (i + a) k" and k: "0 < k" "a + k \<le> n"
  obtains s' where "vm_flag_pages table (v + of_nat a * 4096) (of_nat k) fl s = Inr (SUCCESS, s')"
    "in_leaf s' table root v n" "leaf (frames s') root (indices_of v) = (l, i)"
    "frames s' l = flagged_row fl k (i + a) (frames s l)"
    "all_upper (\<lambda>e. writable e = ISFLAGSET fl VM_FLAG_WRITABLE \<and> \<not> no_execute e) (frames s') root (indices_of v)"
    "sym s' = sym s" "kpml4 s' = kpml4 s" "same_pages (frames s) (frames s')" "s' = upd s (frames s') (invalidated s')"
proof -
  let ?is = "indices_of v" and ?w = "v + of_nat a * 4096"
  have at: "at_table 4 s table root ?is" "distinct (path (frames s) root ?is)" "reach (frames s) root ?is"
    "ISPAGEALIGNED v" "table \<noteq> 0" "i + n \<le> 512"
    using f li by (simp_all add: in_leaf_def)
  have i: "i = unat (pt_index v)" by (rule leaf_index[OF at(3) li])
  have z: "unat (0 :: addr) < 4096" by simp
  have ia: "i + a < 512" using k at(6) by simp
  note w = page_sum[OF at(4) ia[unfolded i] z, simplified]
  let ?j = "pt_index v + of_nat a"
  have ne: "?is \<noteq> []" by (rule indices_ok)
  have s: "s = upd s (with_leaf (frames s) root ?is (\<lambda>i row. row)) (invalidated s)"
    by (simp add: with_leaf_def li)
  have atw: "at_table 4 s table root (indices_of ?w)"
    using leaf_page(2)[OF at(1-3) li at(4) ia z s] by simp
  have pw: "path (frames s) root (indices_of ?w) = path (frames s) root ?is"
    unfolding w(1) by (rule path_last[OF ne at(2,3)])
  have lw: "reach (frames s) root (indices_of ?w)" "leaf (frames s) root (indices_of ?w) = (l, i + a)"
    using last_index[OF ne, of "frames s" root ?j] at(3) li unfolding w(1) by (simp_all add: w(3) i)
  have "ISPAGEALIGNED ?w" using w(2) by (simp add: ISPAGEALIGNED_def)
  then have fw: "in_leaf s table root ?w k"
    using atw pw lw at k by (simp add: in_leaf_def)
  obtain iv where run: "vm_flag_pages table ?w (of_nat k) fl s =
      Inr (SUCCESS, upd s (lev fl (flagged_row fl k) (frames s) root (indices_of ?w)) iv)"
    by (rule flag_pages_run[OF fw lw(2) p])
  let ?F = "lev fl (\<lambda>_. flagged_row fl k (i + a)) (frames s) root ?is"
  have F: "lev fl (flagged_row fl k) (frames s) root (indices_of ?w) = ?F"
    unfolding w(1) lev_last[OF ne at(2,3) li] by (simp add: w(3) i)
  define s' where "s' = upd s ?F iv"
  have tp: "tmp_frame s \<notin> set (path (frames s) root ?is)" using at(1) by (simp add: at_table_def)
  have fr: "frames s' = ?F" unfolding s'_def by (rule upd_apart) (rule lev_other[OF at(2,3) ne tp])
  have b: "butlast ?is @ [last ?is] = ?is" using ne by simp
  note lv = lev_walk(1)[OF at(2,3) ne li, of fl "\<lambda>_. flagged_row fl k (i + a)" "last ?is", unfolded b]
    lev_walk(2-4)[OF at(2,3) ne li, of fl "\<lambda>_. flagged_row fl k (i + a)"]
  have "at_table 4 s' table root ?is" using at(1) tp unfolding at_table_def fr lv(1) by (simp add: s'_def)
  then have "in_leaf s' table root v n" using f li by (simp add: in_leaf_def fr lv)
  moreover have "all_upper (\<lambda>e. writable e = ISFLAGSET fl VM_FLAG_WRITABLE \<and> \<not> no_execute e) (frames s') root ?is"
    unfolding fr by (rule upper_relevelled[OF at(2,3)])
  moreover have "sym s' = sym s" "kpml4 s' = kpml4 s" by (simp_all add: s'_def)
  moreover have "same_pages (frames s) (frames s')" unfolding fr by (rule same_pages_flagged[OF at(2,3) ne li p])
  moreover have "s' = upd s (frames s') (invalidated s')" unfolding fr by (simp add: s'_def)
  ultimately show thesis using that run[unfolded F, folded s'_def] fr lv(3,4) by simp
qed

section \<open>The sections of the kernel\<close>

text \<open>
  The sections lie one after the other on page boundaries: \<open>a\<close> pages of entry code and data, \<open>t\<close> pages of text, \<open>r\<close> of
  read only data and \<open>d\<close> of data.
\<close>

definition laid_out :: "symbols \<Rightarrow> nat \<Rightarrow> nat \<Rightarrow> nat \<Rightarrow> nat \<Rightarrow> bool" where
  "laid_out y a t r d \<longleftrightarrow> 0 < a \<and> 0 < t \<and> 0 < r \<and> 0 < d \<and>
     LAYOUT_TEXT_START y = LAYOUT_VADDR_START y + of_nat a * 4096 \<and>
     LAYOUT_RODATA_START y = LAYOUT_VADDR_START y + of_nat (a + t) * 4096 \<and>
     LAYOUT_DATA_START y = LAYOUT_VADDR_START y + of_nat (a + t + r) * 4096 \<and>
     PAGES (LAYOUT_TEXT_START y - LAYOUT_VADDR_START y) = of_nat a \<and>
     PAGES (LAYOUT_TEXT_END y - LAYOUT_TEXT_START y) = of_nat t \<and>
     PAGES (LAYOUT_RODATA_END y - LAYOUT_RODATA_START y) = of_nat r \<and>
     PAGES (LAYOUT_DATA_END y - LAYOUT_DATA_START y) = of_nat d \<and>
     ISKVADDR (LAYOUT_VADDR_START y) \<and> ISKVADDR (LAYOUT_TEXT_START y) \<and> ISKVADDR (LAYOUT_RODATA_START y) \<and>
     ISKVADDR (LAYOUT_DATA_START y)"

lemma walk_leaf:
  "reach fr p is \<Longrightarrow> is \<noteq> [] \<Longrightarrow> leaf fr p is = (l, i) \<Longrightarrow>
    walk fr p is = (if present (fr l i) then Some (PTEPADDR (fr l i)) else None)"
  by (induction fr p "is" rule: leaf.induct) auto

text \<open>What a page of the table may be used for and where it is, once the upper entries allow everything.\<close>

lemma page_rights:
  assumes f: "in_leaf s table root v n" and li: "leaf (frames s) root (indices_of v) = (l, i)" and j: "j < n"
  shows "all_upper (\<lambda>e. writable e \<and> \<not> no_execute e) (frames s) root (indices_of v) \<Longrightarrow>
      may_write (frames s) root (indices_of (v + of_nat j * 4096)) = (present (frames s l (i + j)) \<and> writable (frames s l (i + j))) \<and>
      may_execute (frames s) root (indices_of (v + of_nat j * 4096)) = (present (frames s l (i + j)) \<and> \<not> no_execute (frames s l (i + j)))"
    "walk (frames s) root (indices_of (v + of_nat j * 4096)) =
      (if present (frames s l (i + j)) then Some (PTEPADDR (frames s l (i + j))) else None)"
proof -
  have at: "reach (frames s) root (indices_of v)" "ISPAGEALIGNED v" "i + j < 512"
    using f li j by (simp_all add: in_leaf_def)
  have i: "i = unat (pt_index v)" by (rule leaf_index[OF at(1) li])
  have z: "unat (0 :: addr) < 4096" by simp
  note w = page_sum[OF at(2) at(3)[unfolded i] z, simplified]
  let ?is = "butlast (indices_of v) @ [pt_index v + of_nat j]"
  have r: "reach (frames s) root ?is" "leaf (frames s) root ?is = (l, i + j)"
    "all_upper P (frames s) root ?is = all_upper P (frames s) root (indices_of v)" for P
    using last_index[OF indices_ok(3), of "frames s" root v "pt_index v + of_nat j"] at(1) li by (simp_all add: w(3) i)
  have u: "all_upper (\<lambda>e. P e \<and> Q e) fr q is = (all_upper P fr q is \<and> all_upper Q fr q is)" for P Q fr q "is"
    by (induction P fr q "is" rule: all_upper.induct) auto
  show "all_upper (\<lambda>e. writable e \<and> \<not> no_execute e) (frames s) root (indices_of v) \<Longrightarrow>
      may_write (frames s) root (indices_of (v + of_nat j * 4096)) = (present (frames s l (i + j)) \<and> writable (frames s l (i + j))) \<and>
      may_execute (frames s) root (indices_of (v + of_nat j * 4096)) = (present (frames s l (i + j)) \<and> \<not> no_execute (frames s l (i + j)))"
    using may_split[OF r(1) _ r(2)] unfolding w(1) r(3) u by simp
  show "walk (frames s) root (indices_of (v + of_nat j * 4096)) =
      (if present (frames s l (i + j)) then Some (PTEPADDR (frames s l (i + j))) else None)"
    unfolding w(1) by (rule walk_leaf[OF r(1) _ r(2)]) simp
qed

lemma remap_range_run:
  assumes "vm_flag_pages (kpml4 s) v k fl s = Inr (SUCCESS, s')" "PAGES (e - v) = k" "ISKVADDR v" "ISFLAGUNSET fl VM_FLAG_USER"
  shows "remap_range v e fl s = Inr ((), s')"
  using assms by (simp add: remap_range_def vmk_flag_range_def vmk_flag_pages_def bnd_Inr kern)

text \<open>One section: the flags change in its rows, and everything that the next section needs stays.\<close>

lemma section_run:
  assumes f: "in_leaf s (kpml4 s) root v n" "leaf (frames s) root (indices_of v) = (l, i)" "present_run (frames s l) i n"
    and x: "x = v + of_nat b * 4096" "PAGES (e - x) = of_nat k" "ISKVADDR x" "0 < k" "b + k \<le> n" and fl: "ISFLAGUNSET fl VM_FLAG_USER"
  obtains s' where "remap_range x e fl s = Inr ((), s')" "in_leaf s' (kpml4 s') root v n" "leaf (frames s') root (indices_of v) = (l, i)"
    "present_run (frames s' l) i n" "frames s' l = flagged_row fl k (i + b) (frames s l)"
    "all_upper (\<lambda>e. writable e = ISFLAGSET fl VM_FLAG_WRITABLE \<and> \<not> no_execute e) (frames s') root (indices_of v)"
    "same_pages (frames s) (frames s')" "s' = upd s (frames s') (invalidated s')"
proof -
  have pr: "present_run (frames s l) (i + b) k" using f(3) x(5) by (simp add: present_run_def)
  obtain s' where s': "vm_flag_pages (kpml4 s) (v + of_nat b * 4096) (of_nat k) fl s = Inr (SUCCESS, s')"
    "in_leaf s' (kpml4 s) root v n" "leaf (frames s') root (indices_of v) = (l, i)" "frames s' l = flagged_row fl k (i + b) (frames s l)"
    "all_upper (\<lambda>e. writable e = ISFLAGSET fl VM_FLAG_WRITABLE \<and> \<not> no_execute e) (frames s') root (indices_of v)"
    "kpml4 s' = kpml4 s" "same_pages (frames s) (frames s')" "s' = upd s (frames s') (invalidated s')"
    by (rule flag_inside[OF f(1,2) pr x(4,5), where fl = fl])
  have run: "remap_range x e fl s = Inr ((), s')" by (rule remap_range_run[OF s'(1)[folded x(1)] x(2,3) fl])
  have "present_run (frames s' l) i n" using f(3) unfolding s'(4) by (simp add: present_run_def flagged_row_def)
  then show thesis using that[OF run _ s'(3) _ s'(4,5,7,8)] s'(2,6) by simp
qed

lemma remap_flags:
  defines "rw \<equiv> VM_FLAG_READ OR VM_FLAG_WRITABLE" and "rx \<equiv> VM_FLAG_READ OR VM_FLAG_EXECUTABLE"
  shows "ISFLAGUNSET rw VM_FLAG_USER" "ISFLAGUNSET rx VM_FLAG_USER" "ISFLAGUNSET VM_FLAG_READ VM_FLAG_USER"
    "ISFLAGSET rw VM_FLAG_WRITABLE" "\<not> ISFLAGSET rx VM_FLAG_WRITABLE" "\<not> ISFLAGSET VM_FLAG_READ VM_FLAG_WRITABLE"
    "ISFLAGUNSET rw VM_FLAG_EXECUTABLE" "\<not> ISFLAGUNSET rx VM_FLAG_EXECUTABLE" "ISFLAGUNSET VM_FLAG_READ VM_FLAG_EXECUTABLE"
  by (simp_all add: rw_def rx_def ISFLAGSET_def ISFLAGUNSET_def VM_FLAG_READ_def VM_FLAG_WRITABLE_def VM_FLAG_EXECUTABLE_def VM_FLAG_USER_def)

lemma kernel_remap_run:
  assumes y: "laid_out (sym s) a t r d" "v = LAYOUT_VADDR_START (sym s)" "n = a + t + r + d"
    and f: "in_leaf s (kpml4 s) root v n" "leaf (frames s) root (indices_of v) = (l, i)" "present_run (frames s l) i n"
  obtains s' where "kernel_remap s = Inr ((), s')" "same_pages (frames s) (frames s')" "s' = upd s (frames s') (invalidated s')"
    "\<And>j. j < n \<Longrightarrow> may_write (frames s') root (indices_of (v + of_nat j * 4096)) = (j < a \<or> a + t + r \<le> j) \<and>
      may_execute (frames s') root (indices_of (v + of_nat j * 4096)) = (a \<le> j \<and> j < a + t)"
proof -
  let ?rw = "VM_FLAG_READ OR VM_FLAG_WRITABLE" and ?rx = "VM_FLAG_READ OR VM_FLAG_EXECUTABLE"
  have zero: "v = v + of_nat 0 * 4096" by simp
  have y': "0 < a" "0 < t" "0 < r" "0 < d" "v = v + of_nat 0 * 4096" "LAYOUT_TEXT_START (sym s) = v + of_nat a * 4096"
    "LAYOUT_RODATA_START (sym s) = v + of_nat (a + t) * 4096" "LAYOUT_DATA_START (sym s) = v + of_nat (a + t + r) * 4096"
    and k: "PAGES (LAYOUT_TEXT_START (sym s) - v) = of_nat a" "PAGES (LAYOUT_TEXT_END (sym s) - LAYOUT_TEXT_START (sym s)) = of_nat t"
    "PAGES (LAYOUT_RODATA_END (sym s) - LAYOUT_RODATA_START (sym s)) = of_nat r"
    "PAGES (LAYOUT_DATA_END (sym s) - LAYOUT_DATA_START (sym s)) = of_nat d"
    "ISKVADDR v" "ISKVADDR (LAYOUT_TEXT_START (sym s))" "ISKVADDR (LAYOUT_RODATA_START (sym s))" "ISKVADDR (LAYOUT_DATA_START (sym s))"
    using y(1) zero unfolding laid_out_def y(2)[symmetric] by blast+
  have le: "0 + a \<le> n" "a + t \<le> n" "a + t + r \<le> n" "a + t + r + d \<le> n" using y(3) by simp_all
  obtain s1 where s1: "remap_range v (LAYOUT_TEXT_START (sym s)) ?rw s = Inr ((), s1)" "in_leaf s1 (kpml4 s1) root v n"
    "leaf (frames s1) root (indices_of v) = (l, i)" "present_run (frames s1 l) i n" "frames s1 l = flagged_row ?rw a (i + 0) (frames s l)"
    "same_pages (frames s) (frames s1)" "s1 = upd s (frames s1) (invalidated s1)"
    by (rule section_run[OF f y'(5) k(1,5) y'(1) le(1) remap_flags(1)])
  obtain s2 where s2: "remap_range (LAYOUT_TEXT_START (sym s)) (LAYOUT_TEXT_END (sym s)) ?rx s1 = Inr ((), s2)" "in_leaf s2 (kpml4 s2) root v n"
    "leaf (frames s2) root (indices_of v) = (l, i)" "present_run (frames s2 l) i n" "frames s2 l = flagged_row ?rx t (i + a) (frames s1 l)"
    "same_pages (frames s1) (frames s2)" "s2 = upd s1 (frames s2) (invalidated s2)"
    by (rule section_run[OF s1(2-4) y'(6) k(2,6) y'(2) le(2) remap_flags(2)])
  obtain s3 where s3: "remap_range (LAYOUT_RODATA_START (sym s)) (LAYOUT_RODATA_END (sym s)) VM_FLAG_READ s2 = Inr ((), s3)" "in_leaf s3 (kpml4 s3) root v n"
    "leaf (frames s3) root (indices_of v) = (l, i)" "present_run (frames s3 l) i n" "frames s3 l = flagged_row VM_FLAG_READ r (i + (a + t)) (frames s2 l)"
    "same_pages (frames s2) (frames s3)" "s3 = upd s2 (frames s3) (invalidated s3)"
    by (rule section_run[OF s2(2-4) y'(7) k(3,7) y'(3) le(3) remap_flags(3)])
  obtain s4 where s4: "remap_range (LAYOUT_DATA_START (sym s)) (LAYOUT_DATA_END (sym s)) ?rw s3 = Inr ((), s4)" "in_leaf s4 (kpml4 s4) root v n"
    "leaf (frames s4) root (indices_of v) = (l, i)" "present_run (frames s4 l) i n" "frames s4 l = flagged_row ?rw d (i + (a + t + r)) (frames s3 l)"
    "all_upper (\<lambda>e. writable e = ISFLAGSET ?rw VM_FLAG_WRITABLE \<and> \<not> no_execute e) (frames s4) root (indices_of v)"
    "same_pages (frames s3) (frames s4)" "s4 = upd s3 (frames s4) (invalidated s4)"
    by (rule section_run[OF s3(2-4) y'(8) k(4,8) y'(4) le(4) remap_flags(1)])
  have run: "kernel_remap s = Inr ((), s4)"
    by (simp add: kernel_remap_def y(2)[symmetric] thn_Inr s1(1) s2(1) s3(1) s4(1))
  have rights: "may_write (frames s4) root (indices_of (v + of_nat j * 4096)) = (j < a \<or> a + t + r \<le> j) \<and>
      may_execute (frames s4) root (indices_of (v + of_nat j * 4096)) = (a \<le> j \<and> j < a + t)" if j: "j < n" for j
  proof -
    have e: "present (frames s l (i + j))" "frames s4 l (i + j) = set_pte (PTEPADDR (frames s l (i + j)))
        (if j < a \<or> a + t + r \<le> j then ?rw else if j < a + t then ?rx else VM_FLAG_READ)"
      using f(3) j unfolding s4(5) s3(5) s2(5) s1(5) y(3) by (auto simp: present_run_def flagged_row_def)
    have u: "all_upper (\<lambda>e. writable e \<and> \<not> no_execute e) (frames s4) root (indices_of v)" using s4(6) remap_flags(4) by simp
    show ?thesis using page_rights(1)[OF s4(2,3) j u] e remap_flags by simp
  qed
  have "s4 = upd s1 (frames s4) (invalidated s4)"
    by (rule trans[OF s4(8)], subst s3(7), subst s2(7), simp only: upd_same)
  then have "s4 = upd s (frames s4) (invalidated s4)" by (rule trans) (subst s1(7), simp only: upd_same)
  then show thesis
    using that[OF run same_pages_trans[OF s1(6) same_pages_trans[OF s2(6) same_pages_trans[OF s3(6) s4(7)]]]] rights by blast
qed

text \<open>C28: \<open>kernel_remap\<close> leaves no page of the kernel both writable and executable: exactly the text may be executed, exactly
  the entry section and the data may be written, and every address of the address space is translated as before.\<close>

theorem kernel_remap_separates_write_and_execute:
  assumes y: "laid_out (sym s) a t r d" "v = LAYOUT_VADDR_START (sym s)" "n = a + t + r + d"
    and f: "in_leaf s (kpml4 s) root v n" "leaf (frames s) root (indices_of v) = (l, i)" "present_run (frames s l) i n"
  shows "\<exists>s'. kernel_remap s = Inr ((), s') \<and> (\<forall>w. translate (frames s') root w = translate (frames s) root w) \<and>
    (\<forall>j<n. let is = indices_of (v + of_nat j * 4096) in
      may_write (frames s') root is = (j < a \<or> a + t + r \<le> j) \<and> may_execute (frames s') root is = (a \<le> j \<and> j < a + t))"
proof -
  obtain s' where s': "kernel_remap s = Inr ((), s')" "same_pages (frames s) (frames s')"
    "\<And>j. j < n \<Longrightarrow> may_write (frames s') root (indices_of (v + of_nat j * 4096)) = (j < a \<or> a + t + r \<le> j) \<and>
      may_execute (frames s') root (indices_of (v + of_nat j * 4096)) = (a \<le> j \<and> j < a + t)"
    by (rule kernel_remap_run[OF assms], rule that, assumption+)
  then show ?thesis by (intro exI[of _ s']) (simp add: translate_def same_pages_walk[OF s'(2)] Let_def)
qed

end
