(* ===== verification/Initfs.thy ===== *)
theory Initfs
  imports Pm Vm Str Printk
begin

text \<open>
  \<open>common/initfs.c\<close>: the file system in the boot module, a ustar archive. The code locks and maps the module,
  and looks a file up by walking over the headers. The string literals of the code are in memory, at the
  two addresses \<open>lits\<close>. The reference is an archive as a list of entries.
\<close>

section \<open>The code\<close>

definition TYPE_FLAG_FILE :: u8 where "TYPE_FLAG_FILE = 1"

text \<open>Offsets in \<open>struct ustar_header\<close>, and its size.\<close>

definition file_size_at :: addr where "file_size_at = 124"
definition type_flag_at :: addr where "type_flag_at = 156"
definition ustar_string_at :: addr where "ustar_string_at = 257"
definition ustar_version_at :: addr where "ustar_version_at = 263"
definition USTAR_HEADER :: u64 where "USTAR_HEADER = 512"

lemmas ustar_layout = file_size_at_def type_flag_at_def ustar_string_at_def ustar_version_at_def USTAR_HEADER_def

fun oct_more :: "addr \<times> u64 \<times> u64 \<Rightarrow> memory \<Rightarrow> bool" where
  "oct_more (str, len, num) m \<longleftrightarrow> len > 0"

fun oct_step :: "addr \<times> u64 \<times> u64 \<Rightarrow> (memory, addr \<times> u64 \<times> u64) kern" where
  "oct_step (str, len, num) =
     (let num = push_bit 3 num in
      bnd (gets (\<lambda>m. m str)) (\<lambda>c.
      thn (asrt (c \<ge> 0x30 \<and> c \<le> 0x37))
      (ret (str + 1, len - 1, num + (ucast c - 0x30)))))"

definition oct_str_to_num :: "addr \<Rightarrow> u64 \<Rightarrow> (memory, u64) kern" where
  "oct_str_to_num str len = bnd (loop oct_more oct_step (str, len - 1, 0)) (\<lambda>(str, len, num). ret num)"

record initfs =
  virt_start :: addr
  virt_end :: addr
  phys_start :: addr
  phys_end :: addr

definition fs_virt_start :: "memory \<Rightarrow> addr \<Rightarrow> addr" where "fs_virt_start m fs = ld64 m fs"
definition fs_virt_end :: "memory \<Rightarrow> addr \<Rightarrow> addr" where "fs_virt_end m fs = ld64 m (fs + 8)"
definition fs_phys_start :: "memory \<Rightarrow> addr \<Rightarrow> addr" where "fs_phys_start m fs = ld64 m (fs + 16)"
definition fs_phys_end :: "memory \<Rightarrow> addr \<Rightarrow> addr" where "fs_phys_end m fs = ld64 m (fs + 24)"

lemmas fs_layout = fs_virt_start_def fs_virt_end_def fs_phys_start_def fs_phys_end_def

definition initfs_from_module :: "services \<Rightarrow> addr \<Rightarrow> (kst, initfs) kern" where
  "initfs_from_module srv module =
     bnd (rd (\<lambda>m. (ld64 m (module + 8), ld64 m (module + 16)))) (\<lambda>(start_address, end_address).
     bnd (pm_try_lock_range srv start_address end_address) (\<lambda>_.
     bnd (vmk_map_range (request srv) start_address end_address 0 0) (\<lambda>(res, v).
     ret \<lparr>virt_start = v, virt_end = v + (end_address - start_address), phys_start = start_address, phys_end = end_address\<rparr>)))"

definition initfs_release :: "services \<Rightarrow> addr \<Rightarrow> (kst, unit) kern" where
  "initfs_release srv fs =
     bnd (rd (\<lambda>m. (fs_virt_start m fs, fs_virt_end m fs))) (\<lambda>(start, e).
     thn (asrt (start \<noteq> 0))
     (thn (vmk_unmap_range start e)
     (bnd (rd (\<lambda>m. (fs_phys_start m fs, fs_phys_end m fs))) (\<lambda>(pstart, pe).
     thn (pm_try_release_range srv pstart pe)
     (on_mem (mem_set fs 0 32))))))"

fun lookup_more :: "addr \<Rightarrow> addr \<times> status option \<Rightarrow> kst \<Rightarrow> bool" where
  "lookup_more fs (hdr, r) s \<longleftrightarrow> r = None \<and> hdr < fs_virt_end (mem s) fs"

fun lookup_step :: "addr \<times> addr \<Rightarrow> addr \<Rightarrow> addr \<Rightarrow> addr \<Rightarrow> addr \<times> status option \<Rightarrow> (kst, addr \<times> status option) kern" where
  "lookup_step (ustar, zeros) path file_ptr file_size (hdr, r) =
     bnd (on_mem (str_equal (hdr + ustar_string_at) ustar)) (\<lambda>magic.
     thn (asrt magic)
     (bnd (on_mem (str_nequal (hdr + ustar_version_at) zeros 2)) (\<lambda>version.
     thn (asrt version)
     (bnd (on_mem (oct_str_to_num (hdr + file_size_at) 12)) (\<lambda>sz.
      bnd (on_mem (str_equal hdr path)) (\<lambda>same.
      if same then
        bnd (rd (\<lambda>m. m (hdr + type_flag_at))) (\<lambda>type.
        thn (asrt (type = TYPE_FLAG_FILE))
        (thn (wr (st64 file_size sz))
        (thn (wr (st64 file_ptr (hdr + USTAR_HEADER)))
        (ret (hdr, Some SUCCESS)))))
      else ret (ALIGNUP (hdr + USTAR_HEADER + sz) USTAR_HEADER, None)))))))"

definition initfs_lookup :: "addr \<times> addr \<Rightarrow> addr \<Rightarrow> addr \<Rightarrow> addr \<Rightarrow> addr \<Rightarrow> (kst, status) kern" where
  "initfs_lookup lits fs path file_ptr file_size =
     bnd (rd (\<lambda>m. fs_virt_start m fs)) (\<lambda>hdr.
     thn (asrt (hdr \<noteq> 0)) (thn (asrt (file_ptr \<noteq> 0)) (thn (asrt (file_size \<noteq> 0)) (thn (asrt (path \<noteq> 0))
     (bnd (on_mem (str_length path)) (\<lambda>n.
     thn (asrt (n < 100))
     (bnd (loop (lookup_more fs) (lookup_step lits path file_ptr file_size) (hdr, None)) (\<lambda>(hdr, r).
     ret (case r of Some res \<Rightarrow> res | None \<Rightarrow> fails ENOENT)))))))))"

section \<open>Archives\<close>

record entry =
  name :: "u8 list"
  flag :: u8
  bytes :: nat

definition octal_value :: "u8 list \<Rightarrow> nat" where
  "octal_value ds = foldl (\<lambda>n d. 8 * n + (unat d - 48)) 0 ds"

definition octal_digit :: "u8 \<Rightarrow> bool" where
  "octal_digit d \<longleftrightarrow> 0x30 \<le> d \<and> d \<le> 0x37"

definition header_at :: "memory \<Rightarrow> addr \<Rightarrow> entry \<Rightarrow> bool" where
  "header_at m p x \<longleftrightarrow> cstr m p (name x) \<and> m (p + 156) = flag x \<and> cstr m (p + 257) (map ch ''ustar'') \<and>
     bytes_at m (p + 263) 2 = map ch ''00'' \<and> (\<forall>d\<in>set (bytes_at m (p + 124) 11). octal_digit d) \<and>
     octal_value (bytes_at m (p + 124) 11) = bytes x"

text \<open>Each file starts behind its header, and the next header at the next multiple of 512.\<close>

definition next_header :: "addr \<Rightarrow> entry \<Rightarrow> addr" where
  "next_header p x = p + 512 + of_nat (512 * ((bytes x + 511) div 512))"

fun archive :: "memory \<Rightarrow> addr \<Rightarrow> addr \<Rightarrow> entry list \<Rightarrow> bool" where
  "archive m e p [] \<longleftrightarrow> True"
| "archive m e p (x # xs) \<longleftrightarrow> p < e \<and> p \<noteq> 0  \<and> header_at m p x \<and> archive m e (next_header p x) xs"

fun archive_end :: "addr \<Rightarrow> entry list \<Rightarrow> addr" where
  "archive_end p [] = p"
| "archive_end p (x # xs) = archive_end (next_header p x) xs"

text \<open>The entries with the addresses of their headers.\<close>

fun places :: "addr \<Rightarrow> entry list \<Rightarrow> (addr \<times> entry) list" where
  "places p [] = []"
| "places p (x # xs) = (p, x) # places (next_header p x) xs"

section \<open>Octal numbers\<close>

lemma octal_word:
  assumes "\<forall>d\<in>set ds. octal_digit d"
  shows "foldl (\<lambda>a d. push_bit 3 a + (ucast d - 0x30)) (of_nat n) ds = (of_nat (foldl (\<lambda>n d. 8 * n + (unat d - 48)) n ds) :: u64)"
  using assms
proof (induction ds arbitrary: n)
  case (Cons d ds)
  have "48 \<le> unat d" using Cons.prems by (simp add: octal_digit_def word_le_nat_alt)
  then have "(of_nat (unat d - 48) :: u64) = ucast d - 0x30" by (simp add: of_nat_diff unsigned_of_nat flip: unsigned_ucast_eq)
  then have "push_bit 3 (of_nat n) + (ucast d - 0x30) = (of_nat (8 * n + (unat d - 48)) :: u64)"
    by (simp add: push_bit_eq_mult)
  moreover have "foldl (\<lambda>a d. push_bit 3 a + (ucast d - 0x30)) (of_nat (8 * n + (unat d - 48))) ds =
      (of_nat (foldl (\<lambda>n d. 8 * n + (unat d - 48)) (8 * n + (unat d - 48)) ds) :: u64)"
    using Cons.prems by (intro Cons.IH) simp
  ultimately show ?case by (simp only: foldl_Cons)
qed simp

lemma octal_bound:
  assumes "\<forall>d\<in>set ds. octal_digit d"
  shows "foldl (\<lambda>n d. 8 * n + (unat d - 48)) n ds < (n + 1) * 8 ^ length ds"
  using assms
proof (induction ds arbitrary: n)
  case (Cons d ds)
  have "unat d - 48 < 8" using Cons.prems by (auto simp: octal_digit_def word_le_nat_alt)
  then have "(8 * n + (unat d - 48) + 1) * 8 ^ length ds \<le> (8 * n + 8) * 8 ^ length ds" by (intro mult_right_mono) simp_all
  moreover have "(8 * n + 8) * 8 ^ length ds = (n + 1) * 8 ^ length (d # ds)" by (simp add: algebra_simps)
  moreover have "foldl (\<lambda>n d. 8 * n + (unat d - 48)) (8 * n + (unat d - 48)) ds < (8 * n + (unat d - 48) + 1) * 8 ^ length ds"
    using Cons by simp
  ultimately show ?case by simp
qed simp

lemma oct_loop:
  "\<forall>d\<in>set (bytes_at m p n). octal_digit d \<Longrightarrow> n < 2 ^ 64 \<Longrightarrow>
    loop oct_more oct_step (p, of_nat n, num) m =
      Inr ((p + of_nat n, 0, foldl (\<lambda>a d. push_bit 3 a + (ucast d - 0x30)) num (bytes_at m p n)), m)"
proof (induction n arbitrary: p num)
  case (Suc n)
  have "(0 :: u64) < of_nat (Suc n)" using Suc.prems(2) by (rule of_nat_Suc_pos)
  then have "loop oct_more oct_step (p, of_nat (Suc n), num) m =
      loop oct_more oct_step (p + 1, of_nat n, push_bit 3 num + (ucast (m p) - 0x30)) m"
    using Suc.prems(1) by (intro loop_step) (auto simp: Let_def octal_digit_def kern)
  then show ?case using Suc by (simp add: add.assoc)
qed (simp add: loop_stop)

lemma oct_run:
  assumes "\<forall>d\<in>set (bytes_at m p 11). octal_digit d"
  shows "oct_str_to_num p 12 m = Inr (of_nat (octal_value (bytes_at m p 11)), m)"
    "octal_value (bytes_at m p 11) < 2 ^ 33"
proof -
  have "loop oct_more oct_step (p, 11, 0) m = Inr ((p + 11, 0, of_nat (octal_value (bytes_at m p 11))), m)"
    using oct_loop[of m p 11 0] octal_word[OF assms, of 0] assms by (simp add: octal_value_def del: bytes_at.simps)
  then show "oct_str_to_num p 12 m = Inr (of_nat (octal_value (bytes_at m p 11)), m)"
    by (simp add: oct_str_to_num_def bnd_Inr kern)
  show "octal_value (bytes_at m p 11) < 2 ^ 33"
    using octal_bound[OF assms, of 0] by (simp add: octal_value_def del: bytes_at.simps)
qed

section \<open>Walking over the headers\<close>

lemma low9: "unat (take_bit 9 x) = unat x mod 512" for x :: u64
proof -
  have "unat (take_bit 9 x) = take_bit 9 (unat x)" by (rule unsigned_take_bit_eq)
  then show ?thesis by (simp only: take_bit_eq_mod[of 9 "unat x"]) simp
qed

lemma low9_add: "take_bit 9 x = 0 \<Longrightarrow> take_bit 9 (x + y) = take_bit 9 y" for x y :: u64
proof -
  assume "take_bit 9 x = 0"
  then have "unat x mod 512 = 0" using low9[of x] by simp
  then have "(unat x + unat y) mod 512 = unat y mod 512" by (metis add_0 mod_add_left_eq)
  then have "(unat x + unat y) mod 2 ^ 64 mod 512 = unat y mod 512" by (simp add: mod_mod_cancel)
  then show ?thesis by (simp add: word_unat_eq_iff low9 unat_word_ariths)
qed

lemma low9_512: "take_bit 9 (512 * n) = 0" for n :: u64
  by (simp add: word_unat_eq_iff low9 unat_word_ariths mod_mod_cancel)

lemma aligned_512:
  fixes p :: u64
  assumes "take_bit 9 p = 0"
  shows "ALIGNUP (p + x) 512 = p + ALIGNUP x 512"
proof -
  have m: "y AND NOT 511 = y - take_bit 9 y" for y :: u64
  proof -
    have 511: "(511 :: u64) = mask 9" by (simp add: mask_eq_exp_minus_1)
    have "y AND NOT (mask 9) = push_bit 9 (drop_bit 9 y)"
      by (rule bit_word_eqI) (auto simp: bit_simps)
    then show ?thesis using bits_ident[of 9 y] unfolding 511 by (simp add: eq_diff_eq)
  qed
  have "take_bit 9 (p + x + 511) = take_bit 9 (x + 511)"
    using low9_add[OF assms, of "x + 511"] by (simp add: add.assoc)
  then show ?thesis using m[of "p + x + 511"] m[of "x + 511"] by (simp add: ALIGNUP_def)
qed

lemma next_header_eq:
  assumes "take_bit 9 p = 0" "bytes x < 2 ^ 33"
  shows "ALIGNUP (p + 512 + of_nat (bytes x)) 512 = next_header p x" "take_bit 9 (next_header p x) = 0"
proof -
  let ?n = "(bytes x + 511) div 512"
  have u: "unat (of_nat (bytes x) :: u64) = bytes x" using assms(2) by (simp add: unat_of_nat take_bit_nat_eq_self)
  have "unat (ALIGNUP (of_nat (bytes x)) (2 ^ 9)) = ?n * 512"
    using assms(2) by (subst unat_ALIGNUP) (simp_all add: u)
  moreover have "512 * ?n < 2 ^ 64" using assms(2) by simp
  then have "unat (of_nat (512 * ?n) :: u64) = 512 * ?n"
    by (simp add: unat_of_nat take_bit_nat_eq_self del: of_nat_mult)
  ultimately have a: "ALIGNUP (of_nat (bytes x)) 512 = of_nat (512 * ?n)"
    by (simp add: word_unat_eq_iff mult.commute del: of_nat_mult)
  have p: "take_bit 9 (p + 512) = 0" using low9_add[OF assms(1), of 512] by simp
  then show "ALIGNUP (p + 512 + of_nat (bytes x)) 512 = next_header p x"
    by (simp only: aligned_512 a next_header_def)
  show "take_bit 9 (next_header p x) = 0"
    using low9_add[OF p, of "of_nat (512 * ?n)"] low9_512[of "of_nat ?n"] by (simp add: next_header_def)
qed

lemma header_nonnull:
  fixes p :: addr
  assumes "take_bit 9 p = 0"
  shows "p + 257 \<noteq> 0" "p + 263 \<noteq> 0"
proof -
  have "take_bit 9 (p + 257) = take_bit 9 257" "take_bit 9 (p + 263) = take_bit 9 263"
    using low9_add[OF assms, of 257] low9_add[OF assms, of 263] by simp_all
  then show "p + 257 \<noteq> 0" "p + 263 \<noteq> 0" by auto
qed

lemma cstr_nth: "cstr m p xs \<Longrightarrow> i < length xs \<Longrightarrow> m (p + of_nat i) \<noteq> 0"
proof (induction xs arbitrary: p i)
  case (Cons x xs)
  then show ?case using Cons.IH[of "p + 1" "i - 1"] by (cases i) (auto simp: add.assoc)
qed simp

lemma cstr_terminator: "cstr m p xs \<Longrightarrow> m (p + of_nat (length xs)) = 0"
proof (induction xs arbitrary: p)
  case (Cons x xs)
  then show ?case using Cons.IH[of "p + 1"] by (simp add: add.assoc)
qed simp

lemma cstr_length:
  assumes "cstr m p xs"
  shows "length xs < 2 ^ 64"
proof (rule ccontr)
  assume "\<not> length xs < 2 ^ 64"
  then have i: "length xs mod 2 ^ 64 < length xs"
    using mod_less_divisor[of "2 ^ 64" "length xs"] by simp
  have "(of_nat (length xs mod 2 ^ 64) :: u64) = of_nat (length xs)"
    by (simp add: word_unat_eq_iff unat_of_nat take_bit_eq_mod)
  then show False using cstr_nth[OF assms i] cstr_terminator[OF assms] by simp
qed

text \<open>The literals of the code, and a path that \<open>initfs_lookup\<close> accepts.\<close>

definition literals :: "memory \<Rightarrow> addr \<times> addr \<Rightarrow> bool" where
  "literals m lits \<longleftrightarrow> fst lits \<noteq> 0 \<and> snd lits \<noteq> 0 \<and> cstr m (fst lits) (map ch ''ustar'') \<and> bytes_at m (snd lits) 2 = map ch ''00''"

lemma lookup_header:
  assumes "literals (mem s) lits" "cstr (mem s) path xs" "path \<noteq> 0" "xs \<noteq> []" "length xs < 100"
    and "header_at (mem s) p x" "p \<noteq> 0" "take_bit 9 p = 0"
  shows "lookup_step lits path file_ptr file_size (p, None) s =
    (if name x = xs
     then if flag x = TYPE_FLAG_FILE
       then Inr ((p, Some SUCCESS), s\<lparr>mem := st64 file_ptr (p + 512) (st64 file_size (of_nat (bytes x)) (mem s))\<rparr>)
       else Inl AssertFailed
     else Inr ((next_header p x, None), s))"
proof -
  obtain u z where l: "lits = (u, z)" by (cases lits)
  have b: "bytes x < 2 ^ 33" using assms(6) oct_run(2)[of "mem s" "p + 124"] by (auto simp: header_at_def)
  have "str_equal (p + 257) u (mem s) = Inr (True, mem s)"
    using assms by (subst str_equal_decides[where xs = "map ch ''ustar''" and ys = "map ch ''ustar''"])
      (auto simp: l literals_def header_at_def header_nonnull)
  moreover have "str_nequal (p + 263) z 2 (mem s) = Inr (True, mem s)"
    using assms by (subst str_nequal_eq) (auto simp: l literals_def header_at_def header_nonnull)
  moreover have "oct_str_to_num (p + 124) 12 (mem s) = Inr (of_nat (bytes x), mem s)"
    using assms(6) by (subst oct_run) (auto simp: header_at_def)
  moreover have "str_equal p path (mem s) = Inr (name x = xs, mem s)"
    using assms cstr_length[of "mem s" p "name x"] by (intro str_equal_decides) (auto simp: header_at_def)
  ultimately show ?thesis
    using assms(6) next_header_eq(1)[OF assms(8) b]
    by (auto simp: l ustar_layout on_mem_Inr bnd_Inr header_at_def kern)
qed

lemma lookup_loop:
  assumes "literals (mem s) lits" "cstr (mem s) path xs" "path \<noteq> 0" "xs \<noteq> []" "length xs < 100"
    and "archive (mem s) (fs_virt_end (mem s) fs) p es" "take_bit 9 p = 0"
  shows "loop (lookup_more fs) (lookup_step lits path file_ptr file_size) (p, None) s =
    (case find (\<lambda>(q, x). name x = xs) (places p es) of
       Some (q, x) \<Rightarrow> if flag x = TYPE_FLAG_FILE
         then Inr ((q, Some SUCCESS), s\<lparr>mem := st64 file_ptr (q + 512) (st64 file_size (of_nat (bytes x)) (mem s))\<rparr>)
         else Inl AssertFailed
     | None \<Rightarrow> loop (lookup_more fs) (lookup_step lits path file_ptr file_size) (archive_end p es, None) s)"
  using assms(6-7)
proof (induction es arbitrary: p)
  case (Cons x es)
  let ?L = "loop (lookup_more fs) (lookup_step lits path file_ptr file_size)"
  note step = lookup_header[OF assms(1-5), of p x file_ptr file_size]
  have more: "lookup_more fs (p, None) s" using Cons.prems by simp
  have b: "bytes x < 2 ^ 33" using Cons.prems(1) oct_run(2)[of "mem s" "p + 124"] by (auto simp: header_at_def)
  show ?case
  proof (cases "name x = xs")
    case True
    show ?thesis
    proof (cases "flag x = TYPE_FLAG_FILE")
      case f: True
      let ?s = "s\<lparr>mem := st64 file_ptr (p + 512) (st64 file_size (of_nat (bytes x)) (mem s))\<rparr>"
      have "?L (p, None) s = ?L (p, Some SUCCESS) ?s"
        using more by (rule loop_step) (use step Cons.prems True f in simp)
      then show ?thesis using True f by (simp add: loop_stop)
    next
      case False
      have "?L (p, None) s = Inl AssertFailed"
        using more by (rule loop_fault) (use step Cons.prems True False in simp)
      then show ?thesis using True False by simp
    qed
  next
    case False
    have "?L (p, None) s = ?L (next_header p x, None) s"
      using more by (rule loop_step) (use step Cons.prems False in simp)
    then show ?thesis using False Cons.IH[of "next_header p x"] Cons.prems next_header_eq(2)[OF _ b]
      unfolding archive_end.simps by simp
  qed
qed simp

lemma lookup_entry:
  assumes "cstr (mem s) path xs" "path \<noteq> 0" "xs \<noteq> []" "length xs < 100" "file_ptr \<noteq> 0" "file_size \<noteq> 0"
  shows "fs_virt_start (mem s) fs \<noteq> 0 \<Longrightarrow> initfs_lookup lits fs path file_ptr file_size s =
    bnd (loop (lookup_more fs) (lookup_step lits path file_ptr file_size) (fs_virt_start (mem s) fs, None))
      (\<lambda>(hdr, r). ret (case r of Some res \<Rightarrow> res | None \<Rightarrow> fails ENOENT)) s"
proof -
  have "(of_nat (length xs) :: u64) < 100" using assms(4) by (simp add: word_less_nat_alt unat_of_nat take_bit_nat_eq_self)
  moreover have "on_mem (str_length path) s = Inr (of_nat (length xs), s)"
    using str_length_cstr[OF assms(2,1)] by (simp add: on_mem_Inr)
  moreover assume "fs_virt_start (mem s) fs \<noteq> 0"
  ultimately show ?thesis using assms by (simp add: initfs_lookup_def bnd_Inr)
qed

lemma archive_end_aligned: "take_bit 9 p = 0 \<Longrightarrow> archive m e p es \<Longrightarrow> take_bit 9 (archive_end p es) = 0"
proof (induction es arbitrary: p)
  case (Cons x es)
  then show ?case using oct_run(2)[of m "p + 124"] next_header_eq(2)[of p x] by (auto simp: header_at_def)
qed simp

text \<open>C32: Looking up a path in an archive finds the first entry with that name and returns the address behind its
  header and its size, or \<open>-ENOENT\<close> if there is none, and writes nothing else; but it accepts only entries with the
  type flag 1 and stops the machine at any other, so also at the \<open>0\<close> character that marks files in ustar
  archives.\<close>

theorem initfs_lookup_finds:
  assumes "literals (mem s) lits" "cstr (mem s) path xs" "path \<noteq> 0" "xs \<noteq> []" "length xs < 100" "file_ptr \<noteq> 0" "file_size \<noteq> 0"
    and "p = fs_virt_start (mem s) fs" "p \<noteq> 0" "512 dvd unat p" "archive (mem s) (fs_virt_end (mem s) fs) p es"
    and "fs_virt_end (mem s) fs \<le> archive_end p es"
  shows "initfs_lookup lits fs path file_ptr file_size s =
    (case find (\<lambda>(q, x). name x = xs) (places p es) of
       None \<Rightarrow> Inr (fails ENOENT, s)
     | Some (q, x) \<Rightarrow> if flag x = 1
         then Inr (SUCCESS, s\<lparr>mem := st64 file_ptr (q + 512) (st64 file_size (of_nat (bytes x)) (mem s))\<rparr>)
         else Inl AssertFailed)"
proof -
  let ?L = "loop (lookup_more fs) (lookup_step lits path file_ptr file_size)"
  have al: "take_bit 9 p = 0" using assms(10) by (simp add: word_unat_eq_iff low9 dvd_eq_mod_eq_0)
  have "?L (archive_end p es, None) s = Inr ((archive_end p es, None), s)"
    using assms(12) by (simp add: loop_stop not_less)
  then have "?L (p, None) s = (case find (\<lambda>(q, x). name x = xs) (places p es) of
       None \<Rightarrow> Inr ((archive_end p es, None), s)
     | Some (q, x) \<Rightarrow> if flag x = TYPE_FLAG_FILE
         then Inr ((q, Some SUCCESS), s\<lparr>mem := st64 file_ptr (q + 512) (st64 file_size (of_nat (bytes x)) (mem s))\<rparr>)
         else Inl AssertFailed)"
    by (simp add: lookup_loop[OF assms(1-5,11) al] cong: option.case_cong)
  then show ?thesis
    using lookup_entry[OF assms(2-7), of fs lits] assms(8,9)
    by (auto simp: TYPE_FLAG_FILE_def bnd_Inr bnd_Inl kern split: option.splits)
qed

text \<open>An archive that ends the way \<open>tar\<close> ends it, with a block of zeros, stops the machine when a path is not found,
  because the block is taken for a header.\<close>

theorem initfs_lookup_stops_at_the_end_marker:
  assumes "literals (mem s) lits" "cstr (mem s) path xs" "path \<noteq> 0" "xs \<noteq> []" "length xs < 100" "file_ptr \<noteq> 0" "file_size \<noteq> 0"
    and "p = fs_virt_start (mem s) fs" "p \<noteq> 0" "512 dvd unat p" "archive (mem s) (fs_virt_end (mem s) fs) p es"
    and "\<forall>x\<in>set es. name x \<noteq> xs"
    and "archive_end p es < fs_virt_end (mem s) fs" "\<forall>i<512. mem s (archive_end p es + i) = 0"
  shows "initfs_lookup lits fs path file_ptr file_size s = Inl AssertFailed"
proof -
  let ?L = "loop (lookup_more fs) (lookup_step lits path file_ptr file_size)"
  let ?q = "archive_end p es"
  have al: "take_bit 9 p = 0" using assms(10) by (simp add: word_unat_eq_iff low9 dvd_eq_mod_eq_0)
  then have "take_bit 9 ?q = 0" using assms(11) by (rule archive_end_aligned)
  then have "str_equal (?q + 257) (fst lits) (mem s) = Inr (False, mem s)"
    using assms(1,14) by (subst str_equal_decides[where xs = "[]" and ys = "map ch ''ustar''"])
      (auto simp: literals_def header_nonnull)
  then have "on_mem (str_equal (?q + 257) (fst lits)) s = Inr (False, s)"
    using on_mem_Inr[of "str_equal (?q + 257) (fst lits)" s False "mem s"] by simp
  then have "lookup_step lits path file_ptr file_size (?q, None) s = Inl AssertFailed"
    by (cases lits) (simp add: ustar_layout bnd_False)
  then have "?L (?q, None) s = Inl AssertFailed" using assms(13) by (intro loop_fault) simp_all
  moreover have "find (\<lambda>(q, x). name x = xs) (places p es) = None" for p
    using assms(12) by (induction es arbitrary: p) simp_all
  ultimately have "?L (p, None) s = Inl AssertFailed" by (simp add: lookup_loop[OF assms(1-5,11) al])
  then show ?thesis using lookup_entry[OF assms(2-7), of fs lits] assms(8,9) by (simp add: bnd_Inl)
qed

end
