(* ===== verification/Pic.thy ===== *)
theory Pic
  imports Machine
begin

text \<open>
  \<open>cpu/pic.c\<close>: the interrupt controllers. The code drives two cascaded 8259 chips through ports. The
  second half of the theory is a reference for such a chip, from its data sheet: a state machine that
  takes the writes to its two ports; the properties say what the writes of the code make of it.
\<close>

section \<open>The code\<close>

definition PIC1 :: u16 where "PIC1 = 0x20"
definition PIC2 :: u16 where "PIC2 = 0xa0"
definition PIC1_COMM :: u16 where "PIC1_COMM = PIC1 + 0"
definition PIC2_COMM :: u16 where "PIC2_COMM = PIC2 + 0"
definition PIC1_DATA :: u16 where "PIC1_DATA = PIC1 + 1"
definition PIC2_DATA :: u16 where "PIC2_DATA = PIC1 + 1"
definition PIC_EOI :: u8 where "PIC_EOI = 0x20"
definition PIC_DISABLE :: u8 where "PIC_DISABLE = 0xff"
definition PIC_ICW1_ICW4 :: u8 where "PIC_ICW1_ICW4 = 0x01"
definition PIC_ICW1_INIT :: u8 where "PIC_ICW1_INIT = 0x10"
definition PIC_ICW4_8086 :: u8 where "PIC_ICW4_8086 = 0x01"
definition PIC_IRQBASE :: u8 where "PIC_IRQBASE = 0x20"

definition CPUID_STDFN_00000001 :: u32 where "CPUID_STDFN_00000001 = 0x00000001"

definition has_apic :: "(machine, bool) kern" where
  "has_apic = bnd (cpuid CPUID_STDFN_00000001) (\<lambda>regs. ret (edx regs AND push_bit 9 1 = 0))"

definition new_pic_init :: "(machine, status) kern" where
  "new_pic_init =
     thn (io_outb PIC1_DATA PIC_DISABLE)
     (thn (io_outb PIC2_DATA PIC_DISABLE)
     (halt Unimplemented))"

definition old_pic_remap :: "u8 \<Rightarrow> (machine, unit) kern" where
  "old_pic_remap off =
     bnd (io_inb PIC1_DATA) (\<lambda>pic1_mask.
     bnd (io_inb PIC2_DATA) (\<lambda>pic2_mask.
     thn (io_outb PIC1_COMM (PIC_ICW1_INIT OR PIC_ICW1_ICW4)) (thn IOWAIT
     (thn (io_outb PIC2_COMM (PIC_ICW1_INIT OR PIC_ICW1_ICW4)) (thn IOWAIT
     (thn (io_outb PIC1_DATA off) (thn IOWAIT
     (thn (io_outb PIC2_DATA (off + 8)) (thn IOWAIT
     (thn (io_outb PIC1_DATA (push_bit 2 1)) (thn IOWAIT
     (thn (io_outb PIC2_DATA (push_bit 1 1)) (thn IOWAIT
     (thn (io_outb PIC1_DATA PIC_ICW4_8086) (thn IOWAIT
     (thn (io_outb PIC2_DATA PIC_ICW4_8086) (thn IOWAIT
     (thn (io_outb PIC1_DATA pic1_mask)
     (io_outb PIC2_DATA pic2_mask)))))))))))))))))))"

definition old_pic_port :: "u8 \<Rightarrow> u16" where
  "old_pic_port irq = (if irq < 8 then PIC1_DATA else PIC2_DATA)"

definition old_pic_mask :: "u8 \<Rightarrow> (machine, unit) kern" where
  "old_pic_mask irq =
     (let port = old_pic_port irq; irq = irq AND 7 in
      bnd (io_inb port) (\<lambda>v. io_outb port (v OR push_bit (unat irq) 1)))"

definition old_pic_unmask :: "u8 \<Rightarrow> (machine, unit) kern" where
  "old_pic_unmask irq =
     (let port = old_pic_port irq; irq = irq AND 7 in
      bnd (io_inb port) (\<lambda>v. io_outb port (v AND NOT (push_bit (unat irq) 1))))"

definition old_pic_ack :: "u8 \<Rightarrow> (machine, unit) kern" where
  "old_pic_ack irq =
     (if irq < PIC_IRQBASE then ret ()
      else let irq = irq - PIC_IRQBASE in
        thn (if irq \<ge> 8 then io_outb PIC2_COMM PIC_EOI else ret ()) (io_outb PIC1_COMM PIC_EOI))"

definition old_pic_init :: "(machine, status) kern" where
  "old_pic_init =
     thn (old_pic_remap PIC_IRQBASE)
     (thn (io_outb PIC1_DATA PIC_DISABLE)
     (thn (io_outb PIC2_DATA PIC_DISABLE)
     (ret SUCCESS)))"

definition pic_ack :: "u8 \<Rightarrow> (machine, unit) kern" where
  "pic_ack irq = bnd (gets use_new_pic) (\<lambda>new. if new then halt Unimplemented else old_pic_ack irq)"

definition pic_mask :: "u8 \<Rightarrow> (machine, unit) kern" where
  "pic_mask irq = bnd (gets use_new_pic) (\<lambda>new. if new then halt Unimplemented else old_pic_mask irq)"

definition pic_unmask :: "u8 \<Rightarrow> (machine, unit) kern" where
  "pic_unmask irq = bnd (gets use_new_pic) (\<lambda>new. if new then halt Unimplemented else old_pic_unmask irq)"

definition pic_init :: "(machine, status) kern" where
  "pic_init =
     bnd has_apic (\<lambda>apic.
     thn (modify (\<lambda>s. s\<lparr>use_new_pic := apic\<rparr>))
     (if apic then new_pic_init else old_pic_init))"

section \<open>The chip\<close>

text \<open>
  A write of \<open>ICW1\<close> (bit 4 set) to the command port starts the initialisation: the next writes to the
  data port are the vector offset \<open>ICW2\<close>, the cascade word \<open>ICW3\<close> (unless bit 1 of \<open>ICW1\<close> says that the
  chip is alone) and the mode \<open>ICW4\<close> (if bit 0 of \<open>ICW1\<close> asks for it). After that the data port is the
  mask. Bit 0 of \<open>ICW4\<close> selects the interrupt sequence of the 8086; other command words that are end
  of interrupt are counted.
\<close>

datatype chip_stage = Fresh | Want_ICW2 | Want_ICW3 | Want_ICW4 | Running

record chip =
  stage :: chip_stage
  alone :: bool
  needs_icw4 :: bool
  offset :: u8
  cascade :: u8
  mode :: u8
  imr :: u8
  eois :: nat

definition chip_reset :: chip where
  "chip_reset = \<lparr>stage = Fresh, alone = False, needs_icw4 = False, offset = 0, cascade = 0, mode = 0, imr = 0, eois = 0\<rparr>"

definition after_icw3 :: "chip \<Rightarrow> chip_stage" where
  "after_icw3 c = (if needs_icw4 c then Want_ICW4 else Running)"

definition chip_command :: "u8 \<Rightarrow> chip \<Rightarrow> chip" where
  "chip_command b c =
     (if bit b 4 then c\<lparr>stage := Want_ICW2, alone := bit b 1, needs_icw4 := bit b 0, imr := 0, mode := 0\<rparr>
      else if b = 0x20 then c\<lparr>eois := eois c + 1\<rparr> else c)"

definition chip_data :: "u8 \<Rightarrow> chip \<Rightarrow> chip" where
  "chip_data b c =
     (case stage c of
        Want_ICW2 \<Rightarrow> c\<lparr>offset := b, stage := if alone c then after_icw3 c else Want_ICW3\<rparr>
      | Want_ICW3 \<Rightarrow> c\<lparr>cascade := b, stage := after_icw3 c\<rparr>
      | Want_ICW4 \<Rightarrow> c\<lparr>mode := b, stage := Running\<rparr>
      | _ \<Rightarrow> c\<lparr>imr := b\<rparr>)"

fun chip_event :: "u16 \<Rightarrow> io_event \<Rightarrow> chip \<Rightarrow> chip" where
  "chip_event base (Out p b) c =
     (if p = base then chip_command b c else if p = base + 1 then chip_data b c else c)"
| "chip_event base (In p b) c = c"

text \<open>The chip at \<open>base\<close> after the accesses \<open>tr\<close>.\<close>

definition chip_after :: "u16 \<Rightarrow> io_event list \<Rightarrow> chip \<Rightarrow> chip" where
  "chip_after base tr c = fold (chip_event base) tr c"

lemma chip_after_append: "chip_after base (tr @ tr') c = chip_after base tr' (chip_after base tr c)"
  by (simp add: chip_after_def)

lemmas pic_ports = PIC1_def PIC2_def PIC1_COMM_def PIC2_COMM_def PIC1_DATA_def PIC2_DATA_def

lemmas pic_words = PIC_EOI_def PIC_DISABLE_def PIC_ICW1_ICW4_def PIC_ICW1_INIT_def PIC_ICW4_8086_def PIC_IRQBASE_def

section \<open>What the code does to the chips\<close>

lemma old_pic_init_run:
  "\<exists>m1 m2. old_pic_init s = Inr (SUCCESS, s\<lparr>trace := trace s @
     [In 0x21 m1, In 0x21 m2, Out 0x20 0x11, Out 0x80 0, Out 0xa0 0x11, Out 0x80 0, Out 0x21 0x20, Out 0x80 0,
      Out 0x21 0x28, Out 0x80 0, Out 0x21 4, Out 0x80 0, Out 0x21 2, Out 0x80 0, Out 0x21 1, Out 0x80 0,
      Out 0x21 1, Out 0x80 0, Out 0x21 m1, Out 0x21 m2, Out 0x21 0xff, Out 0x21 0xff]\<rparr>)"
proof -
  obtain m1 where m1: "device s (trace s) 0x21 = m1" by simp
  obtain m2 where m2: "device s (trace s @ [In 0x21 m1]) 0x21 = m2" by simp
  show ?thesis
    by (intro exI[of _ m1] exI[of _ m2])
      (simp add: old_pic_init_def old_pic_remap_def thn_def bnd_def pic_ports pic_words kern IOWAIT_def m1 m2)
qed


text \<open>The words of \<open>old_pic_init\<close>, and what the two chips make of them.\<close>

definition init_writes :: "u8 \<Rightarrow> u8 \<Rightarrow> io_event list" where
  "init_writes m1 m2 =
     [In 0x21 m1, In 0x21 m2, Out 0x20 0x11, Out 0x80 0, Out 0xa0 0x11, Out 0x80 0, Out 0x21 0x20, Out 0x80 0,
      Out 0x21 0x28, Out 0x80 0, Out 0x21 4, Out 0x80 0, Out 0x21 2, Out 0x80 0, Out 0x21 1, Out 0x80 0,
      Out 0x21 1, Out 0x80 0, Out 0x21 m1, Out 0x21 m2, Out 0x21 0xff, Out 0x21 0xff]"

lemma init_writes_second: "stage (chip_after 0xa0 (init_writes m1 m2) c) = Want_ICW2"
  by (simp add: chip_after_def init_writes_def) (simp add: chip_command_def)

lemma init_writes_first:
  "chip_after 0x20 (init_writes m1 m2) c =
     c\<lparr>stage := Running, alone := False, needs_icw4 := True, offset := 0x20, cascade := 0x28, mode := 4, imr := 0xff\<rparr>"
  apply (simp add: chip_after_def init_writes_def)
  apply (simp add: chip_command_def)
  apply (simp add: chip_data_def after_icw3_def)
  done

text \<open>C37: Initialising the old controllers leaves both chips unusable: the second one still waits for its
  vector offset, because its data port is never written, and the first one has got the second offset as
  its cascade word and is not in 8086 mode.\<close>

theorem old_pic_init_spoils_both_chips:
  "\<exists>s' tr. old_pic_init s = Inr (SUCCESS, s') \<and> trace s' = trace s @ tr \<and>
     stage (chip_after PIC2 tr c2) = Want_ICW2 \<and> stage (chip_after PIC1 tr c1) = Running \<and>
     offset (chip_after PIC1 tr c1) = PIC_IRQBASE \<and> cascade (chip_after PIC1 tr c1) = PIC_IRQBASE + 8 \<and>
     \<not> bit (mode (chip_after PIC1 tr c1)) 0 \<and> imr (chip_after PIC1 tr c1) = PIC_DISABLE"
proof -
  obtain m1 m2 where r: "old_pic_init s = Inr (SUCCESS, s\<lparr>trace := trace s @ init_writes m1 m2\<rparr>)"
    using old_pic_init_run init_writes_def by metis
  have "\<not> bit (4 :: u8) 0" by simp
  then show ?thesis
    by (intro exI[of _ "s\<lparr>trace := trace s @ init_writes m1 m2\<rparr>"] exI[of _ "init_writes m1 m2"])
      (simp add: r PIC1_def PIC2_def pic_words init_writes_first init_writes_second)
qed

text \<open>\<open>pic_init\<close> tests the feature bit the wrong way round: with an APIC it sets up the old controllers, and
  without one it stops at the unimplemented APIC code.\<close>

theorem pic_init_inverts_the_apic_bit:
  "if bit (edx (cpuid_of s 1)) 9
   then \<exists>s'. pic_init s = Inr (SUCCESS, s') \<and> \<not> use_new_pic s'
   else pic_init s = Inl Unimplemented"
proof -
  have b: "edx (cpuid_of s 1) AND 512 = 0 \<longleftrightarrow> \<not> bit (edx (cpuid_of s 1)) 9"
    using and_exp_eq_0_iff_not_bit[of "edx (cpuid_of s 1)" 9] by simp
  let ?s = "s\<lparr>use_new_pic := False\<rparr>"
  obtain s' where s': "old_pic_init ?s = Inr (SUCCESS, s')" "\<not> use_new_pic s'" using old_pic_init_run[of ?s] by auto
  show ?thesis
    using s' by (simp add: pic_init_def has_apic_def cpuid_def CPUID_STDFN_00000001_def new_pic_init_def b bnd_Inr kern)
qed

lemma pic_ack_run:
  "\<not> use_new_pic s \<Longrightarrow> pic_ack irq s = Inr ((), s\<lparr>trace := trace s @
     (if irq < 0x20 then [] else if irq < 0x28 then [Out 0x20 0x20] else [Out 0xa0 0x20, Out 0x20 0x20])\<rparr>)"
proof -
  assume n: "\<not> use_new_pic s"
  have "8 \<le> irq - 0x20 \<longleftrightarrow> 0x28 \<le> irq" if "0x20 \<le> irq"
    using that by (auto simp: word_le_nat_alt unat_sub_if')
  then show ?thesis using n
    by (auto simp: pic_ack_def old_pic_ack_def Let_def pic_ports pic_words thn_def bnd_def kern not_less)
qed

text \<open>\<open>pic_ack\<close> tells exactly the chips that took part in an interrupt that it has ended: none for an
  exception, the first one for its eight lines, both for the lines of the second.\<close>

theorem pic_ack_ends_interrupts:
  assumes "\<not> use_new_pic s"
  shows "\<exists>s' tr. pic_ack irq s = Inr ((), s') \<and> trace s' = trace s @ tr \<and>
    chip_after PIC1 tr c = (if irq < PIC_IRQBASE then c else c\<lparr>eois := eois c + 1\<rparr>) \<and>
    chip_after PIC2 tr c = (if irq < PIC_IRQBASE + 8 then c else c\<lparr>eois := eois c + 1\<rparr>)"
proof -
  have "irq < 0x20 \<Longrightarrow> irq < 0x28" by (simp add: word_less_nat_alt)
  then show ?thesis
    using pic_ack_run[OF assms, of irq]
    by (simp add: chip_after_def PIC1_def PIC2_def pic_words chip_command_def)
qed

lemma pic_unmask_run:
  "\<not> use_new_pic s \<Longrightarrow> pic_unmask irq s = Inr ((), s\<lparr>trace := trace s @ [In 0x21 (device s (trace s) 0x21),
     Out 0x21 (device s (trace s) 0x21 AND NOT (push_bit (unat (irq AND 7)) 1))]\<rparr>)"
  by (simp add: pic_unmask_def old_pic_unmask_def old_pic_port_def Let_def pic_ports kern)

lemma pic_mask_run:
  "\<not> use_new_pic s \<Longrightarrow> pic_mask irq s = Inr ((), s\<lparr>trace := trace s @ [In 0x21 (device s (trace s) 0x21),
     Out 0x21 (device s (trace s) 0x21 OR push_bit (unat (irq AND 7)) 1)]\<rparr>)"
  by (simp add: pic_mask_def old_pic_mask_def old_pic_port_def Let_def pic_ports kern)

end
