(* ===== verification/Gdt.thy ===== *)
theory Gdt
  imports Machine
begin

text \<open>
  \<open>cpu/gdt.h\<close> and \<open>cpu/gdt.S\<close>: the segment descriptors and their loading. A descriptor is the list of the bytes that
  the assembler emits for it. The reference is the way the processor reads a descriptor.
\<close>

section \<open>Descriptors\<close>

definition shorts :: "u64 \<Rightarrow> u8 list" where
  "shorts v = [byte_of v 0, byte_of v 1]"

definition longs :: "u64 \<Rightarrow> u8 list" where
  "longs v = [byte_of v 0, byte_of v 1, byte_of v 2, byte_of v 3]"

definition GDTENTRY :: "u64 \<Rightarrow> u64 \<Rightarrow> u64 \<Rightarrow> u64 \<Rightarrow> u8 list" where
  "GDTENTRY base limit access flags =
     shorts (limit AND 0xffff) @ shorts (base AND 0xffff) @
     [ucast (drop_bit 16 base AND 0xff), ucast access, ucast (push_bit 4 flags OR (drop_bit 16 limit AND 0xf)),
      ucast (drop_bit 24 base AND 0xff)]"

definition GDTSYSENTRY :: "u64 \<Rightarrow> u64 \<Rightarrow> u64 \<Rightarrow> u64 \<Rightarrow> u8 list" where
  "GDTSYSENTRY base limit access flags = GDTENTRY base limit access flags @ longs (drop_bit 32 base) @ longs 0"

definition ACCESS_PRESENT :: u64 where "ACCESS_PRESENT = push_bit 7 1"
definition ACCESS_PRIVILEGELEVEL :: "u64 \<Rightarrow> u64" where "ACCESS_PRIVILEGELEVEL l = push_bit 5 (l AND 0b11)"
definition ACCESS_NORMALSEGMENT :: u64 where "ACCESS_NORMALSEGMENT = push_bit 4 1"
definition ACCESS_EXECUTABLE :: u64 where "ACCESS_EXECUTABLE = push_bit 3 1"
definition ACCESS_READWRITE :: u64 where "ACCESS_READWRITE = push_bit 1 1"
definition FLAGS_GRANULARITY :: u64 where "FLAGS_GRANULARITY = push_bit 3 1"
definition FLAGS_PROTECTEDMODE :: u64 where "FLAGS_PROTECTEDMODE = push_bit 2 1"
definition FLAGS_LONGMODE :: u64 where "FLAGS_LONGMODE = push_bit 1 1"

definition PL :: "u8 \<Rightarrow> u8" where
  "PL p = p AND 0b11"

lemmas access_defs = ACCESS_PRESENT_def ACCESS_PRIVILEGELEVEL_def ACCESS_NORMALSEGMENT_def ACCESS_EXECUTABLE_def ACCESS_READWRITE_def
  FLAGS_GRANULARITY_def FLAGS_PROTECTEDMODE_def FLAGS_LONGMODE_def

section \<open>The table of the kernel\<close>

datatype gdt_label = Null | Kernel_code | Kernel_data | User_code | User_data

definition gdt_labels :: "gdt_label list" where
  "gdt_labels = [Null, Kernel_code, Kernel_data, User_code, User_data]"

fun gdt_entry :: "gdt_label \<Rightarrow> u8 list" where
  "gdt_entry Null = GDTENTRY 0 0 0 0"
| "gdt_entry Kernel_code = GDTENTRY 0x0000000000000000 0xfffff
     (ACCESS_PRESENT + ACCESS_PRIVILEGELEVEL 0 + ACCESS_NORMALSEGMENT + ACCESS_EXECUTABLE + ACCESS_READWRITE)
     (FLAGS_GRANULARITY + FLAGS_LONGMODE)"
| "gdt_entry Kernel_data = GDTENTRY 0x0000000000000000 0xfffff
     (ACCESS_PRESENT + ACCESS_PRIVILEGELEVEL 0 + ACCESS_NORMALSEGMENT + ACCESS_READWRITE)
     (FLAGS_GRANULARITY + FLAGS_LONGMODE)"
| "gdt_entry User_code = GDTENTRY 0x0000000000000000 0xfffff
     (ACCESS_PRESENT + ACCESS_PRIVILEGELEVEL 3 + ACCESS_NORMALSEGMENT + ACCESS_EXECUTABLE + ACCESS_READWRITE)
     (FLAGS_GRANULARITY + FLAGS_LONGMODE)"
| "gdt_entry User_data = GDTENTRY 0x0000000000000000 0xfffff
     (ACCESS_PRESENT + ACCESS_PRIVILEGELEVEL 3 + ACCESS_NORMALSEGMENT + ACCESS_READWRITE)
     (FLAGS_GRANULARITY + FLAGS_LONGMODE)"

definition gdt :: "u8 list" where
  "gdt = concat (map gdt_entry gdt_labels)"

text \<open>The offset of a label from the start of the table.\<close>

definition GDTOFFSET :: "gdt_label \<Rightarrow> u64" where
  "GDTOFFSET s = of_nat (length (concat (map gdt_entry (takeWhile (\<lambda>x. x \<noteq> s) gdt_labels))))"

definition KERNEL_CS :: u64 where "KERNEL_CS = GDTOFFSET Kernel_code"
definition KERNEL_DS :: u64 where "KERNEL_DS = GDTOFFSET Kernel_data"
definition USER_CS :: u64 where "USER_CS = GDTOFFSET User_code"
definition USER_DS :: u64 where "USER_DS = GDTOFFSET User_data"

definition gdt_load :: "(machine, unit) kern" where
  "gdt_load =
     thn (modify (\<lambda>s. s\<lparr>gdtr := (of_nat (length gdt) - 1, a_gdt s)\<rparr>))
     (thn (modify (\<lambda>s. s\<lparr>seg_regs := (seg_regs s)(CS := ucast KERNEL_CS)\<rparr>))
     (modify (\<lambda>s. s\<lparr>seg_regs := (seg_regs s)(DS := ucast KERNEL_DS, ES := ucast KERNEL_DS, FS := ucast KERNEL_DS,
       GS := ucast KERNEL_DS, SS := ucast KERNEL_DS)\<rparr>)))"

section \<open>What the processor reads\<close>

record segment_descriptor =
  seg_base :: u32
  seg_limit :: u32
  seg_present :: bool
  seg_level :: u8
  seg_normal :: bool
  seg_code :: bool
  seg_rw :: bool
  seg_pages :: bool
  seg_32bit :: bool
  seg_long :: bool

definition segment_of :: "u8 list \<Rightarrow> segment_descriptor" where
  "segment_of bs =
     \<lparr>seg_base = ucast (bs ! 2) OR push_bit 8 (ucast (bs ! 3)) OR push_bit 16 (ucast (bs ! 4)) OR push_bit 24 (ucast (bs ! 7)),
      seg_limit = ucast (bs ! 0) OR push_bit 8 (ucast (bs ! 1)) OR push_bit 16 (take_bit 4 (ucast (bs ! 6))),
      seg_present = bit (bs ! 5) 7, seg_level = take_bit 2 (drop_bit 5 (bs ! 5)), seg_normal = bit (bs ! 5) 4,
      seg_code = bit (bs ! 5) 3, seg_rw = bit (bs ! 5) 1, seg_pages = bit (bs ! 6) 7, seg_32bit = bit (bs ! 6) 6,
      seg_long = bit (bs ! 6) 5\<rparr>"

text \<open>The descriptor that a selector chooses: the low three bits are a privilege level and the table.\<close>

definition selected :: "u8 list \<Rightarrow> u16 \<Rightarrow> segment_descriptor" where
  "selected table sel = segment_of (take 8 (drop (8 * unat (drop_bit 3 sel)) table))"

lemma segment_of_entry:
  "segment_of (GDTENTRY base limit access flags) =
     \<lparr>seg_base = ucast base, seg_limit = ucast (take_bit 20 limit), seg_present = bit access 7,
      seg_level = ucast (take_bit 2 (drop_bit 5 access)), seg_normal = bit access 4, seg_code = bit access 3, seg_rw = bit access 1,
      seg_pages = bit flags 3, seg_32bit = bit flags 2, seg_long = bit flags 1\<rparr>"
proof -
  let ?b = "GDTENTRY base limit access flags"
  have ff: "x AND 0xff = take_bit 8 x" "x AND 0xf = take_bit 4 x" "x AND 0xffff = take_bit 16 x" for x :: u64
    by (simp_all add: take_bit_eq_mask mask_eq_exp_minus_1)
  have b: "?b ! 0 = byte_of (take_bit 16 limit) 0" "?b ! 1 = byte_of (take_bit 16 limit) 1" "?b ! 2 = byte_of (take_bit 16 base) 0"
    "?b ! 3 = byte_of (take_bit 16 base) 1" "?b ! 4 = ucast (take_bit 8 (drop_bit 16 base))" "?b ! 5 = ucast access"
    "?b ! 6 = ucast (push_bit 4 flags OR take_bit 4 (drop_bit 16 limit))" "?b ! 7 = ucast (take_bit 8 (drop_bit 24 base))"
    by (simp_all add: GDTENTRY_def shorts_def ff)
  have base: "ucast (?b ! 2) OR push_bit 8 (ucast (?b ! 3)) OR push_bit 16 (ucast (?b ! 4)) OR push_bit 24 (ucast (?b ! 7)) = (ucast base :: u32)"
  proof (rule bit_word_eqI)
    fix n assume n: "n < LENGTH(32)"
    consider "n < 8" | "8 \<le> n \<and> n < 16" | "16 \<le> n \<and> n < 24" | "24 \<le> n" by linarith
    then show "bit (ucast (?b ! 2) OR push_bit 8 (ucast (?b ! 3)) OR push_bit 16 (ucast (?b ! 4)) OR push_bit 24 (ucast (?b ! 7)) :: u32) n =
        bit (ucast base :: u32) n"
      unfolding b using n by cases (auto simp: bit_simps bit_byte_of)
  qed
  have limit: "ucast (?b ! 0) OR push_bit 8 (ucast (?b ! 1)) OR push_bit 16 (take_bit 4 (ucast (?b ! 6))) = (ucast (take_bit 20 limit) :: u32)"
  proof (rule bit_word_eqI)
    fix n assume n: "n < LENGTH(32)"
    consider "n < 8" | "8 \<le> n \<and> n < 16" | "16 \<le> n \<and> n < 20" | "20 \<le> n" by linarith
    then show "bit (ucast (?b ! 0) OR push_bit 8 (ucast (?b ! 1)) OR push_bit 16 (take_bit 4 (ucast (?b ! 6))) :: u32) n =
        bit (ucast (take_bit 20 limit) :: u32) n"
      unfolding b using n by cases (auto simp: bit_simps bit_byte_of)
  qed
  have lvl: "take_bit 2 (drop_bit 5 (?b ! 5)) = (ucast (take_bit 2 (drop_bit 5 access)) :: u8)"
    by (rule bit_word_eqI) (auto simp: b bit_simps)
  have bits: "bit (?b ! 5) 7 = bit access 7" "bit (?b ! 5) 4 = bit access 4" "bit (?b ! 5) 3 = bit access 3" "bit (?b ! 5) 1 = bit access 1"
    "bit (?b ! 6) 7 = bit flags 3" "bit (?b ! 6) 6 = bit flags 2" "bit (?b ! 6) 5 = bit flags 1"
    by (simp_all add: b bit_simps)
  show ?thesis unfolding segment_of_def base limit lvl bits ..
qed

text \<open>A descriptor written with \<open>GDTENTRY\<close> reads back: the processor finds the low 32 bits of the base, the low 20 bits of
  the limit, the access byte and the four flags.\<close>

theorem gdt_entry_roundtrip:
  "segment_of (GDTENTRY base limit access flags) =
     \<lparr>seg_base = ucast base, seg_limit = ucast (take_bit 20 limit), seg_present = bit access 7,
      seg_level = ucast (take_bit 2 (drop_bit 5 access)), seg_normal = bit access 4, seg_code = bit access 3, seg_rw = bit access 1,
      seg_pages = bit flags 3, seg_32bit = bit flags 2, seg_long = bit flags 1\<rparr>"
  by (rule segment_of_entry)

lemma gdt_entry_length: "length (gdt_entry x) = 8"
  by (cases x) (simp_all add: GDTENTRY_def shorts_def)

lemma selectors: "KERNEL_CS = 8" "KERNEL_DS = 16" "USER_CS = 24" "USER_DS = 32"
  by (simp_all add: KERNEL_CS_def KERNEL_DS_def USER_CS_def USER_DS_def GDTOFFSET_def gdt_labels_def gdt_entry_length del: gdt_entry.simps)

text \<open>C35: \<open>gdt_load\<close> leaves every segment register on a descriptor inside the limit of the table: the code register on a present,
  executable 64 bit segment and the others on a present, writable data segment, all for level 0 with base 0. The segments
  for user code have level 3.\<close>

theorem gdt_load_selects_kernel_segments:
  "\<exists>s'. gdt_load s = Inr ((), s') \<and> gdtr s' = (39, a_gdt s) \<and>
    (\<forall>r. unat (seg_regs s' r) + 7 \<le> unat (fst (gdtr s')) \<and>
      (let d = selected gdt (seg_regs s' r) in seg_present d \<and> seg_base d = 0 \<and> seg_level d = 0 \<and> seg_normal d \<and> seg_rw d \<and>
        seg_code d = (r = CS) \<and> seg_long d \<and> \<not> seg_32bit d)) \<and>
    seg_level (selected gdt (ucast USER_CS)) = 3 \<and> seg_level (selected gdt (ucast USER_DS)) = 3"
proof -
  have len: "length gdt = 40" by (simp add: gdt_def gdt_labels_def gdt_entry_length del: gdt_entry.simps)
  have d: "selected gdt 8 = segment_of (gdt_entry Kernel_code)" "selected gdt 16 = segment_of (gdt_entry Kernel_data)"
    "selected gdt 24 = segment_of (gdt_entry User_code)" "selected gdt 32 = segment_of (gdt_entry User_data)"
    by (simp_all add: selected_def gdt_def gdt_labels_def gdt_entry_length drop_bit_eq_div del: gdt_entry.simps)
  have r: "segment_of (gdt_entry Kernel_code) = \<lparr>seg_base = 0, seg_limit = 0xfffff, seg_present = True, seg_level = 0,
      seg_normal = True, seg_code = True, seg_rw = True, seg_pages = True, seg_32bit = False, seg_long = True\<rparr>"
    "segment_of (gdt_entry Kernel_data) = \<lparr>seg_base = 0, seg_limit = 0xfffff, seg_present = True, seg_level = 0,
      seg_normal = True, seg_code = False, seg_rw = True, seg_pages = True, seg_32bit = False, seg_long = True\<rparr>"
    "seg_level (segment_of (gdt_entry User_code)) = 3" "seg_level (segment_of (gdt_entry User_data)) = 3"
    by (simp_all add: segment_of_entry access_defs take_bit_eq_mask mask_eq_exp_minus_1 drop_bit_eq_div)
  let ?s = "s\<lparr>gdtr := (39, a_gdt s), seg_regs := (\<lambda>r. if r = CS then 8 else 16)\<rparr>"
  have "(seg_regs s)(CS := 8, DS := 16, ES := 16, FS := 16, GS := 16, SS := 16) = (\<lambda>r. if r = CS then 8 else 16)"
  proof
    fix r show "((seg_regs s)(CS := 8, DS := 16, ES := 16, FS := 16, GS := 16, SS := 16)) r = (if r = CS then 8 else 16)"
      by (cases r) simp_all
  qed
  then have run: "gdt_load s = Inr ((), ?s)" by (simp add: gdt_load_def selectors len kern)
  show ?thesis
    by (intro exI[of _ ?s] conjI allI) (simp_all add: run Let_def selectors d r del: gdt_entry.simps)
qed

end
