(* ===== verification/Isr.thy ===== *)
theory Isr
  imports Pic Gdt
begin

text \<open>
  \<open>cpu/isr.c\<close> and \<open>cpu/isr.h\<close>: the interrupt descriptor table and the table of handlers, both in memory, and the
  dispatcher that the assembly stubs call. A handler is a function pointer; \<open>call\<close> stands for calling
  one on the address of the frame that the stub has pushed. The reference is the way the processor
  reads a descriptor, \<open>gate_of\<close>.
\<close>

section \<open>Accesses of 16 bits\<close>

definition st16 :: "addr \<Rightarrow> u16 \<Rightarrow> memory \<Rightarrow> memory" where
  "st16 a v m = (\<lambda>x. if x - a < 2 then byte_of v (unat (x - a)) else m x)"

definition ld16 :: "memory \<Rightarrow> addr \<Rightarrow> u16" where
  "ld16 m a = ucast (m a) OR push_bit 8 (ucast (m (a + 1)))"

lemma ld16_st16_same [simp]: "ld16 (st16 a v m) a = v"
proof (rule bit_word_eqI)
  fix n assume "n < LENGTH(16)"
  then show "bit (ld16 (st16 a v m) a) n = bit v n"
    by (auto simp: ld16_def st16_def bit_simps bit_byte_of word_less_nat_alt dest: bit_imp_le_length)
qed

lemma ld16_agree: "agree a 2 m m' \<Longrightarrow> ld16 m' a = ld16 m a"
  by (simp add: ld16_def agree_def)

lemma ld32_agree': "agree a 4 m m' \<Longrightarrow> ld32 m' a = ld32 m a"
  by (rule ld32_agree) (simp add: agree_def)

lemma agree_st16: "sep a n b 2 \<Longrightarrow> agree a n m (st16 b v m)"
  using sep_outside by (fastforce simp: agree_def st16_def)

lemma agree_st32: "sep a n b 4 \<Longrightarrow> agree a n m (st32 b v m)"
  using sep_outside by (fastforce simp: agree_def st32_def)

text \<open>Assignments to memory by the drivers.\<close>

definition poke :: "(memory \<Rightarrow> memory) \<Rightarrow> (machine, unit) kern" where
  "poke f = on_kernel (wr f)"

abbreviation with_ram :: "machine \<Rightarrow> memory \<Rightarrow> machine" where
  "with_ram s m \<equiv> s\<lparr>kernel := (kernel s)\<lparr>mem := m\<rparr>\<rparr>"

lemma poke_apply [kern]: "poke f s = Inr ((), with_ram s (f (ram s)))"
  by (simp add: poke_def on_kernel_Inr[OF wr_apply])

lemma poke_thn [simp]: "thn (poke f) k s = k (with_ram s (f (ram s)))"
  by (simp add: thn_Inr[OF poke_apply])

section \<open>The descriptor table\<close>

definition MAX_IDT_ENTRIES :: nat where "MAX_IDT_ENTRIES = 256"

text \<open>The fields of \<open>struct idt_entry\<close>: offsets of the whole ones, bit fields of the bytes 4 and 5.\<close>

definition ist :: bitfield where "ist = (0, 2)"
definition gate_type :: bitfield where "gate_type = (0, 4)"
definition zero :: bitfield where "zero = (4, 1)"
definition dpl :: bitfield where "dpl = (5, 2)"
definition gate_present :: bitfield where "gate_present = (7, 1)"

datatype gate = GATE_INTERRUPT | GATE_TRAP

fun gate_code :: "gate \<Rightarrow> u8" where
  "gate_code GATE_INTERRUPT = 0xe"
| "gate_code GATE_TRAP = 0xf"

definition set_idt_entry :: "addr \<Rightarrow> addr \<Rightarrow> gate \<Rightarrow> (machine, unit) kern" where
  "set_idt_entry entry address type =
     (let cs = ucast KERNEL_CS :: u16 in
      thn (poke (st16 entry (ucast (drop_bit 0 address AND 0xffff))))
     (thn (poke (st16 (entry + 6) (ucast (drop_bit 16 address AND 0xffff))))
     (thn (poke (st32 (entry + 8) (ucast (drop_bit 32 address) AND 0xffffffff)))
     (thn (poke (st16 (entry + 2) cs))
     (thn (poke (\<lambda>m. m(entry + 4 := set_field ist 0 (m (entry + 4)))))
     (thn (poke (\<lambda>m. m(entry + 5 := set_field gate_type (gate_code type AND 0xf) (m (entry + 5)))))
     (thn (poke (\<lambda>m. m(entry + 5 := set_field zero 0 (m (entry + 5)))))
     (thn (poke (\<lambda>m. m(entry + 5 := set_field gate_present 1 (m (entry + 5)))))
     (poke (\<lambda>m. m(entry + 5 := set_field dpl (PL 0) (m (entry + 5)))))))))))))"

definition idt_slot :: "addr \<Rightarrow> nat \<Rightarrow> addr" where
  "idt_slot base n = base + of_nat (16 * n)"

definition TRAP :: "nat \<Rightarrow> (machine, unit) kern" where
  "TRAP n = bnd (gets (\<lambda>s. (a_idt s, a_isr s n))) (\<lambda>(idt, isr). set_idt_entry (idt_slot idt n) isr GATE_TRAP)"

definition INTERRUPT :: "nat \<Rightarrow> (machine, unit) kern" where
  "INTERRUPT n = bnd (gets (\<lambda>s. (a_idt s, a_isr s n))) (\<lambda>(idt, isr). set_idt_entry (idt_slot idt n) isr GATE_INTERRUPT)"

fun in_turn :: "('a \<Rightarrow> ('s, unit) kern) \<Rightarrow> 'a list \<Rightarrow> ('s, unit) kern" where
  "in_turn f [] = ret ()"
| "in_turn f (x # xs) = thn (f x) (in_turn f xs)"

text \<open>The operand of \<open>lidt\<close>: the size of the table less one, and its address.\<close>

definition idtr_value :: "addr \<Rightarrow> u16 \<times> addr" where
  "idtr_value idt = (of_nat (16 * MAX_IDT_ENTRIES) - 1, idt)"

definition lidt :: "(machine, unit) kern" where
  "lidt = modify (\<lambda>s. s\<lparr>idtr := idtr_value (a_idt s)\<rparr>)"

definition isr_init :: "(machine, unit) kern" where
  "isr_init =
     bnd (gets a_isrs) (\<lambda>isrs.
     thn (on_kernel (on_mem (mem_set isrs 0 (of_nat (8 * MAX_IDT_ENTRIES)))))
     (thn (in_turn TRAP [0, 1])
     (thn (INTERRUPT 2)
     (thn (in_turn TRAP [3..<32])
     (thn (in_turn INTERRUPT [32..<48])
     lidt)))))"

section \<open>The handlers\<close>

definition isr_slot :: "addr \<Rightarrow> u64 \<Rightarrow> addr" where
  "isr_slot isrs n = isrs + 8 * n"

definition isr_register :: "u64 \<Rightarrow> addr \<Rightarrow> addr \<Rightarrow> (machine, unit) kern" where
  "isr_register irq handler old_handler =
     bnd (gets a_isrs) (\<lambda>isrs.
     thn (asrt (0 \<le> irq \<and> irq < of_nat MAX_IDT_ENTRIES))
     (thn (if old_handler \<noteq> 0 then poke (\<lambda>m. st64 old_handler (ld64 m (isr_slot isrs irq)) m) else ret ())
     (poke (st64 (isr_slot isrs irq) handler))))"

definition frame_isr_n :: "memory \<Rightarrow> addr \<Rightarrow> u64" where
  "frame_isr_n m frame = ld64 m (frame + 120)"

definition isr_common :: "(addr \<Rightarrow> addr \<Rightarrow> (machine, status) kern) \<Rightarrow> addr \<Rightarrow> (machine, unit) kern" where
  "isr_common call frame =
     bnd (gets (\<lambda>s. frame_isr_n (ram s) frame)) (\<lambda>n.
     thn (asrt (n \<le> 255))
     (bnd (gets (\<lambda>s. ld64 (ram s) (isr_slot (a_isrs s) n))) (\<lambda>isr.
     thn (asrt (isr \<noteq> 0))
     (bnd (call isr frame) (\<lambda>_.
     pic_ack (ucast n))))))"

section \<open>What the processor reads\<close>

text \<open>A descriptor as the processor reads it: the selector of the stack is the low three bits of byte 4.\<close>

record descriptor =
  target :: addr
  selector :: u16
  stack_switch :: u8
  kind :: u8
  level :: u8
  valid :: bool

definition gate_of :: "memory \<Rightarrow> addr \<Rightarrow> descriptor" where
  "gate_of m a =
     \<lparr>target = ucast (ld16 m a) OR push_bit 16 (ucast (ld16 m (a + 6))) OR push_bit 32 (ucast (ld32 m (a + 8))),
      selector = ld16 m (a + 2), stack_switch = take_bit 3 (m (a + 4)), kind = take_bit 4 (m (a + 5)),
      level = take_bit 2 (drop_bit 5 (m (a + 5))), valid = bit (m (a + 5)) 7\<rparr>"

text \<open>The memory after \<open>set_idt_entry\<close>.\<close>

definition with_gate :: "u16 \<Rightarrow> addr \<Rightarrow> addr \<Rightarrow> gate \<Rightarrow> memory \<Rightarrow> memory" where
  "with_gate cs e a t m =
     (let m = st16 (e + 2) cs (st32 (e + 8) (ucast (drop_bit 32 a)) (st16 (e + 6) (ucast (drop_bit 16 a)) (st16 e (ucast a) m)))
      in m(e + 4 := m (e + 4) AND NOT 3, e + 5 := 0x80 OR gate_code t))"

lemma gate_byte:
  "set_field dpl (PL 0) (set_field gate_present 1 (set_field zero 0 (set_field gate_type (gate_code t AND 0xf) b))) =
   0x80 OR gate_code t"
proof (rule bit_word_eqI)
  fix n assume "n < LENGTH(8)"
  then have "n = 0 \<or> n = 1 \<or> n = 2 \<or> n = 3 \<or> n = 4 \<or> n = 5 \<or> n = 6 \<or> n = 7" by auto
  then show "bit (set_field dpl (PL 0) (set_field gate_present 1 (set_field zero 0 (set_field gate_type (gate_code t AND 0xf) b)))) n
    = bit (0x80 OR gate_code t) n"
    by (cases t; elim disjE)
      (simp_all add: dpl_def gate_present_def zero_def gate_type_def PL_def bit_set_field del: set_field.simps)
qed

lemma set_idt_entry_run:
  "set_idt_entry e a t s = Inr ((), with_ram s (with_gate (ucast KERNEL_CS) e a t (ram s)))"
proof -
  have masks: "(0xffff :: u64) = mask 16" "(0xffffffff :: u32) = mask 32" by (simp_all add: mask_eq_exp_minus_1)
  have "set_field ist 0 b = b AND NOT 3" for b by (simp add: ist_def mask_eq_exp_minus_1)
  moreover have "ucast (drop_bit 0 a AND 0xffff) = (ucast a :: u16)" "ucast (drop_bit 16 a AND 0xffff) = (ucast (drop_bit 16 a) :: u16)"
    "ucast (drop_bit 32 a) AND 0xffffffff = (ucast (drop_bit 32 a) :: u32)" for a :: addr
    by (rule bit_word_eqI; simp add: bit_simps masks)+
  ultimately show ?thesis
    by (simp add: set_idt_entry_def with_gate_def Let_def kern gate_byte del: set_field.simps)
qed

lemma gate_within:
  fixes y :: u64
  shows "y < 2 \<Longrightarrow> y < 16" "y - 2 < 2 \<Longrightarrow> y < 16" "y - 6 < 2 \<Longrightarrow> y < 16" "y - 8 < 4 \<Longrightarrow> y < 16"
  by (auto simp: word_less_nat_alt unat_sub_if' split: if_splits)

lemma with_gate_outside:
  assumes "\<not> x - e < 16"
  shows "with_gate cs e a t m x = m x"
proof -
  have c: "x - (e + i) = (x - e) - i" for i by simp
  have "\<not> x - e < 2" "\<not> x - (e + 2) < 2" "\<not> x - (e + 6) < 2" "\<not> x - (e + 8) < 4"
    unfolding c using assms gate_within by blast+
  moreover have "x \<noteq> e + 4" "x \<noteq> e + 5" using assms by auto
  ultimately show ?thesis unfolding with_gate_def Let_def by (simp add: st16_def st32_def)
qed

lemma agree_with_gate: "sep b n e 16 \<Longrightarrow> agree b n m (with_gate cs e a t m)"
  using sep_outside with_gate_outside by (fastforce simp: agree_def)

lemma target_parts:
  "ucast (ucast a :: u16) OR push_bit 16 (ucast (ucast (drop_bit 16 a) :: u16)) OR push_bit 32 (ucast (ucast (drop_bit 32 a) :: u32)) = a"
  for a :: addr
proof (rule bit_word_eqI)
  fix n assume "n < LENGTH(64)"
  moreover have "n < 16 \<or> 16 \<le> n \<and> n - 16 < 16 \<and> n < 32 \<or> 32 \<le> n \<and> n - 32 < 32 \<and> \<not> n - 16 < 16 \<or> 64 \<le> n" by linarith
  ultimately show "bit (ucast (ucast a :: u16) OR push_bit 16 (ucast (ucast (drop_bit 16 a) :: u16)) OR push_bit 32 (ucast (ucast (drop_bit 32 a) :: u32)) :: addr) n = bit a n"
    by (auto simp: bit_simps)
qed

lemma gate_reads:
  "sep a 2 b 2 \<Longrightarrow> ld16 (st16 b v m) a = ld16 m a" "sep a 2 b 4 \<Longrightarrow> ld16 (st32 b w m) a = ld16 m a"
  "sep a 2 b 1 \<Longrightarrow> ld16 (m(b := c)) a = ld16 m a" "sep a 4 b 2 \<Longrightarrow> ld32 (st16 b v m) a = ld32 m a"
  "sep a 4 b 1 \<Longrightarrow> ld32 (m(b := c)) a = ld32 m a" "sep a 1 b 2 \<Longrightarrow> st16 b v m a = m a" "sep a 1 b 4 \<Longrightarrow> st32 b w m a = m a"
  using sep_outside[of a 1 b _ a]
  by (simp_all add: ld16_agree ld32_agree' agree_upd agree_st16 agree_st32) (simp_all add: st16_def st32_def)

lemma one_le_word: "1 \<le> x \<longleftrightarrow> x \<noteq> 0" for x :: u64
  using word_le_nat_alt[of 1 x] unat_gt_0[of x] by (auto simp: Suc_le_eq)

lemma gate_of_with_gate:
  "gate_of (with_gate cs e a t m) e =
     \<lparr>target = a, selector = cs, stack_switch = take_bit 3 (m (e + 4) AND NOT 3), kind = gate_code t, level = 0, valid = True\<rparr>"
proof -
  show ?thesis
    by (cases t) (simp_all add: gate_of_def with_gate_def Let_def gate_reads one_le_word target_parts)
qed

section \<open>All gates\<close>

definition gates_written :: "u16 \<Rightarrow> addr \<Rightarrow> (nat \<Rightarrow> addr) \<Rightarrow> (nat \<times> gate) list \<Rightarrow> memory \<Rightarrow> memory" where
  "gates_written cs idt isr xs m = fold (\<lambda>(n, t). with_gate cs (idt_slot idt n) (isr n) t) xs m"

lemma gates_written_append:
  "gates_written cs idt isr ys (gates_written cs idt isr xs m) = gates_written cs idt isr (xs @ ys) m"
  by (simp add: gates_written_def)

lemma traps_run:
  "in_turn TRAP ns s =
     Inr ((), with_ram s (gates_written (ucast KERNEL_CS) (a_idt s) (a_isr s) (map (\<lambda>n. (n, GATE_TRAP)) ns) (ram s)))"
proof (induction ns arbitrary: s)
  case (Cons n ns)
  have "TRAP n s = Inr ((), with_ram s (gates_written (ucast KERNEL_CS) (a_idt s) (a_isr s) [(n, GATE_TRAP)] (ram s)))"
    by (simp add: TRAP_def set_idt_entry_run gates_written_def)
  then show ?case by (simp add: thn_Inr Cons.IH gates_written_def)
qed (simp add: gates_written_def kern)

lemma interrupts_run:
  "in_turn INTERRUPT ns s =
     Inr ((), with_ram s (gates_written (ucast KERNEL_CS) (a_idt s) (a_isr s) (map (\<lambda>n. (n, GATE_INTERRUPT)) ns) (ram s)))"
proof (induction ns arbitrary: s)
  case (Cons n ns)
  have "INTERRUPT n s = Inr ((), with_ram s (gates_written (ucast KERNEL_CS) (a_idt s) (a_isr s) [(n, GATE_INTERRUPT)] (ram s)))"
    by (simp add: INTERRUPT_def set_idt_entry_run gates_written_def)
  then show ?case by (simp add: thn_Inr Cons.IH gates_written_def)
qed (simp add: gates_written_def kern)

lemma slots_apart:
  assumes "n < 256" "k < 256" "n \<noteq> k"
  shows "sep (idt_slot idt n) 16 (idt_slot idt k) 16"
proof -
  have u: "unat (of_nat (16 * n) :: u64) = 16 * n" "unat (of_nat (16 * k) :: u64) = 16 * k"
    using assms by (simp_all add: unat_of_nat take_bit_nat_eq_self del: of_nat_mult)
  show ?thesis using assms
    by (simp add: idt_slot_def word_le_nat_alt unat_sub_if' u del: of_nat_mult) linarith
qed

lemma gates_written_agree:
  "(\<And>k. k \<in> fst ` set xs \<Longrightarrow> sep b n (idt_slot idt k) 16) \<Longrightarrow> agree b n m (gates_written cs idt isr xs m)"
proof (induction xs arbitrary: m)
  case (Cons x xs)
  obtain k t where x: "x = (k, t)" by (cases x)
  have "agree b n m (with_gate cs (idt_slot idt k) (isr k) t m)" using Cons.prems by (simp add: x agree_with_gate)
  moreover have "agree b n (with_gate cs (idt_slot idt k) (isr k) t m) (gates_written cs idt isr xs (with_gate cs (idt_slot idt k) (isr k) t m))"
    using Cons by simp
  ultimately show ?case by (simp add: gates_written_def x agree_trans)
qed (simp add: gates_written_def)

lemma gate_of_agree: "agree a 16 m m' \<Longrightarrow> gate_of m' a = gate_of m a"
proof -
  assume ag: "agree a 16 m m'"
  have "agree a 2 m m'" "agree (a + 2) 2 m m'" "agree (a + 6) 2 m m'" "agree (a + 8) 4 m m'" "agree (a + 4) 1 m m'" "agree (a + 5) 1 m m'"
    using agree_sub[OF ag, of 0 2] agree_sub[OF ag, of 2 2] agree_sub[OF ag, of 6 2] agree_sub[OF ag, of 8 4]
      agree_sub[OF ag, of 4 1] agree_sub[OF ag, of 5 1] by simp_all
  then show ?thesis by (simp add: gate_of_def ld16_agree ld32_agree') (simp add: agree_def)
qed

definition gate_for :: "u16 \<Rightarrow> addr \<Rightarrow> gate \<Rightarrow> descriptor" where
  "gate_for cs a t = \<lparr>target = a, selector = cs, stack_switch = 0, kind = gate_code t, level = 0, valid = True\<rparr>"

lemma gates_written_gate:
  assumes "distinct (map fst xs)" "fst ` set xs \<subseteq> {..<256}" "(n, t) \<in> set xs" "m (idt_slot idt n + 4) = 0"
  shows "gate_of (gates_written cs idt isr xs m) (idt_slot idt n) = gate_for cs (isr n) t"
  using assms
proof (induction xs arbitrary: m)
  case (Cons x xs)
  obtain k u where x: "x = (k, u)" by (cases x)
  let ?m = "with_gate cs (idt_slot idt k) (isr k) u m"
  have w: "gates_written cs idt isr (x # xs) m = gates_written cs idt isr xs ?m" by (simp add: gates_written_def x)
  have k: "k < 256" using Cons.prems by (simp add: x)
  show ?case
  proof (cases "(n, t) = x")
    case True
    then have nt: "k = n" "u = t" by (simp_all add: x)
    have "n \<notin> fst ` set xs" using Cons.prems(1) by (simp add: x nt)
    have "sep (idt_slot idt n) 16 (idt_slot idt j) 16" if "j \<in> fst ` set xs" for j
      using that \<open>n \<notin> fst ` set xs\<close> k Cons.prems(2) nt(1) by (intro slots_apart) auto
    then have "gate_of (gates_written cs idt isr xs ?m) (idt_slot idt n) = gate_of ?m (idt_slot idt n)"
      by (intro gate_of_agree gates_written_agree) auto
    then show ?thesis using Cons.prems(4) by (simp add: w nt gate_of_with_gate gate_for_def)
  next
    case False
    then have nt: "(n, t) \<in> set xs" using Cons.prems by auto
    then have "n \<noteq> k" "n < 256" using Cons.prems by (force simp: x)+
    then have "agree (idt_slot idt n) 16 m ?m" using k by (intro agree_with_gate slots_apart) auto
    then have "agree (idt_slot idt n + 4) 1 m ?m" by (rule agree_sub) simp
    then have "?m (idt_slot idt n + 4) = 0" using Cons.prems(4) by (simp add: agree_def)
    then show ?thesis using Cons nt by (simp add: w)
  qed
qed simp

text \<open>The vectors with an entry, in the order of \<open>isr_init\<close>, and the effect of the whole function.\<close>

definition gates :: "(nat \<times> gate) list" where
  "gates = map (\<lambda>n. (n, GATE_TRAP)) [0, 1] @ [(2, GATE_INTERRUPT)] @ map (\<lambda>n. (n, GATE_TRAP)) [3..<32]
     @ map (\<lambda>n. (n, GATE_INTERRUPT)) [32..<48]"

definition gate_kind :: "nat \<Rightarrow> gate" where
  "gate_kind n = (if n < 32 \<and> n \<noteq> 2 then GATE_TRAP else GATE_INTERRUPT)"

lemma gates_vectors: "map fst gates = [0..<48]"
proof -
  have "[0..<48] = [0, 1, 2] @ [3..<32] @ [32..<48]"
    using upt_add_eq_append[of 3 32 16] upt_add_eq_append[of 0 3 45] by (simp add: upt_conv_Cons)
  then show ?thesis by (simp add: gates_def o_def)
qed

lemma gates_set: "fst ` set gates = {..<48}"
  using arg_cong[OF gates_vectors, of set] by (auto simp: atLeast0LessThan)

lemma gates_kind: "n < 48 \<Longrightarrow> (n, gate_kind n) \<in> set gates"
  by (auto simp: gates_def gate_kind_def simp del: upt_rec_numeral)

lemma isr_init_run:
  assumes "a_isrs s \<noteq> 0"
  shows "isr_init s = Inr ((), (with_ram s (gates_written (ucast KERNEL_CS) (a_idt s) (a_isr s) gates
     (filled 3840 (a_isrs s) 0 (ram s))))\<lparr>idtr := (4095, a_idt s)\<rparr>)"
proof -
  have "on_mem (mem_set (a_isrs s) 0 2048) (kernel s) = Inr ((), (kernel s)\<lparr>mem := filled 3840 (a_isrs s) 0 (ram s)\<rparr>)"
    using mem_set_eq[OF assms, of 2048 0] by (intro on_mem_Inr) (simp add: written_def)
  then have "on_kernel (on_mem (mem_set (a_isrs s) 0 2048)) s = Inr ((), with_ram s (filled 3840 (a_isrs s) 0 (ram s)))"
    by (rule on_kernel_Inr)
  moreover have "INTERRUPT 2 t = Inr ((), with_ram t (gates_written (ucast KERNEL_CS) (a_idt t) (a_isr t) [(2, GATE_INTERRUPT)] (ram t)))" for t
    by (simp add: INTERRUPT_def set_idt_entry_run gates_written_def)
  ultimately show ?thesis
    by (simp add: isr_init_def MAX_IDT_ENTRIES_def thn_Inr traps_run interrupts_run gates_written_append gates_def lidt_def idtr_value_def kern
      del: in_turn.simps upt_rec_numeral)
qed

text \<open>The handler of a vector.\<close>

definition handler_of :: "machine \<Rightarrow> u64 \<Rightarrow> addr" where
  "handler_of s n = ld64 (ram s) (isr_slot (a_isrs s) n)"

lemma gate_byte_at: "n < 256 \<Longrightarrow> i < 16 \<Longrightarrow> idt_slot idt n + i - idt < 4096"
proof -
  assume "n < 256" "i < 16"
  moreover have "unat (of_nat (16 * n) :: u64) = 16 * n"
    using \<open>n < 256\<close> by (simp add: unat_of_nat take_bit_nat_eq_self del: of_nat_mult)
  ultimately show ?thesis
    by (simp add: idt_slot_def word_less_nat_alt unat_word_ariths del: of_nat_mult)
qed

lemma isr_word_at: "n < 256 \<Longrightarrow> isr_slot isrs n + i - isrs = 8 * n + i \<and> unat (8 * n + i) = 8 * unat n + unat i" if "i < 8"
  using that by (simp add: isr_slot_def word_less_nat_alt unat_word_ariths)

lemma all_gates_agree:
  assumes "sep b n idt 4096" "0 < n"
  shows "agree b n m (gates_written cs idt isr gates m)"
proof (rule gates_written_agree)
  fix k assume "k \<in> fst ` set gates"
  then have k: "k < 48" by (simp add: gates_set)
  then have "unat (of_nat (16 * k) :: u64) = 16 * k" by (simp add: unat_of_nat take_bit_nat_eq_self del: of_nat_mult)
  then show "sep b n (idt_slot idt k) 16"
    using sep_subD(1)[OF assms(1), of 0 n "of_nat (16 * k)" 16] k assms(2) by (simp add: idt_slot_def del: of_nat_mult)
qed

lemma no_handlers_yet:
  assumes "sep isrs 2048 idt 4096" "n < 256"
  shows "ld64 (gates_written cs idt isr gates (filled 3840 isrs 0 m)) (isr_slot isrs n) = 0"
proof (rule ld64_zero)
  fix x assume x: "x - isr_slot isrs n < 8"
  have e: "x - isrs = 8 * n + (x - isr_slot isrs n)" "unat (x - isrs) < 2048"
    using isr_word_at[OF x assms(2), of isrs] x assms(2) by (simp_all add: isr_slot_def word_less_nat_alt)
  have "agree isrs 2048 (filled 3840 isrs 0 m) (gates_written cs idt isr gates (filled 3840 isrs 0 m))"
    using assms(1) by (rule all_gates_agree) simp
  then show "gates_written cs idt isr gates (filled 3840 isrs 0 m) x = 0" using e(2)
    by (simp add: agree_def filled_def word_less_nat_alt)
qed

text \<open>C31: \<open>isr_init\<close> gives each of the first 48 vectors a valid descriptor that the processor reads as: the
  assembly entry of that vector, in the kernel's code segment, without a stack switch, not callable by
  user code, and with the interrupts left on exactly for the exceptions other than the second; all other
  vectors stay invalid, no vector has a handler, and the processor's register holds the table with the limit of its 256
  descriptors.\<close>

theorem isr_init_installs_gates:
  assumes "a_isrs s \<noteq> 0" "\<forall>x. x - a_idt s < 4096 \<longrightarrow> ram s x = 0" "sep (a_isrs s) 2048 (a_idt s) 4096"
  shows "\<exists>s'. isr_init s = Inr ((), s') \<and> idtr s' = (4095, a_idt s) \<and>
    (\<forall>n<48. gate_of (ram s') (idt_slot (a_idt s') n) =
       \<lparr>target = a_isr s n, selector = (ucast KERNEL_CS), stack_switch = 0,
        kind = gate_code (if n < 32 \<and> n \<noteq> 2 then GATE_TRAP else GATE_INTERRUPT), level = 0, valid = True\<rparr>) \<and>
    (\<forall>n. 48 \<le> n \<and> n < 256 \<longrightarrow> \<not> valid (gate_of (ram s') (idt_slot (a_idt s') n))) \<and>
    (\<forall>n<256. handler_of s' n = 0)"
proof -
  let ?m = "filled 3840 (a_isrs s) 0 (ram s)"
  let ?g = "gates_written (ucast KERNEL_CS) (a_idt s) (a_isr s) gates ?m"
  have z: "?m (idt_slot (a_idt s) n + i) = 0" if "n < 256" "i < 16" for n i
    using assms(2) gate_byte_at[OF that] by (simp add: filled_def)
  have "gate_of ?g (idt_slot (a_idt s) n) = gate_for (ucast KERNEL_CS) (a_isr s n) (gate_kind n)" if "n < 48" for n
    using that gates_kind[OF that] z[of n 4] by (intro gates_written_gate) (auto simp: gates_vectors gates_set)
  moreover have "\<not> valid (gate_of ?g (idt_slot (a_idt s) n))" if "48 \<le> n" "n < 256" for n
  proof -
    have "agree (idt_slot (a_idt s) n) 16 ?m ?g"
      using that by (intro gates_written_agree slots_apart) (auto simp: gates_set)
    then have "gate_of ?g (idt_slot (a_idt s) n) = gate_of ?m (idt_slot (a_idt s) n)" by (rule gate_of_agree)
    then show ?thesis using z[OF that(2), of 5] by (simp add: gate_of_def)
  qed
  moreover have "ld64 ?g (isr_slot (a_isrs s) n) = 0" if "n < 256" for n
    by (rule no_handlers_yet[OF assms(3) that])
  ultimately show ?thesis
    by (simp add: isr_init_run[OF assms(1)] gate_for_def gate_kind_def handler_of_def del: gate_code.simps)
qed

text \<open>\<open>isr_init\<close> clears the 1792 bytes behind the table of handlers too, whatever the linker put there.\<close>

theorem isr_init_clears_behind_the_table:
  assumes "a_isrs s \<noteq> 0" "sep (a_isrs s + 2048) 1792 (a_idt s) 4096"
  shows "\<exists>s'. isr_init s = Inr ((), s') \<and> (\<forall>x. x - (a_isrs s + 2048) < 1792 \<longrightarrow> ram s' x = 0)"
proof -
  let ?m = "filled 3840 (a_isrs s) 0 (ram s)"
  have "agree (a_isrs s + 2048) 1792 ?m (gates_written (ucast KERNEL_CS) (a_idt s) (a_isr s) gates ?m)"
    using assms(2) by (rule all_gates_agree) simp
  moreover have "?m x = 0" if "x - (a_isrs s + 2048) < 1792" for x
  proof -
    define y where "y = x - (a_isrs s + 2048)"
    have "x - a_isrs s = y + 2048" "unat y < 1792" using that by (simp_all add: y_def word_less_nat_alt)
    then have "unat (x - a_isrs s) < 3840" by (simp add: unat_word_ariths)
    then show ?thesis by (simp add: filled_def)
  qed
  ultimately show ?thesis by (simp add: isr_init_run[OF assms(1)] agree_def)
qed

section \<open>Registering and dispatching\<close>

lemma isr_slots_apart:
  assumes "n < 256" "k < 256" "n \<noteq> k"
  shows "sep (isr_slot isrs n) 8 (isr_slot isrs k) 8"
proof -
  have u: "unat (8 * n) = 8 * unat n" "unat (8 * k) = 8 * unat k" "unat n \<noteq> unat k" "unat n < 256" "unat k < 256"
    using assms by (simp_all add: word_less_nat_alt unat_word_ariths word_unat_eq_iff)
  then show ?thesis by (simp add: isr_slot_def word_le_nat_alt unat_sub_if') linarith
qed

lemma isr_slot_inside:
  assumes "sep b n isrs 2048" "k < 256" "0 < n"
  shows "sep b n (isr_slot isrs k) 8" "sep (isr_slot isrs k) 8 b n"
proof -
  have "unat (8 * k) = 8 * unat k" "unat k < 256" using assms(2) by (simp_all add: word_less_nat_alt unat_word_ariths)
  then show "sep b n (isr_slot isrs k) 8" "sep (isr_slot isrs k) 8 b n"
    using sep_subD[OF assms(1), of 0 n "8 * k" 8] assms(3) by (simp_all add: isr_slot_def)
qed

lemma handler_of_store:
  assumes "irq < 256" "n < 256"
  shows "handler_of (with_ram s (st64 (isr_slot (a_isrs s) irq) h m)) n =
    (if n = irq then h else handler_of (with_ram s m) n)"
  using isr_slots_apart[OF assms(2,1)] by (simp add: handler_of_def ld64_st64_sep)

lemma handler_of_outside:
  assumes "sep b 8 (a_isrs s) 2048" "n < 256"
  shows "handler_of (with_ram s (st64 b v m)) n = handler_of (with_ram s m) n"
  using isr_slot_inside(2)[OF assms] by (simp add: handler_of_def ld64_st64_sep)

lemma isr_register_run:
  "irq < 256 \<Longrightarrow> isr_register irq h old s = Inr ((), with_ram s (st64 (isr_slot (a_isrs s) irq) h
     (if old \<noteq> 0 then st64 old (handler_of s irq) (ram s) else ram s)))"
  by (simp add: isr_register_def MAX_IDT_ENTRIES_def handler_of_def kern)

text \<open>\<open>isr_register\<close> makes the function the handler of the vector, leaves the handlers of all other
  vectors, and stores the previous one for the caller who asks for it, who can therefore chain to it or put
  it back; a vector out of range fails the assertion.\<close>

theorem isr_register_effect:
  assumes "old = 0 \<or> sep old 8 (a_isrs s) 2048"
  shows "if irq < 256
    then \<exists>s'. isr_register irq h old s = Inr ((), s') \<and>
      handler_of s' irq = h \<and> (\<forall>n<256. n \<noteq> irq \<longrightarrow> handler_of s' n = handler_of s n) \<and>
      (old \<noteq> 0 \<longrightarrow> ld64 (ram s') old = handler_of s irq) \<and>
      (\<exists>s''. isr_register irq (handler_of s irq) 0 s' = Inr ((), s'') \<and> (\<forall>n<256. handler_of s'' n = handler_of s n))
    else isr_register irq h old s = Inl AssertFailed"
proof (cases "irq < 256")
  case True
  let ?m = "if old \<noteq> 0 then st64 old (handler_of s irq) (ram s) else ram s"
  let ?s = "with_ram s (st64 (isr_slot (a_isrs s) irq) h ?m)"
  have m: "handler_of (with_ram s ?m) n = handler_of s n" if "n < 256" for n
    using assms that handler_of_outside by (auto simp: handler_of_def[of s n] handler_of_def[of "with_ram s (ram s)" n])
  have s: "handler_of ?s n = (if n = irq then h else handler_of s n)" if "n < 256" for n
    using m[OF that] by (simp add: handler_of_store True that)
  have old: "ld64 (ram ?s) old = handler_of s irq" if "old \<noteq> 0"
    using assms that isr_slot_inside(1)[of old 8 "a_isrs s" irq] True by (simp add: ld64_st64_sep)
  have put_back: "isr_register irq (handler_of s irq) 0 ?s =
      Inr ((), with_ram ?s (st64 (isr_slot (a_isrs ?s) irq) (handler_of s irq) (ram ?s)))"
    by (simp add: isr_register_run True)
  have "handler_of (with_ram ?s (st64 (isr_slot (a_isrs ?s) irq) (handler_of s irq) (ram ?s))) n = handler_of s n"
    if "n < 256" for n
    using s[OF that] by (subst handler_of_store[OF True that]) simp
  then show ?thesis
    using True s old put_back by (simp add: isr_register_run)
next
  case False
  then show ?thesis by (simp add: isr_register_def MAX_IDT_ENTRIES_def)
qed

lemma isr_common_run:
  assumes "frame_isr_n (ram s) frame = n" "n < 256" "handler_of s n \<noteq> 0"
    "call (handler_of s n) frame s = Inr (r, t)" "\<not> use_new_pic t"
  shows "isr_common call frame s = Inr ((), t\<lparr>trace := trace t @
     (if n < 0x20 then [] else if n < 0x28 then [Out 0x20 0x20] else [Out 0xa0 0x20, Out 0x20 0x20])\<rparr>)"
proof -
  have u: "unat (ucast n :: u8) = unat n" using assms(2) by (simp add: unsigned_ucast_eq word_less_nat_alt take_bit_nat_eq_self)
  have "n \<le> 255" using assms(2) by (simp add: word_le_nat_alt word_less_nat_alt)
  moreover have "(ucast n :: u8) < 0x20 \<longleftrightarrow> n < 0x20" "(ucast n :: u8) < 0x28 \<longleftrightarrow> n < 0x28"
    by (simp_all add: word_less_nat_alt u)
  ultimately show ?thesis
    using assms pic_ack_run[OF assms(5), of "ucast n"] by (simp add: isr_common_def handler_of_def bnd_Inr)
qed

lemma isr_common_unhandled:
  "255 < n \<or> handler_of s n = 0 \<Longrightarrow> frame_isr_n (ram s) frame = n \<Longrightarrow> isr_common call frame s = Inl AssertFailed"
  by (auto simp: isr_common_def handler_of_def not_le)

end
