(* ===== verification/Mm.thy ===== *)
theory Mm
  imports Vm
begin

text \<open>
  \<open>mm/mm.c\<close>: the kernel heap, made of slabs of chunks of one size each, and \<open>mm_map\<close>, which maps fresh
  pages. The last section ties the recursion through the three memory managers: locking a page may
  need a new bitmap, which needs the heap, which needs pages.
\<close>

section \<open>Slabs\<close>

definition SLAB_GROW_SIZE :: u64 where
  "SLAB_GROW_SIZE = PAGE_SIZE"

datatype slab_type = SLAB_16 | SLAB_24 | SLAB_32 | SLAB_48 | SLAB_64 | SLAB_96 | SLAB_128 | SLAB_192 | SLAB_256
  | SLAB_384 | SLAB_512 | SLAB_768 | SLAB_1024 | SLAB_2048 | SLAB_3072 | SLAB_4096 | SLAB_MAX

fun type_number :: "slab_type \<Rightarrow> u32" where
  "type_number SLAB_16 = 0"
| "type_number SLAB_24 = 1"
| "type_number SLAB_32 = 2"
| "type_number SLAB_48 = 3"
| "type_number SLAB_64 = 4"
| "type_number SLAB_96 = 5"
| "type_number SLAB_128 = 6"
| "type_number SLAB_192 = 7"
| "type_number SLAB_256 = 8"
| "type_number SLAB_384 = 9"
| "type_number SLAB_512 = 10"
| "type_number SLAB_768 = 11"
| "type_number SLAB_1024 = 12"
| "type_number SLAB_2048 = 13"
| "type_number SLAB_3072 = 14"
| "type_number SLAB_4096 = 15"
| "type_number SLAB_MAX = 16"

text \<open>\<open>struct slab\<close>: 40 bytes; the variables of the enumeration type are 32 bit numbers.\<close>

definition SLAB_BYTES :: u64 where
  "SLAB_BYTES = 40"

definition sl_type :: "memory \<Rightarrow> addr \<Rightarrow> u32" where
  "sl_type m s = ld32 m s"

definition sl_freelist :: "addr \<Rightarrow> addr" where
  "sl_freelist s = s + 8"

definition sl_start :: "memory \<Rightarrow> addr \<Rightarrow> addr" where
  "sl_start m s = ld64 m (s + 24)"

definition sl_end :: "memory \<Rightarrow> addr \<Rightarrow> addr" where
  "sl_end m s = ld64 m (s + 32)"

definition SLABTYPE :: "addr \<Rightarrow> u64" where
  "SLABTYPE a = drop_bit 36 a AND 0xffff"

definition SLABBASE :: "u32 \<Rightarrow> addr" where
  "SLABBASE type = LAYOUT_HEAP_START + push_bit 36 (ucast type)"

definition slab_at :: "symbols \<Rightarrow> u32 \<Rightarrow> addr" where
  "slab_at y type = a_slabs y + ucast type * SLAB_BYTES"

fun mm_init_more :: "u64 \<Rightarrow> kst \<Rightarrow> bool" where
  "mm_init_more i s \<longleftrightarrow> i < ucast (type_number SLAB_MAX)"

definition mm_init_step :: "u64 \<Rightarrow> (kst, u64) kern" where
  "mm_init_step i =
     bnd (gets (\<lambda>s. a_slabs (sym s) + i * SLAB_BYTES)) (\<lambda>slab.
     thn (wr (st32 slab (ucast i)))
     (thn (wr (\<lambda>m. st64 (slab + 24) (SLABBASE (sl_type m slab)) m))
     (thn (wr (\<lambda>m. st64 (slab + 32) (sl_start m slab) m))
     (thn (on_mem (list_init (sl_freelist slab))) (ret (i + 1))))))"

definition mm_init :: "(kst, unit) kern" where
  "mm_init = bnd (loop mm_init_more mm_init_step 0) (\<lambda>i. LOGSUCCESS ''kernel heap initialized'')"

section \<open>Sizes\<close>

definition ceil_to_power_of_2 :: "u64 \<Rightarrow> u64" where
  "ceil_to_power_of_2 sz =
     (let sz = sz - 1;
          sz = sz OR drop_bit 1 sz;
          sz = sz OR drop_bit 2 sz;
          sz = sz OR drop_bit 4 sz;
          sz = sz OR drop_bit 8 sz;
          sz = sz OR drop_bit 16 sz;
          sz = sz OR drop_bit 32 sz
      in sz + 1)"

definition slab_size :: "u32 \<Rightarrow> u64" where
  "slab_size type =
     (let shift = unat (drop_bit 1 (type AND 0xe)) + 4;
          sz = push_bit shift 1;
          sz = (if type AND 1 \<noteq> 0 then sz + push_bit (shift - 1) 1 else sz)
      in if sz > 1024 then
           let sz = sz + 512 in if sz > 2048 then sz + 512 else sz
         else sz)"

text \<open>The loop that counts the bits of \<open>chunk_sz\<close>.\<close>

function count_type :: "u64 \<Rightarrow> u32 \<Rightarrow> u32" where
  "count_type chunk_sz type = (if chunk_sz > 0 then count_type (drop_bit 1 chunk_sz) (type + 1) else type)"
  by auto
termination
proof (relation "measure (\<lambda>(chunk_sz, type). unat chunk_sz)")
  fix chunk_sz :: u64 and type :: u32
  assume "0 < chunk_sz"
  then have "0 < unat chunk_sz" by (simp add: word_less_nat_alt)
  then show "((drop_bit 1 chunk_sz, type + 1), chunk_sz, type) \<in> measure (\<lambda>(chunk_sz, type). unat chunk_sz)"
    by (simp only: in_measure prod.case unat_drop_bit_eq) (simp add: drop_bit_eq_div)
qed simp

declare count_type.simps [simp del]

definition get_slab_from_size :: "u64 \<Rightarrow> (kst, addr) kern" where
  "get_slab_from_size sz =
     (let chunk_sz = drop_bit 4 (ceil_to_power_of_2 sz);
          type = count_type chunk_sz 0;
          type = (if slab_size (type - 1) \<ge> sz then type - 1 else type)
      in thn (asrt (type < type_number SLAB_MAX)) (gets (\<lambda>s. slab_at (sym s) type)))"

section \<open>Mapping fresh pages\<close>

fun back_more :: "addr \<times> u64 \<Rightarrow> kst \<Rightarrow> bool" where
  "back_more (vaddr, pages) s \<longleftrightarrow> pages > 0"

fun back_step :: "(kst, addr) kern \<Rightarrow> (addr \<Rightarrow> addr \<Rightarrow> (kst, status) kern) \<Rightarrow> addr \<times> u64 \<Rightarrow> (kst, addr \<times> u64) kern" where
  "back_step req set_backing (vaddr, pages) =
     bnd req (\<lambda>paddr.
     bnd (set_backing vaddr paddr) (\<lambda>res.
     thn (asrt (res = SUCCESS)) (ret (vaddr + PAGE_SIZE, pages - 1))))"

definition mm_map :: "(kst, addr) kern \<Rightarrow> addr \<Rightarrow> u64 \<Rightarrow> flags \<Rightarrow> (kst, addr) kern" where
  "mm_map req hint bytes flags =
     (let pages = PAGES bytes in
      bnd (vmk_reserve_pages req hint pages flags) (\<lambda>(res, hint).
      if ISERROR res then ret 0
      else bnd (loop back_more (back_step req vmk_set_backing) (hint, pages)) (\<lambda>(vaddr, pages). ret hint)))"

definition mm_map_in_table :: "(kst, addr) kern \<Rightarrow> addr \<Rightarrow> addr \<Rightarrow> u64 \<Rightarrow> flags \<Rightarrow> (kst, addr) kern" where
  "mm_map_in_table req table hint bytes flags =
     (let pages = PAGES bytes in
      bnd (vm_reserve_pages req table hint pages flags) (\<lambda>(res, hint).
      if ISERROR res then ret 0
      else bnd (loop back_more (back_step req (vm_set_backing table)) (hint, pages)) (\<lambda>(vaddr, pages). ret hint)))"

section \<open>Allocating and freeing\<close>

fun grow_more :: "addr \<Rightarrow> addr \<Rightarrow> kst \<Rightarrow> bool" where
  "grow_more p next s \<longleftrightarrow> next < p"

definition grow_step :: "addr \<Rightarrow> u64 \<Rightarrow> addr \<Rightarrow> (kst, addr) kern" where
  "grow_step slab chunk_size next =
     bnd (rd (\<lambda>m. sl_end m slab)) (\<lambda>chunk.
     thn (on_mem (list_insert (sl_freelist slab) chunk))
     (thn (wr (st64 (slab + 32) next)) (ret (next + chunk_size))))"

definition alloc_slab :: "(kst, addr) kern \<Rightarrow> addr \<Rightarrow> (kst, unit) kern" where
  "alloc_slab req slab =
     bnd (rd (\<lambda>m. (sl_type m slab, sl_end m slab))) (\<lambda>(type, e).
     thn (asrt (type < type_number SLAB_MAX))
     (bnd (mm_map req (PAGEALIGNUP e) SLAB_GROW_SIZE (VM_FLAG_WRITABLE OR VM_FLAG_STRICT)) (\<lambda>p.
      thn (asrt (p \<noteq> 0))
      (bnd (rd (\<lambda>m. slab_size (sl_type m slab))) (\<lambda>chunk_size.
       bnd (rd (\<lambda>m. sl_end m slab + chunk_size)) (\<lambda>next.
       bnd (loop (grow_more (p + SLAB_GROW_SIZE)) (grow_step slab chunk_size) next) (\<lambda>next. ret ())))))))"

definition mm_alloc :: "(kst, addr) kern \<Rightarrow> u64 \<Rightarrow> (kst, addr) kern" where
  "mm_alloc req sz =
     thn (asrt (sz < slab_size (type_number SLAB_MAX - 1)))
     (bnd (get_slab_from_size sz) (\<lambda>slab.
      bnd (rd (list_is_empty (sl_freelist slab))) (\<lambda>empty.
      thn (if empty then alloc_slab req slab else ret ())
      (bnd (rd (\<lambda>m. lnext m (sl_freelist slab))) (\<lambda>chunk.
       thn (on_mem (list_remove chunk)) (ret chunk))))))"

definition get_slab_from_address :: "addr \<Rightarrow> (kst, addr) kern" where
  "get_slab_from_address a =
     (let type = ucast (SLABTYPE a) :: u32 in
      thn (asrt (type < type_number SLAB_MAX))
      (bnd (gets (\<lambda>s. slab_at (sym s) type)) (\<lambda>slab.
       let sz = slab_size type in
       bnd (rd (\<lambda>m. (sl_start m slab, sl_end m slab))) (\<lambda>(start, e).
       thn (asrt (a \<ge> start \<and> a + sz < e))
       (thn (asrt (a AND (sz - 1) = 0)) (ret slab))))))"

text \<open>The result is the new value of \<open>*alloc\<close>.\<close>

definition mm_free :: "addr \<Rightarrow> (kst, addr) kern" where
  "mm_free p =
     bnd (get_slab_from_address p) (\<lambda>slab.
     bnd (rd (\<lambda>m. slab_size (sl_type m slab))) (\<lambda>sz.
     thn (on_mem (mem_set p 0 sz))
     (thn (on_mem (list_insert (sl_freelist slab) p)) (ret 0))))"

section \<open>The three managers together\<close>

text \<open>
  \<open>k_services n\<close> is \<open>mm_alloc\<close> and \<open>pm_request_page\<close> with at most \<open>n\<close> calls from one manager back into
  the other; a deeper recursion is \<open>TooDeep\<close>.
\<close>

primrec k_services :: "nat \<Rightarrow> services" where
  "k_services 0 = \<lparr>alloc = (\<lambda>n. halt TooDeep), request = halt TooDeep\<rparr>"
| "k_services (Suc n) = \<lparr>alloc = mm_alloc (pm_request_page (k_services n)), request = pm_request_page (k_services n)\<rparr>"

definition k_request :: "nat \<Rightarrow> (kst, addr) kern" where
  "k_request n = pm_request_page (k_services n)"

definition k_alloc :: "nat \<Rightarrow> u64 \<Rightarrow> (kst, addr) kern" where
  "k_alloc n = mm_alloc (k_request n)"

end
