(* ===== verification/Acpi.thy ===== *)
theory Acpi
  imports Isr Mm Printk
begin

text \<open>
  \<open>common/acpi.c\<close>: finding the ACPI tables. The statics \<open>root\<close> and \<open>tbls\<close> are fields of the machine, the array
  \<open>known_tbls\<close> of string pointers is at \<open>a_known_tbls\<close>; \<open>srv\<close> are the memory services. The tables are read where
  they have been mapped. The texts that are logged are recorded with the messages of the kernel.
\<close>

section \<open>The structures\<close>

definition SDT_HEADER :: u64 where "SDT_HEADER = 36"
definition RSDP :: u64 where "RSDP = 20"

definition sdt_length :: "memory \<Rightarrow> addr \<Rightarrow> u32" where "sdt_length m t = ld32 m (t + 4)"
definition rsdp_revision :: "memory \<Rightarrow> addr \<Rightarrow> u8" where "rsdp_revision m r = m (r + 15)"
definition rsdp_rsdt_address :: "memory \<Rightarrow> addr \<Rightarrow> u32" where "rsdp_rsdt_address m r = ld32 m (r + 16)"
definition xsdp_xsdt_address :: "memory \<Rightarrow> addr \<Rightarrow> u64" where "xsdp_xsdt_address m x = ld64 m (x + 24)"

datatype acpi_type = ACPI_TYPE_NONE | ACPI_TYPE_RSDP | ACPI_TYPE_XSDP

fun acpi_type_code :: "acpi_type \<Rightarrow> u32" where
  "acpi_type_code ACPI_TYPE_NONE = 0"
| "acpi_type_code ACPI_TYPE_RSDP = 1"
| "acpi_type_code ACPI_TYPE_XSDP = 2"

datatype acpi_table = ACPI_TABLE_MADT | ACPI_TABLE_FADT | ACPI_TABLE_MCFG | ACPI_TABLE_RSDT | ACPI_TABLE_SSDT
  | ACPI_TABLE_XSDT | ACPI_TABLE_MAX

fun table_number :: "acpi_table \<Rightarrow> u64" where
  "table_number ACPI_TABLE_MADT = 0"
| "table_number ACPI_TABLE_FADT = 1"
| "table_number ACPI_TABLE_MCFG = 2"
| "table_number ACPI_TABLE_RSDT = 3"
| "table_number ACPI_TABLE_SSDT = 4"
| "table_number ACPI_TABLE_XSDT = 5"
| "table_number ACPI_TABLE_MAX = 6"

text \<open>The enumerators are ordered as their numbers are.\<close>

instantiation acpi_table :: linorder
begin

definition less_eq_acpi_table :: "acpi_table \<Rightarrow> acpi_table \<Rightarrow> bool" where
  "less_eq_acpi_table a b \<longleftrightarrow> table_number a \<le> table_number b"

definition less_acpi_table :: "acpi_table \<Rightarrow> acpi_table \<Rightarrow> bool" where
  "less_acpi_table a b \<longleftrightarrow> table_number a < table_number b"

instance
proof
  have inj: "a = b" if "table_number a = table_number b" for a b
    using that by (cases a; cases b) simp_all
  fix a b c :: acpi_table
  show "(a < b) = (a \<le> b \<and> \<not> b \<le> a)" "a \<le> a" "a \<le> b \<Longrightarrow> b \<le> c \<Longrightarrow> a \<le> c" "a \<le> b \<or> b \<le> a"
    by (auto simp: less_eq_acpi_table_def less_acpi_table_def)
  show "a \<le> b \<Longrightarrow> b \<le> a \<Longrightarrow> a = b"
    by (intro inj) (simp add: less_eq_acpi_table_def)
qed

end

definition known_tbl :: "u64 \<Rightarrow> (machine, addr) kern" where
  "known_tbl i = gets (\<lambda>s. ld64 (ram s) (a_known_tbls s + 8 * i))"

text \<open>Computations on memory, and the lines that the code logs: \<open>%4s\<close> prints exactly four characters.\<close>

definition in_ram :: "(memory, 'a) kern \<Rightarrow> (machine, 'a) kern" where
  "in_ram c = on_kernel (on_mem c)"

definition log_line :: "string \<Rightarrow> addr \<Rightarrow> (machine, unit) kern" where
  "log_line text sig = on_kernel (modify (\<lambda>s.
     s\<lparr>messages := messages s @ [text @ map (\<lambda>b. char_of (unat b)) (bytes_at (mem s) sig 4)]\<rparr>))"

section \<open>Mapping and checking\<close>

text \<open>The result is the status and the new value of \<open>*out\<close>.\<close>

definition acpi_map_table :: "services \<Rightarrow> addr \<Rightarrow> addr \<Rightarrow> (machine, status \<times> addr) kern" where
  "acpi_map_table srv paddr out =
     bnd (on_kernel (vmk_map_bytes (request srv) paddr SDT_HEADER out 0)) (\<lambda>(res, out).
     if ISERROR res then ret (res, out)
     else bnd (gets (\<lambda>s. sdt_length (ram s) out)) (\<lambda>len.
       if ucast len > PAGE_SIZE - (out AND 0xfff) then
         bnd (on_kernel (vmk_map_bytes (request srv) paddr (ucast len) out 0)) (\<lambda>(res, out).
         if ISERROR res then ret (res, out) else ret (SUCCESS, out))
       else ret (SUCCESS, out)))"

fun checksum_more :: "u8 \<times> addr \<times> u64 \<Rightarrow> memory \<Rightarrow> bool" where
  "checksum_more (c, p, sz) m \<longleftrightarrow> sz > 0"

fun checksum_step :: "u8 \<times> addr \<times> u64 \<Rightarrow> (memory, u8 \<times> addr \<times> u64) kern" where
  "checksum_step (c, p, sz) = bnd (gets (\<lambda>m. m p)) (\<lambda>b. ret (c + b, p + 1, sz - 1))"

definition checksum_matches :: "addr \<Rightarrow> u64 \<Rightarrow> (memory, bool) kern" where
  "checksum_matches ptr sz = bnd (loop checksum_more checksum_step (0, ptr, sz)) (\<lambda>(c, p, sz). ret (c = 0))"

definition sig_target :: "u8 list" where
  "sig_target = map ch ''RSD PTR ''"

fun sig_more :: "nat \<times> bool option \<Rightarrow> memory \<Rightarrow> bool" where
  "sig_more (i, r) m \<longleftrightarrow> r = None \<and> i < length sig_target"

fun sig_step :: "addr \<Rightarrow> nat \<times> bool option \<Rightarrow> (memory, nat \<times> bool option) kern" where
  "sig_step sig (i, r) =
     bnd (gets (\<lambda>m. m (sig + of_nat i))) (\<lambda>c. if c \<noteq> sig_target ! i then ret (i, Some False) else ret (i + 1, None))"

definition signature_matches :: "addr \<Rightarrow> (memory, bool) kern" where
  "signature_matches sig =
     bnd (loop sig_more (sig_step sig) (0, None)) (\<lambda>(i, r). ret (case r of Some b \<Rightarrow> b | None \<Rightarrow> True))"

section \<open>Looking tables up\<close>

fun table_more :: "addr \<times> addr option \<Rightarrow> machine \<Rightarrow> bool" where
  "table_more (tbl, r) s \<longleftrightarrow> r = None \<and> ld64 (ram s) tbl \<noteq> 0"

fun table_step :: "addr \<Rightarrow> addr \<times> addr option \<Rightarrow> (machine, addr \<times> addr option) kern" where
  "table_step sig (tbl, r) =
     bnd (gets (\<lambda>s. ld64 (ram s) tbl)) (\<lambda>t.
     bnd (in_ram (str_nequal t sig 4)) (\<lambda>same.
     if same then
       bnd (gets (\<lambda>s. sdt_length (ram s) t)) (\<lambda>len.
       bnd (in_ram (checksum_matches t (ucast len))) (\<lambda>good.
       if good then ret (tbl, Some t)
       else thn (log_line ''corrupted table '' sig) (ret (tbl, Some 0))))
     else ret (tbl + 8, None)))"

definition acpi_get_table :: "addr \<Rightarrow> (machine, addr) kern" where
  "acpi_get_table sig =
     bnd (gets acpi_tbls) (\<lambda>tbls.
     thn (asrt (tbls \<noteq> 0))
     (if sig = 0 then ret 0
      else bnd (in_ram (str_nlength sig 4)) (\<lambda>four.
        if \<not> four then ret 0
        else bnd (loop table_more (table_step sig) (tbls, None)) (\<lambda>(tbl, r).
          ret (case r of Some t \<Rightarrow> t | None \<Rightarrow> 0)))))"

definition acpi_get_known_table :: "acpi_table \<Rightarrow> (machine, addr) kern" where
  "acpi_get_known_table table =
     (if table \<ge> ACPI_TABLE_MAX then ret 0
      else bnd (known_tbl (table_number table)) acpi_get_table)"

text \<open>Every enumerator but the last names a table.\<close>

lemma known_table_lookup:
  "acpi_get_known_table t s = (if t = ACPI_TABLE_MAX then Inr (0, s)
     else acpi_get_table (ld64 (ram s) (a_known_tbls s + 8 * table_number t)) s)"
  by (cases t) (simp_all add: acpi_get_known_table_def less_eq_acpi_table_def known_tbl_def word_le_nat_alt kern)

section \<open>Initialisation\<close>

definition acpi_init_generic :: "services \<Rightarrow> addr \<Rightarrow> addr \<Rightarrow> u8 \<Rightarrow> (machine, status) kern" where
  "acpi_init_generic srv rsdp sdt_address revision =
     bnd (in_ram (checksum_matches rsdp RSDP)) (\<lambda>good.
     if \<not> good then ret (fails EINVAL)
     else bnd (in_ram (signature_matches rsdp)) (\<lambda>signed.
     if \<not> signed then ret (fails EINVAL)
     else bnd (gets (\<lambda>s. rsdp_revision (ram s) rsdp)) (\<lambda>rev.
     if rev \<noteq> revision then ret (fails EINVAL)
     else
       bnd (gets acpi_root) (\<lambda>out.
       bnd (acpi_map_table srv sdt_address out) (\<lambda>(res, root).
       thn (modify (\<lambda>s. s\<lparr>acpi_root := root\<rparr>))
       (if ISERROR res then ret res else ret SUCCESS))))))"

text \<open>Mapping the tables whose addresses \<open>entry\<close> gives; the loop variable holds an early result.\<close>

fun map_tbl_more :: "u64 \<Rightarrow> u64 \<times> status option \<Rightarrow> machine \<Rightarrow> bool" where
  "map_tbl_more n_tbls (i, r) s \<longleftrightarrow> r = None \<and> i < n_tbls"

fun map_tbl_step :: "services \<Rightarrow> addr \<Rightarrow> (memory \<Rightarrow> u64 \<Rightarrow> addr) \<Rightarrow> u64 \<times> status option \<Rightarrow> (machine, u64 \<times> status option) kern" where
  "map_tbl_step srv tbls entry (i, r) =
     bnd (gets (\<lambda>s. (entry (ram s) i, ld64 (ram s) (tbls + 8 * i)))) (\<lambda>(paddr, out).
     bnd (acpi_map_table srv paddr out) (\<lambda>(res, out).
     thn (poke (st64 (tbls + 8 * i) out))
     (if ISERROR res then ret (i, Some res) else ret (i + 1, None))))"

definition map_tbls :: "services \<Rightarrow> u64 \<Rightarrow> (memory \<Rightarrow> u64 \<Rightarrow> addr) \<Rightarrow> (machine, status) kern" where
  "map_tbls srv n_tbls entry =
     (let tbls_sz = 8 * (n_tbls + 1) in
      bnd (on_kernel (alloc srv tbls_sz)) (\<lambda>tbls.
      thn (modify (\<lambda>s. s\<lparr>acpi_tbls := tbls\<rparr>))
      (thn (in_ram (mem_set tbls 0 tbls_sz))
      (bnd (loop (map_tbl_more n_tbls) (map_tbl_step srv tbls entry) (0, None)) (\<lambda>(i, r).
       case r of Some res \<Rightarrow> ret res
       | None \<Rightarrow> thn (poke (st64 (tbls + 8 * n_tbls) 0)) (ret SUCCESS))))))"

definition acpi_init_rsdp :: "services \<Rightarrow> addr \<Rightarrow> (machine, status) kern" where
  "acpi_init_rsdp srv rsdp =
     bnd (gets (\<lambda>s. rsdp_rsdt_address (ram s) rsdp)) (\<lambda>address.
     bnd (acpi_init_generic srv rsdp (ucast address) 0) (\<lambda>res.
     if ISERROR res then ret res
     else
       bnd (gets acpi_root) (\<lambda>root.
       bnd (known_tbl (table_number ACPI_TABLE_RSDT)) (\<lambda>known.
       bnd (in_ram (str_nequal root known 4)) (\<lambda>same.
       if \<not> same then ret (fails EINVAL)
       else bnd (gets (\<lambda>s. sdt_length (ram s) root)) (\<lambda>len.
       bnd (in_ram (checksum_matches root (ucast len))) (\<lambda>good.
       if \<not> good then ret (fails EINTEGRITY)
       else map_tbls srv (drop_bit 2 (ucast len - SDT_HEADER)) (\<lambda>m i. ucast (ld32 m (root + SDT_HEADER + 4 * i))))))))))"

definition acpi_init_xsdp :: "services \<Rightarrow> addr \<Rightarrow> (machine, status) kern" where
  "acpi_init_xsdp srv xsdp =
     bnd (gets (\<lambda>s. xsdp_xsdt_address (ram s) xsdp)) (\<lambda>address.
     bnd (acpi_init_generic srv xsdp address 2) (\<lambda>res.
     if ISERROR res then ret res
     else
       bnd (gets acpi_root) (\<lambda>root.
       bnd (known_tbl (table_number ACPI_TABLE_XSDT)) (\<lambda>known.
       bnd (in_ram (str_nequal root known 4)) (\<lambda>same.
       if \<not> same then ret (fails EINVAL)
       else bnd (gets (\<lambda>s. sdt_length (ram s) root)) (\<lambda>len.
       bnd (in_ram (checksum_matches root (ucast len))) (\<lambda>good.
       if \<not> good then ret (fails EINTEGRITY)
       else map_tbls srv (drop_bit 3 (ucast len - SDT_HEADER)) (\<lambda>m i. ld64 m (root + SDT_HEADER + 8 * i)))))))))"

definition found_more :: "addr \<Rightarrow> machine \<Rightarrow> bool" where
  "found_more tbl s \<longleftrightarrow> ld64 (ram s) tbl \<noteq> 0"

definition found_step :: "addr \<Rightarrow> (machine, addr) kern" where
  "found_step tbl =
     bnd (gets (\<lambda>s. ld64 (ram s) tbl)) (\<lambda>t. thn (log_line ''found acpi table '' t) (ret (tbl + 8)))"

definition acpi_init :: "services \<Rightarrow> addr \<Rightarrow> (machine, status) kern" where
  "acpi_init srv acpi =
     bnd (gets (\<lambda>s. ld32 (ram s) acpi)) (\<lambda>type.
     if type = acpi_type_code ACPI_TYPE_RSDP \<or> type = acpi_type_code ACPI_TYPE_XSDP then
       bnd (if type = acpi_type_code ACPI_TYPE_RSDP then acpi_init_rsdp srv (acpi + 8) else acpi_init_xsdp srv (acpi + 8)) (\<lambda>res.
       if ISERROR res then ret res
       else
         bnd (gets (\<lambda>s. (acpi_root s, acpi_tbls s))) (\<lambda>(root, tbls).
         thn (asrt (root \<noteq> 0)) (thn (asrt (tbls \<noteq> 0))
         (bnd (loop found_more found_step tbls) (\<lambda>tbl. ret SUCCESS)))))
     else ret (fails ENOTIMPL))"

section \<open>Checksums, signatures and tables\<close>

lemma checksum_loop:
  "n < 2 ^ 64 \<Longrightarrow> loop checksum_more checksum_step (c, p, of_nat n) m = Inr ((c + sum_list (bytes_at m p n), p + of_nat n, 0), m)"
proof (induction n arbitrary: c p)
  case (Suc n)
  have "(0 :: u64) < of_nat (Suc n)" using Suc.prems by (rule of_nat_Suc_pos)
  then have "loop checksum_more checksum_step (c, p, of_nat (Suc n)) m = loop checksum_more checksum_step (c + m p, p + 1, of_nat n) m"
    by (intro loop_step) (auto simp: kern)
  then show ?case using Suc by (simp add: add.assoc)
qed (simp add: loop_stop)

lemma checksum_run: "checksum_matches p sz m = Inr (sum_list (bytes_at m p (unat sz)) = 0, m)"
  using checksum_loop[of "unat sz" 0 p m] unat_lt64[of sz] by (simp add: checksum_matches_def bnd_Inr kern)

lemma checksum_decides: "checksum_matches p sz m = Inr ((\<Sum>b\<leftarrow>bytes_at m p (unat sz). unat b) mod 256 = 0, m)"
proof -
  have "sum_list bs = of_nat (\<Sum>b\<leftarrow>bs. unat b)" for bs :: "u8 list" by (induction bs) simp_all
  then have "sum_list bs = 0 \<longleftrightarrow> (\<Sum>b\<leftarrow>bs. unat b) mod 256 = 0" for bs :: "u8 list"
    by (simp add: word_of_nat_eq_0_iff dvd_eq_mod_eq_0)
  then show ?thesis by (simp add: checksum_run)
qed

lemma sig_loop:
  "sig_target = vs @ us \<Longrightarrow> \<exists>j. loop sig_more (sig_step p) (length vs, None) m =
    Inr ((j, if bytes_at m (p + of_nat (length vs)) (length us) = us then None else Some False), m)"
proof (induction us arbitrary: vs)
  case Nil
  then show ?case by (simp add: loop_stop)
next
  case (Cons u us)
  have i: "length vs < length sig_target" "sig_target ! length vs = u" by (simp_all add: Cons.prems)
  show ?case
  proof (cases "m (p + of_nat (length vs)) = u")
    case True
    have "loop sig_more (sig_step p) (length vs, None) m = loop sig_more (sig_step p) (length (vs @ [u]), None) m"
      using i True by (intro loop_step) (simp_all add: kern)
    moreover have "bytes_at m (p + of_nat (length vs) + 1) (length us) = bytes_at m (p + of_nat (length (vs @ [u]))) (length us)"
      by (rule arg_cong[where f = "\<lambda>a. bytes_at m a (length us)"]) simp
    ultimately show ?thesis using Cons.IH[of "vs @ [u]"] Cons.prems True by (simp del: length_append)
  next
    case False
    have "loop sig_more (sig_step p) (length vs, None) m = loop sig_more (sig_step p) (length vs, Some False) m"
      using i False by (intro loop_step) (simp_all add: kern)
    then show ?thesis using False by (simp add: loop_stop)
  qed
qed

lemma signature_decides: "signature_matches p m = Inr (bytes_at m p 8 = sig_target, m)"
proof -
  have n: "length sig_target = 8" by (simp add: sig_target_def)
  obtain j where "loop sig_more (sig_step p) (0, None) m = Inr ((j, if bytes_at m p 8 = sig_target then None else Some False), m)"
    using sig_loop[of "[]" sig_target p m] by (auto simp: n simp del: bytes_at.simps)
  then show ?thesis by (simp add: signature_matches_def bnd_Inr kern del: bytes_at.simps)
qed

text \<open>\<open>checksum_matches\<close> decides whether the bytes add up to zero modulo 256, and \<open>signature_matches\<close> whether
  the first eight are the signature of the root pointer; both return on every memory.\<close>

theorem checksum_and_signature_decide:
  "checksum_matches p sz m = Inr ((\<Sum>b\<leftarrow>bytes_at m p (unat sz). unat b) mod 256 = 0, m) \<and>
   signature_matches p m = Inr (bytes_at m p 8 = map ch ''RSD PTR '', m)"
  by (simp only: checksum_decides signature_decides sig_target_def)

text \<open>A null terminated array of pointers to tables.\<close>

fun tables_at :: "memory \<Rightarrow> addr \<Rightarrow> addr list \<Rightarrow> bool" where
  "tables_at m p [] \<longleftrightarrow> ld64 m p = 0"
| "tables_at m p (t # ts) \<longleftrightarrow> ld64 m p = t \<and> t \<noteq> 0 \<and> tables_at m (p + 8) ts"

definition logged :: "machine \<Rightarrow> string \<Rightarrow> machine" where
  "logged s text = s\<lparr>kernel := (kernel s)\<lparr>messages := messages (kernel s) @ [text]\<rparr>\<rparr>"

definition characters :: "u8 list \<Rightarrow> string" where
  "characters bs = map (\<lambda>b. char_of (unat b)) bs"

lemma in_ram_Inr: "c (ram s) = Inr (x, ram s) \<Longrightarrow> in_ram c s = Inr (x, s)"
  by (simp add: in_ram_def on_kernel_Inr on_mem_Inr)

lemma log_line_thn: "thn (log_line text sig) k s = k (logged s (text @ characters (bytes_at (ram s) sig 4)))"
  by (simp add: log_line_def thn_def bnd_def on_kernel_def zoom_def modify_def logged_def characters_def)

text \<open>What looking a signature up among the tables gives: the first table that carries it, if its checksum is right.\<close>

definition table_found :: "machine \<Rightarrow> addr \<Rightarrow> addr list \<Rightarrow> addr \<times> machine" where
  "table_found s sig ts =
     (case find (\<lambda>t. bytes_at (ram s) t 4 = bytes_at (ram s) sig 4) ts of
        None \<Rightarrow> (0, s)
      | Some t \<Rightarrow> if (\<Sum>b\<leftarrow>bytes_at (ram s) t (unat (sdt_length (ram s) t)). unat b) mod 256 = 0 then (t, s)
                else (0, logged s (''corrupted table '' @ characters (bytes_at (ram s) sig 4))))"

lemma unat_ucast32: "unat (ucast (x :: u32) :: u64) = unat x"
proof -
  have "unat x < 2 ^ 64" using unsigned_less[of x, where ?'a = nat] by simp
  then show ?thesis by (simp add: unsigned_ucast_eq take_bit_nat_eq_self)
qed

lemma table_loop:
  assumes "sig \<noteq> 0" "tables_at (ram s) p ts"
  shows "\<exists>q r. loop table_more (table_step sig) (p, None) s = Inr ((q, r), snd (table_found s sig ts)) \<and>
    (case r of Some t \<Rightarrow> t | None \<Rightarrow> 0) = fst (table_found s sig ts)"
  using assms(2)
proof (induction ts arbitrary: p)
  case Nil
  then show ?case by (simp add: loop_stop table_found_def)
next
  case (Cons t ts)
  let ?L = "loop table_more (table_step sig)"
  have more: "table_more (p, None) s" and p: "ld64 (ram s) p = t" using Cons.prems by simp_all
  have same: "in_ram (str_nequal t sig 4) s = Inr (bytes_at (ram s) t 4 = bytes_at (ram s) sig 4, s)"
    using Cons.prems assms(1) by (intro in_ram_Inr) (simp add: str_nequal_eq del: bytes_at.simps)
  have good: "in_ram (checksum_matches t n) s = Inr ((\<Sum>b\<leftarrow>bytes_at (ram s) t (unat n). unat b) mod 256 = 0, s)" for n
    by (rule in_ram_Inr) (simp add: checksum_decides)
  show ?case
  proof (cases "bytes_at (ram s) t 4 = bytes_at (ram s) sig 4")
    case False
    have "table_step sig (p, None) s = Inr ((p + 8, None), s)"
      using same False Cons.prems by (simp add: bnd_False kern)
    with more have "?L (p, None) s = ?L (p + 8, None) s" by (rule loop_step)
    moreover have "table_found s sig (t # ts) = table_found s sig ts" using False by (simp add: table_found_def del: bytes_at.simps)
    ultimately show ?thesis using Cons by simp
  next
    case True
    let ?g = "(\<Sum>b\<leftarrow>bytes_at (ram s) t (unat (sdt_length (ram s) t)). unat b) mod 256 = 0"
    let ?t = "logged s (''corrupted table '' @ characters (bytes_at (ram s) sig 4))"
    have f: "table_found s sig (t # ts) = (if ?g then (t, s) else (0, ?t))"
      using True by (simp add: table_found_def del: bytes_at.simps)
    have g: "in_ram (checksum_matches t (ucast (sdt_length (ram s) t))) s = Inr (?g, s)"
      using good[of "ucast (sdt_length (ram s) t)"] by (simp only: unat_ucast32)
    have "table_step sig (p, None) s = (if ?g then Inr ((p, Some t), s) else Inr ((p, Some 0), ?t))"
    proof -
      have same': "in_ram (str_nequal t sig 4) s = Inr (True, s)" using same True by (simp del: bytes_at.simps)
      show ?thesis
      proof (cases ?g)
        case yes: True
        then have "in_ram (checksum_matches t (ucast (sdt_length (ram s) t))) s = Inr (True, s)" using g by simp
        then show ?thesis using yes by (simp add: p bnd_Inr same' kern)
      next
        case no: False
        then have "in_ram (checksum_matches t (ucast (sdt_length (ram s) t))) s = Inr (False, s)" using g by simp
        then show ?thesis using no by (simp add: p bnd_Inr same' bnd_False log_line_thn kern)
      qed
    qed
    then have "?L (p, None) s = (if ?g then ?L (p, Some t) s else ?L (p, Some 0) ?t)"
      using more by (simp add: loop_step split: if_splits)
    then show ?thesis by (simp add: f loop_stop)
  qed
qed

text \<open>C33: Looking up a signature of four characters gives the first table that carries it, if the bytes of that table add
  up to zero; otherwise nothing, with a warning that names the signature. A shorter signature, a null pointer and
  an unknown signature give nothing.\<close>

theorem acpi_get_table_finds:
  assumes "acpi_tbls s \<noteq> 0" "tables_at (ram s) (acpi_tbls s) ts"
  shows "acpi_get_table sig s =
    (if sig = 0 \<or> 0 \<in> set (bytes_at (ram s) sig 4) then Inr (0, s)
     else case find (\<lambda>t. bytes_at (ram s) t 4 = bytes_at (ram s) sig 4) ts of
        None \<Rightarrow> Inr (0, s)
      | Some t \<Rightarrow> if (\<Sum>b\<leftarrow>bytes_at (ram s) t (unat (sdt_length (ram s) t)). unat b) mod 256 = 0 then Inr (t, s)
                else Inr (0, logged s (''corrupted table '' @ characters (bytes_at (ram s) sig 4))))"
proof (cases "sig = 0")
  case False
  have four: "in_ram (str_nlength sig 4) s = Inr (0 \<notin> set (bytes_at (ram s) sig 4), s)"
    using False by (intro in_ram_Inr) (simp add: str_nlength_decides del: bytes_at.simps)
  obtain q r where l: "loop table_more (table_step sig) (acpi_tbls s, None) s = Inr ((q, r), snd (table_found s sig ts))"
    "(case r of Some t \<Rightarrow> t | None \<Rightarrow> 0) = fst (table_found s sig ts)"
    using table_loop[OF False assms(2)] by blast
  show ?thesis
  proof (cases "0 \<in> set (bytes_at (ram s) sig 4)")
    case True
    then show ?thesis using four assms(1) False by (simp add: acpi_get_table_def bnd_False kern del: bytes_at.simps)
  next
    case n: False
    then have "acpi_get_table sig s = Inr (table_found s sig ts)"
      using four assms(1) False by (simp add: acpi_get_table_def bnd_Inr l kern del: bytes_at.simps)
    then show ?thesis using n False by (simp add: table_found_def del: bytes_at.simps split: option.splits)
  qed
qed (use assms in \<open>simp add: acpi_get_table_def kern\<close>)

section \<open>Initialisation\<close>

text \<open>A root pointer that the code accepts, and the table that its kind asks for.\<close>

definition root_pointer_ok :: "memory \<Rightarrow> addr \<Rightarrow> u8 \<Rightarrow> bool" where
  "root_pointer_ok m r revision \<longleftrightarrow> (\<Sum>b\<leftarrow>bytes_at m r 20. unat b) mod 256 = 0 \<and> bytes_at m r 8 = map ch ''RSD PTR '' \<and>
     m (r + 15) = revision"

lemma acpi_init_generic_rejects:
  assumes "\<not> root_pointer_ok (ram s) r revision"
  shows "acpi_init_generic srv r a revision s = Inr (fails EINVAL, s)"
proof -
  have "in_ram (checksum_matches r 20) s = Inr ((\<Sum>b\<leftarrow>bytes_at (ram s) r 20. unat b) mod 256 = 0, s)"
    using checksum_decides[of r 20 "ram s"] by (intro in_ram_Inr) simp
  moreover have "in_ram (signature_matches r) s = Inr (bytes_at (ram s) r 8 = map ch ''RSD PTR '', s)"
    by (rule in_ram_Inr) (simp only: signature_decides sig_target_def)
  ultimately show ?thesis
    using assms by (cases "(\<Sum>b\<leftarrow>bytes_at (ram s) r 20. unat b) mod 256 = 0"; cases "bytes_at (ram s) r 8 = map ch ''RSD PTR ''")
      (simp_all add: acpi_init_generic_def RSDP_def root_pointer_ok_def rsdp_revision_def bnd_Inr bnd_False kern del: bytes_at.simps)
qed

text \<open>C34: An unknown kind of root pointer is refused with \<open>-ENOTIMPL\<close>, whatever its contents, and a root pointer of a known
  kind with a wrong checksum, signature or revision with \<open>-EINVAL\<close>; nothing is mapped, allocated or written before these
  checks.\<close>

theorem acpi_init_rejects:
  assumes "ld32 (ram s) acpi \<notin> {1, 2} \<or>
    \<not> root_pointer_ok (ram s) (acpi + 8) (if ld32 (ram s) acpi = 1 then 0 else 2)"
  shows "acpi_init srv acpi s = Inr (fails (if ld32 (ram s) acpi \<in> {1, 2} then EINVAL else ENOTIMPL), s)"
  using assms by (auto simp: acpi_init_def acpi_init_rsdp_def acpi_init_xsdp_def bnd_Inr acpi_init_generic_rejects kern split: if_splits)

end
