(* ===== verification/Pit.thy ===== *)
theory Pit
  imports Isr
begin

text \<open>
  \<open>cpu/pit.c\<close>: the interval timer, and \<open>cpu/isr.S\<close>: the stub through which every interrupt enters the kernel. The
  references are the control word of an 8253 timer and, for the interrupts, a step relation: a step is
  one interrupt that arrives while the interrupt flag is set and is served to its end.
\<close>

section \<open>The timer\<close>

definition PIT_CMD :: u16 where "PIT_CMD = 0x43"
definition PIT_COUNTER_BINARY :: u8 where "PIT_COUNTER_BINARY = 0"
definition PIT_MODE_RATEGEN :: u8 where "PIT_MODE_RATEGEN = push_bit 1 2"
definition PIT_ACCESS_LOTHENHI :: u8 where "PIT_ACCESS_LOTHENHI = push_bit 4 4"
definition PIT_CHANNEL_CH0 :: u8 where "PIT_CHANNEL_CH0 = push_bit 6 0"
definition PIT_FREQ :: u64 where "PIT_FREQ = 1193182"
definition PIT_IRQ :: u64 where "PIT_IRQ = 32"

definition pit_handler :: "addr \<Rightarrow> (machine, status) kern" where
  "pit_handler isr_frame =
     bnd (gets (\<lambda>s. frame_isr_n (ram s) isr_frame)) (\<lambda>n. thn (asrt (n = PIT_IRQ)) (ret SUCCESS))"

definition pit_set_period_us :: "u64 \<Rightarrow> (machine, unit) kern" where
  "pit_set_period_us us =
     (if us = 0 then halt Undefined
      else let d = ucast (PIT_FREQ div us) :: u16 in
        thn (asrt (d > 1))
        (thn (io_outb (ucast PIT_CHANNEL_CH0) (ucast (d AND 0xff)))
        (io_outb (ucast PIT_CHANNEL_CH0) (ucast (drop_bit 8 d)))))"

definition pit_set_period_ms :: "u64 \<Rightarrow> (machine, unit) kern" where
  "pit_set_period_ms ms = pit_set_period_us (ms * 1000)"

definition pit_init :: "(machine, unit) kern" where
  "pit_init =
     thn (io_outb PIT_CMD (PIT_CHANNEL_CH0 OR PIT_ACCESS_LOTHENHI OR PIT_MODE_RATEGEN OR PIT_COUNTER_BINARY))
     (thn IOWAIT
     (bnd (gets a_pit_handler) (\<lambda>pit_handler.
     thn (isr_register PIT_IRQ pit_handler 0)
     (thn (pit_set_period_ms 10)
     (pic_unmask (ucast PIT_IRQ))))))"

section \<open>Entering the kernel\<close>

text \<open>
  The stub pushes the error code (zero where the processor does not push one), the vector and the fifteen
  registers, calls \<open>isr_common\<close> on the address of the last one, and pops the registers. Of the functions
  that a handler can point to, the only one in the kernel is \<open>pit_handler\<close>.
\<close>

definition PUSHREGS :: "addr \<Rightarrow> (nat \<Rightarrow> u64) \<Rightarrow> memory \<Rightarrow> memory" where
  "PUSHREGS frame regs m = fold (\<lambda>i. st64 (frame + of_nat (8 * i)) (regs i)) (rev [0..<15]) m"

definition POPREGS :: "addr \<Rightarrow> memory \<Rightarrow> u64 list" where
  "POPREGS frame m = map (\<lambda>i. ld64 m (frame + of_nat (8 * i))) [0..<15]"

definition call_handler :: "addr \<Rightarrow> addr \<Rightarrow> (machine, status) kern" where
  "call_handler h frame = bnd (gets a_pit_handler) (\<lambda>p. if h = p then pit_handler frame else halt Undefined)"

definition isr_stub :: "u64 \<Rightarrow> u64 \<Rightarrow> (nat \<Rightarrow> u64) \<Rightarrow> addr \<Rightarrow> (machine, u64 list) kern" where
  "isr_stub n err regs frame =
     thn (poke (\<lambda>m. PUSHREGS frame regs (st64 (frame + 120) n (st64 (frame + 128) err m))))
     (thn (isr_common call_handler frame)
     (gets (\<lambda>s. POPREGS frame (ram s))))"

section \<open>What reaches the timer\<close>

text \<open>
  The control word: two bits for the counter, two for the access (0 latches the count, 1 and 2 read and
  write one byte, 3 the low and then the high byte), three for the mode. The counters are at the ports
  from \<open>0x40\<close> on; counter 0 is set up once it has a control word and its count has been written.
\<close>

record control_word =
  counter :: u8
  access :: u8
  timer_mode :: u8

definition control_of :: "u8 \<Rightarrow> control_word" where
  "control_of b = \<lparr>counter = drop_bit 6 b, access = take_bit 2 (drop_bit 4 b), timer_mode = take_bit 3 (drop_bit 1 b)\<rparr>"

fun sets_up_counter :: "u8 \<Rightarrow> io_event \<Rightarrow> bool" where
  "sets_up_counter n (Out p b) \<longleftrightarrow>
     p = 0x43 \<and> counter (control_of b) = n \<and> access (control_of b) \<noteq> 0 \<or> p = 0x40 + ucast n"
| "sets_up_counter n (In p b) \<longleftrightarrow> False"

lemma pit_period_run:
  assumes "19 \<le> us" "us \<le> 596591"
  shows "\<exists>c. unat (c :: u16) = 1193182 div unat us \<and> pit_set_period_us us s =
    Inr ((), s\<lparr>trace := trace s @ [Out 0 (ucast (c AND 0xff)), Out 0 (ucast (drop_bit 8 c))]\<rparr>)"
proof -
  let ?c = "ucast (1193182 div us) :: u16"
  have us: "19 \<le> unat us" "unat us \<le> 596591" using assms by (simp_all add: word_le_nat_alt)
  have "1193182 div unat us \<le> 1193182 div 19" using us by (intro div_le_mono2) auto
  then have c: "unat ?c = 1193182 div unat us" by (simp add: unsigned_ucast_eq unat_div take_bit_nat_eq_self)
  have "2 * unat us \<le> 1193182" using us(2) by simp
  then have "2 \<le> unat ?c" unfolding c using us(1) by (simp add: less_eq_div_iff_mult_less_eq)
  then have "1 < ?c" by (simp add: word_less_nat_alt)
  moreover have "us \<noteq> 0" using us by auto
  ultimately show ?thesis using c
    by (intro exI[of _ ?c]) (simp add: pit_set_period_us_def PIT_FREQ_def PIT_CHANNEL_CH0_def Let_def kern)
qed

text \<open>The count for the timer falls as the period that is asked for grows: the frequency is divided by the number
  of microseconds, so the longer of two periods never gets the larger count. A period that is too long fails the
  assertion, and a period of zero divides by zero.\<close>

theorem pit_period_is_inverted:
  assumes "19 \<le> us" "us \<le> us'"
  shows "(if us' \<le> 596591 then \<exists>c c'. c' \<le> c \<and>
      pit_set_period_us us s = Inr ((), s\<lparr>trace := trace s @ [Out 0 (ucast (c AND 0xff)), Out 0 (ucast (drop_bit 8 (c :: u16)))]\<rparr>) \<and>
      pit_set_period_us us' s = Inr ((), s\<lparr>trace := trace s @ [Out 0 (ucast (c' AND 0xff)), Out 0 (ucast (drop_bit 8 c'))]\<rparr>)
    else pit_set_period_us us' s = Inl AssertFailed) \<and> pit_set_period_us 0 s = Inl Undefined"
proof (cases "us' \<le> 596591")
  case True
  then have le: "19 \<le> us'" "us \<le> 596591" using assms by simp_all
  obtain c where c: "unat (c :: u16) = 1193182 div unat us"
    "pit_set_period_us us s = Inr ((), s\<lparr>trace := trace s @ [Out 0 (ucast (c AND 0xff)), Out 0 (ucast (drop_bit 8 c))]\<rparr>)"
    using pit_period_run[OF assms(1) le(2)] by blast
  obtain c' where c': "unat (c' :: u16) = 1193182 div unat us'"
    "pit_set_period_us us' s = Inr ((), s\<lparr>trace := trace s @ [Out 0 (ucast (c' AND 0xff)), Out 0 (ucast (drop_bit 8 c'))]\<rparr>)"
    using pit_period_run[OF le(1) True] by blast
  have "1193182 div unat us' \<le> 1193182 div unat us"
    using assms by (intro div_le_mono2) (auto simp: word_le_nat_alt)
  then have "c' \<le> c" using c(1) c'(1) by (simp add: word_le_nat_alt)
  then show ?thesis using True c(2) c'(2) by (simp add: pit_set_period_us_def kern) blast
next
  case False
  then have us: "596591 < unat us'" by (simp add: word_le_nat_alt)
  then have "1193182 div unat us' < 2" by (simp add: div_less_iff_less_mult)
  then have "\<not> 1 < (ucast (1193182 div us') :: u16)"
    by (simp add: word_less_nat_alt unsigned_ucast_eq unat_div take_bit_nat_eq_self)
  moreover have "us' \<noteq> 0" using us by auto
  ultimately show ?thesis using False by (simp add: pit_set_period_us_def PIT_FREQ_def Let_def kern)
qed

lemma pit_init_run:
  assumes "\<not> use_new_pic s"
  shows "\<exists>v. pit_init s = Inr ((), (with_ram s (st64 (isr_slot (a_isrs s) 32) (a_pit_handler s) (ram s)))\<lparr>trace := trace s @
    [Out 0x43 0x44, Out 0x80 0, Out 0 119, Out 0 0, In 0x21 v, Out 0x21 (v AND NOT 1)]\<rparr>)"
proof -
  let ?s = "(with_ram s (st64 (isr_slot (a_isrs s) 32) (a_pit_handler s) (ram s)))\<lparr>trace := trace s @ [Out 0x43 0x44, Out 0x80 0, Out 0 119, Out 0 0]\<rparr>"
  have c: "PIT_CHANNEL_CH0 OR PIT_ACCESS_LOTHENHI OR PIT_MODE_RATEGEN OR PIT_COUNTER_BINARY = 0x44"
    by (simp add: PIT_CHANNEL_CH0_def PIT_ACCESS_LOTHENHI_def PIT_MODE_RATEGEN_def PIT_COUNTER_BINARY_def)
  have p: "pit_set_period_ms 10 t = Inr ((), t\<lparr>trace := trace t @ [Out 0 119, Out 0 0]\<rparr>)" for t
    by (simp add: pit_set_period_ms_def pit_set_period_us_def PIT_FREQ_def PIT_CHANNEL_CH0_def Let_def kern)
  have "pit_init s = pic_unmask 32 ?s"
    by (simp add: pit_init_def c PIT_CMD_def PIT_IRQ_def thn_Inr[OF isr_register_run] thn_Inr[OF p])
  then show ?thesis using assms
    by (intro exI[of _ "device s (trace s @ [Out 0x43 0x44, Out 0x80 0, Out 0 119, Out 0 0]) 0x21"]) (simp add: pic_unmask_run)
qed

text \<open>C38: No counter of the timer is ever set up: \<open>pit_init\<close> latches the count of counter 1 instead of giving counter 0 a control
  word, and sends the count of counter 0 to another port. The handler is registered all the same.\<close>

theorem pit_init_sets_up_no_counter:
  assumes "\<not> use_new_pic s"
  shows "\<exists>s' tr. pit_init s = Inr ((), s') \<and> trace s' = trace s @ tr \<and>
    (\<forall>n<3. \<not> list_ex (sets_up_counter n) tr) \<and> handler_of s' 32 = a_pit_handler s"
proof -
  obtain v where v: "pit_init s = Inr ((), (with_ram s (st64 (isr_slot (a_isrs s) 32) (a_pit_handler s) (ram s)))\<lparr>trace := trace s @
    [Out 0x43 0x44, Out 0x80 0, Out 0 119, Out 0 0, In 0x21 v, Out 0x21 (v AND NOT 1)]\<rparr>)"
    using pit_init_run[OF assms] by blast
  have c: "control_of 0x44 = \<lparr>counter = 1, access = 0, timer_mode = 2\<rparr>" by (simp add: control_of_def)
  have port: "0x40 + ucast n \<noteq> (p :: u16)" if "n < 3" "p \<in> {0, 0x21, 0x80, 0x43}" for n :: u8 and p
  proof -
    have "unat (0x40 + ucast n :: u16) = 0x40 + unat n"
      using that(1) by (simp add: unat_word_ariths unsigned_ucast_eq word_less_nat_alt take_bit_nat_eq_self)
    then show ?thesis using that by (auto simp: word_unat_eq_iff word_less_nat_alt)
  qed
  have "\<not> list_ex (sets_up_counter n) [Out 0x43 0x44, Out 0x80 0, Out 0 119, Out 0 0, In 0x21 v, Out 0x21 (v AND NOT 1)]" if "n < 3" for n
    using port[OF that] by (simp add: c)
  then show ?thesis using v by (simp add: handler_of_def)
qed


section \<open>Serving interrupts\<close>

inductive serves :: "machine \<Rightarrow> u64 \<Rightarrow> machine \<Rightarrow> bool" where
  serve: "interrupts s \<Longrightarrow> sep (a_isrs s) 2048 frame 136 \<Longrightarrow> isr_stub n err regs frame s = Inr (out, t) \<Longrightarrow> serves s n t"

inductive reaches :: "machine \<Rightarrow> u64 list \<Rightarrow> machine \<Rightarrow> bool" where
  none: "reaches s [] s"
| more: "reaches s ns t \<Longrightarrow> serves t n u \<Longrightarrow> reaches s (ns @ [n]) u"

inductive_cases servesE: "serves s n t"

lemma reg_slots_apart:
  assumes "i < 17" "j < 17" "i \<noteq> j"
  shows "sep (frame + of_nat (8 * i)) 8 (frame + of_nat (8 * j)) 8"
proof -
  have "unat (of_nat (8 * i) :: u64) = 8 * i" "unat (of_nat (8 * j) :: u64) = 8 * j"
    using assms by (simp_all add: unat_of_nat take_bit_nat_eq_self del: of_nat_mult)
  then show ?thesis using assms by (simp add: word_le_nat_alt unat_sub_if' del: of_nat_mult) linarith
qed

lemma pushed_reads:
  "distinct is \<Longrightarrow> set is \<subseteq> {..<15} \<Longrightarrow> j < 17 \<Longrightarrow>
    ld64 (fold (\<lambda>i. st64 (frame + of_nat (8 * i)) (regs i)) is m) (frame + of_nat (8 * j)) =
    (if j \<in> set is then regs j else ld64 m (frame + of_nat (8 * j)))"
proof (induction "is" arbitrary: m)
  case (Cons i "is")
  then show ?case using reg_slots_apart[of j i frame] by (auto simp: ld64_st64_sep simp del: of_nat_mult)
qed simp

lemma pushed_agree:
  assumes "sep b n frame 136" "0 < n" "set is \<subseteq> {..<17}"
  shows "agree b n m (fold (\<lambda>i. st64 (frame + of_nat (8 * i)) (regs i)) is m)"
  using assms(3)
proof (induction "is" arbitrary: m)
  case (Cons i "is")
  have "unat (of_nat (8 * i) :: u64) = 8 * i"
    using Cons.prems by (simp add: unat_of_nat take_bit_nat_eq_self del: of_nat_mult)
  then have "sep b n (frame + of_nat (8 * i)) 8"
    using sep_subD(1)[OF assms(1), of 0 n "of_nat (8 * i)" 8] Cons.prems assms(2) by (simp del: of_nat_mult)
  then have "agree b n m (st64 (frame + of_nat (8 * i)) (regs i) m)" by (rule agree_st64)
  moreover have "agree b n (st64 (frame + of_nat (8 * i)) (regs i) m)
      (fold (\<lambda>i. st64 (frame + of_nat (8 * i)) (regs i)) is (st64 (frame + of_nat (8 * i)) (regs i) m))"
    using Cons by simp
  ultimately show ?case by (simp add: agree_trans del: of_nat_mult)
qed simp

definition pushed :: "u64 \<Rightarrow> u64 \<Rightarrow> (nat \<Rightarrow> u64) \<Rightarrow> addr \<Rightarrow> memory \<Rightarrow> memory" where
  "pushed n err regs frame m = PUSHREGS frame regs (st64 (frame + 120) n (st64 (frame + 128) err m))"

lemma pushed_frame:
  "frame_isr_n (pushed n err regs frame m) frame = n" "POPREGS frame (pushed n err regs frame m) = map regs [0..<15]"
  "sep b k frame 136 \<Longrightarrow> 0 < k \<Longrightarrow> agree b k m (pushed n err regs frame m)"
proof -
  have p: "120 = (of_nat (8 * 15) :: u64)" "128 = (of_nat (8 * 16) :: u64)" by simp_all
  let ?m = "st64 (frame + of_nat (8 * 15)) n (st64 (frame + of_nat (8 * 16)) err m)"
  let ?f = "\<lambda>m. fold (\<lambda>i. st64 (frame + of_nat (8 * i)) (regs i)) (rev [0..<15]) m"
  have q: "pushed n err regs frame m = ?f ?m" by (simp only: pushed_def PUSHREGS_def p)
  have r: "ld64 (?f ?m) (frame + of_nat (8 * j)) = (if j < 15 then regs j else ld64 ?m (frame + of_nat (8 * j)))" if "j < 17" for j
    using that by (subst pushed_reads) auto
  show "frame_isr_n (pushed n err regs frame m) frame = n"
    using r[of 15] unfolding frame_isr_n_def q p(1) by simp
  show "POPREGS frame (pushed n err regs frame m) = map regs [0..<15]"
    unfolding POPREGS_def q by (rule map_cong) (use r in \<open>auto simp del: of_nat_mult upt_rec_numeral\<close>)
  assume s: "sep b k frame 136" "0 < k"
  have e: "?f ?m = fold (\<lambda>i. st64 (frame + of_nat (8 * i)) ((regs(15 := n, 16 := err)) i)) ([16, 15] @ rev [0..<15]) m"
  proof -
    have "?f ?m = fold (\<lambda>i. st64 (frame + of_nat (8 * i)) ((regs(15 := n, 16 := err)) i)) (rev [0..<15]) ?m"
      by (rule fold_cong) auto
    then show ?thesis by simp
  qed
  show "agree b k m (pushed n err regs frame m)"
    unfolding q e by (rule pushed_agree[OF s]) auto
qed

text \<open>The state of the handlers once the timer is the only one that has one.\<close>

definition timer_only :: "machine \<Rightarrow> bool" where
  "timer_only s \<longleftrightarrow> \<not> use_new_pic s \<and> a_pit_handler s \<noteq> 0 \<and>
     (\<forall>n<256. handler_of s n = (if n = PIT_IRQ then a_pit_handler s else 0))"

lemma handlers_agree: "agree (a_isrs s) 2048 (ram s) m \<Longrightarrow> n < 256 \<Longrightarrow> handler_of (with_ram s m) n = handler_of s n"
proof -
  assume "agree (a_isrs s) 2048 (ram s) m" "n < 256"
  moreover have "unat (8 * n) + 8 \<le> 2048" using \<open>n < 256\<close> by (simp add: word_less_nat_alt unat_word_ariths)
  ultimately show ?thesis using agree_ld64[of "a_isrs s" 2048 "ram s" m "8 * n"] by (simp add: handler_of_def isr_slot_def)
qed

lemma stub_enters:
  assumes "sep (a_isrs s) 2048 frame 136"
  shows "isr_stub n err regs frame s =
    thn (isr_common call_handler frame) (gets (\<lambda>s. POPREGS frame (ram s))) (with_ram s (pushed n err regs frame (ram s)))"
    "m < 256 \<Longrightarrow> handler_of (with_ram s (pushed n err regs frame (ram s))) m = handler_of s m"
  using pushed_frame(3)[OF assms] by (simp_all add: isr_stub_def pushed_def handlers_agree)

lemma timer_served:
  assumes "timer_only s" "sep (a_isrs s) 2048 frame 136"
  shows "isr_stub PIT_IRQ err regs frame s = Inr (map regs [0..<15],
    (with_ram s (pushed PIT_IRQ err regs frame (ram s)))\<lparr>trace := trace s @ [Out 0x20 0x20]\<rparr>)"
proof -
  let ?s = "with_ram s (pushed PIT_IRQ err regs frame (ram s))"
  have h: "handler_of ?s PIT_IRQ = a_pit_handler s" "a_pit_handler s \<noteq> 0" "\<not> use_new_pic s"
    using assms by (simp_all add: stub_enters timer_only_def PIT_IRQ_def)
  have "call_handler (a_pit_handler s) frame ?s = Inr (SUCCESS, ?s)"
    by (simp add: call_handler_def pit_handler_def pushed_frame(1) kern)
  then have "isr_common call_handler frame ?s = Inr ((), ?s\<lparr>trace := trace ?s @
      (if PIT_IRQ < 0x20 then [] else if PIT_IRQ < 0x28 then [Out 0x20 0x20] else [Out 0xa0 0x20, Out 0x20 0x20])\<rparr>)"
    using h by (intro isr_common_run[where t = ?s]) (simp_all add: pushed_frame(1), simp add: PIT_IRQ_def)
  then show ?thesis by (simp add: stub_enters(1)[OF assms(2)] thn_Inr pushed_frame(2) PIT_IRQ_def kern)
qed

lemma others_stop:
  assumes "timer_only s" "sep (a_isrs s) 2048 frame 136" "n \<noteq> PIT_IRQ"
  shows "isr_stub n err regs frame s = Inl AssertFailed"
proof -
  let ?s = "with_ram s (pushed n err regs frame (ram s))"
  have "255 < n \<or> handler_of ?s n = 0"
  proof (cases "n < 256")
    case True
    then show ?thesis using assms by (simp add: stub_enters timer_only_def)
  next
    case False
    then show ?thesis by (simp add: word_less_nat_alt)
  qed
  then have "isr_common call_handler frame ?s = Inl AssertFailed"
    by (rule isr_common_unhandled) (simp add: pushed_frame(1))
  then show ?thesis by (simp add: stub_enters(1)[OF assms(2)] thn_Inl)
qed

lemma timer_only_kept:
  assumes "timer_only s" "agree (a_isrs s) 2048 (ram s) m"
  shows "timer_only ((with_ram s m)\<lparr>trace := tr\<rparr>)"
  using assms handlers_agree[OF assms(2)] by (simp add: timer_only_def handler_of_def)

lemma serves_timer:
  assumes "serves s n t" "timer_only s"
  shows "n = PIT_IRQ \<and> timer_only t \<and> interrupts t \<and> a_isrs t = a_isrs s \<and> trace t = trace s @ [Out 0x20 0x20]"
  using assms(1)
proof (rule servesE)
  fix frame err regs out
  assume a: "interrupts s" "sep (a_isrs s) 2048 frame 136" "isr_stub n err regs frame s = Inr (out, t)"
  then have n: "n = PIT_IRQ" using others_stop[OF assms(2) a(2)] by force
  then have "t = (with_ram s (pushed PIT_IRQ err regs frame (ram s)))\<lparr>trace := trace s @ [Out 0x20 0x20]\<rparr>"
    using a(3) timer_served[OF assms(2) a(2)] by simp
  then show ?thesis using n a(1) timer_only_kept[OF assms(2) pushed_frame(3)[OF a(2)]] by simp
qed

lemma reaches_timer:
  "reaches s ns t \<Longrightarrow> timer_only s \<Longrightarrow> interrupts s \<Longrightarrow>
    set ns \<subseteq> {PIT_IRQ} \<and> timer_only t \<and> interrupts t \<and> a_isrs t = a_isrs s \<and> trace t = trace s @ replicate (length ns) (Out 0x20 0x20)"
proof (induction rule: reaches.induct)
  case (more s ns t n u)
  then show ?case using serves_timer[OF more.hyps(2)] by (auto simp flip: replicate_append_same)
qed simp

text \<open>The interrupts are set up the way the kernel does it.\<close>

lemma timer_set_up:
  assumes "a_isrs s \<noteq> 0" "\<forall>x. x - a_idt s < 4096 \<longrightarrow> ram s x = 0" "sep (a_isrs s) 2048 (a_idt s) 4096"
    and "a_pit_handler s \<noteq> 0" "\<not> use_new_pic s"
  shows "\<exists>s'. thn isr_init (thn pit_init int_enable) s = Inr ((), s') \<and> timer_only s' \<and> interrupts s' \<and> a_isrs s' = a_isrs s"
proof -
  let ?m = "gates_written (ucast KERNEL_CS) (a_idt s) (a_isr s) gates (filled 3840 (a_isrs s) 0 (ram s))"
  let ?i = "(with_ram s ?m)\<lparr>idtr := (4095, a_idt s)\<rparr>"
  let ?m' = "st64 (isr_slot (a_isrs s) 32) (a_pit_handler s) ?m"
  obtain v where "pit_init ?i = Inr ((), (with_ram ?i ?m')\<lparr>trace := trace s @
      [Out 0x43 0x44, Out 0x80 0, Out 0 119, Out 0 0, In 0x21 v, Out 0x21 (v AND NOT 1)]\<rparr>)"
    using pit_init_run[of ?i] assms(5) by auto
  then have "thn isr_init (thn pit_init int_enable) s = Inr ((), (with_ram ?i ?m')\<lparr>trace := trace s @
      [Out 0x43 0x44, Out 0x80 0, Out 0 119, Out 0 0, In 0x21 v, Out 0x21 (v AND NOT 1)], interrupts := True\<rparr>)"
    by (simp add: thn_Inr isr_init_run[OF assms(1)] int_enable_def kern)
  moreover
  have "ld64 ?m' (isr_slot (a_isrs s) n) = (if n = 32 then a_pit_handler s else 0)" if "n < 256" for n
    using isr_slots_apart[OF that, of 32] no_handlers_yet[OF assms(3) that] by (simp add: ld64_st64_sep)
  ultimately show ?thesis using assms(4,5) by (simp add: timer_only_def handler_of_def PIT_IRQ_def)
qed

text \<open>C30: Once the handlers and the timer are set up and interrupts are on, the kernel serves any number of timer
  interrupts, on any stack frame outside the table of handlers: the interrupted code gets all its
  registers back, and each one is ended exactly once at the controller. No other interrupt is ever
  served: it stops the machine.\<close>

theorem timer_interrupts_are_served:
  assumes "a_isrs s \<noteq> 0" "\<forall>x. x - a_idt s < 4096 \<longrightarrow> ram s x = 0" "sep (a_isrs s) 2048 (a_idt s) 4096"
    and "a_pit_handler s \<noteq> 0" "\<not> use_new_pic s"
  shows "\<exists>s'. thn isr_init (thn pit_init int_enable) s = Inr ((), s') \<and>
    (\<forall>ns t frame err regs. reaches s' ns t \<and> sep (a_isrs s) 2048 frame 136 \<longrightarrow>
      trace t = trace s' @ replicate (length ns) (Out PIC1_COMM PIC_EOI) \<and>
      (\<exists>u. isr_stub 32 err regs frame t = Inr (map regs [0..<15], u) \<and> reaches s' (ns @ [32]) u) \<and>
      (\<forall>n. n \<noteq> 32 \<longrightarrow> isr_stub n err regs frame t = Inl AssertFailed))"
proof -
  obtain s' where s': "thn isr_init (thn pit_init int_enable) s = Inr ((), s')" "timer_only s'" "interrupts s'" "a_isrs s' = a_isrs s"
    using timer_set_up[OF assms] by blast
  have "trace t = trace s' @ replicate (length ns) (Out PIC1_COMM PIC_EOI) \<and>
      (\<exists>u. isr_stub 32 err regs frame t = Inr (map regs [0..<15], u) \<and> reaches s' (ns @ [32]) u) \<and>
      (\<forall>n. n \<noteq> 32 \<longrightarrow> isr_stub n err regs frame t = Inl AssertFailed)"
    if r: "reaches s' ns t" and f: "sep (a_isrs s) 2048 frame 136" for ns t frame err regs
  proof -
    note t = reaches_timer[OF r s'(2,3)]
    have f': "sep (a_isrs t) 2048 frame 136" using t s' f by simp
    obtain u where u: "isr_stub 32 err regs frame t = Inr (map regs [0..<15], u)"
      using timer_served[OF _ f'] t by (force simp: PIT_IRQ_def)
    then have "reaches s' (ns @ [32]) u" using r f' t by (blast intro: reaches.more serves.serve)
    then show ?thesis using u t others_stop[OF _ f'] by (auto simp: PIT_IRQ_def PIC1_COMM_def PIC1_def PIC_EOI_def)
  qed
  then show ?thesis using s'(1) by blast
qed

end
