(* ===== verification/Pm_boot.thy ===== *)
theory Pm_boot
  imports Pm_demo
begin

text \<open>
  \<open>pm_init\<close>: from the memory map of the boot loader to the invariant. Two calls write past the
  object they clear: the bits of the first bitmap by 3584 bytes and the counters by 14, so the
  statics must be further apart than their sizes. \<open>boot_ready\<close> collects what is needed.
\<close>

section \<open>What must hold before\<close>

text \<open>A region that none of the writes of the initialisation reach.\<close>

definition clear_of_pm :: "symbols \<Rightarrow> addr \<Rightarrow> u64 \<Rightarrow> bool" where
  "clear_of_pm y a n \<longleftrightarrow> 0 < n \<and> sep a n (a_mem_bitmaps y) 16 \<and> sep a n (a_mem_bitmap0 y) 64 \<and>
     sep a n (a_pages_bitmap0 y) 7680 \<and> sep a n (a_mem_info y) 30"

definition statics_wide :: "symbols \<Rightarrow> bool" where
  "statics_wide y \<longleftrightarrow>
     a_mem_bitmaps y \<noteq> 0 \<and> a_mem_bitmap0 y \<noteq> 0 \<and> a_mem_info y \<noteq> 0 \<and> a_pages_bitmap0 y \<noteq> 0 \<and>
     sep (a_mem_bitmaps y) 16 (a_mem_bitmap0 y) 64 \<and> sep (a_mem_bitmaps y) 16 (a_mem_info y) 30 \<and>
     sep (a_mem_bitmaps y) 16 (a_pages_bitmap0 y) 7680 \<and> sep (a_mem_bitmap0 y) 64 (a_mem_info y) 30 \<and>
     sep (a_mem_bitmap0 y) 64 (a_pages_bitmap0 y) 7680 \<and> sep (a_mem_info y) 30 (a_pages_bitmap0 y) 4096"

lemma sep_shrink:
  "sep a n b k \<Longrightarrow> unat n' \<le> unat n \<Longrightarrow> unat k' \<le> unat k \<Longrightarrow> 0 < n' \<Longrightarrow> 0 < k' \<Longrightarrow> sep a n' b k'"
  using sep_sub[of a n b k 0 n' 0 k'] by simp

lemma statics_wide_apart: "statics_wide y \<Longrightarrow> statics_apart y"
  by (auto simp: statics_wide_def statics_apart_def elim: sep_shrink)

type_synonym segment = "u32 \<times> addr \<times> u64"

definition mem_map_is :: "memory \<Rightarrow> addr \<Rightarrow> segment list \<Rightarrow> bool" where
  "mem_map_is m a segs \<longleftrightarrow> length segs < 2 ^ 59 \<and> mem_map_entries m a = of_nat (length segs) \<and>
     (\<forall>i<length segs. let p = mem_map_segments m a + of_nat i * 24 in
        (segment_type m p, segment_addr m p, segment_length m p) = segs ! i)"

definition low_reserved :: "segment \<Rightarrow> bool" where
  "low_reserved = (\<lambda>(ty, a, n). ty = BOOTINFO_MEM_SEGMENT_TYPE_RESERVED \<and> unat a < 134217728)"

definition segment_pages :: "segment \<Rightarrow> nat set" where
  "segment_pages = (\<lambda>(ty, a, n). if low_reserved (ty, a, n) then
     (if n = 0 then {page_of a} else page_range a n) else {})"

definition segment_fits :: "segment \<Rightarrow> bool" where
  "segment_fits = (\<lambda>(ty, a, n). low_reserved (ty, a, n) \<longrightarrow> page_of a + unat (PAGES n) \<le> 32768)"

definition total_length :: "segment list \<Rightarrow> u64" where
  "total_length segs = (\<Sum>(ty, a, n)\<leftarrow>segs. n)"

section \<open>The first bitmap\<close>

lemma store_bitmap_agree: "sep a n b 32 \<Longrightarrow> 0 < n \<Longrightarrow> agree a n m (store_bitmap b r m)"
  unfolding store_bitmap_def
  by (rule agree_trans[OF _ agree_st64], rule agree_trans[OF _ agree_st64], rule agree_trans[OF _ agree_st64],
      rule agree_st64) (auto intro: sep_sub0[of a n b 32] elim: sep_shrink)

lemma zero_bits:
  assumes "ld64 m (b + 24) = p" "ld64 m (b + 8) = 32768" "\<And>x. x - p < 4096 \<Longrightarrow> m x = 0"
  shows "bitmap_bits b m = {}"
proof -
  have "\<not> bit_at m p i" if "i < 32768" for i
  proof -
    have "(of_nat (i div 8) :: u64) < 4096"
      using that by (simp add: word_less_nat_alt unat_of_nat take_bit_nat_eq_self)
    then show ?thesis using assms(3) by (simp add: bit_at_def)
  qed
  then show ?thesis using assms(1,2) by (auto simp: bitmap_bits_def bitmap_len_def)
qed

lemma written_4096: "written 4096 = 7680"
  by (simp add: written_def)

lemma written_16: "written 16 = 30"
  by (simp add: written_def)

lemma agree_only_nodes:
  assumes "only_nodes S m m'" "\<And>b. b \<in> S \<Longrightarrow> sep a n b 16"
  shows "agree a n m m'"
  unfolding agree_def
proof (intro allI impI)
  fix x assume "x - a < n"
  then have "\<not> x - b < 16" if "b \<in> S" for b using sep_outside assms(2)[OF that] by blast
  then show "m' x = m x" using assms(1) unfolding only_nodes_def by blast
qed

text \<open>The memory before the first bitmap is linked in.\<close>

definition bitmap0_record :: "symbols \<Rightarrow> bitmap" where
  "bitmap0_record y = \<lparr>bm_bytes = 4096, bm_size = 32768, bm_unset = 32768, bm_map = a_pages_bitmap0 y\<rparr>"

definition init_memory :: "symbols \<Rightarrow> memory \<Rightarrow> memory" where
  "init_memory y m =
     (let H = a_mem_bitmaps y; B = a_mem_bitmap0 y in
      store_bitmap (B + 32) (bitmap0_record y)
        (filled 7680 (a_pages_bitmap0 y) 0
          (st64 (B + 24) 0 (st64 (B + 16) 0 (st_prev H H (st_next H H m))))))"

lemma init_memory_agree:
  assumes "0 < n" "sep a n (a_mem_bitmaps y) 16" "sep a n (a_mem_bitmap0 y) 64" "sep a n (a_pages_bitmap0 y) 7680"
  shows "agree a n m (init_memory y m)"
proof -
  let ?H = "a_mem_bitmaps y" and ?B = "a_mem_bitmap0 y"
  have h: "sep a n (?H + 8) 8" "sep a n ?H 8" "sep a n (?B + 24) 8" "sep a n (?B + 16) 8" "sep a n (?B + 32) 32"
    using sep_sub0[OF assms(2), of n 8 8] sep_shrink[OF assms(2), of n 8] sep_sub0[OF assms(3), of n 24 8]
      sep_sub0[OF assms(3), of n 16 8] sep_sub0[OF assms(3), of n 32 32] assms(1) by simp_all
  show ?thesis unfolding init_memory_def Let_def st_prev_def st_next_def
    by (rule agree_trans[OF _ store_bitmap_agree[OF h(5) assms(1)]], rule agree_trans[OF _ agree_filled[OF assms(4)]],
        rule agree_trans[OF _ agree_st64[OF h(3)]], rule agree_trans[OF _ agree_st64[OF h(4)]],
        rule agree_trans[OF _ agree_st64[OF h(2)]], rule agree_st64[OF h(1)], simp)
qed

lemma init_memory_reads:
  assumes y: "statics_wide y"
  defines "H \<equiv> a_mem_bitmaps y" and "B \<equiv> a_mem_bitmap0 y"
  shows "ring (init_memory y m) H []" "ld64 (init_memory y m) (B + 16) = 0" "ld64 (init_memory y m) (B + 24) = 0"
    "load_bitmap (init_memory y m) (B + 32) = bitmap0_record y"
    "x - a_pages_bitmap0 y < 4096 \<Longrightarrow> init_memory y m x = 0"
proof -
  let ?P = "a_pages_bitmap0 y"
  have sp: "H \<noteq> 0" "sep H 16 B 64" "sep H 16 ?P 7680" "sep B 64 ?P 7680"
    using y by (simp_all add: statics_wide_def H_def B_def)
  let ?m1 = "st_prev H H (st_next H H m)"
  let ?m3 = "st64 (B + 24) 0 (st64 (B + 16) 0 ?m1)"
  let ?m4 = "filled 7680 ?P 0 ?m3"
  have e: "init_memory y m = store_bitmap (B + 32) (bitmap0_record y) ?m4"
    by (simp add: init_memory_def Let_def H_def B_def)
  have hb: "sep H 16 (B + 24) 8" "sep H 16 (B + 16) 8" "sep H 16 (B + 32) 32"
    using sep_sub0[OF sp(2), of 16 24 8] sep_sub0[OF sp(2), of 16 16 8] sep_sub0[OF sp(2), of 16 32 32] by simp_all
  have "agree H 16 ?m1 (init_memory y m)" unfolding e
    by (rule agree_trans[OF _ store_bitmap_agree[OF hb(3)]], rule agree_trans[OF _ agree_filled[OF sp(3)]],
        rule agree_trans[OF _ agree_st64[OF hb(1)]], rule agree_st64[OF hb(2)], simp_all)
  then have "ring (init_memory y m) H [] = ring ?m1 H []" by (intro agree_ring) simp
  then show "ring (init_memory y m) H []" using ring_init[OF sp(1)] by simp
  have bp: "sep (B + 16) 16 ?P 7680" using sep_sub1[OF sp(4), of 16 16 7680] by simp
  have "agree (B + 16) 16 ?m3 (init_memory y m)" unfolding e
    by (rule agree_trans[OF _ store_bitmap_agree], rule agree_filled[OF bp]) simp_all
  note ag = this
  have e8: "B + 16 + 8 = B + 24" by simp
  show "ld64 (init_memory y m) (B + 16) = 0" "ld64 (init_memory y m) (B + 24) = 0"
    using agree_ld64[OF ag, of 0] agree_ld64[OF ag, of 8, unfolded e8] by (simp_all add: ld64_st64_sep)
  show "load_bitmap (init_memory y m) (B + 32) = bitmap0_record y" unfolding e by simp
  show "init_memory y m x = 0" if x: "x - ?P < 4096"
  proof -
    have "sep ?P 4096 (B + 32) 32" using sep_sub[OF sp(4), of 32 32 0 4096] by (simp add: sep_sym)
    then have "agree ?P 4096 ?m4 (init_memory y m)" unfolding e by (rule store_bitmap_agree) simp
    then have "init_memory y m x = ?m4 x" using x by (simp add: agree_def)
    also have "\<dots> = 0" using x by (simp add: filled_def word_less_nat_alt)
    finally show ?thesis .
  qed
qed

lemma init_first_run:
  assumes y: "statics_wide (sym s)"
  obtains m' where "init_first_bitmap s = Inr ((), s\<lparr>mem := m', first_free_bitmap := bm0 s\<rparr>)"
    "only_nodes {a_mem_bitmaps (sym s), bm0 s} (init_memory (sym s) (mem s)) m'"
    "ring m' (a_mem_bitmaps (sym s)) [bm0 s]"
proof -
  let ?H = "a_mem_bitmaps (sym s)" and ?B = "bm0 s" and ?P = "a_pages_bitmap0 (sym s)"
  let ?m = "init_memory (sym s) (mem s)"
  have z: "?H \<noteq> 0" "?B \<noteq> 0" "?P \<noteq> 0" "sep ?H 16 ?B 64" using y by (simp_all add: statics_wide_def bm0_def)
  have s16: "sep ?H 16 ?B 16" using sep_shrink[OF z(4), of 16 16] by simp
  have ap: "?B \<notin> set [?H]" "apart (insert ?B (set [?H]))"
    using z s16 by (auto simp: apart_def sep_sym sep_def)
  obtain m' where m': "list_insert ?H ?B ?m = Inr ((), m')" "ring m' ?H [?B]" "only_nodes (insert ?B (set [?H])) ?m m'"
    by (rule ring_insert_head[OF init_memory_reads(1)[OF y] ap], rule that, assumption+)
  have i1: "list_init ?H (mem s) = Inr ((), st_prev ?H ?H (st_next ?H ?H (mem s)))" using ring_init[OF z(1)] by blast
  have bf: "bitmap_from BITMAP_SIZE ?P m = Inr (bitmap0_record (sym s), filled 7680 ?P 0 m)" for m
    using bitmap_from_eq[OF z(3), of 32768 m]
    by (simp add: BITMAP_SIZE_def BITMAP_BYTES_def push_bit_eq_mult drop_bit_eq_div written_4096 bitmap0_record_def)
  have "init_first_bitmap s = Inr ((), s\<lparr>mem := m', first_free_bitmap := ?B\<rparr>)"
    using m'(1) by (simp add: init_first_bitmap_def on_mem_Inr thn_Inr bnd_Inr i1 bf init_memory_def Let_def
        mb_super_def bm0_def kern)
  then show thesis using that m'(2,3) by (simp add: insert_commute)
qed

lemma ld64_filled:
  assumes "unat i + 8 \<le> n" "n \<le> 2 ^ 63"
  shows "ld64 (filled n a 0 m) (a + i) = 0"
proof (rule ld64_zero)
  fix x assume "x - (a + i) < 8"
  then have l: "unat (x - (a + i)) < 8" by (simp add: word_less_nat_alt)
  have e: "x - (a + i) + i = x - a" by simp
  have "unat (x - (a + i) + i) = unat (x - (a + i)) + unat i"
    using l assms by (subst unat_word_ariths) simp
  then have "unat (x - a) < n" unfolding e using l assms(1) by simp
  then show "filled n a 0 m x = 0" by (simp add: filled_def)
qed

text \<open>The state in which the segments are added up.\<close>

text \<open>A single bitmap without a locked page satisfies the invariant.\<close>

lemma empty_bitmap_ok:
  assumes y: "statics_wide (sym u)" and b: "first_free_bitmap u = bm0 u" and r: "ring (mem u) (a_mem_bitmaps (sym u)) [bm0 u]"
    and rd: "ld64 (mem u) (bm0 u + 16) = 0" "ld64 (mem u) (bm0 u + 24) = 0" "ld64 (mem u) (bm0 u + 32) = 4096"
    "ld64 (mem u) (bm0 u + 40) = 32768" "ld64 (mem u) (bm0 u + 48) = 32768" "ld64 (mem u) (bm0 u + 56) = a_pages_bitmap0 (sym u)"
    and P: "\<And>x. x - a_pages_bitmap0 (sym u) < 4096 \<Longrightarrow> mem u x = 0"
  shows "pm_ok u" "locked u = {}"
proof -
  let ?B = "bm0 u" and ?P = "a_pages_bitmap0 (sym u)"
  have f: "ld64 (mem u) (mb_super ?B) = 4096" "ld64 (mem u) (mb_super ?B + 8) = 32768"
    "ld64 (mem u) (mb_super ?B + 16) = 32768" "ld64 (mem u) (mb_super ?B + 24) = ?P"
    using rd by (simp_all add: mb_super_def add.assoc)
  have bits: "bitmap_bits (mb_super ?B) (mem u) = {}" by (rule zero_bits[OF f(4,2) P])
  have "sep ?B 64 ?P 7680" using y by (simp add: statics_wide_def bm0_def)
  then have "sep (mb_super ?B) 32 ?P 4096" using sep_sub1[of ?B 64 ?P 7680 32 32 4096] by (simp add: mb_super_def)
  then have wf: "bitmap_wf (mb_super ?B) (mem u)"
    by (simp add: bitmap_wf_def bitmap_len_def bits f drop_bit_eq_div)
  have sh: "pm_shape u"
    using statics_wide_apart[OF y] r wf rd f by (simp add: pm_shape_def b mb_index_def bitmap_len_def)
  show l: "locked u = {}" using bits by (simp add: locked_def)
  have "first_free u = 0" using rd by (simp add: first_free_def mb_first_free_def)
  then show "pm_ok u" using sh l by (simp add: pm_ok_def)
qed

text \<open>What the first bitmap holds after its initialisation and the clearing of the counters.\<close>

lemma first_bitmap_reads:
  assumes y: "statics_wide y" and o: "only_nodes {a_mem_bitmaps y, a_mem_bitmap0 y} (init_memory y m) m'"
  defines "u \<equiv> filled 30 (a_mem_info y) 0 m'" and "B \<equiv> a_mem_bitmap0 y"
  shows "ld64 u (B + 16) = 0" "ld64 u (B + 24) = 0" "ld64 u (B + 32) = 4096" "ld64 u (B + 40) = 32768" "ld64 u (B + 48) = 32768"
    "ld64 u (B + 56) = a_pages_bitmap0 y" "x - a_pages_bitmap0 y < 4096 \<Longrightarrow> u x = 0"
proof -
  let ?H = "a_mem_bitmaps y" and ?P = "a_pages_bitmap0 y" and ?M = "a_mem_info y" and ?m = "init_memory y m"
  have sp: "sep ?H 16 B 64" "sep B 64 ?M 30" "sep ?M 30 ?P 4096" "sep ?H 16 ?P 7680" "sep B 64 ?P 7680"
    using y by (simp_all add: statics_wide_def B_def)
  have Mf: "agree a n m' u" if "sep a n ?M 30" for a n unfolding u_def by (rule agree_filled[OF that]) simp
  have tl: "agree (B + 16) 48 ?m u"
  proof (rule agree_trans)
    have "sep (B + 16) 48 ?H 16" using sep_sub[OF sp(1), of 0 16 16 48] by (simp add: sep_sym)
    then show "agree (B + 16) 48 ?m m'" by (intro agree_only_nodes[OF o]) (auto simp: B_def)
    show "agree (B + 16) 48 m' u" using Mf sep_sub1[OF sp(2), of 16 48 30] by simp
  qed
  have e: "B + 16 + 8 = B + 24" "B + 16 + 16 = B + 32" "B + 16 + 24 = B + 40" "B + 16 + 32 = B + 48" "B + 16 + 40 = B + 56" by simp_all
  have "load_bitmap ?m (B + 32) = bitmap0_record y" using init_memory_reads(4)[OF y] by (simp add: B_def)
  then have lb: "ld64 ?m (B + 32) = 4096" "ld64 ?m (B + 40) = 32768" "ld64 ?m (B + 48) = 32768" "ld64 ?m (B + 56) = ?P"
    by (simp_all add: load_bitmap_def bitmap0_record_def off_norm)
  show "ld64 u (B + 16) = 0" "ld64 u (B + 24) = 0" "ld64 u (B + 32) = 4096" "ld64 u (B + 40) = 32768" "ld64 u (B + 48) = 32768"
    "ld64 u (B + 56) = ?P"
    using agree_ld64[OF tl, of 0] agree_ld64[OF tl, of 8, unfolded e] agree_ld64[OF tl, of 16, unfolded e]
      agree_ld64[OF tl, of 24, unfolded e] agree_ld64[OF tl, of 32, unfolded e] agree_ld64[OF tl, of 40, unfolded e]
      init_memory_reads(2,3)[OF y, of m] lb by (simp_all add: B_def)
  have "sep ?P 4096 ?H 16" "sep ?P 4096 B 16" "sep ?P 4096 ?M 30"
    using sep_shrink[OF sp(4), of 16 4096] sep_shrink[OF sp(5), of 16 4096] sp(3) by (simp_all add: sep_sym)
  then have "agree ?P 4096 ?m m'" "agree ?P 4096 m' u" using Mf by (auto intro: agree_only_nodes[OF o] simp: B_def)
  then show "u x = 0" if "x - ?P < 4096" using init_memory_reads(5)[OF y that] that by (simp add: agree_def)
qed

lemma first_bitmap_ok:
  assumes y: "statics_wide (sym s)"
  obtains t where "init_first_bitmap s = Inr ((), t)"
    "on_mem (mem_set (a_mem_info (sym s)) 0 16) t = Inr ((), t\<lparr>mem := filled 30 (a_mem_info (sym s)) 0 (mem t)\<rparr>)"
    "pm_ok (t\<lparr>mem := filled 30 (a_mem_info (sym s)) 0 (mem t)\<rparr>)"
    "locked (t\<lparr>mem := filled 30 (a_mem_info (sym s)) 0 (mem t)\<rparr>) = {}"
    "used (t\<lparr>mem := filled 30 (a_mem_info (sym s)) 0 (mem t)\<rparr>) = 0"
    "free (t\<lparr>mem := filled 30 (a_mem_info (sym s)) 0 (mem t)\<rparr>) = 0"
    "t = s\<lparr>mem := mem t, first_free_bitmap := bm0 s\<rparr>"
    "\<And>a n. clear_of_pm (sym s) a n \<Longrightarrow> agree a n (mem s) (mem t)"
proof -
  let ?H = "a_mem_bitmaps (sym s)" and ?B = "bm0 s" and ?M = "a_mem_info (sym s)" and ?m = "init_memory (sym s) (mem s)"
  from init_first_run[OF y] obtain m' where
    run: "init_first_bitmap s = Inr ((), s\<lparr>mem := m', first_free_bitmap := ?B\<rparr>)"
    and o: "only_nodes {?H, ?B} ?m m'" and r: "ring m' ?H [?B]" .
  define t where "t = s\<lparr>mem := m', first_free_bitmap := ?B\<rparr>"
  define u where "u = t\<lparr>mem := filled 30 ?M 0 (mem t)\<rparr>"
  have sp: "sep ?H 16 ?M 30" "sep ?B 64 ?M 30" "?M \<noteq> 0" using y by (simp_all add: statics_wide_def bm0_def)
  have u': "sym u = sym s" "bm0 u = ?B" "first_free_bitmap u = ?B" "mem u = filled 30 ?M 0 m'" by (simp_all add: u_def t_def bm0_def)
  have "agree ?H 16 m' (mem u)" "agree ?B 16 m' (mem u)"
    unfolding u'(4) using sp(1) sep_shrink[OF sp(2), of 16 30] by (auto intro: agree_filled)
  then have ring: "ring (mem u) ?H [?B]" using r by (subst agree_ring[of _ _ m']) auto
  note rd = first_bitmap_reads[OF y o[unfolded bm0_def], folded u'(4) bm0_def]
  have ok: "pm_ok u" "locked u = {}" by (rule empty_bitmap_ok; use y ring rd u' in simp)+
  have uf: "used u = 0" "free u = 0"
    using ld64_filled[of 0 30 ?M m'] ld64_filled[of 8 30 ?M m']
    by (simp_all add: used_def free_def mi_used_def mi_free_def u')
  have ms: "on_mem (mem_set ?M 0 16) t = Inr ((), u)"
    unfolding u_def by (rule on_mem_Inr) (simp add: mem_set_eq sp(3) written_16)
  have ag: "agree a n (mem s) (mem t)" if "clear_of_pm (sym s) a n" for a n
  proof -
    have c: "0 < n" "sep a n ?H 16" "sep a n ?B 64" "sep a n (a_pages_bitmap0 (sym s)) 7680"
      using that by (simp_all add: clear_of_pm_def bm0_def)
    have "agree a n (mem s) ?m" by (rule init_memory_agree) (use c in \<open>simp_all add: bm0_def\<close>)
    moreover have "agree a n ?m m'"
      using c sep_shrink[OF c(3), of n 16] by (intro agree_only_nodes[OF o]) auto
    ultimately show ?thesis by (auto simp: t_def intro: agree_trans)
  qed
  have tt: "t = s\<lparr>mem := mem t, first_free_bitmap := ?B\<rparr>" by (simp add: t_def)
  have k: "init_first_bitmap s = Inr ((), t)" by (simp add: run t_def)
  show thesis
    using that[OF k _ _ _ _ _ tt] ms ok uf ag unfolding u_def by blast
qed

section \<open>Adding up the segments\<close>

lemma add_free_run: "thn (add_free f) k s = k (with_counters (used s) (free s + f) s)"
  by (simp add: add_free_def with_counters_def used_def free_def mi_used_def mi_free_def Let_def)

lemma clear_frame:
  assumes "pm_frame s t" "clear_of_pm (sym s) a n"
  shows "agree a n (mem s) (mem t)"
proof -
  have c: "sep a n (bm0 s) 64" "sep a n (a_pages_bitmap0 (sym s)) 7680" "sep a n (a_mem_info (sym s)) 30" "0 < n"
    using assms(2) by (simp_all add: clear_of_pm_def bm0_def)
  have c': "sep a n (a_pages_bitmap0 (sym s)) 4096" "sep a n (a_mem_info (sym s)) 16"
    using sep_shrink[OF c(2), of n 4096] sep_shrink[OF c(3), of n 16] c(4) by simp_all
  show ?thesis unfolding agree_def
  proof (intro allI impI)
    fix x assume x: "x - a < n"
    show "mem t x = mem s x"
      using assms(1) sep_outside[OF c(1) x] sep_outside[OF c'(1) x] sep_outside[OF c'(2) x]
      unfolding pm_frame_def by blast
  qed
qed

lemma agree_segment:
  assumes "agree p 24 m m'"
  shows "segment_type m' p = segment_type m p" "segment_addr m' p = segment_addr m p"
    "segment_length m' p = segment_length m p"
  using agree_ld64[OF assms, of 0] agree_ld64[OF assms, of 8] agree_ld64[OF assms, of 16]
  by (simp_all add: segment_type_def ld32_def segment_addr_def segment_length_def)

text \<open>Locking the pages of a reserved segment.\<close>

lemma lock_segment_run:
  assumes v: "pm_ok v" and low: "low_reserved (ty, a, n)" and fits: "segment_fits (ty, a, n)"
    and k: "k < 32768" "k \<notin> locked v" "k \<notin> segment_pages (ty, a, n)"
  shows "\<exists>b u'. pm_try_lock_pages srv a n v = Inr (b, u') \<and> pm_ok u' \<and>
    locked u' = locked v \<union> segment_pages (ty, a, n) \<and> pm_frame v u' \<and>
    used u' = used v + 4096 * of_nat (card (segment_pages (ty, a, n) - locked v)) \<and>
    used u' + free u' = used v + free v"
proof (cases "n = 0")
  case True
  have a: "unat a < 134217728" using low by (simp add: low_reserved_def)
  have pg: "segment_pages (ty, a, n) = {page_of a}" "unat (TOINDEX a) = page_of a"
    using True low index_low[OF a] by (simp_all add: segment_pages_def page_of_def)
  have "k \<noteq> unat (TOINDEX a)" "k \<notin> locked v" using k pg by auto
  from lock_page_run[OF v a k(1) this(2,1), of srv] obtain u' where r:
    "pm_try_lock_page srv a v = Inr (page_of a \<notin> locked v, u')" "pm_ok u'"
    "locked u' = insert (page_of a) (locked v)" "pm_frame v u'"
    "used u' = used v + (if page_of a \<in> locked v then 0 else 4096)"
    "free u' = free v - (if page_of a \<in> locked v then 0 else 4096)" unfolding pg by blast
  have c: "card ({page_of a} - locked v) = (if page_of a \<in> locked v then 0 else 1)"
    by (simp add: insert_Diff_if)
  show ?thesis unfolding pg(1) c
  proof (intro exI conjI)
    show "pm_try_lock_pages srv a n v = Inr (page_of a \<notin> locked v, u')"
      using True r(1) by (simp add: pm_try_lock_pages_def)
    show "used u' + free u' = used v + free v" unfolding r(5,6) by simp
  qed (use r(2-5) in simp_all)
next
  case False
  have pg: "segment_pages (ty, a, n) = page_range a n"
    using False low by (simp add: segment_pages_def)
  have "unat a div 4096 + unat (PAGES n) \<le> 32768"
    using fits low by (simp add: segment_fits_def page_of_def)
  from lock_pages_run[OF v False this k(1), of srv] k pg show ?thesis by auto
qed

lemma segment_step:
  assumes u: "pm_ok u" and p: "mem_map_segments (mem u) mm + i * 24 = p" "clear_of_pm (sym u) p 24"
    and seg: "segment_type (mem u) p = ty" "segment_addr (mem u) p = a" "segment_length (mem u) p = n"
    and fits: "segment_fits (ty, a, n)"
    and k: "k < 32768" "k \<notin> locked u" "k \<notin> segment_pages (ty, a, n)"
  shows "\<exists>u'. mem_size_step srv mm i u = Inr (i + 1, u') \<and> pm_ok u' \<and>
    locked u' = locked u \<union> segment_pages (ty, a, n) \<and> pm_frame u u' \<and>
    used u' = used u + 4096 * of_nat (card (segment_pages (ty, a, n) - locked u)) \<and>
    used u' + free u' = used u + free u + n"
proof -
  define v where "v = with_counters (used u) (free u + n) u"
  have sh: "pm_shape u" using u by (rule pm_ok_shape)
  note vw = with_counters_view[OF sh, of "used u" "free u + n", folded v_def]
  have v: "pm_ok v" "locked v = locked u" "used v = used u" "free v = free u + n" "pm_frame u v"
    using u vw frame_counters by (simp_all add: pm_ok_def v_def with_counters_same)
  have s': "segment_type (mem v) p = ty" "segment_addr (mem v) p = a" "segment_length (mem v) p = n"
    using agree_segment[OF clear_frame[OF v(5) p(2)]] seg by simp_all
  have run: "mem_size_step srv mm i u =
      bnd (if ty = BOOTINFO_MEM_SEGMENT_TYPE_RESERVED \<and> TOBITMAP a = 0
             then pm_try_lock_pages srv a n else ret True) (\<lambda>ignored. ret (i + 1)) v"
    by (simp add: mem_size_step_def p(1) seg s' add_free_run v_def[symmetric])
  show ?thesis
  proof (cases "low_reserved (ty, a, n)")
    case False
    then have "mem_size_step srv mm i u = Inr (i + 1, v)" "segment_pages (ty, a, n) = {}"
      by (auto simp: run low_reserved_def TOBITMAP_0 segment_pages_def kern)
    with v show ?thesis by simp
  next
    case True
    then have res: "mem_size_step srv mm i u = bnd (pm_try_lock_pages srv a n) (\<lambda>ignored. ret (i + 1)) v"
      and a: "unat a < 134217728" by (simp_all add: run low_reserved_def TOBITMAP_0)
    from lock_segment_run[OF v(1) True fits k(1) _ k(3), of srv] k(2) v(2) obtain b u' where r: "pm_try_lock_pages srv a n v = Inr (b, u')" "pm_ok u'"
      "locked u' = locked v \<union> segment_pages (ty, a, n)" "pm_frame v u'"
      "used u' = used v + 4096 * of_nat (card (segment_pages (ty, a, n) - locked v))"
      "used u' + free u' = used v + free v" by auto
    have "mem_size_step srv mm i u = Inr (i + 1, u')"
      unfolding res by (cases b) (simp_all add: bnd_Inr bnd_False r(1) kern)
    moreover have "used u' + free u' = used u + free u + n" using r(6) v(3,4) by simp
    moreover have "locked u' = locked u \<union> segment_pages (ty, a, n)" using r(3) v(2) by simp
    moreover have "used u' = used u + 4096 * of_nat (card (segment_pages (ty, a, n) - locked u))"
      using r(5) v(2,3) by simp
    ultimately show ?thesis using r(2) pm_frame_trans[OF v(5) r(4)] by blast
  qed
qed

lemma low_index:
  assumes "j < length segs" "length segs < 2 ^ 59"
  shows "(of_nat j :: u64) < of_nat (length segs)"
  using assms by (simp add: word_less_nat_alt unat_of_nat take_bit_nat_eq_self)

definition reserved_pages :: "segment list \<Rightarrow> nat set" where
  "reserved_pages segs = \<Union> (segment_pages ` set segs)"

lemma card_union: "finite A \<Longrightarrow> finite B \<Longrightarrow> card (A \<union> B) = card A + card (B - A)"
  using card_Un_disjoint[of A "B - A"] by (simp add: Un_Diff_cancel)

lemma finite_segment_pages [simp]: "finite (segment_pages x)"
  by (cases x) (auto simp: segment_pages_def page_range_def)

lemma segments_loop:
  assumes map: "mem_map_is m mm segs" and clear: "clear_of_pm y mm 16"
    "\<And>i. i < length segs \<Longrightarrow> clear_of_pm y (mem_map_segments m mm + of_nat i * 24) 24"
    and fits: "list_all segment_fits segs" and k: "k < 32768" "k \<notin> reserved_pages segs"
  shows "j \<le> length segs \<Longrightarrow> pm_ok u \<Longrightarrow> sym u = y \<Longrightarrow> (\<And>a n. clear_of_pm y a n \<Longrightarrow> agree a n m (mem u)) \<Longrightarrow>
    locked u = reserved_pages (take j segs) \<Longrightarrow> used u = 4096 * of_nat (card (locked u)) \<Longrightarrow>
    used u + free u = total_length (take j segs) \<Longrightarrow>
    \<exists>i u'. loop (mem_size_more mm) (mem_size_step srv mm) (of_nat j) u = Inr (i, u') \<and> pm_ok u' \<and>
      locked u' = reserved_pages segs \<and> used u' = 4096 * of_nat (card (locked u')) \<and>
      used u' + free u' = total_length segs \<and> pm_frame u u'"
proof (induction "length segs - j" arbitrary: j u)
  case 0
  then have "j = length segs" by simp
  moreover have "ld64 (mem u) mm = ld64 m mm" using agree_ld64[OF 0(5)[OF clear(1)], of 0] by simp
  then have "mem_map_entries (mem u) mm = of_nat (length segs)"
    using map by (simp add: mem_map_is_def mem_map_entries_def)
  ultimately show ?case using 0 by (auto simp: loop_stop)
next
  case (Suc d)
  let ?p = "mem_map_segments m mm + of_nat j * 24"
  have j: "j < length segs" using Suc.hyps(2) by simp
  have mm: "ld64 (mem u) mm = ld64 m mm" "ld64 (mem u) (mm + 8) = ld64 m (mm + 8)"
    using agree_ld64[OF Suc.prems(4)[OF clear(1)], of 0] agree_ld64[OF Suc.prems(4)[OF clear(1)], of 8] by simp_all
  then have p: "mem_map_segments (mem u) mm + of_nat j * 24 = ?p" by (simp add: mem_map_segments_def)
  obtain ty a n where sj: "segs ! j = (ty, a, n)" by (cases "segs ! j")
  have seg: "segment_type (mem u) ?p = ty" "segment_addr (mem u) ?p = a" "segment_length (mem u) ?p = n"
    using agree_segment[OF Suc.prems(4)[OF clear(2)[OF j]]] map j sj by (auto simp: mem_map_is_def Let_def)
  have fit: "segment_fits (ty, a, n)" using fits j sj by (metis list_all_length)
  have tk: "take (Suc j) segs = take j segs @ [(ty, a, n)]" using j sj by (simp add: take_Suc_conv_app_nth)
  have "reserved_pages (take (Suc j) segs) \<subseteq> reserved_pages segs"
    unfolding reserved_pages_def using set_take_subset[of "Suc j" segs] by auto
  then have kk: "k \<notin> locked u" "k \<notin> segment_pages (ty, a, n)" using k(2) Suc.prems(5) unfolding tk
    by (auto simp: reserved_pages_def)
  have cl: "clear_of_pm (sym u) ?p 24" using clear(2)[OF j] Suc.prems(3) by simp
  obtain u1 where s1: "mem_size_step srv mm (of_nat j) u = Inr (of_nat j + 1, u1)" "pm_ok u1"
    "locked u1 = locked u \<union> segment_pages (ty, a, n)" "pm_frame u u1"
    "used u1 = used u + 4096 * of_nat (card (segment_pages (ty, a, n) - locked u))"
    "used u1 + free u1 = used u + free u + n"
    using segment_step[OF Suc.prems(2) p cl seg fit k(1) kk, of srv] by blast
  have "mem_map_entries (mem u) mm = of_nat (length segs)" "length segs < 2 ^ 59"
    using map mm by (simp_all add: mem_map_is_def mem_map_entries_def)
  then have g: "mem_size_more mm (of_nat j) u" using low_index[OF j] by simp
  have step: "loop (mem_size_more mm) (mem_size_step srv mm) (of_nat j) u =
      loop (mem_size_more mm) (mem_size_step srv mm) (of_nat (Suc j)) u1"
    by (rule loop_step, rule g) (simp add: s1(1) add.commute)
  have y1: "sym u1 = y" using pm_frame_sym[OF s1(4)] Suc.prems(3) by simp
  have "\<exists>i u'. loop (mem_size_more mm) (mem_size_step srv mm) (of_nat (Suc j)) u1 = Inr (i, u') \<and> pm_ok u' \<and>
      locked u' = reserved_pages segs \<and> used u' = 4096 * of_nat (card (locked u')) \<and>
      used u' + free u' = total_length segs \<and> pm_frame u1 u'"
  proof (rule Suc.hyps(1))
    show "d = length segs - Suc j" "Suc j \<le> length segs" using Suc.hyps(2) j by simp_all
    show "agree a n m (mem u1)" if "clear_of_pm y a n" for a n
      using Suc.prems(4)[OF that] clear_frame[OF s1(4)] that Suc.prems(3) by (blast intro: agree_trans)
    show "locked u1 = reserved_pages (take (Suc j) segs)"
      unfolding tk s1(3) Suc.prems(5) by (auto simp: reserved_pages_def)
    show "used u1 = 4096 * of_nat (card (locked u1))"
      unfolding s1(3,5) Suc.prems(6) by (simp add: card_union algebra_simps)
    show "used u1 + free u1 = total_length (take (Suc j) segs)"
      using s1(6) Suc.prems(7) unfolding tk by (simp add: total_length_def)
  qed (rule s1 y1)+
  then show ?case unfolding step using pm_frame_trans[OF s1(4)] by blast
qed

section \<open>Initialisation\<close>

definition boot_ready :: "kst \<Rightarrow> segment list \<Rightarrow> bool" where
  "boot_ready s segs \<longleftrightarrow>
     (let y = sym s; mm = bootinfo_mem_map (K_bootinfo (mem s) (a_K y)) in
      statics_wide y \<and> \<not> subsys_init_pm (mem s) (a_K y) \<and> clear_of_pm y (a_K y + 8) 8 \<and>
      clear_of_pm y mm 16 \<and> mem_map_is (mem s) mm segs \<and>
      (\<forall>i<length segs. clear_of_pm y (mem_map_segments (mem s) mm + of_nat i * 24) 24) \<and>
      list_all segment_fits segs \<and> LAYOUT_PADDR_START y \<noteq> LAYOUT_PADDR_END y \<and>
      page_of (LAYOUT_PADDR_START y) + unat (PAGES (LAYOUT_PADDR_END y - LAYOUT_PADDR_START y)) \<le> 32768)"

text \<open>The pages that belong to nobody but the firmware and the kernel image.\<close>

definition boot_pages :: "symbols \<Rightarrow> segment list \<Rightarrow> nat set" where
  "boot_pages y segs = reserved_pages segs \<union>
     page_range (LAYOUT_PADDR_START y) (LAYOUT_PADDR_END y - LAYOUT_PADDR_START y)"

lemma pm_frame_messages: "pm_frame s s' \<Longrightarrow> messages s' = messages s"
  by (cases s; cases s') (simp add: pm_frame_def)

lemma compute_run:
  assumes ready: "boot_ready s segs" and k: "k < 32768" "k \<notin> reserved_pages segs"
  obtains t u where "init_first_bitmap s = Inr ((), t)"
    "compute_mem_size srv (bootinfo_mem_map (K_bootinfo (mem t) (a_K (sym s)))) t = Inr ((), u)"
    "pm_ok u" "locked u = reserved_pages segs" "used u = 4096 * of_nat (card (locked u))"
    "used u + free u = total_length segs" "sym u = sym s" "u = s\<lparr>mem := mem u, first_free_bitmap := bm0 s\<rparr>"
proof -
  let ?y = "sym s" and ?M = "a_mem_info (sym s)"
  let ?mm = "bootinfo_mem_map (K_bootinfo (mem s) (a_K ?y))"
  have r: "statics_wide ?y" "clear_of_pm ?y (a_K ?y + 8) 8" "clear_of_pm ?y ?mm 16" "mem_map_is (mem s) ?mm segs"
    "\<And>i. i < length segs \<Longrightarrow> clear_of_pm ?y (mem_map_segments (mem s) ?mm + of_nat i * 24) 24"
    "list_all segment_fits segs"
    using ready by (simp_all add: boot_ready_def Let_def)
  obtain t where t: "init_first_bitmap s = Inr ((), t)"
    "on_mem (mem_set ?M 0 16) t = Inr ((), t\<lparr>mem := filled 30 ?M 0 (mem t)\<rparr>)"
    "pm_ok (t\<lparr>mem := filled 30 ?M 0 (mem t)\<rparr>)" "locked (t\<lparr>mem := filled 30 ?M 0 (mem t)\<rparr>) = {}"
    "used (t\<lparr>mem := filled 30 ?M 0 (mem t)\<rparr>) = 0" "free (t\<lparr>mem := filled 30 ?M 0 (mem t)\<rparr>) = 0"
    "t = s\<lparr>mem := mem t, first_free_bitmap := bm0 s\<rparr>"
    "\<And>a n. clear_of_pm ?y a n \<Longrightarrow> agree a n (mem s) (mem t)"
    by (rule first_bitmap_ok[OF r(1)], rule that, assumption+)
  let ?u = "t\<lparr>mem := filled 30 ?M 0 (mem t)\<rparr>"
  have y: "sym t = ?y" using arg_cong[OF t(7), of sym] by simp
  have ag: "agree a n (mem s) (mem ?u)" if c: "clear_of_pm ?y a n" for a n
  proof -
    have "sep a n ?M 30" using c by (simp add: clear_of_pm_def)
    then have "agree a n (mem t) (mem ?u)" by (simp add: agree_filled)
    with t(8)[OF c] show ?thesis by (rule agree_trans)
  qed
  have kb: "K_bootinfo (mem t) (a_K ?y) = K_bootinfo (mem s) (a_K ?y)"
    using agree_ld64[OF t(8)[OF r(2)], of 0] by (simp add: K_bootinfo_def)
  have y': "sym ?u = ?y" using y by simp
  have e: "locked ?u = reserved_pages (take 0 segs)" "used ?u = 4096 * of_nat (card (locked ?u))"
    "used ?u + free ?u = total_length (take 0 segs)"
    unfolding t(4-6) by (simp_all add: reserved_pages_def total_length_def)
  obtain i u where l: "loop (mem_size_more ?mm) (mem_size_step srv ?mm) (of_nat 0) ?u = Inr (i, u)" and
    u: "pm_ok u" "locked u = reserved_pages segs" "used u = 4096 * of_nat (card (locked u))"
       "used u + free u = total_length segs" "pm_frame ?u u"
    using segments_loop[OF r(4,3,5,6) k le0 t(3) y' ag e, of srv] by blast
  have l0: "loop (mem_size_more ?mm) (mem_size_step srv ?mm) 0 ?u = Inr (i, u)" using l by simp
  have cm: "compute_mem_size srv ?mm t = Inr ((), u)"
    by (simp add: compute_mem_size_def y t(2) thn_Inr bnd_Inr kern l0)
  have "sym u = sym s" using pm_frame_sym[OF u(5)] y by simp
  moreover have "u = s\<lparr>mem := mem u, first_free_bitmap := bm0 s\<rparr>"
  proof -
    have "u = t\<lparr>mem := mem u\<rparr>" using u(5) by (simp add: pm_frame_def)
    also have "\<dots> = s\<lparr>mem := mem u, first_free_bitmap := bm0 s\<rparr>" by (subst t(7)) simp
    finally show ?thesis .
  qed
  ultimately show thesis using that[OF t(1) _ u(1-4)] cm kb by simp
qed

lemma pm_init_run:
  assumes ready: "boot_ready s segs"
    and k: "k1 < 32768" "k2 < 32768" "k1 \<noteq> k2" "k1 \<notin> boot_pages (sym s) segs" "k2 \<notin> boot_pages (sym s) segs"
    and room: "4096 \<le> total_length segs - 4096 * of_nat (card (boot_pages (sym s) segs))"
  shows "\<exists>s'. pm_init srv s = Inr ((), s') \<and> pm_ok s' \<and>
    unat (next_bitmap_page s') = (LEAST n. n \<notin> boot_pages (sym s) segs) * 4096 \<and>
    locked s' = insert (LEAST n. n \<notin> boot_pages (sym s) segs) (boot_pages (sym s) segs) \<and>
    used s' = 4096 * of_nat (card (locked s')) \<and> used s' + free s' = total_length segs \<and>
    messages s' = messages s @ [''physical memory manager initialized''] \<and>
    s' = s\<lparr>mem := mem s', first_free_bitmap := bm0 s, next_bitmap_page := next_bitmap_page s', messages := messages s'\<rparr>"
proof -
  let ?y = "sym s" and ?S = "LAYOUT_PADDR_START (sym s)" and ?E = "LAYOUT_PADDR_END (sym s)"
  let ?A = "boot_pages ?y segs"
  have r: "\<not> subsys_init_pm (mem s) (a_K ?y)" "?E - ?S \<noteq> 0" "unat ?S div 4096 + unat (PAGES (?E - ?S)) \<le> 32768"
    using ready by (auto simp: boot_ready_def Let_def page_of_def)
  have k': "k1 \<notin> reserved_pages segs" "k1 \<notin> page_range ?S (?E - ?S)" using k(4) by (auto simp: boot_pages_def)
  obtain t u where tu: "init_first_bitmap s = Inr ((), t)"
    "compute_mem_size srv (bootinfo_mem_map (K_bootinfo (mem t) (a_K ?y))) t = Inr ((), u)"
    "pm_ok u" "locked u = reserved_pages segs" "used u = 4096 * of_nat (card (locked u))"
    "used u + free u = total_length segs" "sym u = ?y" "u = s\<lparr>mem := mem u, first_free_bitmap := bm0 s\<rparr>"
    by (rule compute_run[OF ready k(1) k'(1), of srv], rule that, assumption+)
  have "k1 \<notin> locked u" using k' tu(4) by simp
  from lock_pages_run[OF tu(3) r(2,3) k(1) this k'(2), of srv] obtain b v where
    v: "pm_try_lock_pages srv ?S (?E - ?S) u = Inr (b, v)" "pm_ok v"
      "locked v = locked u \<union> page_range ?S (?E - ?S)" "pm_frame u v"
      "used v = used u + 4096 * of_nat (card (page_range ?S (?E - ?S) - locked u))"
      "used v + free v = used u + free u" by blast
  have A: "locked v = ?A" using v(3) tu(4) by (simp add: boot_pages_def)
  have fin: "finite (page_range ?S (?E - ?S))" by (simp add: page_range_def)
  have uv: "used v = 4096 * of_nat (card (locked v))"
    unfolding v(5) v(3) tu(5) by (simp add: card_union fin algebra_simps)
  have "free v = total_length segs - used v" using v(6) tu(6) by (simp add: algebra_simps)
  then have room': "4096 \<le> free v" using room unfolding uv A by simp
  obtain k where k3: "k < 32768" "k \<notin> locked v" "k \<noteq> unat (first_free v)"
    using k unfolding A by metis
  from request_run[OF v(2) room' k3, of srv] obtain w where
    w: "pm_request_page srv v = Inr (TOPADDR 0 (first_free v), w)" "pm_ok w"
      "locked w = insert (unat (first_free v)) (locked v)" "used w = used v + 4096" "free w = free v - 4096"
      "pm_frame v w" by metis
  have ff: "unat (first_free v) = (LEAST n. n \<notin> ?A)" "unat (first_free v) < 32768" "unat (first_free v) \<notin> locked v"
    using ok_first_free[OF v(2)] v(2) A by (simp_all add: pm_ok_def)
  define w' where "w' = w\<lparr>next_bitmap_page := TOPADDR 0 (first_free v),
     messages := messages w @ [''physical memory manager initialized'']\<rparr>"
  have run: "pm_init srv s = Inr ((), w')"
    by (cases b) (simp_all add: pm_init_def r(1) thn_Inr bnd_Inr bnd_False tu(1,2,7) pm_try_lock_range_def v(1) w(1) w'_def kern)
  have same: "pm_ok w' = pm_ok w" "locked w' = locked w" "used w' = used w" "free w' = free w"
    by (simp_all add: w'_def pm_ok_def pm_shape_def locked_def used_def free_def first_free_def bm0_def)
  have "used w' = 4096 * of_nat (card (locked w'))"
    unfolding same w(3,4) uv using ff(3) by (simp add: algebra_simps)
  moreover have "used w' + free w' = total_length segs" unfolding same w(4,5) using v(6) tu(6) by simp
  moreover have ws: "w = s\<lparr>mem := mem w, first_free_bitmap := bm0 s\<rparr>"
  proof -
    have "w = u\<lparr>mem := mem w\<rparr>" using pm_frame_trans[OF v(4) w(6)] by (simp add: pm_frame_def)
    also have "\<dots> = s\<lparr>mem := mem w, first_free_bitmap := bm0 s\<rparr>" by (subst tu(8)) simp
    finally show ?thesis .
  qed
  have "messages w = messages s" by (subst ws) simp
  then have "messages w' = messages s @ [''physical memory manager initialized'']" by (simp add: w'_def)
  moreover have "unat (next_bitmap_page w') = (LEAST n. n \<notin> ?A) * 4096"
    using page_address(1)[OF ff(2)] ff(1) by (simp add: w'_def)
  moreover have "locked w' = insert (LEAST n. n \<notin> ?A) ?A" unfolding same w(3) A ff(1) ..
  moreover have "w' = s\<lparr>mem := mem w', first_free_bitmap := bm0 s, next_bitmap_page := next_bitmap_page w', messages := messages w'\<rparr>"
    unfolding w'_def by (subst ws) simp
  ultimately show ?thesis using run w(2) same(1) by blast
qed

text \<open>C3: \<open>pm_init\<close> establishes the invariant: afterwards exactly the reserved segments below
  128 MB, the kernel image and the page set aside for the next bitmap are locked, the used bytes are
  those of the locked pages, and used and free bytes add up to the length of all segments.\<close>

theorem pm_init_effect:
  assumes ready: "boot_ready s segs"
    and k: "k1 < 32768" "k2 < 32768" "k1 \<noteq> k2" "k1 \<notin> boot_pages (sym s) segs" "k2 \<notin> boot_pages (sym s) segs"
    and room: "4096 \<le> total_length segs - 4096 * of_nat (card (boot_pages (sym s) segs))"
  shows "\<exists>s'. pm_init srv s = Inr ((), s') \<and> pm_ok s' \<and>
    unat (next_bitmap_page s') = (LEAST n. n \<notin> boot_pages (sym s) segs) * 4096 \<and>
    locked s' = insert (LEAST n. n \<notin> boot_pages (sym s) segs) (boot_pages (sym s) segs) \<and>
    used s' = 4096 * of_nat (card (locked s')) \<and> used s' + free s' = total_length segs \<and>
    messages s' = messages s @ [''physical memory manager initialized'']"
  using pm_init_run[OF assms, of srv] by blast

text \<open>A memory map with a reserved and an available segment.\<close>

definition boot_memory :: memory where
  "boot_memory = st64 0xA028 0x7f8000 (st64 0xA020 0x8000 (st64 0xA018 1 (st64 0xA010 0x8000
     (st64 0x9018 0xA000 (st64 0x9010 2 (st64 0x7008 0x9000 (\<lambda>_. 0)))))))"

definition boot_state :: kst where
  "boot_state = demo_state\<lparr>mem := boot_memory\<rparr>"

lemma boot_reads:
  "ld64 boot_memory 0x7000 = 0" "ld64 boot_memory 0x7008 = 0x9000" "ld64 boot_memory 0x9010 = 2"
  "ld64 boot_memory 0x9018 = 0xA000" "ld64 boot_memory 0xA000 = 0" "ld64 boot_memory 0xA008 = 0"
  "ld64 boot_memory 0xA010 = 0x8000" "ld64 boot_memory 0xA018 = 1" "ld64 boot_memory 0xA020 = 0x8000"
  "ld64 boot_memory 0xA028 = 0x7f8000"
  by (simp_all add: boot_memory_def ld64_st64_sep sep_def ld64_blank)

lemma boot_state_ready: "boot_ready boot_state [(0, 0, 0x8000), (1, 0x8000, 0x7f8000)]"
proof -
  have "(2 :: nat) < 2 ^ 59" by simp
  then have "mem_map_is boot_memory 0x9010 [(0, 0, 0x8000), (1, 0x8000, 0x7f8000)]"
    by (simp add: mem_map_is_def mem_map_entries_def mem_map_segments_def boot_reads segment_type_def ld32_def
        segment_addr_def segment_length_def Let_def All_less_Suc)
  then show ?thesis
    by (simp add: boot_ready_def Let_def boot_state_def demo_state_def demo_symbols_def statics_wide_def sep_def
        subsys_init_pm_def ld32_def boot_reads clear_of_pm_def bootinfo_mem_map_def K_bootinfo_def
        mem_map_segments_def segment_fits_def low_reserved_def BOOTINFO_MEM_SEGMENT_TYPE_RESERVED_def
        page_of_def unat_PAGES All_less_Suc)
qed

lemma boot_state_pages:
  "boot_pages (sym boot_state) [(0, 0, 0x8000), (1, 0x8000, 0x7f8000)] = {0..<8} \<union> {16..<32}"
  by (simp add: boot_pages_def reserved_pages_def segment_pages_def low_reserved_def
      BOOTINFO_MEM_SEGMENT_TYPE_RESERVED_def page_range_def boot_state_def demo_state_def demo_symbols_def unat_PAGES)

lemma pm_init_effect_witness:
  "\<exists>s'. pm_init no_services boot_state = Inr ((), s') \<and> pm_ok s' \<and> unat (next_bitmap_page s') = 8 * 4096 \<and>
     locked s' = {0..<9} \<union> {16..<32}"
proof -
  have l: "(LEAST n. n \<notin> {0..<8} \<union> {16..<32::nat}) = 8"
    by (rule Least_equality) (auto simp: not_less[symmetric])
  have c: "card ({0..<8} \<union> {16..<32::nat}) = 24" by (subst card_Un_disjoint) auto
  have i: "insert 8 ({0..<8} \<union> {16..<32::nat}) = {0..<9} \<union> {16..<32}" by auto
  show ?thesis
    using pm_init_effect[OF boot_state_ready, of 40 41 no_services, unfolded boot_state_pages l c i]
    by (auto simp: total_length_def)
qed

end
