(* ===== verification/Vm_limits.thy ===== *)
theory Vm_limits
  imports Vm_ops
begin

text \<open>
  Where the page table code does not do what it means to: a new table faults while it is cleared,
  mapping beside a page with the same flags never ends, and new flags reach other pages through the
  upper tables.
\<close>

section \<open>New tables\<close>

lemma zero_words_split: "zero_words (n + k) a = thn (zero_words n a) (zero_words k (a + of_nat (8 * n)))"
proof (induction n arbitrary: a)
  case 0
  show ?case by (rule ext) simp
next
  case (Suc n)
  show ?case
  proof
    fix s
    have "(a + 8) + of_nat (8 * n) = a + of_nat (8 * Suc n)" by simp
    then show "zero_words (Suc n + k) a s = thn (zero_words (Suc n) a) (zero_words k (a + of_nat (8 * Suc n))) s"
      unfolding add_Suc zero_words.simps Suc.IH[of "a + 8"] thn_def bnd_assoc by (simp only:)
  qed
qed

lemma slot_number:
  assumes "unat i < 512"
  shows "slot i = PT_TMP_START_VADDR + i * 4096"
proof -
  have i: "bit i k \<Longrightarrow> k < 9" for k
    using low9_id[OF assms] low9_bits[of k] by (metis bit_and_iff)
  have "PT_TMP_START_VADDR AND push_bit 12 i = 0"
    by (rule bit_word_eqI) (auto simp: bit_and_iff bit_push_bit_iff tmp_start_bits dest: i)
  moreover have "PT_TMP_START_VADDR OR push_bit 12 i = slot i"
    by (rule bit_word_eqI) (auto simp: bit_or_iff bit_push_bit_iff tmp_start_bits slot_bit dest: i bit_imp_le_length)
  moreover have "push_bit 12 i = i * 4096" by (simp add: push_bit_eq_mult)
  ultimately show ?thesis using word_plus_and_or[of PT_TMP_START_VADDR "push_bit 12 i"] by simp
qed

lemma slot_next: "unat i < 511 \<Longrightarrow> slot i + 4096 = slot (i + 1)"
  using slot_number[of i] slot_number[of "i + 1"] Suc_index[of i] by (simp add: algebra_simps)

lemma slot_inside:
  assumes "unat i < 512" "unat off < 4096"
  shows "pt_index (slot i + off) = i" "PAGEOFFSET (slot i + off) = off" "PT_TMP_START_VADDR \<le> slot i + off"
proof -
  have al: "ISPAGEALIGNED (slot i)" by (simp add: ISPAGEALIGNED_def slot_offset)
  have "unat (pt_index (slot i)) + 0 < 512" by simp
  note p = page_sum[OF al this assms(2)]
  show "pt_index (slot i + off) = i" using p(1) by (simp add: indices_of_def slot_index assms)
  show "PAGEOFFSET (slot i + off) = off" using p(2) by simp
  have "slot i \<le> slot i OR off" by (rule le_word_or2)
  then show "PT_TMP_START_VADDR \<le> slot i + off"
    using slot_ge[of i] unfolding page_or_offset[OF al assms(2)] by (rule order_trans[rotated])
qed

lemma slot_page:
  assumes "unat i < 512" "unat off < 4096"
  shows "pt_page s (slot i + off) = (if present (tmp_entry s (unat i)) then Some (PTEPADDR (tmp_entry s (unat i))) else None)"
  using slot_inside[OF assms] by (simp add: pt_page_def tmp_entry_def Let_def)

text \<open>Clearing words of the page in a slot.\<close>

lemma zero_words_slot:
  "unat i < 512 \<Longrightarrow> present (tmp_entry s (unat i)) \<Longrightarrow> p = PTEPADDR (tmp_entry s (unat i)) \<Longrightarrow> p \<noteq> tmp_frame s \<Longrightarrow>
    m + n \<le> 512 \<Longrightarrow> zero_words n (slot i + of_nat (8 * m)) s =
      Inr ((), upd s ((frames s)(p := cleared_row n m (frames s p))) (invalidated s))"
proof (induction n arbitrary: m s)
  case 0
  then show ?case by (simp add: kern)
next
  case (Suc n)
  let ?a = "slot i + of_nat (8 * m)"
  let ?s = "upd s ((frames s)(p := (frames s p)(m := 0))) (invalidated s)"
  have m: "m < 512" "unat (of_nat (8 * m) :: addr) = 8 * m" using Suc.prems(5)
    by (simp_all add: unat_of_nat take_bit_nat_eq_self del: of_nat_mult)
  then have off: "unat (of_nat (8 * m) :: addr) < 4096" by simp
  note sl = slot_inside[OF Suc.prems(1) off]
  have pg: "pt_page s ?a = Some p" using slot_page[OF Suc.prems(1) off, of s] Suc.prems(2,3) by simp
  have ix: "unat (drop_bit 3 (of_nat (8 * m) :: addr)) = m"
    by (simp only: unat_drop_bit_eq m(2)) (simp add: drop_bit_eq_div)
  have "wr_pte ?a (drop_bit 3 (PAGEOFFSET ?a)) 0 s = Inr ((), ?s)"
    using wr_pte_run[OF pg, of "drop_bit 3 (of_nat (8 * m))"] ix m(1) set_entry_upd[OF Suc.prems(4)]
    unfolding sl(2) by simp
  then have step: "zero_words (Suc n) ?a s = zero_words n (?a + 8) ?s" by (simp add: thn_Inr)
  have a8: "?a + 8 = slot i + of_nat (8 * Suc m)" by simp
  have fr: "frames ?s p = (frames s p)(m := 0)" using Suc.prems(4) by (simp add: fun_eq_iff)
  have "zero_words n (slot i + of_nat (8 * Suc m)) ?s =
      Inr ((), upd ?s ((frames ?s)(p := cleared_row n (Suc m) (frames ?s p))) (invalidated ?s))"
    by (rule Suc.IH) (use Suc.prems in simp_all)
  also have "upd ?s ((frames ?s)(p := cleared_row n (Suc m) (frames ?s p))) (invalidated ?s)
      = upd s ((frames s)(p := cleared_row (Suc n) m (frames s p))) (invalidated s)"
    unfolding fr cleared_row_Suc[of n m] by (simp add: upd_def tmp_frame_def fun_eq_iff)
  finally show ?case unfolding step a8 .
qed

lemma create_pt_run:
  assumes req: "req s0 = Inr (paddr, s)" and w: "tmp_ok s" "unat (first_free_tmp_index s) + 1 \<in> tmp_free s"
    and pt: "pt \<noteq> 0" "index < PT_LENGTH" and p: "PTEPADDR paddr \<noteq> tmp_frame s"
    and f: "unat (first_free_tmp_index s) \<in> tmp_free s"
  shows "create_pt req pt index s0 = Inl PageFault"
proof -
  let ?f = "first_free_tmp_index s" and ?o = "opened s paddr"
  have ne: "tmp_free s \<noteq> {}" using f by auto
  have f511: "unat ?f < 511" "unat ?f + 1 < 511" using f w(2) by (auto simp: tmp_free_def)
  have f512: "unat ?f < 512" using f511(1) by simp
  have e: "tmp_entry ?o (unat ?f) = set_pte paddr VM_FLAG_WRITABLE" by (simp add: opened_entry)
  have z: "zero_words 512 (slot ?f) ?o = Inr ((), upd ?o ((frames ?o)(PTEPADDR paddr :=
      cleared_row 512 0 (frames ?o (PTEPADDR paddr)))) (invalidated ?o))"
    using zero_words_slot[OF f512, of ?o "PTEPADDR paddr" 0 512] p e by (simp add: opened_same)
  let ?t = "upd ?o ((frames ?o)(PTEPADDR paddr := cleared_row 512 0 (frames ?o (PTEPADDR paddr)))) (invalidated ?o)"
  have u: "unat (?f + 1) = Suc (unat ?f)" using f511 by (intro Suc_index) simp
  have "tmp_entry ?t (unat (?f + 1)) = tmp_entry s (Suc (unat ?f))" unfolding u by (simp add: opened_entry)
  moreover have "\<not> present (tmp_entry s (Suc (unat ?f)))" using w(2) by (simp add: tmp_free_def)
  ultimately have "pt_page ?t (slot (?f + 1)) = None"
    using slot_page[of "?f + 1" 0 ?t] f511(2) unfolding u by simp
  then have "wr_pte (slot (?f + 1)) (drop_bit 3 (PAGEOFFSET (slot (?f + 1)))) 0 ?t = Inl PageFault"
    by (simp add: wr_pte_def slot_offset PT_LENGTH_def kern del: upd_window)
  then have t: "zero_words (Suc 447) (slot (?f + 1)) ?t = Inl PageFault"
    unfolding zero_words.simps by (rule thn_Inl)
  have a: "slot ?f + of_nat (8 * 512) = slot (?f + 1)" using slot_next[OF f511(1)] by simp
  have "written PT_SIZE div 8 = 512 + Suc 447" by (simp add: written_def PT_SIZE_def PAGE_SIZE_def)
  then have "mem_set_window (slot ?f) PT_SIZE ?o = Inl PageFault"
    using z t by (simp only: mem_set_window_def zero_words_split[of 512 "Suc 447"] a thn_simps slot_nonzero not_False_eq_True if_True)
      (simp add: thn_Inr del: upd_window zero_words.simps)
  then show ?thesis
    using pt window_map[OF w(1) ne, of paddr] by (simp add: create_pt_def req bnd_Inr thn_Inl del: zero_words.simps)
qed

text \<open>Creating a page table faults whenever the slot after the first free one is free too, as it is
  when nothing is mapped in the window: clearing the new table runs over its end by seven eighths of
  its size into the next page, which is not mapped.\<close>

theorem create_pt_faults:
  assumes "req s0 = Inr (paddr, s)" "tmp_ok s" "unat (first_free_tmp_index s) \<in> tmp_free s"
    "unat (first_free_tmp_index s) + 1 \<in> tmp_free s" "pt \<noteq> 0" "index < PT_LENGTH" "PTEPADDR paddr \<noteq> tmp_frame s"
  shows "create_pt req pt index s0 = Inl PageFault"
  by (rule create_pt_run) (use assms in simp_all)

section \<open>Mapping beside pages with the same flags\<close>

lemma loop_forever:
  assumes "b v s" "c v s = Inr (v, s)"
  shows "loop b c v s = Inl Diverges"
  by (rule loop_never[where I = "\<lambda>w t. w = v \<and> t = s"]) (use assms in auto)

lemma find_leaf_diverges:
  assumes pg: "pt_page s pt = Some p" and i: "unat i < 512" and e: "present (frames s p (unat i))"
    "pte_flags_match (frames s p (unat i)) fl" "PTEPADDR (frames s p (unat i)) \<noteq> pa"
    and fl: "\<not> ISFLAGSET fl VM_FLAG_STRICT" and k: "0 < pages"
  shows "find_body rec PT_LAST_LEVEL pt [i] pa pages fl s = Inl Diverges"
proof -
  have lt: "i < 512" using i by (simp add: word_less_nat_alt)
  have "scan_step rec PT_LAST_LEVEL pt pa pages fl (i, [i], 0, Go) s = Inr ((i, [i], 0, Break), s)"
    using e fl k lt by (simp add: PT_LENGTH_def bnd_Inr rd_pte_run[OF pg i] kern)
  then have l1: "loop scan_more (scan_step rec PT_LAST_LEVEL pt pa pages fl) (i, [i], 0, Go) s = Inr ((i, [i], 0, Break), s)"
    by (intro loop_once) simp_all
  have "count_step pt 1 pages fl (i, pa, 0, False) s = Inr ((i, pa, 0, True), s)"
    using e k lt by (simp add: PT_LENGTH_def bnd_Inr rd_pte_run[OF pg i] kern)
  then have l2: "loop count_more (count_step pt 1 pages fl) (i, pa, 0, False) s = Inr ((i, pa, 0, True), s)"
    by (intro loop_once) simp_all
  have "find_step rec PT_LAST_LEVEL pt pa pages fl (i, [i], Go) s = Inr ((i, [i], Go), s)"
    using lt fl k by (simp add: bnd_Inr l1 l2 pages_per_leaf PT_LENGTH_def kern)
  then have "loop find_more (find_step rec PT_LAST_LEVEL pt pa pages fl) (i, [i], Go) s = Inl Diverges"
    by (intro loop_forever) simp_all
  then show ?thesis by (simp add: find_body_def bnd_Inl)
qed

lemma find_space_diverges:
  "at_table (Suc n) s pt p is \<Longrightarrow> reach (frames s) p is \<Longrightarrow> leaf (frames s) p is = (l, i) \<Longrightarrow>
    present (frames s l i) \<Longrightarrow> pte_flags_match (frames s l i) fl \<Longrightarrow> PTEPADDR (frames s l i) \<noteq> pa \<Longrightarrow>
    \<not> ISFLAGSET fl VM_FLAG_STRICT \<Longrightarrow> 0 < pages \<Longrightarrow> find_space (Suc n) pt is pa pages fl s = Inl Diverges"
proof (induction n arbitrary: s pt p "is")
  case 0
  then obtain j where j: "is = [j]" by (auto simp: at_table_def length_Suc_conv)
  have "pt_page s pt = Some p" "unat j < 512" using 0(1) j by (auto simp: at_table_def)
  moreover have "l = p" "i = unat j" using 0(3) j by auto
  ultimately show ?case
    using find_leaf_diverges[of s pt p j fl pa pages] 0(4-8) j
    by (simp add: level_of_def PT_LAST_LEVEL_def PT_NUM_LEVELS_def)
next
  case (Suc n)
  then obtain j js where j: "is = j # js" by (cases "is") (auto simp: at_table_def)
  note at = Suc.prems(1)[unfolded j]
  have lt: "Suc n < 4" and ne: "js \<noteq> []" using at by (auto simp: at_table_def)
  have pr: "present (frames s p (unat j))" using Suc.prems(2) j ne by (intro reach_present) auto
  let ?q = "PTEPADDR (frames s p (unat j))" and ?v = "slot (first_free_tmp_index s)"
  note d = at_table_down[OF at pr]
  have re: "reach (frames s) ?q js" "leaf (frames s) ?q js = (l, i)" using Suc.prems(2,3) j ne by (cases js; auto)+
  have t: "tmp_frame s \<notin> set (path (frames s) ?q js)" using at pr by (auto simp: at_table_def)
  have re': "reach (frames (opened s ?q)) ?q js" "leaf (frames (opened s ?q)) ?q js = (l, i)"
    using leaf_cong[of "frames s" ?q js "frames (opened s ?q)"] re t by (metis opened_same(4))+
  have "l \<noteq> tmp_frame s" using leaf_in_path[OF ne re(1)] re(2) t by auto
  then have row: "frames (opened s ?q) l = frames s l" by (simp add: opened_same)
  have rec: "find_space (Suc n) ?v js pa pages fl (opened s ?q) = Inl Diverges"
    by (rule Suc.IH[OF d(1) re']) (simp_all only: row Suc.prems not_False_eq_True)
  have rd: "rd_pte pt j s = Inr (frames s p (unat j), s)" using at by (intro rd_pte_run) (simp_all add: at_table_def)
  have "j < 512" using at by (simp add: word_less_nat_alt at_table_def)
  moreover have "map_page_tmp ?q VM_FLAG_WRITABLE s = Inr (?v, opened s ?q)"
    using window_map room_Suc[OF d(4)] by simp
  ultimately have "scan_step (find_space (Suc n)) (level_of (Suc (Suc n))) pt pa pages fl (j, is, 0, Go) s = Inl Diverges"
    using lt pr Suc.prems(8)
    by (simp add: PT_LENGTH_def bnd_Inr rd level_last scan_table_def j rec bnd_Inl del: find_space.simps)
  then have "loop scan_more (scan_step (find_space (Suc n)) (level_of (Suc (Suc n))) pt pa pages fl) (j, is, 0, Go) s = Inl Diverges"
    by (intro loop_fault) simp_all
  then have "find_step (find_space (Suc n)) (level_of (Suc (Suc n))) pt pa pages fl (j, is, Go) s = Inl Diverges"
    by (simp add: j bnd_Inl del: find_space.simps)
  then have "loop find_more (find_step (find_space (Suc n)) (level_of (Suc (Suc n))) pt pa pages fl) (j, is, Go) s = Inl Diverges"
    by (intro loop_fault) simp_all
  then show ?case unfolding find_space.simps(2)[of "Suc n"] by (simp add: find_body_def j bnd_Inl)
qed

text \<open>C17: Without \<open>VM_FLAG_STRICT\<close>, a request for a writable, user accessible page that is not executable, at an address where
  such a page is mapped to another physical page, does not look for another place: the search never ends. (Only for these
  permissions does \<open>pte_flags_match\<close> take equal flags for equal.)\<close>

theorem mapping_over_user_page_diverges:
  assumes "table \<noteq> 0" "ISPAGEALIGNED v" "ISPAGEALIGNED pa" "0 < pages" "\<not> ISFLAGSET fl VM_FLAG_STRICT"
    "at_table 4 s table root (indices_of v)" "reach (frames s) root (indices_of v)"
    "leaf (frames s) root (indices_of v) = (l, i)" "present (frames s l i)"
    "writable (frames s l i)" "user_accessible (frames s l i)" "no_execute (frames s l i)"
    "ISFLAGSET fl VM_FLAG_WRITABLE" "ISFLAGSET fl VM_FLAG_USER" "ISFLAGUNSET fl VM_FLAG_EXECUTABLE"
    "PTEPADDR (frames s l i) \<noteq> pa"
  shows "vm_map_pages req table pa pages v fl s = Inl Diverges"
proof -
  have "pte_flags_match (frames s l i) fl" using assms by (simp add: pte_flags_match_def)
  then have "find_space 4 table (indices_of v) pa pages fl s = Inl Diverges"
    using find_space_diverges[of 3 s table root "indices_of v" l i fl pa pages] assms
    by (simp add: numeral_eq_Suc del: find_space.simps)
  then show ?thesis using assms(1-4) by (simp add: vm_map_pages_def PT_NUM_LEVELS_def bnd_Inl del: find_space.simps)
qed

section \<open>Flags of upper tables\<close>

text \<open>The processor lets user code reach an address only if every entry of its walk allows it.\<close>

fun user_walk :: "(addr \<Rightarrow> nat \<Rightarrow> pte) \<Rightarrow> addr \<Rightarrow> u64 list \<Rightarrow> bool" where
  "user_walk fr p [] \<longleftrightarrow> True"
| "user_walk fr p (i # is) \<longleftrightarrow>
     present (fr p (unat i)) \<and> user_accessible (fr p (unat i)) \<and> user_walk fr (PTEPADDR (fr p (unat i))) is"

lemma lev_first:
  assumes "distinct (path fr p (i # j # is))" "reach fr p (i # j # is)"
  shows "lev fl h fr p (i # j # is) p (unat i) = relevel fl (fr p (unat i))"
proof -
  let ?q = "PTEPADDR (fr p (unat i))" and ?fr = "fr(p := (fr p)(unat i := relevel fl (fr p (unat i))))"
  have pr: "present (fr p (unat i))" "reach fr ?q (j # is)" using assms(2) by auto
  then have d: "p \<notin> set (path fr ?q (j # is))" "distinct (path fr ?q (j # is))" using assms(1) by auto
  have "lev fl h ?fr ?q (j # is) p = ?fr p"
    by (rule lev_other) (simp_all only: path_upd[OF d(1)] leaf_upd[OF d(1) pr(2)] d pr(2) list.distinct not_False_eq_True)
  then show ?thesis unfolding lev_down[OF assms] by simp
qed

text \<open>C18: Mapping pages without \<open>VM_FLAG_USER\<close> takes every address under the same entry of the top table
  away from user code, pages that were mapped with \<open>VM_FLAG_USER\<close> before included.\<close>

theorem kernel_mapping_revokes_user:
  assumes "free_leaf s table root v k" "ISPAGEALIGNED pa" "\<not> ISFLAGSET fl VM_FLAG_USER" "pml4_index w = pml4_index v"
  shows "\<exists>s'. vm_map_pages req table pa (of_nat k) v fl s = Inr ((SUCCESS, v), s') \<and>
    \<not> user_walk (frames s') root (indices_of w)"
proof -
  obtain l i where li: "leaf (frames s) root (indices_of v) = (l, i)" by force
  note ff = free_leaf_facts[OF assms(1) li]
  obtain iv where run: "vm_map_pages req table pa (of_nat k) v fl s =
      Inr ((SUCCESS, v), upd s (lev fl (filled_row fl pa k) (frames s) root (indices_of v)) iv)"
    by (rule map_pages_run[OF assms(1,2)])
  have ix: "indices_of v = pml4_index v # pdp_index v # [pd_index v, pt_index v]" by (simp add: indices_of_def)
  have "root \<noteq> tmp_frame s" using ff(1) by (auto simp: at_table_def ix)
  then have "frames (upd s (lev fl (filled_row fl pa k) (frames s) root (indices_of v)) iv) root (unat (pml4_index v))
      = relevel fl (frames s root (unat (pml4_index v)))"
    using lev_first[OF ff(2,3)[unfolded ix]] by (simp add: ix)
  then show ?thesis using run assms(3,4) by (auto simp: indices_of_def[of w])
qed

end
