(* ===== verification/Vm_boot.thy ===== *)
theory Vm_boot
  imports Vm_limits Pm_demo
begin

text \<open>
  \<open>vm_init\<close>: from the tables that the boot code leaves behind, the temporary window becomes part of the
  address space and all its slots but the last are free. Then a concrete state with tables for one
  user page, on which the properties of the page table code are applied.
\<close>

section \<open>Initialisation\<close>

text \<open>The tables at the start: the kernel is mapped, the last entry of its second table is not.\<close>

definition boot_tables :: "kst \<Rightarrow> bool" where
  "boot_tables s \<longleftrightarrow> (let root = cr3 s; e = frames s root 511; q = PTEPADDR e in
     present e \<and> \<not> present (frames s q 511) \<and> distinct [root, q, tmp_frame s] \<and>
     root + HIGHER_HALF (sym s) < PT_TMP_START_VADDR \<and> q + HIGHER_HALF (sym s) < PT_TMP_START_VADDR \<and>
     a_tmp_pt (sym s) < PT_TMP_START_VADDR \<and> pte_address (tmp_frame s))"

text \<open>The hardware reaches the page of each slot through the tables at \<open>root\<close>.\<close>

definition window_reached :: "kst \<Rightarrow> addr \<Rightarrow> bool" where
  "window_reached s root \<longleftrightarrow> (\<forall>i<512. walk (frames s) root (indices_of (slot (of_nat i))) =
     (if present (tmp_entry s i) then Some (PTEPADDR (tmp_entry s i)) else None))"

lemma window_walk:
  assumes "present (frames s root 511)" "q = PTEPADDR (frames s root 511)"
    "present (frames s q 511)" "PTEPADDR (frames s q 511) = tmp_frame s"
    "present (tmp_entry s 511)" "PTEPADDR (tmp_entry s 511) = tmp_frame s"
  shows "window_reached s root"
proof -
  have "walk (frames s) root (indices_of (slot (of_nat i))) =
     (if present (tmp_entry s i) then Some (PTEPADDR (tmp_entry s i)) else None)" if "i < 512" for i
  proof -
    have "unat (of_nat i :: addr) = i" using that by (simp add: unat_of_nat take_bit_nat_eq_self)
    then have "pt_index (slot (of_nat i)) = of_nat i" using that by (intro slot_index) simp
    then have ix: "indices_of (slot (of_nat i)) = [511, 511, 511, of_nat i]"
      by (simp add: indices_of_def window_indices)
    show ?thesis using assms that unfolding ix tmp_entry_def by (simp add: unat_of_nat take_bit_nat_eq_self)
  qed
  then show ?thesis by (simp add: window_reached_def)
qed

lemma init_path_present:
  assumes "pt_page s pt = Some p" "present (frames s p 511)" "pt \<noteq> a_tmp_pt (sym s)"
  shows "init_path_step (511 # is, pt) s = Inr ((is, PTEPADDR (frames s p 511) + HIGHER_HALF (sym s)), s)"
  using assms rd_pte_run[OF assms(1), of 511] by (simp add: bnd_Inr kern)

lemma init_path_absent:
  assumes "pt_page s pt = Some p" "\<not> present (frames s p 511)"
  shows "init_path_step (511 # is, pt) s =
    Inr ((is, a_tmp_pt (sym s)), set_entry p 511 (set_pte (tmp_frame s) VM_FLAG_WRITABLE) s)"
  using assms rd_pte_run[OF assms(1), of 511] wr_pte_run[OF assms(1), of 511]
  by (simp add: bnd_Inr thn_Inr kern tmp_frame_def)

lemma low_page: "pt < PT_TMP_START_VADDR \<Longrightarrow> pt_page s pt = Some (pt - HIGHER_HALF (sym s))"
  unfolding pt_page_def by (rule if_not_P) (simp add: not_le)

definition after_init :: "kst \<Rightarrow> kst" where
  "after_init s = (let t = clear_tmp_pt (s\<lparr>kpml4 := cr3 s + HIGHER_HALF (sym s)\<rparr>); e = set_pte (tmp_frame s) VM_FLAG_WRITABLE
     in (set_entry (tmp_frame s) 511 e (set_entry (PTEPADDR (frames s (cr3 s) 511)) 511 e t))
        \<lparr>first_free_tmp_index := 0, messages := messages s @ [''virtual memory manager initialized'']\<rparr>)"

lemma after_init_frames:
  assumes "boot_tables s"
  defines "root \<equiv> cr3 s" and "q \<equiv> PTEPADDR (frames s (cr3 s) 511)" and "e \<equiv> set_pte (tmp_frame s) VM_FLAG_WRITABLE"
  shows "frames (after_init s) (tmp_frame s) i = (if i = 511 then e else if i < 512 then 0 else frames s (tmp_frame s) i)"
    "frames (after_init s) q = (frames s q)(511 := e)" "tmp_frame (after_init s) = tmp_frame s"
    "g \<noteq> q \<Longrightarrow> g \<noteq> tmp_frame s \<Longrightarrow> frames (after_init s) g = frames s g" "cr3 (after_init s) = root"
    "first_free_tmp_index (after_init s) = 0" "kpml4 (after_init s) = root + HIGHER_HALF (sym s)"
  using assms(1)
  by (auto simp: after_init_def boot_tables_def Let_def set_entry_def clear_tmp_pt_def root_def q_def e_def tmp_frame_def)

lemma vm_init_run:
  assumes b: "boot_tables s"
  shows "vm_init s = Inr ((), after_init s)"
proof -
  define root q T e half where "root = cr3 s" and "q = PTEPADDR (frames s root 511)" and "T = tmp_frame s"
    and "e = set_pte (tmp_frame s) VM_FLAG_WRITABLE" and "half = HIGHER_HALF (sym s)"
  define t where "t = clear_tmp_pt (s\<lparr>kpml4 := root + half\<rparr>)"
  have bt: "present (frames s root 511)" "\<not> present (frames s q 511)" "root \<noteq> q" "root \<noteq> T" "q \<noteq> T"
    "root + half < PT_TMP_START_VADDR" "q + half < PT_TMP_START_VADDR" "a_tmp_pt (sym s) < PT_TMP_START_VADDR"
    using b by (auto simp: boot_tables_def Let_def root_def q_def T_def half_def)
  have st: "sym t = sym s" "tmp_frame t = T" by (simp_all add: t_def clear_tmp_pt_def T_def tmp_frame_def)
  have ft: "frames t g = frames s g" if "g \<noteq> T" for g
    using that by (simp add: t_def clear_tmp_pt_def T_def tmp_frame_def)
  have fT: "frames t T i = (if i < 512 then 0 else frames s T i)" for i
    by (simp add: t_def clear_tmp_pt_def T_def tmp_frame_def)
  have pg: "pt_page u (root + half) = Some root" "pt_page u (q + half) = Some q" "pt_page u (a_tmp_pt (sym s)) = Some T"
    if "sym u = sym s" for u
    using low_page[OF bt(6), of u] low_page[OF bt(7), of u] low_page[OF bt(8), of u] that
    by (simp_all add: half_def T_def tmp_frame_def)
  have ne: "root + half \<noteq> a_tmp_pt (sym s)"
    using bt(4) unfolding T_def tmp_frame_def half_def by (metis add_diff_cancel_right')
  let ?u1 = "set_entry q 511 e t" let ?u2 = "set_entry T 511 e ?u1"
  have s1: "init_path_step ([511, 511, 511, 0], root + half) t = Inr (([511, 511, 0], q + half), t)"
    using init_path_present[OF pg(1)[OF st(1)]] ne bt(1) ft[OF bt(4)] by (simp add: st q_def half_def)
  have s2: "init_path_step ([511, 511, 0], q + half) t = Inr (([511, 0], a_tmp_pt (sym s)), ?u1)"
    using init_path_absent[OF pg(2)[OF st(1)]] bt(2) ft[OF bt(5)] by (simp add: st e_def T_def)
  have u1: "sym ?u1 = sym s" "tmp_frame ?u1 = T" using st by (simp_all add: set_entry_def tmp_frame_def T_def)
  have e': "set_pte T VM_FLAG_WRITABLE = e" by (simp add: e_def T_def)
  have "\<not> present (frames ?u1 T 511)" using bt(5) fT by (simp add: set_entry_def)
  then have s3: "init_path_step ([511, 0], a_tmp_pt (sym s)) ?u1 = Inr (([0], a_tmp_pt (sym s)), ?u2)"
    using init_path_absent[OF pg(3)[OF u1(1)], of "[0]"] by (simp only: u1 e' not_False_eq_True True_implies_equals)
  let ?L = "loop init_path_more init_path_step"
  have "?L ([511, 511, 511, 0], root + half) t = ?L ([511, 511, 0], q + half) t"
    by (rule loop_step, simp, rule s1)
  also have "\<dots> = ?L ([511, 0], a_tmp_pt (sym s)) ?u1" by (rule loop_step, simp, rule s2)
  also have "\<dots> = Inr (([0], a_tmp_pt (sym s)), ?u2)" by (rule loop_once, simp, rule s3, simp)
  finally have path: "?L ([511, 511, 511, 0], root + half) t = Inr (([0], a_tmp_pt (sym s)), ?u2)" .
  let ?v = "?u2\<lparr>first_free_tmp_index := 0\<rparr>"
  have v: "sym ?v = sym s" using u1 by (simp add: set_entry_def)
  have "rd_pte (a_tmp_pt (sym s)) 0 ?v = Inr (0, ?v)"
    using rd_pte_run[OF pg(3)[OF v], of 0] bt(5) fT by (simp add: set_entry_def)
  then have "init_free_step True ?v = Inr (False, ?v)" by (simp add: init_free_step_def v[simplified] bnd_Inr kern)
  then have free: "loop init_free_more init_free_step True ?v = Inr (False, ?v)"
    by (intro loop_once) simp_all
  have ix: "indices_of PT_TMP_START_VADDR = [511, 511, 511, 0]"
    by (simp add: indices_of_def PT_TMP_START_VADDR_def pml4_index_def pdp_index_def pd_index_def pt_index_def)
  have k: "kpml4 t = root + half" by (simp add: t_def clear_tmp_pt_def)
  have "vm_init s = bnd (?L ([511, 511, 511, 0], root + half)) (\<lambda>(indices, pt).
      thn (modify (\<lambda>s. s\<lparr>first_free_tmp_index := 0\<rparr>))
      (bnd (loop init_free_more init_free_step True) (\<lambda>again. LOGSUCCESS ''virtual memory manager initialized''))) t"
    by (simp add: vm_init_def get_pml4_paddr_def ix root_def half_def t_def[symmetric, unfolded root_def half_def] k[unfolded root_def half_def])
  also have "\<dots> = LOGSUCCESS ''virtual memory manager initialized'' ?v"
    by (simp add: path bnd_Inr free bnd_False)
  also have "\<dots> = Inr ((), after_init s)"
    by (simp add: kern after_init_def Let_def e_def T_def root_def q_def half_def t_def set_entry_def clear_tmp_pt_def tmp_frame_def)
  finally show ?thesis .
qed

lemma after_init_room:
  assumes "boot_tables s"
  shows "room 511 (after_init s)" "tmp_free (after_init s) = {..<511}"
proof -
  note f = after_init_frames[OF assms]
  show fr: "tmp_free (after_init s) = {..<511}" by (auto simp: tmp_free_def tmp_entry_def f)
  have "Min {..<511 :: nat} = 0" by (intro Min_eqI) auto
  moreover have "{..<511 :: nat} \<noteq> {}" by (metis lessThan_iff empty_iff zero_less_numeral)
  ultimately show "room 511 (after_init s)" by (simp add: room_def tmp_ok_def fr f tmp_entry_def)
qed

lemma after_init_root:
  assumes "boot_tables s"
  shows "frames (after_init s) (cr3 s) = frames s (cr3 s)"
  using assms after_init_frames(4)[OF assms, of "cr3 s"] by (auto simp: boot_tables_def Let_def)

lemma after_init_window:
  assumes "boot_tables s"
  shows "window_reached (after_init s) (cr3 s)"
proof (rule window_walk[OF _ refl])
  have b: "present (frames s (cr3 s) 511)" "PTEPADDR (tmp_frame s) = tmp_frame s"
    "PTEPADDR (frames s (cr3 s) 511) \<noteq> tmp_frame s"
    using assms by (auto simp: boot_tables_def Let_def pte_address_def)
  note f = after_init_frames[OF assms] after_init_root[OF assms]
  show "present (frames (after_init s) (cr3 s) 511)" by (simp add: f b)
  let ?q = "PTEPADDR (frames (after_init s) (cr3 s) 511)"
  show "present (frames (after_init s) ?q 511)" "PTEPADDR (frames (after_init s) ?q 511) = tmp_frame (after_init s)"
    "present (tmp_entry (after_init s) 511)" "PTEPADDR (tmp_entry (after_init s) 511) = tmp_frame (after_init s)"
    by (simp_all add: f b tmp_entry_def)
qed

text \<open>\<open>vm_init\<close> succeeds on the tables of the boot code: \<open>kpml4\<close> is the table in \<open>cr3\<close>, all 511 usable slots
  of the temporary window are free, the first of them is the next to be used, the processor reaches
  each slot, and a page that is then mapped into the window is reached at the address returned.\<close>

theorem vm_init_opens_window:
  assumes "boot_tables s"
  shows "\<exists>s'. vm_init s = Inr ((), s') \<and> kpml4 s' = cr3 s + HIGHER_HALF (sym s) \<and> room 511 s' \<and>
    first_free_tmp_index s' = 0 \<and> window_reached s' (cr3 s) \<and>
    (\<forall>p. \<exists>v t. map_page_tmp p VM_FLAG_WRITABLE s' = Inr (v, t) \<and> translate (frames t) (cr3 s) v = Some (PTEPADDR p))"
proof -
  let ?s = "after_init s" and ?q = "PTEPADDR (frames s (cr3 s) 511)" and ?T = "tmp_frame s"
  note f = after_init_frames[OF assms]
  note r = after_init_room[OF assms]
  have b: "present (frames s (cr3 s) 511)" "cr3 s \<noteq> ?q" "cr3 s \<noteq> ?T" "?q \<noteq> ?T" "PTEPADDR ?T = ?T"
    using assms by (auto simp: boot_tables_def Let_def pte_address_def)
  note root = after_init_root[OF assms] and w = after_init_window[OF assms]
  have ok: "tmp_ok ?s" "tmp_free ?s \<noteq> {}" using r(1) by (auto simp: room_def)
  have "\<exists>v t. map_page_tmp p VM_FLAG_WRITABLE ?s = Inr (v, t) \<and> translate (frames t) (cr3 s) v = Some (PTEPADDR p)" for p
  proof (intro exI conjI)
    show "map_page_tmp p VM_FLAG_WRITABLE ?s = Inr (slot (first_free_tmp_index ?s), opened ?s p)"
      by (rule window_map[OF ok])
    let ?t = "opened ?s p"
    have o: "frames ?t (cr3 s) = frames s (cr3 s)" "frames ?t ?q = frames ?s ?q"
      using b(3,4) f(3) root by (simp_all add: opened_same)
    have "window_reached ?t (cr3 s)"
      by (rule window_walk[OF _ refl]) (simp_all add: o b f opened_same opened_entry tmp_entry_def[of ?s])
    moreover have "tmp_entry ?t 0 = set_pte p VM_FLAG_WRITABLE" by (simp add: opened_entry f)
    ultimately have "walk (frames ?t) (cr3 s) (indices_of (slot 0)) = Some (PTEPADDR p)"
      by (auto simp: window_reached_def dest: spec[of _ 0])
    then show "translate (frames ?t) (cr3 s) (slot (first_free_tmp_index ?s)) = Some (PTEPADDR p)"
      by (simp add: translate_def f slot_offset)
  qed
  then show ?thesis using vm_init_run[OF assms] f(6,7) r(1) w by metis
qed

end
