(* ===== verification/Mm_map.thy ===== *)
theory Mm_map
  imports Mm Vm_boot
begin

text \<open>
  \<open>mm_map\<close> reserves a run of pages and gives each of them a page of its own. The interface between
  the virtual and the physical memory manager is the locale \<open>kernel_pages\<close>: requests return fresh
  pages that an entry can hold and change memory only, and page tables do not matter to them.
\<close>

section \<open>The interface\<close>

lemma window_mem [simp]:
  "tmp_frame (s\<lparr>mem := m\<rparr>) = tmp_frame s" "tmp_entry (s\<lparr>mem := m\<rparr>) = tmp_entry s" "tmp_free (s\<lparr>mem := m\<rparr>) = tmp_free s"
  "tmp_ok (s\<lparr>mem := m\<rparr>) = tmp_ok s" "room k (s\<lparr>mem := m\<rparr>) = room k s"
proof -
  show t: "tmp_frame (s\<lparr>mem := m\<rparr>) = tmp_frame s" by (simp add: tmp_frame_def)
  show e: "tmp_entry (s\<lparr>mem := m\<rparr>) = tmp_entry s" by (rule ext) (simp add: tmp_entry_def t)
  show f: "tmp_free (s\<lparr>mem := m\<rparr>) = tmp_free s" by (simp add: tmp_free_def e)
  show r: "tmp_ok (s\<lparr>mem := m\<rparr>) = tmp_ok s" by (simp add: tmp_ok_def f e)
  show "room k (s\<lparr>mem := m\<rparr>) = room k s" by (simp add: room_def r f)
qed

lemma at_table_mem [simp]: "at_table n (s\<lparr>mem := m\<rparr>) = at_table n s"
proof -
  have p: "pt_page (s\<lparr>mem := m\<rparr>) = pt_page s" by (rule ext) (simp add: pt_page_def)
  show ?thesis by (intro ext) (simp add: at_table_def p)
qed

locale kernel_pages = page_source rich taken same req
  for rich :: "nat \<Rightarrow> kst \<Rightarrow> bool" and taken :: "kst \<Rightarrow> nat set" and same :: "kst \<Rightarrow> kst \<Rightarrow> bool"
    and req :: "(kst, addr) kern" +
  assumes memory_only: "same s s' \<Longrightarrow> s' = s\<lparr>mem := mem s'\<rparr>"
    and fits_entry: "rich (Suc n) s \<Longrightarrow> req s = Inr (p, s') \<Longrightarrow> unat p < 2 ^ 52"
    and tables_apart: "rich n (upd s F iv) = rich n s" "taken (upd s F iv) = taken s"
    and same_upd: "same (upd s F iv) ((upd s F iv)\<lparr>mem := m\<rparr>) \<Longrightarrow> same s (s\<lparr>mem := m\<rparr>)"

interpretation kernel: kernel_pages pm_rich locked pm_frame "pm_request_page srv" for srv
proof unfold_locales
  fix s s' assume "pm_frame s s'"
  then show "s' = s\<lparr>mem := mem s'\<rparr>" by (simp add: pm_frame_def)
next
  fix n s p s'
  assume s: "pm_rich (Suc n) s" and p: "pm_request_page srv s = Inr (p, s')"
  then have ok: "pm_ok s" and c: "card (locked s) + 1 < 32768" and f: "Suc n * 4096 \<le> unat (free s)"
    by (simp_all add: pm_rich_def)
  have ff: "unat (first_free s) < 32768" using ok by (simp add: pm_ok_def)
  have le: "4096 \<le> free s" using f by (simp add: word_le_nat_alt)
  obtain k where k: "k < 32768" "k \<notin> locked s" "k \<noteq> unat (first_free s)"
    using another_free[OF pm_ok_shape[OF ok] c] by metis
  obtain s'' where "pm_request_page srv s = Inr (TOPADDR 0 (first_free s), s'')"
    by (rule request_run[OF ok le k, of srv])
  then have "p = TOPADDR 0 (first_free s)" using p by simp
  then show "unat p < 2 ^ 52" using page_address(3)[OF ff] by simp
next
  fix n s F iv
  show "pm_rich n (upd s F iv) = pm_rich n s" "locked (upd s F iv) = locked s"
    by (simp_all add: pm_rich_def pm_ok_def pm_shape_def locked_def first_free_def free_def bm0_def upd_def)
next
  fix s F iv m assume "pm_frame (upd s F iv) ((upd s F iv)\<lparr>mem := m\<rparr>)"
  then show "pm_frame s (s\<lparr>mem := m\<rparr>)" by (simp add: pm_frame_def bm0_def upd_def)
qed

section \<open>Backing a run of pages\<close>

text \<open>A run of present entries in one table, from index \<open>i\<close> of the table \<open>l\<close> on.\<close>

definition backed_run :: "kst \<Rightarrow> addr \<Rightarrow> addr \<Rightarrow> addr \<Rightarrow> addr \<Rightarrow> nat \<Rightarrow> nat \<Rightarrow> bool" where
  "backed_run s table root v l i k \<longleftrightarrow> ISPAGEALIGNED v \<and> at_table 4 s table root (indices_of v) \<and>
     distinct (path (frames s) root (indices_of v)) \<and> reach (frames s) root (indices_of v) \<and>
     leaf (frames s) root (indices_of v) = (l, i) \<and> present_run (frames s l) i k"

lemma leaf_later:
  assumes "indices_of w = butlast (indices_of v) @ [j]" "leaf fr root (indices_of v) = (l, i)"
  shows "leaf fr root (indices_of w) = (l, unat j)"
  using assms by (simp add: indices_of_def)

lemma set_backing_at:
  assumes b: "backed_run s table root v l i k" and m: "m < k" and pa: "ISPAGEALIGNED pa"
  obtains iv where "vm_set_backing table (v + of_nat m * 4096) pa s =
    Inr (SUCCESS, upd s (with_leaf (frames s) root (indices_of v) (\<lambda>i. one_entry (backing pa) (i + m))) iv)"
proof -
  let ?w = "v + of_nat m * 4096"
  have f: "ISPAGEALIGNED v" "at_table 4 s table root (indices_of v)" "distinct (path (frames s) root (indices_of v))"
    "reach (frames s) root (indices_of v)" "leaf (frames s) root (indices_of v) = (l, i)" "present_run (frames s l) i k"
    using b by (simp_all add: backed_run_def)
  have im: "i + m < 512" "present (frames s l (i + m))" using f(6) m by (auto simp: present_run_def)
  have i: "i = unat (pt_index v)" by (rule leaf_index[OF f(4,5)])
  have z: "unat (0 :: addr) < 4096" by simp
  note w = page_sum[OF f(1) im(1)[unfolded i] z, simplified]
  have s: "s = upd s (with_leaf (frames s) root (indices_of v) (\<lambda>i row. row)) (invalidated s)"
    by (simp add: with_leaf_def f(5))
  note p = leaf_page[OF f(2-5,1) im(1) z s, simplified]
  obtain iv where "recurse_set_backing PT_NUM_LEVELS table (indices_of ?w) pa s =
      Inr (SUCCESS, upd s (with_leaf (frames s) root (indices_of ?w) (one_entry (backing pa))) iv)"
    using set_backing_walk4[OF p(2), of pa] p(1) im(2) by (auto simp: Let_def)
  moreover have "ISPAGEALIGNED ?w" using p(4) by (simp add: ISPAGEALIGNED_def)
  moreover have "with_leaf (frames s) root (indices_of ?w) (one_entry (backing pa)) =
      with_leaf (frames s) root (indices_of v) (\<lambda>i. one_entry (backing pa) (i + m))"
    using leaf_later[OF w(1) f(5)] w(3) i f(5) by (simp add: with_leaf_def)
  ultimately show thesis using that pa by (simp add: vm_set_backing_def)
qed

lemma backing_keeps:
  assumes b: "backed_run s table root v l i k" and m: "m < k" and pa: "pte_address pa"
    and s': "s' = upd s (with_leaf (frames s) root (indices_of v) (\<lambda>i. one_entry (backing pa) (i + m))) iv"
  shows "backed_run s' table root v l i k" "frames s' = (frames s)(l := (frames s l)(i + m := backing pa (frames s l (i + m))))"
proof -
  have f: "ISPAGEALIGNED v" "at_table 4 s table root (indices_of v)" "distinct (path (frames s) root (indices_of v))"
    "reach (frames s) root (indices_of v)" "leaf (frames s) root (indices_of v) = (l, i)" "present_run (frames s l) i k"
    using b by (simp_all add: backed_run_def)
  have im: "i + 0 < 512" "present (frames s l (i + m))" using f(6) m by (auto simp: present_run_def)
  have z: "unat (0 :: addr) < 4096" by simp
  note p = leaf_page[OF f(2-5,1) im(1) z s', simplified]
  show fr: "frames s' = (frames s)(l := (frames s l)(i + m := backing pa (frames s l (i + m))))"
    using p(3) by (simp add: one_entry_def)
  have ne: "indices_of v \<noteq> []" and bl: "butlast (indices_of v) @ [pt_index v] = indices_of v" by (simp_all add: indices_of_def)
  note w = with_leaf_walk[OF ne f(3,4,5), where j = "pt_index v", unfolded bl]
  have "present_run ((frames s l)(i + m := backing pa (frames s l (i + m)))) i k"
    using f(6) im(2) backing_fields(1)[OF pa] by (auto simp: present_run_def)
  then show "backed_run s' table root v l i k"
    using p(2) f(1,3) w unfolding backed_run_def fr by simp
qed

lemma backed_mem [simp]: "backed_run (s\<lparr>mem := m\<rparr>) table root v l i k = backed_run s table root v l i k"
  by (simp add: backed_run_def)

text \<open>What remains of the state when entries of one table change.\<close>

definition row_change :: "addr \<Rightarrow> nat \<Rightarrow> nat \<Rightarrow> kst \<Rightarrow> kst \<Rightarrow> bool" where
  "row_change l a b s s' \<longleftrightarrow> (\<forall>g j. (g = l \<longrightarrow> j < a \<or> b \<le> j) \<longrightarrow> frames s' g j = frames s g j)"

text \<open>A function that sets the backing in \<open>table\<close>, as long as the kernel's table does not change.\<close>

definition backs :: "addr \<Rightarrow> addr \<Rightarrow> (addr \<Rightarrow> addr \<Rightarrow> (kst, status) kern) \<Rightarrow> bool" where
  "backs kp table B \<longleftrightarrow> (\<forall>w p u. kpml4 u = kp \<longrightarrow> B w p u = vm_set_backing table w p u)"

context kernel_pages
begin

lemma back_loop:
  assumes B: "backs kp table B"
  shows "kpml4 s = kp \<Longrightarrow> backed_run s table root v l i K \<Longrightarrow> m + k = K \<Longrightarrow> rich k s \<Longrightarrow>
    \<exists>ps s'. loop back_more (back_step req B) (v + of_nat m * 4096, of_nat k) s =
        Inr ((v + of_nat K * 4096, 0), s') \<and> length ps = k \<and> backed_run s' table root v l i K \<and>
      (\<forall>j<k. PTEPADDR (frames s' l (i + m + j)) = ps ! j) \<and> row_change l (i + m) (i + K) s s' \<and>
      (\<forall>p\<in>set ps. pte_address p) \<and> distinct (map page_of ps) \<and> page_of ` set ps \<inter> taken s = {} \<and>
      taken s' = taken s \<union> page_of ` set ps \<and> same s (s\<lparr>mem := mem s'\<rparr>) \<and> sym s' = sym s"
proof (induction k arbitrary: m s)
  case 0
  then show ?case by (intro exI[of _ "[]"] exI[of _ s]) (simp add: loop_stop row_change_def same_refl)
next
  case (Suc k)
  have K: "K \<le> 512" using Suc.prems(2) by (simp add: backed_run_def present_run_def)
  from request[OF Suc.prems(4)] obtain p t where p: "req s = Inr (p, t)" "rich k t" "ISPAGEALIGNED p"
    "page_of p \<notin> taken s" "taken t = insert (page_of p) (taken s)" "same s t" by blast
  have t: "t = s\<lparr>mem := mem t\<rparr>" by (rule memory_only[OF p(6)])
  have bt: "backed_run t table root v l i K" by (subst t) (simp add: Suc.prems(2))
  have kt: "kpml4 t = kp" by (subst t) (simp add: Suc.prems(1))
  have frt: "frames t = frames s" by (subst t) simp
  have pa: "pte_address p" using p(3) fits_entry[OF Suc.prems(4) p(1)] by (simp add: pte_address_iff)
  have m: "m < K" using Suc.prems(3) by simp
  obtain iv where sb: "vm_set_backing table (v + of_nat m * 4096) p t =
    Inr (SUCCESS, upd t (with_leaf (frames t) root (indices_of v) (\<lambda>i. one_entry (backing p) (i + m))) iv)"
    by (rule set_backing_at[OF bt m p(3)])
  obtain u where u: "u = upd t (with_leaf (frames t) root (indices_of v) (\<lambda>i. one_entry (backing p) (i + m))) iv" by simp
  have ku: "kpml4 u = kp" by (simp add: u kt)
  note bu = backing_keeps[OF bt m pa u]
  have ru: "rich k u" "taken u = insert (page_of p) (taken s)" using p(2,5) by (simp_all add: u tables_apart)
  have pos: "(of_nat (Suc k) :: u64) > 0" using K Suc.prems(3) by (simp add: word_less_nat_alt unat_small del: of_nat_Suc)
  have "back_step req B (v + of_nat m * 4096, of_nat (Suc k)) s =
      Inr ((v + of_nat (Suc m) * 4096, of_nat k), u)"
    using sb by (simp add: bnd_Inr p(1) B[unfolded backs_def, rule_format, OF kt] kern u algebra_simps)
  then have step: "loop back_more (back_step req B) (v + of_nat m * 4096, of_nat (Suc k)) s =
      loop back_more (back_step req B) (v + of_nat (Suc m) * 4096, of_nat k) u"
    by (rule loop_step[rotated]) (use pos in simp)
  have "Suc m + k = K" using Suc.prems(3) by simp
  from Suc.IH[OF ku bu(1) this ru(1)] obtain ps s' where
    l: "loop back_more (back_step req B) (v + of_nat (Suc m) * 4096, of_nat k) u =
        Inr ((v + of_nat K * 4096, 0), s')" and ps: "length ps = k" "backed_run s' table root v l i K"
      "\<forall>j<k. PTEPADDR (frames s' l (i + Suc m + j)) = ps ! j" "row_change l (i + Suc m) (i + K) u s'"
      "\<forall>p\<in>set ps. pte_address p" "distinct (map page_of ps)" "page_of ` set ps \<inter> taken u = {}"
      "taken s' = taken u \<union> page_of ` set ps" "same u (u\<lparr>mem := mem s'\<rparr>)" "sym s' = sym u" by (elim exE conjE) (rule that)
  have "same t (t\<lparr>mem := mem s'\<rparr>)" using ps(9) unfolding u by (rule same_upd)
  moreover have "t\<lparr>mem := mem s'\<rparr> = s\<lparr>mem := mem s'\<rparr>" by (subst t) simp
  ultimately have sm: "same s (s\<lparr>mem := mem s'\<rparr>)" using same_trans[OF p(6)] by simp
  have "sym u = sym t" by (simp add: u upd_def)
  also have "sym t = sym s" by (subst t) simp
  finally have sy: "sym s' = sym s" using ps(10) by simp
  have "frames s' l (i + m) = frames u l (i + m)" using ps(4) by (simp add: row_change_def)
  then have e: "PTEPADDR (frames s' l (i + m)) = p" using backing_fields(2)[OF pa] by (simp add: bu(2))
  have "PTEPADDR (frames s' l (i + m + j)) = (p # ps) ! j" if "j < Suc k" for j
    using that e ps(3) by (cases j) auto
  moreover have "row_change l (i + m) (i + K) s s'"
    using ps(4) m unfolding row_change_def bu(2) frt by auto
  moreover have "taken s' = taken s \<union> page_of ` set (p # ps)" using ps(8) ru(2) by simp
  moreover have "page_of ` set (p # ps) \<inter> taken s = {}" "distinct (map page_of (p # ps))"
    using ps(6,7) ru(2) p(4) by auto
  moreover have "\<forall>x\<in>set (p # ps). pte_address x" "length (p # ps) = Suc k" using ps(1,5) pa by simp_all
  ultimately show ?case using l ps(2) sm sy unfolding step by blast
qed

lemma reserve_and_back:
  assumes f: "free_leaf s table root v k" and r: "rich k s"
    and B: "backs (kpml4 s) table B"
  shows "\<exists>s1 ps s'. vm_reserve_pages req table v (of_nat k) fl s = Inr ((SUCCESS, v), s1) \<and>
    loop back_more (back_step req B) (v, of_nat k) s1 = Inr ((v + of_nat k * 4096, 0), s') \<and>
    kpml4 s1 = kpml4 s \<and> length ps = k \<and>
    (\<forall>j<k. \<forall>off. unat off < 4096 \<longrightarrow> translate (frames s') root (v + of_nat j * 4096 + off) = Some (ps ! j + off)) \<and>
    (\<forall>p\<in>set ps. pte_address p) \<and> distinct (map page_of ps) \<and> page_of ` set ps \<inter> taken s = {} \<and>
    taken s' = taken s \<union> page_of ` set ps \<and> same s (s\<lparr>mem := mem s'\<rparr>) \<and> sym s' = sym s"
proof -
  obtain l i where li: "leaf (frames s) root (indices_of v) = (l, i)" by force
  note ff = free_leaf_facts[OF f li]
  have k: "0 < k" "i + k \<le> 512" using f li by (auto simp: free_leaf_def absent_run_def)
  have "unat (BYTES (of_nat k)) = k * 4096"
    using k(2) by (simp add: BYTES_def unat_word_ariths unat_of_nat take_bit_nat_eq_self)
  then have al: "ISPAGEALIGNED (- BYTES (of_nat k))"
    unfolding ISPAGEALIGNED_dvd unat_uminus by (auto intro!: dvd_diff_nat)
  obtain iv where res: "vm_map_pages req table (- BYTES (of_nat k)) (of_nat k) v fl s =
      Inr ((SUCCESS, v), upd s (lev fl (filled_row fl (- BYTES (of_nat k)) k) (frames s) root (indices_of v)) iv)"
    by (rule map_pages_run[OF f al])
  obtain t where t: "t = upd s (lev fl (filled_row fl (- BYTES (of_nat k)) k) (frames s) root (indices_of v)) iv" by simp
  have i0: "i + 0 < 512" "unat (0 :: addr) < 4096" using k by simp_all
  note p = lev_page[OF ff(1-3) li ff(4) i0 t, simplified]
  have ne: "indices_of v \<noteq> []" and bl: "butlast (indices_of v) @ [pt_index v] = indices_of v" by (simp_all add: indices_of_def)
  have tp: "tmp_frame s \<notin> set (path (frames s) root (indices_of v))" using ff(1) by (simp add: at_table_def)
  have frt: "frames t = lev fl (filled_row fl (- BYTES (of_nat k)) k) (frames s) root (indices_of v)"
    unfolding t by (rule upd_apart) (rule lev_other[OF ff(2,3) ne tp])
  note w = lev_walk[OF ff(2,3) ne li]
  have "present_run (frames t l) i k" using k(2) unfolding p(3) by (simp add: present_run_def filled_row_def)
  then have b: "backed_run t table root v l i k"
    using p(2) ff(2,4) w(2,3) w(1)[where j = "pt_index v", unfolded bl] unfolding backed_run_def frt by simp
  have rt: "rich k t" "taken t = taken s" using r by (simp_all add: t tables_apart)
  have kt: "kpml4 t = kpml4 s" by (simp add: t)
  have v0: "v + of_nat 0 * 4096 = v" "0 + k = k" by simp_all
  from back_loop[OF B kt b v0(2) rt(1), unfolded v0(1)] obtain ps s' where
    l: "loop back_more (back_step req B) (v, of_nat k) t = Inr ((v + of_nat k * 4096, 0), s')"
    and ps: "length ps = k" "backed_run s' table root v l i k" "\<forall>j<k. PTEPADDR (frames s' l (i + 0 + j)) = ps ! j"
      "\<forall>p\<in>set ps. pte_address p" "distinct (map page_of ps)" "page_of ` set ps \<inter> taken t = {}"
      "taken s' = taken t \<union> page_of ` set ps" "same t (t\<lparr>mem := mem s'\<rparr>)" "sym s' = sym t" by (elim exE conjE) (rule that)
  have sm: "same s (s\<lparr>mem := mem s'\<rparr>)" using ps(8) unfolding t by (rule same_upd)
  have sy: "sym s' = sym s" using ps(9) by (simp add: t upd_def)
  have b': "ISPAGEALIGNED v" "at_table 4 s' table root (indices_of v)" "distinct (path (frames s') root (indices_of v))"
    "reach (frames s') root (indices_of v)" "leaf (frames s') root (indices_of v) = (l, i)" "present_run (frames s' l) i k"
    using ps(2) by (simp_all add: backed_run_def)
  have s': "s' = upd s' (with_leaf (frames s') root (indices_of v) (\<lambda>i row. row)) (invalidated s')"
    by (simp add: with_leaf_def b'(5))
  have "translate (frames s') root (v + of_nat j * 4096 + off) = Some (ps ! j + off)" if "j < k" "unat off < 4096" for j off
  proof -
    have j: "i + j < 512" "present (frames s' l (i + j))" using that(1) b'(6) by (auto simp: present_run_def)
    note q = leaf_page[OF b'(2-5,1) j(1) that(2) s']
    have "pte_address (ps ! j)" using ps(1,4) that(1) by simp
    then have "ISPAGEALIGNED (ps ! j)" by (simp add: pte_address_iff)
    then show ?thesis using q(1,4) j(2) ps(3) that page_or_offset[of "ps ! j" off] by (simp add: translate_def)
  qed
  moreover note kt
  ultimately show ?thesis
    using res l ps(1,4-7) sm sy rt(2) unfolding t[symmetric] vm_reserve_pages_def by (intro exI[of _ t] exI[of _ ps] exI[of _ s']) simp
qed

end

lemma mm_map_run:
  assumes f: "free_leaf s (kpml4 s) root v k" and r: "pm_rich k s" and v: "ISKVADDR v"
    and n: "PAGES bytes = of_nat k" and fl: "ISFLAGUNSET fl VM_FLAG_USER"
  shows "\<exists>ps s'. mm_map (pm_request_page srv) v bytes fl s = Inr (v, s') \<and> length ps = k \<and>
    (\<forall>j<k. \<forall>off. unat off < 4096 \<longrightarrow> translate (frames s') root (v + of_nat j * 4096 + off) = Some (ps ! j + off)) \<and>
    distinct (map page_of ps) \<and> page_of ` set ps \<inter> locked s = {} \<and> locked s' = locked s \<union> page_of ` set ps \<and>
    pm_frame s (s\<lparr>mem := mem s'\<rparr>) \<and> sym s' = sym s"
proof -
  have B: "backs (kpml4 s) (kpml4 s) vmk_set_backing" by (simp add: backs_def vmk_set_backing_def)
  from kernel.reserve_and_back[OF f r B, of srv fl] obtain s1 ps s' where
    a: "vm_reserve_pages (pm_request_page srv) (kpml4 s) v (of_nat k) fl s = Inr ((SUCCESS, v), s1)"
    and b: "loop back_more (back_step (pm_request_page srv) vmk_set_backing) (v, of_nat k) s1 = Inr ((v + of_nat k * 4096, 0), s')"
    and c: "kpml4 s1 = kpml4 s" "length ps = k"
      "\<forall>j<k. \<forall>off. unat off < 4096 \<longrightarrow> translate (frames s') root (v + of_nat j * 4096 + off) = Some (ps ! j + off)"
      "distinct (map page_of ps)" "page_of ` set ps \<inter> locked s = {}" "locked s' = locked s \<union> page_of ` set ps"
      "pm_frame s (s\<lparr>mem := mem s'\<rparr>)" "sym s' = sym s"
    by (elim exE conjE) (rule that)
  have "v \<noteq> 0" using v by (auto simp: ISKVADDR_def LAYOUT_HEAP_START_def)
  then have "vmk_reserve_pages (pm_request_page srv) v (of_nat k) fl s = Inr ((SUCCESS, v), s1)"
    using a v fl by (simp add: vmk_reserve_pages_def vm_reserve_pages_def vmk_map_pages_def kernel_hint_def bnd_def kern)
  with b have "mm_map (pm_request_page srv) v bytes fl s = Inr (v, s')"
    by (simp add: mm_map_def n bnd_Inr kern Let_def)
  with c show ?thesis by (intro exI[of _ ps] exI[of _ s'] conjI)
qed

text \<open>C22: \<open>mm_map\<close> on a free run of addresses returns the address asked for and gives every page of the
  run a physical page of its own: the pages are pairwise different, none of them was locked, they are
  locked afterwards, and each address of the run translates into its page.\<close>

theorem mm_map_gives_fresh_pages:
  assumes "free_leaf s (kpml4 s) root v k" "pm_rich k s" "ISKVADDR v" "PAGES bytes = of_nat k"
    "ISFLAGUNSET fl VM_FLAG_USER"
  shows "\<exists>ps s'. mm_map (pm_request_page srv) v bytes fl s = Inr (v, s') \<and> length ps = k \<and>
    (\<forall>j<k. \<forall>off. unat off < 4096 \<longrightarrow> translate (frames s') root (v + of_nat j * 4096 + off) = Some (ps ! j + off)) \<and>
    distinct (map page_of ps) \<and> page_of ` set ps \<inter> locked s = {} \<and> locked s' = locked s \<union> page_of ` set ps"
  using mm_map_run[OF assms, of srv] by (elim exE conjE) (rule exI, rule exI, intro conjI)

end
