(* ===== verification/Mm_slabs.thy ===== *)
theory Mm_slabs
  imports Mm_map
begin

text \<open>
  The slabs: rounding to a power of two, the slab chosen for a size, the state after \<open>mm_init\<close>, and
  allocation from a slab with free chunks.
\<close>

section \<open>Rounding to a power of two\<close>

text \<open>After each step of the smearing, a bit is set if one of the next bits above it was.\<close>

lemma smear_step:
  fixes x w :: u64
  assumes "\<And>n. bit x n \<longleftrightarrow> (\<exists>d<m. bit w (n + d))"
  shows "bit (x OR drop_bit m x) n \<longleftrightarrow> (\<exists>d<2 * m. bit w (n + d))"
proof -
  have "bit (x OR drop_bit m x) n \<longleftrightarrow> (\<exists>d<m. bit w (n + d)) \<or> (\<exists>d<m. bit w (m + n + d))"
    by (simp add: bit_or_iff bit_drop_bit_eq assms)
  also have "\<dots> \<longleftrightarrow> (\<exists>d<2 * m. bit w (n + d))"
  proof
    assume "(\<exists>d<m. bit w (n + d)) \<or> (\<exists>d<m. bit w (m + n + d))"
    then show "\<exists>d<2 * m. bit w (n + d)"
    proof
      assume "\<exists>d<m. bit w (m + n + d)"
      then obtain d where "d < m" "bit w (n + (m + d))" by (auto simp: ac_simps)
      then show ?thesis by (intro exI[of _ "m + d"]) simp
    qed force
  next
    assume "\<exists>d<2 * m. bit w (n + d)"
    then obtain d where d: "d < 2 * m" "bit w (n + d)" by blast
    show "(\<exists>d<m. bit w (n + d)) \<or> (\<exists>d<m. bit w (m + n + d))"
    proof (cases "d < m")
      case False
      then have "m + n + (d - m) = n + d" "d - m < m" using d(1) by simp_all
      then show ?thesis using d(2) by metis
    qed (use d in blast)
  qed
  finally show ?thesis .
qed

lemma top_bit:
  fixes w :: u64
  assumes "2 ^ k \<le> unat w" "unat w < 2 ^ Suc k"
  shows "bit w k" "k < n \<Longrightarrow> \<not> bit w n"
proof -
  have b: "bit w n \<longleftrightarrow> odd (unat w div 2 ^ n)" for n
  proof -
    have "bit (unat w) n = bit w n" by (simp add: bit_unsigned_iff)
    then show ?thesis by (simp add: bit_iff_odd[of "unat w"])
  qed
  have "unat w div 2 ^ k = 1" using assms by (intro div_nat_eqI) auto
  then show "bit w k" by (simp add: b)
  assume "k < n"
  then have "(2 :: nat) ^ Suc k \<le> 2 ^ n" by (intro power_increasing) auto
  then show "\<not> bit w n" using assms by (simp add: b)
qed

lemma ceil_run:
  fixes sz :: u64
  assumes "2 ^ k < unat sz" "unat sz \<le> 2 ^ Suc k" "k < 63"
  shows "ceil_to_power_of_2 sz = 2 ^ Suc k"
proof -
  define w where "w = sz - 1"
  have "0 < unat sz" using assms(1) by simp
  then have u: "unat w = unat sz - 1" unfolding w_def by (intro unat_minus_one) (auto simp: unat_eq_0[symmetric])
  then have w: "2 ^ k \<le> unat w" "unat w < 2 ^ Suc k" using assms by linarith+
  define x1 where "x1 = w OR drop_bit 1 w"
  define x2 where "x2 = x1 OR drop_bit 2 x1"
  define x3 where "x3 = x2 OR drop_bit 4 x2"
  define x4 where "x4 = x3 OR drop_bit 8 x3"
  define x5 where "x5 = x4 OR drop_bit 16 x4"
  define x6 where "x6 = x5 OR drop_bit 32 x5"
  have b0: "bit w n \<longleftrightarrow> (\<exists>d<1. bit w (n + d))" for n by simp
  have b1: "bit x1 n \<longleftrightarrow> (\<exists>d<2. bit w (n + d))" for n using smear_step[OF b0, of n] by (simp add: x1_def)
  have b2: "bit x2 n \<longleftrightarrow> (\<exists>d<4. bit w (n + d))" for n using smear_step[OF b1, of n] by (simp add: x2_def)
  have b3: "bit x3 n \<longleftrightarrow> (\<exists>d<8. bit w (n + d))" for n using smear_step[OF b2, of n] by (simp add: x3_def)
  have b4: "bit x4 n \<longleftrightarrow> (\<exists>d<16. bit w (n + d))" for n using smear_step[OF b3, of n] by (simp add: x4_def)
  have b5: "bit x5 n \<longleftrightarrow> (\<exists>d<32. bit w (n + d))" for n using smear_step[OF b4, of n] by (simp add: x5_def)
  have b6: "bit x6 n \<longleftrightarrow> (\<exists>d<64. bit w (n + d))" for n using smear_step[OF b5, of n] by (simp add: x6_def)
  have "x6 = (mask (Suc k) :: u64)"
  proof (rule bit_word_eqI)
    fix n assume n: "n < LENGTH(64)"
    have "bit x6 n \<longleftrightarrow> n \<le> k"
    proof
      assume "bit x6 n"
      then obtain d where "bit w (n + d)" by (auto simp: b6)
      then have "\<not> k < n + d" using top_bit(2)[OF w] by blast
      then show "n \<le> k" by simp
    next
      assume "n \<le> k"
      then have "bit w (n + (k - n))" "k - n < 64" using top_bit(1)[OF w] assms(3) by simp_all
      then show "bit x6 n" unfolding b6 by blast
    qed
    then show "bit x6 n = bit (mask (Suc k) :: u64) n" using n by (simp add: bit_mask_iff less_Suc_eq_le)
  qed
  moreover have "ceil_to_power_of_2 sz = x6 + 1"
    by (simp only: ceil_to_power_of_2_def Let_def w_def[symmetric] x1_def[symmetric] x2_def[symmetric] x3_def[symmetric]
        x4_def[symmetric] x5_def[symmetric] x6_def[symmetric])
  ultimately show ?thesis by (simp add: mask_eq_exp_minus_1)
qed

lemma ceil_one: "ceil_to_power_of_2 1 = 1"
  by (simp add: ceil_to_power_of_2_def)

lemma between_powers:
  fixes n :: nat
  assumes "2 \<le> n"
  obtains k where "2 ^ k < n" "n \<le> 2 ^ Suc k"
proof -
  define j where "j = (LEAST j. n \<le> 2 ^ j)"
  have ex: "n \<le> 2 ^ n" by (simp add: less_imp_le less_exp)
  have j: "n \<le> 2 ^ j" unfolding j_def by (rule LeastI) (rule ex)
  then obtain k where k: "j = Suc k" using assms by (cases j) auto
  have "\<not> n \<le> 2 ^ k" using not_less_Least[of k "\<lambda>j. n \<le> 2 ^ j"] k by (simp add: j_def)
  then show thesis using j k by (intro that[of k]) simp_all
qed

text \<open>\<open>ceil_to_power_of_2\<close> gives the least power of two that is not below its argument, for every size
  from 1 to \<open>2 ^ 63\<close>.\<close>

theorem ceil_is_least_power:
  assumes "0 < sz" "unat sz \<le> 2 ^ 63"
  shows "\<exists>k. unat (ceil_to_power_of_2 sz) = 2 ^ k \<and> unat sz \<le> 2 ^ k \<and> (\<forall>j. unat sz \<le> 2 ^ j \<longrightarrow> k \<le> j)"
proof (cases "unat sz < 2")
  case True
  moreover have "unat sz \<noteq> 0" using assms(1) by (simp add: unat_eq_0 word_gt_0)
  ultimately have "unat sz = unat (1 :: u64)" by simp
  then have "sz = 1" by (simp only: word_unat_eq_iff)
  then show ?thesis by (intro exI[of _ 0]) (simp add: ceil_one)
next
  case False
  then obtain k where k: "2 ^ k < unat sz" "unat sz \<le> 2 ^ Suc k" using between_powers[of "unat sz"] by auto
  have "(2 :: nat) ^ k < 2 ^ 63" using k(1) assms(2) by linarith
  then have k63: "k < 63" by (rule power_less_imp_less_exp[rotated]) simp
  have "Suc k \<le> j" if "unat sz \<le> 2 ^ j" for j
  proof -
    have "(2 :: nat) ^ k < 2 ^ j" using k(1) that by linarith
    then show ?thesis by simp
  qed
  then show ?thesis using ceil_run[OF k k63] k(2) k63 unat_2_power[of "Suc k"] by (intro exI[of _ "Suc k"]) simp
qed

section \<open>The slab for a size\<close>

lemma count_type_power: "unat c = 2 ^ j \<Longrightarrow> count_type c t = t + of_nat (Suc j)"
proof (induction j arbitrary: c t)
  case 0
  then have "unat c = unat (1 :: u64)" by simp
  then have "c = 1" by (simp only: word_unat_eq_iff)
  then show ?case by (simp add: count_type.simps[of 1] count_type.simps[of 0])
next
  case (Suc j)
  then have c: "c > 0" by (auto simp: word_less_nat_alt)
  have "unat (drop_bit 1 c) = 2 ^ j" using Suc.prems by (simp only: unat_drop_bit_eq) (simp add: drop_bit_eq_div)
  from Suc.IH[OF this, of "t + 1"] show ?case unfolding count_type.simps[of c] using c by simp
qed

text \<open>The type that the code arrives at.\<close>

fun chosen :: "nat \<Rightarrow> u32" where
  "chosen sz =
     (if sz \<le> 16 then 0 else if sz \<le> 24 then 1 else if sz \<le> 32 then 2 else if sz \<le> 64 then 3
      else if sz \<le> 128 then 4 else if sz \<le> 256 then 5 else if sz \<le> 512 then 6 else if sz \<le> 1024 then 7
      else if sz \<le> 2048 then 8 else 9)"

lemma slab_sizes [simp]:
  "slab_size 0 = 16" "slab_size 1 = 24" "slab_size 2 = 32" "slab_size 3 = 48" "slab_size 4 = 64"
  "slab_size 5 = 96" "slab_size 6 = 128" "slab_size 7 = 192" "slab_size 8 = 256" "slab_size 9 = 384"
  "slab_size 10 = 512" "slab_size 11 = 768" "slab_size 12 = 1024" "slab_size 13 = 2048" "slab_size 14 = 3072"
  "slab_size 15 = 4096" "slab_size 0xffffffff = 4096"
  by (simp_all add: slab_size_def Let_def push_bit_eq_mult drop_bit_eq_div word_less_nat_alt)


text \<open>A size between two powers goes to the slab number that the loop arrives at, or to the one before.\<close>

lemma slab_between:
  fixes sz :: u64
  assumes "2 ^ (n + 3) < unat sz" "unat sz \<le> 2 ^ (n + 4)" "n < 20"
  shows "get_slab_from_size sz s =
    (let type = of_nat n + 1; type = (if slab_size (type - 1) \<ge> sz then type - 1 else type)
     in if type < 16 then Inr (slab_at (sym s) type, s) else Inl AssertFailed)"
proof -
  have "ceil_to_power_of_2 sz = 2 ^ Suc (n + 3)" by (rule ceil_run) (use assms in \<open>simp_all add: add.commute\<close>)
  then have "unat (ceil_to_power_of_2 sz) = 2 ^ (n + 4)"
    using unat_2_power[of "Suc (n + 3)"] assms(3) by (simp add: add.commute)
  then have "unat (drop_bit 4 (ceil_to_power_of_2 sz)) = 2 ^ n"
    by (simp only: unat_drop_bit_eq) (simp add: drop_bit_eq_div power_add)
  from count_type_power[OF this, of 0] show ?thesis
    by (simp add: get_slab_from_size_def Let_def kern ac_simps)
qed

lemma slab_for:
  assumes "8 < unat sz" "unat sz < 4096"
  shows "get_slab_from_size sz s = Inr (slab_at (sym s) (chosen (unat sz)), s)"
proof -
  consider "unat sz \<le> 16" | "16 < unat sz" "unat sz \<le> 32" | "32 < unat sz" "unat sz \<le> 64"
    | "64 < unat sz" "unat sz \<le> 128" | "128 < unat sz" "unat sz \<le> 256" | "256 < unat sz" "unat sz \<le> 512"
    | "512 < unat sz" "unat sz \<le> 1024" | "1024 < unat sz" "unat sz \<le> 2048" | "2048 < unat sz"
    by linarith
  then show ?thesis
  proof cases
    case 1 then show ?thesis using assms slab_between[of 0 sz s] by (auto simp: word_le_nat_alt)
  next
    case 2 then show ?thesis using assms slab_between[of 1 sz s] by (auto simp: word_le_nat_alt)
  next
    case 3 then show ?thesis using assms slab_between[of 2 sz s] by (auto simp: word_le_nat_alt)
  next
    case 4 then show ?thesis using assms slab_between[of 3 sz s] by (auto simp: word_le_nat_alt)
  next
    case 5 then show ?thesis using assms slab_between[of 4 sz s] by (auto simp: word_le_nat_alt)
  next
    case 6 then show ?thesis using assms slab_between[of 5 sz s] by (auto simp: word_le_nat_alt)
  next
    case 7 then show ?thesis using assms slab_between[of 6 sz s] by (auto simp: word_le_nat_alt)
  next
    case 8 then show ?thesis using assms slab_between[of 7 sz s] by (auto simp: word_le_nat_alt)
  next
    case 9 then show ?thesis using assms slab_between[of 8 sz s] by (auto simp: word_le_nat_alt)
  qed
qed


text \<open>A request of 9 to 48 bytes gets the slab with the smallest chunks that are large enough.\<close>

theorem small_requests_fit:
  assumes "8 < unat sz" "unat sz \<le> 48"
  shows "\<exists>type. get_slab_from_size sz s = Inr (slab_at (sym s) type, s) \<and> type < 16 \<and> sz \<le> slab_size type \<and>
    (\<forall>u<type. slab_size u < sz)"
proof (intro exI[of _ "chosen (unat sz)"] conjI allI impI)
  show "get_slab_from_size sz s = Inr (slab_at (sym s) (chosen (unat sz)), s)" using slab_for[of sz s] assms by simp
  show "chosen (unat sz) < 16" using assms by simp
  show "sz \<le> slab_size (chosen (unat sz))" using assms by (auto simp: word_le_nat_alt)
  fix u :: u32 assume u: "u < chosen (unat sz)"
  then have "unat u < 3" using assms by (auto simp: word_less_nat_alt split: if_splits)
  then have "u = 0 \<or> u = 1 \<or> u = 2" by (auto simp: word_unat_eq_iff)
  then show "slab_size u < sz" using u assms by (auto simp: word_less_nat_alt split: if_splits)
qed

text \<open>A request of 49 to 4095 bytes gets a slab whose chunks are smaller than the request: rounding to a
  power of two arrives at the number of doublings, but there are two slab types per doubling.\<close>

theorem large_requests_get_small_chunks:
  assumes "48 < unat sz" "unat sz < 4096"
  shows "\<exists>type. get_slab_from_size sz s = Inr (slab_at (sym s) type, s) \<and> slab_size type < sz"
  using slab_for[of sz s] assms by (intro exI[of _ "chosen (unat sz)"]) (auto simp: word_less_nat_alt)

text \<open>A request of 8 bytes or less fails the assertion on the slab type, which has become \<open>-1\<close>.\<close>

theorem tiny_requests_assert:
  assumes "unat sz \<le> 8"
  shows "get_slab_from_size sz s = Inl AssertFailed"
proof -
  have "drop_bit 4 (ceil_to_power_of_2 sz) = 0"
  proof -
    have "sz = of_nat (unat sz)" by simp
    moreover have "unat sz \<in> {0, 1, 2, 3, 4, 5, 6, 7, 8}" using assms by auto
    ultimately consider "sz = 0" | "sz = 1" | "sz = 2" | "sz = 3" | "sz = 4" | "sz = 5" | "sz = 6" | "sz = 7" | "sz = 8"
      by (auto simp: word_unat_eq_iff)
    then show ?thesis by cases (simp_all add: ceil_to_power_of_2_def Let_def)
  qed
  then have c: "count_type (drop_bit 4 (ceil_to_power_of_2 sz)) 0 = 0" by (simp add: count_type.simps[of 0])
  have "(0 - 1 :: u32) = 0xffffffff" by simp
  then have "slab_size (0 - 1) = 4096" by (simp only: slab_sizes)
  then have "sz \<le> slab_size (0 - 1)" using assms by (simp only: word_le_nat_alt) simp
  then show ?thesis unfolding get_slab_from_size_def Let_def c by simp
qed

end
