(* ===== verification/Mm_heap.thy ===== *)
theory Mm_heap
  imports Mm_slabs
begin

text \<open>
  The kernel heap as its clients see it: each slab has handed its addresses out up to \<open>n\<close> chunks and keeps
  some of them on its free list. \<open>heap_rel\<close> ties memory to this picture, and \<open>mm_init\<close>, \<open>mm_alloc\<close>
  and the growth of a slab implement operations on it.
\<close>

section \<open>Addresses\<close>

definition csize :: "nat \<Rightarrow> nat" where
  "csize t = unat (slab_size (of_nat t))"

definition chunk :: "nat \<Rightarrow> nat \<Rightarrow> addr" where
  "chunk t j = SLABBASE (of_nat t) + of_nat (j * csize t)"

definition slab_head :: "symbols \<Rightarrow> nat \<Rightarrow> addr" where
  "slab_head y t = sl_freelist (slab_at y (of_nat t))"

text \<open>The array of slabs does not wrap around and lies outside of the heap.\<close>

definition slabs_placed :: "symbols \<Rightarrow> bool" where
  "slabs_placed y \<longleftrightarrow> a_slabs y \<noteq> 0 \<and> unat (a_slabs y) + 640 \<le> 2 ^ 64 \<and> sep (a_slabs y) 640 LAYOUT_HEAP_START (2 ^ 40)"

lemma below_16:
  assumes "t < (16 :: nat)"
  obtains "t = 0" | "t = 1" | "t = 2" | "t = 3" | "t = 4" | "t = 5" | "t = 6" | "t = 7" | "t = 8" | "t = 9" | "t = 10"
    | "t = 11" | "t = 12" | "t = 13" | "t = 14" | "t = 15"
proof -
  have "t \<in> {..<16}" using assms by simp
  then show thesis using that by (simp only: lessThan_nat_numeral pred_numeral_simps arith_simps lessThan_Suc lessThan_0) (auto simp: lessThan_Suc)
qed

lemma csize_bounds: "t < 16 \<Longrightarrow> 16 \<le> csize t" "t < 16 \<Longrightarrow> csize t \<le> 4096" "t < 15 \<Longrightarrow> csize t < 4096"
proof -
  show "t < 16 \<Longrightarrow> 16 \<le> csize t" by (erule below_16) (simp_all add: csize_def)
  show "t < 16 \<Longrightarrow> csize t \<le> 4096" by (erule below_16) (simp_all add: csize_def)
  show "t < 15 \<Longrightarrow> csize t < 4096" by (rule below_16[of t]) (simp_all add: csize_def)
qed

lemma unat_type: "t < 16 \<Longrightarrow> unat (of_nat t :: u32) = t"
  by (simp add: unat_of_nat take_bit_nat_eq_self)

lemma unat_nat64: "k < 2 ^ 64 \<Longrightarrow> unat (of_nat k :: u64) = k"
  by (simp add: unat_of_nat take_bit_nat_eq_self)

lemma type_ucast: "t < 16 \<Longrightarrow> (ucast (of_nat t :: u32) :: u64) = of_nat t"
  by (simp add: unsigned_of_nat take_bit_nat_eq_self)

lemma unat_SLABBASE: "t < 16 \<Longrightarrow> unat (SLABBASE (of_nat t)) = unat LAYOUT_HEAP_START + t * 2 ^ 36"
  by (simp add: SLABBASE_def type_ucast push_bit_eq_mult unat_word_ariths unat_of_nat take_bit_nat_eq_self LAYOUT_HEAP_START_def)

lemma unat_chunk:
  assumes "t < 16" "j * csize t \<le> 2 ^ 36"
  shows "unat (chunk t j) = unat LAYOUT_HEAP_START + t * 2 ^ 36 + j * csize t"
proof -
  have "unat (of_nat (j * csize t) :: u64) = j * csize t"
    using assms(2) by (simp add: unat_of_nat take_bit_nat_eq_self del: of_nat_mult)
  then show ?thesis using assms unat_SLABBASE[OF assms(1)]
    by (simp add: chunk_def unat_word_ariths LAYOUT_HEAP_START_def del: of_nat_mult)
qed

lemma chunk_Suc: "chunk t (Suc j) = chunk t j + of_nat (csize t)"
  by (simp add: chunk_def algebra_simps)

lemma chunk_0: "chunk t 0 = SLABBASE (of_nat t)"
  by (simp add: chunk_def)

lemma slab_address: "t < 16 \<Longrightarrow> slab_at y (of_nat t) = a_slabs y + of_nat (40 * t)"
  by (simp add: slab_at_def type_ucast SLAB_BYTES_def)

lemma head_address: "t < 16 \<Longrightarrow> slab_head y t = a_slabs y + of_nat (40 * t + 8)"
  by (simp add: slab_head_def sl_freelist_def slab_address)

lemma sep_unat:
  assumes "unat x + unat n \<le> unat y" "unat y + unat k \<le> 2 ^ 64" "0 < n"
  shows "sep x n y k"
proof -
  have "0 < unat n" using assms(3) by (simp add: word_less_nat_alt)
  then have "x \<noteq> y" "unat (y - x) = unat y - unat x" using assms(1) by (auto simp: unat_sub_if')
  with assms(1,2) have "unat n \<le> unat (y - x)" "unat (y - x) + unat k \<le> 2 ^ 64" by linarith+
  then show ?thesis using \<open>x \<noteq> y\<close> by (simp add: sep_iff)
qed

lemma unat_in_slabs:
  assumes "slabs_placed y" "k < 640"
  shows "unat (a_slabs y + of_nat k) = unat (a_slabs y) + k"
  using assms by (simp add: slabs_placed_def unat_word_ariths unat_of_nat take_bit_nat_eq_self)

text \<open>The nodes that the free list of a slab may link: its head and the chunks of its part of the heap.\<close>

definition slab_nodes :: "symbols \<Rightarrow> nat \<Rightarrow> addr set" where
  "slab_nodes y t = insert (slab_head y t) (chunk t ` {j. (j + 1) * csize t \<le> 2 ^ 36})"

definition heap_nodes :: "symbols \<Rightarrow> addr set" where
  "heap_nodes y = (\<Union>t<16. slab_nodes y t)"

lemma slab_part_sep:
  assumes "slabs_placed y" "k + unat n \<le> 640" "0 < n" "t < 16" "(j + 1) * csize t \<le> 2 ^ 36"
  shows "sep (a_slabs y + of_nat k) n (chunk t j) 16"
proof -
  have j: "j * csize t + 16 \<le> 2 ^ 36" using assms(5) csize_bounds(1)[OF assms(4)] by simp
  have c: "chunk t j = LAYOUT_HEAP_START + of_nat (t * 2 ^ 36 + j * csize t)"
    using assms(4) by (simp add: chunk_def SLABBASE_def type_ucast push_bit_eq_mult)
  have "k < 640" using assms(2,3) by (simp add: word_less_nat_alt)
  moreover have "t * 2 ^ 36 + j * csize t + 16 \<le> 2 ^ 40" using j assms(4) by simp
  ultimately show ?thesis unfolding c using assms(1-3)
    by (intro sep_sub[of _ 640 _ "2 ^ 40"]) (simp_all add: slabs_placed_def unat_of_nat take_bit_nat_eq_self del: of_nat_add of_nat_mult)
qed

lemma chunks_sep:
  assumes "t < 16" "t' < 16" "(j + 1) * csize t \<le> 2 ^ 36" "(j' + 1) * csize t' \<le> 2 ^ 36" "t < t' \<or> t = t' \<and> j < j'"
  shows "sep (chunk t j) (of_nat (csize t)) (chunk t' j') (of_nat (csize t'))"
proof (rule sep_unat)
  have le: "j * csize t \<le> 2 ^ 36" "j' * csize t' \<le> 2 ^ 36" using assms(3,4) by simp_all
  note u = unat_chunk[OF assms(1) le(1)] unat_chunk[OF assms(2) le(2)]
  have s: "unat (of_nat (csize t) :: u64) = csize t" "unat (of_nat (csize t') :: u64) = csize t'"
    using csize_bounds(2)[OF assms(1)] csize_bounds(2)[OF assms(2)] by (simp_all add: unat_of_nat take_bit_nat_eq_self)
  have "t * 2 ^ 36 + (j + 1) * csize t \<le> t' * 2 ^ 36 + j' * csize t'"
  proof (cases "t < t'")
    case True
    then have "(t + 1) * 2 ^ 36 \<le> t' * 2 ^ 36" by (intro mult_le_mono1) simp
    then show ?thesis using assms(3) by (simp add: add_mult_distrib)
  next
    case False
    then have e: "t' = t" "j + 1 \<le> j'" using assms(5) by simp_all
    have "(j + 1) * csize t \<le> j' * csize t" using e(2) by (rule mult_le_mono1)
    then show ?thesis using e by simp
  qed
  then show "unat (chunk t j) + unat (of_nat (csize t) :: u64) \<le> unat (chunk t' j')" using u s by simp
  have "t' * 2 ^ 36 + j' * csize t' + csize t' \<le> 2 ^ 40" using assms(2,4) by simp
  then show "unat (chunk t' j') + unat (of_nat (csize t') :: u64) \<le> 2 ^ 64" using u s by (simp add: LAYOUT_HEAP_START_def)
  show "0 < (of_nat (csize t) :: u64)" using s(1) csize_bounds(1)[OF assms(1)] by (simp add: word_less_nat_alt)
qed


lemma node_cases:
  assumes "x \<in> heap_nodes y"
  obtains (slab) t where "t < 16" "x = slab_head y t" | (part) t j where "t < 16" "(j + 1) * csize t \<le> 2 ^ 36" "x = chunk t j"
  using assms unfolding heap_nodes_def slab_nodes_def by auto

lemma heads_sep:
  assumes y: "slabs_placed y" and t: "t < 16" "t' < 16" "t \<noteq> t'"
  shows "sep (slab_head y t) 16 (slab_head y t') 16"
proof -
  have "sep (slab_head y t) 16 (slab_head y t') 16" if "t < t'" "t' < 16" for t t'
  proof (rule sep_unat)
    have "40 * t + 8 < 640" "40 * t' + 8 < 640" using that by simp_all
    then have u: "unat (slab_head y t) = unat (a_slabs y) + (40 * t + 8)" "unat (slab_head y t') = unat (a_slabs y) + (40 * t' + 8)"
      using that unat_in_slabs[OF y, of "40 * t + 8"] unat_in_slabs[OF y, of "40 * t' + 8"] by (simp_all add: head_address)
    then show "unat (slab_head y t) + unat (16 :: u64) \<le> unat (slab_head y t')" using that by simp
    show "unat (slab_head y t') + unat (16 :: u64) \<le> 2 ^ 64" using y that unfolding u by (simp add: slabs_placed_def)
  qed simp
  then show ?thesis using t by (metis linorder_neqE_nat sep_sym)
qed

lemma head_chunk_sep:
  assumes "slabs_placed y" "t < 16" "t' < 16" "(j + 1) * csize t' \<le> 2 ^ 36"
  shows "sep (slab_head y t) 16 (chunk t' j) 16"
proof -
  have "40 * t + 8 + unat (16 :: u64) \<le> 640" using assms(2) by simp
  from slab_part_sep[OF assms(1) this _ assms(3,4)] show ?thesis by (simp add: head_address assms(2))
qed

lemma chunk_nodes_sep:
  assumes "t < 16" "t' < 16" "(j + 1) * csize t \<le> 2 ^ 36" "(j' + 1) * csize t' \<le> 2 ^ 36" "t \<noteq> t' \<or> j \<noteq> j'"
  shows "sep (chunk t j) 16 (chunk t' j') 16"
proof -
  have "sep (chunk t j) 16 (chunk t' j') 16" if "t < 16" "t' < 16" "(j + 1) * csize t \<le> 2 ^ 36"
    "(j' + 1) * csize t' \<le> 2 ^ 36" "t < t' \<or> t = t' \<and> j < j'" for t t' j j'
  proof -
    have "16 \<le> unat (of_nat (csize t) :: u64)" "16 \<le> unat (of_nat (csize t') :: u64)"
      using csize_bounds(1,2)[OF that(1)] csize_bounds(1,2)[OF that(2)] by (simp_all add: unat_of_nat take_bit_nat_eq_self)
    then show ?thesis using sep_sub[OF chunks_sep[OF that], of 0 16 0 16] by simp
  qed
  note lt = this
  consider "t < t' \<or> t = t' \<and> j < j'" | "t' < t \<or> t' = t \<and> j' < j" using assms(5) by linarith
  then show ?thesis
  proof cases
    case 1 then show ?thesis using lt assms by blast
  next
    case 2 then show ?thesis using lt[of t' t j' j] assms by (simp add: sep_sym)
  qed
qed

lemma sep_neq: "sep x 16 y 16 \<Longrightarrow> x \<noteq> y"
  by (auto simp: sep_def)

lemma heap_apart:
  assumes y: "slabs_placed y"
  shows "apart (heap_nodes y)"
proof -
  have z: "x \<noteq> 0" if "x \<in> heap_nodes y" for x
    using that
  proof (cases x rule: node_cases)
    case (slab t)
    then have "unat x = unat (a_slabs y) + (40 * t + 8)" using unat_in_slabs[OF y, of "40 * t + 8"] by (simp add: head_address)
    then show ?thesis by (auto simp: unat_eq_0)
  next
    case (part t j)
    then have "0 < unat x" using unat_chunk[of t j] by (simp add: LAYOUT_HEAP_START_def)
    then show ?thesis by auto
  qed
  have "sep x 16 z 16" if "x \<in> heap_nodes y" "z \<in> heap_nodes y" "x \<noteq> z" for x z
    using that(1)
  proof (cases x rule: node_cases)
    case x: (slab t)
    show ?thesis using that(2)
    proof (cases z rule: node_cases)
      case (slab t')
      then show ?thesis using heads_sep[OF y x(1) slab(1)] x that(3) by auto
    next
      case (part t' j)
      then show ?thesis using head_chunk_sep[OF y x(1) part(1,2)] x by simp
    qed
  next
    case x: (part t j)
    show ?thesis using that(2)
    proof (cases z rule: node_cases)
      case (slab t')
      then show ?thesis using head_chunk_sep[OF y slab(1) x(1,2)] x by (simp add: sep_sym)
    next
      case (part t' j')
      then show ?thesis using chunk_nodes_sep[OF x(1) part(1) x(2) part(2)] x that(3) by auto
    qed
  qed
  with z show ?thesis unfolding apart_def by blast
qed

lemma slab_nodes_sub: "t < 16 \<Longrightarrow> slab_nodes y t \<subseteq> heap_nodes y"
  by (auto simp: heap_nodes_def)

lemma slab_nodes_disjoint:
  assumes y: "slabs_placed y" and t: "t < 16" "t' < 16" "t \<noteq> t'"
  shows "slab_nodes y t \<inter> slab_nodes y t' = {}"
  using sep_neq[OF heads_sep[OF y t]] sep_neq[OF head_chunk_sep[OF y t(1,2)]] sep_neq[OF head_chunk_sep[OF y t(2,1)]]
    sep_neq[OF chunk_nodes_sep[OF t(1,2)]] t(3)
  unfolding slab_nodes_def by auto

text \<open>The other fields of the slabs are apart from all nodes.\<close>

lemma field_sep:
  assumes y: "slabs_placed y" and t: "t < 16" and k: "k = 0 \<or> k = 24 \<or> k = 32" and x: "x \<in> heap_nodes y"
  shows "sep (slab_at y (of_nat t) + of_nat k) 8 x 16"
  using x
proof (cases x rule: node_cases)
  case (part t' j)
  have b: "40 * t + k + unat (8 :: u64) \<le> 640" "(0 :: u64) < 8" using t k by auto
  have "slab_at y (of_nat t) + of_nat k = a_slabs y + of_nat (40 * t + k)" by (simp add: slab_address t)
  then show ?thesis using slab_part_sep[OF y b part(1,2)] by (simp only: part(3))
next
  case (slab t')
  have b: "40 * t + k < 640" "40 * t' + 8 < 640" using t k slab(1) by auto
  have u: "unat (slab_at y (of_nat t) + of_nat k) = unat (a_slabs y) + (40 * t + k)" "unat x = unat (a_slabs y) + (40 * t' + 8)"
    using unat_in_slabs[OF y b(1)] unat_in_slabs[OF y b(2)] by (simp_all add: slab_address head_address t slab ac_simps)
  have e: "unat (a_slabs y) + 640 \<le> 2 ^ 64" using y by (simp add: slabs_placed_def)
  have "40 * t + k + 8 \<le> 40 * t' + 8 \<or> 40 * t' + 8 + 16 \<le> 40 * t + k" using k by presburger
  then consider "40 * t + k + 8 \<le> 40 * t' + 8" | "40 * t' + 8 + 16 \<le> 40 * t + k" by blast
  then show ?thesis
  proof cases
    case 1 then show ?thesis by (intro sep_unat) (use u e slab(1) in simp_all)
  next
    case 2 then show ?thesis by (subst sep_sym, intro sep_unat) (use u e t k in auto)
  qed
qed


lemma field_kept:
  assumes y: "slabs_placed y" and t: "t < 16" and k: "k = 0 \<or> k = 24 \<or> k = 32" and o: "only_nodes (heap_nodes y) m m'"
  shows "ld64 m' (slab_at y (of_nat t) + of_nat k) = ld64 m (slab_at y (of_nat t) + of_nat k)"
proof (rule ld64_agree)
  fix x assume "x - (slab_at y (of_nat t) + of_nat k) < 8"
  then have "\<forall>a\<in>heap_nodes y. \<not> x - a < 16" using field_sep[OF y t k] sep_outside by blast
  then show "m' x = m x" using o by (simp add: only_nodes_def)
qed

section \<open>Slabs in memory\<close>

type_synonym heap = "nat \<Rightarrow> nat \<times> nat list"

definition slab_holds :: "memory \<Rightarrow> symbols \<Rightarrow> nat \<Rightarrow> nat \<times> nat list \<Rightarrow> bool" where
  "slab_holds m y t h \<longleftrightarrow> sl_type m (slab_at y (of_nat t)) = of_nat t \<and>
     sl_start m (slab_at y (of_nat t)) = SLABBASE (of_nat t) \<and> sl_end m (slab_at y (of_nat t)) = chunk t (fst h) \<and>
     ring m (slab_head y t) (map (chunk t) (snd h)) \<and> set (snd h) \<subseteq> {..<fst h} \<and> fst h * csize t \<le> 2 ^ 36"

definition heap_rel :: "memory \<Rightarrow> symbols \<Rightarrow> heap \<Rightarrow> bool" where
  "heap_rel m y H \<longleftrightarrow> slabs_placed y \<and> (\<forall>t<16. slab_holds m y t (H t))"

lemma heap_slab: "heap_rel m y H \<Longrightarrow> t < 16 \<Longrightarrow> slab_holds m y t (H t)"
  by (simp add: heap_rel_def)

lemma fields_kept:
  assumes "slabs_placed y" "t < 16" "only_nodes (heap_nodes y) m m'"
  shows "sl_type m' (slab_at y (of_nat t)) = sl_type m (slab_at y (of_nat t))"
    "sl_start m' (slab_at y (of_nat t)) = sl_start m (slab_at y (of_nat t))"
    "sl_end m' (slab_at y (of_nat t)) = sl_end m (slab_at y (of_nat t))"
  using field_kept[OF assms(1,2) _ assms(3), of 0] field_kept[OF assms(1,2) _ assms(3), of 24]
    field_kept[OF assms(1,2) _ assms(3), of 32]
  by (simp_all add: sl_type_def ld32_def sl_start_def sl_end_def)

lemma chunk_node: "(j + 1) * csize t \<le> 2 ^ 36 \<Longrightarrow> chunk t j \<in> slab_nodes y t"
  by (simp add: slab_nodes_def)

lemma carved_node:
  assumes "j < n" "n * csize t \<le> 2 ^ 36"
  shows "chunk t j \<in> slab_nodes y t"
proof (rule chunk_node)
  have "(j + 1) * csize t \<le> n * csize t" using assms(1) by (intro mult_le_mono1) simp
  then show "(j + 1) * csize t \<le> 2 ^ 36" using assms(2) by linarith
qed

lemma holds_nodes: "slab_holds m y t h \<Longrightarrow> set (slab_head y t # map (chunk t) (snd h)) \<subseteq> slab_nodes y t"
  using carved_node[of _ "fst h" t y] by (auto simp: slab_holds_def) (simp add: slab_nodes_def)

lemma chunk_inj:
  assumes "t < 16" "(j + 1) * csize t \<le> 2 ^ 36" "(j' + 1) * csize t \<le> 2 ^ 36" "chunk t j = chunk t j'"
  shows "j = j'"
  using chunk_nodes_sep[OF assms(1,1-3)] sep_neq assms(4) by blast

text \<open>Changing the nodes of one slab leaves the other slabs alone.\<close>

lemma holds_other:
  assumes y: "slabs_placed y" and t: "t < 16" "t' < 16" "t \<noteq> t'" and o: "only_nodes (slab_nodes y t) m m'"
    and h: "slab_holds m y t' h"
  shows "slab_holds m' y t' h"
proof -
  have o': "only_nodes (heap_nodes y) m m'" using o by (rule only_nodes_mono) (rule slab_nodes_sub[OF t(1)])
  note f = fields_kept[OF y t(2) o']
  have n: "set (slab_head y t' # map (chunk t') (snd h)) \<subseteq> slab_nodes y t'" using h by (rule holds_nodes)
  have "ring m' (slab_head y t') (map (chunk t') (snd h)) = ring m (slab_head y t') (map (chunk t') (snd h))"
  proof (rule only_nodes_ring[OF o])
    show "apart (set (slab_head y t' # map (chunk t') (snd h)) \<union> slab_nodes y t)"
      by (rule apart_subset[OF heap_apart[OF y]]) (use n slab_nodes_sub[OF t(1)] slab_nodes_sub[OF t(2)] in blast)
    show "slab_nodes y t \<inter> set (slab_head y t' # map (chunk t') (snd h)) = {}"
      using n slab_nodes_disjoint[OF y t] by blast
  qed
  then show ?thesis using h unfolding slab_holds_def f by blast
qed

lemma heap_update:
  assumes r: "heap_rel m y H" and t: "t < 16" and o: "only_nodes (slab_nodes y t) m m'" and h: "slab_holds m' y t h"
  shows "heap_rel m' y (H(t := h))"
  using r holds_other[OF _ t _ _ o] h unfolding heap_rel_def by auto

section \<open>Taking and giving chunks\<close>

lemma take_chunk:
  assumes r: "heap_rel m y H" and t: "t < 16" and h: "H t = (n, j # fs)"
  obtains m' where "list_remove (chunk t j) m = Inr ((), m')" "lnext m (slab_head y t) = chunk t j"
    "heap_rel m' y (H(t := (n, fs)))"
proof -
  have y: "slabs_placed y" and s: "slab_holds m y t (n, j # fs)" using r t h by (auto simp: heap_rel_def)
  then have g: "ring m (slab_head y t) (chunk t j # map (chunk t) fs)" by (simp add: slab_holds_def)
  obtain m' where m': "list_remove (chunk t j) m = Inr ((), m')" "ring m' (slab_head y t) (map (chunk t) fs)"
    "only_nodes (set (slab_head y t # chunk t j # map (chunk t) fs)) m m'"
    using ring_remove[of m "slab_head y t" "[]" "chunk t j" "map (chunk t) fs"] g by auto
  have o: "only_nodes (slab_nodes y t) m m'" using m'(3) by (rule only_nodes_mono) (use holds_nodes[OF s] in simp)
  then have o': "only_nodes (heap_nodes y) m m'" by (rule only_nodes_mono) (rule slab_nodes_sub[OF t])
  have "slab_holds m' y t (n, fs)" using s m'(2) fields_kept[OF y t o'] by (simp add: slab_holds_def)
  then show thesis using that m'(1) list_first_ring[OF g] heap_update[OF r t o] by blast
qed

lemma heap_distinct:
  assumes "heap_rel m y H" "t < 16"
  shows "distinct (snd (H t))"
proof -
  have "ring m (slab_head y t) (map (chunk t) (snd (H t)))" using assms by (simp add: heap_rel_def slab_holds_def)
  then show ?thesis by (simp add: ring_def distinct_map)
qed


text \<open>Moving the end of a slab writes one field and no node.\<close>

lemma ring_end:
  assumes y: "slabs_placed y" and t: "t < 16" and n: "set (h # xs) \<subseteq> heap_nodes y"
  shows "ring (st64 (slab_at y (of_nat t) + 32) v m) h xs = ring m h xs"
proof (rule agree_ring)
  fix x assume "x \<in> set (h # xs)"
  then have "sep (slab_at y (of_nat t) + 32) 8 x 16" using field_sep[OF y t, of 32 x] n by auto
  then show "agree x 16 m (st64 (slab_at y (of_nat t) + 32) v m)" by (intro agree_st64) (simp add: sep_sym)
qed

lemma slab_fields_sep:
  assumes y: "slabs_placed y" and t: "t < 16" "t' < 16" and k: "k \<in> {0, 24, 32}" "l \<in> {0, 24, 32}"
    and ne: "t' \<noteq> t \<or> k \<noteq> l"
  shows "sep (slab_at y (of_nat t') + of_nat k) 8 (slab_at y (of_nat t) + of_nat l) 8"
proof -
  have d: "k \<le> 32" "l \<le> 32" using k by auto
  then have b: "40 * t' + k + 8 \<le> 640" "40 * t + l + 8 \<le> 640" using t by auto
  have u: "unat (slab_at y (of_nat t') + of_nat k) = unat (a_slabs y) + (40 * t' + k)"
    "unat (slab_at y (of_nat t) + of_nat l) = unat (a_slabs y) + (40 * t + l)"
    using unat_in_slabs[OF y, of "40 * t' + k"] unat_in_slabs[OF y, of "40 * t + l"] b by (simp_all add: slab_address t ac_simps)
  have e: "unat (a_slabs y) + 640 \<le> 2 ^ 64" using y by (simp add: slabs_placed_def)
  consider "40 * t' + k + 8 \<le> 40 * t + l" | "40 * t + l + 8 \<le> 40 * t' + k"
  proof -
    have "40 * t' + k + 8 \<le> 40 * t + l \<or> 40 * t + l + 8 \<le> 40 * t' + k"
    proof (cases t t' rule: linorder_cases)
      case equal then show ?thesis using k ne by auto
    next
      case less then show ?thesis using d by linarith
    next
      case greater then show ?thesis using d by linarith
    qed
    then show thesis using that by blast
  qed
  then show ?thesis
  proof cases
    case 1 then show ?thesis by (intro sep_unat) (use u e b in \<open>simp_all\<close>)
  next
    case 2 then show ?thesis by (subst sep_sym, intro sep_unat) (use u e b in \<open>simp_all\<close>)
  qed
qed

lemma fields_end:
  fixes m :: memory and v :: addr
  assumes y: "slabs_placed y" and t: "t < 16" "t' < 16"
  defines "m' \<equiv> st64 (slab_at y (of_nat t) + 32) v m"
  shows "sl_type m' (slab_at y (of_nat t')) = sl_type m (slab_at y (of_nat t'))"
    "sl_start m' (slab_at y (of_nat t')) = sl_start m (slab_at y (of_nat t'))"
    "sl_end m' (slab_at y (of_nat t')) = (if t' = t then v else sl_end m (slab_at y (of_nat t')))"
proof -
  have f: "ld64 m' (slab_at y (of_nat t') + of_nat k) = ld64 m (slab_at y (of_nat t') + of_nat k)"
    if "k \<in> {0, 24, 32}" "t' \<noteq> t \<or> k \<noteq> 32" for k
    unfolding m'_def using slab_fields_sep[OF y t that(1), of 32] that(2) by (intro ld64_st64_sep) simp
  show "sl_type m' (slab_at y (of_nat t')) = sl_type m (slab_at y (of_nat t'))"
    "sl_start m' (slab_at y (of_nat t')) = sl_start m (slab_at y (of_nat t'))"
    using f[of 0] f[of 24] by (simp_all add: sl_type_def ld32_def sl_start_def)
  show "sl_end m' (slab_at y (of_nat t')) = (if t' = t then v else sl_end m (slab_at y (of_nat t')))"
    using f[of 32] by (cases "t' = t") (simp_all add: sl_end_def m'_def)
qed

lemma give_chunk:
  assumes r: "heap_rel (mem s) (sym s) H" and t: "t < 16" and h: "H t = (n, fs)" and fit: "Suc n * csize t \<le> 2 ^ 36"
  obtains s' where "grow_step (slab_at (sym s) (of_nat t)) (of_nat (csize t)) (chunk t (Suc n)) s = Inr (chunk t (Suc (Suc n)), s')"
    "heap_rel (mem s') (sym s') (H(t := (Suc n, n # fs)))" "s' = s\<lparr>mem := mem s'\<rparr>"
proof -
  let ?y = "sym s" and ?L = "slab_at (sym s) (of_nat t)"
  have y: "slabs_placed ?y" and k: "slab_holds (mem s) ?y t (n, fs)" using r t h by (auto simp: heap_rel_def)
  have g: "ring (mem s) (slab_head ?y t) (map (chunk t) fs)" and fs: "set fs \<subseteq> {..<n}" using k by (simp_all add: slab_holds_def)
  have nodes: "set (slab_head ?y t # map (chunk t) fs) \<subseteq> slab_nodes ?y t" using holds_nodes[OF k] by simp
  have c: "chunk t n \<in> slab_nodes ?y t" by (rule chunk_node) (use fit in simp)
  note sub = slab_nodes_sub[OF t, of ?y]
  have "chunk t n \<noteq> chunk t j" if j: "j \<in> set fs" for j
  proof -
    have "j < n" using fs j by auto
    then have "(j + 1) * csize t \<le> Suc n * csize t" by (intro mult_le_mono1) simp
    then have "(j + 1) * csize t \<le> 2 ^ 36" using fit by linarith
    then show ?thesis using chunk_inj[OF t, of n j] fit \<open>j < n\<close> by auto
  qed
  moreover have "chunk t n \<noteq> slab_head ?y t" using head_chunk_sep[OF y t t, of n] fit sep_neq by force
  ultimately have nw: "chunk t n \<notin> set (slab_head ?y t # map (chunk t) fs)" by auto
  have "apart (insert (chunk t n) (set (slab_head ?y t # map (chunk t) fs)))"
    by (rule apart_subset[OF heap_apart[OF y]]) (use nodes c sub in blast)
  from ring_insert_head[OF g nw this] obtain m1 where
    m1: "list_insert (slab_head ?y t) (chunk t n) (mem s) = Inr ((), m1)"
    "ring m1 (slab_head ?y t) (chunk t n # map (chunk t) fs)"
    "only_nodes (insert (chunk t n) (set (slab_head ?y t # map (chunk t) fs))) (mem s) m1" by blast
  have o: "only_nodes (slab_nodes ?y t) (mem s) m1" using m1(3) by (rule only_nodes_mono) (use nodes c in blast)
  have o': "only_nodes (heap_nodes ?y) (mem s) m1" using o by (rule only_nodes_mono) (rule sub)
  define m2 where "m2 = st64 (?L + 32) (chunk t (Suc n)) m1"
  have "slab_holds m2 ?y t' (H t')" if t': "t' < 16" "t' \<noteq> t" for t'
  proof -
    have k': "slab_holds m1 ?y t' (H t')" using r t' holds_other[OF y t t'(1) _ o] by (auto simp: heap_rel_def)
    have "set (slab_head ?y t' # map (chunk t') (snd (H t'))) \<subseteq> heap_nodes ?y"
      using holds_nodes[OF k'] slab_nodes_sub[OF t'(1)] by blast
    from ring_end[OF y t this] k' show ?thesis
      using fields_end[OF y t t'(1)] t'(2) by (simp add: slab_holds_def m2_def)
  qed
  moreover have "slab_holds m2 ?y t (Suc n, n # fs)"
  proof -
    have "set (slab_head ?y t # map (chunk t) (n # fs)) \<subseteq> heap_nodes ?y" using nodes c sub by auto
    from ring_end[OF y t this] show ?thesis using k m1(2) fs fit fields_end[OF y t t] fields_kept[OF y t o']
      by (auto simp: slab_holds_def m2_def)
  qed
  ultimately have "heap_rel m2 ?y (H(t := (Suc n, n # fs)))" using y by (simp add: heap_rel_def)
  moreover have "sl_end (mem s) ?L = chunk t n" using k by (simp add: slab_holds_def)
  then have "grow_step ?L (of_nat (csize t)) (chunk t (Suc n)) s = Inr (chunk t (Suc (Suc n)), s\<lparr>mem := m2\<rparr>)"
    using m1(1) by (simp add: grow_step_def slab_head_def thn_Inr[OF on_mem_Inr] kern m2_def chunk_Suc)
  ultimately show thesis using that[of "s\<lparr>mem := m2\<rparr>"] by simp
qed


section \<open>Growing a slab\<close>

lemma csize_word: "t < 16 \<Longrightarrow> slab_size (of_nat t) = of_nat (csize t)"
  by (simp add: csize_def)

text \<open>The slab is cut into chunks up to \<open>N\<close>, the last that ends below the limit \<open>p\<close>.\<close>

lemma grow_loop:
  assumes t: "t < 16" and p: "unat p = unat LAYOUT_HEAP_START + t * 2 ^ 36 + P" "P \<le> 2 ^ 36" "N = (P - 1) div csize t" "0 < P"
  shows "heap_rel (mem s) (sym s) H \<Longrightarrow> H t = (n, fs) \<Longrightarrow> n + k = N \<Longrightarrow>
    \<exists>s' next. loop (grow_more p) (grow_step (slab_at (sym s) (of_nat t)) (of_nat (csize t))) (chunk t (Suc n)) s =
      Inr (next, s') \<and> heap_rel (mem s') (sym s') (H(t := (N, rev [n..<N] @ fs))) \<and> s' = s\<lparr>mem := mem s'\<rparr>"
proof (induction k arbitrary: s n fs H)
  case 0
  have c: "0 < csize t" using csize_bounds(1)[OF t] by simp
  have "\<not> chunk t (Suc n) < p"
  proof (cases "Suc n * csize t \<le> 2 ^ 36")
    case True
    have "P - 1 < Suc n * csize t" using 0(3) p(3) c
      by (metis add.right_neutral dividend_less_div_times mult.commute mult_Suc)
    then show ?thesis using unat_chunk[OF t True] p(1) by (simp add: word_less_nat_alt)
  next
    case False
    have nP: "n * csize t \<le> P - 1" using 0(3) p(3) by simp
    have "Suc n * csize t \<le> 2 ^ 37" using nP p(2) csize_bounds(2)[OF t] by simp
    then have "unat (of_nat (Suc n * csize t) :: u64) = Suc n * csize t" by (intro unat_nat64) (simp del: mult_Suc)
    then have "unat (chunk t (Suc n)) = unat LAYOUT_HEAP_START + t * 2 ^ 36 + Suc n * csize t"
      using \<open>Suc n * csize t \<le> 2 ^ 37\<close> unat_SLABBASE[OF t] t
      by (simp add: chunk_def unat_word_ariths LAYOUT_HEAP_START_def del: of_nat_mult mult_Suc)
    then show ?thesis using False p(1,2) by (simp add: word_less_nat_alt)
  qed
  moreover have "H(t := (N, rev [n..<N] @ fs)) = H" using 0 by (simp add: fun_eq_iff)
  ultimately show ?case using 0(1) by (intro exI[of _ s] exI[of _ "chunk t (Suc n)"]) (simp add: loop_stop)
next
  case (Suc k)
  have c: "0 < csize t" using csize_bounds(1)[OF t] by simp
  have "Suc n \<le> (P - 1) div csize t" using Suc.prems(3) p(3) by simp
  then have le: "Suc n * csize t \<le> P - 1" using c by (simp add: less_eq_div_iff_mult_less_eq)
  then have fit: "Suc n * csize t \<le> 2 ^ 36" using p(2) by linarith
  have more: "chunk t (Suc n) < p" using unat_chunk[OF t fit] le p(1,4) by (simp add: word_less_nat_alt)
  obtain s1 where s1: "grow_step (slab_at (sym s) (of_nat t)) (of_nat (csize t)) (chunk t (Suc n)) s = Inr (chunk t (Suc (Suc n)), s1)"
    "heap_rel (mem s1) (sym s1) (H(t := (Suc n, n # fs)))" "s1 = s\<lparr>mem := mem s1\<rparr>"
    by (rule give_chunk[OF Suc.prems(1) t Suc.prems(2) fit])
  have y: "sym s1 = sym s" by (subst s1(3)) simp
  have h: "(H(t := (Suc n, n # fs))) t = (Suc n, n # fs)" "Suc n + k = N" using Suc.prems(3) by simp_all
  from Suc.IH[OF s1(2) h] obtain s' e where
    l: "loop (grow_more p) (grow_step (slab_at (sym s1) (of_nat t)) (of_nat (csize t))) (chunk t (Suc (Suc n))) s1 = Inr (e, s')"
    and r: "heap_rel (mem s') (sym s') ((H(t := (Suc n, n # fs)))(t := (N, rev [Suc n..<N] @ n # fs)))" and s': "s' = s1\<lparr>mem := mem s'\<rparr>"
    by (elim exE conjE) (rule that)
  have "rev [n..<N] @ fs = rev [Suc n..<N] @ n # fs" using Suc.prems(3) by (simp add: upt_rec)
  then have "heap_rel (mem s') (sym s') (H(t := (N, rev [n..<N] @ fs)))" using r by (simp add: fun_upd_upd)
  moreover have "s' = s\<lparr>mem := mem s'\<rparr>" by (subst s', subst s1(3)) simp
  moreover have "loop (grow_more p) (grow_step (slab_at (sym s) (of_nat t)) (of_nat (csize t))) (chunk t (Suc n)) s = Inr (e, s')"
  proof -
    have "loop (grow_more p) (grow_step (slab_at (sym s) (of_nat t)) (of_nat (csize t))) (chunk t (Suc n)) s =
        loop (grow_more p) (grow_step (slab_at (sym s) (of_nat t)) (of_nat (csize t))) (chunk t (Suc (Suc n))) s1"
      by (rule loop_step, simp add: more, rule s1(1))
    then show ?thesis using l unfolding y by (simp only:)
  qed
  ultimately show ?case by blast
qed

text \<open>The physical memory manager's data is apart from the slabs and the heap.\<close>

definition manager_apart :: "kst \<Rightarrow> bool" where
  "manager_apart s \<longleftrightarrow> (\<forall>(a, n) \<in> {(bm0 s, 64), (a_mem_info (sym s), 16), (a_pages_bitmap0 (sym s), 4096)}.
     sep (a_slabs (sym s)) 640 a n \<and> sep LAYOUT_HEAP_START (2 ^ 40) a n)"

lemma heap_rel_agree:
  assumes r: "heap_rel m y H" and a: "agree (a_slabs y) 640 m m'" "agree LAYOUT_HEAP_START (2 ^ 40) m m'"
  shows "heap_rel m' y H"
proof -
  have y: "slabs_placed y" using r by (simp add: heap_rel_def)
  have "slab_holds m' y t (H t)" if t: "t < 16" for t
  proof -
    have k: "slab_holds m y t (H t)" using r t by (simp add: heap_rel_def)
    have f: "ld64 m' (slab_at y (of_nat t) + of_nat l) = ld64 m (slab_at y (of_nat t) + of_nat l)" if "l \<in> {0, 24, 32}" for l
    proof -
      have b: "40 * t + l < 640" "40 * t + l + 8 \<le> 640" using t that by auto
      have "unat (of_nat (40 * t + l) :: u64) + 8 \<le> unat (640 :: u64)"
        using b by (simp add: unat_of_nat take_bit_nat_eq_self del: of_nat_add of_nat_mult)
      then have "ld64 m' (a_slabs y + of_nat (40 * t + l)) = ld64 m (a_slabs y + of_nat (40 * t + l))" by (rule agree_ld64[OF a(1)])
      then show ?thesis by (simp add: slab_address t ac_simps)
    qed
    have "ring m' (slab_head y t) (map (chunk t) (snd (H t))) = ring m (slab_head y t) (map (chunk t) (snd (H t)))"
    proof (rule agree_ring)
      fix x assume "x \<in> set (slab_head y t # map (chunk t) (snd (H t)))"
      then have "x \<in> slab_nodes y t" using holds_nodes[OF k] by blast
      then consider "x = slab_head y t" | j where "(j + 1) * csize t \<le> 2 ^ 36" "x = chunk t j" unfolding slab_nodes_def by auto
      then show "agree x 16 m m'"
      proof cases
        case 1
        have "unat (of_nat (40 * t + 8) :: u64) + unat (16 :: u64) \<le> unat (640 :: u64)"
          using t by (simp add: unat_of_nat take_bit_nat_eq_self del: of_nat_add of_nat_mult)
        then show ?thesis unfolding 1 head_address[OF t] by (rule agree_sub[OF a(1)])
      next
        case 2
        have e: "chunk t j = LAYOUT_HEAP_START + of_nat (t * 2 ^ 36 + j * csize t)"
          using t by (simp add: chunk_def SLABBASE_def type_ucast push_bit_eq_mult)
        have "t * 2 ^ 36 + j * csize t + 16 \<le> 2 ^ 40" using 2(1) t csize_bounds(1)[OF t] by simp
        then have "unat (of_nat (t * 2 ^ 36 + j * csize t) :: u64) + unat (16 :: u64) \<le> unat (2 ^ 40 :: u64)"
          by (simp add: unat_of_nat take_bit_nat_eq_self del: of_nat_add of_nat_mult)
        then show ?thesis unfolding 2(2) e by (rule agree_sub[OF a(2)])
      qed
    qed
    then show ?thesis using k f[of 0] f[of 24] f[of 32]
      by (simp add: slab_holds_def sl_type_def ld32_def sl_start_def sl_end_def)
  qed
  then show ?thesis using y by (simp add: heap_rel_def)
qed

lemma heap_rel_manager:
  assumes "heap_rel (mem s) (sym s) H" "manager_apart s" "pm_frame s s'"
  shows "heap_rel (mem s') (sym s') H"
proof -
  have "agree a n (mem s) (mem s')" if "(a, n) = (a_slabs (sym s), 640) \<or> (a, n) = (LAYOUT_HEAP_START, 2 ^ 40)" for a n
  proof -
    have "\<not> x - bm0 s < 64 \<and> \<not> x - a_mem_info (sym s) < 16 \<and> \<not> x - a_pages_bitmap0 (sym s) < 4096" if "x - a < n" for x
      using assms(2) \<open>_ \<or> _\<close> sep_outside[OF _ that] by (auto simp: manager_apart_def)
    then show ?thesis using assms(3) by (simp add: agree_def pm_frame_def)
  qed
  then show ?thesis using heap_rel_agree[OF assms(1)] pm_frame_sym[OF assms(3)] by simp
qed


definition page_up :: "nat \<Rightarrow> nat" where
  "page_up k = (k + 4095) div 4096 * 4096"

definition grown :: "nat \<Rightarrow> nat \<Rightarrow> nat" where
  "grown t n = (page_up (n * csize t) + 4095) div csize t"

text \<open>What the next page of a slab needs: its address is free, and there is a page to give.\<close>

definition can_grow :: "kst \<Rightarrow> addr \<Rightarrow> nat \<Rightarrow> nat \<Rightarrow> bool" where
  "can_grow s root t n \<longleftrightarrow> manager_apart s \<and> pm_rich 1 s \<and>
     free_leaf s (kpml4 s) root (PAGEALIGNUP (chunk t n)) 1 \<and> page_up (n * csize t) + 4096 \<le> 2 ^ 36"

lemma page_up_bounds: "k \<le> page_up k" "page_up k < k + 4096"
  unfolding page_up_def using div_mult_mod_eq[of "k + 4095" 4096] mod_less_divisor[of 4096 "k + 4095"] by linarith+

lemma page_up_shift: "page_up (b * 4096 + k) = b * 4096 + page_up k"
  by (simp add: page_up_def add.assoc add_mult_distrib)

lemma grown_more:
  assumes "t < 15"
  shows "n < grown t n"
proof -
  have c: "0 < csize t" "csize t < 4096" using csize_bounds(1)[of t] csize_bounds(3)[OF assms] assms by simp_all
  have "Suc n * csize t \<le> page_up (n * csize t) + 4095" using page_up_bounds(1)[of "n * csize t"] c(2) by simp
  then have "Suc n \<le> grown t n" using c(1) by (simp add: grown_def less_eq_div_iff_mult_less_eq)
  then show ?thesis by simp
qed

lemma unat_page_up_chunk:
  assumes "t < 16" "page_up (n * csize t) + 4096 \<le> 2 ^ 36"
  shows "unat (PAGEALIGNUP (chunk t n)) = unat LAYOUT_HEAP_START + t * 2 ^ 36 + page_up (n * csize t)"
proof -
  have le: "n * csize t \<le> 2 ^ 36" using assms(2) page_up_bounds(1)[of "n * csize t"] by linarith
  note u = unat_chunk[OF assms(1) le]
  have "unat (chunk t n) + 4095 < 2 ^ 64" using u le assms(1) by (simp add: LAYOUT_HEAP_START_def)
  from unat_PAGEALIGNUP[OF this] have e: "unat (PAGEALIGNUP (chunk t n)) = (unat (chunk t n) + 4095) div 4096 * 4096" .
  have b: "unat LAYOUT_HEAP_START + t * 2 ^ 36 = (4503565267632128 + t * 2 ^ 24) * 4096" by (simp add: LAYOUT_HEAP_START_def)
  show ?thesis unfolding e u page_up_def[symmetric] b page_up_shift ..
qed


lemma alloc_slab_run:
  assumes r: "heap_rel (mem s) (sym s) H" and t: "t < 15" and h: "H t = (n, [])" and g: "can_grow s root t n"
  obtains s' where "alloc_slab (pm_request_page srv) (slab_at (sym s) (of_nat t)) s = Inr ((), s')"
    "heap_rel (mem s') (sym s') (H(t := (grown t n, rev [n..<grown t n])))" "sym s' = sym s"
proof -
  have t16: "t < 16" using t by simp
  let ?q = "PAGEALIGNUP (chunk t n)" and ?L = "slab_at (sym s) (of_nat t)"
  have ap: "manager_apart s" and f: "free_leaf s (kpml4 s) root ?q 1" and rich: "pm_rich 1 s"
    and fit: "page_up (n * csize t) + 4096 \<le> 2 ^ 36" using g by (simp_all add: can_grow_def)
  have k: "slab_holds (mem s) (sym s) t (n, [])" using r t16 h by (auto simp: heap_rel_def)
  note uq = unat_page_up_chunk[OF t16 fit]
  have kv: "ISKVADDR ?q" using uq by (simp add: ISKVADDR_def word_le_nat_alt)
  have pg: "PAGES SLAB_GROW_SIZE = of_nat 1" by (simp add: PAGES_def SLAB_GROW_SIZE_def PAGE_SIZE_def PAGEALIGNUP_def ALIGNUP_def)
  have fl: "ISFLAGUNSET (VM_FLAG_WRITABLE OR VM_FLAG_STRICT) VM_FLAG_USER"
    by (simp add: ISFLAGUNSET_def VM_FLAG_WRITABLE_def VM_FLAG_USER_def VM_FLAG_STRICT_def)
  from mm_map_run[OF f rich kv pg fl, of srv] obtain s1 where
    m: "mm_map (pm_request_page srv) ?q SLAB_GROW_SIZE (VM_FLAG_WRITABLE OR VM_FLAG_STRICT) s = Inr (?q, s1)"
    and fr: "pm_frame s (s\<lparr>mem := mem s1\<rparr>)" and y: "sym s1 = sym s" by (elim exE conjE) (rule that)
  have r1: "heap_rel (mem s1) (sym s1) H" using heap_rel_manager[OF r ap fr] y by simp
  have k1: "slab_holds (mem s1) (sym s) t (n, [])" using r1 t16 h y by (auto simp: heap_rel_def)
  have P: "unat (?q + SLAB_GROW_SIZE) = unat LAYOUT_HEAP_START + t * 2 ^ 36 + (page_up (n * csize t) + 4096)"
    using uq fit t by (simp add: SLAB_GROW_SIZE_def PAGE_SIZE_def unat_word_ariths LAYOUT_HEAP_START_def)
  have N: "grown t n = (page_up (n * csize t) + 4096 - 1) div csize t" by (simp add: grown_def add.commute)
  obtain d where d: "n + d = grown t n" using grown_more[OF t, of n] less_imp_add_positive by blast
  have pos: "0 < page_up (n * csize t) + 4096" by simp
  from grow_loop[OF t16 P fit N pos r1 h d] obtain s' e where
    l: "loop (grow_more (?q + SLAB_GROW_SIZE)) (grow_step (slab_at (sym s1) (of_nat t)) (of_nat (csize t))) (chunk t (Suc n)) s1 = Inr (e, s')"
    and r': "heap_rel (mem s') (sym s') (H(t := (grown t n, rev [n..<grown t n] @ [])))" and s': "s' = s1\<lparr>mem := mem s'\<rparr>"
    by (elim exE conjE) (rule that)
  have y': "sym s' = sym s" by (subst s') (simp add: y)
  have "?q \<noteq> 0" using uq by (auto simp: LAYOUT_HEAP_START_def)
  moreover have "(of_nat t :: u32) < 16" using unat_type[OF t16] t by (simp add: word_less_nat_alt)
  moreover have "sl_type (mem s) ?L = of_nat t" "sl_end (mem s) ?L = chunk t n" using k by (simp_all add: slab_holds_def)
  moreover have "sl_type (mem s1) ?L = of_nat t" "sl_end (mem s1) ?L = chunk t n" using k1 by (simp_all add: slab_holds_def)
  ultimately have "alloc_slab (pm_request_page srv) ?L s = Inr ((), s')"
    using m l y by (simp add: alloc_slab_def bnd_Inr kern csize_word[OF t16] chunk_Suc)
  then show thesis using that r' y' by simp
qed


section \<open>Allocation\<close>

fun heap_take :: "nat \<Rightarrow> heap \<Rightarrow> nat \<times> heap" where
  "heap_take t H =
     (case H t of
        (n, j # fs) \<Rightarrow> (j, H(t := (n, fs)))
      | (n, []) \<Rightarrow> (grown t n - 1, H(t := (grown t n, rev [n..<grown t n - 1]))))"

definition slab_for_size :: "u64 \<Rightarrow> nat" where
  "slab_for_size sz = unat (chosen (unat sz))"

lemma slab_for_size_bound: "slab_for_size sz < 15"
  by (simp add: slab_for_size_def)

lemma mm_alloc_run:
  assumes r: "heap_rel (mem s) (sym s) H" and sz: "8 < unat sz" "unat sz < 4096" and t: "t = slab_for_size sz"
    and g: "snd (H t) \<noteq> [] \<or> can_grow s root t (fst (H t))"
  obtains s' where "mm_alloc (pm_request_page srv) sz s = Inr (chunk t (fst (heap_take t H)), s')"
    "heap_rel (mem s') (sym s') (snd (heap_take t H))"
proof -
  let ?L = "slab_at (sym s) (of_nat t)"
  have t15: "t < 15" "t < 16" using slab_for_size_bound[of sz] t by simp_all
  have c: "chosen (unat sz) = of_nat t" by (simp add: t slab_for_size_def)
  have gs: "get_slab_from_size sz s = Inr (?L, s)" using slab_for[OF sz, of s] by (simp only: c)
  have a: "sz < slab_size (type_number SLAB_MAX - 1)" using sz(2) by (simp add: word_less_nat_alt)
  obtain n fs where h: "H t = (n, fs)" by force
  have k: "slab_holds (mem s) (sym s) t (n, fs)" using heap_slab[OF r t15(2)] h by simp
  have e: "list_is_empty (sl_freelist ?L) (mem s) \<longleftrightarrow> fs = []"
    using k list_is_empty_ring[of "mem s" "slab_head (sym s) t" "map (chunk t) fs"] by (simp add: slab_holds_def slab_head_def)
  show thesis
  proof (cases fs)
    case (Cons j gs')
    obtain m' where m': "list_remove (chunk t j) (mem s) = Inr ((), m')" "lnext (mem s) (slab_head (sym s) t) = chunk t j"
      "heap_rel m' (sym s) (H(t := (n, gs')))" by (rule take_chunk[OF r t15(2) h[unfolded Cons]])
    have "mm_alloc (pm_request_page srv) sz s = Inr (chunk t j, s\<lparr>mem := m'\<rparr>)"
      using a gs e m' Cons by (simp add: mm_alloc_def bnd_Inr slab_head_def[symmetric] thn_Inr[OF on_mem_Inr] kern del: slab_sizes type_number.simps)
    then show thesis using that m'(3) h Cons by simp
  next
    case Nil
    have gr: "can_grow s root t n" using g h Nil by simp
    obtain s1 where s1: "alloc_slab (pm_request_page srv) ?L s = Inr ((), s1)"
      "heap_rel (mem s1) (sym s1) (H(t := (grown t n, rev [n..<grown t n])))" "sym s1 = sym s"
      by (rule alloc_slab_run[OF r t15(1) h[unfolded Nil] gr])
    obtain N where N: "grown t n = Suc N" "n \<le> N" using grown_more[OF t15(1), of n] by (cases "grown t n") auto
    have h1: "(H(t := (grown t n, rev [n..<grown t n]))) t = (Suc N, N # rev [n..<N])" using N by simp
    obtain m' where m': "list_remove (chunk t N) (mem s1) = Inr ((), m')" "lnext (mem s1) (slab_head (sym s1) t) = chunk t N"
      "heap_rel m' (sym s1) ((H(t := (grown t n, rev [n..<grown t n])))(t := (Suc N, rev [n..<N])))"
      by (rule take_chunk[OF s1(2) t15(2) h1])
    have "mm_alloc (pm_request_page srv) sz s = Inr (chunk t N, s1\<lparr>mem := m'\<rparr>)"
      using a gs e m' s1(1,3) Nil
      by (simp add: mm_alloc_def bnd_Inr slab_head_def[symmetric] thn_Inr thn_Inr[OF on_mem_Inr] kern del: slab_sizes type_number.simps)
    then show thesis using that[of "s1\<lparr>mem := m'\<rparr>"] m'(3) h Nil N by simp
  qed
qed

text \<open>C19: \<open>mm_alloc\<close> implements the abstract heap: in a state that holds the heap \<open>H\<close> it returns the chunk
  that \<open>heap_take\<close> picks and leaves a state that holds the new heap, whether a free chunk is at hand or
  the slab has to be given a fresh page first.\<close>

theorem mm_alloc_refines:
  assumes "heap_rel (mem s) (sym s) H" "8 < unat sz" "unat sz < 4096"
    "snd (H (slab_for_size sz)) \<noteq> [] \<or> can_grow s root (slab_for_size sz) (fst (H (slab_for_size sz)))"
  shows "\<exists>j H' s'. heap_take (slab_for_size sz) H = (j, H') \<and> heap_rel (mem s') (sym s') H' \<and>
    mm_alloc (pm_request_page srv) sz s = Inr (chunk (slab_for_size sz) j, s')"
  using mm_alloc_run[OF assms(1-3) refl assms(4), of srv] by (metis surj_pair fst_conv snd_conv)

definition live :: "heap \<Rightarrow> nat \<Rightarrow> nat set" where
  "live H t = {..<fst (H t)} - set (snd (H t))"

lemma heap_take_live:
  assumes r: "heap_rel m y H" and t: "t < 15" and k: "heap_take t H = (j, H')"
  shows "j \<notin> live H t" "live H' = (live H)(t := insert j (live H t))"
proof -
  obtain n fs where h: "H t = (n, fs)" by force
  have d: "distinct fs" "set fs \<subseteq> {..<n}" using heap_distinct[OF r, of t] heap_slab[OF r, of t] t h by (simp_all add: slab_holds_def)
  have "j \<notin> live H t \<and> live H' = (live H)(t := insert j (live H t))"
  proof (cases fs)
    case Nil
    then have e: "j = grown t n - 1" "H' = H(t := (grown t n, rev [n..<grown t n - 1]))" using k h by auto
    have "n < grown t n" by (rule grown_more[OF t])
    then show ?thesis using h Nil unfolding e by (auto simp: live_def fun_eq_iff)
  next
    case (Cons i gs)
    then have "j = i" "H' = H(t := (n, gs))" using k h by simp_all
    then show ?thesis using h Cons d by (auto simp: live_def fun_eq_iff)
  qed
  then show "j \<notin> live H t" "live H' = (live H)(t := insert j (live H t))" by blast+
qed

lemma live_fits:
  assumes "heap_rel m y H" "t < 16" "j \<in> live H t"
  shows "(j + 1) * csize t \<le> 2 ^ 36"
proof -
  have "(j + 1) * csize t \<le> fst (H t) * csize t" using assms(3) by (intro mult_le_mono1) (simp add: live_def)
  moreover have "fst (H t) * csize t \<le> 2 ^ 36" using assms(1,2) by (simp add: heap_rel_def slab_holds_def)
  ultimately show ?thesis by linarith
qed

section \<open>Initialisation\<close>

lemma empty_slab_agree:
  assumes y: "slabs_placed y" and t: "t < 16" and a: "agree (slab_at y (of_nat t)) 40 m m'" and k: "slab_holds m y t (0, [])"
  shows "slab_holds m' y t (0, [])"
proof -
  have f: "ld64 m' (slab_at y (of_nat t) + l) = ld64 m (slab_at y (of_nat t) + l)" if "unat l + 8 \<le> 40" for l
    by (rule agree_ld64[OF a]) (use that in simp)
  have "ld64 m' (slab_at y (of_nat t) + 8) = ld64 m (slab_at y (of_nat t) + 8)"
    "ld64 m' (slab_at y (of_nat t) + 8 + 8) = ld64 m (slab_at y (of_nat t) + 8 + 8)"
    using f[of 8] f[of 16] by (simp_all add: add.assoc)
  then have "ring m' (slab_head y t) [] = ring m (slab_head y t) []"
    by (intro ring_cong) (simp_all add: lnext_def lprev_def slab_head_def sl_freelist_def)
  then show ?thesis using k f[of 0] f[of 24] f[of 32]
    by (simp add: slab_holds_def sl_type_def ld32_def sl_start_def sl_end_def)
qed

lemma mm_init_step_run:
  assumes y: "slabs_placed (sym s)" and i: "i < 16" and before: "\<forall>t<i. slab_holds (mem s) (sym s) t (0, [])"
  obtains s' where "mm_init_step (of_nat i) s = Inr (of_nat (Suc i), s')"
    "\<forall>t<Suc i. slab_holds (mem s') (sym s') t (0, [])" "s' = s\<lparr>mem := mem s'\<rparr>"
    "\<forall>x. \<not> x - a_slabs (sym s) < 640 \<longrightarrow> mem s' x = mem s x"
proof -
  let ?y = "sym s"
  let ?L = "slab_at ?y (of_nat i)"
  let ?h = "slab_head ?y i"
  define m1 where "m1 = st32 ?L (of_nat i) (mem s)"
  define m2 where "m2 = st64 (?L + 24) (SLABBASE (of_nat i)) m1"
  define m3 where "m3 = st64 (?L + 32) (SLABBASE (of_nat i)) m2"
  define m4 where "m4 = st_prev ?h ?h (st_next ?h ?h m3)"
  have h: "?h = ?L + 8" by (simp add: slab_head_def sl_freelist_def)
  have nodes: "apart {?h}" by (rule apart_subset[OF heap_apart[OF y]]) (use i in \<open>auto simp: heap_nodes_def slab_nodes_def\<close>)
  then have h0: "?h \<noteq> 0" by (auto simp: apart_def)
  have L: "a_slabs ?y + of_nat i * SLAB_BYTES = ?L" using slab_address[OF i] by (simp add: SLAB_BYTES_def)
  have ty: "(ucast (of_nat i :: u64) :: u32) = of_nat i" using i by (simp add: unsigned_of_nat take_bit_nat_eq_self)
  have f1: "sl_type m1 ?L = of_nat i" by (simp add: sl_type_def m1_def)
  have f2: "sl_start m2 ?L = SLABBASE (of_nat i)" by (simp add: sl_start_def m2_def)
  have "mm_init_step (of_nat i) s = Inr (of_nat (Suc i), s\<lparr>mem := m4\<rparr>)"
    using ring_init[OF h0, of m3] f1 f2
    by (simp add: mm_init_step_def L ty kern thn_Inr[OF on_mem_Inr] slab_head_def[symmetric] m4_def
        flip: m1_def m2_def m3_def)
  moreover have only: "m4 x = mem s x" if "\<not> x - ?L < 40" for x
    using outside_sub[OF that, of 0 4] outside_sub[OF that, of 24 8] outside_sub[OF that, of 32 8]
      outside_sub[OF that, of 8 8] outside_sub[OF that, of 16 8]
    by (simp add: m4_def m3_def m2_def m1_def st_prev_def st_next_def st64_def st32_def h add.assoc)
  moreover have "slab_holds m4 ?y t (0, [])" if t: "t < Suc i" for t
  proof (cases "t = i")
    case True
    have s4: "ld64 m4 (?L + l) = ld64 m3 (?L + l)" if "l = 0 \<or> l = 24 \<or> l = 32" for l
      using that by (auto simp: m4_def st_prev_def st_next_def h ld64_st64_sep off_norm)
    have "sl_type m4 ?L = of_nat i" using s4[of 0] f1 by (simp add: sl_type_def ld32_def m3_def m2_def ld64_st64_sep)
    moreover have "sl_start m4 ?L = SLABBASE (of_nat i)" using s4[of 24] f2 by (simp add: sl_start_def m3_def ld64_st64_sep)
    moreover have "sl_end m4 ?L = chunk i 0" using s4[of 32] by (simp add: sl_end_def m3_def chunk_0)
    moreover have "ring m4 ?h []" using ring_init[OF h0, of m3] by (simp add: m4_def)
    ultimately show ?thesis using True by (simp add: slab_holds_def)
  next
    case False
    then have t: "t < i" "t < 16" using t i by simp_all
    have "sep (slab_at ?y (of_nat t)) 40 ?L 40"
    proof (rule sep_unat)
      show "unat (slab_at ?y (of_nat t)) + unat (40 :: u64) \<le> unat ?L"
        using unat_in_slabs[OF y, of "40 * t"] unat_in_slabs[OF y, of "40 * i"] t i by (simp add: slab_address)
      show "unat ?L + unat (40 :: u64) \<le> 2 ^ 64"
        using unat_in_slabs[OF y, of "40 * i"] i y by (simp add: slab_address slabs_placed_def)
    qed simp
    then have out: "x - slab_at ?y (of_nat t) < 40 \<Longrightarrow> \<not> x - ?L < 40" for x by (rule sep_outside)
    have "agree (slab_at ?y (of_nat t)) 40 (mem s) m4" using only out by (simp add: agree_def)
    then show ?thesis using empty_slab_agree[OF y t(2)] before t(1) by blast
  qed
  moreover have "\<not> x - ?L < 40" if "\<not> x - a_slabs ?y < 640" for x
  proof -
    have "unat (of_nat (40 * i) :: u64) + unat (40 :: u64) \<le> unat (640 :: u64)"
      using i unat_nat64[of "40 * i"] by simp
    from outside_sub[OF that this] show ?thesis by (simp add: slab_address i)
  qed
  ultimately show thesis using that[of "s\<lparr>mem := m4\<rparr>"] by simp
qed

lemma mm_init_loop:
  "slabs_placed (sym s) \<Longrightarrow> \<forall>t<i. slab_holds (mem s) (sym s) t (0, []) \<Longrightarrow> i + k = 16 \<Longrightarrow>
    \<exists>s'. loop mm_init_more mm_init_step (of_nat i) s = Inr (16, s') \<and> s' = s\<lparr>mem := mem s'\<rparr> \<and>
      (\<forall>t<16. slab_holds (mem s') (sym s') t (0, [])) \<and> (\<forall>x. \<not> x - a_slabs (sym s) < 640 \<longrightarrow> mem s' x = mem s x)"
proof (induction k arbitrary: i s)
  case 0
  then show ?case by (intro exI[of _ s]) (simp add: loop_stop)
next
  case (Suc k)
  then have i: "i < 16" by simp
  obtain t where t: "mm_init_step (of_nat i) s = Inr (of_nat (Suc i), t)"
    "\<forall>j<Suc i. slab_holds (mem t) (sym t) j (0, [])" "t = s\<lparr>mem := mem t\<rparr>"
    "\<forall>x. \<not> x - a_slabs (sym s) < 640 \<longrightarrow> mem t x = mem s x"
    by (rule mm_init_step_run[OF Suc.prems(1) i Suc.prems(2)])
  have y: "sym t = sym s" by (subst t(3)) simp
  have p: "slabs_placed (sym t)" "Suc i + k = 16" using Suc.prems y by simp_all
  from Suc.IH[OF p(1) t(2) p(2)] obtain s' where s': "loop mm_init_more mm_init_step (of_nat (Suc i)) t = Inr (16, s')"
    "s' = t\<lparr>mem := mem s'\<rparr>" "\<forall>t<16. slab_holds (mem s') (sym s') t (0, [])"
    "\<forall>x. \<not> x - a_slabs (sym t) < 640 \<longrightarrow> mem s' x = mem t x" by (elim exE conjE) (rule that)
  have "(of_nat i :: u64) < 16" using i unat_nat64[of i] by (simp add: word_less_nat_alt)
  then have "mm_init_more (of_nat i) s" by simp
  then have "loop mm_init_more mm_init_step (of_nat i) s = Inr (16, s')"
    using s'(1) loop_step[of mm_init_more "of_nat i" s mm_init_step "of_nat (Suc i)" t] t(1) by metis
  moreover have "s' = s\<lparr>mem := mem s'\<rparr>" by (subst s'(2), subst t(3)) simp
  ultimately show ?case using s'(3,4) t(4) y by (intro exI[of _ s']) (simp del: mm_init_more.simps)
qed

lemma mm_init_run:
  assumes "slabs_placed (sym s)"
  obtains s' where "mm_init s = Inr ((), s')" "heap_rel (mem s') (sym s') (\<lambda>t. (0, []))"
    "s' = s\<lparr>mem := mem s', messages := messages s @ [''kernel heap initialized'']\<rparr>"
    "\<forall>x. \<not> x - a_slabs (sym s) < 640 \<longrightarrow> mem s' x = mem s x"
proof -
  from mm_init_loop[OF assms, of 0 16] obtain t where t: "loop mm_init_more mm_init_step 0 s = Inr (16, t)"
    "t = s\<lparr>mem := mem t\<rparr>" "\<forall>i<16. slab_holds (mem t) (sym t) i (0, [])"
    "\<forall>x. \<not> x - a_slabs (sym s) < 640 \<longrightarrow> mem t x = mem s x" by auto
  let ?s = "t\<lparr>messages := messages t @ [''kernel heap initialized'']\<rparr>"
  have y: "sym t = sym s" "messages t = messages s" by (subst t(2), simp)+
  have "?s = s\<lparr>mem := mem ?s, messages := messages s @ [''kernel heap initialized'']\<rparr>"
    by (subst t(2)) (simp add: y)
  moreover have "mm_init s = Inr ((), ?s)" using t(1) by (simp add: mm_init_def bnd_Inr kern)
  ultimately show thesis using that[of ?s] t(3,4) assms y by (simp add: heap_rel_def)
qed

text \<open>\<open>mm_init\<close> makes the slabs a well-formed heap in which no chunk exists yet: slab \<open>t\<close> has type \<open>t\<close>, its
  start and end are the base of its part of the heap, and its free list is an empty ring. No other memory
  changes.\<close>

theorem mm_init_effect:
  assumes "slabs_placed (sym s)"
  shows "\<exists>s'. mm_init s = Inr ((), s') \<and> heap_rel (mem s') (sym s') (\<lambda>t. (0, [])) \<and>
    (\<forall>x. \<not> x - a_slabs (sym s) < 640 \<longrightarrow> mem s' x = mem s x)"
  using mm_init_run[OF assms] by metis

section \<open>The physical memory manager and the slabs\<close>

lemma pm_agree:
  assumes ok: "pm_ok s" and a: "agree (a_mem_bitmaps (sym s)) 16 (mem s) m" "agree (bm0 s) 64 (mem s) m"
    "agree (a_mem_info (sym s)) 16 (mem s) m" "agree (a_pages_bitmap0 (sym s)) 4096 (mem s) m"
  shows "pm_ok (s\<lparr>mem := m\<rparr>)" "locked (s\<lparr>mem := m\<rparr>) = locked s" "used (s\<lparr>mem := m\<rparr>) = used s" "free (s\<lparr>mem := m\<rparr>) = free s"
proof -
  have sh: "pm_shape s" using ok by (simp add: pm_ok_def)
  have f: "bitmap_wf (mb_super (bm0 s)) (mem s)" "bitmap_len (mb_super (bm0 s)) (mem s) = 32768"
    "ld64 (mem s) (mb_super (bm0 s)) = 4096" "ld64 (mem s) (mb_super (bm0 s) + 24) = a_pages_bitmap0 (sym s)"
    using sh by (simp_all add: pm_shape_def)
  have "agree (bm0 s + 32) 32 (mem s) m" by (rule agree_sub[OF a(2)]) simp
  then have "agree (mb_super (bm0 s)) 32 (mem s) m" by (simp add: mb_super_def)
  note b = agree_bitmap[OF this _ f(1), unfolded f(3,4), OF a(4)]
  have "agree (bm0 s) 24 (mem s) m" using agree_sub[OF a(2), of 0 24] by simp
  then have sh': "pm_shape (s\<lparr>mem := m\<rparr>)" using pm_shape_mem[OF sh a(1)] b f by simp
  have ff: "first_free (s\<lparr>mem := m\<rparr>) = first_free s"
    using agree_ld64[OF a(2), of 24] by (simp add: first_free_def mb_first_free_def bm0_def)
  show "free (s\<lparr>mem := m\<rparr>) = free s"
    using agree_ld64[OF a(3), of 8] by (simp add: free_def mi_free_def)
  show "used (s\<lparr>mem := m\<rparr>) = used s"
    using agree_ld64[OF a(3), of 0] by (simp add: used_def mi_used_def)
  show l: "locked (s\<lparr>mem := m\<rparr>) = locked s" using b(2) by (simp add: locked_def bm0_def)
  show "pm_ok (s\<lparr>mem := m\<rparr>)" using sh' ff l ok by (simp add: pm_ok_def)
qed

lemma pm_rich_agree:
  assumes r: "pm_rich n s" and a: "agree (a_mem_bitmaps (sym s)) 16 (mem s) m" "agree (bm0 s) 64 (mem s) m"
    "agree (a_mem_info (sym s)) 16 (mem s) m" "agree (a_pages_bitmap0 (sym s)) 4096 (mem s) m"
  shows "pm_rich n (s\<lparr>mem := m\<rparr>)"
  using r pm_agree[OF _ a] by (simp add: pm_rich_def)

section \<open>Freeing\<close>

text \<open>C23: \<open>mm_free\<close> of any address of the kernel heap fails an assertion: \<open>SLABTYPE\<close> keeps 16 bits of the
  address of which only four tell the slab.\<close>

theorem mm_free_always_asserts:
  assumes "LAYOUT_HEAP_START \<le> p" "p - LAYOUT_HEAP_START < 2 ^ 40"
  shows "mm_free p s = Inl AssertFailed"
proof -
  define x where "x = unat (p - LAYOUT_HEAP_START)"
  have x: "x < 2 ^ 40" using assms(2) by (simp add: x_def word_less_nat_alt)
  have e: "x = unat p - unat LAYOUT_HEAP_START" using assms(1) unfolding x_def by (simp add: unat_sub)
  then have p: "unat p = (0xffff800 + x div 2 ^ 36) * 2 ^ 36 + x mod 2 ^ 36"
  proof -
    have "unat LAYOUT_HEAP_START = 0xffff800 * 2 ^ 36" by (simp add: LAYOUT_HEAP_START_def)
    moreover have "unat LAYOUT_HEAP_START \<le> unat p" using assms(1) by (simp only: word_le_nat_alt)
    ultimately have "unat p = 0xffff800 * 2 ^ 36 + x" using e by linarith
    then show ?thesis using div_mult_mod_eq[of x "2 ^ 36"] by (simp only: add_mult_distrib add.assoc)
  qed
  have "unat (SLABTYPE p) = (unat p div 2 ^ 36) mod 2 ^ 16"
  proof -
    have "(0xffff :: u64) = mask 16" by (simp add: mask_eq_exp_minus_1)
    then have "SLABTYPE p = take_bit 16 (drop_bit 36 p)" by (simp only: SLABTYPE_def take_bit_eq_mask)
    then have "unat (SLABTYPE p) = take_bit 16 (unat (drop_bit 36 p))" by (simp only: unsigned_take_bit_eq)
    then show ?thesis by (simp only: unat_drop_bit_eq) (simp add: take_bit_eq_mod drop_bit_eq_div)
  qed
  also have "unat p div 2 ^ 36 = 0xffff800 + x div 2 ^ 36" unfolding p by simp
  also have "x div 2 ^ 36 < 16" using x by simp
  then have "(0xffff800 + x div 2 ^ 36) mod 2 ^ 16 = 0xf800 + x div 2 ^ 36"
    using mod_mult_self1[of "0xf800 + x div 2 ^ 36" 4095 "2 ^ 16"] by simp
  finally have "unat (SLABTYPE p) = 0xf800 + x div 2 ^ 36" .
  then have "unat (ucast (SLABTYPE p) :: u32) = 0xf800 + x div 2 ^ 36"
    using \<open>x div 2 ^ 36 < 16\<close> by (simp add: unsigned_ucast_eq take_bit_nat_eq_self)
  then have "\<not> (ucast (SLABTYPE p) :: u32) < 16" by (simp add: word_less_nat_alt)
  then show ?thesis by (simp add: mm_free_def get_slab_from_address_def bnd_Inl Let_def)
qed

end
