(* ===== verification/Mm_limits.thy ===== *)
theory Mm_limits
  imports Mm_heap
begin

text \<open>
  What the heap needs from the page tables: \<open>mm_alloc\<close> when the table under the end of a slab is missing.
\<close>

section \<open>A table that is not there\<close>

lemma find_space_absent:
  assumes pg: "pt_page s pt = Some p" and i: "unat i < 512" "\<not> present (frames s p (unat i))" and k: "0 < k" "k \<le> 0x8000000"
  shows "find_space 4 pt (i # is) pa k fl s = Inr ((0x8000000, i # is), s)"
proof -
  have lt: "i < 512" using i by (simp add: word_less_nat_alt)
  have lv: "level_of 4 = 0" "get_pages_per_entry 0 = 0x8000000"
    by (simp_all add: level_of_def PT_NUM_LEVELS_def get_pages_per_entry_def PT_LAST_LEVEL_def numeral_3_eq_3)
  have f4: "find_space 4 = find_body (find_space 3) 0"
    using find_space.simps(2)[of 3] lv by (simp del: find_space.simps)
  have "scan_step (find_space 3) 0 pt pa k fl (i, i # is, 0, Go) s = Inr ((i, i # is, 0, Break), s)"
    using i k lt by (simp add: PT_LENGTH_def bnd_Inr rd_pte_run[OF pg i(1)] kern)
  then have l1: "loop scan_more (scan_step (find_space 3) 0 pt pa k fl) (i, i # is, 0, Go) s = Inr ((i, i # is, 0, Break), s)"
    by (intro loop_once) simp_all
  have s1: "count_step pt (0x8000000) k fl (i, pa, 0, False) s = Inr ((i + 1, pa + PAGE_SIZE, 0x8000000, False), s)"
    using i k lt by (simp add: PT_LENGTH_def bnd_Inr rd_pte_run[OF pg i(1)] kern)
  have s2: "count_step pt (0x8000000) k fl (i + 1, pa + PAGE_SIZE, 0x8000000, False) s = Inr ((i + 1, pa + PAGE_SIZE, 0x8000000, True), s)"
    using k(2) by (simp add: kern not_less)
  have "loop count_more (count_step pt 0x8000000 k fl) (i + 1, pa + PAGE_SIZE, 0x8000000, False) s = Inr ((i + 1, pa + PAGE_SIZE, 0x8000000, True), s)"
    by (rule loop_once) (simp, rule s2, simp)
  then have l2: "loop count_more (count_step pt 0x8000000 k fl) (i, pa, 0, False) s = Inr ((i + 1, pa + PAGE_SIZE, 0x8000000, True), s)"
    by (subst loop_step[where v' = "(i + 1, pa + PAGE_SIZE, 0x8000000, False)" and s' = s]) (simp_all only: s1, simp)
  have "find_step (find_space 3) 0 pt pa k fl (i, i # is, Go) s = Inr ((i + 1, i # is, Return (0x8000000)), s)"
    using lt k leD[OF k(2)] by (simp add: bnd_Inr l1 l2 lv PT_LENGTH_def kern)
  then have "loop find_more (find_step (find_space 3) 0 pt pa k fl) (i, i # is, Go) s = Inr ((i + 1, i # is, Return (0x8000000)), s)"
    by (intro loop_once) simp_all
  then show ?thesis
    unfolding f4 find_body_def by (simp add: bnd_Inr kern del: find_space.simps find_step.simps)
qed


lemma map_absent:
  assumes pg: "pt_page s table = Some root" "table \<noteq> 0" and i: "\<not> present (frames s root (unat (pml4_index v)))"
    and k: "0 < k" "k \<le> 0x8000000" and al: "ISPAGEALIGNED pa" "ISPAGEALIGNED v"
    and req: "req s = Inr (q, s')" "tmp_ok s'" "unat (first_free_tmp_index s') \<in> tmp_free s'"
      "unat (first_free_tmp_index s') + 1 \<in> tmp_free s'" "PTEPADDR q \<noteq> tmp_frame s'"
  shows "vm_map_pages req table pa k v fl s = Inl PageFault"
proof -
  let ?i = "pml4_index v"
  obtain "is" where ix: "indices_of v = ?i # is" by (simp add: indices_of_def)
  have i512: "unat ?i < 512" using indices_ok(1)[of v] ix by simp
  then have lt: "?i < PT_LENGTH" by (simp add: PT_LENGTH_def word_less_nat_alt)
  have lv: "level_of 4 = 0" by (simp add: level_of_def PT_NUM_LEVELS_def)
  have r4: "recurse_map req 4 = map_body req (recurse_map req 3) 0"
    using recurse_map.simps(2)[of req 3] lv by (simp del: recurse_map.simps)
  have "create_pt req table ?i s = Inl PageFault"
    using create_pt_run[where req = req and ?s0.0 = s and paddr = q and s = s'] req pg(2) lt by blast
  then have "map_step req (recurse_map req 3) 0 table (?i # is) fl (?i, pa, k, Go) s = Inl PageFault"
    using i lt k by (simp add: map_table_def PT_LAST_LEVEL_def PT_NUM_LEVELS_def bnd_Inr rd_pte_run[OF pg(1) i512] bnd_Inl)
  then have "loop map_more (map_step req (recurse_map req 3) 0 table (?i # is) fl) (?i, pa, k, Go) s = Inl PageFault"
    by (intro loop_fault) simp_all
  then have "recurse_map req 4 table (?i # is) pa k fl s = Inl PageFault"
    unfolding r4 map_body_def by (simp add: bnd_Inl del: map_step.simps recurse_map.simps)
  then show ?thesis
    using pg al k find_space_absent[OF pg(1) i512 i k, of "is" pa fl]
    by (simp add: vm_map_pages_def PT_NUM_LEVELS_def ix bnd_Inr bnd_Inl ISERROR_def)
qed

text \<open>C29: The heap only grows where a page table is already there: when the free list of the slab is empty and the entry of
  the top table for the end of the slab is absent, as it is after the boot code, \<open>mm_alloc\<close> faults while it
  clears the table it creates.\<close>

theorem allocation_needs_a_table:
  assumes r: "heap_rel (mem s) (sym s) H" and sz: "8 < unat sz" "unat sz < 4096" "t = slab_for_size sz" "H t = (n, [])"
    and fit: "page_up (n * csize t) + 4096 \<le> 2 ^ 36" and rich: "pm_rich 1 s"
    and tab: "kpml4 s \<noteq> 0" "pt_page s (kpml4 s) = Some root" "\<not> present (frames s root (unat (pml4_index (PAGEALIGNUP (chunk t n)))))"
    and win: "tmp_ok s" "unat (first_free_tmp_index s) \<in> tmp_free s" "unat (first_free_tmp_index s) + 1 \<in> tmp_free s"
      "pte_address (tmp_frame s)" "page_of (tmp_frame s) \<in> locked s"
  shows "mm_alloc (pm_request_page srv) sz s = Inl PageFault"
proof -
  have t: "t < 15" "t < 16" using slab_for_size_bound[of sz] sz(3) by simp_all
  let ?L = "slab_at (sym s) (of_nat t)" and ?q = "PAGEALIGNUP (chunk t n)" and ?fl = "VM_FLAG_WRITABLE OR VM_FLAG_STRICT"
  have c: "chosen (unat sz) = of_nat t" by (simp add: sz(3) slab_for_size_def)
  have gs: "get_slab_from_size sz s = Inr (?L, s)" using slab_for[OF sz(1,2), of s] by (simp only: c)
  have a: "sz < slab_size (type_number SLAB_MAX - 1)" using sz(2) by (simp add: word_less_nat_alt)
  have k: "slab_holds (mem s) (sym s) t (n, [])" using heap_slab[OF r t(2)] sz(4) by simp
  have e: "list_is_empty (sl_freelist ?L) (mem s)"
    using k list_is_empty_ring[of "mem s" "slab_head (sym s) t" "[]"] by (simp add: slab_holds_def slab_head_def)
  note uq = unat_page_up_chunk[OF t(2) fit]
  have kv: "ISKVADDR ?q" "?q \<noteq> 0" using uq by (auto simp: ISKVADDR_def word_le_nat_alt LAYOUT_HEAP_START_def)
  have pg: "PAGES SLAB_GROW_SIZE = 1" by (simp add: PAGES_def SLAB_GROW_SIZE_def PAGE_SIZE_def PAGEALIGNUP_def ALIGNUP_def)
  have fl: "ISFLAGUNSET ?fl VM_FLAG_USER"
    by (simp add: ISFLAGUNSET_def VM_FLAG_WRITABLE_def VM_FLAG_USER_def VM_FLAG_STRICT_def)
  have rich': "pm_rich (Suc 0) s" using rich by simp
  from pages.request[OF rich'] obtain p s' where p: "pm_request_page srv s = Inr (p, s')" "ISPAGEALIGNED p"
    "page_of p \<notin> locked s" "pm_frame s s'" by blast
  have s': "s' = s\<lparr>mem := mem s'\<rparr>" by (rule kernel.memory_only[OF p(4)])
  have w: "tmp_ok s'" "tmp_free s' = tmp_free s" "first_free_tmp_index s' = first_free_tmp_index s" "tmp_frame s' = tmp_frame s"
    by (subst s', simp add: win(1))+
  have "PTEPADDR p = p" using p(2) kernel.fits_entry[OF rich' p(1)] pte_address_iff[of p] by (simp add: pte_address_def)
  then have np: "PTEPADDR p \<noteq> tmp_frame s'" using p(3) win(5) w(4) by auto
  have al: "ISPAGEALIGNED (- BYTES 1)" "ISPAGEALIGNED ?q"
    by (simp_all add: ISPAGEALIGNED_def PAGEOFFSET_def BYTES_def PAGE_SIZE_def PAGEALIGNUP_def ALIGNUP_def and.assoc)
  have "vm_map_pages (pm_request_page srv) (kpml4 s) (- BYTES 1) 1 ?q ?fl s = Inl PageFault"
    by (rule map_absent[where req = "pm_request_page srv" and s = s and q = p and s' = s', OF tab(2,1,3) _ _ al p(1)]) (use win w np in simp_all)
  then have "mm_map (pm_request_page srv) ?q SLAB_GROW_SIZE ?fl s = Inl PageFault"
    using kv fl by (simp add: mm_map_def Let_def pg vmk_reserve_pages_def vmk_map_pages_def kernel_hint_def bnd_Inl bnd_Inr kern)
  then have "alloc_slab (pm_request_page srv) ?L s = Inl PageFault"
    using k t unat_type[OF t(2)] by (simp add: alloc_slab_def bnd_Inl slab_holds_def word_less_nat_alt)
  then show ?thesis using a gs e by (simp add: mm_alloc_def bnd_Inr thn_Inl)
qed

end
