(* ===== verification/Kernel.thy ===== *)
theory Kernel
  imports Log Remap Initfs Acpi Pit Pm_boot Mm_limits
begin

text \<open>
  How the kernel starts: \<open>kernel_main\<close> of \<open>kernel.c\<close> and \<open>arch_init\<close> of \<open>arch.c\<close>, and what happens to it when it fails
  (\<open>assert.c\<close>, \<open>stack-chk.c\<close>). \<open>srv\<close> are the memory services that the managers call back.
\<close>

section \<open>arch.c\<close>

definition CPUID_EXTFN_80000001 :: u32 where "CPUID_EXTFN_80000001 = 0x80000001"

definition check_and_enable_features :: "(machine, unit) kern" where
  "check_and_enable_features =
     bnd (cpuid CPUID_STDFN_00000001) (\<lambda>r.
     thn (asrt (bit (edx r) 24))
     (thn (asrt (bit (edx r) 25))
     (thn (asrt (bit (edx r) 26))
     (thn (asrt (bit (ecx r) 0))
     (thn (asrt (bit (ecx r) 9))
     (thn (asrt (bit (ecx r) 19))
     (thn (asrt (bit (ecx r) 20))
     (thn (modify (\<lambda>s. s\<lparr>reg_cr4 := reg_cr4 s OR push_bit 9 1\<rparr>))
     (thn (modify (\<lambda>s. s\<lparr>reg_cr0 := (reg_cr0 s AND NOT (push_bit 2 1)) OR push_bit 1 1\<rparr>))
     (bnd (cpuid CPUID_EXTFN_80000001) (\<lambda>r.
     thn (asrt (bit (edx r) 20))
     (asrt (bit (edx r) 11)))))))))))))"

text \<open>The results of \<open>acpi_init\<close> and \<open>pic_init\<close> are not looked at.\<close>

definition bootinfo_acpi :: "addr \<Rightarrow> addr" where
  "bootinfo_acpi bootinfo = bootinfo + 32"

definition arch_init :: "services \<Rightarrow> addr \<Rightarrow> (machine, status) kern" where
  "arch_init srv bootinfo =
     thn gdt_load
     (thn check_and_enable_features
     (bnd (acpi_init srv (bootinfo_acpi bootinfo)) (\<lambda>_.
     bnd pic_init (\<lambda>_.
     thn pit_init
     (ret SUCCESS)))))"

section \<open>kernel.c\<close>

definition kernel_singleton_size :: u64 where "kernel_singleton_size = 48"
definition K_fs :: "addr \<Rightarrow> addr" where "K_fs K = K + 16"

fun store_initfs :: "addr \<Rightarrow> initfs \<Rightarrow> memory \<Rightarrow> memory" where
  "store_initfs fs x m = st64 (fs + 24) (phys_end x) (st64 (fs + 16) (phys_start x)
     (st64 (fs + 8) (virt_end x) (st64 fs (virt_start x) m)))"

definition cmdline_more :: "addr \<Rightarrow> kst \<Rightarrow> bool" where
  "cmdline_more p s \<longleftrightarrow> mem s p \<noteq> 0"

definition kernel_parse_bootinfo :: "services \<Rightarrow> addr \<Rightarrow> (kst, unit) kern" where
  "kernel_parse_bootinfo srv bootinfo =
     bnd (rd (\<lambda>m. ld64 m bootinfo)) (\<lambda>cmdline.
     bnd (loop cmdline_more (\<lambda>p. ret (p + 1)) cmdline) (\<lambda>_.
     bnd (rd (\<lambda>m. ld64 m (bootinfo + 8))) (\<lambda>module.
     if module \<noteq> 0 then
       bnd (initfs_from_module srv module) (\<lambda>fs.
       bnd (gets (\<lambda>s. K_fs (a_K (sym s)))) (\<lambda>p. wr (store_initfs p fs)))
     else ret ())))"

definition kernel_init_singleton :: "addr \<Rightarrow> (kst, unit) kern" where
  "kernel_init_singleton bootinfo =
     bnd (gets (\<lambda>s. a_K (sym s))) (\<lambda>K.
     thn (on_mem (mem_set K 0 kernel_singleton_size))
     (wr (st64 (K + 8) bootinfo)))"

definition kernel_main_devices :: "services \<Rightarrow> addr \<Rightarrow> (machine, unit) kern" where
  "kernel_main_devices srv bootinfo =
     thn isr_init
     (bnd (arch_init srv bootinfo) (\<lambda>res.
     thn (asrt (res = SUCCESS))
     (thn int_enable
     (thn (on_kernel (kernel_parse_bootinfo srv bootinfo))
     (asrt False)))))"

definition kernel_main :: "services \<Rightarrow> addr \<Rightarrow> (machine, unit) kern" where
  "kernel_main srv bootinfo =
     thn (on_kernel (kernel_init_singleton bootinfo))
     (thn (on_kernel (pm_init srv))
     (thn (on_kernel vm_init)
     (thn (on_kernel mm_init)
     (thn (on_kernel kernel_remap)
     (kernel_main_devices srv bootinfo)))))"

section \<open>assert.c and stack-chk.c\<close>

text \<open>
  The loop finds the byte behind the last slash; \<open>root\<close> is not initialised, so a name without one is undefined
  behaviour. \<open>this_file\<close> is the address of \<open>__FILE__\<close>, \<open>fmt\<close> that of the format of \<open>LOGFATAL\<close>.
\<close>

fun slash_more :: "addr \<times> addr option \<Rightarrow> machine \<Rightarrow> bool" where
  "slash_more (cur, root) s \<longleftrightarrow> ram s cur \<noteq> 0"

fun slash_step :: "addr \<times> addr option \<Rightarrow> (machine, addr \<times> addr option) kern" where
  "slash_step (cur, root) =
     bnd (gets (\<lambda>s. ram s cur)) (\<lambda>c. ret (cur + 1, if c = ch CHR ''/'' then Some (cur + 1) else root))"

definition assert_fail :: "addr \<Rightarrow> addr \<Rightarrow> addr \<Rightarrow> u64 \<Rightarrow> addr \<Rightarrow> (machine, unit) kern" where
  "assert_fail this_file fmt file ln expr =
     bnd (loop slash_more slash_step (this_file, None)) (\<lambda>(cur, root).
     case root of None \<Rightarrow> halt Undefined
     | Some root \<Rightarrow>
         thn (printk putc ram fmt [file + (root - this_file), ln, expr])
         (halt AssertFailed))"

definition stack_chk_guard :: u64 where "stack_chk_guard = 0xdeadbeefdefec8ed"

definition stack_chk_fail :: "(machine, unit) kern" where
  "stack_chk_fail = asrt False"

end
