(* ===== verification/Boot.thy ===== *)
theory Boot
  imports Kernel
begin

text \<open>
  The first half of \<open>kernel_main\<close>: the three memory managers and the permissions of the kernel, one after the other on
  what the boot code leaves behind. The invariant of each manager survives the ones that follow.
\<close>

section \<open>The singleton\<close>

definition with_singleton :: "addr \<Rightarrow> kst \<Rightarrow> kst" where
  "with_singleton bootinfo s =
     s\<lparr>mem := st64 (a_K (sym s) + 8) bootinfo (filled 90 (a_K (sym s)) 0 (mem s))\<rparr>"

lemma singleton_run:
  assumes "a_K (sym s) \<noteq> 0"
  shows "kernel_init_singleton bootinfo s = Inr ((), with_singleton bootinfo s)"
proof -
  have w: "written 48 = 90" by (simp add: written_def)
  have "mem_set (a_K (sym s)) 0 48 (mem s) = Inr ((), filled (written 48) (a_K (sym s)) 0 (mem s))"
    by (rule mem_set_eq[OF assms]) (simp add: w)
  then show ?thesis
    by (simp add: kernel_init_singleton_def kernel_singleton_size_def thn_Inr[OF on_mem_Inr] w with_singleton_def kern)
qed

section \<open>Walks that miss a change\<close>

text \<open>The entries that a walk reads.\<close>

fun visits :: "(addr \<Rightarrow> nat \<Rightarrow> pte) \<Rightarrow> addr \<Rightarrow> u64 list \<Rightarrow> (addr \<times> nat) list" where
  "visits fr p [] = []"
| "visits fr p (i # is) =
     (p, unat i) # (if present (fr p (unat i)) then visits fr (PTEPADDR (fr p (unat i))) is else [])"

lemma visits_cong:
  "(\<And>g j. (g, j) \<in> set (visits fr p is) \<Longrightarrow> fr' g j = fr g j) \<Longrightarrow> reach fr p is \<Longrightarrow>
    path fr' p is = path fr p is \<and> reach fr' p is \<and> leaf fr' p is = leaf fr p is"
proof (induction fr p "is" rule: leaf.induct)
  case (3 fr p i j "is")
  have e: "fr' p (unat i) = fr p (unat i)" using 3(2)[of p "unat i"] by simp
  have pr: "present (fr p (unat i))" "reach fr (PTEPADDR (fr p (unat i))) (j # is)" using 3(3) by simp_all
  have "path fr' (PTEPADDR (fr p (unat i))) (j # is) = path fr (PTEPADDR (fr p (unat i))) (j # is) \<and>
      reach fr' (PTEPADDR (fr p (unat i))) (j # is) \<and>
      leaf fr' (PTEPADDR (fr p (unat i))) (j # is) = leaf fr (PTEPADDR (fr p (unat i))) (j # is)"
    by (rule 3(1)[OF 3(2) pr(2)]) (use pr(1) in simp)
  then show ?case using e pr(1) by simp
qed simp_all

lemma visits_path: "(g, j) \<in> set (visits fr p is) \<Longrightarrow> g \<in> set (path fr p is)"
  by (induction fr p "is" rule: visits.induct) (auto split: if_splits)

section \<open>The tables of the boot code\<close>

text \<open>
  The \<open>n\<close> pages of the kernel from \<open>v\<close> on are mapped by entries of one table \<open>l\<close>, from index \<open>i\<close> on, and the walk to them
  does not use the entry into which \<open>vm_init\<close> hangs the window.
\<close>

definition image_mapped :: "kst \<Rightarrow> addr \<Rightarrow> nat \<Rightarrow> addr \<Rightarrow> nat \<Rightarrow> bool" where
  "image_mapped s v n l i \<longleftrightarrow> (let root = cr3 s; q = PTEPADDR (frames s root 511); is = indices_of v in
     ISPAGEALIGNED v \<and> 0 < n \<and> i + n \<le> 512 \<and> distinct (path (frames s) root is) \<and> tmp_frame s \<notin> set (path (frames s) root is) \<and>
     reach (frames s) root is \<and> leaf (frames s) root is = (l, i) \<and> present_run (frames s l) i n \<and>
     (q, 511) \<notin> set (visits (frames s) root is) \<and> l \<noteq> q)"

lemma after_init_same [simp]:
  "sym (after_init s) = sym s" "mem (after_init s) = filled 3584 (a_tmp_pt (sym s) + 4096) 0 (mem s)" "first_free_bitmap (after_init s) = first_free_bitmap s"
  "messages (after_init s) = messages s @ [''virtual memory manager initialized'']"
  by (simp_all add: after_init_def Let_def set_entry_def clear_tmp_pt_def PT_SIZE_def PAGE_SIZE_def written_def)

lemma image_after_init:
  assumes b: "boot_tables s" and m: "image_mapped s v n l i" and t: "cr3 s + HIGHER_HALF (sym s) \<noteq> 0"
  shows "in_leaf (after_init s) (kpml4 (after_init s)) (cr3 s) v n"
    "leaf (frames (after_init s)) (cr3 s) (indices_of v) = (l, i)" "present_run (frames (after_init s) l) i n"
proof -
  let ?s = "after_init s" and ?r = "cr3 s" and ?q = "PTEPADDR (frames s (cr3 s) 511)" and ?is = "indices_of v"
  note f = after_init_frames[OF b]
  have im: "ISPAGEALIGNED v" "0 < n" "i + n \<le> 512" "distinct (path (frames s) ?r ?is)" "tmp_frame s \<notin> set (path (frames s) ?r ?is)"
    "reach (frames s) ?r ?is" "leaf (frames s) ?r ?is = (l, i)" "present_run (frames s l) i n"
    "(?q, 511) \<notin> set (visits (frames s) ?r ?is)" "l \<noteq> ?q"
    using m unfolding image_mapped_def Let_def by blast+
  have "frames ?s g j = frames s g j" if v: "(g, j) \<in> set (visits (frames s) ?r ?is)" for g j
  proof (cases "g = ?q")
    case True
    then show ?thesis using v im(9) f(2) by auto
  next
    case False
    then have "frames ?s g = frames s g" using visits_path[OF v] im(5) by (intro f(4)) auto
    then show ?thesis by simp
  qed
  from visits_cong[OF this im(6)] have w: "path (frames ?s) ?r ?is = path (frames s) ?r ?is" "reach (frames ?s) ?r ?is"
    "leaf (frames ?s) ?r ?is = (l, i)" using im(7) by simp_all
  have "l \<in> set (path (frames s) ?r ?is)" using leaf_in_path[OF _ im(6)] im(7) by (simp add: indices_ok)
  then have "frames ?s l = frames s l" using im(5,10) by (intro f(4)) auto
  then show "present_run (frames ?s l) i n" using im(8) by simp
  show "leaf (frames ?s) ?r ?is = (l, i)" by (rule w(3))
  have "pt_page ?s (kpml4 ?s) = Some ?r"
    using b low_page[of "cr3 s + HIGHER_HALF (sym s)" ?s] by (simp add: f(7) boot_tables_def Let_def)
  moreover have "room 3 ?s" by (rule room_le[OF after_init_room(1)[OF b]]) simp
  ultimately show "in_leaf ?s (kpml4 ?s) ?r v n"
    using im w t by (simp add: in_leaf_def at_table_def indices_ok f(3,7))
qed

section \<open>States that differ in what a manager does not see\<close>

lemma pm_same:
  assumes "mem s' = mem s" "sym s' = sym s" "first_free_bitmap s' = first_free_bitmap s"
  shows "pm_ok s' = pm_ok s" "locked s' = locked s" "used s' = used s" "free s' = free s"
  using assms by (simp_all add: pm_ok_def pm_shape_def locked_def first_free_def free_def used_def bm0_def)

lemma window_same:
  assumes "frames s' = frames s" "sym s' = sym s" "first_free_tmp_index s' = first_free_tmp_index s"
  shows "room k s' = room k s" "in_leaf s' = in_leaf s" "window_reached s' = window_reached s"
proof -
  have t: "tmp_frame s' = tmp_frame s" "tmp_entry s' = tmp_entry s" using assms by (simp_all add: tmp_frame_def tmp_entry_def fun_eq_iff)
  then have f: "tmp_free s' = tmp_free s" by (simp add: tmp_free_def)
  show r: "room k s' = room k s" for k using t f assms by (simp add: room_def tmp_ok_def)
  have p: "pt_page s' = pt_page s" using t assms by (simp add: pt_page_def fun_eq_iff)
  show "in_leaf s' = in_leaf s" by (intro ext) (simp only: in_leaf_def at_table_def r p t assms)
  show "window_reached s' = window_reached s" by (intro ext) (simp only: window_reached_def t assms)
qed

text \<open>A region that does not meet what the physical memory manager keeps.\<close>

definition apart_from_pm :: "symbols \<Rightarrow> addr \<Rightarrow> u64 \<Rightarrow> bool" where
  "apart_from_pm y b k \<longleftrightarrow> sep (a_mem_bitmaps y) 16 b k \<and> sep (a_mem_bitmap0 y) 64 b k \<and> sep (a_mem_info y) 16 b k \<and>
     sep (a_pages_bitmap0 y) 4096 b k"

lemma pm_untouched:
  assumes "pm_ok s" "apart_from_pm (sym s) b k" "\<And>x. \<not> x - b < k \<Longrightarrow> m x = mem s x"
  shows "pm_ok (s\<lparr>mem := m\<rparr>)" "locked (s\<lparr>mem := m\<rparr>) = locked s" "used (s\<lparr>mem := m\<rparr>) = used s" "free (s\<lparr>mem := m\<rparr>) = free s"
proof -
  have "agree a n (mem s) m" if "sep a n b k" for a n
    using assms(3) sep_outside[OF that] by (simp add: agree_def)
  then show "pm_ok (s\<lparr>mem := m\<rparr>)" "locked (s\<lparr>mem := m\<rparr>) = locked s" "used (s\<lparr>mem := m\<rparr>) = used s" "free (s\<lparr>mem := m\<rparr>) = free s"
    using pm_agree[OF assms(1), of m] assms(2) by (simp_all add: apart_from_pm_def bm0_def)
qed

section \<open>The memory managers after the start\<close>

text \<open>
  What the start leaves: the invariant of the physical memory manager with the locked pages \<open>A\<close>, all slots of the window free
  and reached by the processor, and a heap without chunks.
\<close>

definition memory_ready :: "kst \<Rightarrow> addr \<Rightarrow> nat set \<Rightarrow> u64 \<Rightarrow> bool" where
  "memory_ready s root A mb \<longleftrightarrow> pm_ok s \<and> locked s = A \<and> used s = 4096 * of_nat (card A) \<and> used s + free s = mb \<and>
     kpml4 s = root + HIGHER_HALF (sym s) \<and> room 511 s \<and> window_reached s root \<and> heap_rel (mem s) (sym s) (\<lambda>t. (0, []))"

text \<open>What the boot code has to leave behind.\<close>

definition boot_layout :: "kst \<Rightarrow> bool" where
  "boot_layout s \<longleftrightarrow> (let y = sym s in a_K y \<noteq> 0 \<and> cr3 s + HIGHER_HALF y \<noteq> 0 \<and> boot_tables s \<and> slabs_placed y \<and>
     apart_from_pm y (a_slabs y) 640 \<and> apart_from_pm y (a_tmp_pt y + 4096) 3584)"

lemma managers_run:
  assumes l: "boot_layout s" and ready: "boot_ready s segs"
    and A: "A = boot_pages (sym s) segs" "A' = insert (LEAST n. n \<notin> A) A"
    and k: "k1 < 32768" "k2 < 32768" "k1 \<noteq> k2" "k1 \<notin> A" "k2 \<notin> A" "4096 \<le> total_length segs - 4096 * of_nat (card A)"
  obtains s1 s2 s3 where "pm_init srv s = Inr ((), s1)" "vm_init s1 = Inr ((), s2)" "mm_init s2 = Inr ((), s3)"
    "memory_ready s3 (cr3 s) A' (total_length segs)" "boot_tables s1" "sym s1 = sym s" "frames s1 = frames s" "cr3 s1 = cr3 s"
    "s2 = after_init s1" "s3 = s2\<lparr>mem := mem s3, messages := messages s3\<rparr>"
    "messages s3 = messages s @ [''physical memory manager initialized'', ''virtual memory manager initialized'', ''kernel heap initialized'']"
proof -
  have y: "boot_tables s" "slabs_placed (sym s)" "apart_from_pm (sym s) (a_slabs (sym s)) 640"
    "apart_from_pm (sym s) (a_tmp_pt (sym s) + 4096) 3584" using l by (simp_all add: boot_layout_def Let_def)
  obtain s1 where s1: "pm_init srv s = Inr ((), s1)" "pm_ok s1" "locked s1 = A'" "used s1 = 4096 * of_nat (card (locked s1))"
    "used s1 + free s1 = total_length segs" "messages s1 = messages s @ [''physical memory manager initialized'']"
    "s1 = s\<lparr>mem := mem s1, first_free_bitmap := bm0 s, next_bitmap_page := next_bitmap_page s1, messages := messages s1\<rparr>"
    using pm_init_run[OF ready k[unfolded A(1)], of srv] unfolding A by blast
  have same: "sym s1 = sym s" "frames s1 = frames s" "cr3 s1 = cr3 s" by (subst s1(7), simp)+
  then have b: "boot_tables s1" using y(1) by (simp add: boot_tables_def Let_def tmp_frame_def)
  let ?s2 = "after_init s1"
  have run2: "vm_init s1 = Inr ((), ?s2)" by (rule vm_init_run[OF b])
  obtain s3 where s3: "mm_init ?s2 = Inr ((), s3)" "heap_rel (mem s3) (sym s3) (\<lambda>t. (0, []))"
    "s3 = ?s2\<lparr>mem := mem s3, messages := messages ?s2 @ [''kernel heap initialized'']\<rparr>"
    "\<forall>x. \<not> x - a_slabs (sym ?s2) < 640 \<longrightarrow> mem s3 x = mem ?s2 x"
    by (rule mm_init_run[of ?s2]) (use y(2) same in simp_all)
  let ?m2 = "filled 3584 (a_tmp_pt (sym s1) + 4096) 0 (mem s1)"
  have out: "?m2 x = mem s1 x" if "\<not> x - (a_tmp_pt (sym s1) + 4096) < 3584" for x
    using that by (simp add: filled_def word_less_nat_alt)
  note p2 = pm_untouched[OF s1(2) y(4)[folded same(1)] out]
  have out3: "mem s3 x = mem (s1\<lparr>mem := ?m2\<rparr>) x" if "\<not> x - a_slabs (sym s) < 640" for x
    using s3(4) that by (simp add: same)
  have "apart_from_pm (sym (s1\<lparr>mem := ?m2\<rparr>)) (a_slabs (sym s)) 640" using y(3) same by simp
  note p3 = pm_untouched[OF p2(1) this out3]
  have "first_free_bitmap s3 = first_free_bitmap s1" "sym s3 = sym s1" by (subst s3(3), simp)+
  then have "pm_ok s3 = pm_ok (s1\<lparr>mem := mem s3\<rparr>)" "locked s3 = locked (s1\<lparr>mem := mem s3\<rparr>)" "used s3 = used (s1\<lparr>mem := mem s3\<rparr>)"
    "free s3 = free (s1\<lparr>mem := mem s3\<rparr>)" using pm_same[of s3 "s1\<lparr>mem := mem s3\<rparr>"] by simp_all
  then have pm: "pm_ok s3" "locked s3 = A'" "used s3 = 4096 * of_nat (card A')" "used s3 + free s3 = total_length segs"
    using p2 p3 s1(3-5) by simp_all
  have fr: "frames s3 = frames ?s2" "sym s3 = sym ?s2" "first_free_tmp_index s3 = first_free_tmp_index ?s2" "kpml4 s3 = kpml4 ?s2"
    by (subst s3(3), simp)+
  note w = window_same[OF fr(1-3)]
  have "memory_ready s3 (cr3 s) A' (total_length segs)"
    unfolding memory_ready_def w fr(4) using pm s3(2) after_init_room(1)[OF b] after_init_window[OF b] after_init_frames(7)[OF b] fr(2) same
    by simp
  moreover have ms: "messages s3 = messages ?s2 @ [''kernel heap initialized'']" by (subst s3(3)) simp
  moreover from ms have "messages s3 = messages s @ [''physical memory manager initialized'', ''virtual memory manager initialized'', ''kernel heap initialized'']"
    by (simp add: s1(6))
  moreover have "s3 = ?s2\<lparr>mem := mem s3, messages := messages s3\<rparr>" unfolding ms by (rule s3(3))
  ultimately show thesis using that[OF s1(1) run2 s3(1)] b same by blast
qed

text \<open>Permissions do not matter to the managers.\<close>

lemma ready_same_pages:
  assumes r: "memory_ready s root A mb" and k: "k = upd s (frames k) (invalidated k)" "same_pages (frames s) (frames k)"
  shows "memory_ready k root A mb"
proof -
  have u: "first_free_bitmap (upd s F iv) = first_free_bitmap s" for F iv by (simp add: upd_def)
  have e: "mem k = mem s" "sym k = sym s" "first_free_bitmap k = first_free_bitmap s" "kpml4 k = kpml4 s" "room 511 k = room 511 s"
    by (subst k(1), simp only: upd_same room_upd u)+
  have w: "tmp_entry k = tmp_entry s" by (subst k(1)) simp
  have "window_reached k root" using r w same_pages_walk[OF k(2)] by (simp add: memory_ready_def window_reached_def)
  then show ?thesis
    using r e pm_same[OF e(1-3)] unfolding memory_ready_def by (elim conjE) simp
qed

text \<open>The start from \<open>kernel_main\<close> on. No manager spoils what an earlier one has set up, in spite of the surplus that \<open>mem_set\<close> writes.\<close>

lemma kernel_main_run:
  assumes s: "s = with_singleton bootinfo (kernel m)" and l: "boot_layout s" and ready: "boot_ready s segs"
    and A: "A = boot_pages (sym s) segs" "A' = insert (LEAST n. n \<notin> A) A"
    and k: "k1 < 32768" "k2 < 32768" "k1 \<noteq> k2" "k1 \<notin> A" "k2 \<notin> A" "4096 \<le> total_length segs - 4096 * of_nat (card A)"
    and y: "laid_out (sym s) a t r d" "v = LAYOUT_VADDR_START (sym s)" "n = a + t + r + d" and im: "image_mapped s v n tab i"
  shows "\<exists>k. kernel_main srv bootinfo m = kernel_main_devices srv bootinfo (m\<lparr>kernel := k\<rparr>) \<and>
    memory_ready k (cr3 s) A' (total_length segs) \<and>
    (\<forall>j<n. let is = indices_of (v + of_nat j * 4096) in
      may_write (frames k) (cr3 s) is = (j < a \<or> a + t + r \<le> j) \<and> may_execute (frames k) (cr3 s) is = (a \<le> j \<and> j < a + t)) \<and>
    messages k = messages s @ [''physical memory manager initialized'', ''virtual memory manager initialized'', ''kernel heap initialized'']"
proof -
  have K: "a_K (sym (kernel m)) \<noteq> 0" using l s by (simp add: boot_layout_def Let_def with_singleton_def)
  obtain s1 s2 s3 where m: "pm_init srv s = Inr ((), s1)" "vm_init s1 = Inr ((), s2)" "mm_init s2 = Inr ((), s3)"
    "memory_ready s3 (cr3 s) A' (total_length segs)" "boot_tables s1" "sym s1 = sym s" "frames s1 = frames s" "cr3 s1 = cr3 s"
    "s2 = after_init s1" "s3 = s2\<lparr>mem := mem s3, messages := messages s3\<rparr>"
    "messages s3 = messages s @ [''physical memory manager initialized'', ''virtual memory manager initialized'', ''kernel heap initialized'']"
    by (rule managers_run[OF l ready A k, of srv])
  have fr: "frames s3 = frames s2" "sym s3 = sym s2" "first_free_tmp_index s3 = first_free_tmp_index s2" "kpml4 s3 = kpml4 s2"
    by (subst m(10), simp)+
  have im1: "image_mapped s1 v n tab i" using im m(6-8) by (simp add: image_mapped_def tmp_frame_def)
  have "cr3 s1 + HIGHER_HALF (sym s1) \<noteq> 0" using l m(6,8) by (simp add: boot_layout_def Let_def)
  note i2 = image_after_init[OF m(5) im1 this, folded m(9), unfolded m(8)]
  have y3: "laid_out (sym s3) a t r d" "v = LAYOUT_VADDR_START (sym s3)" using y fr(2) m(6,9) by simp_all
  have i3: "in_leaf s3 (kpml4 s3) (cr3 s) v n" "leaf (frames s3) (cr3 s) (indices_of v) = (tab, i)" "present_run (frames s3 tab) i n"
    using i2 window_same(2)[OF fr(1-3)] fr by simp_all
  obtain k where k: "kernel_remap s3 = Inr ((), k)" "same_pages (frames s3) (frames k)" "k = upd s3 (frames k) (invalidated k)"
    "\<And>j. j < n \<Longrightarrow> may_write (frames k) (cr3 s) (indices_of (v + of_nat j * 4096)) = (j < a \<or> a + t + r \<le> j) \<and>
      may_execute (frames k) (cr3 s) (indices_of (v + of_nat j * 4096)) = (a \<le> j \<and> j < a + t)"
    by (rule kernel_remap_run[OF y3 y(3) i3], rule that, assumption+)
  have "kernel_main srv bootinfo m = kernel_main_devices srv bootinfo (m\<lparr>kernel := k\<rparr>)"
    using singleton_run[OF K, of bootinfo] m(1-3) k(1) s
    by (simp add: kernel_main_def thn_Inr[OF on_kernel_Inr])
  moreover have "messages k = messages s3" by (subst k(3)) (simp add: upd_def)
  ultimately show ?thesis
    using ready_same_pages[OF m(4) k(3,2)] k(4) m(11) by (intro exI[of _ k]) (simp add: Let_def)
qed

end
