(* ===== verification/Paging.thy ===== *)
theory Paging
  imports Boot
begin

text \<open>
  \<open>boot/paging.S\<close>: the page tables with which the kernel starts. The code runs with 32 bit registers and physical addresses
  first (\<open>setup_paging\<close>) and with 64 bit registers and identity mapped tables later (\<open>map_higher_half\<close>). Registers are
  variables, the stack holds the addresses of the tables, and memory is the entries of the tables.
\<close>

section \<open>The code\<close>

definition SIZE_4KB :: u32 where "SIZE_4KB = 0x1000"
definition ENTRY_FLAGS :: u32 where "ENTRY_FLAGS = (1 OR push_bit 1 1)"

text \<open>\<open>movl v, (a)\<close>: an entry has eight bytes, so bit 2 of the address says which half is written.\<close>

definition store32 :: "u32 \<Rightarrow> u32 \<Rightarrow> kst \<Rightarrow> kst" where
  "store32 a v s =
     (let f = ucast (a AND NOT 0xfff); i = unat (drop_bit 3 (a AND 0xfff)); e = frames s f i
      in set_entry f i (if bit a 2 then (e AND mask 32) OR push_bit 32 (ucast v) else (e AND NOT (mask 32)) OR ucast v) s)"

text \<open>\<open>rep stosl\<close> with the count in \<open>cx\<close>; the result is \<open>di\<close>. The \<open>loop\<close> instruction decrements before it tests.\<close>

fun rep_stosl :: "nat \<Rightarrow> u32 \<Rightarrow> u32 \<Rightarrow> (kst, u32) kern" where
  "rep_stosl 0 ax di = ret di"
| "rep_stosl (Suc n) ax di = thn (modify (store32 di ax)) (rep_stosl n ax (di + 4))"

definition next_cleared_pt :: "u32 \<Rightarrow> (kst, u32) kern" where
  "next_cleared_pt di = rep_stosl (unat (drop_bit 2 SIZE_4KB)) 0 di"

definition loop_times :: "u32 \<Rightarrow> nat" where
  "loop_times cx = (if cx = 0 then 2 ^ 32 else unat cx)"

fun store_pages :: "nat \<Rightarrow> u32 \<Rightarrow> u32 \<Rightarrow> (kst, unit) kern" where
  "store_pages 0 ax di = ret ()"
| "store_pages (Suc n) ax di = thn (modify (store32 di ax)) (store_pages n (ax + SIZE_4KB) (di + 4 + 4))"

fun link_tables :: "u32 list \<Rightarrow> u32 \<Rightarrow> u32 \<Rightarrow> (kst, u32) kern" where
  "link_tables [] dx si = ret si"
| "link_tables (di # stack) dx si =
     (let dx = drop_bit 9 dx; di = di + 8 * (dx AND 0x1ff); si = si OR ENTRY_FLAGS
      in thn (modify (store32 di si)) (link_tables stack dx (di AND NOT 0xfff)))"

definition setup_paging :: "u32 \<Rightarrow> (kst, unit) kern" where
  "setup_paging bx =
     bnd (next_cleared_pt ((bx + 0xfff) AND NOT 0xfff)) (\<lambda>pdp.
     bnd (next_cleared_pt pdp) (\<lambda>pd.
     bnd (next_cleared_pt pd) (\<lambda>pt.
     bnd (next_cleared_pt pt) (\<lambda>di.
     bnd (gets (\<lambda>s. ucast (LAYOUT_PADDR_START (sym s)) AND NOT 0xfff)) (\<lambda>dx.
     let cx = drop_bit 12 (((di + SIZE_4KB + 0xfff) AND NOT 0xfff) - dx); si = dx; dx = drop_bit 12 dx
     in thn (store_pages (loop_times cx) (si + ENTRY_FLAGS) (di + 8 * (dx AND 0x1ff)))
       (bnd (link_tables [pt, pd, pdp] dx di) (\<lambda>si. modify (\<lambda>s. s\<lparr>cr3 := ucast si\<rparr>))))))))"

text \<open>\<open>shldq $n, src, dst\<close>, and the three rounds that copy the entry of the low half to the one of the high half.\<close>

definition shld :: "nat \<Rightarrow> u64 \<Rightarrow> u64 \<Rightarrow> u64" where
  "shld n src dst = push_bit n dst OR drop_bit (64 - n) src"

definition load_entry :: "addr \<Rightarrow> kst \<Rightarrow> pte" where
  "load_entry a s = frames s (a AND NOT 0xfff) (unat (drop_bit 3 (a AND 0xfff)))"

definition store_entry :: "addr \<Rightarrow> pte \<Rightarrow> kst \<Rightarrow> kst" where
  "store_entry a e = set_entry (a AND NOT 0xfff) (unat (drop_bit 3 (a AND 0xfff))) e"

fun copy_entries :: "nat \<Rightarrow> addr \<Rightarrow> u64 \<times> u64 \<Rightarrow> u64 \<times> u64 \<Rightarrow> (kst, unit) kern" where
  "copy_entries 0 rax hi lo = ret ()"
| "copy_entries (Suc n) rax (r8, r10) (r9, r11) =
     (let r10 = shld 9 r8 r10 AND 0x1ff; r11 = shld 9 r9 r11 AND 0x1ff; rdi = rax + 8 * r10; rsi = rax + 8 * r11
      in bnd (gets (load_entry rsi)) (\<lambda>e.
         thn (modify (store_entry rdi e)) (copy_entries n (e AND NOT 0xfff) (push_bit 9 r8, r10) (push_bit 9 r9, r11))))"

text \<open>\<open>r10\<close> and \<open>r11\<close> hold whatever was in the registers before.\<close>

definition map_higher_half :: "u64 \<Rightarrow> u64 \<Rightarrow> (kst, unit) kern" where
  "map_higher_half r10 r11 =
     bnd (gets cr3) (\<lambda>rax.
     bnd (gets (\<lambda>s. (LAYOUT_VADDR_START (sym s), LAYOUT_PADDR_START (sym s)))) (\<lambda>(r8, r9).
     copy_entries 3 (rax AND NOT 0xfff) (push_bit 16 r8, shld 16 r8 r10) (push_bit 16 r9, shld 16 r9 r11)))"

section \<open>Addresses of entries\<close>

lemma unat_lt32: "unat x < 2 ^ 32" for x :: u32
  using unsigned_less[of x, where ?'a = nat] by simp

lemma mask_12: "(0xfff :: 'a::len word) = mask 12"
  by (simp add: mask_eq_exp_minus_1)

lemma low12: "unat (a AND 0xfff) = unat a mod 4096" for a :: "'a::len word"
proof -
  have "unat (a AND 0xfff) = take_bit 12 (unat a)" by (simp only: mask_12 take_bit_eq_mask[symmetric] unsigned_take_bit_eq)
  then show ?thesis by (simp add: take_bit_eq_mod)
qed

lemma low9_word: "unat (a AND 0x1ff) = unat a mod 512" for a :: "'a::len word"
proof -
  have "(0x1ff :: 'a word) = mask 9" by (simp add: mask_eq_exp_minus_1)
  then have "unat (a AND 0x1ff) = take_bit 9 (unat a)" by (simp only: take_bit_eq_mask[symmetric] unsigned_take_bit_eq)
  then show ?thesis by (simp add: take_bit_eq_mod)
qed

lemma high: "unat (a AND NOT 0xfff) = unat a - unat a mod 4096" for a :: "'a::len word"
proof -
  have "a AND NOT (mask 12) = push_bit 12 (drop_bit 12 a)" by (rule bit_word_eqI) (auto simp: bit_simps)
  then have "(a AND NOT 0xfff) + (a AND 0xfff) = a"
    using bits_ident[of 12 a] by (simp add: mask_12 take_bit_eq_mask)
  then have "a AND NOT 0xfff = a - (a AND 0xfff)" by (metis add_diff_cancel_right')
  moreover have "a AND 0xfff \<le> a" by (simp add: word_le_nat_alt low12)
  ultimately show ?thesis by (simp add: unat_sub low12)
qed

text \<open>Entry \<open>i\<close> of the table in page \<open>k\<close>, and the halves of an entry.\<close>

definition frame :: "nat \<Rightarrow> addr" where
  "frame k = of_nat (4096 * k)"

lemma entry_parts:
  fixes a :: "'a::len word"
  assumes "unat a = 4096 * k + 8 * i + b" "i < 512" "b < 8"
  shows "unat (a AND NOT 0xfff) = 4096 * k" "unat (drop_bit 3 (a AND 0xfff)) = i" "bit a 2 = (b \<ge> 4)"
proof -
  have "unat a = (8 * i + b) + k * 4096" using assms(1) by simp
  then have m: "unat a mod 4096 = 8 * i + b" using assms(2,3) by (simp only: mod_mult_self1) simp
  show "unat (a AND NOT 0xfff) = 4096 * k" unfolding high m using assms(1) by simp
  show "unat (drop_bit 3 (a AND 0xfff)) = i" unfolding unat_drop_bit_eq low12 m using assms(3) by (simp add: drop_bit_eq_div)
  have "bit a 2 = bit (unat a) 2" by (simp add: bit_unsigned_iff)
  also have "\<dots> = odd (unat a div 4)" by (simp add: bit_iff_odd)
  also have "unat a div 4 = 2 * (512 * k + i) + b div 4" using assms(1) by simp
  also have "b div 4 = of_bool (b \<ge> 4)" using assms(3) by auto
  finally show "bit a 2 = (b \<ge> 4)" by simp
qed

lemma store32_low:
  assumes "unat a = 4096 * k + 8 * i" "i < 512"
  shows "store32 a v s = set_entry (frame k) i ((frames s (frame k) i AND NOT (mask 32)) OR ucast v) s"
proof -
  have a: "unat a = 4096 * k + 8 * i + 0" using assms(1) by simp
  note p = entry_parts[OF a assms(2)]
  have "ucast (a AND NOT 0xfff) = frame k" by (subst of_nat_unat[symmetric]) (simp only: p(1) frame_def)
  then show ?thesis unfolding store32_def Let_def using p(2,3) by simp
qed

lemma store32_high:
  assumes "unat a = 4096 * k + 8 * i + 4" "i < 512"
  shows "store32 a v s = set_entry (frame k) i ((frames s (frame k) i AND mask 32) OR push_bit 32 (ucast v)) s"
proof -
  note p = entry_parts[OF assms]
  have "ucast (a AND NOT 0xfff) = frame k" by (subst of_nat_unat[symmetric]) (simp only: p(1) frame_def)
  then show ?thesis unfolding store32_def Let_def using p(2,3) by simp
qed

section \<open>Clearing a table\<close>

lemma no_half: "(e AND NOT (mask 32)) AND mask 32 = 0" for e :: u64
  by (rule bit_word_eqI) (auto simp: bit_simps)

definition blank :: "nat \<Rightarrow> nat \<Rightarrow> kst \<Rightarrow> kst" where
  "blank k n s = s\<lparr>frames := (frames s)(frame k := \<lambda>i. if i < n then 0 else frames s (frame k) i)\<rparr>"

lemma rep_stosl_blank:
  assumes "unat di = 4096 * k" "n \<le> 512" "4096 * k + 4096 < 2 ^ 32" "j \<le> n"
  shows "rep_stosl (2 * (n - j)) 0 (di + of_nat (8 * j)) (blank k j s) = Inr (di + of_nat (8 * n), blank k n s)"
  using assms(4)
proof (induction "n - j" arbitrary: j)
  case 0
  then show ?case by (simp add: kern)
next
  case (Suc d)
  have j: "j < n" "j < 512" "n - j = Suc (n - Suc j)" using Suc assms(2) by simp_all
  have u: "unat (di + of_nat (8 * j)) = 4096 * k + 8 * j" "unat (di + of_nat (8 * j) + 4) = 4096 * k + 8 * j + 4"
    using assms(1,3) j(2) by (simp_all add: unat_word_ariths unat_of_nat take_bit_nat_eq_self)
  have "store32 (di + of_nat (8 * j) + 4) 0 (store32 (di + of_nat (8 * j)) 0 (blank k j s)) = blank k (Suc j) s"
    unfolding store32_low[OF u(1) j(2)] store32_high[OF u(2) j(2)]
    by (simp add: set_entry_def blank_def no_half fun_eq_iff less_Suc_eq)
  moreover have "rep_stosl (2 * (n - Suc j)) 0 (di + of_nat (8 * Suc j)) (blank k (Suc j) s) = Inr (di + of_nat (8 * n), blank k n s)"
    by (rule Suc.hyps(1)) (use Suc j in simp_all)
  ultimately show ?case unfolding j(3) by (simp add: kern algebra_simps)
qed

lemma next_cleared_pt_run:
  assumes "unat di = 4096 * k" "k < 512"
  shows "next_cleared_pt di s = Inr (di + 4096, blank k 512 s)"
proof -
  have "rep_stosl (2 * (512 - 0)) 0 (di + of_nat (8 * 0)) (blank k 0 s) = Inr (di + of_nat (8 * 512), blank k 512 s)"
    by (rule rep_stosl_blank) (use assms in simp_all)
  moreover have "blank k 0 s = s" by (simp add: blank_def)
  ultimately show ?thesis by (simp add: next_cleared_pt_def SIZE_4KB_def)
qed

section \<open>Filling and linking the tables\<close>

definition boot_entry :: "nat \<Rightarrow> pte" where
  "boot_entry k = of_nat (4096 * k + 3)"

text \<open>Only the low half of an entry is stored.\<close>

definition half_stored :: "nat \<Rightarrow> pte \<Rightarrow> pte" where
  "half_stored k e = (e AND NOT (mask 32)) OR boot_entry k"

definition pages_row :: "nat \<Rightarrow> nat \<Rightarrow> nat \<Rightarrow> (nat \<Rightarrow> pte) \<Rightarrow> nat \<Rightarrow> pte" where
  "pages_row p n i row = (\<lambda>j. if i \<le> j \<and> j < i + n then half_stored (p + (j - i)) (row j) else row j)"

definition with_row :: "nat \<Rightarrow> (nat \<Rightarrow> pte) \<Rightarrow> kst \<Rightarrow> kst" where
  "with_row k row s = s\<lparr>frames := (frames s)(frame k := row)\<rparr>"

lemma with_row_simps [simp]:
  "frames (with_row k row s) = (frames s)(frame k := row)" "sym (with_row k row s) = sym s" "mem (with_row k row s) = mem s"
  "with_row k row (with_row k row' s) = with_row k row s" "with_row k (frames s (frame k)) s = s" "cr3 (with_row k row s) = cr3 s"
  by (simp_all add: with_row_def)

lemma pages_row_Suc: "pages_row p (Suc n) i row = pages_row (Suc p) n (Suc i) (row(i := half_stored p (row i)))"
proof
  fix j
  have "p + (j - i) = Suc p + (j - Suc i)" if "Suc i \<le> j" using that by simp
  then show "pages_row p (Suc n) i row j = pages_row (Suc p) n (Suc i) (row(i := half_stored p (row i))) j"
    by (cases "Suc i \<le> j") (auto simp only: pages_row_def fun_upd_apply split: if_splits, simp_all add: not_less_eq_eq)
qed

lemma ucast_entry: "unat v = 4096 * k + 3 \<Longrightarrow> ucast v = boot_entry k" for v :: u32
  by (subst of_nat_unat[symmetric]) (simp only: boot_entry_def)

lemma store_entry_low:
  assumes "unat a = 4096 * k + 8 * i" "i < 512" "unat v = 4096 * p + 3"
  shows "store32 a v s = with_row k ((frames s (frame k))(i := half_stored p (frames s (frame k) i))) s"
  unfolding store32_low[OF assms(1,2)] by (simp add: set_entry_def with_row_def half_stored_def ucast_entry[OF assms(3)])

lemma store_pages_run:
  "unat ax = 4096 * p + 3 \<Longrightarrow> unat di = 4096 * k + 8 * i \<Longrightarrow> i + n \<le> 512 \<Longrightarrow> k < 512 \<Longrightarrow> p + n \<le> 512 \<Longrightarrow>
    store_pages n ax di s = Inr ((), with_row k (pages_row p n i (frames s (frame k))) s)"
proof (induction n arbitrary: ax di p i s)
  case 0
  have "pages_row p 0 i row = row" for row by (rule ext) (auto simp: pages_row_def)
  then show ?case by (simp add: kern)
next
  case (Suc n)
  have "unat (ax + SIZE_4KB) = 4096 * Suc p + 3" "unat (di + 4 + 4) = 4096 * k + 8 * Suc i"
    using Suc.prems by (simp_all add: SIZE_4KB_def unat_word_ariths)
  from Suc.IH[OF this] Suc.prems
  have "store_pages n (ax + SIZE_4KB) (di + 4 + 4) s' = Inr ((), with_row k (pages_row (Suc p) n (Suc i) (frames s' (frame k))) s')" for s'
    by simp
  moreover have "store32 di ax s = with_row k ((frames s (frame k))(i := half_stored p (frames s (frame k) i))) s"
    by (rule store_entry_low) (use Suc.prems in simp_all)
  ultimately show ?case by (simp add: pages_row_Suc kern)
qed

lemma or_flags:
  assumes "unat si = 4096 * k"
  shows "unat (si OR ENTRY_FLAGS) = 4096 * k + 3"
proof -
  have f: "ENTRY_FLAGS = mask 2" by (simp add: ENTRY_FLAGS_def mask_eq_exp_minus_1)
  have "unat (si AND mask 2) = 0"
    using assms by (simp only: take_bit_eq_mask[symmetric] unsigned_take_bit_eq) (simp add: take_bit_eq_mod)
  then have "si AND ENTRY_FLAGS = 0" unfolding f by (simp add: word_unat_eq_iff)
  then have s: "si OR ENTRY_FLAGS = si + ENTRY_FLAGS" using word_plus_and_or[of si ENTRY_FLAGS] by simp
  have "4096 * k + 3 < 2 ^ 32" using assms unat_lt32[of si] by simp
  then show ?thesis unfolding s using assms by (simp add: unat_word_ariths ENTRY_FLAGS_def)
qed

lemma link_step:
  assumes "unat di = 4096 * k" "unat si = 4096 * k'" "unat dx < 512"
  shows "link_tables (di # stack) dx si s =
    link_tables stack 0 di (with_row k ((frames s (frame k))(0 := half_stored k' (frames s (frame k) 0))) s)"
proof -
  have "unat (drop_bit 9 dx) = 0" unfolding unat_drop_bit_eq using assms(3) by (simp add: drop_bit_eq_div)
  then have d: "drop_bit 9 dx = 0" by (simp add: word_unat_eq_iff)
  have "unat (di AND NOT 0xfff) = unat di" unfolding high using assms(1) by simp
  then have p: "di AND NOT 0xfff = di" by (simp only: word_unat_eq_iff)
  have "store32 di (si OR ENTRY_FLAGS) s = with_row k ((frames s (frame k))(0 := half_stored k' (frames s (frame k) 0))) s"
    by (rule store_entry_low) (use assms or_flags[OF assms(2)] in simp_all)
  then show ?thesis using p by (simp only: link_tables.simps Let_def d) (simp add: kern del: link_tables.simps)
qed

lemma frame_eq: "a < 2 ^ 20 \<Longrightarrow> b < 2 ^ 20 \<Longrightarrow> frame a = frame b \<longleftrightarrow> a = b"
  by (auto simp: frame_def word_unat_eq_iff unat_of_nat take_bit_nat_eq_self simp del: of_nat_mult)

lemma half_stored_0 [simp]: "half_stored k 0 = boot_entry k"
  by (simp add: half_stored_def)

text \<open>
  What \<open>setup_paging\<close> leaves. It clears the four pages from \<open>K\<close> on and uses the four pages behind the first of them, so that
  the first page is not used and the table of the last level, page \<open>K + 4\<close>, is not cleared.
\<close>

definition cleared :: "(nat \<Rightarrow> pte) \<Rightarrow> nat \<Rightarrow> pte" where
  "cleared row = (\<lambda>i. if i < 512 then 0 else row i)"

definition paged :: "nat \<Rightarrow> nat \<Rightarrow> kst \<Rightarrow> kst" where
  "paged K P s =
     (with_row (K + 1) ((cleared (frames s (frame (K + 1))))(0 := boot_entry (K + 2)))
     (with_row (K + 2) ((cleared (frames s (frame (K + 2))))(0 := boot_entry (K + 3)))
     (with_row (K + 3) ((cleared (frames s (frame (K + 3))))(0 := boot_entry (K + 4)))
     (with_row (K + 4) (pages_row P (K + 5 - P) P (frames s (frame (K + 4))))
     (with_row K (cleared (frames s (frame K))) s)))))\<lparr>cr3 := frame (K + 1)\<rparr>"

lemma blank_row: "blank k 512 s = with_row k (cleared (frames s (frame k))) s"
  by (simp add: blank_def with_row_def cleared_def)

lemma next_tables:
  fixes b :: u32
  assumes b: "unat b = 4096 * K" and K: "K + 5 \<le> 512"
  shows "unat (b + 4096) = 4096 * (K + 1)" "unat (b + 4096 + 4096) = 4096 * (K + 2)"
    "unat (b + 4096 + 4096 + 4096) = 4096 * (K + 3)" "unat (b + 4096 + 4096 + 4096 + 4096) = 4096 * (K + 4)"
    "unat ((b + 4096 + 4096 + 4096 + 4096 + SIZE_4KB + 0xfff) AND NOT 0xfff) = 4096 * (K + 5)"
proof -
  have "unat (b + 4096 + 4096 + 4096 + 4096 + SIZE_4KB + 0xfff) = 4096 * (K + 5) + 4095"
    using K by (simp add: unat_word_ariths b SIZE_4KB_def)
  then show "unat ((b + 4096 + 4096 + 4096 + 4096 + SIZE_4KB + 0xfff) AND NOT 0xfff) = 4096 * (K + 5)" unfolding high by simp
qed (use b K in \<open>simp_all add: unat_word_ariths\<close>)

lemma lower_bound_of_image:
  fixes b :: u32 and y :: symbols
  assumes b: "unat b = 4096 * K" and K: "K + 5 \<le> 512" and P: "unat (LAYOUT_PADDR_START y) = 4096 * P" "P < K"
  defines "d \<equiv> (ucast (LAYOUT_PADDR_START y) :: u32) AND NOT 0xfff"
  shows "loop_times (drop_bit 12 (((b + 4096 + 4096 + 4096 + 4096 + SIZE_4KB + 0xfff) AND NOT 0xfff) - d)) = K + 5 - P"
    "unat (drop_bit 12 d) = P"
    "unat (b + 4096 + 4096 + 4096 + 4096 + 8 * (drop_bit 12 d AND 0x1ff)) = 4096 * (K + 4) + 8 * P"
    "unat (d + ENTRY_FLAGS) = 4096 * P + 3"
proof -
  have "unat (ucast (LAYOUT_PADDR_START y) :: u32) = 4096 * P"
    using P K by (simp add: unsigned_ucast_eq take_bit_nat_eq_self)
  then have d: "unat d = 4096 * P" unfolding d_def high by simp
  show dx: "unat (drop_bit 12 d) = P" unfolding unat_drop_bit_eq d by (simp add: drop_bit_eq_div)
  let ?c = "drop_bit 12 (((b + 4096 + 4096 + 4096 + 4096 + SIZE_4KB + 0xfff) AND NOT 0xfff) - d)"
  have "unat ?c = K + 5 - P"
    unfolding unat_drop_bit_eq using P K d next_tables(5)[OF b K] by (simp add: unat_sub word_le_nat_alt drop_bit_eq_div)
  then show "loop_times ?c = K + 5 - P" using P by (auto simp: loop_times_def)
  have "drop_bit 12 d AND 0x1ff = drop_bit 12 d" using low9_word[of "drop_bit 12 d"] dx P K by (simp add: word_unat_eq_iff)
  then show "unat (b + 4096 + 4096 + 4096 + 4096 + 8 * (drop_bit 12 d AND 0x1ff)) = 4096 * (K + 4) + 8 * P"
    using dx P K by (simp add: unat_word_ariths b)
  show "unat (d + ENTRY_FLAGS) = 4096 * P + 3" using d P K by (simp add: unat_word_ariths ENTRY_FLAGS_def)
qed

lemma setup_paging_run:
  assumes K: "(unat bx + 4095) div 4096 = K" "K + 5 \<le> 512" and P: "unat (LAYOUT_PADDR_START (sym s)) = 4096 * P" "P < K"
  shows "setup_paging bx s = Inr ((), paged K P s)"
proof -
  have "unat bx + 4095 < 2 ^ 32" using K by simp
  then have u: "unat (bx + 0xfff) = unat bx + 4095" by (simp add: unat_word_ariths)
  define b where "b = (bx + 0xfff) AND NOT 0xfff"
  have b: "unat b = 4096 * K" unfolding b_def high u using K(1) by (simp add: minus_mod_eq_mult_div)
  note bs = next_tables[OF b K(2)]
  have ks: "K < 512" "K + 1 < 512" "K + 2 < 512" "K + 3 < 512" using K(2) by simp_all
  note clear = next_cleared_pt_run[OF b ks(1)] next_cleared_pt_run[OF bs(1) ks(2)] next_cleared_pt_run[OF bs(2) ks(3)]
    next_cleared_pt_run[OF bs(3) ks(4)]
  define d where "d = (ucast (LAYOUT_PADDR_START (sym s)) :: u32) AND NOT 0xfff"
  note im = lower_bound_of_image[OF b K(2) P, folded d_def]
  define s4 where "s4 = blank (K + 3) 512 (blank (K + 2) 512 (blank (K + 1) 512 (blank K 512 s)))"
  have pages: "store_pages (K + 5 - P) (d + ENTRY_FLAGS) (b + 4096 + 4096 + 4096 + 4096 + 8 * (drop_bit 12 d AND 0x1ff)) s4 =
      Inr ((), with_row (K + 4) (pages_row P (K + 5 - P) P (frames s4 (frame (K + 4)))) s4)"
    by (rule store_pages_run[OF im(4,3)]) (use K P in simp_all)
  have "sym s4 = sym s" by (simp add: s4_def blank_def)
  define s5 where "s5 = with_row (K + 4) (pages_row P (K + 5 - P) P (frames s4 (frame (K + 4)))) s4"
  have dx9: "unat (drop_bit 12 d) < 512" "unat (0 :: u32) < 512" using im(2) P K(2) by simp_all
  have run: "setup_paging bx s = bnd (link_tables [b + 4096 + 4096 + 4096, b + 4096 + 4096, b + 4096] (drop_bit 12 d) (b + 4096 + 4096 + 4096 + 4096))
      (\<lambda>si. modify (\<lambda>s. s\<lparr>cr3 := ucast si\<rparr>)) s5"
    unfolding setup_paging_def b_def[symmetric] bnd_Inr[OF clear(1)] bnd_Inr[OF clear(2)] bnd_Inr[OF clear(3)] bnd_Inr[OF clear(4)] s4_def[symmetric]
    by (simp only: bnd_simps \<open>sym s4 = sym s\<close> d_def[symmetric] Let_def im(1)) (rule thn_Inr, rule pages[folded s5_def])
  have "cr3 s5 = cr3 s" by (simp add: s5_def s4_def blank_def)
  have z: "(ucast (b + 4096) :: addr) = frame (K + 1)"
    by (subst of_nat_unat[symmetric]) (simp only: bs frame_def)
  define K1 K2 K3 K4 where k: "K1 = K + 1" "K2 = K + 2" "K3 = K + 3" "K4 = K + 4"
  have "distinct [frame K, frame K1, frame K2, frame K3, frame K4]" using K(2) by (simp add: k frame_eq)
  then have ne: "frame K \<noteq> frame K1" "frame K \<noteq> frame K2" "frame K \<noteq> frame K3" "frame K \<noteq> frame K4" "frame K1 \<noteq> frame K2"
    "frame K1 \<noteq> frame K3" "frame K1 \<noteq> frame K4" "frame K2 \<noteq> frame K3" "frame K2 \<noteq> frame K4" "frame K3 \<noteq> frame K4"
    by simp_all
  define link where "link k k' s = with_row k ((frames s (frame k))(0 := half_stored k' (frames s (frame k) 0))) s" for k k' s
  have "link_tables [b + 4096 + 4096 + 4096, b + 4096 + 4096, b + 4096] (drop_bit 12 d) (b + 4096 + 4096 + 4096 + 4096) s5 =
      Inr (b + 4096, link K1 K2 (link K2 K3 (link K3 K4 s5)))"
    unfolding link_step[OF bs(3) bs(4) dx9(1)] link_step[OF bs(2) bs(3) dx9(2)] link_step[OF bs(1) bs(2) dx9(2)] link_def k
    by (simp only: link_tables.simps ret_apply)
  then have "setup_paging bx s = Inr ((), (link K1 K2 (link K2 K3 (link K3 K4 s5)))\<lparr>cr3 := frame K1\<rparr>)"
    unfolding run by (simp only: bnd_Inr modify_apply z k(1))
  moreover define s6 where "s6 = link K1 K2 (link K2 K3 (link K3 K4 s5))"
  moreover have "frames s6 = frames (paged K P s)"
  proof
    fix f
    show "frames s6 f = frames (paged K P s) f"
      unfolding s6_def s5_def s4_def paged_def blank_row link_def k[symmetric]
      using ne ne[symmetric] by (simp add: cleared_def fun_eq_iff)
  qed
  moreover have "s6 = s\<lparr>frames := frames s6\<rparr>"
    unfolding s6_def by (simp add: link_def s5_def s4_def blank_row with_row_def)
  moreover have "paged K P s = s\<lparr>frames := frames (paged K P s), cr3 := frame K1\<rparr>"
    unfolding paged_def k(1) by (simp add: with_row_def)
  ultimately show ?thesis by (metis kst.update_convs(7,8))
qed

section \<open>The higher half\<close>

lemma unat_frame: "k < 2 ^ 20 \<Longrightarrow> unat (frame k) = 4096 * k"
  by (simp add: frame_def unat_of_nat take_bit_nat_eq_self del: of_nat_mult)

lemma unat_boot_entry: "k < 2 ^ 20 \<Longrightarrow> unat (boot_entry k) = 4096 * k + 3"
  by (simp add: boot_entry_def unat_of_nat take_bit_nat_eq_self del: of_nat_mult of_nat_add)

lemma boot_entry_page: "k < 2 ^ 20 \<Longrightarrow> boot_entry k AND NOT 0xfff = frame k"
  unfolding word_unat_eq_iff high by (simp add: unat_boot_entry unat_frame)

lemma boot_entry_fields:
  assumes "k < 2 ^ 20"
  shows "present (boot_entry k)" "writable (boot_entry k)" "PTEPADDR (boot_entry k) = frame k"
proof -
  note u = unat_boot_entry[OF assms]
  have b: "bit (boot_entry k) n = bit (4096 * k + 3) n" for n
    unfolding u[symmetric] by (simp add: bit_unsigned_iff)
  show "present (boot_entry k)" unfolding present_def b by (simp add: bit_iff_odd)
  show "writable (boot_entry k)" proof -
    have "(4096 * k + 3) div 2 = 2 * (1024 * k) + 1" by arith
    then show ?thesis unfolding writable_def b by (simp add: bit_iff_odd)
  qed
  have "boot_entry k AND mask 52 = boot_entry k"
    unfolding word_unat_eq_iff using assms u
    by (simp only: take_bit_eq_mask[symmetric] unsigned_take_bit_eq) (simp add: take_bit_nat_eq_self)
  then show "PTEPADDR (boot_entry k) = frame k"
    unfolding PTEPADDR_alt using boot_entry_page[OF assms] by (simp add: mask_12)
qed

lemma half_stored_present: "k < 2 ^ 20 \<Longrightarrow> present (half_stored k e)"
  using boot_entry_fields(1)[of k] by (simp add: half_stored_def present_def bit_simps)

lemma shld_index:
  assumes "n \<le> 46"
  shows "shld 9 (push_bit n v) r AND 0x1ff = drop_bit (55 - n) v AND 0x1ff"
proof -
  have m: "(0x1ff :: u64) = mask 9" by (simp add: mask_eq_exp_minus_1)
  show ?thesis unfolding m by (rule bit_word_eqI) (use assms in \<open>auto simp: shld_def bit_simps\<close>)
qed

lemma copy_step:
  assumes "k < 2 ^ 20" "shld 9 r8 r10 AND 0x1ff = of_nat i" "shld 9 r9 r11 AND 0x1ff = of_nat j" "i < 512" "j < 512"
    "frames s (frame k) j = boot_entry k'" "k' < 2 ^ 20"
  shows "copy_entries (Suc n) (frame k) (r8, r10) (r9, r11) s =
    copy_entries n (frame k') (push_bit 9 r8, of_nat i) (push_bit 9 r9, of_nat j)
      (with_row k ((frames s (frame k))(i := boot_entry k')) s)"
proof -
  have u: "unat (frame k + 8 * of_nat i) = 4096 * k + 8 * i + 0" if "i < 512" for i
    using that assms(1) unat_frame[OF assms(1)]
    by (simp add: unat_word_ariths unat_of_nat take_bit_nat_eq_self)
  have a: "(frame k + 8 * of_nat i) AND NOT 0xfff = frame k" "unat (drop_bit 3 ((frame k + 8 * of_nat i) AND 0xfff)) = i"
    if "i < 512" for i
    using entry_parts(1,2)[OF u[OF that] that] unat_frame[OF assms(1)] by (simp_all only: word_unat_eq_iff)
  have l: "load_entry (frame k + 8 * of_nat j) s = boot_entry k'"
    unfolding load_entry_def a(1)[OF assms(5)] a(2)[OF assms(5)] by (rule assms(6))
  have st: "store_entry (frame k + 8 * of_nat i) e s = with_row k ((frames s (frame k))(i := e)) s" for e
    unfolding store_entry_def a(1)[OF assms(4)] a(2)[OF assms(4)] by (simp add: set_entry_def with_row_def)
  show ?thesis
    unfolding copy_entries.simps Let_def assms(2,3)
    by (simp only: bnd_simps thn_simps l st boot_entry_page[OF assms(7)])
qed

text \<open>The tables with which \<open>kernel_main\<close> starts.\<close>

definition started :: "nat \<Rightarrow> nat \<Rightarrow> kst \<Rightarrow> kst" where
  "started K P s =
     with_row (K + 2) ((cleared (frames s (frame (K + 2))))(0 := boot_entry (K + 3), 510 := boot_entry (K + 3)))
     (with_row (K + 1) ((cleared (frames s (frame (K + 1))))(0 := boot_entry (K + 2), 511 := boot_entry (K + 2))) (paged K P s))"

lemma paged_rows:
  assumes "K + 5 \<le> 512"
  shows "frames (paged K P s) (frame (K + 1)) = (cleared (frames s (frame (K + 1))))(0 := boot_entry (K + 2))"
    "frames (paged K P s) (frame (K + 2)) = (cleared (frames s (frame (K + 2))))(0 := boot_entry (K + 3))"
    "frames (paged K P s) (frame (K + 3)) = (cleared (frames s (frame (K + 3))))(0 := boot_entry (K + 4))"
    "frames (paged K P s) (frame (K + 4)) = pages_row P (K + 5 - P) P (frames s (frame (K + 4)))"
    "cr3 (paged K P s) = frame (K + 1)" "sym (paged K P s) = sym s" "mem (paged K P s) = mem s"
  using assms by (simp_all add: paged_def frame_eq with_row_def)

lemma higher_half_run:
  assumes K: "K + 5 \<le> 512" and v: "pml4_index (LAYOUT_VADDR_START (sym s)) = 511" "pdp_index (LAYOUT_VADDR_START (sym s)) = 510"
    "pd_index (LAYOUT_VADDR_START (sym s)) = 0" and P: "unat (LAYOUT_PADDR_START (sym s)) = 4096 * P" "P < 512"
  shows "map_higher_half r10 r11 (paged K P s) = Inr ((), started K P s)"
proof -
  let ?v = "LAYOUT_VADDR_START (sym s)" and ?p = "LAYOUT_PADDR_START (sym s)"
  note rows = paged_rows[OF K, of P s]
  have i: "shld 9 (push_bit 16 ?v) r AND 0x1ff = of_nat 511" "shld 9 (push_bit 25 ?v) r AND 0x1ff = of_nat 510"
    "shld 9 (push_bit 34 ?v) r AND 0x1ff = of_nat 0" for r
    using v by (simp_all add: shld_index pml4_index_def pdp_index_def pd_index_def)
  have low: "drop_bit n ?p = 0" if "21 \<le> n" for n
  proof -
    have "(2 :: nat) ^ 21 \<le> 2 ^ n" using that by (rule power_increasing) simp
    then have "unat ?p < 2 ^ n" using P by simp
    moreover have "unat (drop_bit n ?p) = unat ?p div 2 ^ n" unfolding unat_drop_bit_eq by (rule drop_bit_eq_div)
    ultimately have "unat (drop_bit n ?p) = 0" by (simp only: div_less)
    then show ?thesis by (simp add: word_unat_eq_iff)
  qed
  have j: "shld 9 (push_bit 16 ?p) r AND 0x1ff = of_nat 0" "shld 9 (push_bit 25 ?p) r AND 0x1ff = of_nat 0"
    "shld 9 (push_bit 34 ?p) r AND 0x1ff = of_nat 0" for r
    by (simp_all add: shld_index low)
  have three: "(3 :: nat) = Suc (Suc (Suc 0))" by simp
  have root: "frame (K + 1) AND NOT 0xfff = frame (K + 1)"
    unfolding word_unat_eq_iff high using K by (simp add: unat_frame)
  have ne: "frame (K + 2) \<noteq> frame (K + 1)" "frame (K + 3) \<noteq> frame (K + 1)" "frame (K + 3) \<noteq> frame (K + 2)"
    using K by (simp_all add: frame_eq)
  have push: "push_bit 9 (push_bit 16 x) = push_bit 25 x" "push_bit 9 (push_bit 25 x) = push_bit 34 x" for x :: u64
    by (simp_all add: push_bit_push_bit)
  have b: "K + 1 < 2 ^ 20" "K + 2 < 2 ^ 20" "K + 3 < 2 ^ 20" "K + 4 < 2 ^ 20" using K by simp_all
  define s0 where "s0 = paged K P s"
  define s1 where "s1 = with_row (K + 1) ((frames s0 (frame (K + 1)))(511 := boot_entry (K + 2))) s0"
  define s2 where "s2 = with_row (K + 2) ((frames s1 (frame (K + 2)))(510 := boot_entry (K + 3))) s1"
  define s3 where "s3 = with_row (K + 3) ((frames s2 (frame (K + 3)))(0 := boot_entry (K + 4))) s2"
  have e: "frames s0 (frame (K + 1)) 0 = boot_entry (K + 2)" "frames s1 (frame (K + 2)) 0 = boot_entry (K + 3)"
    "frames s2 (frame (K + 3)) 0 = boot_entry (K + 4)"
    using rows ne by (simp_all only: s0_def s1_def s2_def with_row_simps fun_upd_apply simp_thms if_True if_False)
  have l: "(511 :: nat) < 512" "(510 :: nat) < 512" "(0 :: nat) < 512" by simp_all
  note step = copy_step[OF b(1) i(1) j(1) l(1,3) e(1) b(2), unfolded push, folded s1_def]
    copy_step[OF b(2) i(2) j(2) l(2,3) e(2) b(3), unfolded push, folded s2_def]
    copy_step[OF b(3) i(3) j(3) l(3,3) e(3) b(4), folded s3_def]
  have "copy_entries (Suc (Suc (Suc 0))) (frame (K + 1)) (push_bit 16 ?v, x) (push_bit 16 ?p, y) s0 = Inr ((), s3)" for x y
    unfolding step by (simp only: copy_entries.simps ret_apply)
  moreover have "s3 = s2" unfolding s3_def using e(3) by (metis fun_upd_triv with_row_simps(5))
  moreover have "s2 = started K P s"
    unfolding started_def s2_def s1_def with_row_simps s0_def rows using ne rows by simp
  ultimately show ?thesis
    unfolding map_higher_half_def three by (simp only: bnd_simps rows root s0_def) simp
qed

section \<open>The walks\<close>

lemma started_rows:
  assumes "K + 5 \<le> 512"
  shows "frames (started K P s) (frame (K + 1)) = (cleared (frames s (frame (K + 1))))(0 := boot_entry (K + 2), 511 := boot_entry (K + 2))"
    "frames (started K P s) (frame (K + 2)) = (cleared (frames s (frame (K + 2))))(0 := boot_entry (K + 3), 510 := boot_entry (K + 3))"
    "frames (started K P s) (frame (K + 3)) = (cleared (frames s (frame (K + 3))))(0 := boot_entry (K + 4))"
    "frames (started K P s) (frame (K + 4)) = pages_row P (K + 5 - P) P (frames s (frame (K + 4)))"
    "cr3 (started K P s) = frame (K + 1)" "sym (started K P s) = sym s" "mem (started K P s) = mem s"
  using paged_rows[OF assms, of P s] assms by (simp_all add: started_def frame_eq)

lemma started_same: "started K P s = s\<lparr>frames := frames (started K P s), cr3 := frame (K + 1)\<rparr>"
  by (simp add: started_def paged_def with_row_def)

text \<open>The index fields of the addresses that the tables map.\<close>

lemma low_indices:
  assumes "unat w < 2 ^ 21"
  shows "indices_of w = [0, 0, 0, of_nat (unat w div 4096)]"
  using assms unat_field[of 12 w] unat_field[of 21 w] unat_field[of 30 w] unat_field[of 39 w]
  by (simp add: indices_of_def pml4_index_def pdp_index_def pd_index_def pt_index_def word_unat_eq_iff unat_of_nat take_bit_nat_eq_self)

lemma high_indices:
  assumes "unat w < 2 ^ 21"
  shows "indices_of (0xffffffff80000000 + w) = [511, 510, 0, of_nat (unat w div 4096)]"
proof -
  let ?v = "0xffffffff80000000 + w"
  have u: "unat ?v = 0xffffffff80000000 + unat w" using assms by (simp add: unat_word_ariths)
  have "unat ?v div 2 ^ 39 = 0x1ffffff" "unat ?v div 2 ^ 30 = 0x3fffffffe" "unat ?v div 2 ^ 21 = 0x7fffffffc00"
    "unat ?v div 2 ^ 12 = 0xffffffff80000 + unat w div 4096"
    unfolding u using assms by (simp_all add: div_nat_eqI)
  moreover have "(0xffffffff80000 + unat w div 4096) mod 512 = unat w div 4096"
  proof -
    have "0xffffffff80000 + unat w div 4096 = unat w div 4096 + 8796093021184 * 512" by simp
    moreover have "unat w div 4096 < 512" using assms by simp
    ultimately show ?thesis by (simp only: mod_mult_self1 mod_less)
  qed
  moreover have "unat (of_nat (unat w div 4096) :: u64) = unat w div 4096"
    using assms by (simp add: unat_of_nat take_bit_nat_eq_self)
  ultimately show ?thesis
    using assms unat_field[of 12 ?v] unat_field[of 21 ?v] unat_field[of 30 ?v] unat_field[of 39 ?v]
    by (simp add: indices_of_def pml4_index_def pdp_index_def pd_index_def pt_index_def word_unat_eq_iff)
qed

text \<open>Both halves lead to the table of the last level, which is in page \<open>K + 4\<close>.\<close>

lemma started_walk:
  fixes s :: kst and P :: nat
  assumes K: "K + 5 \<le> 512" and i: "ix = [0, 0, 0, j] \<or> ix = [511, 510, 0, j]"
  defines "fr \<equiv> frames (started K P s)"
  shows "path fr (frame (K + 1)) ix = [frame (K + 1), frame (K + 2), frame (K + 3), frame (K + 4)]" "reach fr (frame (K + 1)) ix"
    "leaf fr (frame (K + 1)) ix = (frame (K + 4), unat j)"
    "walk fr (frame (K + 1)) ix = (let e = fr (frame (K + 4)) (unat j) in if present e then Some (PTEPADDR e) else None)"
    "visits fr (frame (K + 1)) ix = [(frame (K + 1), unat (ix ! 0)), (frame (K + 2), unat (ix ! 1)), (frame (K + 3), 0), (frame (K + 4), unat j)]"
proof -
  note r = started_rows[OF K, of P s, folded fr_def]
  have b: "K + 2 < 2 ^ 20" "K + 3 < 2 ^ 20" "K + 4 < 2 ^ 20" using K by simp_all
  note e = boot_entry_fields(1,3)[OF b(1)] boot_entry_fields(1,3)[OF b(2)] boot_entry_fields(1,3)[OF b(3)]
  have x: "fr (frame (K + 1)) (unat (ix ! 0)) = boot_entry (K + 2)" "fr (frame (K + 2)) (unat (ix ! 1)) = boot_entry (K + 3)"
    "fr (frame (K + 3)) 0 = boot_entry (K + 4)" using i r(1-3) by auto
  from i obtain a c where ix: "ix = [a, c, 0, j]" by auto
  show "path fr (frame (K + 1)) ix = [frame (K + 1), frame (K + 2), frame (K + 3), frame (K + 4)]" "reach fr (frame (K + 1)) ix"
    "leaf fr (frame (K + 1)) ix = (frame (K + 4), unat j)"
    "walk fr (frame (K + 1)) ix = (let e = fr (frame (K + 4)) (unat j) in if present e then Some (PTEPADDR e) else None)"
    "visits fr (frame (K + 1)) ix = [(frame (K + 1), unat (ix ! 0)), (frame (K + 2), unat (ix ! 1)), (frame (K + 3), 0), (frame (K + 4), unat j)]"
    using x e unfolding ix by (simp_all add: Let_def)
qed

section \<open>The start\<close>

lemma started_page:
  assumes "K + 5 \<le> 512" "P \<le> j" "j < K + 5"
  shows "frames (started K P s) (frame (K + 4)) j = half_stored j (frames s (frame (K + 4)) j)"
  using assms by (simp add: started_rows pages_row_def)

lemma frame_aligned: "k < 2 ^ 20 \<Longrightarrow> ISPAGEALIGNED (frame k)" "k < 2 ^ 20 \<Longrightarrow> pte_address (frame k)"
  by (simp_all add: pte_address_iff ISPAGEALIGNED_dvd unat_frame)

text \<open>The premises about the image: it lies in the pages from \<open>P\<close> on and ends before page \<open>K\<close>, the higher half is where the makefile
  puts it, and \<open>tmp_pt\<close> is a page of the image.\<close>

definition image_placed :: "symbols \<Rightarrow> u32 \<Rightarrow> nat \<Rightarrow> nat \<Rightarrow> bool" where
  "image_placed y bx K P \<longleftrightarrow> (unat bx + 4095) div 4096 = K \<and> K + 5 \<le> 512 \<and> unat (LAYOUT_PADDR_START y) = 4096 * P \<and> P < K \<and>
     HIGHER_HALF y = 0xffffffff80000000 \<and> LAYOUT_VADDR_START y = HIGHER_HALF y + LAYOUT_PADDR_START y \<and>
     (\<exists>T<K. a_tmp_pt y = HIGHER_HALF y + frame T)"

lemma paging_run:
  assumes i: "image_placed (sym s) bx K P"
  shows "thn (setup_paging bx) (map_higher_half r10 r11) s = Inr ((), started K P s)"
proof -
  have h: "(unat bx + 4095) div 4096 = K" "K + 5 \<le> 512" "unat (LAYOUT_PADDR_START (sym s)) = 4096 * P" "P < K" "P < 512"
    "LAYOUT_VADDR_START (sym s) = 0xffffffff80000000 + LAYOUT_PADDR_START (sym s)" using i by (auto simp: image_placed_def)
  then have "indices_of (LAYOUT_VADDR_START (sym s)) = [511, 510, 0, of_nat P]" using high_indices[of "LAYOUT_PADDR_START (sym s)"] by simp
  then have v: "pml4_index (LAYOUT_VADDR_START (sym s)) = 511" "pdp_index (LAYOUT_VADDR_START (sym s)) = 510"
    "pd_index (LAYOUT_VADDR_START (sym s)) = 0" by (simp_all add: indices_of_def)
  show ?thesis
    using setup_paging_run[OF h(1-4)] higher_half_run[OF h(2) v h(3,5)] by (simp add: thn_Inr)
qed

lemma started_tables:
  assumes i: "image_placed (sym s) bx K P"
  shows "boot_tables (started K P s)"
proof -
  obtain T where T: "T < K" "a_tmp_pt (sym s) = 0xffffffff80000000 + frame T" and K: "K + 5 \<le> 512"
    and hh: "HIGHER_HALF (sym s) = 0xffffffff80000000" using i by (auto simp: image_placed_def)
  note r = started_rows[OF K, of P s]
  have tmp: "tmp_frame (started K P s) = frame T" by (simp add: tmp_frame_def r hh T)
  have low: "0xffffffff80000000 + frame k < PT_TMP_START_VADDR" if "k < 512" for k
  proof -
    have "unat (0xffffffff80000000 + frame k) = 0xffffffff80000000 + 4096 * k"
      using that by (simp add: unat_word_ariths unat_frame)
    then show ?thesis using that by (simp add: PT_TMP_START_VADDR_def word_less_nat_alt)
  qed
  have b: "K + 2 < 2 ^ 20" using K by simp
  have "distinct [frame (K + 1), frame (K + 2), frame T]" using K T by (simp add: frame_eq)
  moreover have "pte_address (frame T)" using K T by (intro frame_aligned) simp
  moreover have "frame (K + 1) + 0xffffffff80000000 < PT_TMP_START_VADDR" "frame (K + 2) + 0xffffffff80000000 < PT_TMP_START_VADDR"
    "0xffffffff80000000 + frame T < PT_TMP_START_VADDR"
    using low[of "K + 1"] low[of "K + 2"] low[of T] K T by (simp_all add: add.commute)
  moreover have "frames (started K P s) (frame (K + 1)) 511 = boot_entry (K + 2)" unfolding r by simp
  moreover have "\<not> present (frames (started K P s) (frame (K + 2)) 511)" unfolding r by (simp add: cleared_def)
  ultimately show ?thesis
    using boot_entry_fields[OF b] by (simp del: add_2_eq_Suc' One_nat_def add_Suc_right add: boot_tables_def Let_def r hh T tmp)
qed

lemma started_image:
  assumes i: "image_placed (sym s) bx K P" and n: "0 < n" "P + n \<le> K + 5"
  shows "image_mapped (started K P s) (LAYOUT_VADDR_START (sym s)) n (frame (K + 4)) P"
proof -
  obtain T where T: "T < K" "a_tmp_pt (sym s) = 0xffffffff80000000 + frame T" and K: "K + 5 \<le> 512" and P: "P < K"
    and hh: "HIGHER_HALF (sym s) = 0xffffffff80000000" "unat (LAYOUT_PADDR_START (sym s)) = 4096 * P"
    "LAYOUT_VADDR_START (sym s) = 0xffffffff80000000 + LAYOUT_PADDR_START (sym s)" using i by (auto simp: image_placed_def)
  note r = started_rows[OF K, of P s]
  have ix: "indices_of (LAYOUT_VADDR_START (sym s)) = [511, 510, 0, of_nat P]"
    using high_indices[of "LAYOUT_PADDR_START (sym s)"] P K hh by simp
  have u: "unat (of_nat P :: u64) = P" using P K by (simp add: unat_of_nat take_bit_nat_eq_self)
  note w = started_walk[OF K disjI2[OF refl], where s = s and P = P and j = "of_nat P", unfolded u]
  have q: "PTEPADDR (frames (started K P s) (frame (K + 1)) 511) = frame (K + 2)"
    unfolding r using K boot_entry_fields(3)[of "K + 2"] by simp
  have tmp: "tmp_frame (started K P s) = frame T" by (simp add: tmp_frame_def r hh T)
  have al: "ISPAGEALIGNED (LAYOUT_VADDR_START (sym s))"
  proof -
    have "unat (LAYOUT_VADDR_START (sym s)) = 0xffffffff80000000 + 4096 * P"
      unfolding hh(3) using hh(2) P K by (simp add: unat_word_ariths)
    then show ?thesis by (simp add: ISPAGEALIGNED_dvd)
  qed
  have run: "present_run (frames (started K P s) (frame (K + 4))) P n"
    unfolding present_run_def
  proof (intro conjI allI impI)
    show "P + n \<le> 512" using n K by simp
    fix j assume "P \<le> j \<and> j < P + n"
    then show "present (frames (started K P s) (frame (K + 4)) j)"
      using n K by (subst started_page) (simp_all add: half_stored_present)
  qed
  have d: "distinct [frame (K + 1), frame (K + 2), frame (K + 3), frame (K + 4)]"
    "frame T \<notin> set [frame (K + 1), frame (K + 2), frame (K + 3), frame (K + 4)]" "frame (K + 4) \<noteq> frame (K + 2)"
    "(frame (K + 2), 511) \<notin> set [(frame (K + 1), 511), (frame (K + 2), 510), (frame (K + 3), 0), (frame (K + 4), P)]"
    using K T by (simp_all add: frame_eq)
  show ?thesis
    unfolding image_mapped_def Let_def ix r(5) q w(1,3,5) tmp using w(2) al run n K P d
    by (simp del: reach.simps add_2_eq_Suc' One_nat_def add_Suc_right)
qed

text \<open>The pages behind the image: an entry keeps the upper half that it had, and entries outside of the image keep everything.\<close>

lemma image_placed_index:
  assumes "image_placed y bx K P"
  shows "K + 5 \<le> 512" "P < K" "P < 512" "HIGHER_HALF y = 0xffffffff80000000" "unat (LAYOUT_PADDR_START y) = 4096 * P"
  using assms by (auto simp: image_placed_def)

lemma page_indices:
  assumes "j < 512"
  shows "indices_of (frame j) = [0, 0, 0, of_nat j]" "indices_of (0xffffffff80000000 + frame j) = [511, 510, 0, of_nat j]"
  using assms low_indices[of "frame j"] high_indices[of "frame j"] by (simp_all add: unat_frame)

lemma started_page_walk:
  assumes K: "K + 5 \<le> 512" and j: "j < 512" and v: "v = frame j \<or> v = 0xffffffff80000000 + frame j"
  shows "walk (frames (started K P s)) (frame (K + 1)) (indices_of v) =
    (let e = frames (started K P s) (frame (K + 4)) j in if present e then Some (PTEPADDR e) else None)"
proof -
  have u: "unat (of_nat j :: u64) = j" using j by (simp add: unat_of_nat take_bit_nat_eq_self)
  have "indices_of v = [0, 0, 0, of_nat j] \<or> indices_of v = [511, 510, 0, of_nat j]" using v page_indices[OF j] by auto
  from started_walk(4)[OF K this, of P s] show ?thesis unfolding u .
qed

lemma half_stored_clean: "k < 2 ^ 20 \<Longrightarrow> e AND NOT (mask 32) = 0 \<Longrightarrow> half_stored k e = boot_entry k"
  by (simp add: half_stored_def)

text \<open>C6: the boot code turns paging on with tables that satisfy what \<open>kernel_main\<close> expects of them: \<open>setup_paging\<close> and
  \<open>map_higher_half\<close> return, whatever is in the registers, and change nothing but page tables and \<open>cr3\<close>. The tables are the
  four pages behind page \<open>K\<close>, the first page behind the boot information. All pages from the start of the image to the end of
  the tables are mapped one to one and, with the same table, in the higher half; an address leads to its page if the upper half
  of the entry was zero before, because the code stores the lower half only.\<close>

theorem paging_code_prepares_the_start:
  assumes i: "image_placed (sym s) bx K P"
  shows "\<exists>s'. thn (setup_paging bx) (map_higher_half r10 r11) s = Inr ((), s') \<and>
    s' = s\<lparr>frames := frames s', cr3 := frame (K + 1)\<rparr> \<and> boot_tables s' \<and>
    image_mapped s' (LAYOUT_VADDR_START (sym s)) (K + 5 - P) (frame (K + 4)) P \<and>
    list_all (\<lambda>j. drop_bit 32 (frames s (frame (K + 4)) j) = 0 \<longrightarrow>
      walk (frames s') (cr3 s') (indices_of (frame j)) = Some (frame j) \<and>
      walk (frames s') (cr3 s') (indices_of (HIGHER_HALF (sym s) + frame j)) = Some (frame j)) [P..<K + 5]"
proof -
  note k = image_placed_index[OF i]
  let ?s = "started K P s"
  have r: "cr3 ?s = frame (K + 1)" by (rule started_rows(5)[OF k(1)])
  have w: "walk (frames ?s) (cr3 ?s) (indices_of v) = Some (frame j)"
    if j: "P \<le> j" "j < K + 5" and z: "drop_bit 32 (frames s (frame (K + 4)) j) = 0" and v: "v = frame j \<or> v = 0xffffffff80000000 + frame j"
    for j v
  proof -
    have b: "j < 512" "j < 2 ^ 20" using j k(1) by simp_all
    have "frames s (frame (K + 4)) j AND NOT (mask 32) = push_bit 32 (drop_bit 32 (frames s (frame (K + 4)) j))"
      by (rule bit_word_eqI) (auto simp: bit_simps)
    then have "frames ?s (frame (K + 4)) j = boot_entry j"
      using started_page[OF k(1) j] half_stored_clean[OF b(2)] z by simp
    then show ?thesis unfolding r started_page_walk[OF k(1) b(1) v] using boot_entry_fields[OF b(2)] by (simp add: Let_def)
  qed
  have "image_mapped ?s (LAYOUT_VADDR_START (sym s)) (K + 5 - P) (frame (K + 4)) P"
    by (rule started_image[OF i]) (use k in simp_all)
  moreover have "list_all (\<lambda>j. drop_bit 32 (frames s (frame (K + 4)) j) = 0 \<longrightarrow>
      walk (frames ?s) (cr3 ?s) (indices_of (frame j)) = Some (frame j) \<and>
      walk (frames ?s) (cr3 ?s) (indices_of (HIGHER_HALF (sym s) + frame j)) = Some (frame j)) [P..<K + 5]"
    using w k(4) by (auto simp: list_all_iff)
  ultimately show ?thesis
    using paging_run[OF i] started_tables[OF i] started_same[of K P s] by (intro exI[of _ ?s] conjI)
qed

text \<open>C39: the table of the last level is not cleared. \<open>setup_paging\<close> clears four pages and uses the four that start one page
  later, so whatever was in page \<open>K + 4\<close> outside of the entries of the image stays there: where such an entry has the present
  bit, the processor translates addresses of the first two megabytes and of the higher half through it.\<close>

theorem last_table_is_not_cleared:
  assumes i: "image_placed (sym s) bx K P" and j: "j < P \<or> K + 5 \<le> j" "j < 512" and e: "present (frames s (frame (K + 4)) j)"
  shows "\<exists>s'. thn (setup_paging bx) (map_higher_half r10 r11) s = Inr ((), s') \<and>
    walk (frames s') (cr3 s') (indices_of (frame j)) = Some (PTEPADDR (frames s (frame (K + 4)) j)) \<and>
    walk (frames s') (cr3 s') (indices_of (HIGHER_HALF (sym s) + frame j)) = Some (PTEPADDR (frames s (frame (K + 4)) j))"
proof -
  note k = image_placed_index[OF i]
  let ?s = "started K P s"
  have "frames ?s (frame (K + 4)) j = frames s (frame (K + 4)) j"
    using j k(1,2) by (auto simp: started_rows[OF k(1)] pages_row_def)
  then have "walk (frames ?s) (cr3 ?s) (indices_of v) = Some (PTEPADDR (frames s (frame (K + 4)) j))"
    if "v = frame j \<or> v = 0xffffffff80000000 + frame j" for v
    unfolding started_rows(5)[OF k(1)] started_page_walk[OF k(1) j(2) that] using e by (simp add: Let_def)
  then show ?thesis using paging_run[OF i] k(4) by (intro exI[of _ ?s] conjI) simp_all
qed

end
