(* ===== verification/Start.thy ===== *)
theory Start
  imports Paging
begin

text \<open>
  From the boot code to the memory managers: the tables that \<open>paging.S\<close> builds are the ones with which \<open>kernel_main\<close> is proved to
  start. What the managers know about these tables afterwards, and that they give them away.
\<close>

section \<open>The start as a whole\<close>

text \<open>What the linker has to place: the singleton, the slabs and the table of the window away from each other.\<close>

definition statics_placed :: "symbols \<Rightarrow> bool" where
  "statics_placed y \<longleftrightarrow> a_K y \<noteq> 0 \<and> slabs_placed y \<and> apart_from_pm y (a_slabs y) 640 \<and> apart_from_pm y (a_tmp_pt y + 4096) 3584"

lemma with_singleton_same [simp]:
  "sym (with_singleton b s) = sym s" "frames (with_singleton b s) = frames s" "cr3 (with_singleton b s) = cr3 s"
  "messages (with_singleton b s) = messages s" "tmp_frame (with_singleton b s) = tmp_frame s"
  by (simp_all add: with_singleton_def tmp_frame_def)

lemma same_image:
  "boot_tables (with_singleton b s) = boot_tables s" "image_mapped (with_singleton b s) v n l i = image_mapped s v n l i"
  by (simp_all add: boot_tables_def image_mapped_def Let_def)

lemma image_mapped_less: "image_mapped s v n l i \<Longrightarrow> 0 < m \<Longrightarrow> m \<le> n \<Longrightarrow> image_mapped s v m l i"
  by (auto simp: image_mapped_def present_run_def Let_def)

lemma ready_same_tables:
  assumes "mem s' = mem s" "sym s' = sym s"
  shows "boot_ready s' segs = boot_ready s segs"
  using assms by (simp add: boot_ready_def Let_def)

lemma started_layout:
  assumes i: "image_placed (sym s) bx K P" and y: "statics_placed (sym s)"
  shows "boot_layout (with_singleton b (started K P s))"
proof -
  have r: "cr3 (started K P s) = frame (K + 1)" "sym (started K P s) = sym s"
    using started_rows(5,6)[OF image_placed_index(1)[OF i]] by blast+
  have "unat (frame (K + 1) + HIGHER_HALF (sym s)) = 4096 * (K + 1) + 0xffffffff80000000"
    using image_placed_index[OF i] by (simp add: unat_word_ariths unat_frame)
  then have "frame (K + 1) + HIGHER_HALF (sym s) \<noteq> 0" by auto
  then show ?thesis
    using y started_tables[OF i] by (simp add: boot_layout_def Let_def r statics_placed_def same_image)
qed

text \<open>
  What the boot loader and the linker provide: the image and the boot information in the first two megabytes, the static data of
  the kernel, a memory map, two free pages and free memory for one page, and the sections of \<open>a\<close>, \<open>t\<close>, \<open>r\<close> and \<open>d\<close> pages.
\<close>

definition bootable :: "kst \<Rightarrow> u32 \<Rightarrow> addr \<Rightarrow> segment list \<Rightarrow> nat \<Rightarrow> nat \<Rightarrow> nat \<Rightarrow> nat \<Rightarrow> nat \<Rightarrow> nat \<Rightarrow> bool" where
  "bootable s bx bootinfo segs K P a t r d \<longleftrightarrow> (let A = boot_pages (sym s) segs in
     image_placed (sym s) bx K P \<and> statics_placed (sym s) \<and> boot_ready (with_singleton bootinfo s) segs \<and>
     (\<exists>k1<32768. \<exists>k2<32768. k1 \<noteq> k2 \<and> k1 \<notin> A \<and> k2 \<notin> A) \<and> 4096 \<le> total_length segs - 4096 * of_nat (card A) \<and>
     laid_out (sym s) a t r d \<and> 0 < a + t + r + d \<and> P + (a + t + r + d) \<le> K + 5)"

text \<open>The pages that are locked after the start.\<close>

definition start_pages :: "symbols \<Rightarrow> segment list \<Rightarrow> nat set" where
  "start_pages y segs = (let A = boot_pages y segs in insert (LEAST n. n \<notin> A) A)"

lemma start_run:
  assumes p: "bootable (kernel m) bx bootinfo segs K P a t r d"
  defines "y \<equiv> sym (kernel m)"
  obtains k0 k where "thn (setup_paging bx) (map_higher_half r10 r11) (kernel m) = Inr ((), k0)" "cr3 k0 = frame (K + 1)"
    "kernel_main srv bootinfo (m\<lparr>kernel := k0\<rparr>) = kernel_main_devices srv bootinfo (m\<lparr>kernel := k\<rparr>)"
    "memory_ready k (frame (K + 1)) (start_pages y segs) (total_length segs)"
    "\<forall>j<a + t + r + d. let is = indices_of (LAYOUT_VADDR_START y + of_nat j * 4096) in
      may_write (frames k) (frame (K + 1)) is = (j < a \<or> a + t + r \<le> j) \<and> may_execute (frames k) (frame (K + 1)) is = (a \<le> j \<and> j < a + t)"
proof -
  define A where "A = boot_pages y segs"
  have i: "image_placed (sym (kernel m)) bx K P" and y: "statics_placed (sym (kernel m))"
    and ready: "boot_ready (with_singleton bootinfo (kernel m)) segs"
    and l: "laid_out (sym (kernel m)) a t r d" "P + (a + t + r + d) \<le> K + 5" "0 < a + t + r + d"
    and m: "4096 \<le> total_length segs - 4096 * of_nat (card A)"
    using p by (simp_all add: bootable_def Let_def A_def y_def)
  obtain k1 k2 where k: "k1 < 32768" "k2 < 32768" "k1 \<noteq> k2" "k1 \<notin> A" "k2 \<notin> A"
    using p unfolding bootable_def Let_def A_def y_def by blast
  have A: "A = boot_pages (sym (kernel m)) segs" "start_pages (sym (kernel m)) segs = insert (LEAST n. n \<notin> A) A"
    by (simp_all add: A_def y_def start_pages_def Let_def)
  define k0 where "k0 = started K P (kernel m)"
  define s where "s = with_singleton bootinfo k0"
  note K = image_placed_index[OF i]
  have r: "cr3 k0 = frame (K + 1)" "sym k0 = sym (kernel m)" "mem k0 = mem (kernel m)"
    unfolding k0_def using started_rows(5-7)[OF K(1)] by blast+
  have s: "s = with_singleton bootinfo (kernel (m\<lparr>kernel := k0\<rparr>))" "sym s = sym (kernel m)" "cr3 s = frame (K + 1)"
    by (simp_all add: s_def r)
  have "mem s = mem (with_singleton bootinfo (kernel m))" unfolding s_def with_singleton_def by (simp add: r)
  then have rd: "boot_ready s segs" using ready s(2) ready_same_tables[of s "with_singleton bootinfo (kernel m)"] by simp
  have ly: "boot_layout s" unfolding s_def k0_def by (rule started_layout[OF i y])
  have im: "image_mapped s (LAYOUT_VADDR_START (sym (kernel m))) (a + t + r + d) (frame (K + 4)) P"
    unfolding s_def k0_def same_image by (rule started_image[OF i]) (use l in simp_all)
  have pg: "thn (setup_paging bx) (map_higher_half r10 r11) (kernel m) = Inr ((), k0)" unfolding k0_def by (rule paging_run[OF i])
  have u: "m\<lparr>kernel := k0, kernel := k\<rparr> = m\<lparr>kernel := k\<rparr>" for k by simp
  from kernel_main_run[OF s(1) ly rd, unfolded s(2), OF A k m l(1) refl refl im, of srv, unfolded s(3) u]
  show thesis by (elim exE conjE) (rule that[OF pg r(1), unfolded y_def], assumption+)
qed

text \<open>
  The pages of the tables are locked by nobody: \<open>pm_init\<close> locks the reserved memory and the image, and the tables are behind it.
\<close>

lemma image_pages_before:
  assumes i: "image_placed y bx K P" and e: "unat (LAYOUT_PADDR_END y) \<le> unat bx" "LAYOUT_PADDR_START y \<le> LAYOUT_PADDR_END y"
    and j: "K \<le> j"
  shows "j \<notin> page_range (LAYOUT_PADDR_START y) (LAYOUT_PADDR_END y - LAYOUT_PADDR_START y)"
proof -
  note k = image_placed_index[OF i]
  have K: "(unat bx + 4095) div 4096 = K" using i by (simp add: image_placed_def)
  have "unat (LAYOUT_PADDR_END y - LAYOUT_PADDR_START y) = unat (LAYOUT_PADDR_END y) - 4096 * P"
    using e(2) k(5) by (simp add: unat_sub)
  moreover have "unat (LAYOUT_PADDR_END y) \<le> 4096 * K" using e(1) K by linarith
  ultimately show ?thesis
    using j k unfolding page_range_def by (simp add: unat_PAGES)
qed

section \<open>Requests until a page\<close>

lemma least_below:
  fixes L :: "nat set"
  assumes "j \<notin> L"
  shows "(LEAST n. n \<notin> L) \<le> j" "(LEAST n. n \<notin> L) \<notin> L" "(LEAST n. n \<notin> L) = j \<longleftrightarrow> {..<j} - L = {}"
proof -
  show le: "(LEAST n. n \<notin> L) \<le> j" by (rule Least_le) (rule assms)
  show out: "(LEAST n. n \<notin> L) \<notin> L" by (rule LeastI[of "\<lambda>n. n \<notin> L"]) (rule assms)
  show "(LEAST n. n \<notin> L) = j \<longleftrightarrow> {..<j} - L = {}"
    using le out assms by (auto dest: not_less_Least intro!: Least_equality simp: not_less[symmetric])
qed

text \<open>Requests take the pages in their order, so every page that nobody has is reached.\<close>

lemma pm_frame_kpml4: "pm_frame s s' \<Longrightarrow> kpml4 s' = kpml4 s"
  by (cases s; cases s') (simp add: pm_frame_def)

lemma request_next:
  assumes s: "pm_rich (Suc n) s" and i: "i = (LEAST n. n \<notin> locked s)"
  obtains s' where "pm_request_page srv s = Inr (frame i, s')" "pm_rich n s'" "locked s' = insert i (locked s)" "pm_frame s s'"
proof -
  have ok: "pm_ok s" and c: "card (locked s) + 1 < 32768" and f: "Suc n * 4096 \<le> unat (free s)" using s by (simp_all add: pm_rich_def)
  have ff: "unat (first_free s) < 32768" "unat (first_free s) \<notin> locked s" using ok by (simp_all add: pm_ok_def)
  have le: "4096 \<le> free s" using f by (simp add: word_le_nat_alt)
  obtain k where k: "k < 32768" "k \<notin> locked s" "k \<noteq> unat (first_free s)" using another_free[OF pm_ok_shape[OF ok] c] by metis
  obtain s' where r: "pm_request_page srv s = Inr (TOPADDR 0 (first_free s), s')" "pm_ok s'"
    "locked s' = insert (unat (first_free s)) (locked s)" "used s' = used s + 4096" "free s' = free s - 4096" "pm_frame s s'"
    by (rule request_run[OF ok le k, of srv], rule that, assumption+)
  have e: "unat (first_free s) = i" unfolding i by (rule ok_first_free[OF ok])
  then have "unat (TOPADDR 0 (first_free s)) = unat (frame i)" using page_address(1)[OF ff(1)] ff(1) by (simp add: unat_frame)
  then have p: "TOPADDR 0 (first_free s) = frame i" by (simp add: word_unat_eq_iff)
  have "unat (free s') = unat (free s) - 4096" using le by (simp add: r(5) unat_sub)
  moreover have "card (locked s') \<le> Suc (card (locked s))" unfolding r(3) by (rule card_insert_le_m1) simp_all
  moreover have "n * 4096 \<le> unat (free s) - 4096" using f by simp
  ultimately have "pm_rich n s'" using r(2) s by (simp add: pm_rich_def)
  then show thesis using that[of s'] r(1,3,6) unfolding p e by blast
qed

lemma requests_reach:
  assumes "pm_rich (Suc n) s" "j \<notin> locked s" "n = card ({..<j} - locked s)"
  shows "\<exists>ps s'. request_times (Suc n) (pm_request_page srv) s = Inr (ps @ [frame j], s') \<and> length ps = n \<and> pm_frame s s'"
  using assms
proof (induction n arbitrary: s)
  case (0 s)
  then have "j = (LEAST n. n \<notin> locked s)" using least_below(3)[OF 0(2)] by simp
  from request_next[OF 0(1) this, of srv] obtain s' where "pm_request_page srv s = Inr (frame j, s')" "pm_frame s s'" by metis
  then have "request_times (Suc 0) (pm_request_page srv) s = Inr ([] @ [frame j], s') \<and> length ([] :: addr list) = 0 \<and> pm_frame s s'"
    by (simp add: bnd_Inr kern)
  then show ?case by blast
next
  case (Suc n s)
  define i where "i = (LEAST n. n \<notin> locked s)"
  have "{..<j} - locked s \<noteq> {}" using Suc(4) by (metis card.empty nat.distinct(1))
  then have i: "i \<le> j" "i \<notin> locked s" "i \<noteq> j" using least_below[OF Suc(3)] unfolding i_def by blast+
  obtain t where t: "pm_request_page srv s = Inr (frame i, t)" "pm_rich (Suc n) t" "locked t = insert i (locked s)" "pm_frame s t"
    by (rule request_next[OF Suc(2) i_def, of srv], rule that, assumption+)
  have "{..<j} - locked t = {..<j} - locked s - {i}" using t(3) by auto
  moreover have "i \<in> {..<j} - locked s" using i by simp
  ultimately have "n = card ({..<j} - locked t)" using Suc(4) by simp
  moreover have "j \<notin> locked t" using Suc(3) i t(3) by simp
  ultimately obtain ps s' where ps: "request_times (Suc n) (pm_request_page srv) t = Inr (ps @ [frame j], s')" "length ps = n" "pm_frame t s'"
    using Suc.IH[OF t(2)] by blast
  have "request_times (Suc (Suc n)) (pm_request_page srv) s = Inr ((frame i # ps) @ [frame j], s')"
    unfolding request_times.simps(2)[of "Suc n"] using t(1) ps(1) by (simp add: bnd_Inr kern del: request_times.simps)
  then show ?case using ps(2) pm_frame_trans[OF t(4) ps(3)] by (intro exI[of _ "frame i # ps"] exI[of _ s']) simp
qed


text \<open>C5: the tables are given away. \<open>pm_init\<close> locks the image of the kernel, and the tables of the boot code lie behind it, so after the
  start requests for pages return, among others, the page of the root table that the processor is using: after the \<open>n\<close> free
  pages below it, unless it happens to be reserved memory or the page that \<open>pm_init\<close> takes itself.\<close>

theorem root_table_is_given_away:
  assumes b: "bootable (kernel m) bx bootinfo segs K P a t r d"
    and e: "unat (LAYOUT_PADDR_END (sym (kernel m))) \<le> unat bx" "LAYOUT_PADDR_START (sym (kernel m)) \<le> LAYOUT_PADDR_END (sym (kernel m))"
    and A: "A = start_pages (sym (kernel m)) segs" and j: "K + 1 \<notin> reserved_pages segs" "K + 1 \<noteq> (LEAST n. n \<notin> boot_pages (sym (kernel m)) segs)"
    and n: "n = card ({..<K + 1} - A)" "card A + Suc n < 32768" "Suc n * 4096 \<le> unat (total_length segs - 4096 * of_nat (card A))"
  shows "\<exists>k0 k ps s'. thn (setup_paging bx) (map_higher_half r10 r11) (kernel m) = Inr ((), k0) \<and>
    kernel_main srv bootinfo (m\<lparr>kernel := k0\<rparr>) = kernel_main_devices srv bootinfo (m\<lparr>kernel := k\<rparr>) \<and>
    request_times (Suc n) (pm_request_page srv) k = Inr (ps @ [cr3 k0], s') \<and> length ps = n \<and>
    kpml4 s' = cr3 k0 + HIGHER_HALF (sym s')"
proof -
  obtain k0 k where k: "thn (setup_paging bx) (map_higher_half r10 r11) (kernel m) = Inr ((), k0)" "cr3 k0 = frame (K + 1)"
    "kernel_main srv bootinfo (m\<lparr>kernel := k0\<rparr>) = kernel_main_devices srv bootinfo (m\<lparr>kernel := k\<rparr>)"
    "memory_ready k (frame (K + 1)) (start_pages (sym (kernel m)) segs) (total_length segs)"
    by (rule start_run[OF b, of r10 r11 srv], rule that, assumption+)
  have i: "image_placed (sym (kernel m)) bx K P" using b by (simp add: bootable_def Let_def)
  have f: "K + 1 \<notin> A" unfolding A start_pages_def Let_def using j image_pages_before[OF i e, of "K + 1"] by (simp add: boot_pages_def)
  have r: "pm_ok k" "locked k = A" "used k = 4096 * of_nat (card A)" "used k + free k = total_length segs"
    "kpml4 k = frame (K + 1) + HIGHER_HALF (sym k)" using k(4) unfolding memory_ready_def A by blast+
  have "free k = total_length segs - 4096 * of_nat (card A)" using r(3,4) by (simp add: algebra_simps)
  then have "pm_rich (Suc n) k" using r(1,2) n(2,3) by (simp add: pm_rich_def)
  from requests_reach[OF this, of "K + 1" srv] f n(1) obtain ps s' where
    ps: "request_times (Suc n) (pm_request_page srv) k = Inr (ps @ [frame (K + 1)], s')" "length ps = n" "pm_frame k s'"
    unfolding r(2) by blast
  have "kpml4 s' = kpml4 k" "sym s' = sym k" by (rule pm_frame_kpml4[OF ps(3)], rule pm_frame_sym[OF ps(3)])
  then have "kpml4 s' = frame (K + 1) + HIGHER_HALF (sym s')" using r(5) by simp
  with ps k(2) show ?thesis
    by (intro exI[of _ k0] exI[of _ k] exI[of _ ps] exI[of _ s'] conjI) (rule k(1), rule k(3), simp_all)
qed

end
