(* ===== verification/Multiboot.thy ===== *)
theory Multiboot
  imports Paging
begin

text \<open>
  \<open>boot/multiboot2/entry.S\<close>, the constants of \<open>multiboot2.h\<close> that it uses, and the part of \<open>_stub64\<close> (\<open>boot/stub.S\<close>) that turns the
  pointers of the boot information into pointers of the higher half. The first runs with 32 bit registers and physical addresses.
  \<open>b\<close> is the address of \<open>_bootinfo\<close>, \<open>d\<close> that of \<open>_bootinfo_data\<close>.
\<close>

section \<open>The tags\<close>

definition MULTIBOOT_TAG_TYPE_END :: u32 where "MULTIBOOT_TAG_TYPE_END = 0"
definition MULTIBOOT_TAG_TYPE_CMDLINE :: u32 where "MULTIBOOT_TAG_TYPE_CMDLINE = 1"
definition MULTIBOOT_TAG_TYPE_MODULE :: u32 where "MULTIBOOT_TAG_TYPE_MODULE = 3"
definition MULTIBOOT_TAG_TYPE_MMAP :: u32 where "MULTIBOOT_TAG_TYPE_MMAP = 6"
definition MULTIBOOT_TAG_TYPE_ACPI_OLD :: u32 where "MULTIBOOT_TAG_TYPE_ACPI_OLD = 14"
definition MULTIBOOT_TAG_TYPE_ACPI_NEW :: u32 where "MULTIBOOT_TAG_TYPE_ACPI_NEW = 15"
definition MULTIBOOT_MEMORY_AVAILABLE :: u32 where "MULTIBOOT_MEMORY_AVAILABLE = 1"

text \<open>\<open>movl (a), r\<close> and \<open>movl v, (a)\<close>.\<close>

definition lw :: "memory \<Rightarrow> u32 \<Rightarrow> u32" where
  "lw m a = ld32 m (ucast a)"

definition sw :: "u32 \<Rightarrow> u32 \<Rightarrow> (memory, unit) kern" where
  "sw a v = modify (st32 (ucast a) v)"

text \<open>The loop that copies \<open>ecx\<close> bytes from \<open>edx\<close> to \<open>ebx\<close>; the result is \<open>ebx\<close>.\<close>

fun copy_text :: "nat \<Rightarrow> u32 \<Rightarrow> u32 \<Rightarrow> (memory, u32) kern" where
  "copy_text 0 dx bx = ret bx"
| "copy_text (Suc n) dx bx =
     bnd (gets (\<lambda>m. m (ucast dx))) (\<lambda>al. thn (modify (\<lambda>m. m(ucast bx := al))) (copy_text n (dx + 1) (bx + 1)))"

definition store_cmdline :: "u32 \<Rightarrow> u32 \<Rightarrow> u32 \<Rightarrow> u32 \<Rightarrow> (memory, u32) kern" where
  "store_cmdline b dx cx bx = thn (sw b bx) (copy_text (loop_times cx) dx bx)"

definition last_more :: "u32 \<Rightarrow> memory \<Rightarrow> bool" where
  "last_more ax m \<longleftrightarrow> lw m ax \<noteq> 0"

definition last_step :: "u32 \<Rightarrow> (memory, u32) kern" where
  "last_step ax = gets (\<lambda>m. lw m ax)"

definition link_module :: "u32 \<Rightarrow> u32 \<Rightarrow> (memory, unit) kern" where
  "link_module b bx =
     bnd (gets (\<lambda>m. lw m (b + 8))) (\<lambda>ax.
       if ax = 0 then sw (b + 8) bx else bnd (loop last_more last_step ax) (\<lambda>ax. sw ax bx))"

definition store_module :: "u32 \<Rightarrow> u32 \<Rightarrow> u32 \<Rightarrow> u32 \<Rightarrow> (memory, u32) kern" where
  "store_module b dx cx bx =
     thn (link_module b bx)
     (thn (sw bx 0) (thn (sw (bx + 4) 0)
     (bnd (gets (\<lambda>m. lw m dx)) (\<lambda>ax. thn (sw (bx + 8) ax) (thn (sw (bx + 12) 0)
     (bnd (gets (\<lambda>m. lw m (dx + 4))) (\<lambda>ax. thn (sw (bx + 16) ax) (thn (sw (bx + 20) 0)
     (thn (sw (bx + 24) 0)
     (let bx = bx + 32; dx = dx + 8; cx = cx - 8 in if cx = 0 then ret bx else copy_text (loop_times cx) dx bx))))))))))"

text \<open>The entries of the memory map have 24 bytes, whatever size the tag gives; the type becomes available or reserved.\<close>

fun store_segments :: "nat \<Rightarrow> u32 \<Rightarrow> u32 \<Rightarrow> (memory, u32) kern" where
  "store_segments 0 dx bx = ret bx"
| "store_segments (Suc n) dx bx =
     bnd (gets (\<lambda>m. lw m (dx + 16))) (\<lambda>ty.
     thn (sw bx (if ty = MULTIBOOT_MEMORY_AVAILABLE then 1 else 0)) (thn (sw (bx + 4) 0)
     (bnd (gets (\<lambda>m. lw m dx)) (\<lambda>ax. thn (sw (bx + 8) ax)
     (bnd (gets (\<lambda>m. lw m (dx + 4))) (\<lambda>ax. thn (sw (bx + 12) ax)
     (bnd (gets (\<lambda>m. lw m (dx + 8))) (\<lambda>ax. thn (sw (bx + 16) ax)
     (bnd (gets (\<lambda>m. lw m (dx + 12))) (\<lambda>ax. thn (sw (bx + 20) ax)
     (store_segments n (dx + 24) (bx + 24))))))))))))"

text \<open>A division by zero is an exception of the processor, for which there is no handler yet.\<close>

definition store_mem_map :: "u32 \<Rightarrow> u32 \<Rightarrow> u32 \<Rightarrow> u32 \<Rightarrow> (memory, u32) kern" where
  "store_mem_map b dx cx bx =
     bnd (gets (\<lambda>m. lw m dx)) (\<lambda>entry_size.
     if entry_size = 0 then halt Undefined
     else let n = cx div entry_size
          in thn (sw (b + 16) n) (thn (sw (b + 24) bx) (store_segments (loop_times n) (dx + 8) bx)))"

definition store_acpi :: "u32 \<Rightarrow> u32 \<Rightarrow> u32 \<Rightarrow> u32 \<Rightarrow> u32 \<Rightarrow> (memory, u32) kern" where
  "store_acpi b ty dx cx bx = thn (sw (b + 32) ty) (bnd (copy_text (loop_times cx) dx (b + 40)) (\<lambda>_. ret bx))"

definition handle_tag :: "u32 \<Rightarrow> u32 \<Rightarrow> u32 \<Rightarrow> u32 \<Rightarrow> u32 \<Rightarrow> (memory, u32) kern" where
  "handle_tag b ty dx cx bx =
     (if ty = MULTIBOOT_TAG_TYPE_CMDLINE then store_cmdline b dx cx bx
      else if ty = MULTIBOOT_TAG_TYPE_MODULE then store_module b dx cx bx
      else if ty = MULTIBOOT_TAG_TYPE_MMAP then store_mem_map b dx cx bx
      else if ty = MULTIBOOT_TAG_TYPE_ACPI_OLD then store_acpi b 1 dx cx bx
      else if ty = MULTIBOOT_TAG_TYPE_ACPI_NEW then store_acpi b 2 dx cx bx
      else ret bx)"

text \<open>The loop over the tags: \<open>edi\<close>, \<open>ebx\<close>, and whether the code has jumped to \<open>end\<close>. The comparison is signed.\<close>

fun tags_more :: "u32 \<times> u32 \<times> bool \<Rightarrow> memory \<Rightarrow> bool" where
  "tags_more (di, bx, stop) m \<longleftrightarrow> \<not> stop"

fun tags_step :: "u32 \<Rightarrow> u32 \<Rightarrow> u32 \<Rightarrow> u32 \<times> u32 \<times> bool \<Rightarrow> (memory, u32 \<times> u32 \<times> bool) kern" where
  "tags_step b start si (di, bx, stop) =
     bnd (gets (\<lambda>m. (lw m di, lw m (di + 4)))) (\<lambda>(ty, n).
     if ty = MULTIBOOT_TAG_TYPE_END then ret (di, bx, True)
     else bnd (handle_tag b ty (di + 8) (n - 8) bx) (\<lambda>bx.
          bnd (gets (\<lambda>m. di + 4 + lw m (di + 4) - 4)) (\<lambda>di.
          let di = (di + 7) AND NOT 7; bx = (bx + 7) AND NOT 7 in ret (di, bx, si \<le>s di - start))))"

definition init_bootinfo :: "u32 \<Rightarrow> u32 \<Rightarrow> u32 \<Rightarrow> (memory, u32) kern" where
  "init_bootinfo b d start =
     bnd (gets (\<lambda>m. lw m start)) (\<lambda>si.
     bnd (loop tags_more (tags_step b start si) (start + 8, d, False)) (\<lambda>(di, bx, stop). ret bx))"

section \<open>The pointers of the boot information\<close>

text \<open>
  While \<open>_stub64\<close> runs, an address of the higher half and the physical address below it are the same memory. \<open>rsi\<close> is the address of
  the next pointer to change.
\<close>

definition phys :: "addr \<Rightarrow> addr \<Rightarrow> addr" where
  "phys hh v = (if hh \<le> v then v - hh else v)"

fun pointers_more :: "addr \<times> bool \<Rightarrow> memory \<Rightarrow> bool" where
  "pointers_more (rsi, stop) m \<longleftrightarrow> \<not> stop"

fun pointers_step :: "addr \<Rightarrow> addr \<times> bool \<Rightarrow> (memory, addr \<times> bool) kern" where
  "pointers_step hh (rsi, stop) =
     bnd (gets (\<lambda>m. ld64 m (phys hh rsi))) (\<lambda>rax.
     if rax = 0 then ret (rsi, True)
     else thn (modify (st64 (phys hh rsi) (rax + hh))) (ret (rax + hh, False)))"

definition lift_pointers :: "addr \<Rightarrow> addr \<Rightarrow> (memory, unit) kern" where
  "lift_pointers hh b =
     thn (modify (\<lambda>m. st64 b (ld64 m b + hh) m))
     (thn (modify (\<lambda>m. st64 (b + 24) (ld64 m (b + 24) + hh) m))
     (bnd (loop pointers_more (pointers_step hh) (b + 8, False)) (\<lambda>_. ret ())))"

end
