(* ===== verification/Multiboot_facts.thy ===== *)
theory Multiboot_facts
  imports Multiboot
begin

text \<open>
  What \<open>init_bootinfo\<close> does with a list of tags: every tag leaves its data behind the data of the tags before it, and the fields of
  the boot information point to the data of the last tag of a kind, or to the list of all modules. Addresses are natural numbers.
\<close>

section \<open>Memory below 4 GB\<close>

definition word_at :: "memory \<Rightarrow> nat \<Rightarrow> u32" where
  "word_at m n = ld32 m (of_nat n)"

text \<open>Only the addresses in \<open>S\<close> may have changed.\<close>

definition only :: "nat set \<Rightarrow> memory \<Rightarrow> memory \<Rightarrow> bool" where
  "only S m m' \<longleftrightarrow> (\<forall>x. unat x \<notin> S \<longrightarrow> m' x = m x)"

lemma only_refl [simp]: "only S m m"
  by (simp add: only_def)

lemma only_trans: "only S m m' \<Longrightarrow> only T m' m'' \<Longrightarrow> only (S \<union> T) m m''"
  by (simp add: only_def)

lemma only_mono: "only S m m' \<Longrightarrow> S \<subseteq> T \<Longrightarrow> only T m m'"
  by (auto simp: only_def)

lemma only_byte: "only S m m' \<Longrightarrow> x \<notin> S \<Longrightarrow> x < 2 ^ 32 \<Longrightarrow> m' (of_nat x) = m (of_nat x)"
  by (simp add: only_def unat_of_nat take_bit_nat_eq_self)

lemma reg [simp]: "n < 2 ^ 32 \<Longrightarrow> (ucast (of_nat n :: u32) :: addr) = of_nat n"
  by (simp add: word_unat_eq_iff unsigned_ucast_eq unat_of_nat take_bit_nat_eq_self)

lemma unat_reg: "n < 2 ^ 32 \<Longrightarrow> unat (of_nat n :: u32) = n" "n < 2 ^ 32 \<Longrightarrow> unat (of_nat n :: addr) = n"
  by (simp_all add: unat_of_nat take_bit_nat_eq_self)

lemma within:
  fixes x :: addr
  assumes "n + k \<le> 2 ^ 32"
  shows "x - of_nat n < of_nat k \<longleftrightarrow> n \<le> unat x \<and> unat x < n + k"
proof -
  have n: "unat (of_nat n :: addr) = n" "unat (of_nat k :: addr) = k" using assms by (simp_all add: unat_of_nat take_bit_nat_eq_self)
  show ?thesis using assms unat_lt64[of x] by (auto simp: word_less_nat_alt unat_sub_if' n)
qed

lemma only_word: "n + 4 \<le> 2 ^ 32 \<Longrightarrow> only {n..<n + 4} m (st32 (of_nat n) v m)"
  using within[of n 4] by (auto simp: only_def st32_def)

lemma only_upd: "n < 2 ^ 32 \<Longrightarrow> only {n} m (m(of_nat n := c))"
  by (auto simp: only_def unat_of_nat take_bit_nat_eq_self)

lemma word_at_only:
  assumes "only S m m'" "{n..<n + 4} \<inter> S = {}" "n + 4 \<le> 2 ^ 32"
  shows "word_at m' n = word_at m n"
  unfolding word_at_def
proof (rule ld32_agree)
  fix x :: addr assume "x - of_nat n < 4"
  then have "unat x \<in> {n..<n + 4}" using within[OF assms(3), of x] by simp
  then have "unat x \<notin> S" using assms(2) by blast
  then show "m' x = m x" using assms(1) by (simp add: only_def)
qed

lemma miss: "A \<inter> S = {} \<Longrightarrow> B \<subseteq> A \<Longrightarrow> B \<inter> S = {}"
  by blast

text \<open>A store of a word, and the accesses of the code with their registers.\<close>

definition put :: "nat \<Rightarrow> u32 \<Rightarrow> memory \<Rightarrow> memory" where
  "put n v m = st32 (of_nat n) v m"

lemma only_put: "n + 4 \<le> 2 ^ 32 \<Longrightarrow> only {n..<n + 4} m (put n v m)"
  unfolding put_def by (rule only_word)

lemma only_put_more: "only S m m' \<Longrightarrow> {n..<n + 4} \<subseteq> S \<Longrightarrow> n + 4 \<le> 2 ^ 32 \<Longrightarrow> only S m (put n v m')"
  using only_trans[OF _ only_put] only_mono by blast

lemma word_at_put [simp]:
  "word_at (put n v m) n = v"
  "n + 4 \<le> 2 ^ 32 \<Longrightarrow> k + 4 \<le> 2 ^ 32 \<Longrightarrow> n + 4 \<le> k \<or> k + 4 \<le> n \<Longrightarrow> word_at (put n v m) k = word_at m k"
  by (simp add: word_at_def put_def) (rule word_at_only[OF only_put]; auto)

lemma reg_off: "n + numeral k < 2 ^ 32 \<Longrightarrow> (ucast ((of_nat n :: u32) + numeral k) :: addr) = of_nat n + numeral k"
  using reg[of "n + numeral k"] by simp

lemma lw_nat [simp]:
  "n < 2 ^ 32 \<Longrightarrow> lw m (of_nat n) = word_at m n"
  "n + numeral k < 2 ^ 32 \<Longrightarrow> lw m (of_nat n + numeral k) = word_at m (n + numeral k)"
  by (simp_all add: lw_def word_at_def reg_off)

lemma sw_nat [simp]:
  "n < 2 ^ 32 \<Longrightarrow> sw (of_nat n) v = modify (put n v)"
  "n + numeral k < 2 ^ 32 \<Longrightarrow> sw (of_nat n + numeral k) v = modify (put (n + numeral k) v)"
  by (simp_all add: sw_def put_def reg_off fun_eq_iff modify_def)

lemma apart_ranges:
  fixes a b n k :: nat
  assumes "{a..<a + n} \<inter> {b..<b + k} = {}" "0 < n" "0 < k"
  shows "a + n \<le> b \<or> b + k \<le> a"
proof (rule ccontr)
  assume "\<not> ?thesis"
  then have "max a b \<in> {a..<a + n} \<inter> {b..<b + k}" using assms(2,3) by auto
  then show False using assms(1) by blast
qed

text \<open>Sums in registers.\<close>

lemma reg_add: "(of_nat n :: u32) + numeral k = of_nat (n + numeral k)" "(of_nat n :: u32) + 1 = of_nat (n + 1)"
  by simp_all

lemma reg_diff: "k \<le> n \<Longrightarrow> (of_nat n :: u32) - of_nat k = of_nat (n - k)"
  by (simp add: of_nat_diff)

definition up8 :: "nat \<Rightarrow> nat" where
  "up8 n = (n + 7) div 8 * 8"

lemma up8_bounds: "n \<le> up8 n" "up8 n < n + 8" "up8 n mod 8 = 0"
  unfolding up8_def by presburger+

lemma reg_up8: "n + 7 < 2 ^ 32 \<Longrightarrow> ((of_nat n :: u32) + 7) AND NOT 7 = of_nat (up8 n)"
proof -
  assume n: "n + 7 < 2 ^ 32"
  then have u: "unat ((of_nat n :: u32) + 7) = n + 7" unfolding reg_add(1) by (simp add: unat_of_nat take_bit_nat_eq_self del: of_nat_add)
  have x: "x AND NOT 7 = push_bit 3 (drop_bit 3 x)" for x :: u32
  proof -
    have "(7 :: u32) = mask 3" by (simp add: mask_eq_exp_minus_1)
    moreover have "x AND NOT (mask 3) = push_bit 3 (drop_bit 3 x)" by (rule bit_word_eqI) (auto simp: bit_simps)
    ultimately show ?thesis by (simp only:)
  qed
  have "up8 n < 2 ^ 32" using n by (simp add: up8_def)
  then show ?thesis
    unfolding x word_unat_eq_iff unsigned_push_bit_eq unsigned_drop_bit_eq u unat_reg(1)[OF \<open>up8 n < 2 ^ 32\<close>] using n
    by (simp add: up8_def push_bit_eq_mult drop_bit_eq_div take_bit_nat_eq_self)
qed

section \<open>Copying\<close>

text \<open>The \<open>k\<close> bytes at \<open>y\<close> are those at \<open>p\<close> in \<open>m0\<close>.\<close>

definition bytes_copied :: "memory \<Rightarrow> memory \<Rightarrow> nat \<Rightarrow> nat \<Rightarrow> nat \<Rightarrow> bool" where
  "bytes_copied m0 m k p y \<longleftrightarrow> (\<forall>i<k. m (of_nat (y + i)) = m0 (of_nat (p + i)))"

lemma bytes_copied_before:
  assumes "bytes_copied m1 m' k p y" "only S m m1" "{p..<p + k} \<inter> S = {}" "p + k \<le> 2 ^ 32"
  shows "bytes_copied m m' k p y"
proof -
  have "m1 (of_nat (p + i)) = m (of_nat (p + i))" if "i < k" for i
    by (rule only_byte[OF assms(2)]) (use assms(3,4) that in \<open>auto simp: disjoint_iff\<close>)
  then show ?thesis using assms(1) by (simp add: bytes_copied_def)
qed

lemma copy_text_run:
  assumes "p + k \<le> 2 ^ 32" "q + k \<le> 2 ^ 32" "{p..<p + k} \<inter> {q..<q + k} = {}"
  obtains m' where "copy_text k (of_nat p) (of_nat q) m = Inr (of_nat (q + k), m')" "only {q..<q + k} m m'"
    "bytes_copied m m' k p q"
  using assms
proof (induction k arbitrary: p q m thesis)
  case 0
  then show ?case by (simp add: kern bytes_copied_def)
next
  case (Suc k)
  let ?m = "m(of_nat q := m (of_nat p))"
  have b: "(p + 1) + k \<le> 2 ^ 32" "(q + 1) + k \<le> 2 ^ 32" "{p + 1..<(p + 1) + k} \<inter> {q + 1..<(q + 1) + k} = {}" using Suc.prems(2-4) by auto
  obtain m' where m': "copy_text k (of_nat (p + 1)) (of_nat (q + 1)) ?m = Inr (of_nat ((q + 1) + k), m')" "only {q + 1..<(q + 1) + k} ?m m'"
    "bytes_copied ?m m' k (p + 1) (q + 1)"
    by (rule Suc.IH[OF _ b, where m = ?m]) (rule that, assumption+)
  have lt: "p < 2 ^ 32" "q < 2 ^ 32" using Suc.prems by simp_all
  have "copy_text (Suc k) (of_nat p) (of_nat q) m = Inr (of_nat (q + Suc k), m')"
    using m'(1) lt by (simp add: kern add.commute)
  moreover have "only {q..<q + Suc k} m m'"
    by (rule only_mono[OF only_trans[OF only_upd[OF lt(2)] m'(2)]]) auto
  moreover have "bytes_copied m m' (Suc k) p q"
    unfolding bytes_copied_def
  proof (intro allI impI)
    fix i assume i: "i < Suc k"
    show "m' (of_nat (q + i)) = m (of_nat (p + i))"
    proof (cases i)
      case 0
      have "m' (of_nat q) = ?m (of_nat q)" by (rule only_byte[OF m'(2)]) (use lt in simp_all)
      then show ?thesis using 0 by simp
    next
      case (Suc j)
      have "p + i \<noteq> q" "p + i < 2 ^ 32" using Suc.prems i by (auto simp: disjoint_iff)
      then have "?m (of_nat (p + i)) = m (of_nat (p + i))"
        by (intro only_byte[OF only_upd[OF lt(2)]]) simp_all
      then show ?thesis using m'(3) Suc i by (simp add: bytes_copied_def)
    qed
  qed
  ultimately show ?case by (rule Suc.prems(1))
qed

section \<open>The tags\<close>

text \<open>A tag: where it is, its type and its size. The list of tags at \<open>p\<close> ends with an end tag before \<open>e\<close>.\<close>

type_synonym tag = "nat \<times> u32 \<times> nat"

fun tags_at :: "memory \<Rightarrow> nat \<Rightarrow> tag list \<Rightarrow> nat \<Rightarrow> bool" where
  "tags_at m p [] e \<longleftrightarrow> word_at m p = MULTIBOOT_TAG_TYPE_END \<and> p + 8 \<le> e"
| "tags_at m p ((q, ty, n) # ts) e \<longleftrightarrow> q = p \<and> word_at m p = ty \<and> ty \<noteq> MULTIBOOT_TAG_TYPE_END \<and> word_at m (p + 4) = of_nat n \<and>
     8 \<le> n \<and> up8 (p + n) + 8 \<le> e \<and> tags_at m (up8 (p + n)) ts e"

text \<open>What the specification promises of the contents: strings have a terminator, entries of the memory map have 24 bytes, and the root
  pointers of ACPI have at most 40.\<close>

fun tag_ok :: "memory \<Rightarrow> tag \<Rightarrow> bool" where
  "tag_ok m (q, ty, n) \<longleftrightarrow>
     (ty = MULTIBOOT_TAG_TYPE_CMDLINE \<longrightarrow> 8 < n) \<and> (ty = MULTIBOOT_TAG_TYPE_MODULE \<longrightarrow> 16 \<le> n) \<and>
     (ty = MULTIBOOT_TAG_TYPE_MMAP \<longrightarrow> word_at m (q + 8) = 24 \<and> 16 < n \<and> 24 dvd n - 16) \<and>
     (ty = MULTIBOOT_TAG_TYPE_ACPI_OLD \<or> ty = MULTIBOOT_TAG_TYPE_ACPI_NEW \<longrightarrow> 8 < n \<and> n \<le> 48)"

text \<open>The size of the data that a tag leaves, and where the data of the next tag starts.\<close>

definition tag_data :: "u32 \<Rightarrow> nat \<Rightarrow> nat" where
  "tag_data ty n = (if ty = MULTIBOOT_TAG_TYPE_CMDLINE then n - 8 else if ty = MULTIBOOT_TAG_TYPE_MODULE then n - 16 + 32
     else if ty = MULTIBOOT_TAG_TYPE_MMAP then n - 16 else 0)"

fun placed :: "nat \<Rightarrow> tag list \<Rightarrow> (nat \<times> tag) list" where
  "placed y [] = []"
| "placed y ((q, ty, n) # ts) = (y, q, ty, n) # placed (up8 (y + tag_data ty n)) ts"

fun data_end :: "nat \<Rightarrow> tag list \<Rightarrow> nat" where
  "data_end y [] = y"
| "data_end y ((q, ty, n) # ts) = data_end (up8 (y + tag_data ty n)) ts"

text \<open>The data of a tag at \<open>y\<close>, except for the pointer to the next module, compared with the tag in \<open>m0\<close>.\<close>

definition segment_copied :: "memory \<Rightarrow> memory \<Rightarrow> nat \<Rightarrow> nat \<Rightarrow> bool" where
  "segment_copied m0 m p y \<longleftrightarrow> word_at m y = (if word_at m0 (p + 16) = MULTIBOOT_MEMORY_AVAILABLE then 1 else 0) \<and> word_at m (y + 4) = 0 \<and>
     word_at m (y + 8) = word_at m0 p \<and> word_at m (y + 12) = word_at m0 (p + 4) \<and>
     word_at m (y + 16) = word_at m0 (p + 8) \<and> word_at m (y + 20) = word_at m0 (p + 12)"

fun stored :: "memory \<Rightarrow> memory \<Rightarrow> nat \<times> tag \<Rightarrow> bool" where
  "stored m0 m (y, q, ty, n) \<longleftrightarrow>
     (ty = MULTIBOOT_TAG_TYPE_CMDLINE \<longrightarrow> bytes_copied m0 m (n - 8) (q + 8) y) \<and>
     (ty = MULTIBOOT_TAG_TYPE_MODULE \<longrightarrow> word_at m (y + 8) = word_at m0 (q + 8) \<and> word_at m (y + 12) = 0 \<and>
        word_at m (y + 16) = word_at m0 (q + 12) \<and> word_at m (y + 20) = 0 \<and> word_at m (y + 24) = 0 \<and>
        bytes_copied m0 m (n - 16) (q + 16) (y + 32)) \<and>
     (ty = MULTIBOOT_TAG_TYPE_MMAP \<longrightarrow> (\<forall>i<(n - 16) div 24. segment_copied m0 m (q + 16 + 24 * i) (y + 24 * i)))"

text \<open>The addresses that this depends on in \<open>m\<close>.\<close>

fun kept :: "nat \<times> tag \<Rightarrow> nat set" where
  "kept (y, q, ty, n) = (if ty = MULTIBOOT_TAG_TYPE_MODULE then {y + 8..<y + tag_data ty n} else {y..<y + tag_data ty n})"

text \<open>The list of modules from the pointer at \<open>p\<close> on.\<close>

fun linked :: "memory \<Rightarrow> nat \<Rightarrow> nat list \<Rightarrow> bool" where
  "linked m p [] \<longleftrightarrow> word_at m p = 0 \<and> word_at m (p + 4) = 0"
| "linked m p (x # xs) \<longleftrightarrow> word_at m p = of_nat x \<and> word_at m (p + 4) = 0 \<and> linked m x xs"

fun last_ptr :: "nat \<Rightarrow> nat list \<Rightarrow> nat" where
  "last_ptr p [] = p"
| "last_ptr p (x # xs) = last_ptr x xs"

lemma numbers:
  "MULTIBOOT_TAG_TYPE_END = 0" "MULTIBOOT_TAG_TYPE_CMDLINE = 1" "MULTIBOOT_TAG_TYPE_MODULE = 3" "MULTIBOOT_TAG_TYPE_MMAP = 6"
  "MULTIBOOT_TAG_TYPE_ACPI_OLD = 14" "MULTIBOOT_TAG_TYPE_ACPI_NEW = 15" "MULTIBOOT_MEMORY_AVAILABLE = 1"
  by (simp_all add: MULTIBOOT_TAG_TYPE_END_def MULTIBOOT_TAG_TYPE_CMDLINE_def MULTIBOOT_TAG_TYPE_MODULE_def MULTIBOOT_TAG_TYPE_MMAP_def
      MULTIBOOT_TAG_TYPE_ACPI_OLD_def MULTIBOOT_TAG_TYPE_ACPI_NEW_def MULTIBOOT_MEMORY_AVAILABLE_def)

lemma segment_copied_only:
  assumes "segment_copied m0 m p y" "only S m m'" "{y..<y + 24} \<inter> S = {}" "y + 24 \<le> 2 ^ 32"
  shows "segment_copied m0 m' p y"
proof -
  have "word_at m' (y + k) = word_at m (y + k)" if "k \<le> 20" for k
    by (rule word_at_only[OF assms(2) miss[OF assms(3)]]) (use assms(4) that in auto)
  from this[of 0] this[of 4] this[of 8] this[of 12] this[of 16] this[of 20] show ?thesis using assms(1) by (simp add: segment_copied_def)
qed

lemma bytes_copied_only:
  assumes "bytes_copied m0 m k p y" "only S m m'" "{y..<y + k} \<inter> S = {}" "y + k \<le> 2 ^ 32"
  shows "bytes_copied m0 m' k p y"
proof -
  have "m' (of_nat (y + i)) = m (of_nat (y + i))" if "i < k" for i
    by (rule only_byte[OF assms(2)]) (use assms(3,4) that in \<open>auto simp: disjoint_iff\<close>)
  then show ?thesis using assms(1) by (simp add: bytes_copied_def)
qed

lemma stored_only:
  assumes s: "stored m0 m t" and o: "only S m m'" and d: "kept t \<inter> S = {}" and b: "fst t + tag_data (fst (snd (snd t))) (snd (snd (snd t))) \<le> 2 ^ 32"
  shows "stored m0 m' t"
proof -
  obtain y q ty n where t: "t = (y, q, ty, n)" by (cases t)
  show ?thesis
    unfolding t stored.simps
  proof (intro conjI impI allI)
    assume c: "ty = MULTIBOOT_TAG_TYPE_CMDLINE"
    show "bytes_copied m0 m' (n - 8) (q + 8) y"
      by (rule bytes_copied_only[OF _ o miss[OF d]]) (use s b t c in \<open>auto simp: numbers tag_data_def\<close>)
  next
    fix i assume c: "ty = MULTIBOOT_TAG_TYPE_MMAP" and i: "i < (n - 16) div 24"
    then have le: "24 * i + 24 \<le> n - 16" by (simp add: less_eq_div_iff_mult_less_eq flip: Suc_le_eq)
    show "segment_copied m0 m' (q + 16 + 24 * i) (y + 24 * i)"
      by (rule segment_copied_only[OF _ o miss[OF d]]) (use s b t c i le in \<open>auto simp: numbers tag_data_def\<close>)
  next
    assume c: "ty = MULTIBOOT_TAG_TYPE_MODULE"
    have w: "word_at m' (y + k) = word_at m (y + k)" if "8 \<le> k" "k \<le> 28" for k
      by (rule word_at_only[OF o miss[OF d]]) (use b t c that in \<open>auto simp: numbers tag_data_def\<close>)
    show "word_at m' (y + 8) = word_at m0 (q + 8)" "word_at m' (y + 12) = 0" "word_at m' (y + 16) = word_at m0 (q + 12)"
      "word_at m' (y + 20) = 0" "word_at m' (y + 24) = 0" using s t c w by simp_all
    show "bytes_copied m0 m' (n - 16) (q + 16) (y + 32)"
      by (rule bytes_copied_only[OF _ o miss[OF d]]) (use s b t c in \<open>auto simp: numbers tag_data_def\<close>)
  qed
qed

section \<open>The handlers\<close>

lemma loop_times_nat: "0 < k \<Longrightarrow> k < 2 ^ 32 \<Longrightarrow> loop_times (of_nat k) = k"
  by (auto simp: loop_times_def unat_of_nat take_bit_nat_eq_self word_unat_eq_iff)

text \<open>The boot information, the tag and the place for the data do not meet.\<close>

definition spread :: "nat \<Rightarrow> nat \<Rightarrow> nat \<Rightarrow> nat \<Rightarrow> nat \<Rightarrow> bool" where
  "spread b q n y k \<longleftrightarrow> b + 80 \<le> 2 ^ 32 \<and> q + n \<le> 2 ^ 32 \<and> y + k < 2 ^ 32 \<and> {q..<q + n} \<inter> {b..<b + 80} = {} \<and>
     {q..<q + n} \<inter> {y..<y + k} = {} \<and> {b..<b + 80} \<inter> {y..<y + k} = {}"

lemma cmdline_run:
  assumes n: "8 < n" and s: "spread b q n y (n - 8)"
  obtains m' where "store_cmdline (of_nat b) (of_nat (q + 8)) (of_nat (n - 8)) (of_nat y) m = Inr (of_nat (y + (n - 8)), m')"
    "only ({b..<b + 4} \<union> {y..<y + (n - 8)}) m m'" "bytes_copied m m' (n - 8) (q + 8) y" "word_at m' b = of_nat y"
proof -
  have d: "b + 80 \<le> 2 ^ 32" "q + n \<le> 2 ^ 32" "y + (n - 8) < 2 ^ 32" "{q..<q + n} \<inter> {b..<b + 80} = {}"
    "{q..<q + n} \<inter> {y..<y + (n - 8)} = {}" "{b..<b + 80} \<inter> {y..<y + (n - 8)} = {}" using s by (simp_all add: spread_def)
  let ?m = "put b (of_nat y) m"
  have o: "only {b..<b + 4} m ?m" by (rule only_put) (use d in simp)
  obtain m' where m': "copy_text (n - 8) (of_nat (q + 8)) (of_nat y) ?m = Inr (of_nat (y + (n - 8)), m')" "only {y..<y + (n - 8)} ?m m'"
    "bytes_copied ?m m' (n - 8) (q + 8) y"
    by (rule copy_text_run[of "q + 8" "n - 8" y ?m]) (use n d in \<open>auto intro: miss\<close>)
  have "loop_times (of_nat (n - 8)) = n - 8" by (rule loop_times_nat) (use n d in simp_all)
  then have "store_cmdline (of_nat b) (of_nat (q + 8)) (of_nat (n - 8)) (of_nat y) m = Inr (of_nat (y + (n - 8)), m')"
    using m'(1) d by (simp add: store_cmdline_def)
  moreover have "bytes_copied m m' (n - 8) (q + 8) y"
    by (rule bytes_copied_before[OF m'(3) o]) (use n d in \<open>auto simp: disjoint_iff\<close>)
  moreover have "word_at m' b = of_nat y"
    using word_at_only[OF m'(2), of b] d(1) miss[OF d(6), of "{b..<b + 4}"] by simp
  ultimately show thesis using that[of m'] only_trans[OF o m'(2)] by blast
qed

lemma acpi_run:
  assumes n: "8 < n" "n \<le> 48" and s: "spread b q n y 0"
  obtains m' where "store_acpi (of_nat b) ty (of_nat (q + 8)) (of_nat (n - 8)) (of_nat y) m = Inr (of_nat y, m')"
    "only ({b + 32..<b + 80}) m m'" "bytes_copied m m' (n - 8) (q + 8) (b + 40)" "word_at m' (b + 32) = ty"
proof -
  have d: "b + 80 \<le> 2 ^ 32" "q + n \<le> 2 ^ 32" "{q..<q + n} \<inter> {b..<b + 80} = {}" using s by (simp_all add: spread_def)
  let ?m = "put (b + 32) ty m"
  have o: "only {b + 32..<b + 32 + 4} m ?m" by (rule only_put) (use d in simp)
  obtain m' where m': "copy_text (n - 8) (of_nat (q + 8)) (of_nat (b + 40)) ?m = Inr (of_nat (b + 40 + (n - 8)), m')"
    "only {b + 40..<b + 40 + (n - 8)} ?m m'" "bytes_copied ?m m' (n - 8) (q + 8) (b + 40)"
  proof (rule copy_text_run[of "q + 8" "n - 8" "b + 40" ?m])
    show "{q + 8..<q + 8 + (n - 8)} \<inter> {b + 40..<b + 40 + (n - 8)} = {}" using n d by (auto simp: disjoint_iff)
  qed (use n d in auto)
  have "loop_times (of_nat (n - 8)) = n - 8" by (rule loop_times_nat) (use n d in simp_all)
  then have "store_acpi (of_nat b) ty (of_nat (q + 8)) (of_nat (n - 8)) (of_nat y) m = Inr (of_nat y, m')"
    using m'(1) d by (simp add: store_acpi_def bnd_Inr kern)
  moreover have "bytes_copied m m' (n - 8) (q + 8) (b + 40)"
    by (rule bytes_copied_before[OF m'(3) o]) (use n d in \<open>auto simp: disjoint_iff\<close>)
  moreover have "word_at m' (b + 32) = ty" using word_at_only[OF m'(2), of "b + 32"] d(1) by simp
  moreover have "only {b + 32..<b + 80} m m'" by (rule only_mono[OF only_trans[OF o m'(2)]]) (use n in auto)
  ultimately show thesis using that[of m'] by blast
qed

text \<open>The entries of the memory map.\<close>

lemma segment_copied_before:
  assumes "segment_copied m1 m' p y" "only S m m1" "{p..<p + 24} \<inter> S = {}" "p + 24 \<le> 2 ^ 32"
  shows "segment_copied m m' p y"
proof -
  have "word_at m1 (p + k) = word_at m (p + k)" if "k \<le> 20" for k
    by (rule word_at_only[OF assms(2) miss[OF assms(3)]]) (use assms(4) that in auto)
  from this[of 0] this[of 4] this[of 8] this[of 12] this[of 16] show ?thesis using assms(1) by (simp add: segment_copied_def)
qed

definition put_segment :: "nat \<Rightarrow> nat \<Rightarrow> memory \<Rightarrow> memory" where
  "put_segment p y m = put (y + 20) (word_at m (p + 12)) (put (y + 16) (word_at m (p + 8)) (put (y + 12) (word_at m (p + 4))
    (put (y + 8) (word_at m p) (put (y + 4) 0 (put y (if word_at m (p + 16) = MULTIBOOT_MEMORY_AVAILABLE then 1 else 0) m)))))"

lemma put_segment:
  assumes "y + 24 < 2 ^ 32" "p + 24 \<le> 2 ^ 32" "p + 24 \<le> y \<or> y + 24 \<le> p"
  shows "store_segments (Suc k) (of_nat p) (of_nat y) m = store_segments k (of_nat (p + 24)) (of_nat (y + 24)) (put_segment p y m)"
    "only {y..<y + 24} m (put_segment p y m)" "segment_copied m (put_segment p y m) p y"
proof -
  from assms(3) show "store_segments (Suc k) (of_nat p) (of_nat y) m = store_segments k (of_nat (p + 24)) (of_nat (y + 24)) (put_segment p y m)"
    by (elim disjE) (use assms(1,2) in \<open>simp_all add: put_segment_def add.commute\<close>)
  show "only {y..<y + 24} m (put_segment p y m)"
    unfolding put_segment_def by (intro only_put_more only_refl) (use assms(1) in auto)
  show "segment_copied m (put_segment p y m) p y" using assms(1) by (simp add: segment_copied_def put_segment_def)
qed

lemma segments_run:
  assumes "p + 24 * k \<le> 2 ^ 32" "y + 24 * k < 2 ^ 32" "{p..<p + 24 * k} \<inter> {y..<y + 24 * k} = {}"
  obtains m' where "store_segments k (of_nat p) (of_nat y) m = Inr (of_nat (y + 24 * k), m')" "only {y..<y + 24 * k} m m'"
    "\<And>i. i < k \<Longrightarrow> segment_copied m m' (p + 24 * i) (y + 24 * i)"
  using assms
proof (induction k arbitrary: p y m thesis)
  case 0
  then show ?case by (simp add: kern)
next
  case (Suc k)
  have b: "(p + 24) + 24 * k \<le> 2 ^ 32" "(y + 24) + 24 * k < 2 ^ 32"
    "{p + 24..<(p + 24) + 24 * k} \<inter> {y + 24..<(y + 24) + 24 * k} = {}" using Suc.prems(2-4) by auto
  have ap: "p + 24 * Suc k \<le> y \<or> y + 24 * Suc k \<le> p" by (rule apart_ranges[OF Suc.prems(4)]) simp_all
  define m1 where "m1 = put_segment p y m"
  have one: "y + 24 < 2 ^ 32" "p + 24 \<le> 2 ^ 32" "p + 24 \<le> y \<or> y + 24 \<le> p" using Suc.prems(2,3) ap by auto
  note s = put_segment[OF one, where m = m, folded m1_def]
  obtain m' where m': "store_segments k (of_nat (p + 24)) (of_nat (y + 24)) m1 = Inr (of_nat ((y + 24) + 24 * k), m')"
    "only {y + 24..<(y + 24) + 24 * k} m1 m'" "\<And>i. i < k \<Longrightarrow> segment_copied m1 m' ((p + 24) + 24 * i) ((y + 24) + 24 * i)"
    by (rule Suc.IH[OF _ b, where m = m1]) (rule that, assumption+)
  have "store_segments (Suc k) (of_nat p) (of_nat y) m = Inr (of_nat (y + 24 * Suc k), m')" unfolding s(1) m'(1) by simp
  moreover have "only {y..<y + 24 * Suc k} m m'" by (rule only_mono[OF only_trans[OF s(2) m'(2)]]) auto
  moreover have "segment_copied m m' (p + 24 * i) (y + 24 * i)" if i: "i < Suc k" for i
  proof (cases i)
    case 0
    have "segment_copied m m' p y" by (rule segment_copied_only[OF s(3) m'(2)]) (use one in auto)
    then show ?thesis using 0 by simp
  next
    case (Suc j)
    have "{p + 24 * i..<p + 24 * i + 24} \<inter> {y..<y + 24} = {}" using ap i by auto
    then have "segment_copied m m' (p + 24 * i) (y + 24 * i)"
      by (intro segment_copied_before[OF _ s(2)]) (use m'(3)[of j] Suc i Suc.prems(2) in \<open>simp_all add: ac_simps\<close>)
    then show ?thesis .
  qed
  ultimately show ?case by (rule Suc.prems(1))
qed

lemma mem_map_run:
  assumes n: "16 < n" "24 dvd n - 16" "word_at m (q + 8) = 24" and s: "spread b q n y (n - 16)"
  obtains m' where "store_mem_map (of_nat b) (of_nat (q + 8)) (of_nat (n - 8)) (of_nat y) m = Inr (of_nat (y + (n - 16)), m')"
    "only ({b + 16..<b + 20} \<union> {b + 24..<b + 28} \<union> {y..<y + (n - 16)}) m m'" "\<And>i. i < (n - 16) div 24 \<Longrightarrow> segment_copied m m' (q + 16 + 24 * i) (y + 24 * i)"
    "word_at m' (b + 16) = of_nat ((n - 16) div 24)" "word_at m' (b + 24) = of_nat y"
proof -
  have d: "b + 80 \<le> 2 ^ 32" "q + n \<le> 2 ^ 32" "y + (n - 16) < 2 ^ 32" "{q..<q + n} \<inter> {b..<b + 80} = {}"
    "{q..<q + n} \<inter> {y..<y + (n - 16)} = {}" "{b..<b + 80} \<inter> {y..<y + (n - 16)} = {}" using s by (simp_all add: spread_def)
  obtain k where k: "n - 16 = 24 * k" using n(2) by blast
  then have kn: "(n - 16) div 24 = k" "0 < k" "n - 8 = 24 * k + 8" using n(1) by auto
  let ?m = "put (b + 24) (of_nat y) (put (b + 16) (of_nat k) m)"
  have o: "only ({b + 16..<b + 16 + 4} \<union> {b + 24..<b + 24 + 4}) m ?m" by (rule only_trans[OF only_put only_put]) (use d in simp_all)
  have r: "{q + 16..<q + 16 + 24 * k} \<inter> {y..<y + 24 * k} = {}" using d(5) n(1) k by auto
  obtain m' where m': "store_segments k (of_nat (q + 16)) (of_nat y) ?m = Inr (of_nat (y + 24 * k), m')" "only {y..<y + 24 * k} ?m m'"
    "\<And>i. i < k \<Longrightarrow> segment_copied ?m m' (q + 16 + 24 * i) (y + 24 * i)"
    by (rule segments_run[OF _ _ r, where m = ?m]) (use d n k that in auto)
  have "k < 2 ^ 32" using d(2) k by simp
  then have l: "loop_times (of_nat k) = k" by (rule loop_times_nat[OF kn(2)])
  have "(of_nat (n - 8) :: u32) div 24 = of_nat k"
  proof -
    have "unat ((of_nat (n - 8) :: u32) div 24) = (n - 8) div 24"
      using d(2) by (simp add: unat_div unat_of_nat take_bit_nat_eq_self)
    also have "\<dots> = k" unfolding kn(3) by simp
    finally show ?thesis using \<open>k < 2 ^ 32\<close> by (simp add: word_unat_eq_iff unat_of_nat take_bit_nat_eq_self)
  qed
  moreover have "(24 :: u32) \<noteq> 0" by (simp add: word_unat_eq_iff)
  ultimately have "store_mem_map (of_nat b) (of_nat (q + 8)) (of_nat (n - 8)) (of_nat y) m = Inr (of_nat (y + (n - 16)), m')"
    using m'(1) d n l k by (simp add: store_mem_map_def Let_def add.commute)
  moreover have "only ({b + 16..<b + 20} \<union> {b + 24..<b + 28} \<union> {y..<y + (n - 16)}) m m'"
    by (rule only_mono[OF only_trans[OF o m'(2)]]) (use k in auto)
  moreover have "segment_copied m m' (q + 16 + 24 * i) (y + 24 * i)" if i: "i < (n - 16) div 24" for i
  proof (rule segment_copied_before[OF m'(3) o])
    have le: "q + 16 + 24 * i + 24 \<le> q + n" using i kn by simp
    then show "{q + 16 + 24 * i..<q + 16 + 24 * i + 24} \<inter> ({b + 16..<b + 16 + 4} \<union> {b + 24..<b + 24 + 4}) = {}" using d(4) by (auto simp: disjoint_iff)
    show "q + 16 + 24 * i + 24 \<le> 2 ^ 32" using le d(2) by simp
  qed (use i kn in simp)
  moreover have "word_at m' (b + j) = word_at ?m (b + j)" if "j \<le> 76" for j
    by (rule word_at_only[OF m'(2) miss[OF d(6)[unfolded k]]]) (use d(1) that in auto)
  from this[of 16] this[of 24] have "word_at m' (b + 16) = of_nat ((n - 16) div 24)" "word_at m' (b + 24) = of_nat y"
    using d(1) kn(1) by simp_all
  ultimately show thesis using that[of m'] by blast
qed

text \<open>The list of modules.\<close>

lemma reg_nonzero: "0 < x \<Longrightarrow> x < 2 ^ 32 \<Longrightarrow> (of_nat x :: u32) \<noteq> 0"
  by (simp add: word_unat_eq_iff unat_of_nat take_bit_nat_eq_self)

lemma last_loop:
  assumes "linked m x xs" "x < 2 ^ 32" "\<forall>z\<in>set xs. 0 < z \<and> z < 2 ^ 32"
  shows "loop last_more last_step (of_nat x) m = Inr (of_nat (last_ptr x xs), m)"
  using assms
proof (induction xs arbitrary: x)
  case Nil
  then show ?case by (simp add: loop_stop last_more_def)
next
  case (Cons z zs)
  then have "last_more (of_nat x) m" "last_step (of_nat x) m = Inr (of_nat z, m)"
    using reg_nonzero[of z] by (simp_all add: last_more_def last_step_def kern)
  then show ?case using Cons by (simp add: loop_step)
qed

lemma link_module_run:
  assumes l: "linked m (b + 8) xs" and b: "b + 80 \<le> 2 ^ 32" and z: "\<forall>z\<in>set xs. 0 < z \<and> z < 2 ^ 32"
  shows "link_module (of_nat b) (of_nat y) m = Inr ((), put (last_ptr (b + 8) xs) (of_nat y) m)"
proof (cases xs)
  case Nil
  then show ?thesis using l b by (simp add: link_module_def kern)
next
  case (Cons x zs)
  have "last_ptr x zs < 2 ^ 32" using z unfolding Cons by (induction zs arbitrary: x) auto
  then show ?thesis
    using l b z last_loop[of m x zs] reg_nonzero[of x] unfolding Cons by (simp add: link_module_def bnd_Inr kern)
qed

definition put_module :: "nat \<Rightarrow> nat \<Rightarrow> memory \<Rightarrow> memory" where
  "put_module p y m = put (y + 24) 0 (put (y + 20) 0 (put (y + 16) (word_at m (p + 12)) (put (y + 12) 0
    (put (y + 8) (word_at m (p + 8)) (put (y + 4) 0 (put y 0 m))))))"

lemma put_module:
  assumes "y + 28 \<le> 2 ^ 32"
  shows "only {y..<y + 32} m (put_module q y m)" "word_at (put_module q y m) y = 0" "word_at (put_module q y m) (y + 4) = 0"
    "word_at (put_module q y m) (y + 8) = word_at m (q + 8)" "word_at (put_module q y m) (y + 12) = 0"
    "word_at (put_module q y m) (y + 16) = word_at m (q + 12)" "word_at (put_module q y m) (y + 20) = 0"
    "word_at (put_module q y m) (y + 24) = 0"
proof -
  show "only {y..<y + 32} m (put_module q y m)"
    unfolding put_module_def by (intro only_put_more only_refl) (use assms in auto)
qed (use assms in \<open>simp_all add: put_module_def\<close>)

lemma module_run:
  assumes n: "16 \<le> n" and s: "spread b q n y (n - 16 + 32)" and l: "linked m (b + 8) xs" and z: "\<forall>z\<in>set xs. 0 < z \<and> z < 2 ^ 32"
    and a: "{last_ptr (b + 8) xs..<last_ptr (b + 8) xs + 4} \<inter> {q..<q + n} = {}"
    "{last_ptr (b + 8) xs..<last_ptr (b + 8) xs + 4} \<inter> {y..<y + (n - 16 + 32)} = {}" "last_ptr (b + 8) xs + 4 \<le> 2 ^ 32"
  obtains m' where "store_module (of_nat b) (of_nat (q + 8)) (of_nat (n - 8)) (of_nat y) m = Inr (of_nat (y + (n - 16 + 32)), m')"
    "only ({last_ptr (b + 8) xs..<last_ptr (b + 8) xs + 4} \<union> {y..<y + (n - 16 + 32)}) m m'"
    "stored m m' (y, q, MULTIBOOT_TAG_TYPE_MODULE, n)" "word_at m' (last_ptr (b + 8) xs) = of_nat y" "word_at m' y = 0" "word_at m' (y + 4) = 0"
proof -
  define p where "p = last_ptr (b + 8) xs"
  have d: "b + 80 \<le> 2 ^ 32" "q + n \<le> 2 ^ 32" "y + (n - 16 + 32) < 2 ^ 32" "{q..<q + n} \<inter> {y..<y + (n - 16 + 32)} = {}"
    using s by (simp_all add: spread_def)
  have ap: "q + n \<le> y \<or> y + (n - 16 + 32) \<le> q" by (rule apart_ranges[OF d(4)]) (use n in simp_all)
  note a = a[folded p_def]
  define m1 where "m1 = put p (of_nat y) m"
  have o1: "only {p..<p + 4} m m1" unfolding m1_def by (rule only_put[OF a(3)])
  have w1: "word_at m1 (q + k) = word_at m (q + k)" if "k + 4 \<le> n" for k
    by (rule word_at_only[OF o1]) (use a(1) d(2) that in \<open>auto simp: disjoint_iff\<close>)
  have y28: "y + 28 \<le> 2 ^ 32" using d(3) by simp
  define m2 where "m2 = put_module q y m1"
  note h = put_module[OF y28, where m = m1 and q = q, folded m2_def]
  have link: "thn (link_module (of_nat b) (of_nat y)) k m = k m1" for k :: "(memory, u32) kern"
    unfolding m1_def p_def by (rule thn_Inr, rule link_module_run[OF l d(1) z])
  have c8: "(of_nat (n - 8) :: u32) - 8 = of_nat (n - 16)" using n by (simp add: of_nat_diff)
  have hd: "store_module (of_nat b) (of_nat (q + 8)) (of_nat (n - 8)) (of_nat y) m =
      (if (of_nat (n - 16) :: u32) = 0 then ret (of_nat (y + 32)) else copy_text (loop_times (of_nat (n - 16))) (of_nat (q + 16)) (of_nat (y + 32))) m2"
    using ap n d(2,3) unfolding store_module_def Let_def c8 m2_def put_module_def
    by (elim disjE) (simp_all add: link ac_simps)
  obtain m' where m': "store_module (of_nat b) (of_nat (q + 8)) (of_nat (n - 8)) (of_nat y) m = Inr (of_nat (y + (n - 16 + 32)), m')"
    "only {y + 32..<y + 32 + (n - 16)} m2 m'" "bytes_copied m2 m' (n - 16) (q + 16) (y + 32)"
  proof (cases "n = 16")
    case True
    then show thesis using hd by (intro that[of m2]) (simp_all add: kern bytes_copied_def)
  next
    case False
    then have k: "0 < n - 16" "n - 16 < 2 ^ 32" using n d(3) by simp_all
    have r: "{q + 16..<q + 16 + (n - 16)} \<inter> {y + 32..<y + 32 + (n - 16)} = {}" using d(4) n by (auto simp: disjoint_iff)
    obtain m' where c: "copy_text (n - 16) (of_nat (q + 16)) (of_nat (y + 32)) m2 = Inr (of_nat (y + 32 + (n - 16)), m')"
      "only {y + 32..<y + 32 + (n - 16)} m2 m'" "bytes_copied m2 m' (n - 16) (q + 16) (y + 32)"
      by (rule copy_text_run[OF _ _ r, where m = m2]) (use n d that in auto)
    have "y + 32 + (n - 16) = y + (n - 16 + 32)" by simp
    then show thesis using hd c reg_nonzero[OF k] loop_times_nat[OF k] by (intro that[of m']) simp_all
  qed
  have w: "word_at m' (y + k) = word_at m2 (y + k)" if "k \<le> 28" for k
    by (rule word_at_only[OF m'(2)]) (use that d(3) n in auto)
  have o2: "only ({p..<p + 4} \<union> {y..<y + 32}) m m2" by (rule only_trans[OF o1 h(1)])
  have "bytes_copied m m' (n - 16) (q + 16) (y + 32)"
    by (rule bytes_copied_before[OF m'(3) o2]) (use a(1) d n ap in \<open>auto simp: disjoint_iff\<close>)
  then have "stored m m' (y, q, MULTIBOOT_TAG_TYPE_MODULE, n)"
    using h(4-8) w[of 8] w[of 12] w[of 16] w[of 20] w[of 24] w1[of 8] w1[of 12] n by (simp add: numbers)
  moreover have "only ({p..<p + 4} \<union> {y..<y + (n - 16 + 32)}) m m'" by (rule only_mono[OF only_trans[OF o2 m'(2)]]) auto
  moreover have "word_at m' p = of_nat y"
  proof -
    have "word_at m' p = word_at m1 p"
      by (rule word_at_only[OF only_trans[OF h(1) m'(2)]]) (use a n in \<open>auto simp: disjoint_iff\<close>)
    then show ?thesis by (simp add: m1_def)
  qed
  ultimately show thesis using that[of m'] m'(1) h(2,3) w[of 0] w[of 4] unfolding p_def by simp
qed

end
