(* ===== verification/Multiboot_run.thy ===== *)
theory Multiboot_run
  imports Multiboot_facts
begin

text \<open>
  The loop over the tags: what holds of memory after some tags, that each tag preserves it, and the result of \<open>init_bootinfo\<close>.
\<close>

section \<open>Where the data lies\<close>

definition module_nodes :: "(nat \<times> tag) list \<Rightarrow> nat list" where
  "module_nodes ps = map fst (filter (\<lambda>(y, q, ty, n). ty = MULTIBOOT_TAG_TYPE_MODULE) ps)"

definition last_tag :: "u32 set \<Rightarrow> (nat \<times> tag) list \<Rightarrow> (nat \<times> tag) option" where
  "last_tag T ps = find (\<lambda>(y, q, ty, n). ty \<in> T) (rev ps)"

lemma module_nodes_snoc: "module_nodes (ps @ [(y, q, ty, n)]) = module_nodes ps @ (if ty = MULTIBOOT_TAG_TYPE_MODULE then [y] else [])"
  by (simp add: module_nodes_def)

lemma last_tag_snoc: "last_tag T (ps @ [(y, q, ty, n)]) = (if ty \<in> T then Some (y, q, ty, n) else last_tag T ps)"
  by (simp add: last_tag_def)

definition apart8 :: "nat \<Rightarrow> nat \<Rightarrow> bool" where
  "apart8 x x' \<longleftrightarrow> {x..<x + 8} \<inter> {x'..<x' + 8} = {}"

definition laid :: "nat \<Rightarrow> nat \<Rightarrow> (nat \<times> tag) list \<Rightarrow> bool" where
  "laid d y ps \<longleftrightarrow> (\<forall>(x, q, ty, n)\<in>set ps. d \<le> x \<and> x + tag_data ty n \<le> y) \<and> sorted_wrt apart8 (module_nodes ps) \<and>
     (\<forall>t\<in>set ps. \<forall>x\<in>set (module_nodes ps). kept t \<inter> {x..<x + 8} = {})"

lemma node_in: "x \<in> set (module_nodes ps) \<Longrightarrow> \<exists>q n. (x, q, MULTIBOOT_TAG_TYPE_MODULE, n) \<in> set ps"
  by (force simp: module_nodes_def)

lemma laid_node: "laid d y ps \<Longrightarrow> x \<in> set (module_nodes ps) \<Longrightarrow> d \<le> x \<and> x + 32 \<le> y"
  using node_in[of x ps] unfolding laid_def by (force simp: tag_data_def numbers)

lemma kept_range: "kept (x, q, ty, n) \<subseteq> {x..<x + tag_data ty n}"
  by auto

lemma laid_kept: "laid d y ps \<Longrightarrow> t \<in> set ps \<Longrightarrow> kept t \<subseteq> {d..<y}"
  using kept_range unfolding laid_def by (cases t) fastforce

lemma laid_mono: "laid d y ps \<Longrightarrow> y \<le> y' \<Longrightarrow> laid d y' ps"
  unfolding laid_def by (auto intro: order_trans)

lemma laid_snoc:
  assumes l: "laid d y ps" and d: "d \<le> y"
  shows "laid d (y + tag_data ty n) (ps @ [(y, q, ty, n)])"
proof -
  let ?t = "(y, q, ty, n)"
  have old: "kept t \<inter> {y..<y + k} = {}" if "t \<in> set ps" for t k
    using laid_kept[OF l that] by fastforce
  have new: "kept ?t \<inter> {x..<x + 8} = {}" "{x..<x + 8} \<inter> {y..<y + 8} = {}" if "x \<in> set (module_nodes ps)" for x
    using laid_node[OF l that] by auto
  have "ty = MULTIBOOT_TAG_TYPE_MODULE \<Longrightarrow> kept ?t \<inter> {y..<y + 8} = {}" by auto
  note self = this
  have "kept t \<inter> {x..<x + 8} = {}" if t: "t \<in> set (ps @ [?t])" and x: "x \<in> set (module_nodes (ps @ [?t]))" for t x
  proof -
    consider "x \<in> set (module_nodes ps)" | "ty = MULTIBOOT_TAG_TYPE_MODULE" "x = y"
      using x by (auto simp: module_nodes_snoc split: if_splits)
    then show ?thesis
    proof cases
      case 1
      then show ?thesis using t l new(1) by (cases "t = ?t") (simp_all add: laid_def del: kept.simps)
    next
      case 2
      then show ?thesis using t old self by (cases "t = ?t") (simp_all del: kept.simps)
    qed
  qed
  then have "\<forall>t\<in>set (ps @ [?t]). \<forall>x\<in>set (module_nodes (ps @ [?t])). kept t \<inter> {x..<x + 8} = {}" by blast
  moreover have "sorted_wrt apart8 (module_nodes (ps @ [?t]))"
    using l new(2) unfolding laid_def module_nodes_snoc by (simp add: sorted_wrt_append apart8_def)
  moreover have "\<forall>(x, q, ty', n')\<in>set (ps @ [?t]). d \<le> x \<and> x + tag_data ty' n' \<le> y + tag_data ty n"
    using l d unfolding laid_def by (auto intro: order_trans)
  ultimately show ?thesis unfolding laid_def by blast
qed

section \<open>The list of modules\<close>

lemma pointer_only:
  assumes "only S m m'" "{p..<p + 8} \<inter> S = {}" "p + 8 \<le> 2 ^ 32"
  shows "word_at m' p = word_at m p" "word_at m' (p + 4) = word_at m (p + 4)"
  by (rule word_at_only[OF assms(1) miss[OF assms(2)]]; use assms(3) in auto)+

lemma linked_only:
  assumes "linked m p xs" "only S m m'" "\<forall>x\<in>set (p # xs). {x..<x + 8} \<inter> S = {} \<and> x + 8 \<le> 2 ^ 32"
  shows "linked m' p xs"
  using assms(1,3)
proof (induction xs arbitrary: p)
  case Nil
  then show ?case using pointer_only[OF assms(2), of p] by simp
next
  case (Cons x xs)
  then show ?case using pointer_only[OF assms(2), of p] by simp
qed

lemma last_ptr_in: "last_ptr p xs \<in> set (p # xs)"
  by (induction xs arbitrary: p) auto

lemma linked_snoc:
  assumes "linked m p xs" "only ({last_ptr p xs..<last_ptr p xs + 4} \<union> R) m m'"
    "sorted_wrt apart8 (p # xs)" "\<forall>x\<in>set (p # xs). {x..<x + 8} \<inter> R = {} \<and> x + 8 \<le> 2 ^ 32"
    "word_at m' (last_ptr p xs) = of_nat y" "word_at m' y = 0" "word_at m' (y + 4) = 0"
  shows "linked m' p (xs @ [y])"
  using assms
proof (induction xs arbitrary: p)
  case Nil
  have "word_at m' (p + 4) = word_at m (p + 4)"
    by (rule word_at_only[OF Nil(2)]) (use Nil(4) in \<open>auto simp: disjoint_iff\<close>)
  then show ?case using Nil by simp
next
  case (Cons x xs)
  have l: "last_ptr x xs \<in> set (x # xs)" by (rule last_ptr_in)
  then have "{p..<p + 8} \<inter> {last_ptr x xs..<last_ptr x xs + 8} = {}" using Cons(4) by (auto simp: apart8_def)
  then have s: "{p..<p + 8} \<inter> ({last_ptr x xs..<last_ptr x xs + 4} \<union> R) = {}" using Cons(5) by auto
  have "word_at m' p = word_at m p" "word_at m' (p + 4) = word_at m (p + 4)"
    using pointer_only[OF Cons(3)[unfolded last_ptr.simps] s] Cons(5) by simp_all
  moreover have "linked m' x (xs @ [y])"
    by (rule Cons.IH) (use Cons in simp_all)
  ultimately show ?case using Cons(2) by simp
qed

section \<open>What holds after some tags\<close>

fun cmdline_field :: "memory \<Rightarrow> nat \<Rightarrow> (nat \<times> tag) option \<Rightarrow> bool" where
  "cmdline_field m b None \<longleftrightarrow> True"
| "cmdline_field m b (Some (y, q, ty, n)) \<longleftrightarrow> word_at m b = of_nat y"

fun mem_map_field :: "memory \<Rightarrow> nat \<Rightarrow> (nat \<times> tag) option \<Rightarrow> bool" where
  "mem_map_field m b None \<longleftrightarrow> True"
| "mem_map_field m b (Some (y, q, ty, n)) \<longleftrightarrow> word_at m (b + 16) = of_nat ((n - 16) div 24) \<and> word_at m (b + 24) = of_nat y"

fun acpi_field :: "memory \<Rightarrow> memory \<Rightarrow> nat \<Rightarrow> (nat \<times> tag) option \<Rightarrow> bool" where
  "acpi_field m0 m b None \<longleftrightarrow> True"
| "acpi_field m0 m b (Some (y, q, ty, n)) \<longleftrightarrow> n \<le> 48 \<and> word_at m (b + 32) = (if ty = MULTIBOOT_TAG_TYPE_ACPI_OLD then 1 else 2) \<and>
     bytes_copied m0 m (n - 8) (q + 8) (b + 40)"

abbreviation cmdline_tags :: "u32 set" where
  "cmdline_tags \<equiv> {MULTIBOOT_TAG_TYPE_CMDLINE}"

abbreviation mem_map_tags :: "u32 set" where
  "mem_map_tags \<equiv> {MULTIBOOT_TAG_TYPE_MMAP}"

abbreviation acpi_tags :: "u32 set" where
  "acpi_tags \<equiv> {MULTIBOOT_TAG_TYPE_ACPI_OLD, MULTIBOOT_TAG_TYPE_ACPI_NEW}"

definition handed :: "memory \<Rightarrow> memory \<Rightarrow> nat \<Rightarrow> (nat \<times> tag) list \<Rightarrow> bool" where
  "handed m0 m b ps \<longleftrightarrow> (\<forall>t\<in>set ps. stored m0 m t) \<and> linked m (b + 8) (module_nodes ps) \<and>
     cmdline_field m b (last_tag cmdline_tags ps) \<and> mem_map_field m b (last_tag mem_map_tags ps) \<and>
     acpi_field m0 m b (last_tag acpi_tags ps) \<and> word_at m (b + 4) = 0 \<and> word_at m (b + 20) = 0 \<and> word_at m (b + 28) = 0"

text \<open>The boot information, the place for the data, and the tags.\<close>

definition arranged :: "nat \<Rightarrow> nat \<Rightarrow> nat \<Rightarrow> nat \<Rightarrow> nat \<Rightarrow> bool" where
  "arranged b d lim s e \<longleftrightarrow> 0 < d \<and> d \<le> lim \<and> lim + 8 \<le> 2 ^ 32 \<and> b + 80 \<le> 2 ^ 32 \<and> e + 8 \<le> 2 ^ 32 \<and>
     {b..<b + 80} \<inter> {d..<lim} = {} \<and> {s..<e} \<inter> {b..<b + 80} = {} \<and> {s..<e} \<inter> {d..<lim} = {}"

lemma fields_only:
  assumes "only S m m'" "b + 80 \<le> 2 ^ 32"
  shows "cmdline_field m b t \<Longrightarrow> {b..<b + 4} \<inter> S = {} \<Longrightarrow> cmdline_field m' b t"
    "mem_map_field m b t \<Longrightarrow> {b + 16..<b + 28} \<inter> S = {} \<Longrightarrow> mem_map_field m' b t"
    "acpi_field m0 m b t \<Longrightarrow> {b + 32..<b + 80} \<inter> S = {} \<Longrightarrow> acpi_field m0 m' b t"
proof -
  note w = word_at_only[OF assms(1)]
  show "cmdline_field m b t \<Longrightarrow> {b..<b + 4} \<inter> S = {} \<Longrightarrow> cmdline_field m' b t"
    using w[of b] assms(2) by (cases t) auto
  show "mem_map_field m b t \<Longrightarrow> {b + 16..<b + 28} \<inter> S = {} \<Longrightarrow> mem_map_field m' b t"
    using w[OF miss, of "{b + 16..<b + 28}" "b + 16"] w[OF miss, of "{b + 16..<b + 28}" "b + 24"] assms(2) by (cases t) auto
  show "acpi_field m0 m b t \<Longrightarrow> {b + 32..<b + 80} \<inter> S = {} \<Longrightarrow> acpi_field m0 m' b t"
  proof (cases t)
    case (Some p)
    obtain y q ty n where p: "p = (y, q, ty, n)" by (cases p)
    assume a: "acpi_field m0 m b t" and S: "{b + 32..<b + 80} \<inter> S = {}"
    have "word_at m' (b + 32) = word_at m (b + 32)" by (rule w[OF miss[OF S]]) (use assms(2) in auto)
    moreover have "bytes_copied m0 m' (n - 8) (q + 8) (b + 40)"
      by (rule bytes_copied_only[OF _ assms(1) miss[OF S]]) (use a assms(2) Some p in auto)
    ultimately show ?thesis using a Some p by simp
  qed simp
qed

lemma stored_before:
  assumes "stored m m' (y, q, ty, n)" "only S m0 m" "{q..<q + n} \<inter> S = {}" "q + n \<le> 2 ^ 32" "tag_ok m0 (q, ty, n)"
  shows "stored m0 m' (y, q, ty, n)"
  unfolding stored.simps
proof (intro conjI impI allI)
  assume c: "ty = MULTIBOOT_TAG_TYPE_CMDLINE"
  show "bytes_copied m0 m' (n - 8) (q + 8) y"
    by (rule bytes_copied_before[OF _ assms(2) miss[OF assms(3)]]) (use assms(1,4,5) c in auto)
next
  fix i assume c: "ty = MULTIBOOT_TAG_TYPE_MMAP" and i: "i < (n - 16) div 24"
  then have le: "24 * i + 24 \<le> n - 16" by (simp add: less_eq_div_iff_mult_less_eq flip: Suc_le_eq)
  show "segment_copied m0 m' (q + 16 + 24 * i) (y + 24 * i)"
    by (rule segment_copied_before[OF _ assms(2) miss[OF assms(3)]]) (use assms(1,4) c i le in auto)
next
  assume c: "ty = MULTIBOOT_TAG_TYPE_MODULE"
  then have n: "16 \<le> n" using assms(5) by simp
  have w: "word_at m (q + k) = word_at m0 (q + k)" if "k + 4 \<le> n" for k
    by (rule word_at_only[OF assms(2) miss[OF assms(3)]]) (use assms(4) that in auto)
  show "word_at m' (y + 8) = word_at m0 (q + 8)" "word_at m' (y + 12) = 0" "word_at m' (y + 16) = word_at m0 (q + 12)"
    "word_at m' (y + 20) = 0" "word_at m' (y + 24) = 0" using assms(1) c w[of 8] w[of 12] n by simp_all
  show "bytes_copied m0 m' (n - 16) (q + 16) (y + 32)"
    by (rule bytes_copied_before[OF _ assms(2) miss[OF assms(3)]]) (use assms(1,4) c n in auto)
qed

text \<open>What a tag may change: fields of the boot information, and the pointer of the last module.\<close>

lemma handed_snoc:
  assumes h: "handed m0 m b ps" and a: "arranged b d lim s e" and l: "laid d y ps" "d \<le> y" "y + k \<le> lim"
    and o: "only (F \<union> {y..<y + k}) m m'" and st: "stored m0 m' (y, q, ty, n)"
    and F: "F \<subseteq> {b..<b + 80} \<union> (\<Union>x\<in>set (module_nodes ps). {x..<x + 8})"
    and li: "linked m' (b + 8) (module_nodes (ps @ [(y, q, ty, n)]))"
    and z: "F \<inter> ({b + 4..<b + 8} \<union> {b + 20..<b + 24} \<union> {b + 28..<b + 32}) = {}"
    and c: "if ty \<in> cmdline_tags then cmdline_field m' b (Some (y, q, ty, n)) else {b..<b + 4} \<inter> F = {}"
    "if ty \<in> mem_map_tags then mem_map_field m' b (Some (y, q, ty, n)) else {b + 16..<b + 28} \<inter> F = {}"
    "if ty \<in> acpi_tags then acpi_field m0 m' b (Some (y, q, ty, n)) else {b + 32..<b + 80} \<inter> F = {}"
  shows "handed m0 m' b (ps @ [(y, q, ty, n)])"
proof -
  have ar: "{b..<b + 80} \<inter> {d..<lim} = {}" "b + 80 \<le> 2 ^ 32" "lim + 8 \<le> 2 ^ 32" using a by (simp_all add: arranged_def)
  have yb: "{b..<b + 80} \<inter> {y..<y + k} = {}" using ar(1) l(2,3) by (auto simp: disjoint_iff)
  have off: "X \<inter> (F \<union> {y..<y + k}) = {}" if "X \<subseteq> {b..<b + 80}" "X \<inter> F = {}" for X using yb that by auto
  have "stored m0 m' t" if t: "t \<in> set ps" for t
  proof (rule stored_only[OF _ o])
    show "stored m0 m t" using h t by (simp add: handed_def)
    have k: "kept t \<subseteq> {d..<y}" by (rule laid_kept[OF l(1) t])
    have "kept t \<inter> {x..<x + 8} = {}" if "x \<in> set (module_nodes ps)" for x using l(1) t that by (simp add: laid_def)
    moreover have "kept t \<inter> {b..<b + 80} = {}" using k ar(1) l(2,3) by (auto simp: disjoint_iff)
    ultimately have "kept t \<inter> F = {}" using F by blast
    then show "kept t \<inter> (F \<union> {y..<y + k}) = {}" using k by fastforce
    show "fst t + tag_data (fst (snd (snd t))) (snd (snd (snd t))) \<le> 2 ^ 32"
      using l t ar(3) unfolding laid_def by (cases t) fastforce
  qed
  then have "\<forall>t\<in>set (ps @ [(y, q, ty, n)]). stored m0 m' t" using st by auto
  moreover have "word_at m' (b + j) = 0" if j: "j \<in> {4, 20, 28}" for j
  proof -
    have "word_at m' (b + j) = word_at m (b + j)"
      by (rule word_at_only[OF o off]) (use j z ar(2) in auto)
    then show ?thesis using h j by (auto simp: handed_def)
  qed
  moreover have "cmdline_field m' b (last_tag cmdline_tags (ps @ [(y, q, ty, n)]))"
    using c(1) h fields_only(1)[OF o ar(2)] off[of "{b..<b + 4}"] unfolding last_tag_snoc by (auto simp: handed_def)
  moreover have "mem_map_field m' b (last_tag mem_map_tags (ps @ [(y, q, ty, n)]))"
    using c(2) h fields_only(2)[OF o ar(2)] off[of "{b + 16..<b + 28}"] unfolding last_tag_snoc by (auto simp: handed_def)
  moreover have "acpi_field m0 m' b (last_tag acpi_tags (ps @ [(y, q, ty, n)]))"
    using c(3) h fields_only(3)[OF o ar(2)] off[of "{b + 32..<b + 80}"] unfolding last_tag_snoc by (auto simp: handed_def)
  ultimately show ?thesis using li by (simp add: handed_def)
qed

section \<open>One tag\<close>

text \<open>Each handler as a change of memory: the addresses besides the data that it writes are \<open>F\<close>.\<close>

lemma nodes_apart:
  assumes a: "arranged b d lim s e" and l: "laid d y ps" "y \<le> lim"
  shows "sorted_wrt apart8 ((b + 8) # module_nodes ps)" "\<forall>x\<in>set (module_nodes ps). 0 < x \<and> x < 2 ^ 32"
    "\<forall>x\<in>set ((b + 8) # module_nodes ps). x + 8 \<le> 2 ^ 32" "\<And>x. x \<in> set (module_nodes ps) \<Longrightarrow> {x..<x + 8} \<subseteq> {d..<y}"
    "d \<le> y \<Longrightarrow> y + k \<le> lim \<Longrightarrow> \<forall>x\<in>set ((b + 8) # module_nodes ps). {x..<x + 8} \<inter> {y..<y + k} = {}"
proof -
  have ar: "{b..<b + 80} \<inter> {d..<lim} = {}" "b + 80 \<le> 2 ^ 32" "lim + 8 \<le> 2 ^ 32" "0 < d" using a by (simp_all add: arranged_def)
  have n: "d \<le> x \<and> x + 32 \<le> y" if "x \<in> set (module_nodes ps)" for x by (rule laid_node[OF l(1) that])
  show "\<And>x. x \<in> set (module_nodes ps) \<Longrightarrow> {x..<x + 8} \<subseteq> {d..<y}" using n by fastforce
  show "\<forall>x\<in>set (module_nodes ps). 0 < x \<and> x < 2 ^ 32" "\<forall>x\<in>set ((b + 8) # module_nodes ps). x + 8 \<le> 2 ^ 32"
    using n ar l(2) by fastforce+
  show "\<forall>x\<in>set ((b + 8) # module_nodes ps). {x..<x + 8} \<inter> {y..<y + k} = {}" if d: "d \<le> y" "y + k \<le> lim"
  proof
    fix x assume x: "x \<in> set ((b + 8) # module_nodes ps)"
    show "{x..<x + 8} \<inter> {y..<y + k} = {}"
    proof (cases "x = b + 8")
      case True
      then show ?thesis using ar(1) d by (auto simp: disjoint_iff)
    next
      case False
      then have "x + 32 \<le> y" using x n by simp
      then show ?thesis by auto
    qed
  qed
  have "apart8 (b + 8) x" if "x \<in> set (module_nodes ps)" for x
    using n[OF that] ar(1) l(2) unfolding apart8_def by (auto simp: disjoint_iff)
  then show "sorted_wrt apart8 ((b + 8) # module_nodes ps)" using l(1) by (simp add: laid_def)
qed

lemma linked_keeps:
  assumes h: "linked m (b + 8) (module_nodes ps)" and a: "arranged b d lim s e" and l: "laid d y ps" "d \<le> y" "y + k \<le> lim"
    and o: "only (F \<union> {y..<y + k}) m m'" and F: "F \<subseteq> {b..<b + 8} \<union> {b + 16..<b + 80}"
  shows "linked m' (b + 8) (module_nodes ps)"
proof (rule linked_only[OF h o])
  have ar: "{b..<b + 80} \<inter> {d..<lim} = {}" using a by (simp add: arranged_def)
  have yl: "y \<le> lim" using l(3) by simp
  note n = nodes_apart[OF a l(1) yl]
  have "{x..<x + 8} \<inter> (F \<union> {y..<y + k}) = {}" if x: "x \<in> set (module_nodes ps)" for x
    using n(4)[OF x] F ar yl l(2) by (fastforce simp: disjoint_iff)
  moreover have "{b + 8..<b + 8 + 8} \<inter> (F \<union> {y..<y + k}) = {}"
    using F ar l(2,3) by (fastforce simp: disjoint_iff)
  ultimately show "\<forall>x\<in>set ((b + 8) # module_nodes ps). {x..<x + 8} \<inter> (F \<union> {y..<y + k}) = {} \<and> x + 8 \<le> 2 ^ 32"
    using n(3) by auto
qed

text \<open>The tag \<open>(q, ty, n)\<close> is next and its data goes to \<open>y\<close>; and what has to come of it.\<close>

definition tag_due :: "memory \<Rightarrow> memory \<Rightarrow> nat \<Rightarrow> nat \<Rightarrow> nat \<Rightarrow> nat \<Rightarrow> nat \<Rightarrow> (nat \<times> tag) list \<Rightarrow> nat \<Rightarrow> nat \<Rightarrow> u32 \<Rightarrow> nat \<Rightarrow> bool" where
  "tag_due m0 m b d lim s e ps y q ty n \<longleftrightarrow> handed m0 m b ps \<and> arranged b d lim s e \<and> laid d y ps \<and> d \<le> y \<and> y + tag_data ty n \<le> lim \<and>
     only ({b..<b + 80} \<union> {d..<lim}) m0 m \<and> tag_ok m0 (q, ty, n) \<and> s \<le> q \<and> q + n \<le> e \<and> 8 \<le> n"

definition tag_done :: "memory \<Rightarrow> memory \<Rightarrow> nat \<Rightarrow> nat \<Rightarrow> nat \<Rightarrow> (nat \<times> tag) list \<Rightarrow> nat \<Rightarrow> nat \<Rightarrow> u32 \<Rightarrow> nat \<Rightarrow> bool" where
  "tag_done m0 m b d lim ps y q ty n \<longleftrightarrow> (\<exists>m'.
     handle_tag (of_nat b) ty (of_nat (q + 8)) (of_nat (n - 8)) (of_nat y) m = Inr (of_nat (y + tag_data ty n), m') \<and>
     handed m0 m' b (ps @ [(y, q, ty, n)]) \<and> only ({b..<b + 80} \<union> {d..<lim}) m m')"

lemma due_facts:
  assumes "tag_due m0 m b d lim s e ps y q ty n"
  shows "handed m0 m b ps" "arranged b d lim s e" "laid d y ps" "d \<le> y" "y + tag_data ty n \<le> lim" "tag_ok m0 (q, ty, n)"
    "linked m (b + 8) (module_nodes ps)" "b + 80 \<le> 2 ^ 32" "{b..<b + 80} \<inter> {d..<lim} = {}" "q + n \<le> 2 ^ 32"
    "{q..<q + n} \<inter> ({b..<b + 80} \<union> {d..<lim}) = {}" "only ({b..<b + 80} \<union> {d..<lim}) m0 m"
    "k \<le> tag_data ty n \<Longrightarrow> spread b q n y k"
proof -
  note a = assms[unfolded tag_due_def]
  show f: "handed m0 m b ps" "arranged b d lim s e" "laid d y ps" "d \<le> y" "y + tag_data ty n \<le> lim" "tag_ok m0 (q, ty, n)"
    "only ({b..<b + 80} \<union> {d..<lim}) m0 m" using a by simp_all
  show "linked m (b + 8) (module_nodes ps)" using f(1) by (simp add: handed_def)
  have ar: "{s..<e} \<inter> {b..<b + 80} = {}" "{s..<e} \<inter> {d..<lim} = {}" "e + 8 \<le> 2 ^ 32" "lim + 8 \<le> 2 ^ 32" using f(2) by (simp_all add: arranged_def)
  show br: "b + 80 \<le> 2 ^ 32" "{b..<b + 80} \<inter> {d..<lim} = {}" using f(2) by (simp_all add: arranged_def)
  have q: "{q..<q + n} \<subseteq> {s..<e}" using a by auto
  then show qw: "{q..<q + n} \<inter> ({b..<b + 80} \<union> {d..<lim}) = {}" using ar by blast
  show qn: "q + n \<le> 2 ^ 32" using a ar(3) by simp
  show "spread b q n y k" if "k \<le> tag_data ty n"
  proof -
    have "{y..<y + k} \<subseteq> {d..<lim}" using f(4,5) that by auto
    then have "{q..<q + n} \<inter> {b..<b + 80} = {}" "{q..<q + n} \<inter> {y..<y + k} = {}" "{b..<b + 80} \<inter> {y..<y + k} = {}"
      using qw br(2) by blast+
    then show ?thesis using br(1) qn f(5) ar(4) that unfolding spread_def by linarith
  qed
qed

lemma due_word:
  assumes "tag_due m0 m b d lim s e ps y q ty n" "j + 4 \<le> n"
  shows "word_at m (q + j) = word_at m0 (q + j)"
  by (rule word_at_only[OF due_facts(12)[OF assms(1)] miss[OF due_facts(11)[OF assms(1)]]]) (use assms(2) due_facts(10)[OF assms(1)] in auto)

lemma due_done:
  assumes t: "tag_due m0 m b d lim s e ps y q ty n"
    and run: "handle_tag (of_nat b) ty (of_nat (q + 8)) (of_nat (n - 8)) (of_nat y) m = Inr (of_nat (y + tag_data ty n), m')"
    and o: "only (F \<union> {y..<y + tag_data ty n}) m m'" and st: "stored m m' (y, q, ty, n)"
    and F: "F \<subseteq> {b..<b + 80} \<union> (\<Union>x\<in>set (module_nodes ps). {x..<x + 8})"
    and li: "linked m' (b + 8) (module_nodes (ps @ [(y, q, ty, n)]))"
    and z: "F \<inter> ({b + 4..<b + 8} \<union> {b + 20..<b + 24} \<union> {b + 28..<b + 32}) = {}"
    and c: "if ty \<in> cmdline_tags then cmdline_field m' b (Some (y, q, ty, n)) else {b..<b + 4} \<inter> F = {}"
    "if ty \<in> mem_map_tags then mem_map_field m' b (Some (y, q, ty, n)) else {b + 16..<b + 28} \<inter> F = {}"
    "if ty \<in> acpi_tags then acpi_field m0 m' b (Some (y, q, ty, n)) else {b + 32..<b + 80} \<inter> F = {}"
  shows "tag_done m0 m b d lim ps y q ty n"
  unfolding tag_done_def
proof (intro exI conjI)
  note f = due_facts[OF t]
  show "handle_tag (of_nat b) ty (of_nat (q + 8)) (of_nat (n - 8)) (of_nat y) m = Inr (of_nat (y + tag_data ty n), m')" by (rule run)
  have "stored m0 m' (y, q, ty, n)" by (rule stored_before[OF st f(12,11,10,6)])
  then show "handed m0 m' b (ps @ [(y, q, ty, n)])" by (rule handed_snoc[OF f(1-5) o _ F li z c])
  have yl: "y \<le> lim" using f(5) by simp
  have "{x..<x + 8} \<subseteq> {d..<lim}" if "x \<in> set (module_nodes ps)" for x using nodes_apart(4)[OF f(2,3) yl that] yl by fastforce
  then have "F \<subseteq> {b..<b + 80} \<union> {d..<lim}" using F by blast
  moreover have "{y..<y + tag_data ty n} \<subseteq> {d..<lim}" using f(4,5) by auto
  ultimately show "only ({b..<b + 80} \<union> {d..<lim}) m m'" by (intro only_mono[OF o]) blast
qed

text \<open>Tags that are no modules write fields other than the pointer to the modules.\<close>

lemma plain_done:
  assumes t: "tag_due m0 m b d lim s e ps y q ty n" and ty: "ty \<noteq> MULTIBOOT_TAG_TYPE_MODULE"
    and run: "handle_tag (of_nat b) ty (of_nat (q + 8)) (of_nat (n - 8)) (of_nat y) m = Inr (of_nat (y + tag_data ty n), m')"
    and o: "only (F \<union> {y..<y + tag_data ty n}) m m'" and st: "stored m m' (y, q, ty, n)"
    and F: "F \<subseteq> {b..<b + 4} \<union> {b + 16..<b + 20} \<union> {b + 24..<b + 28} \<union> {b + 32..<b + 80}"
    and c: "if ty \<in> cmdline_tags then cmdline_field m' b (Some (y, q, ty, n)) else {b..<b + 4} \<inter> F = {}"
    "if ty \<in> mem_map_tags then mem_map_field m' b (Some (y, q, ty, n)) else {b + 16..<b + 28} \<inter> F = {}"
    "if ty \<in> acpi_tags then acpi_field m0 m' b (Some (y, q, ty, n)) else {b + 32..<b + 80} \<inter> F = {}"
  shows "tag_done m0 m b d lim ps y q ty n"
proof (rule due_done[OF t run o st _ _ _ c])
  note f = due_facts[OF t]
  show "F \<subseteq> {b..<b + 80} \<union> (\<Union>x\<in>set (module_nodes ps). {x..<x + 8})" using F by fastforce
  show "F \<inter> ({b + 4..<b + 8} \<union> {b + 20..<b + 24} \<union> {b + 28..<b + 32}) = {}" using F by fastforce
  have "linked m' (b + 8) (module_nodes ps)" by (rule linked_keeps[OF f(7,2-5) o]) (use F in fastforce)
  then show "linked m' (b + 8) (module_nodes (ps @ [(y, q, ty, n)]))" using ty by (simp add: module_nodes_snoc)
qed

lemma cmdline_tag:
  assumes t: "tag_due m0 m b d lim s e ps y q ty n" and ty: "ty = MULTIBOOT_TAG_TYPE_CMDLINE"
  shows "tag_done m0 m b d lim ps y q ty n"
proof -
  note f = due_facts[OF t]
  have k: "tag_data ty n = n - 8" "8 < n" using f(6) ty by (simp_all add: tag_data_def)
  obtain m' where m': "store_cmdline (of_nat b) (of_nat (q + 8)) (of_nat (n - 8)) (of_nat y) m = Inr (of_nat (y + (n - 8)), m')"
    "only ({b..<b + 4} \<union> {y..<y + (n - 8)}) m m'" "bytes_copied m m' (n - 8) (q + 8) y" "word_at m' b = of_nat y"
    by (rule cmdline_run[OF k(2) f(13), of m]) (use k that in auto)
  show ?thesis
    by (rule plain_done[OF t _ _ m'(2)[folded k(1)]]) (use m'(1,3,4) k(1) in \<open>auto simp: ty numbers handle_tag_def\<close>)
qed

lemma mem_map_tag:
  assumes t: "tag_due m0 m b d lim s e ps y q ty n" and ty: "ty = MULTIBOOT_TAG_TYPE_MMAP"
  shows "tag_done m0 m b d lim ps y q ty n"
proof -
  note f = due_facts[OF t]
  have k: "tag_data ty n = n - 16" "16 < n" "24 dvd n - 16" "word_at m0 (q + 8) = 24" using f(6) ty by (simp_all add: tag_data_def numbers)
  have e: "word_at m (q + 8) = 24" using due_word[OF t, of 8] k(2,4) by simp
  obtain m' where m': "store_mem_map (of_nat b) (of_nat (q + 8)) (of_nat (n - 8)) (of_nat y) m = Inr (of_nat (y + (n - 16)), m')"
    "only ({b + 16..<b + 20} \<union> {b + 24..<b + 28} \<union> {y..<y + (n - 16)}) m m'"
    "\<And>i. i < (n - 16) div 24 \<Longrightarrow> segment_copied m m' (q + 16 + 24 * i) (y + 24 * i)"
    "word_at m' (b + 16) = of_nat ((n - 16) div 24)" "word_at m' (b + 24) = of_nat y"
    by (rule mem_map_run[OF k(2,3) e f(13)]) (use k that in auto)
  show ?thesis
    by (rule plain_done[OF t _ _ m'(2)[folded k(1)]]) (use m'(1,3-5) k(1) in \<open>auto simp: ty numbers handle_tag_def\<close>)
qed

lemma acpi_tag:
  assumes t: "tag_due m0 m b d lim s e ps y q ty n" and ty: "ty \<in> acpi_tags"
  shows "tag_done m0 m b d lim ps y q ty n"
proof -
  note f = due_facts[OF t]
  have k: "tag_data ty n = 0" "8 < n" "n \<le> 48" using f(6) ty by (auto simp: tag_data_def numbers)
  let ?c = "if ty = MULTIBOOT_TAG_TYPE_ACPI_OLD then 1 else 2"
  obtain m' where m': "store_acpi (of_nat b) ?c (of_nat (q + 8)) (of_nat (n - 8)) (of_nat y) m = Inr (of_nat y, m')"
    "only {b + 32..<b + 80} m m'" "bytes_copied m m' (n - 8) (q + 8) (b + 40)" "word_at m' (b + 32) = ?c"
    by (rule acpi_run[OF k(2,3) f(13), of ?c m]) (use that in auto)
  have o: "only ({b + 32..<b + 80} \<union> {y..<y + tag_data ty n}) m m'" by (rule only_mono[OF m'(2)]) auto
  have "bytes_copied m0 m' (n - 8) (q + 8) (b + 40)"
    by (rule bytes_copied_before[OF m'(3) f(12) miss[OF f(11)]]) (use f(10) k in auto)
  then show ?thesis
    by (intro plain_done[OF t _ _ o]) (use ty m'(1,4) k in \<open>auto simp: numbers handle_tag_def\<close>)
qed

lemma other_tag:
  assumes t: "tag_due m0 m b d lim s e ps y q ty n"
    and ty: "ty \<notin> cmdline_tags \<union> {MULTIBOOT_TAG_TYPE_MODULE} \<union> mem_map_tags \<union> acpi_tags"
  shows "tag_done m0 m b d lim ps y q ty n"
proof (rule plain_done[OF t])
  have "tag_data ty n = 0" using ty by (auto simp: tag_data_def)
  then show "handle_tag (of_nat b) ty (of_nat (q + 8)) (of_nat (n - 8)) (of_nat y) m = Inr (of_nat (y + tag_data ty n), m)"
    using ty by (auto simp: handle_tag_def kern)
  show "only ({} \<union> {y..<y + tag_data ty n}) m m" by simp
qed (use ty in auto)

lemma module_tag:
  assumes t: "tag_due m0 m b d lim s e ps y q ty n" and ty: "ty = MULTIBOOT_TAG_TYPE_MODULE"
  shows "tag_done m0 m b d lim ps y q ty n"
proof -
  note f = due_facts[OF t]
  have k: "tag_data ty n = n - 16 + 32" "16 \<le> n" using f(6) ty by (simp_all add: tag_data_def numbers)
  define p where "p = last_ptr (b + 8) (module_nodes ps)"
  have yl: "y \<le> lim" using f(5) by simp
  note na = nodes_apart[OF f(2,3) yl]
  have p: "p \<in> set ((b + 8) # module_nodes ps)" unfolding p_def by (rule last_ptr_in)
  then have pc: "p = b + 8 \<or> p \<in> set (module_nodes ps) \<and> {p..<p + 8} \<subseteq> {d..<y}" using na(4) by auto
  have p8: "{p..<p + 4} \<subseteq> {p..<p + 8}" by auto
  have pw: "{p..<p + 4} \<subseteq> {b + 8..<b + 12} \<union> {d..<y}" using pc p8 by auto
  have bd: "{b + 8..<b + 12} \<subseteq> {b..<b + 80}" "{d..<y} \<subseteq> {d..<lim}" using yl by auto
  have pa: "{p..<p + 4} \<inter> {q..<q + n} = {}" "{p..<p + 4} \<inter> {y..<y + (n - 16 + 32)} = {}" "p + 4 \<le> 2 ^ 32"
  proof -
    show "{p..<p + 4} \<inter> {q..<q + n} = {}" using pw bd f(11) by blast
    show "{p..<p + 4} \<inter> {y..<y + (n - 16 + 32)} = {}" using na(5)[OF f(4,5)] p p8 k(1) by (metis miss)
    show "p + 4 \<le> 2 ^ 32" using na(3) p by auto
  qed
  obtain m' where m': "store_module (of_nat b) (of_nat (q + 8)) (of_nat (n - 8)) (of_nat y) m = Inr (of_nat (y + (n - 16 + 32)), m')"
    "only ({p..<p + 4} \<union> {y..<y + (n - 16 + 32)}) m m'" "stored m m' (y, q, MULTIBOOT_TAG_TYPE_MODULE, n)" "word_at m' p = of_nat y" "word_at m' y = 0"
    "word_at m' (y + 4) = 0"
    unfolding p_def by (rule module_run[OF k(2) f(13) f(7) na(2) pa[unfolded p_def]]) (use k that in auto)
  have li: "linked m' (b + 8) (module_nodes ps @ [y])"
    by (rule linked_snoc[OF f(7) m'(2)[unfolded p_def] na(1)]) (use m'(4-6) na(3) na(5)[OF f(4,5)] in \<open>simp_all add: p_def k(1)\<close>)
  have pX: "X \<inter> {p..<p + 4} = {}" if "X \<subseteq> {b..<b + 80}" "X \<inter> {b + 8..<b + 12} = {}" for X using pw bd f(9) that by blast
  show ?thesis
  proof (rule due_done[OF t _ m'(2)[folded k(1)]])
    show "{p..<p + 4} \<subseteq> {b..<b + 80} \<union> (\<Union>x\<in>set (module_nodes ps). {x..<x + 8})" using pc p8 by auto
    show "{p..<p + 4} \<inter> ({b + 4..<b + 8} \<union> {b + 20..<b + 24} \<union> {b + 28..<b + 32}) = {}"
      using pX[of "{b + 4..<b + 8}"] pX[of "{b + 20..<b + 24}"] pX[of "{b + 28..<b + 32}"] by auto
  qed (use ty k(1) m'(1,3) li pX[of "{b..<b + 4}"] pX[of "{b + 16..<b + 28}"] pX[of "{b + 32..<b + 80}"]
    in \<open>simp_all add: numbers handle_tag_def module_nodes_snoc\<close>)
qed

lemma tag_run:
  assumes "tag_due m0 m b d lim s e ps y q ty n"
  shows "tag_done m0 m b d lim ps y q ty n"
  using cmdline_tag[OF assms] module_tag[OF assms] mem_map_tag[OF assms] acpi_tag[OF assms] other_tag[OF assms] by blast

section \<open>All tags\<close>

lemma data_end_mono: "y \<le> data_end y ts"
proof (induction ts arbitrary: y)
  case (Cons t ts)
  obtain q ty n where t: "t = (q, ty, n)" by (cases t)
  have "y \<le> up8 (y + tag_data ty n)" using up8_bounds(1)[of "y + tag_data ty n"] by simp
  then show ?case using Cons[of "up8 (y + tag_data ty n)"] by (simp add: t)
qed simp

lemma before_end:
  assumes "k < j" "j < 2 ^ 31"
  shows "\<not> (of_nat j :: u32) \<le>s of_nat k"
  using assms by (simp add: word_sle_eq signed_of_nat signed_take_bit_int_eq_self)

lemma tags_step_run:
  assumes a: "arranged b d lim s e" and es: "e - s < 2 ^ 31" and h: "handed m0 m b ps" and l: "laid d y ps" "d \<le> y"
    and w: "only ({b..<b + 80} \<union> {d..<lim}) m0 m" and t: "tags_at m0 p ((q, ty, n) # ts) e" "tag_ok m0 (q, ty, n)" "s \<le> p"
    and y: "y + tag_data ty n \<le> lim"
  obtains m' where "tags_step (of_nat b) (of_nat s) (of_nat (e - s)) (of_nat p, of_nat y, False) m =
      Inr ((of_nat (up8 (p + n)), of_nat (up8 (y + tag_data ty n)), False), m')"
    "handed m0 m' b (ps @ [(y, q, ty, n)])" "only ({b..<b + 80} \<union> {d..<lim}) m0 m'"
proof -
  let ?W = "{b..<b + 80} \<union> {d..<lim}"
  have ar: "e + 8 \<le> 2 ^ 32" "lim + 8 \<le> 2 ^ 32" "{s..<e} \<inter> ?W = {}" using a by (auto simp: arranged_def)
  have tg: "q = p" "word_at m0 p = ty" "ty \<noteq> 0" "word_at m0 (p + 4) = of_nat n" "8 \<le> n" "up8 (p + n) + 8 \<le> e" using t(1) by (simp_all add: numbers)
  have pe: "p + n + 8 \<le> e" using tg(6) up8_bounds(1)[of "p + n"] by simp
  have word: "word_at m' (p + j) = word_at m0 (p + j)" if "only ?W m0 m'" "j \<le> 4" for m' j
    by (rule word_at_only[OF that(1) miss[OF ar(3)]]) (use that(2) t(3) pe tg(5) ar(1) in auto)
  have due: "tag_due m0 m b d lim s e ps y p ty n"
    unfolding tag_due_def using h a l y w t(2,3) tg(1,5) pe by simp
  from tag_run[OF due] obtain m' where
    m': "handle_tag (of_nat b) ty (of_nat (p + 8)) (of_nat (n - 8)) (of_nat y) m = Inr (of_nat (y + tag_data ty n), m')"
    "handed m0 m' b (ps @ [(y, p, ty, n)])" "only ?W m m'" unfolding tag_done_def by blast
  have w': "only ?W m0 m'" using only_trans[OF w m'(3)] by simp
  have n8: "(of_nat n :: u32) - 8 = of_nat (n - 8)" using tg(5) by (simp add: of_nat_diff)
  have rd: "lw m (of_nat p) = ty" "lw m (of_nat p + 4) = of_nat n" "lw m' (of_nat p + 4) = of_nat n"
    using word[OF w, of 0] word[OF w, of 4] word[OF w', of 4] tg(2,4) pe ar(1) by simp_all
  have di: "(of_nat p + 4 + of_nat n - 4 + 7 :: u32) AND NOT 7 = of_nat (up8 (p + n))"
    using reg_up8[of "p + n"] pe ar(1) by (simp add: algebra_simps)
  have bx: "(of_nat (y + tag_data ty n) + 7 :: u32) AND NOT 7 = of_nat (up8 (y + tag_data ty n))"
    by (rule reg_up8) (use y ar(2) in simp)
  have se: "\<not> (of_nat (e - s) :: u32) \<le>s of_nat (up8 (p + n)) - of_nat s"
  proof -
    have "s \<le> up8 (p + n)" using t(3) up8_bounds(1)[of "p + n"] by simp
    then have "(of_nat (up8 (p + n)) :: u32) - of_nat s = of_nat (up8 (p + n) - s)" by (rule reg_diff)
    moreover have "up8 (p + n) - s < e - s" using tg(6) \<open>s \<le> up8 (p + n)\<close> by simp
    ultimately show ?thesis using before_end[OF _ es] by simp
  qed
  have hd: "bnd (handle_tag (of_nat b) ty (of_nat (p + 8)) (of_nat (n - 8)) (of_nat y)) g m = g (of_nat (y + tag_data ty n)) m'"
    for g :: "u32 \<Rightarrow> (memory, u32 \<times> u32 \<times> bool) kern" by (rule bnd_Inr, rule m'(1))
  have p8: "(of_nat p + 8 :: u32) = of_nat (p + 8)" by simp
  have "tags_step (of_nat b) (of_nat s) (of_nat (e - s)) (of_nat p, of_nat y, False) m =
      Inr ((of_nat (up8 (p + n)), of_nat (up8 (y + tag_data ty n)), False), m')"
    unfolding tags_step.simps bnd_simps rd case_prod_conv numbers if_not_P[OF tg(3)] n8 p8 hd di bx Let_def ret_apply
    using se by simp
  then show thesis using m'(2) w' tg(1) by (intro that[of m']) simp_all
qed

lemma tags_run:
  assumes a: "arranged b d lim s e" "e - s < 2 ^ 31"
    and "tags_at m0 p ts e" "\<forall>t\<in>set ts. tag_ok m0 t" "s \<le> p" "handed m0 m b ps" "laid d y ps" "d \<le> y" "data_end y ts \<le> lim"
    "only ({b..<b + 80} \<union> {d..<lim}) m0 m"
  shows "\<exists>r m'. loop tags_more (tags_step (of_nat b) (of_nat s) (of_nat (e - s))) (of_nat p, of_nat y, False) m =
      Inr ((r, of_nat (data_end y ts), True), m') \<and> handed m0 m' b (ps @ placed y ts) \<and> only ({b..<b + 80} \<union> {d..<lim}) m0 m'"
  using assms(3-)
proof (induction ts arbitrary: p ps y m)
  case Nil
  have ar: "e + 8 \<le> 2 ^ 32" "{s..<e} \<inter> ({b..<b + 80} \<union> {d..<lim}) = {}" using a(1) by (auto simp: arranged_def)
  have "word_at m p = word_at m0 p"
    by (rule word_at_only[OF Nil(8) miss[OF ar(2)]]) (use Nil(1,3) ar(1) in auto)
  then have "lw m (of_nat p) = 0" using Nil(1) ar(1) by (simp add: numbers)
  then have "tags_step (of_nat b) (of_nat s) (of_nat (e - s)) (of_nat p, of_nat y, False) m = Inr ((of_nat p, of_nat y, True), m)"
    by (simp add: numbers kern)
  then have "loop tags_more (tags_step (of_nat b) (of_nat s) (of_nat (e - s))) (of_nat p, of_nat y, False) m = Inr ((of_nat p, of_nat y, True), m)"
    by (intro trans[OF loop_step loop_stop]) (simp_all del: tags_step.simps)
  then show ?case using Nil by (simp del: tags_step.simps)
next
  case (Cons t ts)
  obtain q ty n where t: "t = (q, ty, n)" by (cases t)
  let ?y = "y + tag_data ty n"
  have le: "?y \<le> up8 ?y" "up8 ?y \<le> data_end (up8 ?y) ts" by (rule up8_bounds(1), rule data_end_mono)
  have yl: "?y \<le> lim" using Cons(8) le by (simp add: t)
  obtain m' where m': "tags_step (of_nat b) (of_nat s) (of_nat (e - s)) (of_nat p, of_nat y, False) m =
      Inr ((of_nat (up8 (p + n)), of_nat (up8 ?y), False), m')"
    "handed m0 m' b (ps @ [(y, q, ty, n)])" "only ({b..<b + 80} \<union> {d..<lim}) m0 m'"
    by (rule tags_step_run[OF a Cons(5,6,7,9), of p q ty n ts]) (use Cons(2-4) t yl that in auto)
  have la: "laid d (up8 ?y) (ps @ [(y, q, ty, n)])" by (rule laid_mono[OF laid_snoc[OF Cons(6,7)] le(1)])
  have nx: "tags_at m0 (up8 (p + n)) ts e" "s \<le> up8 (p + n)" "d \<le> up8 ?y" "data_end (up8 ?y) ts \<le> lim" "\<forall>t\<in>set ts. tag_ok m0 t"
    using Cons(2-4,7,8) t le(1) up8_bounds(1)[of "p + n"] by simp_all
  from Cons.IH[OF nx(1,5,2) m'(2) la nx(3,4) m'(3)] show ?case
    using m'(1) by (subst loop_step) (simp_all add: t del: tags_step.simps)
qed

lemma init_bootinfo_run:
  assumes a: "arranged b d lim s e" "e - s < 2 ^ 31" "s \<le> e" and i: "word_at m s = of_nat (e - s)" "tags_at m (s + 8) ts e" "\<forall>t\<in>set ts. tag_ok m t"
    and z: "\<forall>j<20. word_at m (b + 4 * j) = 0" and l: "data_end d ts \<le> lim"
  obtains m' where "init_bootinfo (of_nat b) (of_nat d) (of_nat s) m = Inr (of_nat (data_end d ts), m')" "handed m m' b (placed d ts)"
    "only ({b..<b + 80} \<union> {d..<lim}) m m'"
proof -
  have "word_at m (b + 4) = 0" "word_at m (b + 8) = 0" "word_at m (b + 12) = 0" "word_at m (b + 20) = 0" "word_at m (b + 28) = 0"
    using z[rule_format, of 1] z[rule_format, of 2] z[rule_format, of 3] z[rule_format, of 5] z[rule_format, of 7] by simp_all
  then have h: "handed m m b []" by (simp add: handed_def module_nodes_def last_tag_def ac_simps)
  have "laid d d []" by (simp add: laid_def module_nodes_def)
  from tags_run[OF a(1,2) i(2,3) _ h this order_refl l] obtain r m' where
    m': "loop tags_more (tags_step (of_nat b) (of_nat s) (of_nat (e - s))) (of_nat (s + 8), of_nat d, False) m =
      Inr ((r, of_nat (data_end d ts), True), m')" "handed m m' b (placed d ts)" "only ({b..<b + 80} \<union> {d..<lim}) m m'" by auto
  have "s < 2 ^ 32" using a(1,3) by (simp add: arranged_def)
  then have "init_bootinfo (of_nat b) (of_nat d) (of_nat s) m = Inr (of_nat (data_end d ts), m')"
    using i(1) m'(1) by (simp add: init_bootinfo_def bnd_Inr kern)
  then show thesis using m'(2,3) by (rule that)
qed

end
