(* ===== verification/Handover.thy ===== *)
theory Handover
  imports Multiboot_run
begin

text \<open>
  The boot information as the kernel finds it: after \<open>init_bootinfo\<close> and the loop of \<open>_stub64\<close>, the structures of \<open>bootinfo.h\<close>, read
  through addresses of the higher half, hold what the tags say.
\<close>

section \<open>Pointers\<close>

lemma bit_ld64_words:
  "bit (ld64 m (of_nat p)) n = (if n < 32 then bit (word_at m p) n else bit (word_at m (p + 4)) (n - 32))"
proof -
  have low: "bit (word_at m k) j = (j < 32 \<and> bit (ld64 m (of_nat k)) j)" for k j
    by (auto simp: word_at_def ld32_def bit_simps)
  show ?thesis
  proof (cases "n < 32")
    case False
    define k where "k = n - 32"
    have n: "n = k + 32" using False by (simp add: k_def)
    have d: "(k + 32) div 8 = 4 + k div 8" "(k + 32) mod 8 = k mod 8" by presburger+
    have "(of_nat p :: addr) + of_nat (4 + k div 8) = of_nat (p + 4) + of_nat (k div 8)" by simp
    then have "bit (ld64 m (of_nat p)) (k + 32) = (k < 32 \<and> bit (ld64 m (of_nat (p + 4))) k)"
      unfolding bit_ld64 d by (auto simp: ac_simps)
    then show ?thesis using low[of "p + 4" k] unfolding n by simp
  qed (simp add: low)
qed

lemma ld64_words:
  assumes "word_at m p = word_at m0 q" "word_at m (p + 4) = word_at m0 (q + 4)"
  shows "ld64 m (of_nat p) = ld64 m0 (of_nat q)"
  by (rule bit_word_eqI) (simp add: bit_ld64_words assms)

lemma ld64_low: "word_at m (p + 4) = 0 \<Longrightarrow> ld64 m (of_nat p) = ucast (word_at m p)"
  by (rule bit_word_eqI) (auto simp: bit_ld64_words bit_simps dest: bit_imp_le_length)

lemma ld64_pointer: "word_at m p = of_nat x \<Longrightarrow> word_at m (p + 4) = 0 \<Longrightarrow> x < 2 ^ 32 \<Longrightarrow> ld64 m (of_nat p) = of_nat x"
  by (simp add: ld64_low)

lemma word_at_ld64: "word_at m p = ucast (ld64 m (of_nat p))"
  by (simp add: word_at_def ld32_def)

text \<open>The higher half.\<close>

abbreviation hh :: addr where
  "hh \<equiv> 0xffffffff80000000"

definition view :: "memory \<Rightarrow> memory" where
  "view m = (\<lambda>v. m (phys hh v))"

lemma unat_high: "p < 2 ^ 31 \<Longrightarrow> unat (of_nat p + hh) = p + 0xffffffff80000000"
  by (simp add: unat_word_ariths unat_of_nat take_bit_nat_eq_self)

lemma phys_high: "p < 2 ^ 31 \<Longrightarrow> phys hh (of_nat p + hh) = of_nat p"
  using unat_high[of p] by (simp add: phys_def word_le_nat_alt)

lemma phys_low: "p < 2 ^ 32 \<Longrightarrow> phys hh (of_nat p) = of_nat p"
  by (simp add: phys_def word_le_nat_alt unat_of_nat take_bit_nat_eq_self)

lemma view_byte: "p < 2 ^ 31 \<Longrightarrow> view m (of_nat p + hh) = m (of_nat p)"
  by (simp add: view_def phys_high)

lemma ld64_moved: "(\<And>i. i < 8 \<Longrightarrow> m (a + of_nat i) = m' (c + of_nat i)) \<Longrightarrow> ld64 m a = ld64 m' c"
  by (rule bit_word_eqI) (simp add: bit_ld64)

lemma view_ld64:
  assumes "p + 8 \<le> 2 ^ 31"
  shows "ld64 (view m) (of_nat p + hh) = ld64 m (of_nat p)"
proof (rule ld64_moved)
  fix i :: nat assume "i < 8"
  with assms show "view m (of_nat p + hh + of_nat i) = m (of_nat p + of_nat i)"
    using view_byte[of "p + i" m] by (simp add: ac_simps)
qed

lemma view_ld32: "p + 8 \<le> 2 ^ 31 \<Longrightarrow> ld32 (view m) (of_nat p + hh) = word_at m p"
  by (simp add: ld32_def view_ld64 word_at_ld64)

section \<open>Lifting\<close>

fun raised :: "memory \<Rightarrow> nat \<Rightarrow> nat list \<Rightarrow> bool" where
  "raised m p [] \<longleftrightarrow> ld64 m (of_nat p) = 0"
| "raised m p (x # xs) \<longleftrightarrow> ld64 m (of_nat p) = of_nat x + hh \<and> raised m x xs"

lemma only_st64: "n + 8 \<le> 2 ^ 32 \<Longrightarrow> only {n..<n + 8} m (st64 (of_nat n) v m)"
  using within[of n 8] by (auto simp: only_def st64_def)

lemma ld64_only:
  assumes "only S m m'" "{n..<n + 8} \<inter> S = {}" "n + 8 \<le> 2 ^ 32"
  shows "ld64 m' (of_nat n) = ld64 m (of_nat n)"
  using pointer_only[OF assms] by (rule ld64_words)

lemma lift_loop:
  assumes "linked m p xs" "sorted_wrt apart8 (p # xs)" "\<forall>x\<in>set (p # xs). x + 8 \<le> 2 ^ 31" "\<forall>x\<in>set xs. 0 < x" "phys hh r = of_nat p"
  shows "\<exists>r' m'. loop pointers_more (pointers_step hh) (r, False) m = Inr ((r', True), m') \<and> raised m' p xs \<and>
    only (\<Union>x\<in>set (p # xs). {x..<x + 8}) m m'"
  using assms
proof (induction xs arbitrary: p r m)
  case Nil
  then have z: "ld64 m (of_nat p) = 0" using ld64_pointer[of m p 0] by simp
  then have "pointers_step hh (r, False) m = Inr ((r, True), m)" using Nil(5) by (simp add: kern)
  then have "loop pointers_more (pointers_step hh) (r, False) m = Inr ((r, True), m)"
    by (intro trans[OF loop_step loop_stop]) (simp_all del: pointers_step.simps)
  then show ?case using z by (intro exI conjI) (assumption, simp_all)
next
  case (Cons x xs)
  let ?m = "st64 (of_nat p) (of_nat x + hh) m"
  have x: "0 < x" "x + 8 \<le> 2 ^ 31" "p + 8 \<le> 2 ^ 31" using Cons(4,5) by auto
  have l: "ld64 m (of_nat p) = of_nat x" using Cons(2) x by (intro ld64_pointer) simp_all
  have nz: "(of_nat x :: addr) \<noteq> 0" using x by (simp add: word_unat_eq_iff unat_of_nat take_bit_nat_eq_self)
  have o: "only {p..<p + 8} m ?m" by (rule only_st64) (use x in simp)
  have step: "pointers_step hh (r, False) m = Inr ((of_nat x + hh, False), ?m)"
    using Cons(6) l nz by (simp add: kern)
  have ap: "\<forall>y\<in>set (x # xs). {y..<y + 8} \<inter> {p..<p + 8} = {}" using Cons(3) by (auto simp: apart8_def)
  have "linked ?m x xs" by (rule linked_only[OF _ o]) (use Cons(2,4) ap in auto)
  moreover have "phys hh (of_nat x + hh) = of_nat x" by (rule phys_high) (use x in simp)
  ultimately obtain r' m' where m': "loop pointers_more (pointers_step hh) (of_nat x + hh, False) ?m = Inr ((r', True), m')" "raised m' x xs"
    "only (\<Union>y\<in>set (x # xs). {y..<y + 8}) ?m m'"
    using Cons.IH[of ?m x "of_nat x + hh"] Cons(3-5) by auto
  have "ld64 m' (of_nat p) = ld64 ?m (of_nat p)" by (rule ld64_only[OF m'(3)]) (use ap x in auto)
  then have "raised m' p (x # xs)" using m'(2) by simp
  moreover have "loop pointers_more (pointers_step hh) (r, False) m = Inr ((r', True), m')"
    by (rule trans[OF loop_step m'(1)], simp, rule step)
  moreover have "only (\<Union>y\<in>set (p # x # xs). {y..<y + 8}) m m'" using only_trans[OF o m'(3)] by simp
  ultimately show ?case by blast
qed

lemma laid_placed: "laid d y ps \<Longrightarrow> d \<le> y \<Longrightarrow> laid d (data_end y ts) (ps @ placed y ts)"
proof (induction ts arbitrary: y ps)
  case (Cons t ts)
  obtain q ty n where t: "t = (q, ty, n)" by (cases t)
  let ?y = "y + tag_data ty n"
  have le: "?y \<le> up8 ?y" by (rule up8_bounds(1))
  have "laid d (up8 ?y) (ps @ [(y, q, ty, n)])" by (rule laid_mono[OF laid_snoc[OF Cons(2,3)] le])
  then show ?case using Cons.IH[of "up8 ?y" "ps @ [(y, q, ty, n)]"] Cons(3) le by (simp add: t)
qed simp

lemma lift_run:
  assumes h: "handed m0 m b ps" and a: "arranged b d lim s e" and l: "laid d y ps" "y \<le> lim" and hi: "lim + 8 \<le> 2 ^ 31" "b + 80 \<le> 2 ^ 31"
  obtains m' where "lift_pointers hh (of_nat b) m = Inr ((), m')" "raised m' (b + 8) (module_nodes ps)" "\<forall>t\<in>set ps. stored m0 m' t"
    "ld64 m' (of_nat b) = ld64 m (of_nat b) + hh" "ld64 m' (of_nat (b + 24)) = ld64 m (of_nat (b + 24)) + hh"
    "only ({b..<b + 16} \<union> {b + 24..<b + 32} \<union> {d..<lim}) m m'"
proof -
  have ar: "{b..<b + 80} \<inter> {d..<lim} = {}" "b + 80 \<le> 2 ^ 32" "lim + 8 \<le> 2 ^ 32" using a by (simp_all add: arranged_def)
  note na = nodes_apart[OF a l]
  let ?N = "\<Union>x\<in>set ((b + 8) # module_nodes ps). {x..<x + 8}"
  define m1 where "m1 = st64 (of_nat b) (ld64 m (of_nat b) + hh) m"
  define m2 where "m2 = st64 (of_nat (b + 24)) (ld64 m1 (of_nat (b + 24)) + hh) m1"
  have o1: "only {b..<b + 8} m m1" and o2: "only {b + 24..<b + 24 + 8} m1 m2" unfolding m1_def m2_def by (rule only_st64, use ar in simp)+
  note o12 = only_trans[OF o1 o2]
  have nb: "{x..<x + 8} \<inter> {b..<b + 80} = {}" if "x \<in> set (module_nodes ps)" for x using na(4)[OF that] ar(1) l(2) by fastforce
  have n12: "{x..<x + 8} \<inter> ({b..<b + 8} \<union> {b + 24..<b + 24 + 8}) = {}" if x: "x \<in> set ((b + 8) # module_nodes ps)" for x
  proof (cases "x = b + 8")
    case False
    then have "{x..<x + 8} \<inter> {b..<b + 80} = {}" using x nb by simp
    then show ?thesis by auto
  qed auto
  have "linked m2 (b + 8) (module_nodes ps)" by (rule linked_only[OF _ o12]) (use h n12 na(3) in \<open>auto simp: handed_def\<close>)
  moreover have "\<forall>x\<in>set ((b + 8) # module_nodes ps). x + 8 \<le> 2 ^ 31"
    using laid_node[OF l(1)] l(2) hi by fastforce
  moreover have "phys hh (of_nat b + 8) = of_nat (b + 8)" using phys_low[of "b + 8"] ar(2) by simp
  ultimately obtain r m' where m': "loop pointers_more (pointers_step hh) (of_nat b + 8, False) m2 = Inr ((r, True), m')"
    "raised m' (b + 8) (module_nodes ps)" "only ?N m2 m'"
    using lift_loop[of m2 "b + 8" "module_nodes ps" "of_nat b + 8"] na(1,2) by blast
  note o = only_trans[OF o12 m'(3)]
  have run: "lift_pointers hh (of_nat b) m = Inr ((), m')"
    using m'(1) by (simp add: lift_pointers_def bnd_Inr kern m1_def m2_def)
  have fld: "ld64 m' (of_nat (b + j)) = ld64 m2 (of_nat (b + j))" if j: "j = 0 \<or> j = 24" for j
  proof (rule ld64_only[OF m'(3)])
    show "{b + j..<b + j + 8} \<inter> ?N = {}" using j nb by (fastforce simp: disjoint_iff)
    show "b + j + 8 \<le> 2 ^ 32" using ar(2) j by auto
  qed
  have "stored m0 m' t" if t: "t \<in> set ps" for t
  proof (rule stored_only[OF _ o])
    show "stored m0 m t" using h t by (simp add: handed_def)
    have "kept t \<subseteq> {d..<lim}" using laid_kept[OF l(1) t] l(2) by fastforce
    then have "kept t \<inter> {b..<b + 80} = {}" using ar(1) by blast
    moreover have "kept t \<inter> {x..<x + 8} = {}" if "x \<in> set (module_nodes ps)" for x using l(1) t that by (simp add: laid_def)
    moreover have "{b..<b + 8} \<union> {b + 24..<b + 24 + 8} \<union> {b + 8..<b + 8 + 8} \<subseteq> {b..<b + 80}" by auto
    ultimately show "kept t \<inter> ({b..<b + 8} \<union> {b + 24..<b + 24 + 8} \<union> ?N) = {}" by fastforce
    show "fst t + tag_data (fst (snd (snd t))) (snd (snd (snd t))) \<le> 2 ^ 32" using l t ar(3) unfolding laid_def by (cases t) fastforce
  qed
  moreover have "ld64 m1 (of_nat (b + 24)) = ld64 m (of_nat (b + 24))" by (rule ld64_only[OF o1]) (use ar in auto)
  moreover have "ld64 m2 (of_nat b) = ld64 m1 (of_nat b)" by (rule ld64_only[OF o2]) (use ar in auto)
  moreover have "only ({b..<b + 16} \<union> {b + 24..<b + 32} \<union> {d..<lim}) m m'"
  proof (rule only_mono[OF o])
    have "{x..<x + 8} \<subseteq> {d..<lim}" if "x \<in> set (module_nodes ps)" for x using na(4)[OF that] l(2) by fastforce
    then show "{b..<b + 8} \<union> {b + 24..<b + 24 + 8} \<union> ?N \<subseteq> {b..<b + 16} \<union> {b + 24..<b + 32} \<union> {d..<lim}" by fastforce
  qed
  ultimately show thesis using that[OF run m'(2)] fld[of 0] fld[of 24] by (simp add: m1_def m2_def)
qed

section \<open>What the kernel reads\<close>

text \<open>The list of modules as \<open>kernel_parse_bootinfo\<close> follows it. The command line of every module is empty.\<close>

fun c_modules :: "memory \<Rightarrow> addr \<Rightarrow> (u64 \<times> u64) list \<Rightarrow> bool" where
  "c_modules v p [] \<longleftrightarrow> p = 0"
| "c_modules v p ((a, z) # ms) \<longleftrightarrow> p \<noteq> 0 \<and> ld64 v (p + 8) = a \<and> ld64 v (p + 16) = z \<and> v (p + 24) = 0 \<and> c_modules v (ld64 v p) ms"

definition modules_in :: "memory \<Rightarrow> tag list \<Rightarrow> (u64 \<times> u64) list" where
  "modules_in m ts = map (\<lambda>(q, ty, n). (ucast (word_at m (q + 8)), ucast (word_at m (q + 12))))
     (filter (\<lambda>(q, ty, n). ty = MULTIBOOT_TAG_TYPE_MODULE) ts)"

definition entry_in :: "memory \<Rightarrow> nat \<Rightarrow> segment" where
  "entry_in m p = (if word_at m (p + 16) = MULTIBOOT_MEMORY_AVAILABLE then 1 else 0, ld64 m (of_nat p), ld64 m (of_nat (p + 8)))"

fun segments_in :: "memory \<Rightarrow> tag \<Rightarrow> segment list" where
  "segments_in m (q, ty, n) = map (\<lambda>i. entry_in m (q + 16 + 24 * i)) [0..<(n - 16) div 24]"

definition tag_in :: "u32 set \<Rightarrow> tag list \<Rightarrow> tag option" where
  "tag_in T ts = find (\<lambda>(q, ty, n). ty \<in> T) (rev ts)"

lemma placed_tags: "map snd (placed y ts) = ts"
  by (induction y ts rule: placed.induct) simp_all

lemma find_snd: "find P (map snd xs) = map_option snd (find (\<lambda>x. P (snd x)) xs)"
  by (induction xs) auto

lemma find_in: "find P xs = Some x \<Longrightarrow> x \<in> set xs \<and> P x"
  by (induction xs) (auto split: if_splits)

lemma tag_in_placed: "tag_in T ts = Some t \<Longrightarrow> \<exists>y'. last_tag T (placed y ts) = Some (y', t) \<and> (y', t) \<in> set (placed y ts)"
proof -
  assume a: "tag_in T ts = Some t"
  have "tag_in T ts = map_option snd (last_tag T (placed y ts))"
    using find_snd[of "\<lambda>(q, ty, n). ty \<in> T" "rev (placed y ts)"]
    by (simp add: tag_in_def last_tag_def rev_map[symmetric] placed_tags case_prod_unfold)
  then have "map_option snd (last_tag T (placed y ts)) = Some t" using a by simp
  then obtain p where p: "last_tag T (placed y ts) = Some p" "snd p = t" by (rule map_option_eq_Some[THEN iffD1, THEN exE]) blast
  then have "p \<in> set (placed y ts)" using find_in[of _ "rev (placed y ts)" p] by (simp add: last_tag_def)
  then show ?thesis using p by (intro exI[of _ "fst p"]) auto
qed

lemma modules_view:
  assumes "raised m' p (module_nodes ps)" "\<forall>t\<in>set ps. stored m0 m' t" "\<forall>(x, q, ty, n)\<in>set ps. x + tag_data ty n \<le> 2 ^ 31"
  shows "c_modules (view m') (ld64 m' (of_nat p)) (modules_in m0 (map snd ps))"
  using assms
proof (induction ps arbitrary: p)
  case Nil
  then show ?case by (simp add: module_nodes_def modules_in_def)
next
  case (Cons t ps)
  obtain x q ty n where t: "t = (x, q, ty, n)" by (cases t)
  show ?case
  proof (cases "ty = MULTIBOOT_TAG_TYPE_MODULE")
    case False
    then show ?thesis using Cons by (simp add: t module_nodes_def modules_in_def)
  next
    case True
    have x: "x + 32 \<le> 2 ^ 31" using Cons(4) True by (simp add: t tag_data_def numbers)
    have st: "word_at m' (x + 8) = word_at m0 (q + 8)" "word_at m' (x + 12) = 0" "word_at m' (x + 16) = word_at m0 (q + 12)"
      "word_at m' (x + 20) = 0" "word_at m' (x + 24) = 0" using Cons(3) True by (simp_all add: t)
    have r: "ld64 m' (of_nat p) = of_nat x + hh" "raised m' x (module_nodes ps)" using Cons(2) True by (simp_all add: t module_nodes_def)
    have "unat (of_nat x + hh) \<noteq> 0" using unat_high[of x] x by simp
    then have "of_nat x + hh \<noteq> 0" by auto
    moreover have "ld64 (view m') (of_nat x + hh + 8) = ucast (word_at m0 (q + 8))"
      using view_ld64[of "x + 8" m'] ld64_low[of m' "x + 8"] st(1,2) x by (simp add: ac_simps)
    moreover have "ld64 (view m') (of_nat x + hh + 16) = ucast (word_at m0 (q + 12))"
      using view_ld64[of "x + 16" m'] ld64_low[of m' "x + 16"] st(3,4) x by (simp add: ac_simps)
    moreover have "view m' (of_nat x + hh + 24) = 0"
    proof -
      have "m' (of_nat (x + 24)) = ucast (word_at m' (x + 24))"
        by (rule bit_word_eqI) (auto simp: word_at_def ld32_def bit_simps bit_ld64)
      then show ?thesis using view_byte[of "x + 24" m'] st(5) x by (simp add: ac_simps)
    qed
    moreover have "c_modules (view m') (ld64 m' (of_nat x)) (modules_in m0 (map snd ps))"
      by (rule Cons.IH[OF r(2)]) (use Cons(3,4) in auto)
    moreover have "ld64 (view m') (of_nat x + hh) = ld64 m' (of_nat x)" by (rule view_ld64) (use x in simp)
    ultimately show ?thesis using r(1) True by (simp add: t modules_in_def)
  qed
qed

lemma segment_view:
  assumes "segment_copied m0 m' p y" "y + 24 \<le> 2 ^ 31"
  shows "(segment_type (view m') (of_nat y + hh), segment_addr (view m') (of_nat y + hh), segment_length (view m') (of_nat y + hh)) = entry_in m0 p"
proof -
  have c: "word_at m' y = (if word_at m0 (p + 16) = MULTIBOOT_MEMORY_AVAILABLE then 1 else 0)"
    "word_at m' (y + 8) = word_at m0 p" "word_at m' (y + 8 + 4) = word_at m0 (p + 4)"
    "word_at m' (y + 16) = word_at m0 (p + 8)" "word_at m' (y + 16 + 4) = word_at m0 (p + 8 + 4)"
    using assms(1) by (simp_all add: segment_copied_def ac_simps)
  have "ld64 (view m') (of_nat y + hh + 8) = ld64 m0 (of_nat p)" "ld64 (view m') (of_nat y + hh + 16) = ld64 m0 (of_nat (p + 8))"
    using view_ld64[of "y + 8" m'] view_ld64[of "y + 16" m'] ld64_words[OF c(2,3)] ld64_words[OF c(4,5)] assms(2) by (simp_all add: ac_simps)
  then show ?thesis
    using view_ld32[of y m'] assms(2) c(1) by (simp add: segment_type_def segment_addr_def segment_length_def entry_in_def)
qed

section \<open>The boot information\<close>

text \<open>What the specification of Multiboot2 and the linker promise: the information at \<open>s\<close> with its tags, memory for the data, and
  \<open>_bootinfo\<close> filled with zeros, all in the first two gigabytes.\<close>

definition multiboot_info :: "memory \<Rightarrow> nat \<Rightarrow> nat \<Rightarrow> nat \<Rightarrow> nat \<Rightarrow> tag list \<Rightarrow> bool" where
  "multiboot_info m b d lim s ts \<longleftrightarrow> (let n = unat (word_at m s) in
     arranged b d lim s (s + n) \<and> lim + 8 \<le> 2 ^ 31 \<and> b + 80 \<le> 2 ^ 31 \<and> n < 2 ^ 31 \<and> data_end d ts \<le> lim \<and>
     tags_at m (s + 8) ts (s + n) \<and> list_all (tag_ok m) ts \<and> list_all (\<lambda>j. word_at m (b + 4 * j) = 0) [0..<20])"

text \<open>The structures of \<open>bootinfo.h\<close> in the memory \<open>v\<close> that the kernel sees.\<close>

definition mem_map_read :: "memory \<Rightarrow> memory \<Rightarrow> addr \<Rightarrow> tag option \<Rightarrow> bool" where
  "mem_map_read m v p t = (case t of None \<Rightarrow> True | Some t \<Rightarrow> mem_map_is v (bootinfo_mem_map p) (segments_in m t))"

definition cmdline_read :: "memory \<Rightarrow> memory \<Rightarrow> addr \<Rightarrow> tag option \<Rightarrow> bool" where
  "cmdline_read m v p t = (case t of None \<Rightarrow> True | Some (q, ty, n) \<Rightarrow>
     (\<forall>i<n - 8. v (ld64 v p + of_nat i) = m (of_nat (q + 8 + i))))"

definition acpi_read :: "memory \<Rightarrow> memory \<Rightarrow> addr \<Rightarrow> tag option \<Rightarrow> bool" where
  "acpi_read m v p t = (case t of None \<Rightarrow> True | Some (q, ty, n) \<Rightarrow>
     ld32 v (bootinfo_acpi p) = (if ty = MULTIBOOT_TAG_TYPE_ACPI_OLD then 1 else 2) \<and>
     (\<forall>i<n - 8. v (bootinfo_acpi p + 8 + of_nat i) = m (of_nat (q + 8 + i))))"

definition boot_info :: "u32 \<Rightarrow> u32 \<Rightarrow> u32 \<Rightarrow> (memory, u32) kern" where
  "boot_info b d start = bnd (init_bootinfo b d start) (\<lambda>bx. thn (lift_pointers hh (ucast b)) (ret bx))"

lemma mem_map_view:
  assumes f: "mem_map_field m1 b (Some (y, q, ty, n))" and z: "word_at m1 (b + 20) = 0" "word_at m1 (b + 28) = 0"
    and st: "\<forall>i<(n - 16) div 24. segment_copied m0 m2 (q + 16 + 24 * i) (y + 24 * i)" and k: "y + (n - 16) \<le> 2 ^ 31" "b + 80 \<le> 2 ^ 31"
    and c: "ld64 m2 (of_nat (b + 16)) = ld64 m1 (of_nat (b + 16))" "ld64 m2 (of_nat (b + 24)) = ld64 m1 (of_nat (b + 24)) + hh"
  shows "mem_map_is (view m2) (bootinfo_mem_map (of_nat b + hh)) (segments_in m0 (q, ty, n))"
    "mem_map_segments (view m2) (bootinfo_mem_map (of_nat b + hh)) = of_nat y + hh"
proof -
  let ?k = "(n - 16) div 24" and ?p = "bootinfo_mem_map (of_nat b + hh)"
  have kl: "?k < 2 ^ 31" "y < 2 ^ 32" using k(1) by (auto simp: less_mult_imp_div_less)
  have z': "word_at m1 (b + 16 + 4) = 0" "word_at m1 (b + 24 + 4) = 0" using z by (simp_all add: ac_simps)
  have "ld64 m1 (of_nat (b + 16)) = of_nat ?k" by (rule ld64_pointer[OF _ z'(1)]) (use f kl in simp_all)
  moreover have "ld64 m1 (of_nat (b + 24)) = of_nat y" by (rule ld64_pointer[OF _ z'(2) kl(2)]) (use f in simp)
  ultimately have p: "mem_map_entries (view m2) ?p = of_nat ?k" "mem_map_segments (view m2) ?p = of_nat y + hh"
    using view_ld64[of "b + 16" m2] view_ld64[of "b + 24" m2] c k(2)
    by (simp_all add: mem_map_entries_def mem_map_segments_def bootinfo_mem_map_def ac_simps)
  have "(segment_type (view m2) q', segment_addr (view m2) q', segment_length (view m2) q') = entry_in m0 (q + 16 + 24 * i)"
    if i: "i < ?k" and q': "q' = of_nat y + hh + of_nat i * 24" for i q'
  proof -
    have "24 * i + 24 \<le> n - 16" using i by (simp add: less_eq_div_iff_mult_less_eq flip: Suc_le_eq)
    moreover have "q' = of_nat (y + 24 * i) + hh" using q' by (simp add: ac_simps)
    ultimately show ?thesis using segment_view[OF st[rule_format, OF i]] k(1) by simp
  qed
  then show "mem_map_is (view m2) ?p (segments_in m0 (q, ty, n))" using kl(1) p by (simp add: mem_map_is_def)
  show "mem_map_segments (view m2) ?p = of_nat y + hh" by (rule p(2))
qed

lemma boot_info_run:
  assumes i: "multiboot_info m b d lim s ts"
  obtains m1 m2 where "boot_info (of_nat b) (of_nat d) (of_nat s) m = Inr (of_nat (data_end d ts), m2)" "handed m m1 b (placed d ts)"
    "laid d lim (placed d ts)" "raised m2 (b + 8) (module_nodes (placed d ts))" "\<forall>t\<in>set (placed d ts). stored m m2 t"
    "ld64 m2 (of_nat b) = ld64 m1 (of_nat b) + hh" "ld64 m2 (of_nat (b + 24)) = ld64 m1 (of_nat (b + 24)) + hh"
    "only ({b..<b + 16} \<union> {b + 24..<b + 32} \<union> {d..<lim}) m1 m2"
proof -
  let ?n = "unat (word_at m s)"
  have a: "arranged b d lim s (s + ?n)" "lim + 8 \<le> 2 ^ 31" "b + 80 \<le> 2 ^ 31" "?n < 2 ^ 31" "data_end d ts \<le> lim" "tags_at m (s + 8) ts (s + ?n)"
    "\<forall>t\<in>set ts. tag_ok m t" "\<forall>j<20. word_at m (b + 4 * j) = 0"
    using i by (auto simp: multiboot_info_def Let_def list_all_iff)
  obtain m1 where m1: "init_bootinfo (of_nat b) (of_nat d) (of_nat s) m = Inr (of_nat (data_end d ts), m1)" "handed m m1 b (placed d ts)"
    by (rule init_bootinfo_run[OF a(1) _ _ _ a(6,7,8,5)]) (use a(4) that in simp_all)
  have "laid d d []" by (simp add: laid_def module_nodes_def)
  from laid_placed[OF this order_refl, of ts] have l: "laid d lim (placed d ts)" using laid_mono a(5) by auto
  obtain m2 where m2: "lift_pointers hh (of_nat b) m1 = Inr ((), m2)" "raised m2 (b + 8) (module_nodes (placed d ts))"
    "\<forall>t\<in>set (placed d ts). stored m m2 t" "ld64 m2 (of_nat b) = ld64 m1 (of_nat b) + hh" "ld64 m2 (of_nat (b + 24)) = ld64 m1 (of_nat (b + 24)) + hh"
    "only ({b..<b + 16} \<union> {b + 24..<b + 32} \<union> {d..<lim}) m1 m2"
    by (rule lift_run[OF m1(2) a(1) l order_refl a(2,3)]) (rule that, assumption+)
  have "boot_info (of_nat b) (of_nat d) (of_nat s) m = Inr (of_nat (data_end d ts), m2)"
    unfolding boot_info_def using m1(1) m2(1) a(3) by (simp add: bnd_Inr thn_Inr kern)
  then show thesis using m1(2) l m2(2-6) by (rule that)
qed

lemma placed_bounds:
  assumes "laid d lim ps" "lim + 8 \<le> 2 ^ 31" "(x, q, ty, n) \<in> set ps"
  shows "x + tag_data ty n \<le> 2 ^ 31 - 8"
  using assms unfolding laid_def by fastforce

lemma mem_map_kept:
  assumes t: "tag_in mem_map_tags ts = Some t"
    and f: "mem_map_field m1 b (last_tag mem_map_tags (placed d ts))" "word_at m1 (b + 20) = 0" "word_at m1 (b + 28) = 0"
    and l: "laid d lim (placed d ts)" "lim + 8 \<le> 2 ^ 31" and b: "b + 80 \<le> 2 ^ 31" "{b..<b + 80} \<inter> {d..<lim} = {}"
    and st: "\<forall>t\<in>set (placed d ts). stored m m2 t" and c: "ld64 m2 (of_nat (b + 24)) = ld64 m1 (of_nat (b + 24)) + hh"
    and o: "only ({b..<b + 16} \<union> {b + 24..<b + 32} \<union> {d..<lim}) m1 m2"
  obtains y where "mem_map_is (view m2) (bootinfo_mem_map (of_nat b + hh)) (segments_in m t)"
    "mem_map_segments (view m2) (bootinfo_mem_map (of_nat b + hh)) = of_nat y + hh" "d \<le> y" "y + 24 * length (segments_in m t) \<le> lim"
proof -
  obtain q ty n where q: "t = (q, ty, n)" by (cases t)
  obtain y where y: "last_tag mem_map_tags (placed d ts) = Some (y, q, ty, n)" "(y, q, ty, n) \<in> set (placed d ts)"
    using tag_in_placed[OF t, of d] q by blast
  have ty: "ty = MULTIBOOT_TAG_TYPE_MMAP" using find_in[OF y(1)[unfolded last_tag_def]] by simp
  have "{b + 16..<b + 16 + 8} \<inter> ({b..<b + 16} \<union> {b + 24..<b + 32} \<union> {d..<lim}) = {}" using b(2) by (fastforce simp: disjoint_iff)
  then have k: "ld64 m2 (of_nat (b + 16)) = ld64 m1 (of_nat (b + 16))" by (rule ld64_only[OF o]) (use b(1) in simp)
  have r: "d \<le> y" "y + (n - 16) \<le> lim" using l(1) y(2) ty unfolding laid_def by (fastforce simp: tag_data_def numbers)+
  then have "y + (n - 16) \<le> 2 ^ 31" using l(2) by simp
  moreover have "\<forall>i<(n - 16) div 24. segment_copied m m2 (q + 16 + 24 * i) (y + 24 * i)" using st y(2) ty by fastforce
  moreover have "24 * length (segments_in m t) \<le> n - 16" by (simp add: q)
  ultimately show thesis
    using that[of y] mem_map_view[OF f(1)[unfolded y(1)] f(2,3) _ _ b(1) k c, folded q] r by simp
qed

lemma cmdline_kept:
  assumes f: "cmdline_field m1 b (last_tag cmdline_tags (placed d ts))" "word_at m1 (b + 4) = 0"
    and l: "laid d lim (placed d ts)" "lim + 8 \<le> 2 ^ 31" and b: "b + 80 \<le> 2 ^ 31"
    and st: "\<forall>t\<in>set (placed d ts). stored m m2 t" and c: "ld64 m2 (of_nat b) = ld64 m1 (of_nat b) + hh"
  shows "cmdline_read m (view m2) (of_nat b + hh) (tag_in cmdline_tags ts)"
proof (cases "tag_in cmdline_tags ts")
  case (Some t)
  obtain q ty n where t: "t = (q, ty, n)" by (cases t)
  obtain y where y: "last_tag cmdline_tags (placed d ts) = Some (y, q, ty, n)" "(y, q, ty, n) \<in> set (placed d ts)"
    using tag_in_placed[OF Some, of d] t by blast
  have ty: "ty = MULTIBOOT_TAG_TYPE_CMDLINE" using find_in[OF y(1)[unfolded last_tag_def]] by simp
  have r: "y + (n - 8) \<le> 2 ^ 31 - 8" using placed_bounds[OF l y(2)] ty by (simp add: tag_data_def)
  have "ld64 m1 (of_nat b) = of_nat y" by (rule ld64_pointer[OF _ f(2)]) (use f(1) y(1) r in simp_all)
  then have p: "ld64 (view m2) (of_nat b + hh) = of_nat y + hh" using view_ld64[of b m2] c b by simp
  have "view m2 (of_nat y + hh + of_nat i) = m (of_nat (q + 8 + i))" if i: "i < n - 8" for i
  proof -
    have "bytes_copied m m2 (n - 8) (q + 8) y" using st y(2) ty by fastforce
    then have "m2 (of_nat (y + i)) = m (of_nat (q + 8 + i))" using i by (simp only: bytes_copied_def)
    then show ?thesis using view_byte[of "y + i" m2] r i by (simp add: ac_simps)
  qed
  then show ?thesis by (simp add: cmdline_read_def Some t p del: of_nat_add)
qed (simp add: cmdline_read_def)

lemma acpi_kept:
  assumes f: "acpi_field m m1 b (last_tag acpi_tags (placed d ts))" and b: "b + 80 \<le> 2 ^ 31" "{b..<b + 80} \<inter> {d..<lim} = {}"
    and o: "only ({b..<b + 16} \<union> {b + 24..<b + 32} \<union> {d..<lim}) m1 m2"
  shows "acpi_read m (view m2) (of_nat b + hh) (tag_in acpi_tags ts)"
proof (cases "tag_in acpi_tags ts")
  case (Some t)
  obtain q ty n where t: "t = (q, ty, n)" by (cases t)
  obtain y where y: "last_tag acpi_tags (placed d ts) = Some (y, q, ty, n)"
    using tag_in_placed[OF Some, of d] t by blast
  have "{b + 32..<b + 80} \<inter> ({b..<b + 16} \<union> {b + 24..<b + 32} \<union> {d..<lim}) = {}" using b(2) by (fastforce simp: disjoint_iff)
  then have "acpi_field m m2 b (Some (y, q, ty, n))" using fields_only(3)[OF o _ f[unfolded y]] b(1) by simp
  then have g: "n \<le> 48" "word_at m2 (b + 32) = (if ty = MULTIBOOT_TAG_TYPE_ACPI_OLD then 1 else 2)" "bytes_copied m m2 (n - 8) (q + 8) (b + 40)"
    by simp_all
  have p: "bootinfo_acpi (of_nat b + hh) = of_nat (b + 32) + hh" by (simp add: bootinfo_acpi_def ac_simps)
  have "view m2 (of_nat (b + 32) + hh + 8 + of_nat i) = m (of_nat (q + 8 + i))" if i: "i < n - 8" for i
  proof -
    have "m2 (of_nat (b + 40 + i)) = m (of_nat (q + 8 + i))" using g(3) i by (simp only: bytes_copied_def)
    then show ?thesis using view_byte[of "b + 40 + i" m2] b(1) g(1) i by (simp add: ac_simps)
  qed
  moreover have "ld32 (view m2) (of_nat (b + 32) + hh) = word_at m2 (b + 32)" by (rule view_ld32) (use b(1) in simp)
  ultimately show ?thesis using g(2) by (simp add: acpi_read_def Some t p del: of_nat_add)
qed (simp add: acpi_read_def)

text \<open>C2: The boot information of a Multiboot2 loader reaches the kernel. From information whose tags are well formed, \<open>init_bootinfo\<close> and the
  loop of \<open>_stub64\<close> end, the data takes the space that the tags ask for, and the kernel, which reads \<open>_bootinfo\<close> through the higher
  half, finds every module in the order of the tags, the entries of the last memory map (available or reserved), the bytes of the last command
  line, and the bytes of the last ACPI root pointer with its version. The command line of every module is empty.\<close>

theorem boot_information_reaches_the_kernel:
  assumes "multiboot_info m b d lim s ts"
  shows "\<exists>m2. boot_info (of_nat b) (of_nat d) (of_nat s) m = Inr (of_nat (data_end d ts), m2) \<and>
    c_modules (view m2) (ld64 (view m2) (of_nat b + hh + 8)) (modules_in m ts) \<and>
    mem_map_read m (view m2) (of_nat b + hh) (tag_in mem_map_tags ts) \<and>
    cmdline_read m (view m2) (of_nat b + hh) (tag_in cmdline_tags ts) \<and>
    acpi_read m (view m2) (of_nat b + hh) (tag_in acpi_tags ts)"
proof -
  have a: "arranged b d lim s (s + unat (word_at m s))" "lim + 8 \<le> 2 ^ 31" "b + 80 \<le> 2 ^ 31"
    using assms by (auto simp: multiboot_info_def Let_def)
  then have b: "{b..<b + 80} \<inter> {d..<lim} = {}" by (simp add: arranged_def)
  obtain m1 m2 where r: "boot_info (of_nat b) (of_nat d) (of_nat s) m = Inr (of_nat (data_end d ts), m2)" "handed m m1 b (placed d ts)"
    "laid d lim (placed d ts)" "raised m2 (b + 8) (module_nodes (placed d ts))" "\<forall>t\<in>set (placed d ts). stored m m2 t"
    "ld64 m2 (of_nat b) = ld64 m1 (of_nat b) + hh" "ld64 m2 (of_nat (b + 24)) = ld64 m1 (of_nat (b + 24)) + hh"
    "only ({b..<b + 16} \<union> {b + 24..<b + 32} \<union> {d..<lim}) m1 m2"
    by (rule boot_info_run[OF assms]) (rule that, assumption+)
  have h: "cmdline_field m1 b (last_tag cmdline_tags (placed d ts))" "mem_map_field m1 b (last_tag mem_map_tags (placed d ts))"
    "acpi_field m m1 b (last_tag acpi_tags (placed d ts))" "word_at m1 (b + 4) = 0" "word_at m1 (b + 20) = 0" "word_at m1 (b + 28) = 0"
    using r(2) unfolding handed_def by blast+
  have "c_modules (view m2) (ld64 m2 (of_nat (b + 8))) (modules_in m (map snd (placed d ts)))"
    by (rule modules_view[OF r(4,5)]) (use placed_bounds[OF r(3) a(2)] in fastforce)
  then have "c_modules (view m2) (ld64 (view m2) (of_nat b + hh + 8)) (modules_in m ts)"
    using view_ld64[of "b + 8" m2] a(3) by (simp add: placed_tags ac_simps)
  moreover have "mem_map_read m (view m2) (of_nat b + hh) (tag_in mem_map_tags ts)"
  proof (cases "tag_in mem_map_tags ts")
    case (Some t)
    show ?thesis
      by (rule mem_map_kept[OF Some h(2,5,6) r(3) a(2,3) b r(5,7,8)]) (simp add: Some mem_map_read_def)
  qed (simp add: mem_map_read_def)
  ultimately show ?thesis
    using r(1) cmdline_kept[OF h(1,4) r(3) a(2,3) r(5,6)] acpi_kept[OF h(3) a(3) b r(8)]
    by blast
qed

end
