(* ===== verification/Entry.thy ===== *)
theory Entry
  imports Start Handover
begin

text \<open>
  The rest of \<open>boot/stub.S\<close> and of \<open>multiboot2/entry.S\<close>, and \<open>boot/gdt.S\<close>: the checks of the processor, the segment descriptors of the boot
  code, the switch to 64 bit mode, and the whole way from \<open>_start\<close> to \<open>kernel_main\<close>. What the code writes to its stack is left out.
\<close>

section \<open>The machine before the kernel\<close>

text \<open>
  \<open>low\<close> is the physical memory. \<open>eflags_fixed\<close> are the flags that the processor does not let \<open>popfl\<close> change. The addresses of \<open>_bootinfo\<close>,
  \<open>_bootinfo_data\<close> and \<open>boot_gdt\<close> are chosen by the linker.
\<close>

record boot =
  plat :: machine
  low :: memory
  eflags :: u32
  eflags_fixed :: u32
  efer :: u64
  a_bootinfo :: u32
  a_bootinfo_data :: u32
  a_boot_gdt :: u32

definition on_plat :: "(machine, 'a) kern \<Rightarrow> (boot, 'a) kern" where
  "on_plat m = zoom plat (\<lambda>p s. s\<lparr>plat := p\<rparr>) m"

definition on_low :: "(memory, 'a) kern \<Rightarrow> (boot, 'a) kern" where
  "on_low m = zoom low (\<lambda>p s. s\<lparr>low := p\<rparr>) m"

text \<open>\<open>_fail\<close> and \<open>stall\<close> stop the processor again and again.\<close>

definition fail_loop :: "(boot, 'a) kern" where
  "fail_loop = halt Diverges"

section \<open>The features of the processor\<close>

definition EFLAGS_BIT_ID :: u32 where "EFLAGS_BIT_ID = push_bit 21 1"
definition CPUID_EXTFN_SUPPORT :: u32 where "CPUID_EXTFN_SUPPORT = 0x80000000"
definition CPUID_EXTFN_FEATURES :: u32 where "CPUID_EXTFN_FEATURES = 0x80000001"
definition CPUID_FEATURES_MSR :: u32 where "CPUID_FEATURES_MSR = push_bit 5 1"
definition CPUID_FEATURES_PAE :: u32 where "CPUID_FEATURES_PAE = push_bit 6 1"
definition CPUID_FEATURES_LM :: u32 where "CPUID_FEATURES_LM = push_bit 29 1"

definition popfl :: "u32 \<Rightarrow> (boot, unit) kern" where
  "popfl v = modify (\<lambda>s. s\<lparr>eflags := (eflags s AND eflags_fixed s) OR (v AND NOT (eflags_fixed s))\<rparr>)"

text \<open>\<open>jle\<close> compares signed numbers.\<close>

definition check_feature_support :: "(boot, unit) kern" where
  "check_feature_support =
     bnd (gets eflags) (\<lambda>ax. let cx = ax; ax = ax XOR EFLAGS_BIT_ID in
     thn (popfl ax)
     (bnd (gets eflags) (\<lambda>ax.
     if cx = ax then fail_loop
     else bnd (on_plat (cpuid CPUID_EXTFN_SUPPORT)) (\<lambda>r.
     if eax r \<le>s CPUID_EXTFN_SUPPORT then fail_loop
     else bnd (on_plat (cpuid CPUID_EXTFN_FEATURES)) (\<lambda>r.
     if edx r AND CPUID_FEATURES_LM = 0 then fail_loop
     else if edx r AND CPUID_FEATURES_PAE = 0 then fail_loop
     else if edx r AND CPUID_FEATURES_MSR = 0 then fail_loop
     else ret ())))))"

definition MSR_EFER_BIT_LM :: u32 where "MSR_EFER_BIT_LM = push_bit 8 1"
definition MSR_EFER_BIT_NX :: u32 where "MSR_EFER_BIT_NX = push_bit 11 1"
definition CR0_BIT_PG :: u32 where "CR0_BIT_PG = push_bit 31 1"
definition CR4_BIT_PAE :: u32 where "CR4_BIT_PAE = push_bit 5 1"

definition enable_features :: "(boot, unit) kern" where
  "enable_features =
     thn (on_plat (modify (\<lambda>p. p\<lparr>reg_cr4 := ucast ((ucast (reg_cr4 p) :: u32) OR CR4_BIT_PAE)\<rparr>)))
     (thn (modify (\<lambda>s. let ax = ucast (efer s) :: u32; dx = ucast (drop_bit 32 (efer s)) :: u32;
         ax = ax OR MSR_EFER_BIT_LM; ax = ax OR MSR_EFER_BIT_NX in s\<lparr>efer := push_bit 32 (ucast dx) OR ucast ax\<rparr>))
     (on_plat (modify (\<lambda>p. p\<lparr>reg_cr0 := ucast ((ucast (reg_cr0 p) :: u32) OR CR0_BIT_PG)\<rparr>))))"

section \<open>The segment descriptors of the boot code\<close>

definition boot_null :: "u8 list" where "boot_null = GDTENTRY 0 0 0 0"

definition boot_code :: "u8 list" where
  "boot_code = GDTENTRY 0x0000000000000000 0xfffff
     (ACCESS_PRESENT + ACCESS_PRIVILEGELEVEL 0 + ACCESS_NORMALSEGMENT + ACCESS_EXECUTABLE + ACCESS_READWRITE)
     (FLAGS_GRANULARITY + FLAGS_PROTECTEDMODE)"

definition boot_data :: "u8 list" where
  "boot_data = GDTENTRY 0x0000000000000000 0xfffff
     (ACCESS_PRESENT + ACCESS_PRIVILEGELEVEL 0 + ACCESS_NORMALSEGMENT + ACCESS_READWRITE)
     (FLAGS_GRANULARITY + FLAGS_PROTECTEDMODE)"

definition boot_gdt :: "u8 list" where "boot_gdt = boot_null @ boot_code @ boot_data"
definition BOOT_CS :: u16 where "BOOT_CS = of_nat (length boot_null)"
definition BOOT_DS :: u16 where "BOOT_DS = of_nat (length (boot_null @ boot_code))"

definition load_seg :: "seg_reg list \<Rightarrow> u16 \<Rightarrow> (boot, unit) kern" where
  "load_seg rs v = on_plat (modify (\<lambda>p. p\<lparr>seg_regs := (\<lambda>r. if r \<in> set rs then v else seg_regs p r)\<rparr>))"

text \<open>\<open>fs\<close> is loaded twice and \<open>gs\<close> never.\<close>

definition load_boot_gdt :: "(boot, unit) kern" where
  "load_boot_gdt =
     thn (modify (\<lambda>s. s\<lparr>plat := (plat s)\<lparr>gdtr := (of_nat (length boot_gdt) - 1, ucast (a_boot_gdt s))\<rparr>\<rparr>))
     (thn (load_seg [CS] BOOT_CS) (load_seg [DS, ES, FS, FS, SS] BOOT_DS))"

definition UPDATEFLAGS :: "u32 \<Rightarrow> (memory, unit) kern" where
  "UPDATEFLAGS a =
     bnd (gets (\<lambda>m. lw m a)) (\<lambda>ax. let ax = ax AND NOT (ucast (push_bit 4 FLAGS_PROTECTEDMODE)); ax = ax OR ucast (push_bit 4 FLAGS_LONGMODE)
     in sw a ax)"

text \<open>The far jump and the far return both load \<open>cs\<close>.\<close>

definition edit_boot_gdt :: "(boot, unit) kern" where
  "edit_boot_gdt =
     bnd (gets a_boot_gdt) (\<lambda>g.
     thn (on_low (UPDATEFLAGS (g + 8 + 6)))
     (thn (on_low (UPDATEFLAGS (g + 16 + 6)))
     (thn (load_seg [CS] BOOT_CS) (load_seg [CS] BOOT_CS))))"

section \<open>From the boot loader to the kernel\<close>

definition MULTIBOOT2_BOOTLOADER_MAGIC :: u32 where "MULTIBOOT2_BOOTLOADER_MAGIC = 0x36d76289"

definition stub32 :: "u32 \<Rightarrow> (boot, unit) kern" where
  "stub32 ax =
     thn (on_plat int_disable)
     (thn load_boot_gdt
     (thn check_feature_support
     (thn (on_plat (on_kernel (setup_paging ax)))
     (thn enable_features
     edit_boot_gdt))))"

text \<open>The kernel reads memory through the higher half; \<open>r10\<close> and \<open>r11\<close> are registers that the code uses before it sets them.\<close>

definition enter_kernel :: "boot \<Rightarrow> boot" where
  "enter_kernel s = (let p = plat s; k = kernel p
     in s\<lparr>plat := p\<lparr>kernel := k\<lparr>mem := (\<lambda>v. low s (phys (HIGHER_HALF (sym k)) v))\<rparr>\<rparr>\<rparr>)"

definition stub64 :: "services \<Rightarrow> u64 \<Rightarrow> u64 \<Rightarrow> (boot, unit) kern" where
  "stub64 srv r10 r11 =
     thn (on_plat (on_kernel (map_higher_half r10 r11)))
     (bnd (gets (\<lambda>s. (HIGHER_HALF (sym (kernel (plat s))), ucast (a_bootinfo s)))) (\<lambda>(high, b).
     thn (on_low (lift_pointers high b))
     (thn (modify enter_kernel)
     (thn (on_plat (kernel_main srv (b + high)))
     fail_loop))))"

definition start_multiboot :: "services \<Rightarrow> u64 \<Rightarrow> u64 \<Rightarrow> u32 \<Rightarrow> u32 \<Rightarrow> (boot, unit) kern" where
  "start_multiboot srv r10 r11 ax bx =
     (if ax \<noteq> MULTIBOOT2_BOOTLOADER_MAGIC then fail_loop
      else bnd (gets (\<lambda>s. (a_bootinfo s, a_bootinfo_data s))) (\<lambda>(b, d).
           bnd (on_low (init_bootinfo b d bx)) (\<lambda>ax.
           thn (stub32 ax) (stub64 srv r10 r11))))"

section \<open>The checks\<close>

lemma on_plat_Inr: "m (plat s) = Inr (x, p) \<Longrightarrow> on_plat m s = Inr (x, s\<lparr>plat := p\<rparr>)"
  by (simp add: on_plat_def zoom_Inr)

lemma on_low_Inr: "m (low s) = Inr (x, p) \<Longrightarrow> on_low m s = Inr (x, s\<lparr>low := p\<rparr>)"
  by (simp add: on_low_def zoom_Inr)

lemma on_plat_cpuid: "bnd (on_plat (cpuid c)) f s = f (cpuid_of (plat s) c) s"
  by (simp add: on_plat_def zoom_def bnd_def cpuid_def gets_def)

lemma flag_test: "(w AND push_bit n 1 = 0) = (\<not> bit w n)" if "n < 32" for w :: u32
proof -
  have "w AND push_bit n 1 = push_bit n (of_bool (bit w n))"
    by (rule bit_word_eqI) (auto simp: bit_simps)
  then show ?thesis using that by (auto simp: push_bit_eq_0_iff)
qed

lemma flag_masks:
  "(w AND CPUID_FEATURES_LM = 0) = (\<not> bit w 29)" "(w AND CPUID_FEATURES_PAE = 0) = (\<not> bit w 6)" "(w AND CPUID_FEATURES_MSR = 0) = (\<not> bit w 5)"
  unfolding CPUID_FEATURES_LM_def CPUID_FEATURES_PAE_def CPUID_FEATURES_MSR_def by (rule flag_test, simp)+

lemma bit_ID: "bit EFLAGS_BIT_ID n \<longleftrightarrow> n = 21"
  unfolding EFLAGS_BIT_ID_def bit_push_bit_iff by (auto simp: bit_1_iff)

lemma popfl_flips:
  "((e AND x) OR ((e XOR EFLAGS_BIT_ID) AND NOT x)) = (if bit x 21 then e else flip_bit 21 e)" for e x :: u32
  by (rule bit_word_eqI) (auto simp: bit_simps bit_ID)

lemma sle_least: "w \<le>s 0x80000000 \<longleftrightarrow> w = 0x80000000" for w :: u32
proof
  assume "w \<le>s 0x80000000"
  then have "sint w \<le> - (2 ^ 31)" by (simp add: word_sle_eq)
  moreover have "- (2 ^ 31) \<le> sint w" using sint_range_size[of w] by (simp add: word_size)
  ultimately have "sint w = sint (0x80000000 :: u32)" by simp
  then show "w = 0x80000000" by (simp add: signed_word_eqI)
qed simp

lemma check_feature_eq:
  "check_feature_support s =
    (if \<not> bit (eflags_fixed s) 21 \<and> eax (cpuid_of (plat s) 0x80000000) \<noteq> 0x80000000 \<and>
        list_all (bit (edx (cpuid_of (plat s) 0x80000001))) [5, 6, 29]
     then Inr ((), s\<lparr>eflags := flip_bit 21 (eflags s)\<rparr>) else Inl Diverges)"
proof -
  have ne: "e \<noteq> flip_bit 21 e" for e :: u32
  proof
    assume "e = flip_bit 21 e"
    then have "bit e 21 = bit (flip_bit 21 e) 21" by simp
    then show False by (simp add: bit_simps)
  qed
  show ?thesis
    by (simp add: check_feature_support_def popfl_def popfl_flips on_plat_cpuid fail_loop_def CPUID_EXTFN_SUPPORT_def CPUID_EXTFN_FEATURES_def
        sle_least flag_masks ne Let_def kern)
qed

text \<open>C40: The check of the processor succeeds exactly if \<open>cpuid\<close> exists and reports long mode, PAE and the machine specific registers. The test
  for extended functions compares signed numbers: it rejects only the answer \<open>0x80000000\<close>, so a processor without extended functions,
  which answers with a smaller number, is not recognised. The flag that is flipped for the test stays flipped.\<close>

theorem feature_check_is_signed:
  "check_feature_support s =
    (if \<not> bit (eflags_fixed s) 21 \<and> eax (cpuid_of (plat s) 0x80000000) \<noteq> 0x80000000 \<and>
        list_all (bit (edx (cpuid_of (plat s) 0x80000001))) [5, 6, 29]
     then Inr ((), s\<lparr>eflags := flip_bit 21 (eflags s)\<rparr>) else Inl Diverges)"
  by (rule check_feature_eq)

end
