(* ===== verification/Entry_run.thy ===== *)
theory Entry_run
  imports Entry
begin

text \<open>
  The way from \<open>_start\<close> to \<open>kernel_main\<close>: the segment descriptors, the mode of the processor, the boot information, the page tables
  and the memory managers.
\<close>

section \<open>The segment descriptors\<close>

definition long_flags :: "u8 \<Rightarrow> u8" where
  "long_flags c = (c AND NOT (ucast (push_bit 4 FLAGS_PROTECTEDMODE))) OR ucast (push_bit 4 FLAGS_LONGMODE)"

lemma bit_flags:
  "bit (ucast (push_bit 4 FLAGS_PROTECTEDMODE) :: 'a::len word) n \<longleftrightarrow> n = 6 \<and> n < LENGTH('a)"
  "bit (ucast (push_bit 4 FLAGS_LONGMODE) :: 'a::len word) n \<longleftrightarrow> n = 5 \<and> n < LENGTH('a)"
  unfolding FLAGS_PROTECTEDMODE_def FLAGS_LONGMODE_def push_bit_push_bit bit_unsigned_iff bit_push_bit_iff
  by (auto simp: bit_1_iff)

lemma update_flags:
  "st32 a ((ld32 m a AND NOT (ucast (push_bit 4 FLAGS_PROTECTEDMODE))) OR ucast (push_bit 4 FLAGS_LONGMODE)) m = m(a := long_flags (m a))"
proof
  fix x
  show "st32 a ((ld32 m a AND NOT (ucast (push_bit 4 FLAGS_PROTECTEDMODE))) OR ucast (push_bit 4 FLAGS_LONGMODE)) m x =
    (m(a := long_flags (m a))) x"
  proof (cases "x - a < 4")
    case True
    define i where "i = unat (x - a)"
    have i: "i < 4" "x = a + of_nat i" using True by (simp_all add: i_def word_less_nat_alt)
    have ne: "x = a \<longleftrightarrow> i = 0" using i_def by (simp add: unat_eq_0)
    have "bit (byte_of ((ld32 m a AND NOT (ucast (push_bit 4 FLAGS_PROTECTEDMODE))) OR ucast (push_bit 4 FLAGS_LONGMODE)) i) n =
        bit (if i = 0 then long_flags (m x) else m x) n" if "n < 8" for n
    proof -
      have "8 * i + n < 32" "(8 * i + n) div 8 = i" "(8 * i + n) mod 8 = n" using i(1) that by simp_all
      then have "bit (ld32 m a) (8 * i + n) = bit (m x) n" unfolding ld32_def by (simp add: bit_simps bit_ld64 i(2))
      moreover have "8 * i + n = 6 \<longleftrightarrow> i = 0 \<and> n = 6" "8 * i + n = 5 \<longleftrightarrow> i = 0 \<and> n = 5" using that by (cases i; simp)+
      ultimately show ?thesis using that \<open>8 * i + n < 32\<close>
        by (auto simp: bit_byte_of bit_or_iff bit_and_iff bit_not_iff long_flags_def bit_flags)
    qed
    then have "byte_of ((ld32 m a AND NOT (ucast (push_bit 4 FLAGS_PROTECTEDMODE))) OR ucast (push_bit 4 FLAGS_LONGMODE)) i =
        (if i = 0 then long_flags (m x) else m x)" by (intro bit_word_eqI) simp
    then show ?thesis using True ne by (cases "x = a") (simp_all add: st32_def i_def)
  qed (auto simp: st32_def)
qed

lemma same_low: "x < 2 ^ 32 \<Longrightarrow> y < 2 ^ 32 \<Longrightarrow> (of_nat x :: addr) = of_nat y \<longleftrightarrow> x = y"
  using unat_reg(2)[of x] unat_reg(2)[of y] by metis

definition edited :: "nat \<Rightarrow> memory \<Rightarrow> memory" where
  "edited g m = m(of_nat (g + 14) := long_flags (m (of_nat (g + 14))), of_nat (g + 22) := long_flags (m (of_nat (g + 22))))"

lemma UPDATEFLAGS_run: "a < 2 ^ 32 \<Longrightarrow> UPDATEFLAGS (of_nat a) m = Inr ((), m(of_nat a := long_flags (m (of_nat a))))"
  by (simp add: UPDATEFLAGS_def lw_def sw_def Let_def update_flags kern)

definition holds :: "memory \<Rightarrow> nat \<Rightarrow> u8 list \<Rightarrow> bool" where
  "holds m g bs \<longleftrightarrow> list_all (\<lambda>i. m (of_nat (g + i)) = bs ! i) [0..<length bs]"

lemma holds_iff: "holds m g bs \<longleftrightarrow> (\<forall>i<length bs. m (of_nat (g + i)) = bs ! i)"
  by (auto simp: holds_def list_all_iff)

lemma boot_cs: "BOOT_CS = 8" "BOOT_DS = 16" "length boot_gdt = 24"
  by (simp_all add: BOOT_CS_def BOOT_DS_def boot_gdt_def boot_null_def boot_code_def boot_data_def GDTENTRY_def shorts_def)

lemma holds_only:
  assumes "holds m g bs" "only S m m'" "{g..<g + length bs} \<inter> S = {}" "g + length bs \<le> 2 ^ 32"
  shows "holds m' g bs"
  unfolding holds_iff
proof (intro allI impI)
  fix j assume j: "j < length bs"
  then have "g + j \<in> {g..<g + length bs}" "g + j < 2 ^ 32" using assms(4) by simp_all
  then have "m' (of_nat (g + j)) = m (of_nat (g + j))" using only_byte[OF assms(2)] assms(3) by blast
  then show "m' (of_nat (g + j)) = bs ! j" using assms(1) j by (simp add: holds_iff del: of_nat_add)
qed

lemma boot_gdt_bytes:
  "boot_gdt = [0, 0, 0, 0, 0, 0, 0, 0, 0xff, 0xff, 0, 0, 0, 0x9a, 0xcf, 0, 0xff, 0xff, 0, 0, 0, 0x92, 0xcf, 0]"
  "take 24 gdt = [0, 0, 0, 0, 0, 0, 0, 0, 0xff, 0xff, 0, 0, 0, 0x9a, 0xaf, 0, 0xff, 0xff, 0, 0, 0, 0x92, 0xaf, 0]"
  by code_simp+

lemma edited_gdt:
  assumes "holds m g boot_gdt" "g + 24 \<le> 2 ^ 32"
  shows "holds (edited g m) g (take 24 gdt)"
proof -
  have l: "long_flags 0xcf = 0xaf" by (simp add: long_flags_def FLAGS_PROTECTEDMODE_def FLAGS_LONGMODE_def)
  have n: "(of_nat (g + i) :: addr) = of_nat (g + j) \<longleftrightarrow> i = j" if "i < 24" "j < 24" for i j
    using assms(2) that by (subst same_low) simp_all
  have "edited g m (of_nat (g + i)) = take 24 gdt ! i" if i: "i < 24" for i
  proof -
    have b: "m (of_nat (g + j)) = boot_gdt ! j" if "j < 24" for j
      using assms(1) that unfolding holds_iff boot_cs by blast
    have "edited g m (of_nat (g + i)) = (if i = 14 \<or> i = 22 then long_flags (boot_gdt ! i) else boot_gdt ! i)"
      using i b[of i] b[of 14] b[of 22] n[of i 14] n[of i 22] n[of 14 22] by (simp add: edited_def del: of_nat_add)
    moreover have "\<forall>i<24. (if i = 14 \<or> i = 22 then long_flags (boot_gdt ! i) else boot_gdt ! i) = take 24 gdt ! i"
      unfolding boot_gdt_bytes by (simp add: l All_less_Suc numeral_eq_Suc)
    ultimately show ?thesis using i by simp
  qed
  moreover have "length (take 24 gdt) = 24" unfolding boot_gdt_bytes by simp
  ultimately show ?thesis by (simp add: holds_iff del: length_take of_nat_add)
qed

lemma edited_only:
  assumes "g + 26 \<le> 2 ^ 32"
  shows "only {g..<g + 26} m (edited g m)"
proof -
  have "only ({g + 14} \<union> {g + 22}) m (edited g m)"
    unfolding edited_def by (rule only_trans[OF only_upd]) (use assms same_low[of "g + 22" "g + 14"] only_upd[of "g + 22"] in \<open>simp_all del: of_nat_add\<close>)
  then show ?thesis by (rule only_mono) auto
qed

section \<open>The mode of the processor\<close>

definition has_features :: "boot \<Rightarrow> bool" where
  "has_features s \<longleftrightarrow> \<not> bit (eflags_fixed s) 21 \<and> eax (cpuid_of (plat s) 0x80000000) \<noteq> 0x80000000 \<and>
     list_all (bit (edx (cpuid_of (plat s) 0x80000001))) [5, 6, 29]"

text \<open>Paging with 64 bit tables, the bits for long mode and for pages without execution, interrupts off, and segments from the table.\<close>

definition long_mode :: "boot \<Rightarrow> bool" where
  "long_mode s \<longleftrightarrow> bit (reg_cr0 (plat s)) 31 \<and> bit (reg_cr4 (plat s)) 5 \<and> bit (efer s) 8 \<and> bit (efer s) 11 \<and> \<not> interrupts (plat s) \<and>
     gdtr (plat s) = (23, ucast (a_boot_gdt s)) \<and> seg_regs (plat s) CS = 8 \<and> list_all (\<lambda>r. seg_regs (plat s) r = 16) [DS, ES, FS, SS]"

lemma check_run: "has_features s \<Longrightarrow> \<exists>e. check_feature_support s = Inr ((), s\<lparr>eflags := e\<rparr>)"
  by (intro exI[of _ "flip_bit 21 (eflags s)"]) (simp add: check_feature_eq has_features_def)

lemma bit_cr: "bit CR0_BIT_PG n \<longleftrightarrow> n = 31" "bit CR4_BIT_PAE n \<longleftrightarrow> n = 5" "bit MSR_EFER_BIT_LM n \<longleftrightarrow> n = 8" "bit MSR_EFER_BIT_NX n \<longleftrightarrow> n = 11"
  unfolding CR0_BIT_PG_def CR4_BIT_PAE_def MSR_EFER_BIT_LM_def MSR_EFER_BIT_NX_def bit_push_bit_iff by (auto simp: bit_1_iff)

lemma edit_run:
  assumes "a_boot_gdt s = of_nat g" "g + 26 \<le> 2 ^ 32"
  shows "edit_boot_gdt s = Inr ((), s\<lparr>plat := (plat s)\<lparr>seg_regs := (seg_regs (plat s))(CS := 8)\<rparr>, low := edited g (low s)\<rparr>)"
proof -
  let ?m = "(low s)(of_nat (g + 14) := long_flags (low s (of_nat (g + 14))))"
  have n: "g + 14 < 2 ^ 32" "g + 22 < 2 ^ 32" using assms(2) by simp_all
  have a: "(of_nat g :: u32) + 8 + 6 = of_nat (g + 14)" "(of_nat g :: u32) + 16 + 6 = of_nat (g + 22)" by simp_all
  have u: "on_low (UPDATEFLAGS (of_nat (g + 14))) s = Inr ((), s\<lparr>low := ?m\<rparr>)" by (rule on_low_Inr[OF UPDATEFLAGS_run[OF n(1)]])
  have "(of_nat (g + 22) :: addr) \<noteq> of_nat (g + 14)" using n by (subst same_low) simp_all
  then have e: "?m(of_nat (g + 22) := long_flags (?m (of_nat (g + 22)))) = edited g (low s)" by (simp add: edited_def del: of_nat_add)
  have v: "on_low (UPDATEFLAGS (of_nat (g + 22))) (s\<lparr>low := ?m\<rparr>) = Inr ((), s\<lparr>low := edited g (low s)\<rparr>)"
    using on_low_Inr[of "UPDATEFLAGS (of_nat (g + 22))" "s\<lparr>low := ?m\<rparr>" "()" "edited g (low s)"] UPDATEFLAGS_run[OF n(2), of ?m] unfolding e by simp
  have cs: "(\<lambda>r. if r = CS then 8 else f r) = f(CS := 8)" for f :: "seg_reg \<Rightarrow> u16" by (auto simp: fun_eq_iff)
  show ?thesis
    unfolding edit_boot_gdt_def
    by (rule trans[OF bnd_Inr], rule gets_apply, unfold assms(1) a, rule trans[OF thn_Inr], rule u, rule trans[OF thn_Inr], rule v)
      (simp add: load_seg_def on_plat_def zoom_def thn_def bnd_def modify_def boot_cs cs cong: if_cong)
qed

lemma stub32_run:
  assumes f: "has_features s" and p: "setup_paging ax (kernel (plat s)) = Inr ((), k)" and g: "a_boot_gdt s = of_nat g" "g + 26 \<le> 2 ^ 32"
  obtains s' where "stub32 ax s = Inr ((), s')" "long_mode s'" "kernel (plat s') = k" "low s' = edited g (low s)" "a_bootinfo s' = a_bootinfo s"
    "a_boot_gdt s' = a_boot_gdt s"
proof -
  let ?p1 = "(plat s)\<lparr>interrupts := False, gdtr := (23, ucast (a_boot_gdt s)),
    seg_regs := (\<lambda>r. if r \<in> set [DS, ES, FS, FS, SS] then 16 else if r \<in> set [CS] then 8 else seg_regs (plat s) r)\<rparr>"
  let ?s1 = "s\<lparr>plat := ?p1\<rparr>"
  have s1: "thn (on_plat int_disable) (thn load_boot_gdt m) s = m ?s1" for m :: "(boot, unit) kern"
    by (simp add: on_plat_def zoom_def int_disable_def load_boot_gdt_def load_seg_def boot_cs thn_def bnd_def modify_def cong: if_cong)
  have "has_features ?s1" using f by (simp add: has_features_def)
  then obtain e where e: "check_feature_support ?s1 = Inr ((), ?s1\<lparr>eflags := e\<rparr>)" using check_run by blast
  let ?s2 = "?s1\<lparr>eflags := e, plat := ?p1\<lparr>kernel := k\<rparr>\<rparr>"
  have "on_kernel (setup_paging ax) ?p1 = Inr ((), ?p1\<lparr>kernel := k\<rparr>)" by (rule on_kernel_Inr) (use p in simp)
  then have s2: "on_plat (on_kernel (setup_paging ax)) (?s1\<lparr>eflags := e\<rparr>) = Inr ((), ?s2)" using on_plat_Inr[of _ "?s1\<lparr>eflags := e\<rparr>"] by simp
  let ?E = "push_bit 32 (ucast (ucast (drop_bit 32 (efer s)) :: u32)) OR ucast ((ucast (efer s) OR MSR_EFER_BIT_LM) OR MSR_EFER_BIT_NX) :: u64"
  let ?p3 = "?p1\<lparr>kernel := k, reg_cr4 := ucast ((ucast (reg_cr4 (plat s)) :: u32) OR CR4_BIT_PAE), 
    reg_cr0 := ucast ((ucast (reg_cr0 (plat s)) :: u32) OR CR0_BIT_PG)\<rparr>"
  let ?s3 = "s\<lparr>plat := ?p3, eflags := e, efer := ?E\<rparr>"
  have s3: "enable_features ?s2 = Inr ((), ?s3)"
    by (simp add: enable_features_def on_plat_def zoom_def Let_def thn_def bnd_def modify_def)
  let ?s4 = "?s3\<lparr>plat := ?p3\<lparr>seg_regs := (seg_regs ?p3)(CS := 8)\<rparr>, low := edited g (low s)\<rparr>"
  have s4: "edit_boot_gdt ?s3 = Inr ((), ?s4)" using edit_run[of ?s3, OF _ g(2)] g(1) by simp
  have "stub32 ax s = Inr ((), ?s4)"
    unfolding stub32_def s1 by (rule trans[OF thn_Inr], rule e, rule trans[OF thn_Inr], rule s2, rule trans[OF thn_Inr], rule s3, rule s4)
  moreover have "long_mode ?s4" by (auto simp: long_mode_def bit_simps bit_cr)
  ultimately show thesis using that[of ?s4] by simp
qed

section \<open>The boot information\<close>

lemma handed_only:
  assumes h: "handed m0 m b ps" and o: "only S m m'" and d: "S \<inter> ({b..<b + 80} \<union> {d..<lim}) = {}"
    and l: "laid d lim ps" and r: "b + 80 \<le> 2 ^ 32" "lim \<le> 2 ^ 32"
  shows "handed m0 m' b ps"
proof -
  have bs: "{b..<b + 80} \<inter> S = {}" and ds: "{d..<lim} \<inter> S = {}" using d by auto
  have x: "{x..<x + 8} \<inter> S = {} \<and> x + 8 \<le> 2 ^ 32" if n: "x \<in> set ((b + 8) # module_nodes ps)" for x
  proof (cases "x = b + 8")
    case True
    then show ?thesis using miss[OF bs, of "{b + 8..<b + 8 + 8}"] r(1) by auto
  next
    case False
    then have "d \<le> x" "x + 32 \<le> lim" using n laid_node[OF l, of x] by auto
    then show ?thesis using miss[OF ds, of "{x..<x + 8}"] r(2) by auto
  qed
  have st: "stored m0 m' t" if t: "t \<in> set ps" for t
  proof (rule stored_only[OF _ o])
    show "stored m0 m t" using h t by (simp add: handed_def)
    show "kept t \<inter> S = {}" by (rule miss[OF ds laid_kept[OF l t]])
    show "fst t + tag_data (fst (snd (snd t))) (snd (snd (snd t))) \<le> 2 ^ 32" using l t r(2) unfolding laid_def by (cases t) fastforce
  qed
  have w: "word_at m' (b + j) = word_at m (b + j)" if "j \<le> 76" for j
    by (rule word_at_only[OF o miss[OF bs]]) (use that r(1) in auto)
  note f = fields_only[OF o r(1)]
  have "cmdline_field m' b (last_tag cmdline_tags ps)" by (rule f(1)[OF _ miss[OF bs]]) (use h in \<open>auto simp: handed_def\<close>)
  moreover have "mem_map_field m' b (last_tag mem_map_tags ps)" by (rule f(2)[OF _ miss[OF bs]]) (use h in \<open>auto simp: handed_def\<close>)
  moreover have "acpi_field m0 m' b (last_tag acpi_tags ps)" by (rule f(3)[OF _ miss[OF bs]]) (use h in \<open>auto simp: handed_def\<close>)
  moreover have "linked m' (b + 8) (module_nodes ps)" by (rule linked_only[OF _ o]) (use h x in \<open>auto simp: handed_def\<close>)
  ultimately show ?thesis using h st w[of 4] w[of 20] w[of 28] by (simp add: handed_def)
qed

section \<open>The singleton and the memory map\<close>

lemma clear_sub:
  "clear_of_pm y a n \<Longrightarrow> unat i + unat n' \<le> unat n \<Longrightarrow> 0 < n' \<Longrightarrow> clear_of_pm y (a + i) n'"
  unfolding clear_of_pm_def using sep_sub[of a n _ _ i n' 0] by fastforce

lemma singleton_agree:
  assumes "sep a n (a_K (sym s)) 90"  "0 < n"
  shows "agree a n (mem s) (mem (with_singleton bi s))"
proof -
  have "sep a n (a_K (sym s) + 8) 8" using sep_sub[OF assms(1), of 0 n 8 8] assms(2) by simp
  then have "agree a n (filled 90 (a_K (sym s)) 0 (mem s)) (mem (with_singleton bi s))" unfolding with_singleton_def by (simp add: agree_st64)
  moreover have "agree a n (mem s) (filled 90 (a_K (sym s)) 0 (mem s))" by (rule agree_filled[OF assms(1)]) simp
  ultimately show ?thesis by (rule agree_trans[rotated])
qed

lemma singleton_reads:
  "K_bootinfo (mem (with_singleton bi s)) (a_K (sym s)) = bi" "\<not> subsys_init_pm (mem (with_singleton bi s)) (a_K (sym s))"
proof -
  let ?K = "a_K (sym s)"
  show "K_bootinfo (mem (with_singleton bi s)) ?K = bi" by (simp add: K_bootinfo_def with_singleton_def)
  have "ld64 (mem (with_singleton bi s)) ?K = ld64 (filled 90 ?K 0 (mem s)) ?K"
    by (simp add: with_singleton_def ld64_st64_sep sep_def)
  also have "\<dots> = 0" by (rule ld64_zero) (simp add: filled_def word_less_nat_alt)
  finally show "\<not> subsys_init_pm (mem (with_singleton bi s)) ?K" by (simp add: subsys_init_pm_def ld32_def)
qed

lemma agree_mem_map:
  assumes "agree bi 80 m m'"
  shows "mem_map_entries m' (bi + 16) = mem_map_entries m (bi + 16)" "mem_map_segments m' (bi + 16) = mem_map_segments m (bi + 16)"
  using agree_ld64[OF assms, of 16] agree_ld64[OF assms, of 24] by (simp_all add: mem_map_entries_def mem_map_segments_def off_norm)

text \<open>What the memory layout has to allow, where the boot information lies at \<open>b\<close> and its data between \<open>d\<close> and \<open>lim\<close>.\<close>

definition info_placed :: "symbols \<Rightarrow> nat \<Rightarrow> nat \<Rightarrow> nat \<Rightarrow> segment list \<Rightarrow> bool" where
  "info_placed y b d lim segs \<longleftrightarrow> (let bi = of_nat b + hh; data = of_nat d + hh; n = of_nat (lim - d) in
     statics_wide y \<and> clear_of_pm y (a_K y + 8) 8 \<and> clear_of_pm y bi 80 \<and> clear_of_pm y data n \<and>
     sep bi 80 (a_K y) 90 \<and> sep data n (a_K y) 90 \<and> list_all segment_fits segs \<and> LAYOUT_PADDR_START y \<noteq> LAYOUT_PADDR_END y \<and>
     page_of (LAYOUT_PADDR_START y) + unat (PAGES (LAYOUT_PADDR_END y - LAYOUT_PADDR_START y)) \<le> 32768)"

lemma singleton_ready:
  assumes p: "info_placed (sym s) b d lim segs" and m: "mem_map_is (mem s) (bootinfo_mem_map (of_nat b + hh)) segs"
    and a: "mem_map_segments (mem s) (bootinfo_mem_map (of_nat b + hh)) = of_nat y + hh" "d \<le> y" "y + 24 * length segs \<le> lim" "lim < 2 ^ 31"
  shows "boot_ready (with_singleton (of_nat b + hh) s) segs"
proof -
  let ?y = "sym s" and ?bi = "of_nat b + hh :: addr" and ?data = "of_nat d + hh :: addr" and ?n = "of_nat (lim - d) :: u64"
  let ?s = "with_singleton ?bi s"
  have i: "statics_wide ?y" "clear_of_pm ?y (a_K ?y + 8) 8" "clear_of_pm ?y ?bi 80" "clear_of_pm ?y ?data ?n"
    "sep ?bi 80 (a_K ?y) 90" "sep ?data ?n (a_K ?y) 90" "list_all segment_fits segs" "LAYOUT_PADDR_START ?y \<noteq> LAYOUT_PADDR_END ?y"
    "page_of (LAYOUT_PADDR_START ?y) + unat (PAGES (LAYOUT_PADDR_END ?y - LAYOUT_PADDR_START ?y)) \<le> 32768"
    using p unfolding info_placed_def Let_def by blast+
  have mm: "bootinfo_mem_map ?bi = ?bi + 16" by (simp add: bootinfo_mem_map_def)
  have un: "unat ?n = lim - d" using a(4) by (simp add: unat_of_nat take_bit_nat_eq_self)
  have seg: "clear_of_pm ?y (of_nat y + hh + of_nat j * 24) 24 \<and> sep (of_nat y + hh + of_nat j * 24) 24 (a_K ?y) 90" if j: "j < length segs" for j
  proof -
    let ?o = "of_nat (y - d + 24 * j) :: addr"
    have "y - d + 24 * j + 24 \<le> lim - d" using a(2,3) j by linarith
    moreover from this have "unat ?o = y - d + 24 * j" using a(4) by (simp only: unat_of_nat) (simp add: take_bit_nat_eq_self)
    ultimately have o: "unat ?o + unat (24 :: u64) \<le> unat ?n" using un by simp
    have e: "of_nat y + hh + of_nat j * 24 = ?data + ?o" using a(2) by (simp add: of_nat_diff ac_simps)
    show ?thesis unfolding e using clear_sub[OF i(4) o] sep_sub[OF i(6) o, of 0 90] by simp
  qed
  have g: "agree ?bi 80 (mem s) (mem ?s)" by (rule singleton_agree[OF i(5)]) simp
  note r = agree_mem_map[OF g]
  have "mem_map_is (mem ?s) (?bi + 16) segs"
    using m agree_segment[OF singleton_agree[OF conjunct2[OF seg]]] unfolding mem_map_is_def mm r a(1)[unfolded mm] Let_def by simp
  moreover have "clear_of_pm ?y (?bi + 16) 16" by (rule clear_sub[OF i(3)]) simp_all
  ultimately show ?thesis
    using i seg singleton_reads[of ?bi s] r(2) a(1) by (simp add: boot_ready_def Let_def mm)
qed

section \<open>From the boot loader to the memory managers\<close>

lemma started_mem: "started K P (k\<lparr>mem := v\<rparr>) = (started K P k)\<lparr>mem := v\<rparr>"
  by (simp add: started_def paged_def with_row_def Let_def)

lemma on_plat_moved:
  assumes "m (plat s) = m' q"
  shows "thn (on_plat m) f s = thn (on_plat m') f (s\<lparr>plat := q\<rparr>)"
proof -
  have "on_plat m s = on_plat m' (s\<lparr>plat := q\<rparr>)" using assms by (simp add: on_plat_def zoom_def split: sum.split prod.split)
  then show ?thesis by (simp add: thn_def bnd_def)
qed

text \<open>
  What the boot loader hands over and what the linker provides: the information at \<open>i\<close> with its tags, the last memory map \<open>t\<close> of them, the
  table of segment descriptors at \<open>g\<close> away from the boot information, a processor with the features, and the layout of \<open>bootable\<close>.
\<close>

definition loaded :: "boot \<Rightarrow> nat \<Rightarrow> nat \<Rightarrow> nat \<Rightarrow> nat \<Rightarrow> nat \<Rightarrow> tag list \<Rightarrow> tag \<Rightarrow> bool" where
  "loaded s b d lim g i ts t \<longleftrightarrow> multiboot_info (low s) b d lim i ts \<and> tag_in mem_map_tags ts = Some t \<and>
     a_bootinfo s = of_nat b \<and> a_bootinfo_data s = of_nat d \<and> a_boot_gdt s = of_nat g \<and> g + 26 \<le> 2 ^ 32 \<and>
     {g..<g + 26} \<inter> ({b..<b + 80} \<union> {d..<lim}) = {} \<and> holds (low s) g boot_gdt \<and> has_features s \<and>
     info_placed (sym (kernel (plat s))) b d lim (segments_in (low s) t)"

definition roomy :: "symbols \<Rightarrow> u32 \<Rightarrow> segment list \<Rightarrow> nat \<Rightarrow> nat \<Rightarrow> nat \<Rightarrow> nat \<Rightarrow> nat \<Rightarrow> nat \<Rightarrow> bool" where
  "roomy y bx segs K P a tx r x \<longleftrightarrow> (let A = boot_pages y segs in
     image_placed y bx K P \<and> statics_placed y \<and> (\<exists>k1<32768. \<exists>k2<32768. k1 \<noteq> k2 \<and> k1 \<notin> A \<and> k2 \<notin> A) \<and>
     4096 \<le> total_length segs - 4096 * of_nat (card A) \<and> laid_out y a tx r x \<and> 0 < a + tx + r + x \<and> P + (a + tx + r + x) \<le> K + 5)"

lemma info_run:
  assumes l: "loaded s b d lim g i ts t"
  obtains m1 m2 where "init_bootinfo (of_nat b) (of_nat d) (of_nat i) (low s) = Inr (of_nat (data_end d ts), m1)"
    "lift_pointers hh (of_nat b) (edited g m1) = Inr ((), m2)" "holds m2 g (take 24 gdt)"
    "\<forall>k. sym k = sym (kernel (plat s)) \<longrightarrow> boot_ready (with_singleton (of_nat b + hh) (k\<lparr>mem := view m2\<rparr>)) (segments_in (low s) t)"
proof -
  let ?n = "unat (word_at (low s) i)"
  have g: "{g..<g + 26} \<inter> ({b..<b + 80} \<union> {d..<lim}) = {}" "holds (low s) g boot_gdt" "g + 26 \<le> 2 ^ 32" and t: "tag_in mem_map_tags ts = Some t"
    and ip: "info_placed (sym (kernel (plat s))) b d lim (segments_in (low s) t)"
    using l by (simp_all add: loaded_def)
  have a: "arranged b d lim i (i + ?n)" "lim + 8 \<le> 2 ^ 31" "b + 80 \<le> 2 ^ 31" "?n < 2 ^ 31" "data_end d ts \<le> lim"
    "tags_at (low s) (i + 8) ts (i + ?n)" "\<forall>t\<in>set ts. tag_ok (low s) t" "\<forall>j<20. word_at (low s) (b + 4 * j) = 0"
    using l by (auto simp: loaded_def multiboot_info_def Let_def list_all_iff)
  have ar: "{b..<b + 80} \<inter> {d..<lim} = {}" using a(1) by (simp add: arranged_def)
  obtain m1 where m1: "init_bootinfo (of_nat b) (of_nat d) (of_nat i) (low s) = Inr (of_nat (data_end d ts), m1)" "handed (low s) m1 b (placed d ts)"
    "only ({b..<b + 80} \<union> {d..<lim}) (low s) m1"
    by (rule init_bootinfo_run[OF a(1) _ _ _ a(6,7,8,5)]) (use a(4) that in simp_all)
  have "laid d d []" by (simp add: laid_def module_nodes_def)
  from laid_placed[OF this order_refl, of ts] have la: "laid d lim (placed d ts)" using laid_mono a(5) by auto
  have h: "handed (low s) (edited g m1) b (placed d ts)"
    by (rule handed_only[OF m1(2) edited_only[OF g(3)] g(1) la]) (use a(2,3) in simp_all)
  obtain m2 where m2: "lift_pointers hh (of_nat b) (edited g m1) = Inr ((), m2)" "raised m2 (b + 8) (module_nodes (placed d ts))"
    "\<forall>t\<in>set (placed d ts). stored (low s) m2 t" "ld64 m2 (of_nat b) = ld64 (edited g m1) (of_nat b) + hh"
    "ld64 m2 (of_nat (b + 24)) = ld64 (edited g m1) (of_nat (b + 24)) + hh"
    "only ({b..<b + 16} \<union> {b + 24..<b + 32} \<union> {d..<lim}) (edited g m1) m2"
    by (rule lift_run[OF h a(1) la order_refl a(2,3)]) (rule that, assumption+)
  have f: "mem_map_field (edited g m1) b (last_tag mem_map_tags (placed d ts))" "word_at (edited g m1) (b + 20) = 0" "word_at (edited g m1) (b + 28) = 0"
    using h unfolding handed_def by blast+
  obtain y where y: "mem_map_is (view m2) (bootinfo_mem_map (of_nat b + hh)) (segments_in (low s) t)"
    "mem_map_segments (view m2) (bootinfo_mem_map (of_nat b + hh)) = of_nat y + hh" "d \<le> y" "y + 24 * length (segments_in (low s) t) \<le> lim"
    by (rule mem_map_kept[OF t f la a(2,3) ar m2(3,5,6)]) (rule that, assumption+)
  have r: "boot_ready (with_singleton (of_nat b + hh) (k\<lparr>mem := view m2\<rparr>)) (segments_in (low s) t)" if "sym k = sym (kernel (plat s))" for k
    by (rule singleton_ready[OF _ _ _ y(3,4)]) (use that ip y(1,2) a(2) in simp_all)
  have gs: "{g..<g + length boot_gdt} \<inter> ({b..<b + 80} \<union> {d..<lim}) = {}" by (rule miss[OF g(1)]) (simp add: boot_cs(3))
  have n: "length (take 24 gdt) = length boot_gdt" "length boot_gdt = 24" by (simp_all only: boot_gdt_bytes(2) boot_cs(3)) simp
  have "holds (edited g m1) g (take 24 gdt)" by (rule edited_gdt[OF holds_only[OF g(2) m1(3) gs]]) (use g(3) n in simp_all)
  from holds_only[OF this m2(6)] have "holds m2 g (take 24 gdt)"
    unfolding n using miss[OF gs, of "{g..<g + 24}"] gs g(3) by (simp add: n(2) Int_Un_distrib) (auto simp: disjoint_iff)
  then show thesis using that m1(1) m2(1) r by blast
qed

lemma thn_InrD: "thn m f s = Inr (x, s') \<Longrightarrow> \<exists>y t. m s = Inr (y, t) \<and> f t = Inr (x, s')"
  by (simp add: thn_def bnd_def split: sum.splits prod.splits)

lemma image_placed_high: "image_placed y bx K P \<Longrightarrow> HIGHER_HALF y = hh"
  by (simp add: image_placed_def)

text \<open>From the end of \<open>_stub32\<close> to the call of \<open>kernel_main\<close>.\<close>

lemma stub64_run:
  assumes m: "map_higher_half r10 r11 (kernel (plat s)) = Inr ((), k)" and y: "sym k = y" "HIGHER_HALF y = hh"
    and l: "lift_pointers hh (of_nat b) (low s) = Inr ((), m2)" and b: "a_bootinfo s = of_nat b" "b < 2 ^ 32"
  shows "stub64 srv r10 r11 s = thn (on_plat (kernel_main srv (of_nat b + hh))) fail_loop
    (s\<lparr>low := m2, plat := (plat s)\<lparr>kernel := k\<lparr>mem := view m2\<rparr>\<rparr>\<rparr>)"
proof -
  let ?s3 = "s\<lparr>plat := (plat s)\<lparr>kernel := k\<rparr>\<rparr>"
  have s3: "on_plat (on_kernel (map_higher_half r10 r11)) s = Inr ((), ?s3)" by (rule on_plat_Inr, rule on_kernel_Inr, rule m)
  have s4: "on_low (lift_pointers hh (of_nat b)) ?s3 = Inr ((), ?s3\<lparr>low := m2\<rparr>)" by (rule on_low_Inr) (simp add: l)
  have e: "enter_kernel (?s3\<lparr>low := m2\<rparr>) = s\<lparr>low := m2, plat := (plat s)\<lparr>kernel := k\<lparr>mem := view m2\<rparr>\<rparr>\<rparr>"
    by (simp add: enter_kernel_def y view_def Let_def)
  have u: "thn (modify enter_kernel) f (?s3\<lparr>low := m2\<rparr>) = f (enter_kernel (?s3\<lparr>low := m2\<rparr>))" for f :: "(boot, unit) kern"
    by (simp add: thn_def bnd_def modify_def)
  have v: "bnd (gets (\<lambda>s. (HIGHER_HALF (sym (kernel (plat s))), ucast (a_bootinfo s)))) f ?s3 = f (hh, of_nat b) ?s3"
    for f :: "addr \<times> addr \<Rightarrow> (boot, unit) kern" by (simp add: y b(1) reg[OF b(2)])
  show ?thesis
    unfolding stub64_def
    by (rule trans[OF thn_Inr], rule s3, unfold v prod.case, rule trans[OF thn_Inr], rule s4) (simp only: u e)
qed

text \<open>C1: The kernel starts from the information of the boot loader. If the tags are well formed, the processor has the features and the linker
  has placed the image and the static data, the code from \<open>_start\<close> on reaches \<open>kernel_main\<close> in 64 bit mode with the table of segments
  that the kernel uses, and \<open>kernel_main\<close> reaches the devices with all three memory managers ready for the memory map of the last memory
  map tag: its reserved pages, the image and one more page are locked, and the sections of the image have their permissions.\<close>

theorem start_initialises_memory:
  assumes "loaded s b d lim g i ts t" "roomy (sym (kernel (plat s))) (of_nat (data_end d ts)) (segments_in (low s) t) K P a tx r x"
  shows "\<exists>s'. start_multiboot srv r10 r11 MULTIBOOT2_BOOTLOADER_MAGIC (of_nat i) s =
      thn (on_plat (kernel_main_devices srv (of_nat b + hh))) fail_loop s' \<and>
    long_mode s' \<and> holds (low s') g (take 24 gdt) \<and>
    memory_ready (kernel (plat s')) (frame (K + 1)) (start_pages (sym (kernel (plat s))) (segments_in (low s) t))
      (total_length (segments_in (low s) t)) \<and>
    (\<forall>j<a + tx + r + x. let is = indices_of (LAYOUT_VADDR_START (sym (kernel (plat s))) + of_nat j * 4096); fs = frames (kernel (plat s')) in
      may_write fs (frame (K + 1)) is = (j < a \<or> a + tx + r \<le> j) \<and> may_execute fs (frame (K + 1)) is = (a \<le> j \<and> j < a + tx))"
proof -
  let ?k = "kernel (plat s)" and ?segs = "segments_in (low s) t" and ?e = "of_nat (data_end d ts) :: u32"
  let ?y = "sym ?k" and ?bi = "of_nat b + hh :: addr"
  obtain m1 m2 where i: "init_bootinfo (of_nat b) (of_nat d) (of_nat i) (low s) = Inr (?e, m1)"
    "lift_pointers hh (of_nat b) (edited g m1) = Inr ((), m2)" "holds m2 g (take 24 gdt)"
    "\<forall>k. sym k = ?y \<longrightarrow> boot_ready (with_singleton ?bi (k\<lparr>mem := view m2\<rparr>)) ?segs"
    by (rule info_run[OF assms(1)], rule that, assumption+)
  have l: "a_bootinfo s = of_nat b" "a_bootinfo_data s = of_nat d" "a_boot_gdt s = of_nat g" "g + 26 \<le> 2 ^ 32" "has_features s" "b < 2 ^ 32"
    using assms(1) by (simp_all add: loaded_def multiboot_info_def Let_def)
  have p: "image_placed ?y ?e K P" and o: "roomy ?y ?e ?segs K P a tx r x" using assms(2) by (simp_all add: roomy_def Let_def)
  obtain k1 where k1: "setup_paging ?e ?k = Inr ((), k1)" "map_higher_half r10 r11 k1 = Inr ((), started K P ?k)"
    using thn_InrD[OF paging_run[OF p, of r10 r11]] by auto
  let ?s1 = "s\<lparr>low := m1\<rparr>"
  have "has_features ?s1" using l(5) by (simp add: has_features_def)
  then obtain s2 where s2: "stub32 ?e ?s1 = Inr ((), s2)" "long_mode s2" "kernel (plat s2) = k1" "low s2 = edited g m1" "a_bootinfo s2 = of_nat b"
    by (rule stub32_run[of ?s1 ?e k1 g]) (use k1(1) l that in auto)
  define m where "m = (plat s2)\<lparr>kernel := ?k\<lparr>mem := view m2\<rparr>\<rparr>"
  have km: "kernel m = ?k\<lparr>mem := view m2\<rparr>" "sym (kernel m) = ?y" by (simp_all add: m_def)
  have bt: "bootable (kernel m) ?e ?bi ?segs K P a tx r x" using o i(4) km by (simp add: bootable_def roomy_def Let_def)
  obtain k0 k where k: "thn (setup_paging ?e) (map_higher_half r10 r11) (kernel m) = Inr ((), k0)" "cr3 k0 = frame (K + 1)"
    "kernel_main srv ?bi (m\<lparr>kernel := k0\<rparr>) = kernel_main_devices srv ?bi (m\<lparr>kernel := k\<rparr>)"
    "memory_ready k (frame (K + 1)) (start_pages ?y ?segs) (total_length ?segs)"
    "\<forall>j<a + tx + r + x. let is = indices_of (LAYOUT_VADDR_START ?y + of_nat j * 4096) in
      may_write (frames k) (frame (K + 1)) is = (j < a \<or> a + tx + r \<le> j) \<and> may_execute (frames k) (frame (K + 1)) is = (a \<le> j \<and> j < a + tx)"
    by (rule start_run[OF bt, of r10 r11 srv, unfolded km(2)]) (rule that, assumption+)
  have k0: "k0 = (started K P ?k)\<lparr>mem := view m2\<rparr>"
    using k(1) paging_run[of "kernel m" ?e K P r10 r11] p km(2) unfolding km(1) started_mem by simp
  let ?s5 = "s2\<lparr>low := m2, plat := m\<lparr>kernel := k0\<rparr>\<rparr>"
  have s5: "stub64 srv r10 r11 s2 = thn (on_plat (kernel_main srv ?bi)) fail_loop ?s5"
  proof -
    have "m\<lparr>kernel := k0\<rparr> = (plat s2)\<lparr>kernel := (started K P ?k)\<lparr>mem := view m2\<rparr>\<rparr>" by (simp add: m_def k0)
    moreover have "sym (started K P ?k) = ?y" using started_rows(6)[OF image_placed_index(1)[OF p]] .
    ultimately show ?thesis using stub64_run[of r10 r11 s2 "started K P ?k" ?y b m2 srv] k1(2) i(2) s2(3-5) l(6) image_placed_high[OF p] by simp
  qed
  let ?s' = "?s5\<lparr>plat := m\<lparr>kernel := k\<rparr>\<rparr>"
  have "start_multiboot srv r10 r11 MULTIBOOT2_BOOTLOADER_MAGIC (of_nat i) s = stub64 srv r10 r11 s2"
    unfolding start_multiboot_def by (simp add: l(1,2)) (rule trans[OF bnd_Inr], rule on_low_Inr, rule i(1), rule thn_Inr, rule s2(1))
  also have "\<dots> = thn (on_plat (kernel_main_devices srv ?bi)) fail_loop ?s'"
    unfolding s5 by (rule on_plat_moved) (simp add: k(3))
  finally have run: "start_multiboot srv r10 r11 MULTIBOOT2_BOOTLOADER_MAGIC (of_nat i) s =
    thn (on_plat (kernel_main_devices srv ?bi)) fail_loop ?s'" .
  have "long_mode ?s'" using s2(2) by (simp add: long_mode_def m_def)
  then show ?thesis using run i(3) k(4,5) by (intro exI[of _ ?s']) (simp add: Let_def)
qed

end
