(* ===== verification/Cpu_demo.thy ===== *)
theory Cpu_demo
  imports Pit Log
begin

text \<open>
  The results about the interrupt hardware on the machine of \<open>Log\<close>: the descriptor table is at \<open>0x22000\<close>, the
  handlers are at \<open>0x20000\<close>, and interrupts push their frames at \<open>0x30000\<close>.
\<close>

lemma demo_cpu [simp]:
  "a_isrs demo_machine = 0x20000" "a_idt demo_machine = 0x22000" "a_pit_handler demo_machine = 0xffffffff80013000"
  "\<not> use_new_pic demo_machine" "a_isr demo_machine n = 0xffffffff80012000 + of_nat (16 * n)"
  by (simp_all add: demo_machine_def)

lemma demo_idt: "agree 0x22000 4096 (\<lambda>_. 0) (ram demo_machine)"
proof -
  have "agree 0x22000 4096 (\<lambda>_. 0) demo_memory"
    unfolding demo_memory_def
    by (rule agree_trans[OF _ agree_st64], rule agree_trans[OF _ agree_st64], rule agree_trans[OF _ agree_st64],
        rule agree_trans[OF _ agree_st64], rule agree_trans[OF _ agree_st64], rule agree_trans[OF _ agree_st64],
        rule agree_trans[OF _ agree_st64], rule agree_trans[OF _ agree_st64], rule agree_st64)
      (simp_all add: sep_def)
  moreover have "agree 0x22000 4096 demo_memory (ram demo_machine)"
    by (simp add: demo_machine_def agree_def)
  ultimately show ?thesis by (rule agree_trans)
qed

lemma demo_idt_blank: "\<forall>x. x - a_idt demo_machine < 4096 \<longrightarrow> ram demo_machine x = 0"
  using demo_idt by (simp add: agree_def)

lemma demo_tables_apart: "sep (a_isrs demo_machine) 2048 (a_idt demo_machine) 4096"
  "sep (a_isrs demo_machine + 2048) 1792 (a_idt demo_machine) 4096" "sep (a_isrs demo_machine) 2048 0x30000 136"
  by (simp_all add: sep_def)

lemma pic_ack_ends_interrupts_witness:
  "\<exists>s' tr. pic_ack 40 demo_machine = Inr ((), s') \<and> trace s' = trace demo_machine @ tr \<and>
    chip_after PIC2 tr chip_reset = chip_reset\<lparr>eois := 1\<rparr>"
  using pic_ack_ends_interrupts[of demo_machine 40 chip_reset]
  by (fastforce simp: PIC_IRQBASE_def chip_reset_def)

lemma isr_init_installs_gates_witness:
  "\<exists>s'. isr_init demo_machine = Inr ((), s') \<and>
     gate_of (ram s') (idt_slot (a_idt s') 14) = \<lparr>target = 0xffffffff800120e0, selector = 8, stack_switch = 0,
       kind = 0xf, level = 0, valid = True\<rparr> \<and>
     \<not> valid (gate_of (ram s') (idt_slot (a_idt s') 200))"
proof -
  obtain s' where s': "isr_init demo_machine = Inr ((), s')"
    "\<forall>n<48. gate_of (ram s') (idt_slot (a_idt s') n) =
       \<lparr>target = a_isr demo_machine n, selector = 8, stack_switch = 0,
        kind = gate_code (if n < 32 \<and> n \<noteq> 2 then GATE_TRAP else GATE_INTERRUPT), level = 0, valid = True\<rparr>"
    "\<forall>n. 48 \<le> n \<and> n < 256 \<longrightarrow> \<not> valid (gate_of (ram s') (idt_slot (a_idt s') n))"
    using isr_init_installs_gates[OF _ demo_idt_blank demo_tables_apart(1)] by (auto simp: selectors)
  then show ?thesis by auto
qed

lemma isr_init_clears_behind_the_table_witness:
  "\<exists>s'. isr_init demo_machine = Inr ((), s') \<and> ram s' 0x20800 = 0"
proof -
  obtain s' where "isr_init demo_machine = Inr ((), s')" "\<forall>x. x - (a_isrs demo_machine + 2048) < 1792 \<longrightarrow> ram s' x = 0"
    using isr_init_clears_behind_the_table[OF _ demo_tables_apart(2)] by auto
  then show ?thesis by auto
qed

lemma isr_register_effect_witness:
  "\<exists>s'. isr_register 33 0x1234 0x30000 demo_machine = Inr ((), s') \<and> handler_of s' 33 = 0x1234 \<and>
    ld64 (ram s') 0x30000 = handler_of demo_machine 33"
  using isr_register_effect[of "0x30000" demo_machine 33 "0x1234"] by (auto simp: sep_def)

lemma pit_init_sets_up_no_counter_witness: "\<exists>s'. pit_init demo_machine = Inr ((), s') \<and> handler_of s' 32 = 0xffffffff80013000"
  using pit_init_sets_up_no_counter[of demo_machine] by auto

lemma pit_period_is_inverted_witness: "pit_set_period_us 1000000 demo_machine = Inl AssertFailed"
  using pit_period_is_inverted[of 1000 1000000 demo_machine] by simp

lemma timer_interrupts_are_served_witness:
  "\<exists>s' u. thn isr_init (thn pit_init int_enable) demo_machine = Inr ((), s') \<and>
     isr_stub 32 0 (\<lambda>i. of_nat i) 0x30000 s' = Inr ([0, 1, 2, 3, 4, 5, 6, 7, 8, 9, 10, 11, 12, 13, 14], u) \<and>
     isr_stub 14 2 (\<lambda>i. of_nat i) 0x30000 s' = Inl AssertFailed"
proof -
  obtain s' where s': "thn isr_init (thn pit_init int_enable) demo_machine = Inr ((), s')"
    and all: "\<forall>ns t frame err regs. reaches s' ns t \<and> sep (a_isrs demo_machine) 2048 frame 136 \<longrightarrow>
      trace t = trace s' @ replicate (length ns) (Out PIC1_COMM PIC_EOI) \<and>
      (\<exists>u. isr_stub 32 err regs frame t = Inr (map regs [0..<15], u) \<and> reaches s' (ns @ [32]) u) \<and>
      (\<forall>n. n \<noteq> 32 \<longrightarrow> isr_stub n err regs frame t = Inl AssertFailed)"
    using timer_interrupts_are_served[OF _ demo_idt_blank demo_tables_apart(1)] by auto
  have "reaches s' [] s'" by (rule reaches.none)
  note r = all[rule_format, OF conjI[OF this demo_tables_apart(3)]]
  obtain u where "isr_stub 32 0 (\<lambda>i. of_nat i) 0x30000 s' = Inr (map of_nat [0..<15], u)" using r by blast
  moreover have "isr_stub 14 2 (\<lambda>i. of_nat i) 0x30000 s' = Inl AssertFailed" using r by simp
  ultimately show ?thesis using s' by (auto simp: upt_conv_Cons)
qed

end
