(* ===== verification/Mm_blocks.thy ===== *)
theory Mm_blocks
  imports Mm_heap
begin

text \<open>
  What the clients of the heap get: the bytes they have asked for. A request of at most 48 bytes lies inside the
  chunk that \<open>mm_alloc\<close> takes; a larger one is longer than its chunk and runs into the next one.
\<close>

section \<open>Blocks of at most 48 bytes\<close>

text \<open>
  Blocks of memory as clients hold them, an address and the size asked for: each lies in a chunk that has been handed
  out, and no two of them overlap.
\<close>

definition blocks_ok :: "heap \<Rightarrow> (addr \<times> u64) set \<Rightarrow> bool" where
  "blocks_ok H A \<longleftrightarrow>
     (\<forall>(p, n)\<in>A. 0 < n \<and> (\<exists>t<16. \<exists>i\<in>live H t. p = chunk t i \<and> n \<le> slab_size (of_nat t))) \<and>
     (\<forall>(p, n)\<in>A. \<forall>(q, k)\<in>A. (p, n) \<noteq> (q, k) \<longrightarrow> sep p n q k)"


lemma no_blocks: "blocks_ok H {}"
  by (simp add: blocks_ok_def)


lemma slab_size_short:
  assumes "48 < unat sz" "unat sz < 4096"
  shows "slab_size (of_nat (slab_for_size sz)) < sz" "2 * csize (slab_for_size sz) \<le> 4095"
  using assms by (auto simp: slab_for_size_def word_less_nat_alt csize_def)



section \<open>Larger blocks\<close>

lemma grown_two:
  assumes "t < 15" "2 * csize t \<le> 4095"
  shows "n + 2 \<le> grown t n"
proof -
  have c: "0 < csize t" using csize_bounds(1)[of t] assms(1) by simp
  have "(n + 2) * csize t \<le> page_up (n * csize t) + 4095" using page_up_bounds(1)[of "n * csize t"] assms(2) by simp
  then show ?thesis using c by (simp add: grown_def less_eq_div_iff_mult_less_eq)
qed

text \<open>C21: Two requests of the same size between 49 and 4095 bytes, the first of which makes its slab grow, return overlapping
  memory: the second block begins below the first one and runs into it.\<close>

theorem large_blocks_overlap:
  assumes "heap_rel (mem s) (sym s) H" "48 < unat sz" "unat sz < 4096"
    "snd (H (slab_for_size sz)) = []" "can_grow s root (slab_for_size sz) (fst (H (slab_for_size sz)))"
  shows "\<exists>p q s1 s2. mm_alloc (pm_request_page srv) sz s = Inr (p, s1) \<and> mm_alloc (pm_request_page srv) sz s1 = Inr (q, s2) \<and>
    q < p \<and> p - q < sz"
proof -
  let ?t = "slab_for_size sz"
  have sz: "8 < unat sz" using assms(2) by simp
  obtain n where h: "H ?t = (n, [])" using assms(4) by (cases "H ?t") auto
  have t: "?t < 15" "?t < 16" using slab_for_size_bound[of sz] by simp_all
  note short = slab_size_short[OF assms(2,3)]
  obtain d where "grown ?t n = n + 2 + d" using grown_two[OF t(1) short(2), of n] le_Suc_ex by blast
  then obtain m where m: "grown ?t n = Suc (Suc m)" "n \<le> m" using that[of "n + d"] by simp
  let ?H = "H(?t := (Suc (Suc m), m # rev [n..<m]))"
  have k: "heap_take ?t H = (Suc m, ?H)" using m by (simp add: h)
  have g: "snd (H ?t) \<noteq> [] \<or> can_grow s root ?t (fst (H ?t))" using assms(5) by simp
  obtain s1 where s1: "mm_alloc (pm_request_page srv) sz s = Inr (chunk ?t (Suc m), s1)" "heap_rel (mem s1) (sym s1) ?H"
    by (rule mm_alloc_run[OF assms(1) sz assms(3) refl g, of srv, unfolded k fst_conv snd_conv], rule that, assumption+)
  have k2: "heap_take ?t ?H = (m, ?H(?t := (Suc (Suc m), rev [n..<m])))" by simp
  have "snd (?H ?t) \<noteq> [] \<or> can_grow s1 root ?t (fst (?H ?t))" by simp
  then obtain s2 where s2: "mm_alloc (pm_request_page srv) sz s1 = Inr (chunk ?t m, s2)"
    using mm_alloc_run[OF s1(2) sz assms(3) refl, of root srv] k2 by (metis fst_conv)
  have "(Suc m + 1) * csize ?t \<le> 2 ^ 36"
  proof -
    have "slab_holds (mem s1) (sym s1) ?t (Suc (Suc m), m # rev [n..<m])" using s1(2) t(2) by (auto simp: heap_rel_def)
    then show ?thesis by (simp add: slab_holds_def)
  qed
  then have "m * csize ?t \<le> 2 ^ 36" "Suc m * csize ?t \<le> 2 ^ 36" by simp_all
  note u = unat_chunk[OF t(2) this(1)] unat_chunk[OF t(2) this(2)]
  have "0 < csize ?t" using csize_bounds(1)[OF t(2)] by simp
  then have "chunk ?t m < chunk ?t (Suc m)" using u by (simp add: word_less_nat_alt)
  moreover have "chunk ?t (Suc m) - chunk ?t m = slab_size (of_nat ?t)" by (simp add: chunk_Suc csize_word[OF t(2)])
  ultimately show ?thesis using s1(1) s2 short(1) by auto
qed

end
