(* ===== verification/Mmu.thy ===== *)
theory Mmu
  imports Vm_map
begin

text \<open>
  The translation that an x86-64 processor makes with four levels of tables, written from its manual and apart from the
  code: canonical addresses, the bit for large pages, the reserved bits of the upper entries. Physical addresses have the full
  52 bits and the NX bit is enabled, so no other bit is reserved. The code of \<open>vm.c\<close> looks neither at the bits above
  the index fields nor at the bit for large pages.
\<close>

section \<open>The processor\<close>

text \<open>Bit 7 of an entry that is not in a table of the last level: the entry maps a large page.\<close>

definition large :: "pte \<Rightarrow> bool" where
  "large e \<longleftrightarrow> bit e 7"

text \<open>
  The page or the table in an entry with \<open>b\<close> low bits of offset. In an entry for a large page the bits from 13 on that lie
  below the address are reserved. Entries of the top table must not be large.
\<close>

definition frame_base :: "nat \<Rightarrow> pte \<Rightarrow> addr" where
  "frame_base b e = push_bit b (take_bit (52 - b) (drop_bit b e))"

fun mmu_walk :: "(addr \<Rightarrow> nat \<Rightarrow> pte) \<Rightarrow> nat \<Rightarrow> addr \<Rightarrow> addr \<Rightarrow> addr option" where
  "mmu_walk fr 0 p v = Some (p OR take_bit 12 v)"
| "mmu_walk fr (Suc n) p v =
     (let e = fr p (unat (take_bit 9 (drop_bit (12 + 9 * n) v))) in
      if \<not> bit e 0 then None
      else if 0 < n \<and> large e then
        if n = 3 \<or> take_bit (9 * n - 1) (drop_bit 13 e) \<noteq> 0 then None
        else Some (frame_base (12 + 9 * n) e OR take_bit (12 + 9 * n) v)
      else mmu_walk fr n (frame_base 12 e) v)"

definition mmu_translate :: "(addr \<Rightarrow> nat \<Rightarrow> pte) \<Rightarrow> addr \<Rightarrow> addr \<Rightarrow> addr option" where
  "mmu_translate fr root v = (if canonical v then mmu_walk fr 4 root v else None)"

text \<open>The canonical address with the same low 48 bits.\<close>

definition canonical_form :: "addr \<Rightarrow> addr" where
  "canonical_form v = signed_take_bit 47 v"

text \<open>No entry above the last level of a walk maps a large page.\<close>

fun small_pages :: "(addr \<Rightarrow> nat \<Rightarrow> pte) \<Rightarrow> addr \<Rightarrow> u64 list \<Rightarrow> bool" where
  "small_pages fr p [] \<longleftrightarrow> True"
| "small_pages fr p [i] \<longleftrightarrow> True"
| "small_pages fr p (i # j # is) \<longleftrightarrow>
     (present (fr p (unat i)) \<longrightarrow> \<not> large (fr p (unat i)) \<and> small_pages fr (PTEPADDR (fr p (unat i))) (j # is))"

section \<open>Canonical addresses\<close>

lemma canonical_bits: "canonical v \<longleftrightarrow> (\<forall>k. 47 \<le> k \<and> k < 64 \<longrightarrow> bit v k = bit v 47)"
proof
  assume c: "canonical v"
  have m: "(0x1ffff :: u64) = mask 17" by (simp add: mask_eq_exp_minus_1)
  have "bit v k = bit v 47" if "47 \<le> k" "k < 64" for k
  proof -
    have b: "bit v k = bit (drop_bit 47 v) (k - 47)" "bit v 47 = bit (drop_bit 47 v) 0"
      using that by (simp_all add: bit_drop_bit_eq)
    show ?thesis using c that unfolding canonical_def m b by (auto simp: bit_mask_iff)
  qed
  then show "\<forall>k. 47 \<le> k \<and> k < 64 \<longrightarrow> bit v k = bit v 47" by blast
next
  assume a: "\<forall>k. 47 \<le> k \<and> k < 64 \<longrightarrow> bit v k = bit v 47"
  have m: "(0x1ffff :: u64) = mask 17" by (simp add: mask_eq_exp_minus_1)
  show "canonical v"
  proof (cases "bit v 47")
    case True
    have "drop_bit 47 v = mask 17" by (rule bit_word_eqI) (use a True in \<open>auto simp: bit_drop_bit_eq bit_mask_iff dest: bit_imp_le_length\<close>)
    then show ?thesis by (simp add: canonical_def m)
  next
    case False
    have "\<not> bit v (47 + k)" for k using a False bit_imp_le_length[of v "47 + k"] by auto
    then have "drop_bit 47 v = 0" by (intro bit_word_eqI) (simp add: bit_drop_bit_eq)
    then show ?thesis by (simp add: canonical_def)
  qed
qed

lemma canonical_form_bit: "k < 64 \<Longrightarrow> bit (canonical_form v) k = bit v (min 47 k)"
  by (simp add: canonical_form_def bit_signed_take_bit_iff min.commute)

lemma canonical_form: "canonical (canonical_form v)" "canonical v \<longleftrightarrow> canonical_form v = v"
proof -
  have "bit (canonical_form v) k = bit (canonical_form v) 47" if "47 \<le> k" "k < 64" for k
    using that canonical_form_bit[of k v] canonical_form_bit[of 47 v] by (simp add: min_absorb1)
  then show c: "canonical (canonical_form v)" unfolding canonical_bits by blast
  have "canonical_form v = v" if "canonical v"
  proof (rule bit_word_eqI)
    fix k assume k: "k < LENGTH(64)"
    then have "bit (canonical_form v) k = bit v (min 47 k)" by (intro canonical_form_bit) simp
    also have "\<dots> = bit v k" using that[unfolded canonical_bits, rule_format, of k] k by (cases "47 \<le> k") (simp_all add: min_absorb1 min_absorb2)
    finally show "bit (canonical_form v) k = bit v k" .
  qed
  then show "canonical v \<longleftrightarrow> canonical_form v = v" using c by metis
qed

lemma canonical_form_fields: "indices_of (canonical_form v) = indices_of v" "take_bit 12 (canonical_form v) = take_bit 12 v"
proof -
  have k: "bit (canonical_form v) k = bit v k" if "k < 48" for k
    using canonical_form_bit[of k v] that by (cases "k = 47") (simp_all add: min_def)
  have m: "x AND 0x1ff = take_bit 9 x" for x :: u64 by (simp add: take_bit_eq_mask mask_eq_exp_minus_1)
  have "take_bit 9 (drop_bit n (canonical_form v)) = take_bit 9 (drop_bit n v)" if "n \<le> 39" for n
    by (rule bit_word_eqI) (use that k in \<open>auto simp: bit_take_bit_iff bit_drop_bit_eq\<close>)
  then show "indices_of (canonical_form v) = indices_of v"
    by (simp add: indices_of_def pml4_index_def pdp_index_def pd_index_def pt_index_def m)
  show "take_bit 12 (canonical_form v) = take_bit 12 v"
    by (rule bit_word_eqI) (auto simp: bit_take_bit_iff k)
qed

section \<open>The walk of the code\<close>

lemma frame_base_12: "frame_base 12 e = PTEPADDR e"
  by (rule bit_word_eqI) (auto simp: frame_base_def bit_push_bit_iff bit_take_bit_iff bit_drop_bit_eq PTEPADDR_bit)

text \<open>The index fields for the lowest \<open>n\<close> levels.\<close>

fun fields :: "nat \<Rightarrow> addr \<Rightarrow> u64 list" where
  "fields 0 v = []"
| "fields (Suc n) v = take_bit 9 (drop_bit (12 + 9 * n) v) # fields n v"

lemma fields_4: "fields 4 v = indices_of v"
proof -
  have m: "x AND 0x1ff = take_bit 9 x" for x :: u64 by (simp add: take_bit_eq_mask mask_eq_exp_minus_1)
  show ?thesis by (simp add: numeral_eq_Suc[of "num.Bit0 (num.Bit0 num.One)"] indices_of_def pml4_index_def pdp_index_def pd_index_def pt_index_def m eval_nat_numeral)
qed

lemma mmu_walk_small:
  "small_pages fr p (fields n v) \<Longrightarrow> mmu_walk fr n p v = map_option (\<lambda>q. q OR take_bit 12 v) (walk fr p (fields n v))"
proof (induction n arbitrary: p)
  case (Suc n)
  let ?e = "fr p (unat (take_bit 9 (drop_bit (12 + 9 * n) v)))"
  have e: "present ?e = bit ?e 0" by (simp add: present_def)
  show ?case
  proof (cases n)
    case 0
    then show ?thesis using e by (simp add: Let_def frame_base_12)
  next
    case (Suc k)
    then have s: "present ?e \<Longrightarrow> \<not> large ?e \<and> small_pages fr (PTEPADDR ?e) (fields n v)" using Suc.prems by simp
    show ?thesis using s Suc.IH[of "PTEPADDR ?e"] by (auto simp: Let_def e frame_base_12)
  qed
qed simp

text \<open>Where no large page is met, the walk over the tables gives what the processor translates the canonical form to.\<close>

lemma translate_mmu:
  assumes "small_pages fr root (indices_of v)"
  shows "translate fr root v = mmu_translate fr root (canonical_form v)"
proof -
  have "PAGEOFFSET v = take_bit 12 v" by (simp add: PAGEOFFSET_def PAGE_SIZE_def take_bit_eq_mask mask_eq_exp_minus_1)
  moreover have "small_pages fr root (fields 4 (canonical_form v))" using assms by (simp only: fields_4 canonical_form_fields)
  ultimately show ?thesis
    using mmu_walk_small[of fr root 4 "canonical_form v"]
    by (simp add: mmu_translate_def canonical_form(1) translate_def fields_4 canonical_form_fields map_option_case del: mmu_walk.simps split: option.splits)
qed

text \<open>The entries that the code writes are never large.\<close>

lemma written_entries_small: "\<not> large (set_pte a fl)" "large (relevel fl e) = large e"
  by (simp_all add: large_def set_pte_bit relevel_def put_bit_bit)

text \<open>C8: Over tables without large pages, \<open>vm_vaddr_to_paddr\<close> returns the physical address that the processor translates the
  canonical form of the address to, and fails with \<open>ENOMAP\<close> exactly where the processor faults; it leaves the tables and the
  temporary window as they were. For a canonical address that is the translation of the address itself; for any other address
  the processor has none.\<close>

theorem translation_is_page_walk:
  assumes "table \<noteq> 0" "at_table 4 s table root (indices_of v)" "small_pages (frames s) root (indices_of v)"
  shows "(\<exists>iv. vm_vaddr_to_paddr table v pa s =
      Inr (case mmu_translate (frames s) root (if canonical v then v else canonical_form v) of
             None \<Rightarrow> (fails ENOMAP, pa) | Some q \<Rightarrow> (SUCCESS, q), s\<lparr>invalidated := iv\<rparr>)) \<and>
    (\<not> canonical v \<longrightarrow> mmu_translate (frames s) root v = None)"
proof -
  have "(if canonical v then v else canonical_form v) = canonical_form v" using canonical_form(2)[of v] by metis
  then show ?thesis using translate_run[OF assms(1,2), of pa] translate_mmu[OF assms(3)]
    by (simp add: upd_frames mmu_translate_def del: mmu_walk.simps)
qed

end
