(* ===== verification/Vm_demo.thy ===== *)
theory Vm_demo
  imports Vm_boot Vm_limits Mmu
begin

text \<open>
  A concrete state with tables for addresses around \<open>0xffff800000000000\<close> and \<open>0xffff803000000000\<close>, one user page at
  \<open>0xffff800000005000\<close> and an empty temporary window, on which the properties of the page table code
  are applied.
\<close>

definition demo_tables :: "addr \<Rightarrow> nat \<Rightarrow> pte" where
  "demo_tables f i =
     (if f = 0x1000 \<and> i = 256 then set_pte 0x2000 (VM_FLAG_WRITABLE OR VM_FLAG_USER)
      else if f = 0x2000 \<and> (i = 0 \<or> i = 192) then set_pte 0x3000 (VM_FLAG_WRITABLE OR VM_FLAG_USER)
      else if f = 0x3000 \<and> i = 0 then set_pte 0x4000 (VM_FLAG_WRITABLE OR VM_FLAG_USER)
      else if f = 0x4000 \<and> i = 5 then set_pte 0x9000 (VM_FLAG_WRITABLE OR VM_FLAG_USER)
      else 0)"

definition demo_vm :: kst where
  "demo_vm = demo_state\<lparr>frames := demo_tables, kpml4 := 0xffffffff80001000, cr3 := 0x1000\<rparr>"

abbreviation demo_root :: addr where
  "demo_root \<equiv> 0x1000"

abbreviation demo_table :: addr where
  "demo_table \<equiv> 0xffffffff80001000"

abbreviation demo_page :: addr where
  "demo_page \<equiv> 0xffff800000005000"

lemma demo_vm_fields: "frames demo_vm = demo_tables" "tmp_frame demo_vm = 0x18000" "first_free_tmp_index demo_vm = 0"
    "HIGHER_HALF (sym demo_vm) = 0xffffffff80000000"
  by (simp_all add: demo_vm_def demo_state_def demo_symbols_def tmp_frame_def)

text \<open>No page is requested, because no table is missing.\<close>

abbreviation demo_request :: "(kst, addr) kern" where
  "demo_request \<equiv> halt TooDeep"

lemma demo_pages: "PTEPADDR 0x2000 = 0x2000" "PTEPADDR 0x3000 = 0x3000" "PTEPADDR 0x4000 = 0x4000"
    "PTEPADDR 0x9000 = 0x9000" "PTEPADDR 0x5000 = 0x5000"
  by (simp_all add: PTEPADDR_def)

lemma demo_flags: "ISFLAGSET (VM_FLAG_WRITABLE OR VM_FLAG_USER) VM_FLAG_WRITABLE"
    "ISFLAGSET (VM_FLAG_WRITABLE OR VM_FLAG_USER) VM_FLAG_USER" "\<not> ISFLAGSET VM_FLAG_WRITABLE VM_FLAG_USER"
    "ISFLAGUNSET (VM_FLAG_WRITABLE OR VM_FLAG_USER) VM_FLAG_EXECUTABLE"
    "\<not> ISFLAGSET (VM_FLAG_WRITABLE OR VM_FLAG_USER) VM_FLAG_STRICT"
  by (simp_all add: ISFLAGSET_def ISFLAGUNSET_def VM_FLAG_WRITABLE_def VM_FLAG_USER_def VM_FLAG_EXECUTABLE_def VM_FLAG_STRICT_def)

lemma demo_indices: "indices_of 0xffff800000005000 = [256, 0, 0, 5]" "indices_of 0xffff800000006000 = [256, 0, 0, 6]"
    "indices_of 0xffff800000005123 = [256, 0, 0, 5]"
  by (simp_all add: indices_of_def pml4_index_def pdp_index_def pd_index_def pt_index_def)

lemma demo_entries:
  "demo_tables 0x1000 256 = set_pte 0x2000 (VM_FLAG_WRITABLE OR VM_FLAG_USER)"
  "demo_tables 0x2000 0 = set_pte 0x3000 (VM_FLAG_WRITABLE OR VM_FLAG_USER)"
  "demo_tables 0x2000 192 = set_pte 0x3000 (VM_FLAG_WRITABLE OR VM_FLAG_USER)"
  "demo_tables 0x3000 0 = set_pte 0x4000 (VM_FLAG_WRITABLE OR VM_FLAG_USER)"
  "demo_tables 0x4000 k = (if k = 5 then set_pte 0x9000 (VM_FLAG_WRITABLE OR VM_FLAG_USER) else 0)"
  by (simp_all add: demo_tables_def)

lemmas demo = demo_entries demo_pages demo_indices demo_vm_fields demo_flags

lemma demo_path: "path demo_tables 0x1000 [256, 0, 0, i] = [0x1000, 0x2000, 0x3000, 0x4000]"
  "path demo_tables 0x1000 [256, 192, 0, i] = [0x1000, 0x2000, 0x3000, 0x4000]"
  by (simp_all add: demo)

lemma demo_window: "tmp_free demo_vm = {..<511}" "room 511 demo_vm"
proof -
  have e: "tmp_entry demo_vm i = 0" for i by (simp add: tmp_entry_def demo_vm_fields demo_tables_def)
  show f: "tmp_free demo_vm = {..<511}" by (auto simp: tmp_free_def e)
  have "Min {..<511 :: nat} = 0" by (intro Min_eqI) auto
  moreover have "{..<511 :: nat} \<noteq> {}" by (metis lessThan_iff empty_iff zero_less_numeral)
  ultimately show "room 511 demo_vm" by (simp add: room_def tmp_ok_def f e demo_vm_fields)
qed

lemma demo_at: "unat i < 512 \<Longrightarrow> at_table 4 demo_vm demo_table demo_root [256, 0, 0, i]"
  "unat i < 512 \<Longrightarrow> at_table 4 demo_vm demo_table demo_root [256, 192, 0, i]"
  using room_le[OF demo_window(2), of 3]
  by (simp_all only: at_table_def demo_vm_fields demo_path) (simp_all add: pt_page_def demo_vm_fields PT_TMP_START_VADDR_def)

lemma demo_aligned: "ISPAGEALIGNED 0xffff800000005000" "ISPAGEALIGNED 0xffff800000006000" "ISPAGEALIGNED 0x5000"
    "ISPAGEALIGNED 0x9000" "ISPAGEALIGNED 0x20000"
  by (simp_all add: ISPAGEALIGNED_def PAGEOFFSET_def)

lemma demo_in_leaf: "in_leaf demo_vm demo_table demo_root demo_page 1"
  by (simp add: in_leaf_def demo_aligned demo demo_at)

lemma demo_free_leaf: "free_leaf demo_vm demo_table demo_root 0xffff800000006000 3"
  by (simp add: free_leaf_def demo_aligned demo demo_at canonical_def
      absent_run_def)

section \<open>The properties at the concrete state\<close>

lemma demo_small: "small_pages demo_tables demo_root [256, 0, 0, i]"
  by (simp add: demo written_entries_small)

lemma demo_canonical: "canonical 0xffff800000005123"
  by (simp add: canonical_def)

lemma translation_is_page_walk_witness:
  "\<exists>iv. vm_vaddr_to_paddr demo_table 0xffff800000005123 0 demo_vm = Inr ((SUCCESS, 0x9123), demo_vm\<lparr>invalidated := iv\<rparr>)"
proof -
  have s: "small_pages (frames demo_vm) demo_root (indices_of 0xffff800000005123)" by (simp only: demo demo_small)
  have c: "canonical_form 0xffff800000005123 = 0xffff800000005123" using demo_canonical canonical_form(2) by blast
  have "translate (frames demo_vm) demo_root 0xffff800000005123 = Some 0x9123" by (simp add: translate_def demo PAGEOFFSET_def)
  then have m: "mmu_translate (frames demo_vm) demo_root 0xffff800000005123 = Some 0x9123" using translate_mmu[OF s] c by simp
  have t: "demo_table \<noteq> 0" "at_table 4 demo_vm demo_table demo_root (indices_of 0xffff800000005123)" by (simp_all add: demo demo_at)
  from translation_is_page_walk[OF t s, of 0] show ?thesis by (simp only: demo_canonical if_True m option.case)
qed

text \<open>Where the hypothesis on large pages fails: the entry for 2 MiB from \<open>0xffff800000000000\<close> on maps a large page, which the code
  takes for a table.\<close>

definition demo_large :: kst where
  "demo_large = demo_vm\<lparr>frames := demo_tables(0x3000 := (demo_tables 0x3000)(0 := 0x200083))\<rparr>"

lemma large_page_is_taken_for_a_table:
  "(\<exists>iv. vm_vaddr_to_paddr demo_table 0xffff800000005123 0 demo_large = Inr ((fails ENOMAP, 0), demo_large\<lparr>invalidated := iv\<rparr>)) \<and>
   mmu_translate (frames demo_large) demo_root 0xffff800000005123 = Some 0x205123"
proof -
  let ?v = "0xffff800000005123 :: addr" and ?fr = "demo_tables(0x3000 := (demo_tables 0x3000)(0 := 0x200083))"
  have f: "frames demo_large = ?fr" "first_free_tmp_index demo_large = 0" "tmp_frame demo_large = 0x18000"
    "HIGHER_HALF (sym demo_large) = 0xffffffff80000000"
    by (simp_all add: demo_large_def demo_vm_def demo_state_def demo_symbols_def tmp_frame_def)
  have e: "PTEPADDR 0x200083 = 0x200000" "present 0x200083" by (simp_all add: PTEPADDR_def present_def)
  have z: "demo_tables 0x200000 k = 0" "demo_tables 0x18000 k = 0" for k by (simp_all add: demo_tables_def)
  have p: "path ?fr demo_root [256, 0, 0, 5] = [0x1000, 0x2000, 0x3000, 0x200000]" "walk ?fr demo_root [256, 0, 0, 5] = None"
    by (simp_all add: demo e z)
  have te: "tmp_entry demo_large = tmp_entry demo_vm" by (rule ext) (simp add: tmp_entry_def f demo_vm_fields)
  then have "tmp_free demo_large = tmp_free demo_vm" by (simp add: tmp_free_def)
  then have "room 511 demo_large" using demo_window(2) te by (cases "tmp_free demo_vm = {}") (simp_all add: room_def tmp_ok_def f demo_vm_fields)
  then have "at_table 4 demo_large demo_table demo_root [256, 0, 0, 5]"
    using room_le[of 511 demo_large 3] by (simp only: at_table_def f p) (simp add: pt_page_def f PT_TMP_START_VADDR_def)
  then have "at_table 4 demo_large demo_table demo_root (indices_of ?v)" by (simp only: demo)
  moreover have "translate (frames demo_large) demo_root ?v = None" by (simp only: translate_def demo_indices f p option.case)
  moreover have "demo_table \<noteq> 0" by simp
  ultimately have "\<exists>iv. vm_vaddr_to_paddr demo_table ?v 0 demo_large = Inr ((fails ENOMAP, 0), demo_large\<lparr>invalidated := iv\<rparr>)"
    using translate_run[of demo_table demo_large demo_root ?v 0] by (simp only: upd_frames option.case simp_thms)
  moreover have "mmu_translate (frames demo_large) demo_root ?v = Some 0x205123"
  proof -
    have ix: "take_bit 9 (drop_bit 39 ?v) = 256" "take_bit 9 (drop_bit 30 ?v) = 0" "take_bit 9 (drop_bit 21 ?v) = 0" by simp_all
    have b: "bit e 0 = present e" for e :: pte by (simp add: present_def)
    have "mmu_walk ?fr (Suc 3) demo_root ?v = mmu_walk ?fr 3 0x2000 ?v"
      unfolding mmu_walk.simps(2) by (simp add: ix b demo frame_base_12 written_entries_small del: mmu_walk.simps)
    also have "\<dots> = mmu_walk ?fr (Suc 2) 0x2000 ?v" by simp
    also have "\<dots> = mmu_walk ?fr 2 0x3000 ?v"
      unfolding mmu_walk.simps(2) by (simp add: ix b demo frame_base_12 written_entries_small del: mmu_walk.simps)
    also have "\<dots> = mmu_walk ?fr (Suc 1) 0x3000 ?v" by (simp only: numeral_2_eq_2 One_nat_def)
    also have "\<dots> = Some 0x205123"
      unfolding mmu_walk.simps(2) by (simp add: ix b e large_def frame_base_def del: mmu_walk.simps)
    finally show ?thesis by (simp add: mmu_translate_def demo_canonical f del: mmu_walk.simps)
  qed
  ultimately show ?thesis by blast
qed

lemma set_backing_redirects_witness:
  "\<exists>s'. vm_set_backing demo_table demo_page 0x5000 demo_vm = Inr (SUCCESS, s') \<and>
    translate (frames s') demo_root demo_page = Some 0x5000"
proof -
  have h: "demo_table \<noteq> 0" "pte_address 0x5000" "at_table 4 demo_vm demo_table demo_root (indices_of demo_page)"
    "distinct (path (frames demo_vm) demo_root (indices_of demo_page))"
    "(translate (frames demo_vm) demo_root demo_page = None) = False"
    by (simp_all add: demo demo_at translate_def pte_address_def)
  from set_backing_redirects[OF h(1) demo_aligned(1) h(2-4), of 0] show ?thesis
    unfolding h(5) if_False by blast
qed

text \<open>One address of a property that holds for all addresses of a run.\<close>

lemma one_of_run:
  fixes j k :: nat
  assumes "\<exists>s. A s \<and> (\<forall>j<k. \<forall>x. B x \<longrightarrow> C s j x \<and> D s j x) \<and> E s" "j < k" "B x"
  shows "\<exists>s. A s \<and> C s j x"
  using assms by blast

lemma mapped_pages_translate_witness:
  "\<exists>s'. vm_map_pages demo_request demo_table 0x20000 (of_nat 3) 0xffff800000006000 VM_FLAG_WRITABLE demo_vm
      = Inr ((SUCCESS, 0xffff800000006000), s') \<and>
    translate (frames s') demo_root (0xffff800000006000 + of_nat 2 * 4096 + 5) = Some (0x20000 + of_nat 2 * 4096 + 5)"
proof -
  have o: "unat (5 :: addr) < 4096" "(2 :: nat) < 3" by simp_all
  have "unat (0x20000 :: addr) + 3 * 4096 \<le> 2 ^ 52" by simp
  note t = mapped_pages_translate[OF demo_free_leaf demo_aligned(5) this, of demo_request VM_FLAG_WRITABLE 0]
  show ?thesis by (rule one_of_run[OF t o(2,1)])
qed

lemma demo_leaf: "leaf (frames demo_vm) demo_root (indices_of demo_page) = (0x4000, 5)"
  by (simp add: demo)

lemma unmapped_pages_are_gone_witness:
  "\<exists>s'. vm_unmap_pages demo_table demo_page (of_nat 1) demo_vm = Inr (of_nat 1, s') \<and>
    translate (frames s') demo_root (demo_page + of_nat 0 * 4096 + 7) = None \<and> frames s' 0x3000 0 = frames demo_vm 0x3000 0 \<and>
    demo_page + of_nat 0 * 4096 \<in> set (invalidated s')"
proof -
  have z: "(0 :: nat) < 1" "unat (7 :: addr) < 4096" by simp_all
  obtain s' where s': "vm_unmap_pages demo_table demo_page (of_nat 1) demo_vm = Inr (of_nat 1, s')"
    and gone: "\<forall>j<1. \<forall>off. unat off < 4096 \<longrightarrow> translate (frames s') demo_root (demo_page + of_nat j * 4096 + off) = None \<and>
       (\<exists>iv. vm_vaddr_to_paddr demo_table (demo_page + of_nat j * 4096 + off) 0 s' = Inr ((fails ENOMAP, 0), s'\<lparr>invalidated := iv\<rparr>))"
    and entries: "\<forall>g j. frames s' g j = (if g = 0x4000 \<and> 5 \<le> j \<and> j < 5 + 1 then 0 else frames demo_vm g j)"
    and iv: "\<forall>j<1. demo_page + of_nat j * 4096 \<in> set (invalidated s')"
    using unmapped_pages_are_gone[OF demo_in_leaf demo_leaf, of 0] by (elim exE conjE)
  have "frames s' 0x3000 0 = frames demo_vm 0x3000 0" using entries by simp
  then show ?thesis using s' gone[rule_format, OF z] iv[rule_format, OF z(1)] by blast
qed

lemma flagged_pages_keep_translation_witness:
  "\<exists>s'. vm_flag_pages demo_table demo_page (of_nat 1) VM_FLAG_WRITABLE demo_vm = Inr (SUCCESS, s') \<and>
    \<not> user_accessible (frames s' 0x4000 (5 + 0)) \<and> translate (frames s') demo_root demo_page = Some 0x9000"
proof -
  have p: "present_run (frames demo_vm 0x4000) 5 1" by (auto simp: present_run_def demo)
  obtain s' where s': "vm_flag_pages demo_table demo_page (of_nat 1) VM_FLAG_WRITABLE demo_vm = Inr (SUCCESS, s')"
    and fl: "\<forall>j<1. writable (frames s' 0x4000 (5 + j)) = ISFLAGSET VM_FLAG_WRITABLE VM_FLAG_WRITABLE \<and>
       user_accessible (frames s' 0x4000 (5 + j)) = ISFLAGSET VM_FLAG_WRITABLE VM_FLAG_USER \<and>
       no_execute (frames s' 0x4000 (5 + j)) = ISFLAGUNSET VM_FLAG_WRITABLE VM_FLAG_EXECUTABLE \<and>
       (\<forall>off. unat off < 4096 \<longrightarrow> translate (frames s') demo_root (demo_page + of_nat j * 4096 + off) \<noteq> None)"
    and same: "\<forall>r w. translate (frames s') r w = translate (frames demo_vm) r w"
    using flagged_pages_keep_translation[OF demo_in_leaf demo_leaf p, of VM_FLAG_WRITABLE] by (elim exE conjE)
  have "\<not> user_accessible (frames s' 0x4000 (5 + 0))" using fl[rule_format, OF zero_less_one] demo_flags(3) by blast
  moreover have "translate (frames demo_vm) demo_root demo_page = Some 0x9000" by (simp add: translate_def demo PAGEOFFSET_def)
  ultimately show ?thesis using s' same by auto
qed

lemma create_pt_faults_witness:
  "create_pt (ret 0x5000) demo_table 3 demo_vm = Inl PageFault"
  by (rule create_pt_faults[where s = demo_vm and paddr = "0x5000"])
    (use demo_window in \<open>simp_all add: room_def demo PT_LENGTH_def kern\<close>)

lemma mapping_over_user_page_diverges_witness:
  "vm_map_pages demo_request demo_table 0x20000 1 demo_page (VM_FLAG_WRITABLE OR VM_FLAG_USER) demo_vm = Inl Diverges"
  by (rule mapping_over_user_page_diverges[where root = demo_root and l = "0x4000" and i = 5])
    (simp_all add: demo_aligned demo_flags demo demo_at)

lemma kernel_mapping_revokes_user_witness:
  "user_walk (frames demo_vm) demo_root (indices_of demo_page) \<and>
   (\<exists>s'. vm_map_pages demo_request demo_table 0x20000 3 0xffff800000006000 VM_FLAG_WRITABLE demo_vm
      = Inr ((SUCCESS, 0xffff800000006000), s') \<and> \<not> user_walk (frames s') demo_root (indices_of demo_page))"
proof
  show "user_walk (frames demo_vm) demo_root (indices_of demo_page)"
    by (simp add: demo)
  have "pml4_index demo_page = pml4_index 0xffff800000006000" by (simp add: pml4_index_def)
  from kernel_mapping_revokes_user[OF demo_free_leaf demo_aligned(5) demo_flags(3) this, of demo_request]
  show "\<exists>s'. vm_map_pages demo_request demo_table 0x20000 3 0xffff800000006000 VM_FLAG_WRITABLE demo_vm
      = Inr ((SUCCESS, 0xffff800000006000), s') \<and> \<not> user_walk (frames s') demo_root (indices_of demo_page)" by simp
qed

text \<open>The tables of the boot code: one entry for the kernel in the top table.\<close>

definition demo_boot :: kst where
  "demo_boot = demo_state\<lparr>cr3 := 0x1000, frames := (\<lambda>f i. if f = 0x1000 \<and> i = 511 then set_pte 0x2000 VM_FLAG_WRITABLE else 0)\<rparr>"

lemma vm_init_opens_window_witness:
  "\<exists>s'. vm_init demo_boot = Inr ((), s') \<and> kpml4 s' = 0xffffffff80001000 \<and> room 511 s'"
proof -
  have f: "cr3 demo_boot = 0x1000" "HIGHER_HALF (sym demo_boot) = 0xffffffff80000000" "tmp_frame demo_boot = 0x18000"
    "a_tmp_pt (sym demo_boot) = 0xffffffff80018000" "frames demo_boot 0x1000 511 = set_pte 0x2000 VM_FLAG_WRITABLE"
    "frames demo_boot 0x2000 511 = 0"
    by (simp_all add: demo_boot_def demo_state_def demo_symbols_def tmp_frame_def)
  have "boot_tables demo_boot"
    unfolding boot_tables_def Let_def f set_pte_fields demo_pages
    by (simp add: PT_TMP_START_VADDR_def pte_address_def PTEPADDR_def)
  from vm_init_opens_window[OF this] show ?thesis by (auto simp: f)
qed

end
