(* ===== verification/Mm_demo.thy ===== *)
theory Mm_demo
  imports Mm_blocks Vm_demo
begin

text \<open>The properties of the kernel heap, on the concrete state of the page tables.\<close>

lemma demo_pm_rich: "pm_rich 3 demo_vm"
  using demo_rich
  by (simp add: demo_vm_def pm_rich_def pm_ok_def pm_shape_def locked_def first_free_def free_def bm0_def)

lemma demo_slabs_placed: "slabs_placed (sym demo_vm)"
  by (simp add: slabs_placed_def demo_vm_def demo_state_def demo_symbols_def LAYOUT_HEAP_START_def sep_def)

lemma demo_heap_leaf: "free_leaf demo_vm demo_table demo_root 0xffff800000000000 1"
proof -
  have i: "indices_of 0xffff800000000000 = [256, 0, 0, 0]"
    by (simp add: indices_of_def pml4_index_def pdp_index_def pd_index_def pt_index_def)
  show ?thesis unfolding free_leaf_def i
    by (simp add: demo demo_at canonical_def absent_run_def ISPAGEALIGNED_def PAGEOFFSET_def)
qed

lemma demo_heap_leaf_3: "free_leaf demo_vm demo_table demo_root 0xffff803000000000 1"
proof -
  have i: "indices_of 0xffff803000000000 = [256, 192, 0, 0]"
    by (simp add: indices_of_def pml4_index_def pdp_index_def pd_index_def pt_index_def)
  show ?thesis unfolding free_leaf_def i
    by (simp add: demo demo_at canonical_def absent_run_def ISPAGEALIGNED_def PAGEOFFSET_def)
qed

lemma at_table_log: "at_table n (s\<lparr>messages := l\<rparr>) = at_table n s"
proof -
  have t: "tmp_frame (s\<lparr>messages := l\<rparr>) = tmp_frame s" by (simp add: tmp_frame_def)
  have e: "tmp_entry (s\<lparr>messages := l\<rparr>) = tmp_entry s" by (rule ext) (simp add: tmp_entry_def t)
  have f: "tmp_free (s\<lparr>messages := l\<rparr>) = tmp_free s" by (simp add: tmp_free_def e)
  have r: "room k (s\<lparr>messages := l\<rparr>) = room k s" for k by (simp add: room_def tmp_ok_def f e)
  have p: "pt_page (s\<lparr>messages := l\<rparr>) = pt_page s" by (rule ext) (simp add: pt_page_def t)
  show ?thesis by (intro ext) (simp add: at_table_def t p r)
qed

lemma free_leaf_mem_log: "free_leaf (s\<lparr>mem := m, messages := l\<rparr>) = free_leaf s"
proof -
  have "at_table 4 (s\<lparr>mem := m, messages := l\<rparr>) = at_table 4 s" by (simp add: at_table_log)
  then show ?thesis by (intro ext) (simp add: free_leaf_def)
qed

text \<open>The state after \<open>mm_init\<close>: an empty heap, and everything that a slab needs to grow.\<close>

lemma demo_heap:
  obtains s where "heap_rel (mem s) (sym s) (\<lambda>t. (0, []))" "can_grow s demo_root 0 0" "can_grow s demo_root 3 0"
proof -
  obtain s' where s': "heap_rel (mem s') (sym s') (\<lambda>t. (0, []))"
    "s' = demo_vm\<lparr>mem := mem s', messages := messages demo_vm @ [''kernel heap initialized'']\<rparr>"
    "\<forall>x. \<not> x - a_slabs (sym demo_vm) < 640 \<longrightarrow> mem s' x = mem demo_vm x"
    by (rule mm_init_run[OF demo_slabs_placed])
  have y: "sym demo_vm = demo_symbols" by (simp add: demo_vm_def demo_state_def)
  have y': "sym s' = demo_symbols" "kpml4 s' = demo_table" by (subst s'(2), simp add: demo_vm_def demo_state_def)+
  have ag: "agree a n (mem demo_vm) (mem s')" if "sep a n (a_slabs demo_symbols) 640" for a n
    using s'(3) sep_outside[OF that] by (simp add: agree_def y)
  have "pm_rich 3 (demo_vm\<lparr>mem := mem s'\<rparr>)"
    by (rule pm_rich_agree[OF demo_pm_rich]; rule ag) (simp_all add: bm0_def y demo_symbols_def sep_def)
  then have "pm_rich 1 (demo_vm\<lparr>mem := mem s'\<rparr>)" by (auto simp: pm_rich_def)
  then have "pm_rich 1 s'"
    by (subst s'(2)) (simp add: pm_rich_def pm_ok_def pm_shape_def locked_def first_free_def free_def bm0_def)
  moreover have "manager_apart s'"
    by (simp add: manager_apart_def bm0_def y' demo_symbols_def LAYOUT_HEAP_START_def sep_def)
  moreover have "free_leaf s' (kpml4 s') demo_root (PAGEALIGNUP (chunk 0 0)) 1" "free_leaf s' (kpml4 s') demo_root (PAGEALIGNUP (chunk 3 0)) 1"
  proof -
    have "PAGEALIGNUP (chunk 0 0) = 0xffff800000000000" "PAGEALIGNUP (chunk 3 0) = 0xffff803000000000"
      by (simp_all add: chunk_0 SLABBASE_def LAYOUT_HEAP_START_def PAGEALIGNUP_def ALIGNUP_def PAGE_SIZE_def push_bit_eq_mult)
    moreover have "free_leaf s' = free_leaf demo_vm" by (subst s'(2)) (rule free_leaf_mem_log)
    ultimately show "free_leaf s' (kpml4 s') demo_root (PAGEALIGNUP (chunk 0 0)) 1"
      "free_leaf s' (kpml4 s') demo_root (PAGEALIGNUP (chunk 3 0)) 1"
      using demo_heap_leaf demo_heap_leaf_3 by (simp_all add: y'(2))
  qed
  moreover have "page_up (0 * csize t) + 4096 \<le> 2 ^ 36" for t by (simp add: page_up_def)
  ultimately show thesis using that s'(1) unfolding can_grow_def by blast
qed

lemma ceil_is_least_power_witness:
  "\<exists>k. unat (ceil_to_power_of_2 33) = 2 ^ k \<and> 33 \<le> (2 :: nat) ^ k"
  using ceil_is_least_power[of 33] by auto

lemma small_requests_fit_witness:
  "\<exists>type. get_slab_from_size 33 demo_vm = Inr (slab_at (sym demo_vm) type, demo_vm) \<and> 33 \<le> slab_size type"
  using small_requests_fit[of 33 demo_vm] by auto

lemma large_requests_get_small_chunks_witness:
  "\<exists>type. get_slab_from_size 64 demo_vm = Inr (slab_at (sym demo_vm) type, demo_vm) \<and> slab_size type < 64"
  using large_requests_get_small_chunks[of 64 demo_vm] by simp

lemma tiny_requests_assert_witness: "get_slab_from_size 8 demo_vm = Inl AssertFailed"
  by (rule tiny_requests_assert) simp

lemma mm_map_gives_fresh_pages_witness:
  "\<exists>ps s'. mm_map (pm_request_page no_services) 0xffff800000006000 0x3000 VM_FLAG_WRITABLE demo_vm
      = Inr (0xffff800000006000, s') \<and> length ps = 3 \<and> locked s' = locked demo_vm \<union> page_of ` set ps"
proof -
  have k: "kpml4 demo_vm = demo_table" by (simp add: demo_vm_def)
  have "PAGES 0x3000 = of_nat 3" by (simp add: PAGES_def PAGE_SIZE_def PAGEALIGNUP_def ALIGNUP_def)
  moreover have "ISKVADDR 0xffff800000006000" by (simp add: ISKVADDR_def LAYOUT_HEAP_START_def)
  moreover have "ISFLAGUNSET VM_FLAG_WRITABLE VM_FLAG_USER" by (simp add: ISFLAGUNSET_def VM_FLAG_WRITABLE_def VM_FLAG_USER_def)
  ultimately have "\<exists>ps s'. mm_map (pm_request_page no_services) 0xffff800000006000 0x3000 VM_FLAG_WRITABLE demo_vm
      = Inr (0xffff800000006000, s') \<and> length ps = 3 \<and>
    (\<forall>j<3. \<forall>off. unat off < 4096 \<longrightarrow>
       translate (frames s') demo_root (0xffff800000006000 + of_nat j * 4096 + off) = Some (ps ! j + off)) \<and>
    distinct (map page_of ps) \<and> page_of ` set ps \<inter> locked demo_vm = {} \<and> locked s' = locked demo_vm \<union> page_of ` set ps"
    by (intro mm_map_gives_fresh_pages[OF demo_free_leaf[folded k] demo_pm_rich])
  then show ?thesis by (elim exE conjE) (intro exI conjI)
qed

lemma mm_init_effect_witness:
  "\<exists>s'. mm_init demo_vm = Inr ((), s') \<and> heap_rel (mem s') (sym s') (\<lambda>t. (0, []))"
  using mm_init_effect[OF demo_slabs_placed] by blast

lemma mm_alloc_refines_witness:
  "\<exists>s s'. mm_alloc (pm_request_page no_services) 16 s = Inr (chunk 0 (grown 0 0 - 1), s') \<and>
    heap_rel (mem s') (sym s') ((\<lambda>t. (0, []))(0 := (grown 0 0, rev [0..<grown 0 0 - 1])))"
proof -
  obtain s where s: "heap_rel (mem s) (sym s) (\<lambda>t. (0, []))" "can_grow s demo_root 0 0" by (rule demo_heap)
  have "slab_for_size 16 = 0" by (simp add: slab_for_size_def)
  then show ?thesis using mm_alloc_refines[OF s(1), of 16 demo_root no_services] s(2) by auto
qed


lemma large_blocks_overlap_witness:
  "\<exists>s p q s1 s2. mm_alloc (pm_request_page no_services) 64 s = Inr (p, s1) \<and>
    mm_alloc (pm_request_page no_services) 64 s1 = Inr (q, s2) \<and> q < p \<and> p - q < 64"
proof -
  obtain s where s: "heap_rel (mem s) (sym s) (\<lambda>t. (0, []))" "can_grow s demo_root 3 0" by (rule demo_heap)
  have "slab_for_size 64 = 3" by (simp add: slab_for_size_def)
  then have "can_grow s demo_root (slab_for_size 64) (fst ((\<lambda>t. (0, []) :: nat \<times> nat list) (slab_for_size 64)))" using s(2) by simp
  moreover have "48 < unat (64 :: u64)" "unat (64 :: u64) < 4096" by simp_all
  moreover have "snd ((\<lambda>t. (0, []) :: nat \<times> nat list) (slab_for_size 64)) = []" by simp
  ultimately have "\<exists>p q s1 s2. mm_alloc (pm_request_page no_services) 64 s = Inr (p, s1) \<and>
    mm_alloc (pm_request_page no_services) 64 s1 = Inr (q, s2) \<and> q < p \<and> p - q < 64"
    by (intro large_blocks_overlap[OF s(1)])
  then show ?thesis by (rule exI)
qed

lemma mm_free_always_asserts_witness: "mm_free 0xffff800000000030 demo_vm = Inl AssertFailed"
  by (rule mm_free_always_asserts) (simp_all add: LAYOUT_HEAP_START_def)

end
