(* ===== verification/Kernel_demo.thy ===== *)
theory Kernel_demo
  imports Boot Cpu_demo Mm_demo
begin

text \<open>
  The results about the start of the kernel on a concrete machine: 8 MB of memory of which the first 32 KB are reserved, the
  kernel in the pages 16 to 31, and the tables \<open>0x1000\<close> to \<open>0x4000\<close> that map it to the higher half.
\<close>

section \<open>The start\<close>

definition image_tables :: "addr \<Rightarrow> nat \<Rightarrow> pte" where
  "image_tables f i =
     (if f = 0x1000 \<and> i = 511 then set_pte 0x2000 VM_FLAG_WRITABLE
      else if f = 0x2000 \<and> i = 510 then set_pte 0x3000 VM_FLAG_WRITABLE
      else if f = 0x3000 \<and> i = 0 then set_pte 0x4000 VM_FLAG_WRITABLE
      else if f = 0x4000 \<and> 16 \<le> i \<and> i < 32 then set_pte (of_nat i * 0x1000) VM_FLAG_WRITABLE
      else 0)"

definition image_state :: kst where
  "image_state = boot_state\<lparr>frames := image_tables, cr3 := 0x1000\<rparr>"

definition boot_machine :: machine where
  "boot_machine = demo_machine\<lparr>kernel := image_state\<rparr>"

lemma image_fields [simp]:
  "sym image_state = demo_symbols" "cr3 image_state = 0x1000" "frames image_state = image_tables" "mem image_state = boot_memory"
  "tmp_frame image_state = 0x18000" "messages image_state = []" "first_free_tmp_index image_state = 0"
  by (simp_all add: image_state_def boot_state_def demo_state_def tmp_frame_def demo_symbols_def)

abbreviation booted :: kst where
  "booted \<equiv> with_singleton 0x9000 image_state"

lemma booted_fields [simp]:
  "sym booted = demo_symbols" "cr3 booted = 0x1000" "frames booted = image_tables" "tmp_frame booted = 0x18000" "messages booted = []"
  by (simp_all add: with_singleton_def tmp_frame_def) (simp add: demo_symbols_def)

lemma booted_mem: "mem booted = st64 0x7008 0x9000 (filled 90 0x7000 0 boot_memory)"
  by (simp add: with_singleton_def demo_symbols_def)

lemma booted_reads:
  "ld64 (mem booted) 0x7000 = 0" "ld64 (mem booted) 0x7008 = 0x9000"
  "a \<in> {0x9010, 0x9018, 0xA000, 0xA008, 0xA010, 0xA018, 0xA020, 0xA028} \<Longrightarrow> ld64 (mem booted) a = ld64 boot_memory a"
proof -
  show "ld64 (mem booted) 0x7008 = 0x9000" by (simp add: booted_mem)
  have "agree 0x7000 8 (filled 90 0x7000 0 boot_memory) (mem booted)"
    unfolding booted_mem by (rule agree_st64) (simp add: sep_def)
  then have "ld64 (mem booted) 0x7000 = ld64 (filled 90 0x7000 0 boot_memory) 0x7000" using agree_ld64[of "0x7000" 8 _ _ 0] by simp
  also have "\<dots> = 0" by (rule ld64_zero) (simp add: filled_def word_less_nat_alt)
  finally show "ld64 (mem booted) 0x7000 = 0" .
  have g: "agree 0x9000 0x2000 boot_memory (mem booted)"
  proof -
    have "agree 0x9000 0x2000 boot_memory (filled 90 0x7000 0 boot_memory)" by (rule agree_filled[where k = 90]) (simp_all add: sep_def)
    moreover have "agree 0x9000 0x2000 (filled 90 0x7000 0 boot_memory) (mem booted)"
      unfolding booted_mem by (rule agree_st64) (simp add: sep_def)
    ultimately show ?thesis by (rule agree_trans)
  qed
  have i: "ld64 (mem booted) (0x9000 + i) = ld64 boot_memory (0x9000 + i)" if "i \<le> 0x1ff0" for i
    by (rule agree_ld64[OF g]) (use that in \<open>simp add: word_le_nat_alt\<close>)
  assume "a \<in> {0x9010, 0x9018, 0xA000, 0xA008, 0xA010, 0xA018, 0xA020, 0xA028}"
  then show "ld64 (mem booted) a = ld64 boot_memory a"
    using i[of "0x10"] i[of "0x18"] i[of "0x1000"] i[of "0x1008"] i[of "0x1010"] i[of "0x1018"] i[of "0x1020"] i[of "0x1028"] by auto
qed

lemma booted_ready: "boot_ready booted [(0, 0, 0x8000), (1, 0x8000, 0x7f8000)]"
proof -
  have "(2 :: nat) < 2 ^ 59" by simp
  then have "mem_map_is (mem booted) 0x9010 [(0, 0, 0x8000), (1, 0x8000, 0x7f8000)]"
    by (simp add: mem_map_is_def mem_map_entries_def mem_map_segments_def booted_reads boot_reads segment_type_def ld32_def
        segment_addr_def segment_length_def Let_def All_less_Suc)
  moreover have "K_bootinfo (mem booted) 0x7000 = 0x9000" "\<not> subsys_init_pm (mem booted) 0x7000"
    "mem_map_segments (mem booted) 0x9010 = 0xA000"
    by (simp_all add: K_bootinfo_def subsys_init_pm_def ld32_def booted_reads mem_map_segments_def boot_reads)
  ultimately show ?thesis
    by (simp add: boot_ready_def Let_def demo_symbols_def statics_wide_def sep_def clear_of_pm_def bootinfo_mem_map_def
        segment_fits_def low_reserved_def BOOTINFO_MEM_SEGMENT_TYPE_RESERVED_def page_of_def unat_PAGES All_less_Suc)
qed

lemma booted_pages: "boot_pages (sym booted) [(0, 0, 0x8000), (1, 0x8000, 0x7f8000)] = {0..<8} \<union> {16..<32}"
  using boot_state_pages by (simp add: boot_state_def demo_state_def)


text \<open>The pages of the kernel, and the walk to them.\<close>

lemma image_entries:
  "image_tables 0x1000 511 = set_pte 0x2000 VM_FLAG_WRITABLE" "image_tables 0x2000 510 = set_pte 0x3000 VM_FLAG_WRITABLE"
  "image_tables 0x3000 0 = set_pte 0x4000 VM_FLAG_WRITABLE" "image_tables 0x2000 511 = 0"
  "image_tables 0x4000 j = (if 16 \<le> j \<and> j < 32 then set_pte (of_nat j * 0x1000) VM_FLAG_WRITABLE else 0)"
  by (simp_all add: image_tables_def)

abbreviation image_page :: addr where
  "image_page \<equiv> 0xffffffff80010000"

lemma image_indices: "indices_of image_page = [511, 510, 0, 16]"
  by (simp add: indices_of_def pml4_index_def pdp_index_def pd_index_def pt_index_def)

lemma image_page_18: "indices_of (image_page + of_nat 2 * 4096) = [511, 510, 0, 18]"
  by (simp add: indices_of_def pml4_index_def pdp_index_def pd_index_def pt_index_def)

lemma image_path: "path image_tables 0x1000 [511, 510, 0, i] = [0x1000, 0x2000, 0x3000, 0x4000]"
  by (simp add: image_entries demo_pages)

lemma image_run: "present_run (image_tables 0x4000) 16 16"
  by (auto simp: present_run_def image_entries)

lemma image_aligned: "ISPAGEALIGNED image_page"
  by (simp add: ISPAGEALIGNED_def PAGEOFFSET_def)

lemma image_visits: "visits image_tables 0x1000 [511, 510, 0, 16] = [(0x1000, 511), (0x2000, 510), (0x3000, 0), (0x4000, 16)]"
  by (simp add: image_entries demo_pages)

lemma booted_image: "image_mapped booted image_page 16 0x4000 16"
proof -
  have "leaf image_tables 0x1000 [511, 510, 0, 16] = (0x4000, 16)" "reach image_tables 0x1000 [511, 510, 0, 16]"
    by (simp_all add: image_entries demo_pages)
  then show ?thesis
    by (simp only: image_mapped_def Let_def booted_fields image_indices image_path image_visits image_entries)
      (simp add: image_aligned image_run demo_pages)
qed

lemma booted_layout: "boot_layout booted"
proof -
  have "boot_tables booted"
    unfolding boot_tables_def Let_def booted_fields image_entries set_pte_fields demo_pages
    by (simp add: PT_TMP_START_VADDR_def pte_address_def PTEPADDR_def demo_symbols_def)
  moreover have "slabs_placed demo_symbols" by (simp add: slabs_placed_def demo_symbols_def sep_def LAYOUT_HEAP_START_def)
  moreover have "apart_from_pm demo_symbols 0x8000 640" "apart_from_pm demo_symbols 0xffffffff80019000 3584"
    by (simp_all add: apart_from_pm_def demo_symbols_def sep_def)
  ultimately show ?thesis by (simp add: boot_layout_def demo_symbols_def Let_def)
qed

lemma booted_sections: "laid_out demo_symbols 2 2 2 10"
  by (simp add: laid_out_def demo_symbols_def PAGES_def PAGEALIGNUP_def ALIGNUP_def ISKVADDR_def LAYOUT_HEAP_START_def)

text \<open>The premises of the theorem about the start.\<close>

abbreviation kept_pages :: "nat set" where
  "kept_pages \<equiv> {0..<8} \<union> {16..<32}"

abbreviation booted_segments :: "(u32 \<times> u64 \<times> u64) list" where
  "booted_segments \<equiv> [(0, 0, 0x8000), (1, 0x8000, 0x7f8000)]"

lemma booted_start:
  "kept_pages = boot_pages (sym booted) booted_segments" "{0..<9} \<union> {16..<32} = insert (LEAST n. n \<notin> kept_pages) kept_pages"
  "40 < (32768 :: nat)" "41 < (32768 :: nat)" "(40 :: nat) \<noteq> 41" "40 \<notin> kept_pages" "41 \<notin> kept_pages"
  "4096 \<le> total_length booted_segments - 4096 * of_nat (card kept_pages)"
proof -
  show "kept_pages = boot_pages (sym booted) booted_segments" by (simp only: booted_pages)
  have "(LEAST n. n \<notin> kept_pages) = 8"
    by (rule Least_equality) (auto simp: not_less[symmetric])
  moreover have "{0..<9} \<union> {16..<32} = insert 8 kept_pages" by auto
  ultimately show "{0..<9} \<union> {16..<32} = insert (LEAST n. n \<notin> kept_pages) kept_pages" by simp
  have "card kept_pages = 24" by (subst card_Un_disjoint) auto
  then show "4096 \<le> total_length booted_segments - 4096 * of_nat (card kept_pages)" by (simp add: total_length_def)
qed auto

lemma booted_length: "total_length booted_segments = 0x800000"
  by (simp add: total_length_def)

section \<open>The permissions of the kernel\<close>

text \<open>The same tables, with the pointer that \<open>vm_init\<close> computes.\<close>

definition image_vm :: kst where
  "image_vm = demo_state\<lparr>frames := image_tables, kpml4 := 0xffffffff80001000, cr3 := 0x1000\<rparr>"

lemma image_vm_fields [simp]:
  "frames image_vm = image_tables" "tmp_frame image_vm = 0x18000" "first_free_tmp_index image_vm = 0" "sym image_vm = demo_symbols"
  "kpml4 image_vm = 0xffffffff80001000"
  by (simp_all add: image_vm_def demo_state_def tmp_frame_def) (simp add: demo_symbols_def)

lemma image_window: "room 511 image_vm"
proof -
  have e: "tmp_entry image_vm i = 0" for i by (simp add: tmp_entry_def image_tables_def)
  have f: "tmp_free image_vm = {..<511}" by (auto simp: tmp_free_def e)
  have "Min {..<511 :: nat} = 0" by (intro Min_eqI) auto
  moreover have "{..<511 :: nat} \<noteq> {}" by (metis lessThan_iff empty_iff zero_less_numeral)
  ultimately show ?thesis by (simp add: room_def tmp_ok_def f e)
qed

lemma image_leaf: "leaf image_tables 0x1000 [511, 510, 0, 16] = (0x4000, 16)" "reach image_tables 0x1000 [511, 510, 0, 16]"
  by (simp_all add: image_entries demo_pages)

lemma image_in_leaf: "in_leaf image_vm 0xffffffff80001000 0x1000 image_page 16"
proof -
  have "at_table 4 image_vm 0xffffffff80001000 0x1000 [511, 510, 0, 16]"
    using room_le[OF image_window, of 3]
    by (simp only: at_table_def image_vm_fields image_path)
      (simp add: pt_page_def PT_TMP_START_VADDR_def demo_symbols_def image_leaf del: path.simps leaf.simps reach.simps)
  then show ?thesis
    unfolding in_leaf_def image_indices image_path image_vm_fields by (simp add: image_aligned image_leaf del: path.simps leaf.simps reach.simps)
qed

lemma kernel_remap_separates_write_and_execute_witness:
  "\<exists>s'. kernel_remap image_vm = Inr ((), s') \<and> may_execute (frames s') 0x1000 [511, 510, 0, 18] \<and>
    \<not> may_write (frames s') 0x1000 [511, 510, 0, 18]"
proof -
  have v: "image_page = LAYOUT_VADDR_START (sym image_vm)" by (simp add: demo_symbols_def)
  have y: "laid_out (sym image_vm) 2 2 2 10" by (simp add: booted_sections)
  have f: "in_leaf image_vm (kpml4 image_vm) 0x1000 image_page (2 + 2 + 2 + 10)"
    "leaf (frames image_vm) 0x1000 (indices_of image_page) = (0x4000, 16)" "present_run (frames image_vm 0x4000) 16 (2 + 2 + 2 + 10)"
    using image_in_leaf by (simp_all add: image_indices image_leaf image_run del: leaf.simps)
  from kernel_remap_separates_write_and_execute[OF y v refl f] obtain s' where "kernel_remap image_vm = Inr ((), s')"
    and p: "\<forall>j<2 + 2 + 2 + 10. let is = indices_of (image_page + of_nat j * 4096) in
      may_write (frames s') 0x1000 is = (j < 2 \<or> 2 + 2 + 2 \<le> j) \<and> may_execute (frames s') 0x1000 is = (2 \<le> j \<and> j < 2 + 2)"
    by (elim exE conjE)
  then show ?thesis using p[rule_format, of 2] unfolding image_page_18 Let_def by auto
qed

section \<open>The first allocation\<close>

lemma started:
  obtains s where "memory_ready s 0x1000 ({0..<9} \<union> {16..<32}) 0x800000" "sym s = demo_symbols"
    "frames s 0x1000 256 = 0" "tmp_frame s = 0x18000" "tmp_free s = {..<511}" "first_free_tmp_index s = 0"
proof -
  obtain s1 s2 s3 where m: "memory_ready s3 (cr3 booted) ({0..<9} \<union> {16..<32}) 0x800000" "boot_tables s1" "sym s1 = sym booted"
    "frames s1 = frames booted" "cr3 s1 = cr3 booted" "s2 = after_init s1" "s3 = s2\<lparr>mem := mem s3, messages := messages s3\<rparr>"
    by (rule managers_run[OF booted_layout booted_ready booted_start, of no_services, unfolded booted_length], rule that, assumption+)
  note f = after_init_frames[OF m(2)] and r = after_init_room[OF m(2)]
  have e: "frames s3 = frames s2" "sym s3 = sym s2" "first_free_tmp_index s3 = first_free_tmp_index s2"
    by (subst m(7), simp)+
  have t: "tmp_frame s3 = tmp_frame s2" "tmp_free s3 = tmp_free s2"
    using e by (simp_all add: tmp_frame_def tmp_free_def tmp_entry_def)
  have ts: "tmp_frame s1 = 0x18000" using m(3,5) booted_fields(4) by (simp add: tmp_frame_def)
  have "frames s3 0x1000 256 = 0"
    using after_init_root[OF m(2)] e m(4-6) by (simp add: image_tables_def)
  then show thesis using that[of s3] m(1,3,6) e t ts f(3,6) r(2) by simp
qed

lemma allocation_needs_a_table_witness: "\<exists>s. memory_ready s 0x1000 ({0..<9} \<union> {16..<32}) 0x800000 \<and>
    mm_alloc (pm_request_page no_services) 16 s = Inl PageFault"
proof -
  obtain s where s: "memory_ready s 0x1000 ({0..<9} \<union> {16..<32}) 0x800000" "sym s = demo_symbols"
    "frames s 0x1000 256 = 0" "tmp_frame s = 0x18000" "tmp_free s = {..<511}" "first_free_tmp_index s = 0"
    by (rule started)
  have r: "pm_ok s" "locked s = {0..<9} \<union> {16..<32}" "used s = 4096 * of_nat (card ({0..<9} \<union> {16..<32 :: nat}))" "used s + free s = 0x800000"
    "kpml4 s = 0x1000 + HIGHER_HALF (sym s)" "room 511 s" "heap_rel (mem s) (sym s) (\<lambda>t. (0, []))"
    using s(1) unfolding memory_ready_def by blast+
  have c: "card ({0..<9} \<union> {16..<32::nat}) = 25" by (subst card_Un_disjoint) auto
  have "free s = 0x800000 - used s" using r(4) by (metis add_diff_cancel_left')
  then have "free s = 0x7e7000" unfolding r(3) c by simp
  then have rich: "pm_rich 1 s" using r(1,2) c by (simp add: pm_rich_def)
  have q: "PAGEALIGNUP (chunk 0 0) = 0xffff800000000000"
    by (simp add: chunk_0 SLABBASE_def LAYOUT_HEAP_START_def PAGEALIGNUP_def ALIGNUP_def PAGE_SIZE_def)
  have i: "unat (pml4_index 0xffff800000000000) = 256" by (simp add: pml4_index_def)
  have z: "0 = slab_for_size 16" by (simp add: slab_for_size_def)
  have "mm_alloc (pm_request_page no_services) 16 s = Inl PageFault"
    by (rule allocation_needs_a_table[OF r(7) _ _ z, where n = 0 and root = "0x1000"])
      (use rich s(2-6) r(2,5,6) in \<open>simp_all add: q i page_up_def pt_page_def PT_TMP_START_VADDR_def demo_symbols_def room_def pte_address_def
        PTEPADDR_def page_of_def\<close>)
  with s(1) show ?thesis by blast
qed

end
