(* ===== verification/Start_demo.thy ===== *)
theory Start_demo
  imports Start Kernel_demo
begin

text \<open>
  The results about the boot code on the machine of \<open>Kernel_demo\<close> before paging: the boot information ends in page 32, so the tables
  are the pages 34 to 37.
\<close>

definition raw_state :: kst where
  "raw_state = image_state\<lparr>frames := (\<lambda>f i. if f = 0x25000 \<and> i = 5 then 0xABC0003 else 0), cr3 := 0\<rparr>"

definition raw_machine :: machine where
  "raw_machine = demo_machine\<lparr>kernel := raw_state\<rparr>"

lemma raw_fields [simp]:
  "sym raw_state = demo_symbols" "mem raw_state = boot_memory" "kernel raw_machine = raw_state"
  "frames raw_state f i = (if f = 0x25000 \<and> i = 5 then 0xABC0003 else 0)"
  by (simp_all add: raw_state_def raw_machine_def)

lemma frame_37: "frame (33 + 4) = 0x25000"
  by (simp add: frame_def)

lemma raw_placed: "image_placed (sym raw_state) 0x20e00 33 16"
proof -
  have "\<exists>T<33. a_tmp_pt demo_symbols = HIGHER_HALF demo_symbols + frame T"
    by (rule exI[of _ 24]) (simp add: demo_symbols_def frame_def)
  moreover have "(unat (0x20e00 :: u32) + 4095) div 4096 = 33" "unat (LAYOUT_PADDR_START demo_symbols) = 4096 * 16"
    "HIGHER_HALF demo_symbols = 0xffffffff80000000" "LAYOUT_VADDR_START demo_symbols = HIGHER_HALF demo_symbols + LAYOUT_PADDR_START demo_symbols"
    by (simp_all add: demo_symbols_def)
  ultimately show ?thesis by (simp add: image_placed_def)
qed

lemma paging_code_prepares_the_start_witness:
  "\<exists>s'. thn (setup_paging 0x20e00) (map_higher_half 7 9) raw_state = Inr ((), s') \<and> boot_tables s' \<and>
    walk (frames s') (cr3 s') (indices_of (frame 20)) = Some (frame 20)"
proof -
  from paging_code_prepares_the_start[OF raw_placed, of 7 9] obtain s' where
    s: "thn (setup_paging 0x20e00) (map_higher_half 7 9) raw_state = Inr ((), s')" "boot_tables s'"
    and l: "list_all (\<lambda>j. drop_bit 32 (frames raw_state (frame (33 + 4)) j) = 0 \<longrightarrow>
      walk (frames s') (cr3 s') (indices_of (frame j)) = Some (frame j) \<and>
      walk (frames s') (cr3 s') (indices_of (HIGHER_HALF (sym raw_state) + frame j)) = Some (frame j)) [16..<33 + 5]" by (elim exE conjE)
  have "(20 :: nat) \<in> set [16..<33 + 5]" by simp
  from l[unfolded list_all_iff, rule_format, OF this] have "walk (frames s') (cr3 s') (indices_of (frame 20)) = Some (frame 20)" by simp
  with s show ?thesis by blast
qed

lemma last_table_is_not_cleared_witness:
  "\<exists>s'. thn (setup_paging 0x20e00) (map_higher_half 7 9) raw_state = Inr ((), s') \<and>
    walk (frames s') (cr3 s') (indices_of 0x5000) = Some 0xABC0000"
proof -
  have p: "present (frames raw_state (frame (33 + 4)) 5)" "PTEPADDR (frames raw_state (frame (33 + 4)) 5) = 0xABC0000"
    unfolding frame_37 by (simp_all add: present_def PTEPADDR_def)
  have "frame 5 = 0x5000" by (simp add: frame_def)
  then show ?thesis using last_table_is_not_cleared[OF raw_placed _ _ p(1), of 7 9] p(2) by auto
qed

lemma raw_ready: "boot_ready (with_singleton 0x9000 raw_state) booted_segments"
  using booted_ready ready_same_tables[of "with_singleton 0x9000 raw_state" booted] by (simp add: with_singleton_def)

lemma raw_pages: "boot_pages demo_symbols booted_segments = kept_pages" "start_pages demo_symbols booted_segments = {0..<9} \<union> {16..<32}"
  using booted_start(1,2) by (simp_all add: start_pages_def Let_def)

lemma raw_bootable: "bootable raw_state 0x20e00 0x9000 booted_segments 33 16 2 2 2 10"
proof -
  have "statics_placed demo_symbols" using booted_layout by (simp add: statics_placed_def boot_layout_def Let_def)
  moreover have "\<exists>k1<32768. \<exists>k2<32768. k1 \<noteq> k2 \<and> k1 \<notin> kept_pages \<and> k2 \<notin> kept_pages"
    using booted_start(3-7) by blast
  ultimately show ?thesis
    using raw_placed raw_ready booted_sections booted_start(8) by (simp add: bootable_def Let_def raw_pages)
qed

lemma root_table_is_given_away_witness:
  "\<exists>k0 k ps s'. kernel_main no_services 0x9000 (raw_machine\<lparr>kernel := k0\<rparr>) = kernel_main_devices no_services 0x9000 (raw_machine\<lparr>kernel := k\<rparr>) \<and>
    request_times 10 (pm_request_page no_services) k = Inr (ps @ [cr3 k0], s') \<and> length ps = 9"
proof -
  have n: "{..<33 + 1} - ({0..<9} \<union> {16..<32}) = {32, 33} \<union> {9..<16 :: nat}" by auto
  have cn: "9 = card ({..<33 + 1} - ({0..<9} \<union> {16..<32 :: nat}))" unfolding n by (subst card_Un_disjoint) auto
  have c: "card ({0..<9} \<union> {16..<32} :: nat set) = 25" by (subst card_Un_disjoint) auto
  have g: "unat (LAYOUT_PADDR_END demo_symbols) \<le> unat (0x20e00 :: u32)" "LAYOUT_PADDR_START demo_symbols \<le> LAYOUT_PADDR_END demo_symbols"
    by (simp_all add: demo_symbols_def)
  have r: "33 + 1 \<notin> reserved_pages booted_segments" "33 + 1 \<noteq> (LEAST n. n \<notin> boot_pages demo_symbols booted_segments)"
  proof -
    have "33 + 1 \<notin> boot_pages demo_symbols booted_segments" unfolding raw_pages by simp
    then show "33 + 1 \<notin> reserved_pages booted_segments" by (simp add: boot_pages_def)
    have "(LEAST n. n \<notin> boot_pages demo_symbols booted_segments) \<in> {0..<9} \<union> {16..<32}"
      unfolding raw_pages(2)[symmetric] start_pages_def Let_def by simp
    then show "33 + 1 \<noteq> (LEAST n. n \<notin> boot_pages demo_symbols booted_segments)" by auto
  qed
  obtain k0 k ps s' where "thn (setup_paging 0x20e00) (map_higher_half 7 9) raw_state = Inr ((), k0)"
    "kernel_main no_services 0x9000 (raw_machine\<lparr>kernel := k0\<rparr>) = kernel_main_devices no_services 0x9000 (raw_machine\<lparr>kernel := k\<rparr>)"
    "request_times (Suc 9) (pm_request_page no_services) k = Inr (ps @ [cr3 k0], s')" "length ps = 9"
    using root_table_is_given_away[of raw_machine, unfolded raw_fields, OF raw_bootable g raw_pages(2)[symmetric] r cn, of 7 9 no_services]
    unfolding c booted_length by (auto simp del: request_times.simps)
  then show ?thesis by (auto simp del: request_times.simps)
qed

end
