(* ===== verification/Entry_demo.thy ===== *)
theory Entry_demo
  imports Entry_run Start_demo
begin

text \<open>
  The results about the boot code on the machine of \<open>Start_demo\<close>: the loader has left the information at \<open>0x40000\<close>, with a command line, a
  module, a memory map and an ACPI root pointer. \<open>_bootinfo\<close> is at \<open>0x20000\<close>, its data from \<open>0x20da0\<close> on, and the segments are at \<open>0x20100\<close>.
\<close>

definition loader_memory :: memory where
  "loader_memory = st64 0x20108 0x00cf9a000000ffff (st64 0x20110 0x00cf92000000ffff
     (st64 0x40000 0x98 (st64 0x40008 0x0000000a00000001 (st64 0x40010 0x71
     (st64 0x40018 0x0000001200000003 (st64 0x40020 0x0005800000050000 (st64 0x40028 0x6d
     (st64 0x40030 0x0000004000000006 (st64 0x40038 24 (st64 0x40040 0 (st64 0x40048 0x8000 (st64 0x40050 2
     (st64 0x40058 0x8000 (st64 0x40060 0x7f8000 (st64 0x40068 1
     (st64 0x40070 0x0000001c0000000e (st64 0x40078 0x2052545020445352 (st64 0x40090 0x0000000800000000 (\<lambda>_. 0)))))))))))))))))))"

abbreviation loader_tags :: "tag list" where
  "loader_tags \<equiv> [(0x40008, 1, 10), (0x40018, 3, 18), (0x40030, 6, 64), (0x40070, 14, 28)]"

lemma loader_blank: "agree 0x20000 0x108 (\<lambda>_. 0) loader_memory"
  unfolding loader_memory_def
  by (((rule agree_trans[OF _ agree_st64])+, rule agree_refl); simp add: sep_def)

lemma loader_reads:
  "ld64 loader_memory 0x40000 = 0x98" "ld64 loader_memory 0x40008 = 0x0000000a00000001" "ld64 loader_memory 0x40010 = 0x71"
  "ld64 loader_memory 0x40018 = 0x0000001200000003" "ld64 loader_memory 0x40020 = 0x0005800000050000" "ld64 loader_memory 0x40030 = 0x0000004000000006"
  "ld64 loader_memory 0x40038 = 24" "ld64 loader_memory 0x40040 = 0" "ld64 loader_memory 0x40048 = 0x8000" "ld64 loader_memory 0x40050 = 2"
  "ld64 loader_memory 0x40058 = 0x8000" "ld64 loader_memory 0x40060 = 0x7f8000" "ld64 loader_memory 0x40068 = 1"
  "ld64 loader_memory 0x40070 = 0x0000001c0000000e" "ld64 loader_memory 0x40078 = 0x2052545020445352" "ld64 loader_memory 0x40090 = 0x0000000800000000"
  by (simp_all add: loader_memory_def ld64_st64_sep sep_def)

lemma word_at_high: "word_at m (p + 4) = ucast (drop_bit 32 (ld64 m (of_nat p)))"
  by (rule bit_word_eqI) (auto simp: bit_simps bit_ld64_words word_at_ld64 dest: bit_imp_le_length)

lemma loader_words:
  "word_at loader_memory 0x40000 = 0x98" "word_at loader_memory 0x40008 = 1" "word_at loader_memory 0x4000c = 10"
  "word_at loader_memory 0x40018 = 3" "word_at loader_memory 0x4001c = 18" "word_at loader_memory 0x40020 = 0x50000" "word_at loader_memory 0x40024 = 0x58000"
  "word_at loader_memory 0x40030 = 6" "word_at loader_memory 0x40034 = 64" "word_at loader_memory 0x40038 = 24" "word_at loader_memory 0x40050 = 2"
  "word_at loader_memory 0x40068 = 1" "word_at loader_memory 0x40070 = 14" "word_at loader_memory 0x40074 = 28" "word_at loader_memory 0x40090 = 0"
  using word_at_high[of loader_memory "0x40008"] word_at_high[of loader_memory "0x40018"] word_at_high[of loader_memory "0x40020"]
    word_at_high[of loader_memory "0x40030"] word_at_high[of loader_memory "0x40070"]
  by (simp_all add: loader_reads word_at_ld64 drop_bit_eq_div)

lemma loader_zero: "j < 20 \<Longrightarrow> word_at loader_memory (0x20000 + 4 * j) = 0"
proof -
  assume j: "j < 20"
  have "ld64 loader_memory (of_nat (0x20000 + 4 * j)) = 0"
  proof (rule ld64_zero)
    fix x :: addr assume x: "x - of_nat (0x20000 + 4 * j) < 8"
    define i where "i = unat (x - of_nat (0x20000 + 4 * j))"
    have i: "i < 8" "x - 0x20000 = of_nat (4 * j + i)" using x by (simp_all add: i_def word_less_nat_alt)
    have "unat (of_nat (4 * j + i) :: addr) < 0x108" using i(1) j by (simp add: unat_of_nat take_bit_nat_eq_self del: of_nat_add of_nat_mult)
    then have "x - 0x20000 < 0x108" unfolding i(2) by (simp add: word_less_nat_alt del: of_nat_add of_nat_mult)
    then show "loader_memory x = 0" using loader_blank by (simp add: agree_def)
  qed
  then show ?thesis by (simp only: word_at_ld64) simp
qed

lemma loader_info: "multiboot_info loader_memory 0x20000 0x20da0 0x20e00 0x40000 loader_tags"
proof -
  have u: "unat (word_at loader_memory 0x40000) = 0x98" by (simp add: loader_words)
  have t: "tags_at loader_memory (0x40000 + 8) loader_tags (0x40000 + 0x98)" by (simp add: loader_words up8_def numbers)
  have k: "list_all (tag_ok loader_memory) loader_tags" by (simp add: loader_words numbers)
  have z: "list_all (\<lambda>j. word_at loader_memory (0x20000 + 4 * j) = 0) [0..<20]" using loader_zero by (simp only: list_all_iff) simp
  have d: "data_end 0x20da0 loader_tags = 0x20e00" by (simp add: tag_data_def up8_def numbers)
  show ?thesis
    unfolding multiboot_info_def Let_def u d by (intro conjI t k z) (simp_all add: arranged_def)
qed

lemma loader_segments: "segments_in loader_memory (0x40030, 6, 64) = booted_segments"
proof -
  have "[0..<(64 - 16) div 24] = [0, 1 :: nat]" by (simp add: upt_rec)
  then show ?thesis by (simp add: entry_in_def loader_words loader_reads numbers)
qed

lemma boot_information_reaches_the_kernel_witness:
  "\<exists>m2. boot_info 0x20000 0x20da0 0x40000 loader_memory = Inr (0x20e00, m2) \<and>
    c_modules (view m2) (ld64 (view m2) 0xffffffff80020008) [(0x50000, 0x58000)] \<and>
    mem_map_is (view m2) 0xffffffff80020010 booted_segments \<and>
    view m2 (ld64 (view m2) 0xffffffff80020000) = 0x71 \<and> ld32 (view m2) 0xffffffff80020020 = 1"
proof -
  have t: "tag_in mem_map_tags loader_tags = Some (0x40030, 6, 64)" "tag_in cmdline_tags loader_tags = Some (0x40008, 1, 10)"
    "tag_in acpi_tags loader_tags = Some (0x40070, 14, 28)" "modules_in loader_memory loader_tags = [(0x50000, 0x58000)]"
    "data_end 0x20da0 loader_tags = 0x20e00"
    by (simp_all add: tag_in_def modules_in_def numbers loader_words tag_data_def up8_def)
  have q: "loader_memory 0x40010 = 0x71"
    using byte_of_ld64[of 0 loader_memory "0x40010"] by (simp add: loader_reads byte_of_def)
  from boot_information_reaches_the_kernel[OF loader_info] obtain m2 where m2:
    "boot_info 0x20000 0x20da0 0x40000 loader_memory = Inr (0x20e00, m2)"
    "c_modules (view m2) (ld64 (view m2) 0xffffffff80020008) [(0x50000, 0x58000)]"
    "mem_map_is (view m2) (bootinfo_mem_map 0xffffffff80020000) booted_segments"
    "\<forall>i<2. view m2 (ld64 (view m2) 0xffffffff80020000 + of_nat i) = loader_memory (of_nat (0x40010 + i))"
    "ld32 (view m2) (bootinfo_acpi 0xffffffff80020000) = 1"
    by (auto simp: t t[unfolded numbers] mem_map_read_def cmdline_read_def acpi_read_def loader_segments numbers
        simp del: of_nat_add segments_in.simps data_end.simps c_modules.simps)
  show ?thesis using m2 m2(4)[rule_format, of 0] q by (auto simp: bootinfo_mem_map_def bootinfo_acpi_def)
qed

section \<open>The start\<close>

definition loaded_boot :: boot where
  "loaded_boot = \<lparr>plat = raw_machine\<lparr>cpuid_of := (\<lambda>c. \<lparr>eax = 0x80000008, ebx = 0, ecx = 0, edx = 0x20100060\<rparr>)\<rparr>, low = loader_memory,
     eflags = 2, eflags_fixed = 0xffc0802a, efer = 0, a_bootinfo = 0x20000, a_bootinfo_data = 0x20da0, a_boot_gdt = 0x20100\<rparr>"

lemma loader_gdt: "holds loader_memory 0x20100 boot_gdt"
proof -
  have z: "loader_memory x = 0" if "x - 0x20000 < 0x108" for x using loader_blank that by (simp add: agree_def)
  have r: "ld64 loader_memory 0x20108 = 0x00cf9a000000ffff" "ld64 loader_memory 0x20110 = 0x00cf92000000ffff"
    by (simp_all add: loader_memory_def ld64_st64_sep sep_def)
  have b: "i < 8 \<Longrightarrow> loader_memory (0x20108 + of_nat i) = byte_of (0x00cf9a000000ffff :: u64) i"
    "i < 8 \<Longrightarrow> loader_memory (0x20110 + of_nat i) = byte_of (0x00cf92000000ffff :: u64) i" for i
    unfolding r[symmetric] by (rule byte_of_ld64[symmetric], assumption)+
  note bs = b(1)[of 0] b(1)[of 1] b(1)[of 2] b(1)[of 3] b(1)[of 4] b(1)[of 5] b(1)[of 6] b(1)[of 7]
    b(2)[of 0] b(2)[of 1] b(2)[of 2] b(2)[of 3] b(2)[of 4] b(2)[of 5] b(2)[of 6] b(2)[of 7]
  show ?thesis
    using bs by (simp add: holds_def boot_gdt_bytes z upt_rec byte_of_def drop_bit_eq_div)
qed

lemma loaded_boot_placed: "info_placed demo_symbols 0x20000 0x20da0 0x20e00 booted_segments"
proof -
  have "of_nat (0x20e00 - 0x20da0) = (0x60 :: u64)" by simp
  then show ?thesis
    by (simp only: info_placed_def Let_def)
      (simp add: demo_symbols_def statics_wide_def sep_def clear_of_pm_def segment_fits_def low_reserved_def
        BOOTINFO_MEM_SEGMENT_TYPE_RESERVED_def page_of_def unat_PAGES)
qed

lemma loaded_boot_loaded: "loaded loaded_boot 0x20000 0x20da0 0x20e00 0x20100 0x40000 loader_tags (0x40030, 6, 64)"
proof -
  have "tag_in mem_map_tags loader_tags = Some (0x40030, 6, 64)" by (simp add: tag_in_def numbers)
  moreover have "has_features loaded_boot" by (simp add: has_features_def loaded_boot_def bit_iff_odd)
  moreover have "{0x20100..<0x20100 + 26} \<inter> ({0x20000..<0x20000 + 80} \<union> {0x20da0..<0x20e00}) = ({} :: nat set)" by auto
  ultimately show ?thesis
    using loader_info loader_gdt loaded_boot_placed loader_segments by (simp add: loaded_def loaded_boot_def del: segments_in.simps)
qed

lemma loaded_boot_roomy: "roomy demo_symbols 0x20e00 booted_segments 33 16 2 2 2 10"
  using raw_bootable by (simp add: roomy_def bootable_def Let_def)

lemma start_initialises_memory_witness:
  "\<exists>s'. start_multiboot no_services 7 9 MULTIBOOT2_BOOTLOADER_MAGIC 0x40000 loaded_boot =
      thn (on_plat (kernel_main_devices no_services 0xffffffff80020000)) fail_loop s' \<and> long_mode s' \<and>
    memory_ready (kernel (plat s')) (frame 34) ({0..<9} \<union> {16..<32}) 0x800000"
proof -
  have e: "data_end 0x20da0 loader_tags = 0x20e00" by (simp add: tag_data_def up8_def numbers)
  have f: "low loaded_boot = loader_memory" "sym (kernel (plat loaded_boot)) = demo_symbols" by (simp_all add: loaded_boot_def)
  have "roomy (sym (kernel (plat loaded_boot))) (of_nat (data_end 0x20da0 loader_tags)) (segments_in (low loaded_boot) (0x40030, 6, 64)) 33 16 2 2 2 10"
    unfolding e f loader_segments using loaded_boot_roomy by simp
  from start_initialises_memory[OF loaded_boot_loaded this, of no_services 7 9, unfolded f loader_segments raw_pages(2) booted_length]
  obtain s' where "start_multiboot no_services 7 9 MULTIBOOT2_BOOTLOADER_MAGIC (of_nat 0x40000) loaded_boot =
      thn (on_plat (kernel_main_devices no_services (of_nat 0x20000 + hh))) fail_loop s'" "long_mode s'"
    "memory_ready (kernel (plat s')) (frame (33 + 1)) ({0..<9} \<union> {16..<32}) 0x800000" by (elim exE conjE)
  then show ?thesis by (intro exI[of _ s']) simp
qed

end
