(* ===== verification/Initfs_demo.thy ===== *)
theory Initfs_demo
  imports Cpu_demo Mm_demo Initfs Acpi
begin

text \<open>
  The results about the archive and the ACPI tables on concrete memory: an archive with the file \<open>a\<close> of five bytes at
  \<open>0x40000\<close>, behind it the zeros that \<open>tar\<close> ends an archive with, and one table at \<open>0x51000\<close>.
\<close>

section \<open>Contents\<close>

definition disk :: memory where
  "disk = (\<lambda>a. if 0x4007c \<le> a \<and> a < 0x40086 then 48 else 0)(
     0x40000 := 97, 0x40086 := 53, 0x4009c := 1, 0x40101 := 117, 0x40102 := 115, 0x40103 := 116, 0x40104 := 97,
     0x40105 := 114, 0x40107 := 48, 0x40108 := 48, 0x39000 := 117, 0x39001 := 115, 0x39002 := 116, 0x39003 := 97,
     0x39004 := 114, 0x39100 := 48, 0x39101 := 48, 0x39200 := 97, 0x39300 := 98)"

definition disk_state :: "addr \<Rightarrow> kst" where
  "disk_state e = demo_state\<lparr>mem := st64 0x38008 e (st64 0x38000 0x40000 disk)\<rparr>"

abbreviation disk_file :: entry where
  "disk_file \<equiv> \<lparr>name = [97], flag = 1, bytes = 5\<rparr>"

lemma disk_fields:
  "fs_virt_start (mem (disk_state e)) 0x38000 = 0x40000" "fs_virt_end (mem (disk_state e)) 0x38000 = e"
  by (simp_all add: disk_state_def fs_layout ld64_st64_sep sep_def)

lemma disk_byte: "\<not> a - 0x38000 < 8 \<Longrightarrow> \<not> a - 0x38008 < 8 \<Longrightarrow> mem (disk_state e) a = disk a"
  by (simp add: disk_state_def st64_def)

lemma bytes_at_numeral: "bytes_at m p (numeral k) = m p # bytes_at m (p + 1) (pred_numeral k)"
  by (simp add: numeral_eq_Suc)

lemma disk_texts: "map ch ''ustar'' = [117, 115, 116, 97, 114]" "map ch ''00'' = [48, 48]"
  by simp_all

lemma disk_literals: "literals (mem (disk_state e)) (0x39000, 0x39100)"
  by (simp add: literals_def disk_texts bytes_at_numeral disk_byte) (simp add: disk_def)

lemma disk_paths: "cstr (mem (disk_state e)) 0x39200 [97]" "cstr (mem (disk_state e)) 0x39300 [98]"
  by (simp_all add: disk_byte) (simp_all add: disk_def)

lemma disk_size: "bytes_at (mem (disk_state e)) 0x4007c 11 = [48, 48, 48, 48, 48, 48, 48, 48, 48, 48, 53]"
  by (simp add: bytes_at_numeral disk_byte) (simp add: disk_def)

lemma disk_header: "header_at (mem (disk_state e)) 0x40000 disk_file"
proof -
  have "cstr (mem (disk_state e)) 0x40000 [97]" "mem (disk_state e) 0x4009c = 1" "cstr (mem (disk_state e)) 0x40101 (map ch ''ustar'')"
    "bytes_at (mem (disk_state e)) 0x40107 2 = map ch ''00''"
    unfolding disk_texts by (simp_all add: bytes_at_numeral disk_byte) (simp_all add: disk_def)
  moreover have "\<forall>d\<in>set [48, 48, 48, 48, 48, 48, 48, 48, 48, 48, 53 :: u8]. octal_digit d" by (simp add: octal_digit_def)
  moreover have "octal_value [48, 48, 48, 48, 48, 48, 48, 48, 48, 48, 53] = 5" by (simp add: octal_value_def)
  ultimately show ?thesis by (simp add: header_at_def disk_size)
qed

lemma disk_archive: "0x40000 < e \<Longrightarrow> archive (mem (disk_state e)) e 0x40000 [disk_file]" "archive_end 0x40000 [disk_file] = 0x40400"
  using disk_header by (simp_all add: next_header_def)

lemma disk_zeros: "i < 512 \<Longrightarrow> mem (disk_state e) (0x40400 + i) = 0"
proof -
  assume i: "i < 512"
  have s: "\<not> (0x40400 + i) - b < k" if "sep 0x40400 512 b k" for b k
    using sep_outside[OF that, of "0x40400 + i"] i by simp
  have n: "0x40400 + i \<noteq> b" if "sep 0x40400 512 b 1" for b
    using s[OF that] by auto
  have "unat (0x40400 + i) = unat (0x40400 :: addr) + unat i"
    using i by (intro iffD1[OF unat_add_lem]) (simp add: word_less_nat_alt)
  then have "\<not> 0x40400 + i < 0x40086" by (simp add: word_less_nat_alt)
  then have "disk (0x40400 + i) = 0" by (simp add: disk_def n sep_def del: add.commute)
  then show ?thesis by (subst disk_byte[OF s s]) (simp_all add: sep_def)
qed

section \<open>The archive\<close>

lemma initfs_lookup_finds_witness:
  "initfs_lookup (0x39000, 0x39100) 0x38000 0x39200 0x38100 0x38108 (disk_state 0x40400) =
    Inr (SUCCESS, (disk_state 0x40400)\<lparr>mem := st64 0x38100 0x40200 (st64 0x38108 5 (mem (disk_state 0x40400)))\<rparr>)"
  using initfs_lookup_finds[OF disk_literals disk_paths(1) _ _ _ _ _ disk_fields(1)[symmetric], of "0x38100" "0x38108" "0x40400" "[disk_file]"]
    disk_archive(1)[of "0x40400"] disk_archive(2) by (simp add: disk_fields)

lemma initfs_lookup_stops_at_the_end_marker_witness:
  "initfs_lookup (0x39000, 0x39100) 0x38000 0x39300 0x38100 0x38108 (disk_state 0x40600) = Inl AssertFailed"
  using initfs_lookup_stops_at_the_end_marker[OF disk_literals disk_paths(2) _ _ _ _ _ disk_fields(1)[symmetric], of "0x38100" "0x38108" "0x40600" "[disk_file]"]
    disk_archive(1)[of "0x40600"] disk_archive(2) disk_zeros by (simp add: disk_fields)

section \<open>The tables\<close>

text \<open>A table whose 36 bytes add up to 512, the list with the pointer to it, and the name to look for.\<close>

definition acpi_contents :: memory where
  "acpi_contents = (\<lambda>_. 0)(0x51000 := 65, 0x51001 := 80, 0x51002 := 73, 0x51003 := 67, 0x51004 := 36, 0x51009 := 191,
     0x52000 := 65, 0x52001 := 80, 0x52002 := 73, 0x52003 := 67)"

definition acpi_memory :: memory where
  "acpi_memory = st64 0x50000 0x51000 acpi_contents"

definition acpi_machine :: machine where
  "acpi_machine = demo_machine\<lparr>kernel := demo_state\<lparr>mem := acpi_memory\<rparr>, acpi_tbls := 0x50000\<rparr>"

lemma acpi_byte: "\<not> a - 0x50000 < 8 \<Longrightarrow> acpi_memory a = acpi_contents a"
  by (simp add: acpi_memory_def st64_def)

lemma acpi_fields: "ram acpi_machine = acpi_memory" "acpi_tbls acpi_machine = 0x50000"
  by (simp_all add: acpi_machine_def)

lemma acpi_tables: "tables_at acpi_memory 0x50000 [0x51000]"
proof -
  have "ld64 acpi_memory 0x50008 = 0" by (simp add: ld64_def acpi_byte) (simp add: acpi_contents_def)
  moreover have "ld64 acpi_memory 0x50000 = 0x51000" by (simp add: acpi_memory_def)
  ultimately show ?thesis by simp
qed

lemma acpi_bytes: "bytes_at acpi_memory 0x51000 4 = [65, 80, 73, 67]" "bytes_at acpi_memory 0x52000 4 = [65, 80, 73, 67]"
  "bytes_at acpi_memory 0x51000 36 = [65, 80, 73, 67, 36, 0, 0, 0, 0, 191, 0, 0, 0, 0, 0, 0, 0, 0, 0, 0, 0, 0, 0,
     0, 0, 0, 0, 0, 0, 0, 0, 0, 0, 0, 0, 0]"
  by (simp_all add: bytes_at_numeral acpi_byte) (simp_all add: acpi_contents_def)

lemma acpi_length: "sdt_length acpi_memory 0x51000 = 36"
  by (simp add: sdt_length_def ld32_def ld64_def acpi_byte) (simp add: acpi_contents_def)

lemma acpi_get_table_finds_witness: "acpi_get_table 0x52000 acpi_machine = Inr (0x51000, acpi_machine)"
  using acpi_get_table_finds[of acpi_machine "[0x51000]" "0x52000"]
  by (simp add: acpi_fields acpi_tables acpi_bytes acpi_length del: tables_at.simps)

text \<open>An ACPI tag of the first kind over a root pointer that consists of zeros, and tags of a third kind over a root pointer
  of revision 2 with the right signature and checksum.\<close>

definition rejected_memory :: "u8 \<Rightarrow> memory" where
  "rejected_memory ty = (\<lambda>_. 0)(0x60000 := ty, 0x60008 := 0x52, 0x60009 := 0x53, 0x6000a := 0x44, 0x6000b := 0x20, 0x6000c := 0x50,
     0x6000d := 0x54, 0x6000e := 0x52, 0x6000f := 0x20, 0x60010 := 0xdf, 0x60017 := 2)"

definition rejected_machine :: "memory \<Rightarrow> machine" where
  "rejected_machine m = demo_machine\<lparr>kernel := demo_state\<lparr>mem := m\<rparr>\<rparr>"

lemma rejected_memory_ok: "root_pointer_ok (rejected_memory 3) 0x60008 2"
  by (simp add: root_pointer_ok_def rejected_memory_def bytes_at_numeral)

lemma acpi_init_rejects_witness:
  "acpi_init no_services 0x60000 (rejected_machine ((\<lambda>_. 0)(0x60000 := 1))) = Inr (fails EINVAL, rejected_machine ((\<lambda>_. 0)(0x60000 := 1))) \<and>
   root_pointer_ok (rejected_memory 3) 0x60008 2 \<and>
   acpi_init no_services 0x60000 (rejected_machine (rejected_memory 3)) = Inr (fails ENOTIMPL, rejected_machine (rejected_memory 3))"
proof (intro conjI rejected_memory_ok)
  let ?m = "(\<lambda>_. 0)(0x60000 := 1) :: memory"
  have t: "ld32 ?m 0x60000 = 1" by (simp add: ld32_def ld64_def)
  have "hd (bytes_at ?m 0x60008 8) \<noteq> hd (map ch ''RSD PTR '')" by (simp add: bytes_at_numeral)
  then have "\<not> root_pointer_ok ?m (0x60000 + 8) 0" by (auto simp: root_pointer_ok_def simp del: list.map)
  then show "acpi_init no_services 0x60000 (rejected_machine ?m) = Inr (fails EINVAL, rejected_machine ?m)"
    using acpi_init_rejects[of "rejected_machine ?m" "0x60000" no_services] t by (simp add: rejected_machine_def)
  have "ld32 (rejected_memory 3) 0x60000 = 3" by (simp add: rejected_memory_def ld32_def ld64_def)
  then show "acpi_init no_services 0x60000 (rejected_machine (rejected_memory 3)) = Inr (fails ENOTIMPL, rejected_machine (rejected_memory 3))"
    using acpi_init_rejects[of "rejected_machine (rejected_memory 3)" "0x60000" no_services] by (simp add: rejected_machine_def)
qed

end
