(* ===== verification/Crc.thy ===== *)
theory Crc
  imports Str Pages
begin

text \<open>
  \<open>util/crc32-arch.h\<close>: checksums with the \<open>crc32\<close> instruction. What the instruction does is taken from the manual of the
  processor: the operand is fed into a division by the polynomial \<open>0x11EDC6F41\<close>, least significant bit first, on
  reflected words. The reference is the checksum of a list of bytes, one byte after the other.
\<close>

section \<open>The instruction\<close>

text \<open>One bit of the reflected division: the polynomial without its leading term, in reversed order.\<close>

definition crc_bit :: "u32 \<Rightarrow> bool \<Rightarrow> u32" where
  "crc_bit crc b = (if bit crc 0 \<noteq> b then drop_bit 1 crc XOR 0x82F63B78 else drop_bit 1 crc)"

definition word_bits :: "'a::len word \<Rightarrow> bool list" where
  "word_bits w = map (bit w) [0..<LENGTH('a)]"

definition crc32 :: "u32 \<Rightarrow> 'a::len word \<Rightarrow> u32" where
  "crc32 crc w = foldl crc_bit crc (word_bits w)"

section \<open>The code\<close>

fun quads_more :: "u64 \<times> addr \<times> u32 \<Rightarrow> memory \<Rightarrow> bool" where
  "quads_more (q, pq, crc) m \<longleftrightarrow> q > 0"

fun quads_step :: "u64 \<times> addr \<times> u32 \<Rightarrow> (memory, u64 \<times> addr \<times> u32) kern" where
  "quads_step (q, pq, crc) = bnd (gets (\<lambda>m. ld64 m pq)) (\<lambda>v. ret (q - 8, pq + 8, crc32 crc v))"

fun rest_more :: "u64 \<times> addr \<times> u32 \<Rightarrow> memory \<Rightarrow> bool" where
  "rest_more (len, pb, crc) m \<longleftrightarrow> len > 0"

fun rest_step :: "u64 \<times> addr \<times> u32 \<Rightarrow> (memory, u64 \<times> addr \<times> u32) kern" where
  "rest_step (len, pb, crc) = bnd (gets (\<lambda>m. m pb)) (\<lambda>v. ret (len - 1, pb + 1, crc32 crc v))"

definition crc32c :: "u32 \<Rightarrow> addr \<Rightarrow> u64 \<Rightarrow> (memory, u32) kern" where
  "crc32c crc buf len =
     bnd (loop quads_more quads_step (ALIGNDOWN len 8, buf, crc)) (\<lambda>(q, pq, crc).
     bnd (loop rest_more rest_step (len AND 7, pq, crc)) (\<lambda>(len, pb, crc). ret crc))"

section \<open>Byte by byte\<close>

definition checksum :: "u32 \<Rightarrow> u8 list \<Rightarrow> u32" where
  "checksum = foldl crc32"

lemma word_bits_u64: "word_bits (ld64 m a) = concat (map (\<lambda>i. word_bits (m (a + of_nat i))) [0..<8])"
proof (rule nth_equalityI)
  have l: "length (concat (map (\<lambda>i. word_bits (m (a + of_nat i))) xs)) = 8 * length xs" for xs
    by (induction xs) (simp_all add: word_bits_def)
  show "length (word_bits (ld64 m a)) = length (concat (map (\<lambda>i. word_bits (m (a + of_nat i))) [0..<8]))"
    unfolding l by (simp add: word_bits_def)
  have n: "concat (map f [0..<k]) ! (8 * j + r) = f j ! r" if "j < k" "r < 8" "\<And>i. length (f i) = 8" for f :: "nat \<Rightarrow> bool list" and j k r
    using that
  proof (induction k)
    case (Suc k)
    have c: "length (concat (map f [0..<k])) = 8 * k" using Suc.prems(3) by (induction k) simp_all
    show ?case
    proof (cases "j = k")
      case True
      then show ?thesis using c Suc.prems by (simp add: nth_append)
    next
      case False
      then have "8 * j + r < 8 * k" using Suc.prems(1,2) by simp
      then show ?thesis using c Suc False by (simp add: nth_append)
    qed
  qed simp
  fix i assume "i < length (word_bits (ld64 m a))"
  then have i: "i < 64" by (simp add: word_bits_def)
  have "concat (map (\<lambda>i. word_bits (m (a + of_nat i))) [0..<8]) ! (8 * (i div 8) + i mod 8) = word_bits (m (a + of_nat (i div 8))) ! (i mod 8)"
    by (rule n) (use i in \<open>simp_all add: word_bits_def\<close>)
  then show "word_bits (ld64 m a) ! i = concat (map (\<lambda>i. word_bits (m (a + of_nat i))) [0..<8]) ! i"
    using i by (simp add: word_bits_def bit_ld64)
qed

lemma crc_concat: "foldl crc_bit c (concat (map word_bits xs)) = checksum c xs" for xs :: "u8 list"
  by (induction xs arbitrary: c) (simp_all add: checksum_def crc32_def)

lemma bytes_upt: "bytes_at m a n = map (\<lambda>i. m (a + of_nat i)) [0..<n]"
proof (induction n arbitrary: a)
  case (Suc n)
  have "[0..<Suc n] = 0 # map Suc [0..<n]" by (simp add: map_Suc_upt upt_conv_Cons)
  then show ?case using Suc by (simp add: add.assoc comp_def)
qed simp

lemma crc_quad: "crc32 c (ld64 m a) = checksum c (bytes_at m a 8)"
proof -
  have "crc32 c (ld64 m a) = foldl crc_bit c (concat (map word_bits (map (\<lambda>i. m (a + of_nat i)) [0..<8])))"
    unfolding crc32_def word_bits_u64 map_map comp_def ..
  then show ?thesis unfolding crc_concat bytes_upt .
qed

lemma bytes_append: "bytes_at m a (i + j) = bytes_at m a i @ bytes_at m (a + of_nat i) j"
  by (induction i arbitrary: a) (simp_all add: add.assoc)

lemma quads_loop:
  "8 * k < 2 ^ 64 \<Longrightarrow> loop quads_more quads_step (of_nat (8 * k), p, c) m =
     Inr ((0, p + of_nat (8 * k), checksum c (bytes_at m p (8 * k))), m)"
proof (induction k arbitrary: p c)
  case 0
  then show ?case by (simp add: loop_stop checksum_def)
next
  case (Suc k)
  have u: "unat (of_nat j :: u64) = j" if "j < 2 ^ 64" for j using that by (simp add: unat_of_nat take_bit_nat_eq_self)
  have "unat (of_nat (8 * Suc k) :: u64) = 8 * Suc k" using Suc.prems by (rule u)
  then have "(0 :: u64) < of_nat (8 * Suc k)" by (simp add: word_less_nat_alt)
  then have "loop quads_more quads_step (of_nat (8 * Suc k), p, c) m =
      loop quads_more quads_step (of_nat (8 * k), p + 8, checksum c (bytes_at m p 8)) m"
    by (intro loop_step) (simp_all add: crc_quad kern)
  also have "\<dots> = Inr ((0, p + 8 + of_nat (8 * k), checksum (checksum c (bytes_at m p 8)) (bytes_at m (p + 8) (8 * k))), m)"
    by (rule Suc.IH) (use Suc.prems in simp)
  also have "checksum (checksum c (bytes_at m p 8)) (bytes_at m (p + 8) (8 * k)) = checksum c (bytes_at m p (8 * Suc k))"
    using bytes_append[of m p 8 "8 * k"] by (simp add: checksum_def)
  finally show ?case by (simp add: add.assoc)
qed

lemma rest_loop:
  "k < 2 ^ 64 \<Longrightarrow> loop rest_more rest_step (of_nat k, p, c) m = Inr ((0, p + of_nat k, checksum c (bytes_at m p k)), m)"
proof (induction k arbitrary: p c)
  case (Suc k)
  have "unat (of_nat (Suc k) :: u64) = Suc k" using Suc.prems by (simp add: unat_of_nat take_bit_nat_eq_self del: of_nat_Suc)
  then have "(0 :: u64) < of_nat (Suc k)" by (simp add: word_less_nat_alt del: of_nat_Suc)
  then have "loop rest_more rest_step (of_nat (Suc k), p, c) m = loop rest_more rest_step (of_nat k, p + 1, crc32 c (m p)) m"
    by (intro loop_step) (simp_all add: kern)
  then show ?case using Suc by (simp add: checksum_def add.assoc)
qed (simp add: loop_stop checksum_def)

text \<open>C36: \<open>crc32c\<close> computes the checksum of the bytes in order, whatever their number and their alignment: taking eight bytes
  at a time makes no difference. It returns for every length and changes nothing, and a checksum can be taken in
  pieces.\<close>

theorem crc32c_is_bytewise:
  "crc32c crc buf n m = Inr (checksum crc (bytes_at m buf (unat n)), m) \<and>
    checksum crc (bytes_at m buf (i + j)) = checksum (checksum crc (bytes_at m buf i)) (bytes_at m (buf + of_nat i) j)"
proof
  let ?k = "unat n div 8" and ?r = "unat n mod 8"
  have k: "8 * ?k < 2 ^ 64" using unat_lt64[of n] by simp
  have "unat (ALIGNDOWN n (2 ^ 3)) = unat n div 2 ^ 3 * 2 ^ 3" by (subst unat_ALIGNDOWN) simp_all
  then have q: "ALIGNDOWN n 8 = of_nat (8 * ?k)"
    using k by (simp add: word_unat_eq_iff unat_of_nat take_bit_nat_eq_self mult.commute del: of_nat_mult)
  have "n AND 7 = of_nat ?r" using and_mask_mod[of n 3] by (simp add: word_unat_eq_iff unat_mod unat_of_nat take_bit_nat_eq_self)
  moreover have "bytes_at m buf (unat n) = bytes_at m buf (8 * ?k) @ bytes_at m (buf + of_nat (8 * ?k)) ?r"
    using bytes_append[of m buf "8 * ?k" ?r] by simp
  ultimately show "crc32c crc buf n m = Inr (checksum crc (bytes_at m buf (unat n)), m)"
    using quads_loop[OF k, of buf crc m] rest_loop[of ?r]
    by (simp add: crc32c_def q bnd_Inr kern checksum_def del: of_nat_mult)
  show "checksum crc (bytes_at m buf (i + j)) = checksum (checksum crc (bytes_at m buf i)) (bytes_at m (buf + of_nat i) j)"
    by (simp add: bytes_append checksum_def)
qed

end
