(* ===== verification/Spec2Isabelle.thy ===== *)
theory Spec2Isabelle
  imports Memory Str Structures Entry_demo Initfs_demo Crc
begin

text \<open>
  \<^bold>\<open>MIMIK\<close> is a small kernel for x86-64 in C. The boot code (assembler) turns the Multiboot2 information into a
  \<open>struct bootinfo\<close>, checks the processor, turns paging on with a few tables, switches to 64 bit mode and calls \<open>kernel_main\<close>. That function brings up the physical
  memory manager, the page tables, the heap, the permissions of its own sections, the interrupt table, the processor
  features, ACPI, the interrupt controller and the timer, and takes over the boot module as a file system. This library
  models all of it, from \<open>_start\<close> on, and proves what each part does, on every path, the faulty ones included.

  \<^bold>\<open>How C is represented.\<close> A function that works on a state is a value of \<open>('s, 'a) kern\<close> (\<open>Prelude\<close>): from the state to a
  \<open>fault\<close> or to a result and a new state. The faults are the ways in which kernel code never returns: a failed \<open>ASSERT\<close>
  (\<open>AssertFailed\<close>), \<open>TODO\<close> (\<open>Unimplemented\<close>), an access that no page table entry allows (\<open>PageFault\<close>), undefined
  behaviour (\<open>Undefined\<close>), a loop that does not end (\<open>Diverges\<close>) and a bound on mutual recursion (\<open>TooDeep\<close>, see below).
  Statements are composed with \<open>bnd\<close> and \<open>thn\<close>, errors are returned as negative \<open>status\<close> values as in the code, and words
  have the width of the C type. A \<open>for\<close> or \<open>while\<close> loop is \<open>loop c b\<close>, with the test and the body as definitions of their
  own; it is built on \<open>while_option\<close>, so that a loop that does not end is the fault \<open>Diverges\<close> and a theorem that a
  function returns includes that its loops end. Loops with a bound that is known are recursive functions instead.

  \<^bold>\<open>The states.\<close> \<open>memory\<close> maps 64 bit addresses to bytes. \<open>kst\<close> (\<open>Kstate\<close>) is what the memory managers share: memory with
  every object whose address is taken, the addresses the linker chooses (\<open>symbols\<close>, a parameter), the remaining statics,
  and the page tables, kept apart from memory as \<open>frames\<close>: the entries of the table in each physical page. An access
  through the temporary window or through the direct mapping is resolved to such a page. \<open>machine\<close> (\<open>Machine\<close>) adds the
  processor registers, the statics of the drivers, the history of port accesses and a device that answers reads from that
  history. Devices and \<open>cpuid\<close> are parameters. The 8259 chip, the serial line, the timer chip, the \<open>crc32\<close> instruction and
  the formats of descriptors are written down after the manuals, as references that the code is compared with.

  \<^bold>\<open>The theories\<close>, with the sources they model under \<open>src/\<close>:
  \<^item> \<open>Prelude\<close> (\<open>types.h\<close>, \<open>errors.h\<close>, \<open>assert.h\<close>): words, errors, the monad, loops, byte memory, separation of regions.
  \<^item> \<open>Memory\<close> (\<open>mem/mem.c\<close>), \<open>Str\<close> (\<open>mem/str.c\<close>), \<open>Pages\<close> (\<open>size.h\<close>, \<open>align.h\<close>, \<open>page.h\<close>), \<open>Bitmap\<close> (\<open>structs/bitmap.c\<close>), \<open>Lists\<close>
    (\<open>structs/list.c\<close>), \<open>Crc\<close> (\<open>crc32-arch.h\<close>): the utilities. Bitmaps stand for sets (locale \<open>bit_array\<close>), rings of nodes
    for sequences (locale \<open>linked_list\<close>). \<open>Structures\<close> has their properties: what the block operations really write, that
    a bit that is set is read back and no other changes, that joining two lists concatenates them.
  \<^item> \<open>Kstate\<close>: the shared state. \<open>Pm\<close> (\<open>mm/pm.c\<close>) models every function of the physical memory manager. \<open>Pm_facts\<close> has the
    invariant \<open>pm_ok\<close> for the first 128 MB, the set \<open>locked\<close> of locked pages, and the effect of locking, releasing and
    requesting; the locale \<open>page_source\<close> is what clients rely on. \<open>Pm_calls\<close>: any sequence of calls behaves like an allocator of sets. \<open>Pm_boot\<close> shows that \<open>pm_init\<close> establishes the invariant.
  \<^item> \<open>Vm\<close> (\<open>mm/vm.c\<close>, \<open>mm/vm.h\<close>): every function of the virtual memory manager. \<open>Vm_window\<close>: the temporary window. \<open>Vm_walk\<close>: translation
    as a walk over four tables to a page of 4 KiB (\<open>translate\<close>), and the operations on one page. \<open>Mmu\<close>: the translation of the processor (canonical
    addresses, large pages, reserved bits), which agrees with \<open>translate\<close> where no large page is met. \<open>Vm_map\<close>, \<open>Vm_ops\<close>: mapping,
    unmapping and flags of a run of pages inside one table. \<open>Vm_limits\<close>: where the code faults, diverges or changes more
    than it should. \<open>Vm_boot\<close>: \<open>vm_init\<close>. \<open>Remap\<close>: \<open>kernel_remap\<close> of \<open>kernel.c\<close>, no page both writable and executable.
  \<^item> \<open>Mm\<close> (\<open>mm/mm.c\<close>): the heap. \<open>Mm_map\<close>: \<open>mm_map\<close> over the locale \<open>kernel_pages\<close>. \<open>Mm_slabs\<close>: the choice of the slab. \<open>Mm_heap\<close>:
    the relation \<open>heap_rel\<close> to an abstract heap, which \<open>mm_alloc\<close> refines. \<open>Mm_blocks\<close>: the bytes that clients asked for, disjoint up to 48
    bytes and overlapping beyond. \<open>Mm_limits\<close>: when the heap cannot grow.
  \<^item> \<open>Machine\<close> (\<open>io.h\<close>, \<open>cpuid.h\<close>, \<open>int-arch.h\<close>), \<open>Console\<close>, \<open>Printk\<close> (\<open>log/printk.c\<close>), \<open>Serial\<close> (\<open>log/put.c\<close>), \<open>Log\<close>: output.
    \<open>printk\<close> is modelled over any \<open>putc\<close>; the locale \<open>console\<close> is interpreted on the serial port, and the formats are
    compared with a reference.
  \<^item> \<open>Pic\<close> (\<open>cpu/pic.c\<close>), \<open>Gdt\<close> (\<open>cpu/gdt.h\<close>, \<open>cpu/gdt.S\<close>), \<open>Isr\<close> (\<open>cpu/isr.c\<close>, \<open>isr-arch.h\<close>), \<open>Pit\<close> (\<open>cpu/pit.c\<close>, \<open>cpu/isr.S\<close>):
    descriptors, gates, handlers, controller and timer. \<open>Pit\<close> has the step relation of a machine that serves interrupts and
    an invariant of its reachable states.
  \<^item> \<open>Initfs\<close> (\<open>common/initfs.c\<close>) and \<open>Acpi\<close> (\<open>common/acpi.c\<close>): looking a file up in an archive, and the tables of the firmware.
  \<^item> \<open>Kernel\<close> (\<open>kernel.c\<close>, \<open>arch.c\<close>, \<open>assert.c\<close>, \<open>stack-chk.c\<close>): the start. \<open>Boot\<close> composes the results: from what the boot code
    leaves, \<open>kernel_main\<close> reaches \<open>isr_init\<close> with all managers in their invariants and the sections protected.
  \<^item> \<open>Paging\<close> (\<open>boot/paging.S\<close>): the code that builds the first page tables, instruction by instruction, with registers as variables.
    \<open>Start\<close> composes it with \<open>Boot\<close>: its tables are the ones with which \<open>kernel_main\<close> starts, and nobody locks their pages.
  \<^item> \<open>Multiboot\<close> (\<open>multiboot2/entry.S\<close>, and the pointers of \<open>_stub64\<close>): the boot information. \<open>Multiboot_facts\<close>: what each tag leaves in
    memory. \<open>Multiboot_run\<close>: the loop over the tags, with an invariant of the structures built so far. \<open>Handover\<close>: what the kernel reads.
  \<^item> \<open>Entry\<close> (\<open>boot/stub.S\<close>, \<open>boot/gdt.S\<close>): the checks and the mode of the processor, and \<open>_start\<close> as a whole. \<open>Entry_run\<close> composes it with
    \<open>Handover\<close> and \<open>Start\<close>: from the tags of the boot loader to the three memory managers.
  \<^item> \<open>Pm_demo\<close>, \<open>Vm_demo\<close>, \<open>Mm_demo\<close>, \<open>Cpu_demo\<close>, \<open>Kernel_demo\<close>, \<open>Start_demo\<close>, \<open>Entry_demo\<close>, \<open>Initfs_demo\<close>: every property at a concrete state.

  \<^bold>\<open>Calls between the managers.\<close> \<open>pm.c\<close> calls \<open>mm_alloc\<close> for a new bitmap and itself for a page, \<open>vm.c\<close> calls
  \<open>pm_request_page\<close> for a new table, and \<open>mm.c\<close> both. The definitions take the services they call as arguments (\<open>services\<close>);
  \<open>k_services n\<close> in \<open>Mm\<close> ties the knot with at most \<open>n\<close> nested calls, and \<open>TooDeep\<close> beyond. The properties hold for any
  services: below 128 MB, with one bitmap, the physical memory manager never uses them.

  \<^bold>\<open>Bounds.\<close> The physical memory properties are about the first bitmap: 32768 pages, 128 MB. More bitmaps are modelled, but
  the code cannot use them (it gives each the index 0), so there is nothing to prove of them. The mapping properties are
  about runs of pages that one table of the last level holds, with the upper tables present: a missing table makes the
  code fault, which is proved as well. Recursions over the tables have the number of levels (4) as their argument, so no
  fuel is involved. Regions that \<open>mem_set\<close> overruns are hypotheses (\<open>statics_wide\<close>, \<open>slabs_placed\<close>, \<open>boot_layout\<close>): the linker
  has to place something harmless behind them, and the demos have addresses for which this is so.

  \<^bold>\<open>Logging.\<close> The managers log with macros that add a coloured prefix and call \<open>printk\<close>. As no manager depends on it, their
  state collects the texts in \<open>messages\<close>. What \<open>printk\<close> prints is the subject of \<open>Log\<close>.

  \<^bold>\<open>The boot code\<close> works on physical memory (\<open>low\<close> of the record \<open>boot\<close>) with 32 bit registers; \<open>mem\<close> is set to the view through the
  higher half when \<open>kernel_main\<close> is called. Its page tables are in \<open>frames\<close> from the beginning, and its stack is left out: the pages behind
  the boot information and the stack must not overlap what it reads, which the linker sees to. The hypotheses of the composed theorem are
  \<open>loaded\<close> (the tags are well formed, the tables and the boot information are apart) and \<open>roomy\<close> (the layout and two free pages).

  \<^bold>\<open>Not modelled.\<close> The header that the boot loader looks for and the linker script, which are data. The prefixes of \<open>log.h\<close>, the spellings of compiler extensions in
  \<open>compiler.h\<close> and of offsets in \<open>struct.h\<close>, and \<open>time.h\<close>. In the timer stub, segment and stack registers. Caches, the
  translation buffer (invalidated addresses are recorded, not interpreted) and interrupts that arrive while a C function
  runs.
\<close>

end
